(* ===== verification/Kernel_Prelude.thy ===== *)
theory Kernel_Prelude
  imports Main "HOL-Library.Word"
begin

text \<open>
  Shared vocabulary of the development: the machine types of the 32-bit SPARC kernel, the
  outcome type of kernel routines, the error numbers the modelled system calls return, the
  context a system call runs in, and the generic lemmas on words and lists that the component
  theories use.
\<close>

unbundle bit_operations_syntax

section \<open>Machine types\<close>

text \<open>
  The kernel is compiled for a 32-bit machine: \<open>int\<close>, \<open>long\<close>, \<open>ulong_t\<close> and
  \<open>size_t\<close> are 32 bits wide, \<open>short\<close> and \<open>ushort\<close> 16. A signed object is a
  word that is read with \<open>sint\<close>.
\<close>

type_synonym ulong = "32 word"
type_synonym int32 = "32 word"
type_synonym ushort = "16 word"
type_synonym short = "16 word"
type_synonym byte = "8 word"

section \<open>Outcomes\<close>

text \<open>
  A kernel routine either panics with a message, accesses memory outside the object it works on
  (\<open>Fault\<close>, which C leaves undefined), or returns a value.
\<close>

datatype 'a kres = Panic string | Fault | Ret 'a

fun kbind :: "'a kres \<Rightarrow> ('a \<Rightarrow> 'b kres) \<Rightarrow> 'b kres" where
  "kbind (Panic m) f = Panic m"
| "kbind Fault f = Fault"
| "kbind (Ret x) f = f x"

definition of_ptr :: "'a option \<Rightarrow> 'a kres" where
  "of_ptr p = (case p of None \<Rightarrow> Fault | Some x \<Rightarrow> Ret x)"

text \<open>The element of an array at a position, and the array with the element changed.\<close>

definition elem_at :: "'a list \<Rightarrow> nat \<Rightarrow> 'a kres" where
  "elem_at xs i = (if i < length xs then Ret (xs ! i) else Fault)"

definition put_at :: "'a list \<Rightarrow> nat \<Rightarrow> ('a \<Rightarrow> 'a) \<Rightarrow> 'a list kres" where
  "put_at xs i f = (if i < length xs then Ret (xs[i := f (xs ! i)]) else Fault)"

lemma kbind_Ret_iff [simp]: "kbind r f = Ret y \<longleftrightarrow> (\<exists>x. r = Ret x \<and> f x = Ret y)"
  by (cases r) auto

lemma kbind_assoc: "kbind (kbind r f) g = kbind r (\<lambda>x. kbind (f x) g)"
  by (cases r) simp_all

lemma of_ptr_simps [simp]: "of_ptr None = Fault" "of_ptr (Some x) = Ret x"
  by (simp_all add: of_ptr_def)

lemma of_ptr_Ret_iff [simp]: "of_ptr p = Ret x \<longleftrightarrow> p = Some x"
  by (cases p) simp_all

lemma elem_at_in [simp]: "i < length xs \<Longrightarrow> elem_at xs i = Ret (xs ! i)"
  by (simp add: elem_at_def)

lemma elem_at_Ret_iff [simp]: "elem_at xs i = Ret x \<longleftrightarrow> i < length xs \<and> x = xs ! i"
  by (auto simp: elem_at_def)

lemma put_at_in [simp]: "i < length xs \<Longrightarrow> put_at xs i f = Ret (xs[i := f (xs ! i)])"
  by (simp add: put_at_def)

lemma put_at_Ret_iff [simp]: "put_at xs i f = Ret ys \<longleftrightarrow> i < length xs \<and> ys = xs[i := f (xs ! i)]"
  by (auto simp: put_at_def)

section \<open>Collections of rewrite rules\<close>

named_theorems nowrap \<open>additions and subtractions that do not wrap around\<close>

section \<open>Words\<close>

lemma unat_bound: "unat (w :: 'a::len word) < 2 ^ LENGTH('a)"
  by (rule unsigned_less)

lemma unat_nonzero: "w \<noteq> 0 \<Longrightarrow> 0 < unat (w :: 'a::len word)"
  by (simp add: unat_gt_0)

lemma unat_add_nowrap [nowrap]:
  fixes a b :: "'a::len word"
  assumes "unat a + unat b < 2 ^ LENGTH('a)"
  shows "unat (a + b) = unat a + unat b"
  using assms by (simp add: unat_plus_if')

lemma unat_mult_nowrap [nowrap]:
  fixes a b :: "'a::len word"
  assumes "unat a * unat b < 2 ^ LENGTH('a)"
  shows "unat (a * b) = unat a * unat b"
  using assms by (simp flip: unat_mult_lem)

lemma unat_sub_nowrap [nowrap]:
  fixes a b :: "'a::len word"
  assumes "unat b \<le> unat a"
  shows "unat (a - b) = unat a - unat b"
  using assms by (simp add: unat_sub_if')

lemma sint_in_range:
  fixes a :: "'a::len word"
  shows "- (2 ^ (LENGTH('a) - 1)) \<le> sint a" and "sint a < 2 ^ (LENGTH('a) - 1)"
  using sint_ge [of a] sint_lt [of a] by simp_all

lemma uint_of_sint_nonneg:
  fixes a :: "'a::len word"
  assumes "0 \<le> sint a"
  shows "uint a = sint a"
proof -
  have "sint a < 2 ^ (LENGTH('a) - 1)" by (rule sint_in_range)
  also have "\<dots> \<le> (2::int) ^ LENGTH('a)" by (rule power_increasing) simp_all
  finally have "take_bit LENGTH('a) (sint a) = sint a"
    using assms by (intro take_bit_int_eq_self)
  then show ?thesis by (simp add: uint_sint)
qed

lemma sint_of_uint_small:
  fixes a :: "'a::len word"
  assumes "uint a < 2 ^ (LENGTH('a) - 1)"
  shows "sint a = uint a"
proof -
  have "- (2 ^ (LENGTH('a) - Suc 0)) \<le> uint a"
    by (rule order_trans [of _ 0]) simp_all
  then have "signed_take_bit (LENGTH('a) - Suc 0) (uint a) = uint a"
    using assms by (intro signed_take_bit_int_eq_self) simp_all
  then show ?thesis by (simp add: sint_uint)
qed

lemma sint_pos_iff:
  fixes a :: "'a::len word"
  shows "0 < sint a \<longleftrightarrow> 0 < unat a \<and> unat a < 2 ^ (LENGTH('a) - 1)"
proof
  assume pos: "0 < sint a"
  then have u: "uint a = sint a" by (intro uint_of_sint_nonneg) simp
  with pos sint_in_range(2) [of a] have "0 < uint a" "uint a < 2 ^ (LENGTH('a) - 1)" by simp_all
  then have "0 < int (unat a)" "int (unat a) < int (2 ^ (LENGTH('a) - 1))" by simp_all
  then show "0 < unat a \<and> unat a < 2 ^ (LENGTH('a) - 1)"
    by (simp only: of_nat_less_iff of_nat_0_less_iff)
next
  assume a: "0 < unat a \<and> unat a < 2 ^ (LENGTH('a) - 1)"
  then have "int (unat a) < int (2 ^ (LENGTH('a) - 1))" by (simp only: of_nat_less_iff)
  then have "sint a = uint a" by (intro sint_of_uint_small) simp
  also have "\<dots> = int (unat a)" by simp
  finally show "0 < sint a" using a by linarith
qed

lemma uint_int_unat: "uint w = int (unat (w :: 'a::len word))"
  by simp

lemma unat_of_nat_small: "n < 2 ^ LENGTH('a) \<Longrightarrow> unat (word_of_nat n :: 'a::len word) = n"
  by (simp add: unsigned_of_nat take_bit_nat_eq_self)

lemma sint_unat: "0 \<le> sint (w :: 'a::len word) \<Longrightarrow> sint w = int (unat w)"
  using uint_of_sint_nonneg [of w] by simp

lemma sint_eq_iff: "sint a = sint b \<longleftrightarrow> a = b" for a b :: "'a::len word"
  by (metis word_eq_iff_signed)

lemma unat_of_sint_nonneg:
  assumes "0 \<le> sint (w :: 32 word)"
  shows "unat w < 2147483648"
proof -
  have "sint w < 2147483648" using sint_in_range(2) [of w] by simp
  then show ?thesis using sint_unat [OF assms] by linarith
qed

lemma sint_of_unat_small:
  fixes w :: "'a::len word"
  assumes "unat w < 2 ^ (LENGTH('a) - 1)"
  shows "sint w = int (unat w)"
proof -
  have "int (unat w) < int (2 ^ (LENGTH('a) - 1))" using assms by (simp only: of_nat_less_iff)
  then have "sint w = uint w" by (intro sint_of_uint_small) simp
  then show ?thesis by simp
qed

lemma sint_small32: "unat (w :: int32) < 2147483648 \<Longrightarrow> sint w = int (unat w)"
  by (rule sint_of_unat_small) simp

lemma uint_div_nonneg: "0 \<le> n \<Longrightarrow> 0 \<le> uint (w :: 'a::len word) div n"
  by (simp add: pos_imp_zdiv_nonneg_iff div_int_pos_iff)

lemma unat_ucast_16_32 [simp]: "unat (ucast (w :: 16 word) :: 32 word) = unat w"
proof -
  have "unat w < 2 ^ 32" using unat_bound [of w] by simp
  then show ?thesis by (simp add: unsigned_ucast_eq take_bit_nat_eq_self)
qed

lemma uint_ucast_32_16_le: "uint (ucast (w :: 32 word) :: 16 word) \<le> uint w"
  by (simp add: unsigned_ucast_eq take_bit_int_less_eq_self_iff)

lemma unat_ucast_32_16: "unat w < 65536 \<Longrightarrow> unat (ucast (w :: 32 word) :: 16 word) = unat w"
  by (simp add: unsigned_ucast_eq take_bit_nat_eq_self)

lemma word_bits_eq_iff:
  "a = b \<longleftrightarrow> (\<forall>n<LENGTH('a). bit a n = bit b n)" for a b :: "'a::len word"
  by (auto intro: bit_word_eqI)

section \<open>First index\<close>

text \<open>The least index of a list whose element satisfies a predicate, as a table search finds it.\<close>

fun first_idx :: "('a \<Rightarrow> bool) \<Rightarrow> 'a list \<Rightarrow> nat option" where
  "first_idx P [] = None"
| "first_idx P (x # xs) = (if P x then Some 0 else map_option Suc (first_idx P xs))"

lemma first_idx_None_iff: "first_idx P xs = None \<longleftrightarrow> (\<forall>i<length xs. \<not> P (xs ! i))"
proof (induction xs)
  case (Cons x xs)
  then show ?case by (auto simp: less_Suc_eq_0_disj)
qed simp

lemma first_idx_Some_iff:
  "first_idx P xs = Some i \<longleftrightarrow> i < length xs \<and> P (xs ! i) \<and> (\<forall>j<i. \<not> P (xs ! j))"
proof (induction xs arbitrary: i)
  case (Cons x xs)
  show ?case
  proof (cases i)
    case (Suc k)
    then show ?thesis using Cons.IH [of k] by (auto simp: less_Suc_eq_0_disj)
  qed (auto simp: Cons.IH)
qed simp

lemma first_idx_SomeD:
  assumes "first_idx P xs = Some i"
  shows "i < length xs" and "P (xs ! i)"
  using assms by (simp_all add: first_idx_Some_iff)

end
