(* ===== verification/Resource_Map.thy ===== *)
theory Resource_Map
  imports Kernel_Prelude
begin

text \<open>
  The contract of the resource map allocator, as the semaphore and message facilities rely on
  it: what an allocation and a release do to the set of free addresses. The client lemmas are
  proved here once, from the contract alone.
\<close>

definition blk :: "ulong \<Rightarrow> ulong \<Rightarrow> nat set" where
  "blk addr sz = {unat addr ..< unat addr + unat sz}"

text \<open>
  A client keeps its blocks in a table: entry \<open>i\<close> of the entries in use \<open>I\<close> holds the
  block \<open>B i\<close>. The blocks are disjoint from the free addresses and from each other.
\<close>

definition owned :: "nat set \<Rightarrow> 'i set \<Rightarrow> ('i \<Rightarrow> nat set) \<Rightarrow> bool" where
  "owned free I B \<longleftrightarrow>
     (\<forall>i\<in>I. B i \<inter> free = {}) \<and> (\<forall>i\<in>I. \<forall>j\<in>I. i \<noteq> j \<longrightarrow> B i \<inter> B j = {})"

lemma owned_empty [simp]: "owned free {} B"
  by (simp add: owned_def)

lemma owned_mono: "owned free I B \<Longrightarrow> free' \<subseteq> free \<Longrightarrow> J \<subseteq> I \<Longrightarrow> owned free' J B"
  unfolding owned_def by blast

lemma owned_cong: "(\<And>i. i \<in> I \<Longrightarrow> B i = C i) \<Longrightarrow> owned free I B \<longleftrightarrow> owned free I C"
  by (simp add: owned_def)

locale resource_map =
  fixes wf :: "'m \<Rightarrow> bool"
    and free :: "'m \<Rightarrow> nat set"
    and slots :: "'m \<Rightarrow> nat"
    and alloc :: "'m \<Rightarrow> ulong \<Rightarrow> (ulong \<times> 'm) kres"
    and release :: "'m \<Rightarrow> ulong \<Rightarrow> ulong \<Rightarrow> ('m \<times> bool) kres"
  assumes alloc_total: "wf m \<Longrightarrow> 0 < sint sz \<Longrightarrow> \<exists>a m'. alloc m sz = Ret (a, m')"
    and alloc_fail: "wf m \<Longrightarrow> 0 < sint sz \<Longrightarrow> alloc m sz = Ret (0, m') \<Longrightarrow> m' = m"
    and alloc_wf: "wf m \<Longrightarrow> 0 < sint sz \<Longrightarrow> alloc m sz = Ret (a, m') \<Longrightarrow> wf m'"
    and alloc_slots: "wf m \<Longrightarrow> 0 < sint sz \<Longrightarrow> alloc m sz = Ret (a, m') \<Longrightarrow> slots m' = slots m"
    and alloc_block: "wf m \<Longrightarrow> 0 < sint sz \<Longrightarrow> alloc m sz = Ret (a, m') \<Longrightarrow> a \<noteq> 0 \<Longrightarrow>
      blk a sz \<subseteq> free m \<and> free m' = free m - blk a sz"
    and release_total: "wf m \<Longrightarrow> 2 \<le> slots m \<Longrightarrow> a \<noteq> 0 \<Longrightarrow> 0 < sint sz \<Longrightarrow>
      unat a + unat sz < 2 ^ 32 \<Longrightarrow> blk a sz \<inter> free m = {} \<Longrightarrow> \<exists>m' w. release m sz a = Ret (m', w)"
    and release_wf: "wf m \<Longrightarrow> 2 \<le> slots m \<Longrightarrow> a \<noteq> 0 \<Longrightarrow> 0 < sint sz \<Longrightarrow>
      unat a + unat sz < 2 ^ 32 \<Longrightarrow> blk a sz \<inter> free m = {} \<Longrightarrow> release m sz a = Ret (m', w) \<Longrightarrow>
      wf m' \<and> slots m' = slots m"
    and release_free: "wf m \<Longrightarrow> 2 \<le> slots m \<Longrightarrow> a \<noteq> 0 \<Longrightarrow> 0 < sint sz \<Longrightarrow>
      unat a + unat sz < 2 ^ 32 \<Longrightarrow> blk a sz \<inter> free m = {} \<Longrightarrow> release m sz a = Ret (m', w) \<Longrightarrow>
      blk a sz \<subseteq> free m' \<and> free m' \<subseteq> free m \<union> blk a sz"
begin

text \<open>An allocated block is new: it meets none of the blocks already handed out.\<close>

lemma alloc_owned:
  assumes "wf m" "0 < sint sz" "owned (free m) I B" "k \<notin> I" "alloc m sz = Ret (a, m')" "a \<noteq> 0"
  shows "owned (free m') (insert k I) (B(k := blk a sz))"
proof -
  note own = assms(3) [unfolded owned_def]
  have new: "blk a sz \<subseteq> free m" and rest: "free m' = free m - blk a sz"
    using alloc_block [OF assms(1,2,5,6)] by auto
  have "B i \<inter> free m' = {}" "B i \<inter> blk a sz = {}" "blk a sz \<inter> B i = {}" if "i \<in> I" for i
    using own that new rest by blast+
  with own rest assms(4) show ?thesis unfolding owned_def by auto
qed

text \<open>Releasing a block that is owned succeeds, and the other blocks stay owned.\<close>

lemma release_owned:
  assumes "wf m" "2 \<le> slots m" "a \<noteq> 0" "0 < sint sz" "unat a + unat sz < 2 ^ 32"
    and own: "owned (free m) I B" and k: "k \<in> I" "B k = blk a sz"
  shows "\<exists>m' w. release m sz a = Ret (m', w) \<and> wf m' \<and> slots m' = slots m \<and>
    owned (free m') (I - {k}) B"
proof -
  have dis: "blk a sz \<inter> free m = {}" using own k by (auto simp: owned_def)
  obtain m' w where r: "release m sz a = Ret (m', w)"
    using release_total [OF assms(1-5) dis] by blast
  have "free m' \<subseteq> free m \<union> blk a sz" using release_free [OF assms(1-5) dis r] by blast
  moreover have "owned (free m \<union> blk a sz) (I - {k}) B"
    using own k unfolding owned_def by blast
  ultimately have "owned (free m') (I - {k}) B" by (auto intro: owned_mono)
  with r release_wf [OF assms(1-5) dis r] show ?thesis by blast
qed

text \<open>Allocating and releasing the same block gives the addresses back.\<close>

lemma alloc_release:
  assumes "wf m" "2 \<le> slots m" "0 < sint sz" "alloc m sz = Ret (a, m')" "a \<noteq> 0"
    "unat a + unat sz < 2 ^ 32"
  shows "\<exists>m'' w. release m' sz a = Ret (m'', w) \<and> wf m'' \<and> blk a sz \<subseteq> free m'' \<and> free m'' \<subseteq> free m"
proof -
  have m': "wf m'" "slots m' = slots m" "blk a sz \<subseteq> free m" "free m' = free m - blk a sz"
    using alloc_wf [OF assms(1,3,4)] alloc_slots [OF assms(1,3,4)] alloc_block [OF assms(1,3,4,5)]
    by auto
  then have dis: "blk a sz \<inter> free m' = {}" by auto
  have two: "2 \<le> slots m'" using m' assms(2) by simp
  obtain m'' w where r: "release m' sz a = Ret (m'', w)"
    using release_total [OF m'(1) two assms(5,3,6) dis] by blast
  with release_wf [OF m'(1) two assms(5,3,6) dis r] release_free [OF m'(1) two assms(5,3,6) dis r] m'
  show ?thesis by blast
qed

end

end
