(* ===== verification/Rmap.thy ===== *)
theory Rmap
  imports Resource_Map
begin

text \<open>
  Resource maps, \<open>src/uts/common/os/rmap.c\<close> and \<open>src/uts/common/sys/map.h\<close>. A map is a
  dense array of free segments, sorted by address and ended by a slot of size 0. The model
  keeps the whole array, slots past the delimiter included. A pointer \<open>bp\<close> into the array is
  a split of the array at \<open>bp\<close>: the slots in front of it, the nearest first, and the slots
  from \<open>bp\<close> on; running past the last slot is \<open>Fault\<close>. The lemmas show that every
  operation keeps the map well formed and what it does to the set of free addresses.
\<close>

section \<open>Data\<close>

record map_seg =
  m_size :: ulong
  m_addr :: ulong

record map_head =
  m_free :: ulong
  m_want :: ulong
  m_nam :: string
  m_nsegs :: int32
  m_map :: "map_seg list"

text \<open>
  \<open>sizeof (struct map)\<close> is 8. On the 32-bit machine \<open>struct map_head\<close> is 36 bytes: four
  words, an 8-byte mutex, a 2-byte condition variable padded to a word, and one
  \<open>struct map\<close> at offset 28. So \<open>MAP_OVERHEAD\<close> is \<open>(36 + 2 * 8 - 1) / 8\<close>, and an
  allocation of \<open>bytes\<close> bytes holds \<open>(bytes - 28) / 8\<close> whole slots of \<open>m_map\<close>.
\<close>

definition sizeof_map :: ulong where
  "sizeof_map = 8"

definition MAP_OVERHEAD :: ulong where
  "MAP_OVERHEAD = (36 + 2 * sizeof_map - 1) div sizeof_map"

definition zero_seg :: map_seg where
  "zero_seg = \<lparr>m_size = 0, m_addr = 0\<rparr>"

definition zalloc_map :: "ulong \<Rightarrow> map_head" where
  "zalloc_map bytes = \<lparr>m_free = 0, m_want = 0, m_nam = [], m_nsegs = 0,
     m_map = replicate ((unat bytes - 28) div 8) zero_seg\<rparr>"

section \<open>Creating and destroying maps\<close>

text \<open>\<open>MAP_OVERHEAD\<close> is a \<open>size_t\<close>, so the test of \<open>mapsize\<close> is unsigned.\<close>

definition mapinit :: "map_head \<Rightarrow> ulong \<Rightarrow> ulong \<Rightarrow> string \<Rightarrow> ulong \<Rightarrow> map_head kres" where
  "mapinit mp sz addr name mapsize =
     (if mapsize < MAP_OVERHEAD + 1 then Panic ''mapinit: map too small''
      else
        let n = mapsize - MAP_OVERHEAD in
        case m_map mp of
          [] \<Rightarrow> Fault
        | ep # es \<Rightarrow>
            Ret (mp\<lparr>m_free := (if sz \<noteq> 0 then n - 1 else n), m_nsegs := n, m_nam := name,
                    m_map := ep\<lparr>m_size := sz, m_addr := addr\<rparr> # es\<rparr>))"

text \<open>
  \<open>kmem_zalloc\<close> with \<open>KM_NOSLEEP\<close> may return \<open>NULL\<close>: the argument \<open>avail\<close> says
  whether it does not. \<open>rmallocmap_wait\<close> sleeps for the memory and always gets it.
\<close>

definition rmallocmap :: "bool \<Rightarrow> ulong \<Rightarrow> map_head option kres" where
  "rmallocmap avail mapsize =
     (if avail
      then kbind (mapinit (zalloc_map ((MAP_OVERHEAD + mapsize) * sizeof_map)) 0 0 ''rmallocmap''
                    (mapsize + MAP_OVERHEAD))
             (\<lambda>mp. Ret (Some mp))
      else Ret None)"

definition rmallocmap_wait :: "ulong \<Rightarrow> map_head kres" where
  "rmallocmap_wait mapsize =
     mapinit (zalloc_map ((MAP_OVERHEAD + mapsize) * sizeof_map)) 0 0 ''rmallocmap''
       (mapsize + MAP_OVERHEAD)"

text \<open>\<open>rmfreemap\<close> gives the memory back; the model returns the size it passes to \<open>kmem_free\<close>.\<close>

definition rmfreemap :: "map_head \<Rightarrow> ulong" where
  "rmfreemap mp = (MAP_OVERHEAD + m_nsegs mp) * sizeof_map"

section \<open>Allocation\<close>

text \<open>
  \<open>squeeze\<close> is the \<open>do ... while\<close> that moves the rest of the pieces to the left over the
  exhausted piece at the head, \<open>squeeze_while\<close> the \<open>while\<close> of \<open>rmfree\<close> and
  \<open>rmget\<close> that does the same but tests before it moves.
\<close>

fun squeeze :: "map_seg list \<Rightarrow> map_seg list option" where
  "squeeze (b # c # cs) =
     (if m_size c \<noteq> 0 then map_option (Cons c) (squeeze (c # cs)) else Some (c # c # cs))"
| "squeeze _ = None"

fun squeeze_while :: "map_seg list \<Rightarrow> map_seg list option" where
  "squeeze_while [] = None"
| "squeeze_while (b # bs) =
     (if m_size b = 0 then Some (b # bs)
      else case bs of [] \<Rightarrow> None | c # cs \<Rightarrow> map_option (Cons c) (squeeze_while bs))"

fun rmalloc_scan :: "map_seg list \<Rightarrow> ulong \<Rightarrow> (ulong \<times> map_seg list \<times> bool) kres" where
  "rmalloc_scan [] sz = Fault"
| "rmalloc_scan (b # bs) sz =
     (if m_size b = 0 then Ret (0, b # bs, False)
      else if sz \<le> m_size b then
        let b' = b\<lparr>m_addr := m_addr b + sz, m_size := m_size b - sz\<rparr> in
        if m_size b' = 0 then
          kbind (of_ptr (squeeze (b' # bs))) (\<lambda>arr. Ret (m_addr b, arr, True))
        else Ret (m_addr b, b' # bs, False)
      else
        kbind (rmalloc_scan bs sz) (\<lambda>(addr, bs', freed). Ret (addr, b # bs', freed)))"

definition rmalloc_locked :: "map_head \<Rightarrow> ulong \<Rightarrow> (ulong \<times> map_head) kres" where
  "rmalloc_locked mp sz =
     kbind (rmalloc_scan (m_map mp) sz)
       (\<lambda>(addr, arr, freed).
          Ret (addr, mp\<lparr>m_map := arr, m_free := (if freed then m_free mp + 1 else m_free mp)\<rparr>))"

definition rmalloc :: "map_head \<Rightarrow> ulong \<Rightarrow> (ulong \<times> map_head) kres" where
  "rmalloc mp sz = (if sint sz \<le> 0 then Panic ''rmalloc'' else rmalloc_locked mp sz)"

text \<open>
  One round of the loop of \<open>rmalloc_wait\<close>: \<open>None\<close> is the branch that sets \<open>mapwant\<close> and
  goes to sleep in \<open>cv_wait\<close>; a woken thread runs the round again.
\<close>

definition rmalloc_wait :: "map_head \<Rightarrow> ulong \<Rightarrow> (ulong option \<times> map_head) kres" where
  "rmalloc_wait mp sz =
     (if sint sz \<le> 0 then Panic ''rmalloc_wait''
      else kbind (rmalloc_locked mp sz)
        (\<lambda>(addr, mp'). if addr = 0 then Ret (None, mp'\<lparr>m_want := 1\<rparr>) else Ret (Some addr, mp')))"

section \<open>Freeing\<close>

fun rmfree_locate :: "map_seg list \<Rightarrow> map_seg list \<Rightarrow> ulong \<Rightarrow> (map_seg list \<times> map_seg list) option" where
  "rmfree_locate ls [] addr = None"
| "rmfree_locate ls (b # bs) addr =
     (if m_addr b \<le> addr \<and> m_size b \<noteq> 0 then rmfree_locate (b # ls) bs addr
      else Some (ls, b # bs))"

text \<open>The piece on the left abuts: add into it, and compress the piece on the right in also.\<close>

definition rmfree_left ::
  "map_head \<Rightarrow> map_seg list \<Rightarrow> map_seg \<Rightarrow> map_seg \<Rightarrow> map_seg list \<Rightarrow> ulong \<Rightarrow> ulong \<Rightarrow> map_head kres" where
  "rmfree_left mp ls l b bs sz addr =
     (if m_addr l + m_size l > addr then Panic ''bad rmfree''
      else
        let l1 = l\<lparr>m_size := m_size l + sz\<rparr> in
        if m_size b \<noteq> 0 \<and> addr + sz \<ge> m_addr b then
          if addr + sz > m_addr b then Panic ''bad rmfree''
          else
            kbind (of_ptr (squeeze_while (b # bs)))
              (\<lambda>rs. Ret (mp\<lparr>m_map := rev ls @ l1\<lparr>m_size := m_size l1 + m_size b\<rparr> # rs,
                            m_free := m_free mp + 1\<rparr>))
        else Ret (mp\<lparr>m_map := rev ls @ l1 # b # bs\<rparr>))"

text \<open>Make a new entry and push the remaining ones up.\<close>

fun rmfree_push :: "map_seg list \<Rightarrow> ulong \<Rightarrow> ulong \<Rightarrow> map_seg list option" where
  "rmfree_push [] sz addr = None"
| "rmfree_push (b # bs) sz addr =
     (let b' = b\<lparr>m_addr := addr, m_size := sz\<rparr> in
      if m_size b \<noteq> 0 then map_option (Cons b') (rmfree_push bs (m_size b) (m_addr b))
      else Some (b' # bs))"

text \<open>
  Map overflow: locate the delimiter from \<open>bp\<close> on, then destroy the smaller of the last two
  entries. With fewer than two entries the code reads in front of the array.
\<close>

fun rmfree_final :: "map_seg list \<Rightarrow> map_seg list \<Rightarrow> (map_seg list \<times> map_seg list) option" where
  "rmfree_final ls [] = None"
| "rmfree_final ls (b # bs) =
     (if m_size b \<noteq> 0 then rmfree_final (b # ls) bs else Some (ls, b # bs))"

definition rmfree_discard :: "map_seg list \<Rightarrow> map_seg list \<Rightarrow> map_seg list kres" where
  "rmfree_discard ls rs =
     (case rmfree_final ls rs of
        Some (p1 # p2 # qs, t # ts) \<Rightarrow>
          if m_size p1 > m_size p2
          then Ret (rev qs @ p1 # p1\<lparr>m_size := 0\<rparr> # t # ts)
          else Ret (rev qs @ p2 # t # t\<lparr>m_size := 0\<rparr> # ts)
      | _ \<Rightarrow> Fault)"

function rmfree_retry :: "map_head \<Rightarrow> ulong \<Rightarrow> ulong \<Rightarrow> map_head kres" where
  "rmfree_retry mp sz addr =
     (case rmfree_locate [] (m_map mp) addr of
        Some (ls, b # bs) \<Rightarrow>
          if ls \<noteq> [] \<and> m_addr (hd ls) + m_size (hd ls) \<ge> addr then
            rmfree_left mp (tl ls) (hd ls) b bs sz addr
          else if addr + sz \<ge> m_addr b \<and> m_size b \<noteq> 0 then
            if addr + sz > m_addr b then Panic ''bad rmfree''
            else Ret (mp\<lparr>m_map := rev ls @
                    b\<lparr>m_addr := m_addr b - sz, m_size := m_size b + sz\<rparr> # bs\<rparr>)
          else if m_free mp = 0 then
            kbind (rmfree_discard ls (b # bs))
              (\<lambda>arr. rmfree_retry (mp\<lparr>m_map := arr, m_free := m_free mp + 1\<rparr>) sz addr)
          else
            kbind (of_ptr (rmfree_push (b # bs) sz addr))
              (\<lambda>rs. Ret (mp\<lparr>m_map := rev ls @ rs, m_free := m_free mp - 1\<rparr>))
      | _ \<Rightarrow> Fault)"
  by pat_completeness auto
termination
  by (relation "measure (\<lambda>(mp, sz, addr). if m_free mp = 0 then 1 else 0)") auto

declare rmfree_retry.simps [simp del]

text \<open>
  \<open>rmfree\<close>; the second result says whether the code broadcasts on \<open>map_cv\<close>, which it does
  when \<open>mapwant\<close> was set.
\<close>

definition rmfree :: "map_head \<Rightarrow> ulong \<Rightarrow> ulong \<Rightarrow> (map_head \<times> bool) kres" where
  "rmfree mp sz addr =
     (if addr = 0 \<or> sint sz \<le> 0 then Panic ''bad rmfree''
      else kbind (rmfree_retry mp sz addr)
        (\<lambda>mp'. if m_want mp' \<noteq> 0 then Ret (mp'\<lparr>m_want := 0\<rparr>, True) else Ret (mp', False)))"

section \<open>Allocation at an address\<close>

fun rmget_scan :: "map_seg list \<Rightarrow> map_seg list \<Rightarrow> ulong \<Rightarrow> (map_seg list \<times> map_seg list) option" where
  "rmget_scan ls [] addr = None"
| "rmget_scan ls (b # bs) addr =
     (if m_size b \<noteq> 0 \<and> \<not> (m_addr b \<le> addr \<and> m_addr b + m_size b > addr)
      then rmget_scan (b # ls) bs addr else Some (ls, b # bs))"

text \<open>
  Open a slot after \<open>bp\<close>: the slot after the delimiter becomes the delimiter and every piece
  moves up by one.
\<close>

fun rmget_open :: "map_seg \<Rightarrow> map_seg list \<Rightarrow> map_seg list option" where
  "rmget_open new [] = None"
| "rmget_open new (s # ss) =
     (if m_size s \<noteq> 0 then map_option (Cons new) (rmget_open s ss)
      else case ss of [] \<Rightarrow> None | x # xs \<Rightarrow> Some (new # x\<lparr>m_size := 0\<rparr> # xs))"

definition rmget_take ::
  "map_head \<Rightarrow> map_seg list \<Rightarrow> map_seg \<Rightarrow> map_seg list \<Rightarrow> ulong \<Rightarrow> ulong \<Rightarrow> (ulong \<times> map_head) kres" where
  "rmget_take mp ls b bs sz addr =
     (if m_addr b = addr then
        if m_size b = sz then
          kbind (of_ptr (squeeze_while (b # bs)))
            (\<lambda>rs. Ret (addr, mp\<lparr>m_map := rev ls @ rs, m_free := m_free mp + 1\<rparr>))
        else
          Ret (addr, mp\<lparr>m_map := rev ls @
                 b\<lparr>m_addr := m_addr b + sz, m_size := m_size b - sz\<rparr> # bs\<rparr>)
      else if m_addr b + m_size b = addr + sz then
        Ret (addr, mp\<lparr>m_map := rev ls @ b\<lparr>m_size := m_size b - sz\<rparr> # bs\<rparr>)
      else if m_free mp = 0 then Ret (0, mp)
      else
        kbind (of_ptr (rmget_open
                 \<lparr>m_size = m_addr b + m_size b - (addr + sz), m_addr = addr + sz\<rparr> bs))
          (\<lambda>rs. Ret (addr, mp\<lparr>m_map := rev ls @ b\<lparr>m_size := addr - m_addr b\<rparr> # rs,
                              m_free := m_free mp - 1\<rparr>)))"

definition rmget :: "map_head \<Rightarrow> ulong \<Rightarrow> ulong \<Rightarrow> (ulong \<times> map_head) kres" where
  "rmget mp sz addr =
     (if sint sz \<le> 0 then Panic ''rmget''
      else case rmget_scan [] (m_map mp) addr of
        Some (ls, b # bs) \<Rightarrow>
          if m_size b = 0 then Ret (0, mp)
          else if m_addr b + m_size b < addr + sz then Ret (0, mp)
          else rmget_take mp ls b bs sz addr
      | _ \<Rightarrow> Fault)"

section \<open>Well-formed maps\<close>

definition seg_lo :: "map_seg \<Rightarrow> nat" where
  "seg_lo s = unat (m_addr s)"

definition seg_hi :: "map_seg \<Rightarrow> nat" where
  "seg_hi s = unat (m_addr s) + unat (m_size s)"

definition seg_set :: "map_seg \<Rightarrow> nat set" where
  "seg_set s = {seg_lo s ..< seg_hi s}"

definition seg_ok :: "map_seg \<Rightarrow> bool" where
  "seg_ok s \<longleftrightarrow> m_size s \<noteq> 0 \<and> m_addr s \<noteq> 0 \<and> seg_hi s < 2 ^ 32"

text \<open>
  The free segments of a map are non-empty, never contain address 0, do not wrap around, and
  are sorted with at least one allocated address between two of them: the map is coalesced.
\<close>

definition segs_wf :: "map_seg list \<Rightarrow> bool" where
  "segs_wf ss \<longleftrightarrow> list_all seg_ok ss \<and> sorted_wrt (\<lambda>s t. seg_hi s < seg_lo t) ss"

definition live :: "map_seg list \<Rightarrow> map_seg list" where
  "live arr = takeWhile (\<lambda>s. m_size s \<noteq> 0) arr"

definition map_wf :: "map_head \<Rightarrow> bool" where
  "map_wf mp \<longleftrightarrow>
     segs_wf (live (m_map mp)) \<and>
     list_all (\<lambda>s. m_size s = 0) (drop (length (live (m_map mp))) (m_map mp)) \<and>
     unat (m_free mp) + length (live (m_map mp)) = unat (m_nsegs mp) \<and>
     0 < unat (m_nsegs mp) \<and> unat (m_nsegs mp) < length (m_map mp)"

definition segs_set :: "map_seg list \<Rightarrow> nat set" where
  "segs_set ss = \<Union> (seg_set ` set ss)"

definition free_set :: "map_head \<Rightarrow> nat set" where
  "free_set mp = segs_set (live (m_map mp))"

abbreviation zeros :: "map_seg list \<Rightarrow> bool" where
  "zeros zs \<equiv> list_all (\<lambda>s. m_size s = 0) zs"

abbreviation nonzeros :: "map_seg list \<Rightarrow> bool" where
  "nonzeros zs \<equiv> list_all (\<lambda>s. m_size s \<noteq> 0) zs"

subsection \<open>Arrays as live segments and a zero tail\<close>

lemma segs_wf_nonzeros: "segs_wf L \<Longrightarrow> nonzeros L"
  by (auto simp: segs_wf_def seg_ok_def list_all_iff)

lemma live_append: "nonzeros L \<Longrightarrow> m_size z = 0 \<Longrightarrow> live (L @ z # zs) = L"
  by (induction L) (auto simp: live_def)

lemma map_wfE:
  assumes "map_wf mp"
  obtains L z zs where "m_map mp = L @ z # zs" "segs_wf L" "m_size z = 0" "zeros zs"
    "live (m_map mp) = L" "unat (m_free mp) + length L = unat (m_nsegs mp)"
    "0 < unat (m_nsegs mp)" "unat (m_nsegs mp) < length (m_map mp)"
proof -
  let ?L = "live (m_map mp)"
  have split: "m_map mp = ?L @ drop (length ?L) (m_map mp)"
    by (simp add: live_def dropWhile_eq_drop [symmetric])
  have "length ?L < length (m_map mp)" using assms by (simp add: map_wf_def)
  then obtain z zs where "drop (length ?L) (m_map mp) = z # zs"
    by (cases "drop (length ?L) (m_map mp)") auto
  with split have "m_map mp = ?L @ z # zs" by simp
  moreover have "m_size z = 0" "zeros zs"
    using assms \<open>drop (length ?L) (m_map mp) = z # zs\<close> by (simp_all add: map_wf_def)
  ultimately show thesis using assms by (intro that [of ?L z zs]) (simp_all add: map_wf_def)
qed

lemma map_wfI:
  assumes "m_map mp = L @ z # zs" "segs_wf L" "m_size z = 0" "zeros zs"
    "unat (m_free mp) + length L = unat (m_nsegs mp)"
    "0 < unat (m_nsegs mp)" "unat (m_nsegs mp) < length (m_map mp)"
  shows "map_wf mp"
proof -
  have "live (m_map mp) = L"
    using assms by (simp add: live_append segs_wf_nonzeros)
  with assms show ?thesis by (simp add: map_wf_def)
qed

text \<open>Replacing the array and the slot count keeps a map well formed when they fit together.\<close>

lemma map_update:
  assumes "map_wf mp" "segs_wf L" "m_size z = 0" "zeros zs"
    "length L + length zs + 1 = length (m_map mp)"
    "unat f + length L = unat (m_nsegs mp)"
  shows "map_wf (mp\<lparr>m_map := L @ z # zs, m_free := f\<rparr>)"
    "live (L @ z # zs) = L"
    "free_set (mp\<lparr>m_map := L @ z # zs, m_free := f\<rparr>) = segs_set L"
  using assms
  by (auto intro!: map_wfI [of _ L z zs]
      simp: map_wf_def live_append segs_wf_nonzeros free_set_def)

lemma map_update_same:
  assumes "map_wf mp" "segs_wf L" "m_size z = 0" "zeros zs"
    "length L + length zs + 1 = length (m_map mp)" "length L = length (live (m_map mp))"
  shows "map_wf (mp\<lparr>m_map := L @ z # zs\<rparr>)" "free_set (mp\<lparr>m_map := L @ z # zs\<rparr>) = segs_set L"
proof -
  have "map_wf (mp\<lparr>m_map := L @ z # zs, m_free := m_free mp\<rparr>)"
    using assms by (intro map_update) (simp_all add: map_wf_def)
  then show "map_wf (mp\<lparr>m_map := L @ z # zs\<rparr>)" by simp
  show "free_set (mp\<lparr>m_map := L @ z # zs\<rparr>) = segs_set L"
    using assms by (simp add: free_set_def live_append segs_wf_nonzeros)
qed

lemma map_wf_free_bound:
  assumes "map_wf mp" "live (m_map mp) \<noteq> []"
  shows "unat (m_free mp + 1) = unat (m_free mp) + 1"
proof -
  have "unat (m_free mp) + 1 \<le> unat (m_nsegs mp)"
    using assms by (auto simp: map_wf_def neq_Nil_conv)
  then have "unat (m_free mp) + unat (1 :: ulong) < 2 ^ LENGTH(32)"
    using unat_bound [of "m_nsegs mp"] by simp
  then show ?thesis by (simp add: unat_add_nowrap)
qed

subsection \<open>The array loops\<close>

lemma squeeze_append:
  "nonzeros L \<Longrightarrow> m_size z = 0 \<Longrightarrow> squeeze (b # L @ z # zs) = Some (L @ z # z # zs)"
  by (induction L arbitrary: b) auto

lemma squeeze_while_append:
  "m_size b \<noteq> 0 \<Longrightarrow> nonzeros L \<Longrightarrow> m_size z = 0 \<Longrightarrow>
   squeeze_while (b # L @ z # zs) = Some (L @ z # z # zs)"
  by (induction L arbitrary: b) (auto split: list.splits)

lemma rmfree_push_append:
  "nonzeros L \<Longrightarrow> m_size z = 0 \<Longrightarrow>
   rmfree_push (L @ z # zs) sz addr = Some (\<lparr>m_size = sz, m_addr = addr\<rparr> # L @ zs)"
  by (induction L arbitrary: sz addr) (auto simp: Let_def)

lemma rmfree_final_append:
  "nonzeros L \<Longrightarrow> m_size z = 0 \<Longrightarrow> rmfree_final ls (L @ z # zs) = Some (rev L @ ls, z # zs)"
  by (induction L arbitrary: ls) auto

lemma rmget_open_append:
  "nonzeros L \<Longrightarrow> m_size z = 0 \<Longrightarrow>
   rmget_open new (L @ z # x # zs) = Some (new # L @ x\<lparr>m_size := 0\<rparr> # zs)"
  by (induction L arbitrary: new) auto

lemma rmfree_locate_append:
  "nonzeros L \<Longrightarrow> m_size z = 0 \<Longrightarrow>
   rmfree_locate ls (L @ z # zs) addr =
     Some (rev (takeWhile (\<lambda>s. m_addr s \<le> addr) L) @ ls,
           dropWhile (\<lambda>s. m_addr s \<le> addr) L @ z # zs)"
  by (induction L arbitrary: ls) auto

lemma rmget_scan_append:
  "nonzeros L \<Longrightarrow> m_size z = 0 \<Longrightarrow>
   rmget_scan ls (L @ z # zs) addr =
     (let P = (\<lambda>s. \<not> (m_addr s \<le> addr \<and> m_addr s + m_size s > addr)) in
     Some (rev (takeWhile P L) @ ls, dropWhile P L @ z # zs))"
  by (induction L arbitrary: ls) (auto simp: Let_def)

lemma rmalloc_scan_none:
  "nonzeros L \<Longrightarrow> m_size z = 0 \<Longrightarrow> \<forall>s\<in>set L. m_size s < sz \<Longrightarrow>
   rmalloc_scan (L @ z # zs) sz = Ret (0, L @ z # zs, False)"
  by (induction L) auto

lemma rmalloc_scan_some:
  "nonzeros A \<Longrightarrow> \<forall>s\<in>set A. m_size s < sz \<Longrightarrow> sz \<le> m_size b \<Longrightarrow> m_size b \<noteq> 0 \<Longrightarrow>
   nonzeros B \<Longrightarrow> m_size z = 0 \<Longrightarrow>
   rmalloc_scan (A @ b # B @ z # zs) sz =
     (if m_size b = sz then Ret (m_addr b, A @ B @ z # z # zs, True)
      else Ret (m_addr b, A @ b\<lparr>m_addr := m_addr b + sz, m_size := m_size b - sz\<rparr> # B @ z # zs, False))"
proof (induction A)
  case Nil
  then show ?case by (simp add: Let_def squeeze_append)
next
  case (Cons a A)
  then have "\<not> sz \<le> m_size a" by auto
  with Cons show ?case by simp
qed

subsection \<open>Sets of addresses\<close>

abbreviation block :: "ulong \<Rightarrow> ulong \<Rightarrow> nat set" where
  "block addr sz \<equiv> {unat addr ..< unat addr + unat sz}"

lemma blk_block: "blk addr sz = block addr sz"
  by (simp add: blk_def)

lemmas seg_defs = seg_ok_def seg_lo_def seg_hi_def seg_set_def

lemma segs_wf_append:
  "segs_wf (A @ B) \<longleftrightarrow>
     segs_wf A \<and> segs_wf B \<and> (\<forall>a\<in>set A. \<forall>b\<in>set B. seg_hi a < seg_lo b)"
  by (auto simp: segs_wf_def sorted_wrt_append)

lemma segs_wf_Cons:
  "segs_wf (s # ss) \<longleftrightarrow> seg_ok s \<and> (\<forall>t\<in>set ss. seg_hi s < seg_lo t) \<and> segs_wf ss"
  by (auto simp: segs_wf_def)

lemma segs_wf_Nil [simp]: "segs_wf []"
  by (simp add: segs_wf_def)

lemma segs_set_simps [simp]:
  "segs_set [] = {}" "segs_set (s # ss) = seg_set s \<union> segs_set ss"
  "segs_set (A @ B) = segs_set A \<union> segs_set B"
  by (auto simp: segs_set_def)

lemma segs_wf_ok: "segs_wf L \<Longrightarrow> s \<in> set L \<Longrightarrow> seg_ok s"
  by (auto simp: segs_wf_def list_all_iff)

lemma seg_ok_bounds:
  assumes "seg_ok s"
  shows "0 < seg_lo s" "seg_lo s < seg_hi s" "seg_hi s < 2 ^ 32"
    "unat (m_addr s + m_size s) = seg_hi s"
  using assms by (auto simp: seg_defs unat_gt_0 nowrap)

lemma segs_wf_ordered:
  assumes "segs_wf L" "s \<in> set L" "t \<in> set L" "s \<noteq> t"
  shows "seg_hi s < seg_lo t \<or> seg_hi t < seg_lo s"
proof -
  from assms(2) obtain A B where L: "L = A @ s # B" by (auto simp: in_set_conv_decomp)
  with assms(3,4) have "t \<in> set A \<or> t \<in> set B" by auto
  with assms(1) L show ?thesis by (auto simp: segs_wf_append segs_wf_Cons)
qed

text \<open>A run of free addresses lies in one segment, because the map is coalesced.\<close>

lemma run_in_segment:
  assumes "segs_wf L" "0 < n" "{a ..< a + n} \<subseteq> segs_set L"
  shows "\<exists>s\<in>set L. {a ..< a + n} \<subseteq> seg_set s"
  using assms(2,3)
proof (induction n)
  case 0
  then show ?case by simp
next
  case (Suc n)
  have "a + n \<in> segs_set L" using Suc.prems(2) by auto
  then obtain t where t: "t \<in> set L" "a + n \<in> seg_set t" by (auto simp: segs_set_def)
  show ?case
  proof (cases "n = 0")
    case True
    with t show ?thesis by (intro bexI [of _ t]) auto
  next
    case False
    moreover have "{a ..< a + n} \<subseteq> segs_set L" using Suc.prems(2) by auto
    ultimately obtain s where s: "s \<in> set L" "{a ..< a + n} \<subseteq> seg_set s"
      using Suc.IH by auto
    then have "a \<in> seg_set s" "a + n - 1 \<in> seg_set s" using False by auto
    then have "s = t"
      using segs_wf_ordered [OF assms(1) s(1) t(1)] t(2) False by (fastforce simp: seg_set_def)
    with s t show ?thesis
      by (intro bexI [of _ s]) (auto simp: seg_set_def)
  qed
qed

lemma seg_set_disjoint:
  assumes "segs_wf (A @ s # B)"
  shows "seg_set s \<inter> segs_set A = {}" "seg_set s \<inter> segs_set B = {}"
  using assms
  by (fastforce simp: segs_wf_append segs_wf_Cons segs_set_def seg_set_def)+

definition abuts :: "map_head \<Rightarrow> ulong \<Rightarrow> ulong \<Rightarrow> bool" where
  "abuts mp sz addr \<longleftrightarrow>
     (\<exists>s\<in>set (live (m_map mp)). seg_hi s = unat addr \<or> seg_lo s = unat addr + unat sz)"

section \<open>Allocation is first fit\<close>

lemma rmalloc_locked_none:
  assumes "map_wf mp" "\<forall>s\<in>set (live (m_map mp)). m_size s < sz"
  shows "rmalloc_locked mp sz = Ret (0, mp)"
proof -
  from assms(1) obtain L z zs where "m_map mp = L @ z # zs" "segs_wf L" "m_size z = 0"
    "live (m_map mp) = L" by (rule map_wfE)
  with assms(2) have "rmalloc_scan (m_map mp) sz = Ret (0, m_map mp, False)"
    by (simp add: rmalloc_scan_none segs_wf_nonzeros)
  then show ?thesis by (simp add: rmalloc_locked_def)
qed

lemma trim_segment:
  assumes "seg_ok b" "unat sz < unat (m_size b)"
  defines "b' \<equiv> b\<lparr>m_addr := m_addr b + sz, m_size := m_size b - sz\<rparr>"
  shows "seg_ok b'" "seg_lo b' = seg_lo b + unat sz" "seg_hi b' = seg_hi b"
    "seg_set b' = seg_set b - block (m_addr b) sz"
proof -
  have "unat (m_addr b + sz) = unat (m_addr b) + unat sz"
    using assms(1,2) by (intro unat_add_nowrap) (simp add: seg_defs)
  moreover have "unat (m_size b - sz) = unat (m_size b) - unat sz"
    using assms(2) by (intro unat_sub_nowrap) simp
  ultimately show lo: "seg_lo b' = seg_lo b + unat sz" and hi: "seg_hi b' = seg_hi b"
    using assms(2) by (simp_all add: b'_def seg_defs)
  have "m_size b' \<noteq> 0" using assms(2) by (auto simp: b'_def)
  moreover have "m_addr b' \<noteq> 0"
    using lo seg_ok_bounds(1) [OF assms(1)] by (auto simp: seg_lo_def)
  ultimately show "seg_ok b'" using hi assms(1) by (simp add: seg_ok_def)
  show "seg_set b' = seg_set b - block (m_addr b) sz"
    unfolding seg_set_def lo hi by (auto simp: seg_lo_def)
qed

lemma rmalloc_locked_some:
  assumes wf: "map_wf mp" and sz: "sz \<noteq> 0"
    and L: "live (m_map mp) = A @ b # B"
    and A: "\<forall>s\<in>set A. m_size s < sz" and b: "sz \<le> m_size b"
  shows "\<exists>mp'. rmalloc_locked mp sz = Ret (m_addr b, mp') \<and> map_wf mp' \<and>
    free_set mp' = free_set mp - block (m_addr b) sz \<and>
    m_nsegs mp' = m_nsegs mp \<and> m_want mp' = m_want mp \<and>
    (m_free mp' \<noteq> 0 \<or> abuts mp' sz (m_addr b))"
proof -
  from wf obtain z zs where arr: "m_map mp = (A @ b # B) @ z # zs" and ok: "segs_wf (A @ b # B)"
    and z: "m_size z = 0" "zeros zs"
    and n: "unat (m_free mp) + length (A @ b # B) = unat (m_nsegs mp)"
      "0 < unat (m_nsegs mp)" "unat (m_nsegs mp) < length (m_map mp)"
    using L by (auto elim: map_wfE)
  have nz: "nonzeros A" "nonzeros B" "m_size b \<noteq> 0" and bok: "seg_ok b"
    using segs_wf_nonzeros [OF ok] segs_wf_ok [OF ok] by simp_all
  have free: "free_set mp = segs_set A \<union> seg_set b \<union> segs_set B"
    using L by (simp add: free_set_def Un_assoc)
  show ?thesis
  proof (cases "m_size b = sz")
    case True
    let ?mp = "mp\<lparr>m_map := (A @ B) @ z # z # zs, m_free := m_free mp + 1\<rparr>"
    have eq: "rmalloc_locked mp sz = Ret (m_addr b, ?mp)"
      using arr nz A b z True by (simp add: rmalloc_locked_def rmalloc_scan_some)
    have "segs_wf (A @ B)" using ok by (auto simp: segs_wf_append segs_wf_Cons)
    from map_update [OF wf this z(1), of "z # zs" "m_free mp + 1"]
    have "map_wf ?mp" "live (m_map ?mp) = A @ B"
      using z n arr map_wf_free_bound [OF wf] L by simp_all
    moreover have "seg_set b = block (m_addr b) sz" using True by (simp add: seg_defs)
    moreover have "m_free mp + 1 \<noteq> 0" using map_wf_free_bound [OF wf] L by fastforce
    ultimately show ?thesis
      using eq seg_set_disjoint [OF ok] free by (auto simp: free_set_def)
  next
    case False
    define b' where "b' = b\<lparr>m_addr := m_addr b + sz, m_size := m_size b - sz\<rparr>"
    let ?mp = "mp\<lparr>m_map := (A @ b' # B) @ z # zs\<rparr>"
    have eq: "rmalloc_locked mp sz = Ret (m_addr b, ?mp)"
      using arr nz A b z False by (simp add: rmalloc_locked_def rmalloc_scan_some b'_def)
    have lt: "unat sz < unat (m_size b)"
      using b False by (metis order_less_le word_less_nat_alt)
    note b' = trim_segment [OF bok lt, folded b'_def]
    have ok': "segs_wf (A @ b' # B)"
      using ok b' by (fastforce simp: segs_wf_append segs_wf_Cons)
    have "map_wf ?mp" "live (m_map ?mp) = A @ b' # B"
      using map_update_same [OF wf ok' z] live_append [OF segs_wf_nonzeros [OF ok'] z(1)] arr L
      by simp_all
    moreover have "block (m_addr b) sz \<subseteq> seg_set b" using lt by (auto simp: seg_defs)
    moreover from calculation have "abuts ?mp sz (m_addr b)"
      using b'(2) by (auto simp: abuts_def seg_lo_def)
    ultimately show ?thesis
      using eq seg_set_disjoint [OF ok] free b'(4) by (auto simp: free_set_def)
  qed
qed

text \<open>The outcome of a first-fit allocation, as a relation between the map before and after.\<close>

definition alloc_post :: "map_head \<Rightarrow> ulong \<Rightarrow> ulong \<Rightarrow> map_head \<Rightarrow> bool" where
  "alloc_post mp sz addr mp' \<longleftrightarrow>
     map_wf mp' \<and> m_nsegs mp' = m_nsegs mp \<and>
     (if addr = 0 then mp' = mp \<and> \<not> (\<exists>a. {a ..< a + unat sz} \<subseteq> free_set mp)
      else block addr sz \<subseteq> free_set mp \<and> free_set mp' = free_set mp - block addr sz \<and>
        m_want mp' = m_want mp \<and> (m_free mp' \<noteq> 0 \<or> abuts mp' sz addr) \<and>
        (\<forall>a. {a ..< a + unat sz} \<subseteq> free_set mp \<longrightarrow> unat addr \<le> a))"

lemma run_needs_segment:
  assumes "map_wf mp" "sz \<noteq> 0" "{a ..< a + unat sz} \<subseteq> free_set mp"
  shows "\<exists>s\<in>set (live (m_map mp)). sz \<le> m_size s \<and> seg_lo s \<le> a"
proof -
  have "segs_wf (live (m_map mp))" using assms(1) by (simp add: map_wf_def)
  then obtain s where s: "s \<in> set (live (m_map mp))" "{a ..< a + unat sz} \<subseteq> seg_set s"
    using run_in_segment [OF _ unat_nonzero [OF assms(2)] assms(3) [unfolded free_set_def]] by blast
  then have "a \<in> seg_set s" "a + unat sz - 1 \<in> seg_set s"
    using unat_nonzero [OF assms(2)] by auto
  then have "unat sz \<le> unat (m_size s)" "seg_lo s \<le> a"
    using unat_nonzero [OF assms(2)] by (auto simp: seg_defs)
  with s(1) show ?thesis by (auto simp: word_le_nat_alt)
qed

lemma rmalloc_locked_post:
  assumes wf: "map_wf mp" and sz: "sz \<noteq> 0"
  shows "\<exists>addr mp'. rmalloc_locked mp sz = Ret (addr, mp') \<and> alloc_post mp sz addr mp'"
proof (cases "\<exists>s\<in>set (live (m_map mp)). sz \<le> m_size s")
  case False
  then have small: "\<forall>s\<in>set (live (m_map mp)). m_size s < sz" by auto
  have "\<not> (\<exists>a. {a ..< a + unat sz} \<subseteq> free_set mp)"
    using run_needs_segment [OF wf sz] False by blast
  with rmalloc_locked_none [OF wf small] wf show ?thesis by (auto simp: alloc_post_def)
next
  case True
  then obtain A b B where L: "live (m_map mp) = A @ b # B" and b: "sz \<le> m_size b"
    and A': "\<forall>s\<in>set A. \<not> sz \<le> m_size s"
    by (rule split_list_first_propE)
  then have A: "\<forall>s\<in>set A. m_size s < sz" by auto
  from rmalloc_locked_some [OF wf sz L A b] obtain mp' where
    mp': "rmalloc_locked mp sz = Ret (m_addr b, mp')" "map_wf mp'"
      "free_set mp' = free_set mp - block (m_addr b) sz"
      "m_nsegs mp' = m_nsegs mp" "m_want mp' = m_want mp"
      "m_free mp' \<noteq> 0 \<or> abuts mp' sz (m_addr b)" by blast
  have Lwf: "segs_wf (A @ b # B)" using wf L by (simp add: map_wf_def)
  then have bok: "seg_ok b" by (simp add: segs_wf_ok)
  then have "m_addr b \<noteq> 0" by (simp add: seg_ok_def)
  moreover have "block (m_addr b) sz \<subseteq> free_set mp"
    using b L by (auto simp: free_set_def seg_defs word_le_nat_alt)
  moreover have "unat (m_addr b) \<le> a" if run: "{a ..< a + unat sz} \<subseteq> free_set mp" for a
  proof -
    obtain s where s: "s \<in> set (A @ b # B)" "sz \<le> m_size s" "seg_lo s \<le> a"
      using run_needs_segment [OF wf sz run] L by auto
    then have "s = b \<or> s \<in> set B" using A by fastforce
    then have "seg_lo b \<le> seg_lo s"
      using Lwf seg_ok_bounds(2) [OF bok] by (fastforce simp: segs_wf_append segs_wf_Cons)
    with s(3) show ?thesis by (simp add: seg_lo_def)
  qed
  ultimately show ?thesis using mp' by (auto simp: alloc_post_def)
qed

section \<open>Freeing coalesces and detects overlap\<close>

text \<open>The insertion point splits the live segments at \<open>addr\<close>.\<close>

lemma locate_split:
  assumes "map_wf mp"
  obtains A B z zs where "m_map mp = A @ B @ z # zs" "live (m_map mp) = A @ B"
    "segs_wf (A @ B)" "m_size z = 0" "zeros zs"
    "\<forall>a\<in>set A. seg_lo a \<le> unat addr" "\<forall>b\<in>set B. unat addr < seg_lo b"
    "rmfree_locate [] (m_map mp) addr = Some (rev A, B @ z # zs)"
proof -
  from assms obtain L z zs where L: "m_map mp = L @ z # zs" "segs_wf L" "m_size z = 0"
    "zeros zs" "live (m_map mp) = L" by (rule map_wfE)
  define P where "P = (\<lambda>s :: map_seg. m_addr s \<le> addr)"
  let ?A = "takeWhile P L" and ?B = "dropWhile P L"
  have split: "L = ?A @ ?B" by simp
  have "\<forall>a\<in>set ?A. seg_lo a \<le> unat addr"
    by (auto simp: P_def seg_lo_def word_le_nat_alt dest: set_takeWhileD)
  moreover have "\<forall>b\<in>set ?B. unat addr < seg_lo b"
  proof (cases ?B)
    case Nil
    then show ?thesis by (simp only: list.set ball_empty)
  next
    case (Cons b bs)
    then have "\<not> P b" using hd_dropWhile [of P L] by simp
    then have "unat addr < seg_lo b" by (simp add: P_def seg_lo_def word_le_nat_alt)
    moreover have "segs_wf (?A @ b # bs)" using L(2) split Cons by simp
    ultimately show ?thesis
      using Cons seg_ok_bounds(2) [of b] by (fastforce simp: segs_wf_append segs_wf_Cons)
  qed
  moreover have "rmfree_locate [] (m_map mp) addr = Some (rev ?A, ?B @ z # zs)"
    using L by (simp add: rmfree_locate_append segs_wf_nonzeros P_def)
  ultimately show thesis
    using L split by (intro that [of ?A ?B z zs]) simp_all
qed

lemma grow_right:
  assumes "seg_ok l" "seg_hi l = unat addr" "unat addr + unat sz < 2 ^ 32"
  defines "l' \<equiv> l\<lparr>m_size := m_size l + sz\<rparr>"
  shows "seg_ok l'" "seg_lo l' = seg_lo l" "seg_hi l' = unat addr + unat sz"
    "seg_set l' = seg_set l \<union> block addr sz"
proof -
  have "unat (m_size l + sz) = unat (m_size l) + unat sz"
    using assms(2,3) by (intro unat_add_nowrap) (simp add: seg_hi_def)
  then show lo: "seg_lo l' = seg_lo l" and hi: "seg_hi l' = unat addr + unat sz"
    and "seg_set l' = seg_set l \<union> block addr sz"
    using assms(2) by (auto simp: l'_def seg_defs)
  have "0 < unat (m_size l')"
    using assms(1) \<open>unat (m_size l + sz) = _\<close> by (simp add: l'_def seg_ok_def unat_gt_0)
  then show "seg_ok l'" using assms(1,3) hi by (auto simp: seg_ok_def l'_def)
qed

lemma grow_left:
  assumes "seg_ok b" "seg_lo b = unat addr + unat sz" "addr \<noteq> 0"
  defines "b' \<equiv> b\<lparr>m_addr := m_addr b - sz, m_size := m_size b + sz\<rparr>"
  shows "seg_ok b'" "seg_lo b' = unat addr" "seg_hi b' = seg_hi b"
    "seg_set b' = block addr sz \<union> seg_set b"
proof -
  have a: "unat (m_addr b - sz) = unat addr"
    using assms(2) by (subst unat_sub_nowrap) (simp_all add: seg_lo_def)
  have s: "unat (m_size b + sz) = unat (m_size b) + unat sz"
    using assms(1,2) by (intro unat_add_nowrap) (simp add: seg_defs)
  show lo: "seg_lo b' = unat addr" and hi: "seg_hi b' = seg_hi b"
    and "seg_set b' = block addr sz \<union> seg_set b"
    using a s assms(2) by (auto simp: b'_def seg_defs)
  have "0 < unat (m_size b')"
    using assms(1) s by (simp add: b'_def seg_ok_def unat_gt_0)
  moreover have "0 < unat (m_addr b')"
    using a assms(3) by (simp add: b'_def unat_gt_0)
  ultimately show "seg_ok b'" using assms(1) hi by (auto simp: seg_ok_def)
qed

lemma new_segment:
  assumes "addr \<noteq> 0" "sz \<noteq> 0" "unat addr + unat sz < 2 ^ 32"
  shows "seg_ok \<lparr>m_size = sz, m_addr = addr\<rparr>"
    "seg_lo \<lparr>m_size = sz, m_addr = addr\<rparr> = unat addr"
    "seg_hi \<lparr>m_size = sz, m_addr = addr\<rparr> = unat addr + unat sz"
    "seg_set \<lparr>m_size = sz, m_addr = addr\<rparr> = block addr sz"
  using assms by (simp_all add: seg_defs)

text \<open>
  The state in which \<open>rmfree\<close> has located the insertion point of a block that overlaps no
  free segment: \<open>A\<close> in front of it, \<open>B\<close> behind it.
\<close>

definition free_point ::
  "map_head \<Rightarrow> map_seg list \<Rightarrow> map_seg list \<Rightarrow> map_seg \<Rightarrow> map_seg list \<Rightarrow> ulong \<Rightarrow> ulong \<Rightarrow> bool" where
  "free_point mp A B z zs sz addr \<longleftrightarrow>
     map_wf mp \<and> m_map mp = A @ B @ z # zs \<and> live (m_map mp) = A @ B \<and> segs_wf (A @ B) \<and>
     m_size z = 0 \<and> zeros zs \<and> addr \<noteq> 0 \<and> sz \<noteq> 0 \<and> unat addr + unat sz < 2 ^ 32 \<and>
     (\<forall>a\<in>set A. seg_hi a \<le> unat addr) \<and> (\<forall>b\<in>set B. unat addr + unat sz \<le> seg_lo b) \<and>
     rmfree_locate [] (m_map mp) addr = Some (rev A, B @ z # zs)"

definition free_post :: "map_head \<Rightarrow> ulong \<Rightarrow> ulong \<Rightarrow> map_head \<Rightarrow> bool" where
  "free_post mp sz addr mp' \<longleftrightarrow>
     map_wf mp' \<and> free_set mp' = free_set mp \<union> block addr sz \<and>
     m_nsegs mp' = m_nsegs mp \<and> m_want mp' = m_want mp"

lemma free_pointE:
  assumes "map_wf mp" "addr \<noteq> 0" "sz \<noteq> 0" "unat addr + unat sz < 2 ^ 32"
    "block addr sz \<inter> free_set mp = {}"
  obtains A B z zs where "free_point mp A B z zs sz addr"
proof -
  obtain A B z zs where s: "m_map mp = A @ B @ z # zs" "live (m_map mp) = A @ B"
    "segs_wf (A @ B)" "m_size z = 0" "zeros zs"
    "\<forall>a\<in>set A. seg_lo a \<le> unat addr" "\<forall>b\<in>set B. unat addr < seg_lo b"
    "rmfree_locate [] (m_map mp) addr = Some (rev A, B @ z # zs)"
    using assms(1) by (rule locate_split [where addr = addr])
  have dis: "block addr sz \<inter> seg_set t = {}" if "t \<in> set (A @ B)" for t
    using assms(5) that s(2) by (auto simp: free_set_def segs_set_def)
  have "seg_hi a \<le> unat addr" if "a \<in> set A" for a
    using dis [of a] that s(6) unat_nonzero [OF assms(3)] by (fastforce simp: seg_set_def)
  moreover have "unat addr + unat sz \<le> seg_lo b" if "b \<in> set B" for b
    using dis [of b] that s(7) seg_ok_bounds(2) [OF segs_wf_ok [OF s(3)], of b]
    by (fastforce simp: seg_set_def)
  ultimately show thesis
    using assms s by (intro that [of A B z zs]) (simp add: free_point_def)
qed

lemma word_end_nat:
  assumes "unat addr + unat sz < 2 ^ 32"
  shows "unat (addr + sz :: ulong) = unat addr + unat sz"
  using assms by (intro unat_add_nowrap) simp

text \<open>The branches of \<open>rmfree\<close>, one rule each.\<close>

lemma rmfree_retry_left:
  assumes "rmfree_locate [] (m_map mp) addr = Some (l # ls, b # bs)" "addr \<le> m_addr l + m_size l"
  shows "rmfree_retry mp sz addr = rmfree_left mp ls l b bs sz addr"
  using assms by (subst rmfree_retry.simps) simp

lemma rmfree_retry_right:
  assumes "rmfree_locate [] (m_map mp) addr = Some (ls, b # bs)"
    "\<not> (ls \<noteq> [] \<and> addr \<le> m_addr (hd ls) + m_size (hd ls))" "m_addr b = addr + sz" "m_size b \<noteq> 0"
  shows "rmfree_retry mp sz addr =
    Ret (mp\<lparr>m_map := rev ls @ b\<lparr>m_addr := m_addr b - sz, m_size := m_size b + sz\<rparr> # bs\<rparr>)"
  by (subst rmfree_retry.simps)
    (simp only: assms option.case prod.case list.case if_False order_refl simp_thms less_irrefl
      if_True)

lemma rmfree_retry_apart:
  assumes "rmfree_locate [] (m_map mp) addr = Some (ls, b # bs)"
    "\<not> (ls \<noteq> [] \<and> addr \<le> m_addr (hd ls) + m_size (hd ls))"
    "\<not> (m_addr b \<le> addr + sz \<and> m_size b \<noteq> 0)"
  shows "rmfree_retry mp sz addr =
    (if m_free mp = 0 then
       kbind (rmfree_discard ls (b # bs))
         (\<lambda>arr. rmfree_retry (mp\<lparr>m_map := arr, m_free := m_free mp + 1\<rparr>) sz addr)
     else
       kbind (of_ptr (rmfree_push (b # bs) sz addr))
         (\<lambda>rs. Ret (mp\<lparr>m_map := rev ls @ rs, m_free := m_free mp - 1\<rparr>)))"
  by (subst rmfree_retry.simps) (simp only: assms option.case prod.case list.case if_False)

lemma rmfree_left_both:
  assumes "m_addr l + m_size l = addr" "m_addr b = addr + sz" "m_size b \<noteq> 0"
    "squeeze_while (b # bs) = Some rs"
  shows "rmfree_left mp ls l b bs sz addr =
    Ret (mp\<lparr>m_map := rev ls @ l\<lparr>m_size := m_size l + (sz + m_size b)\<rparr> # rs,
            m_free := m_free mp + 1\<rparr>)"
  using assms by (simp add: rmfree_left_def add.assoc del: squeeze_while.simps)

lemma rmfree_left_one:
  assumes "m_addr l + m_size l = addr" "\<not> (m_addr b \<le> addr + sz \<and> m_size b \<noteq> 0)"
  shows "rmfree_left mp ls l b bs sz addr =
    Ret (mp\<lparr>m_map := rev ls @ l\<lparr>m_size := m_size l + sz\<rparr> # b # bs\<rparr>)"
  using assms by (auto simp: rmfree_left_def Let_def simp del: squeeze_while.simps)

lemma seg_end_eq:
  assumes "seg_ok l" "seg_hi l = unat addr"
  shows "m_addr l + m_size l = addr"
  using seg_ok_bounds(4) [OF assms(1)] assms(2) by (simp add: word_unat_eq_iff)

lemma seg_start_eq:
  assumes "seg_lo b = unat addr + unat sz" "unat addr + unat sz < 2 ^ 32"
  shows "m_addr b = addr + sz"
  using assms by (simp add: word_unat_eq_iff word_end_nat seg_lo_def)

lemma free_pointD:
  assumes "free_point mp A B z zs sz addr"
  shows "map_wf mp" "segs_wf (A @ B)" "m_size z = 0" "zeros zs" "addr \<noteq> 0" "sz \<noteq> 0"
    "unat addr + unat sz < 2 ^ 32"
    "\<forall>a\<in>set A. seg_hi a \<le> unat addr" "\<forall>b\<in>set B. unat addr + unat sz \<le> seg_lo b"
    "rmfree_locate [] (m_map mp) addr = Some (rev A, B @ z # zs)"
    "length (m_map mp) = length A + length B + length zs + 1"
    "length (live (m_map mp)) = length A + length B"
    "unat (m_free mp) + (length A + length B) = unat (m_nsegs mp)"
    "unat (m_nsegs mp) < length A + length B + length zs + 1"
    "free_set mp = segs_set A \<union> segs_set B"
    "live (m_map mp) = A @ B"
  using assms unfolding free_point_def by (auto simp: map_wf_def free_set_def)

lemma rmfree_both:
  assumes p: "free_point mp (A @ [l]) (b # B) z zs sz addr"
    and l: "seg_hi l = unat addr" and b: "seg_lo b = unat addr + unat sz"
  shows "\<exists>mp'. rmfree_retry mp sz addr = Ret mp' \<and> free_post mp sz addr mp'"
proof -
  note p' = free_pointD [OF p, simplified append_assoc append.simps]
  have ok: "segs_wf (A @ l # b # B)" using p' by simp
  then have lok: "seg_ok l" and bok: "seg_ok b" and nz: "nonzeros (b # B)"
    using segs_wf_ok [OF ok] segs_wf_nonzeros [OF ok] by simp_all
  have sum: "unat (sz + m_size b) = unat sz + unat (m_size b)"
    using bok b by (intro unat_add_nowrap) (simp add: seg_defs)
  have fit: "unat addr + unat (sz + m_size b) < 2 ^ 32"
    using bok b sum by (simp add: seg_defs)
  define lb where "lb = l\<lparr>m_size := m_size l + (sz + m_size b)\<rparr>"
  note lb = grow_right [OF lok l fit, folded lb_def]
  have cup: "seg_set lb = seg_set l \<union> block addr sz \<union> seg_set b"
    unfolding lb(4) sum using b by (auto simp: seg_defs)
  have ok': "segs_wf (A @ lb # B)"
    using ok lb b sum by (auto simp: segs_wf_append segs_wf_Cons seg_defs)
  let ?mp = "mp\<lparr>m_map := (A @ lb # B) @ z # z # zs, m_free := m_free mp + 1\<rparr>"
  have fit0: "unat addr + unat sz < 2 ^ 32" using p' by simp
  have sq: "squeeze_while (b # B @ z # zs) = Some (B @ z # z # zs)"
    using nz p' by (intro squeeze_while_append) simp_all
  have "rmfree_locate [] (m_map mp) addr = Some (l # rev A, b # B @ z # zs)"
    using p'(10) by simp
  from rmfree_retry_left [OF this] have run: "rmfree_retry mp sz addr = Ret ?mp"
    using rmfree_left_both [OF seg_end_eq [OF lok l] seg_start_eq [OF b fit0] _ sq]
      seg_end_eq [OF lok l] nz by (simp add: lb_def)
  have "map_wf ?mp" "live (m_map ?mp) = A @ lb # B"
    using map_update [of mp "A @ lb # B" z "z # zs" "m_free mp + 1"] p' ok'
      map_wf_free_bound [of mp] by (simp_all add: map_wf_def)
  with run cup p' show ?thesis
    by (auto simp: free_post_def free_set_def)
qed

lemma rmfree_left_only:
  assumes p: "free_point mp (A @ [l]) B z zs sz addr"
    and l: "seg_hi l = unat addr" and B: "\<forall>b\<in>set B. unat addr + unat sz < seg_lo b"
  shows "\<exists>mp'. rmfree_retry mp sz addr = Ret mp' \<and> free_post mp sz addr mp'"
proof -
  note p' = free_pointD [OF p, simplified append_assoc append.simps]
  have ok: "segs_wf (A @ l # B)" using p' by simp
  then have lok: "seg_ok l" using segs_wf_ok [OF ok] by simp
  define l' where "l' = l\<lparr>m_size := m_size l + sz\<rparr>"
  have fit: "unat addr + unat sz < 2 ^ 32" using p' by simp
  note l' = grow_right [OF lok l fit, folded l'_def]
  have ok': "segs_wf (A @ l' # B)"
    using ok l' B by (auto simp: segs_wf_append segs_wf_Cons)
  let ?mp = "mp\<lparr>m_map := (A @ l' # B) @ z # zs\<rparr>"
  obtain b bs where bs: "B @ z # zs = b # bs" by (cases B) auto
  then have far: "\<not> (m_addr b \<le> addr + sz \<and> m_size b \<noteq> 0)"
    using B p' word_end_nat [OF fit] by (cases B) (auto simp: word_le_nat_alt seg_lo_def)
  have "rmfree_locate [] (m_map mp) addr = Some (l # rev A, b # bs)"
    using p'(10) bs by simp
  from rmfree_retry_left [OF this] have run: "rmfree_retry mp sz addr = Ret ?mp"
    using rmfree_left_one [OF seg_end_eq [OF lok l] far] seg_end_eq [OF lok l] bs
    by (simp add: l'_def)
  have "map_wf ?mp" "live (m_map ?mp) = A @ l' # B"
    using map_update_same [of mp "A @ l' # B" z zs] p' ok'
      live_append [OF segs_wf_nonzeros [OF ok'], of z zs] by simp_all
  with run l'(4) p' show ?thesis by (auto simp: free_post_def free_set_def)
qed

lemma rmfree_right_only:
  assumes p: "free_point mp A (b # B) z zs sz addr"
    and A: "\<forall>a\<in>set A. seg_hi a < unat addr" and b: "seg_lo b = unat addr + unat sz"
  shows "\<exists>mp'. rmfree_retry mp sz addr = Ret mp' \<and> free_post mp sz addr mp'"
proof -
  note p' = free_pointD [OF p, simplified append_assoc append.simps]
  have ok: "segs_wf (A @ b # B)" using p' by simp
  then have bok: "seg_ok b" using segs_wf_ok [OF ok] by simp
  have fit: "unat addr + unat sz < 2 ^ 32" and nz: "addr \<noteq> 0" using p' by simp_all
  define b' where "b' = b\<lparr>m_addr := m_addr b - sz, m_size := m_size b + sz\<rparr>"
  note b' = grow_left [OF bok b nz, folded b'_def]
  have ok': "segs_wf (A @ b' # B)"
    using ok b' A by (auto simp: segs_wf_append segs_wf_Cons)
  let ?mp = "mp\<lparr>m_map := (A @ b' # B) @ z # zs\<rparr>"
  have "\<not> (rev A \<noteq> [] \<and> addr \<le> m_addr (hd (rev A)) + m_size (hd (rev A)))"
    using A seg_ok_bounds(4) [OF segs_wf_ok [OF ok], of "hd (rev A)"]
    by (cases A rule: rev_cases) (auto simp: word_le_nat_alt)
  moreover have "rmfree_locate [] (m_map mp) addr = Some (rev A, b # B @ z # zs)"
    using p'(10) by simp
  ultimately have run: "rmfree_retry mp sz addr = Ret ?mp"
    using rmfree_retry_right [of mp addr "rev A" b "B @ z # zs" sz] seg_start_eq [OF b fit] bok
    by (simp add: seg_ok_def b'_def)
  have "map_wf ?mp" "live (m_map ?mp) = A @ b' # B"
    using map_update_same [of mp "A @ b' # B" z zs] p' ok'
      live_append [OF segs_wf_nonzeros [OF ok'], of z zs] by simp_all
  with run b'(4) p' show ?thesis by (auto simp: free_post_def free_set_def)
qed

text \<open>Neither side abuts: the code needs a new slot.\<close>

lemma apart_guards:
  assumes p: "free_point mp A B z zs sz addr" and bs: "B @ z # zs = b # bs"
    and A: "\<forall>a\<in>set A. seg_hi a < unat addr" and B: "\<forall>b\<in>set B. unat addr + unat sz < seg_lo b"
  shows "\<not> (rev A \<noteq> [] \<and> addr \<le> m_addr (hd (rev A)) + m_size (hd (rev A)))"
    "\<not> (m_addr b \<le> addr + sz \<and> m_size b \<noteq> 0)"
proof -
  note p' = free_pointD [OF p, simplified append_assoc append.simps]
  have ok: "segs_wf (A @ B)" and fit: "unat addr + unat sz < 2 ^ 32" using p' by simp_all
  show "\<not> (rev A \<noteq> [] \<and> addr \<le> m_addr (hd (rev A)) + m_size (hd (rev A)))"
    using A seg_ok_bounds(4) [OF segs_wf_ok [OF ok], of "hd (rev A)"]
    by (cases A rule: rev_cases) (auto simp: word_le_nat_alt)
  show "\<not> (m_addr b \<le> addr + sz \<and> m_size b \<noteq> 0)"
    using B bs p' word_end_nat [OF fit] by (cases B) (auto simp: word_le_nat_alt seg_lo_def)
qed

lemma rmfree_apart:
  assumes p: "free_point mp A B z zs sz addr"
    and A: "\<forall>a\<in>set A. seg_hi a < unat addr" and B: "\<forall>b\<in>set B. unat addr + unat sz < seg_lo b"
    and room: "m_free mp \<noteq> 0"
  shows "\<exists>mp'. rmfree_retry mp sz addr = Ret mp' \<and> free_post mp sz addr mp'"
proof -
  note p' = free_pointD [OF p, simplified append_assoc append.simps]
  define n where "n = \<lparr>m_size = sz, m_addr = addr\<rparr>"
  have ok: "segs_wf (A @ B)" and fit: "unat addr + unat sz < 2 ^ 32"
    and "addr \<noteq> 0" "sz \<noteq> 0" using p' by simp_all
  note n = new_segment [OF this(3,4) fit, folded n_def]
  have ok': "segs_wf (A @ n # B)"
    using ok n A B by (fastforce simp: segs_wf_append segs_wf_Cons)
  obtain b bs where bs: "B @ z # zs = b # bs" by (cases B) auto
  have free1: "unat (m_free mp - 1) = unat (m_free mp) - 1"
    using room by (simp add: unat_minus_one)
  have "length (A @ B) < unat (m_nsegs mp)" "unat (m_nsegs mp) < length (A @ B @ z # zs)"
    using p' unat_nonzero [OF room] by (auto simp: map_wf_def)
  then obtain z' zs' where zs: "zs = z' # zs'" by (cases zs) auto
  then have z': "m_size z' = 0" "zeros zs'" using p' by simp_all
  let ?mp = "mp\<lparr>m_map := (A @ n # B) @ z' # zs', m_free := m_free mp - 1\<rparr>"
  have "nonzeros B" using segs_wf_nonzeros [OF ok] by simp
  then have push: "rmfree_push (b # bs) sz addr = Some (n # B @ zs)"
    using rmfree_push_append [of B z zs sz addr] bs p' by (simp add: n_def)
  have "rmfree_locate [] (m_map mp) addr = Some (rev A, b # bs)"
    using p'(10) bs by simp
  from rmfree_retry_apart [OF this apart_guards [OF p bs A B]]
  have run: "rmfree_retry mp sz addr = Ret ?mp"
    using room push zs by (simp del: rmfree_push.simps)
  have "map_wf ?mp" "live (m_map ?mp) = A @ n # B"
    using map_update [of mp "A @ n # B" z' zs' "m_free mp - 1"] p' ok' z' zs free1
      unat_nonzero [OF room] by (simp_all add: map_wf_def)
  with run n(4) p' show ?thesis by (auto simp: free_post_def free_set_def)
qed

text \<open>Freeing succeeds without loss when the block abuts a segment or a slot is free.\<close>

lemma rmfree_retry_room:
  assumes "map_wf mp" "addr \<noteq> 0" "sz \<noteq> 0" "unat addr + unat sz < 2 ^ 32"
    "block addr sz \<inter> free_set mp = {}" "m_free mp \<noteq> 0 \<or> abuts mp sz addr"
  shows "\<exists>mp'. rmfree_retry mp sz addr = Ret mp' \<and> free_post mp sz addr mp'"
proof -
  obtain A B z zs where p: "free_point mp A B z zs sz addr"
    using free_pointE [OF assms(1-5)] .
  note p' = free_pointD [OF p, simplified append_assoc append.simps]
  have ok: "segs_wf (A @ B)" using p' by simp
  have front: "\<forall>a\<in>set A'. seg_hi a < unat addr" if "A = A' @ [l]" for A' l
    using ok that p' seg_ok_bounds(2) [of l] by (fastforce simp: segs_wf_append segs_wf_Cons)
  have behind: "\<forall>b\<in>set B'. unat addr + unat sz < seg_lo b" if "B = b # B'" for B' b
    using ok that p' seg_ok_bounds(2) [of b] by (fastforce simp: segs_wf_append segs_wf_Cons)
  consider (l) A' l where "A = A' @ [l]" "seg_hi l = unat addr"
    | (nl) "\<forall>a\<in>set A. seg_hi a < unat addr"
    using p' front by (cases A rule: rev_cases) (force simp: order_less_le)+
  note left = this
  consider (r) b B' where "B = b # B'" "seg_lo b = unat addr + unat sz"
    | (nr) "\<forall>b\<in>set B. unat addr + unat sz < seg_lo b"
    using p' behind by (cases B) (force simp: order_less_le)+
  note right = this
  show ?thesis
    using left
  proof cases
    case l
    from right show ?thesis
      using p l by cases (blast intro: rmfree_both rmfree_left_only)+
  next
    case nl
    from right show ?thesis
    proof cases
      case r
      then show ?thesis using p nl by (blast intro: rmfree_right_only)
    next
      case nr
      have "\<not> abuts mp sz addr"
        using nl nr p' seg_ok_bounds(2) [OF segs_wf_ok [OF ok]]
        by (fastforce simp: abuts_def)
      with assms(6) p nl nr show ?thesis by (blast intro: rmfree_apart)
    qed
  qed
qed

subsection \<open>Map overflow\<close>

definition overflow_victim :: "map_head \<Rightarrow> map_seg" where
  "overflow_victim mp =
     (let p1 = last (live (m_map mp)); p2 = last (butlast (live (m_map mp)))
      in if m_size p1 > m_size p2 then p2 else p1)"

lemma rmfree_discard_wf:
  assumes wf: "map_wf mp" and full: "m_free mp = 0" and two: "2 \<le> unat (m_nsegs mp)"
    and split: "live (m_map mp) = A @ B" and arr: "m_map mp = A @ B @ z # zs"
    and z: "m_size z = 0" "zeros zs"
  shows "\<exists>arr. rmfree_discard (rev A) (B @ z # zs) = Ret arr \<and>
    map_wf (mp\<lparr>m_map := arr, m_free := 1\<rparr>) \<and>
    free_set (mp\<lparr>m_map := arr, m_free := 1\<rparr>) = free_set mp - seg_set (overflow_victim mp)"
proof -
  have len: "length (A @ B) = unat (m_nsegs mp)"
    and ok0: "segs_wf (A @ B)" using wf full split by (simp_all add: map_wf_def)
  obtain Q p2 p1 where AB: "A @ B = Q @ [p2, p1]"
  proof -
    have "A @ B = butlast (A @ B) @ [last (A @ B)]" "butlast (A @ B) \<noteq> []"
      using len two by (cases "A @ B" rule: rev_cases; fastforce)+
    then show thesis using that [of "butlast (butlast (A @ B))"]
      by (metis append_butlast_last_id append.assoc append_Cons append_Nil)
  qed
  have ok: "segs_wf (Q @ [p2, p1])" using ok0 AB by simp
  have fin: "rmfree_final (rev A) (B @ z # zs) = Some (p1 # p2 # rev Q, z # zs)"
  proof -
    have "nonzeros B" using segs_wf_nonzeros [OF ok0] by (simp only: list_all_append)
    then have "rmfree_final (rev A) (B @ z # zs) = Some (rev (A @ B), z # zs)"
      using z by (simp add: rmfree_final_append)
    then show ?thesis unfolding AB by simp
  qed
  have dis: "seg_set p1 \<inter> segs_set Q = {}" "seg_set p2 \<inter> segs_set Q = {}"
    "seg_set p1 \<inter> seg_set p2 = {}"
    using seg_set_disjoint [of "Q @ [p2]" p1 "[]"] seg_set_disjoint [of Q p2 "[p1]"] ok by auto
  have free: "free_set mp = segs_set Q \<union> seg_set p2 \<union> seg_set p1"
    using split AB by (simp add: free_set_def Un_assoc)
  have n: "unat (m_nsegs mp) = length Q + 2" "length (m_map mp) = length Q + length zs + 3"
  proof -
    have "length (A @ B) = length Q + 2" unfolding AB by simp
    then show "unat (m_nsegs mp) = length Q + 2" "length (m_map mp) = length Q + length zs + 3"
      using len arr by simp_all
  qed
  show ?thesis
  proof (cases "m_size p1 > m_size p2")
    case True
    let ?arr = "(Q @ [p1]) @ p1\<lparr>m_size := 0\<rparr> # z # zs"
    have "overflow_victim mp = p2" using True split AB by (simp add: overflow_victim_def butlast_append)
    moreover have "rmfree_discard (rev A) (B @ z # zs) = Ret ?arr"
      using fin True by (simp add: rmfree_discard_def)
    moreover have "segs_wf (Q @ [p1])" using ok by (auto simp: segs_wf_append segs_wf_Cons)
    ultimately show ?thesis
      using map_update [OF wf, of "Q @ [p1]" "p1\<lparr>m_size := 0\<rparr>" "z # zs" 1] z n free dis
      by (auto simp: free_set_def)
  next
    case False
    let ?arr = "(Q @ [p2]) @ z # z\<lparr>m_size := 0\<rparr> # zs"
    have "overflow_victim mp = p1" using False split AB by (simp add: overflow_victim_def butlast_append)
    moreover have "rmfree_discard (rev A) (B @ z # zs) = Ret ?arr"
      using fin False by (simp add: rmfree_discard_def)
    moreover have "segs_wf (Q @ [p2])" using ok by (auto simp: segs_wf_append segs_wf_Cons)
    ultimately show ?thesis
      using map_update [OF wf, of "Q @ [p2]" z "z\<lparr>m_size := 0\<rparr> # zs" 1] z n free dis
      by (auto simp: free_set_def)
  qed
qed

text \<open>
  With no slot left and no segment to merge with, \<open>rmfree\<close> drops the smaller of the last two
  segments and then succeeds on its second pass.
\<close>

lemma rmfree_retry_overflow:
  assumes wf: "map_wf mp" and args: "addr \<noteq> 0" "sz \<noteq> 0" "unat addr + unat sz < 2 ^ 32"
    and dis: "block addr sz \<inter> free_set mp = {}"
    and full: "m_free mp = 0" "\<not> abuts mp sz addr" and two: "2 \<le> unat (m_nsegs mp)"
  shows "\<exists>mp'. rmfree_retry mp sz addr = Ret mp' \<and> map_wf mp' \<and>
    free_set mp' = (free_set mp - seg_set (overflow_victim mp)) \<union> block addr sz \<and>
    m_nsegs mp' = m_nsegs mp \<and> m_want mp' = m_want mp"
proof -
  obtain A B z zs where p: "free_point mp A B z zs sz addr"
    using free_pointE [OF wf args dis] .
  note p' = free_pointD [OF p]
  obtain b bs where bs: "B @ z # zs = b # bs" by (cases B) auto
  have AB: "\<forall>a\<in>set A. seg_hi a < unat addr" "\<forall>b\<in>set B. unat addr + unat sz < seg_lo b"
    using full(2) p'(8,9,16) by (auto simp: abuts_def order_less_le)
  have loc: "rmfree_locate [] (m_map mp) addr = Some (rev A, b # bs)"
    using p'(10) bs by simp
  from p have arr: "m_map mp = A @ B @ z # zs" unfolding free_point_def by blast
  obtain arr where "rmfree_discard (rev A) (B @ z # zs) = Ret arr"
    and wf': "map_wf (mp\<lparr>m_map := arr, m_free := 1\<rparr>)"
    and free': "free_set (mp\<lparr>m_map := arr, m_free := 1\<rparr>) = free_set mp - seg_set (overflow_victim mp)"
    using rmfree_discard_wf [OF wf full(1) two p'(16) arr p'(3,4)] by blast
  then have "rmfree_retry mp sz addr = rmfree_retry (mp\<lparr>m_map := arr, m_free := 1\<rparr>) sz addr"
    using rmfree_retry_apart [OF loc apart_guards [OF p bs AB]] full(1) bs by simp
  moreover have "block addr sz \<inter> free_set (mp\<lparr>m_map := arr, m_free := 1\<rparr>) = {}"
    using free' dis by auto
  ultimately show ?thesis
    using rmfree_retry_room [OF wf' args] free' by (auto simp: free_post_def)
qed

text \<open>A block that overlaps a free segment is detected.\<close>

lemma rmfree_retry_overlap:
  assumes wf: "map_wf mp" and args: "addr \<noteq> 0" "sz \<noteq> 0" "unat addr + unat sz < 2 ^ 32"
    and over: "block addr sz \<inter> free_set mp \<noteq> {}"
  shows "rmfree_retry mp sz addr = Panic ''bad rmfree''"
proof -
  obtain A B z zs where s: "live (m_map mp) = A @ B" "segs_wf (A @ B)" "m_size z = 0"
    "\<forall>a\<in>set A. seg_lo a \<le> unat addr" "\<forall>b\<in>set B. unat addr < seg_lo b"
    and loc: "rmfree_locate [] (m_map mp) addr = Some (rev A, B @ z # zs)"
    using wf by (rule locate_split [where addr = addr])
  obtain t where t: "t \<in> set (A @ B)" "block addr sz \<inter> seg_set t \<noteq> {}"
    using over s(1) by (auto simp: free_set_def segs_set_def)
  obtain b bs where bs: "B @ z # zs = b # bs" by (cases B) auto
  show ?thesis
  proof (cases "A \<noteq> [] \<and> unat addr < seg_hi (last A)")
    case True
    then obtain A' l where A: "A = A' @ [l]" and l: "unat addr < seg_hi l"
      by (cases A rule: rev_cases) auto
    have "seg_ok l" using s(2) A by (auto intro: segs_wf_ok)
    then have "addr < m_addr l + m_size l"
      using l by (simp add: word_less_nat_alt seg_ok_bounds(4))
    then show ?thesis
      using rmfree_retry_left [of mp addr l "rev A'" b bs sz] loc A bs
      by (simp add: rmfree_left_def)
  next
    case False
    have "seg_hi a \<le> unat addr" if "a \<in> set A" for a
    proof -
      obtain A' l where A: "A = A' @ [l]" using \<open>a \<in> set A\<close> by (cases A rule: rev_cases) auto
      then have "seg_hi l \<le> unat addr" using False by simp
      moreover have "a = l \<or> seg_hi a < seg_lo l"
        using that A s(2) by (auto simp: segs_wf_append)
      ultimately show ?thesis using s(4) A by auto
    qed
    then have "t \<in> set B" using t by (fastforce simp: seg_set_def)
    then obtain B' where B: "B = b # B'" using bs by (cases B) auto
    have bok: "seg_ok b" using s(2) B by (auto intro: segs_wf_ok)
    have "seg_lo b \<le> seg_lo t"
      using \<open>t \<in> set B\<close> B s(2) seg_ok_bounds(2) [OF bok]
      by (auto simp: segs_wf_append segs_wf_Cons)
    then have "seg_lo b < unat addr + unat sz" using t(2) by (auto simp: seg_set_def)
    then have "m_addr b < addr + sz"
      using args(3) by (simp add: word_less_nat_alt word_end_nat seg_lo_def)
    moreover have "m_size b \<noteq> 0" using bok by (simp add: seg_ok_def)
    moreover have "m_addr l + m_size l = addr" if "A = A' @ [l]" "addr \<le> m_addr l + m_size l" for A' l
      using that False s(2) seg_ok_bounds(4) [of l]
      by (auto simp: word_le_nat_alt word_unat_eq_iff segs_wf_append segs_wf_Cons)
    ultimately show ?thesis
      using loc bs
      by (subst rmfree_retry.simps, cases A rule: rev_cases)
        (auto simp: rmfree_left_def)
  qed
qed

section \<open>Allocation at an address\<close>

definition splits_segment :: "map_head \<Rightarrow> ulong \<Rightarrow> ulong \<Rightarrow> bool" where
  "splits_segment mp sz addr \<longleftrightarrow>
     (\<exists>s\<in>set (live (m_map mp)). seg_lo s < unat addr \<and> unat addr + unat sz < seg_hi s)"

text \<open>The segment that contains the address, if there is one.\<close>

lemma rmget_scan_split:
  assumes "map_wf mp"
  obtains A B z zs where "m_map mp = A @ B @ z # zs" "live (m_map mp) = A @ B" "segs_wf (A @ B)"
    "m_size z = 0" "zeros zs" "rmget_scan [] (m_map mp) addr = Some (rev A, B @ z # zs)"
    "\<forall>a\<in>set A. unat addr \<notin> seg_set a" "B \<noteq> [] \<longrightarrow> unat addr \<in> seg_set (hd B)"
proof -
  from assms obtain L z zs where L: "m_map mp = L @ z # zs" "segs_wf L" "m_size z = 0"
    "zeros zs" "live (m_map mp) = L" by (rule map_wfE)
  define P where "P = (\<lambda>s :: map_seg. \<not> (m_addr s \<le> addr \<and> m_addr s + m_size s > addr))"
  have P: "P s \<longleftrightarrow> unat addr \<notin> seg_set s" if "s \<in> set L" for s
    using seg_ok_bounds(4) [OF segs_wf_ok [OF L(2) that]]
    by (auto simp: P_def seg_set_def seg_lo_def word_le_nat_alt word_less_nat_alt)
  let ?A = "takeWhile P L" and ?B = "dropWhile P L"
  have "\<forall>a\<in>set ?A. unat addr \<notin> seg_set a" using P by (auto dest: set_takeWhileD)
  moreover have "unat addr \<in> seg_set (hd ?B)" if "?B \<noteq> []"
    using P [of "hd ?B"] hd_dropWhile [OF that] hd_in_set [OF that] set_dropWhileD [of "hd ?B" P L]
    by blast
  moreover have "rmget_scan [] (m_map mp) addr = Some (rev ?A, ?B @ z # zs)"
    using L by (simp add: rmget_scan_append segs_wf_nonzeros P_def Let_def)
  ultimately show thesis using L by (intro that [of ?A ?B z zs]) simp_all
qed

lemma segs_set_hd_only:
  assumes "segs_wf (A @ b # B)" "x \<in> seg_set b"
  shows "x \<notin> segs_set A" "x \<notin> segs_set B"
  using seg_set_disjoint [OF assms(1)] assms(2) by auto

lemma seg_cut_left:
  assumes "seg_ok b" "seg_lo b < unat addr" "unat addr < seg_hi b"
  defines "b' \<equiv> b\<lparr>m_size := addr - m_addr b\<rparr>"
  shows "seg_ok b'" "seg_lo b' = seg_lo b" "seg_hi b' = unat addr"
    "seg_set b' = {seg_lo b ..< unat addr}"
proof -
  have "unat (addr - m_addr b) = unat addr - unat (m_addr b)"
    using assms(2) by (intro unat_sub_nowrap) (simp add: seg_lo_def)
  then show lo: "seg_lo b' = seg_lo b" and hi: "seg_hi b' = unat addr"
    and "seg_set b' = {seg_lo b ..< unat addr}"
    using assms(2) by (auto simp: b'_def seg_defs)
  have "0 < unat (m_size b')"
    using assms(2) \<open>unat (addr - m_addr b) = _\<close> by (simp add: b'_def seg_lo_def)
  then show "seg_ok b'"
    using assms(1,3) hi by (auto simp: seg_ok_def b'_def)
qed

text \<open>The state in which \<open>rmget\<close> has found the segment \<open>b\<close> that holds the whole block.\<close>

definition get_point ::
  "map_head \<Rightarrow> map_seg list \<Rightarrow> map_seg \<Rightarrow> map_seg list \<Rightarrow> map_seg \<Rightarrow> map_seg list \<Rightarrow> ulong \<Rightarrow> ulong \<Rightarrow> bool" where
  "get_point mp A b B z zs sz addr \<longleftrightarrow>
     map_wf mp \<and> m_map mp = A @ (b # B) @ z # zs \<and> live (m_map mp) = A @ b # B \<and>
     m_size z = 0 \<and> zeros zs \<and> sz \<noteq> 0 \<and>
     seg_lo b \<le> unat addr \<and> unat addr + unat sz \<le> seg_hi b"

lemma get_pointD:
  assumes "get_point mp A b B z zs sz addr"
  shows "map_wf mp" "segs_wf (A @ b # B)" "seg_ok b" "nonzeros B" "m_size b \<noteq> 0"
    "m_size z = 0" "zeros zs" "0 < unat sz" "unat addr + unat sz < 2 ^ 32"
    "free_set mp = segs_set A \<union> seg_set b \<union> segs_set B"
    "length (m_map mp) = length A + length B + length zs + 2"
    "unat (m_free mp) + (length A + length B + 1) = unat (m_nsegs mp)"
    "unat (m_nsegs mp) < length A + length B + length zs + 2"
    "length (live (m_map mp)) = length A + length B + 1"
    "block addr sz \<subseteq> seg_set b"
    "m_addr b = addr \<longleftrightarrow> seg_lo b = unat addr"
    "m_addr b + m_size b = addr + sz \<longleftrightarrow> seg_hi b = unat addr + unat sz"
proof -
  note g = assms [unfolded get_point_def]
  show wf: "map_wf mp" and "m_size z = 0" "zeros zs" "0 < unat sz"
    using g by (auto simp: unat_nonzero)
  have L: "live (m_map mp) = A @ b # B" using g by blast
  with wf show ok: "segs_wf (A @ b # B)" by (simp only: map_wf_def)
  show bok: "seg_ok b" "nonzeros B" "m_size b \<noteq> 0"
    using segs_wf_ok [OF ok] segs_wf_nonzeros [OF ok] by simp_all
  show fit: "unat addr + unat sz < 2 ^ 32" using g seg_ok_bounds(3) [OF bok(1)] by simp
  show "free_set mp = segs_set A \<union> seg_set b \<union> segs_set B"
    by (simp add: free_set_def L Un_assoc)
  show "length (m_map mp) = length A + length B + length zs + 2"
    "length (live (m_map mp)) = length A + length B + 1"
    "unat (m_free mp) + (length A + length B + 1) = unat (m_nsegs mp)"
    "unat (m_nsegs mp) < length A + length B + length zs + 2"
    using g by (auto simp: map_wf_def simp flip: append_Cons)
  show "block addr sz \<subseteq> seg_set b" using g by (auto simp: seg_set_def)
  show "m_addr b = addr \<longleftrightarrow> seg_lo b = unat addr"
    by (simp add: word_unat_eq_iff seg_lo_def)
  show "m_addr b + m_size b = addr + sz \<longleftrightarrow> seg_hi b = unat addr + unat sz"
    by (simp add: word_unat_eq_iff seg_ok_bounds(4) [OF bok(1)] word_end_nat [OF fit])
qed

definition get_post :: "map_head \<Rightarrow> ulong \<Rightarrow> ulong \<Rightarrow> map_head \<Rightarrow> bool" where
  "get_post mp sz addr mp' \<longleftrightarrow>
     map_wf mp' \<and> free_set mp' = free_set mp - block addr sz \<and> m_nsegs mp' = m_nsegs mp"

lemma rmget_take_all:
  assumes p: "get_point mp A b B z zs sz addr"
    and c: "seg_lo b = unat addr" "seg_hi b = unat addr + unat sz"
  shows "\<exists>mp'. rmget_take mp (rev A) b (B @ z # zs) sz addr = Ret (addr, mp') \<and>
    get_post mp sz addr mp'"
proof -
  note p' = get_pointD [OF p]
  let ?mp = "mp\<lparr>m_map := (A @ B) @ z # z # zs, m_free := m_free mp + 1\<rparr>"
  have "unat (m_size b) = unat sz" using c by (simp add: seg_defs)
  then have "m_size b = sz" by (simp add: word_unat_eq_iff)
  moreover have "squeeze_while (b # B @ z # zs) = Some (B @ z # z # zs)"
    using p' by (intro squeeze_while_append) simp_all
  ultimately have "rmget_take mp (rev A) b (B @ z # zs) sz addr = Ret (addr, ?mp)"
    using c(1) p'(16) by (simp add: rmget_take_def del: squeeze_while.simps)
  moreover have "segs_wf (A @ B)" using p'(2) by (auto simp: segs_wf_append segs_wf_Cons)
  moreover have "seg_set b = block addr sz" using c by (simp add: seg_set_def)
  moreover have "unat (m_free mp + 1) = unat (m_free mp) + 1"
    using map_wf_free_bound [OF p'(1)] p'(14) by fastforce
  ultimately show ?thesis
    using map_update [OF p'(1), of "A @ B" z "z # zs" "m_free mp + 1"] p'
      seg_set_disjoint [OF p'(2)] by (auto simp: get_post_def)
qed

lemma rmget_take_first:
  assumes p: "get_point mp A b B z zs sz addr"
    and c: "seg_lo b = unat addr" "unat addr + unat sz < seg_hi b"
  shows "\<exists>mp'. rmget_take mp (rev A) b (B @ z # zs) sz addr = Ret (addr, mp') \<and>
    get_post mp sz addr mp'"
proof -
  note p' = get_pointD [OF p]
  have lt: "unat sz < unat (m_size b)" using c by (simp add: seg_defs)
  define b' where "b' = b\<lparr>m_addr := m_addr b + sz, m_size := m_size b - sz\<rparr>"
  note b' = trim_segment [OF p'(3) lt, folded b'_def]
  let ?mp = "mp\<lparr>m_map := (A @ b' # B) @ z # zs\<rparr>"
  have "rmget_take mp (rev A) b (B @ z # zs) sz addr = Ret (addr, ?mp)"
    using c lt p'(16) by (auto simp: rmget_take_def b'_def)
  moreover have ok': "segs_wf (A @ b' # B)"
    using p'(2) b' by (fastforce simp: segs_wf_append segs_wf_Cons)
  moreover have "block (m_addr b) sz = block addr sz" using c p'(16) by simp
  ultimately show ?thesis
    using map_update_same [OF p'(1) ok' p'(6,7)] p'(10,11,14,15) b'(4) seg_set_disjoint [OF p'(2)]
    by (auto simp: get_post_def)
qed

lemma rmget_take_final:
  assumes p: "get_point mp A b B z zs sz addr"
    and c: "seg_lo b < unat addr" "seg_hi b = unat addr + unat sz"
  shows "\<exists>mp'. rmget_take mp (rev A) b (B @ z # zs) sz addr = Ret (addr, mp') \<and>
    get_post mp sz addr mp'"
proof -
  note p' = get_pointD [OF p]
  have "m_addr b + m_size b = addr + sz" using c p'(17) by simp
  then have eq: "m_size b - sz = addr - m_addr b" by (simp add: algebra_simps)
  define b' where "b' = b\<lparr>m_size := addr - m_addr b\<rparr>"
  have "unat addr < seg_hi b" using c p'(8) by simp
  note b' = seg_cut_left [OF p'(3) c(1) this, folded b'_def]
  let ?mp = "mp\<lparr>m_map := (A @ b' # B) @ z # zs\<rparr>"
  have "rmget_take mp (rev A) b (B @ z # zs) sz addr = Ret (addr, ?mp)"
    using c p'(16,17) eq by (auto simp: rmget_take_def b'_def)
  moreover have ok': "segs_wf (A @ b' # B)"
    using p'(2) b' c by (fastforce simp: segs_wf_append segs_wf_Cons)
  moreover have "seg_set b' = seg_set b - block addr sz"
    unfolding b'(4) unfolding seg_set_def c(2) by auto
  ultimately show ?thesis
    using map_update_same [OF p'(1) ok' p'(6,7)] p'(10,11,14,15) seg_set_disjoint [OF p'(2)]
    by (auto simp: get_post_def)
qed

lemma rmget_take_middle:
  assumes p: "get_point mp A b B z zs sz addr"
    and c: "seg_lo b < unat addr" "unat addr + unat sz < seg_hi b" "m_free mp \<noteq> 0"
  shows "\<exists>mp'. rmget_take mp (rev A) b (B @ z # zs) sz addr = Ret (addr, mp') \<and>
    get_post mp sz addr mp'"
proof -
  note p' = get_pointD [OF p]
  define r where "r = \<lparr>m_size = m_addr b + m_size b - (addr + sz), m_addr = addr + sz\<rparr>"
  define b' where "b' = b\<lparr>m_size := addr - m_addr b\<rparr>"
  have "unat addr < seg_hi b" using c p'(8) by simp
  note b' = seg_cut_left [OF p'(3) c(1) this, folded b'_def]
  have "unat (m_addr b + m_size b - (addr + sz)) = seg_hi b - (unat addr + unat sz)"
    using c by (subst unat_sub_nowrap) (simp_all add: seg_ok_bounds(4) [OF p'(3)] word_end_nat [OF p'(9)])
  then have "unat (m_size r) = seg_hi b - (unat addr + unat sz)"
    "unat (m_addr r) = unat addr + unat sz"
    by (simp_all add: r_def word_end_nat [OF p'(9)])
  then have r: "seg_lo r = unat addr + unat sz" "seg_hi r = seg_hi b"
    and rnz: "0 < unat (m_size r)" "0 < unat (m_addr r)"
    using c by (simp_all add: seg_lo_def [of r] seg_hi_def [of r])
  then have rok: "seg_ok r" using p'(3) by (auto simp: seg_ok_def)
  obtain z' zs' where zs: "zs = z' # zs'"
    using p'(12,13) unat_nonzero [OF c(3)] by (cases zs) auto
  let ?mp = "mp\<lparr>m_map := (A @ b' # r # B) @ z'\<lparr>m_size := 0\<rparr> # zs', m_free := m_free mp - 1\<rparr>"
  have "rmget_open r (B @ z # z' # zs') = Some (r # B @ z'\<lparr>m_size := 0\<rparr> # zs')"
    using p'(4,6) by (intro rmget_open_append) simp_all
  then have "rmget_take mp (rev A) b (B @ z # zs) sz addr = Ret (addr, ?mp)"
    using c p'(16,17) zs by (auto simp: rmget_take_def r_def b'_def)
  moreover have "segs_wf (A @ b' # r # B)"
    using p'(2,8) b' r rok c by (fastforce simp: segs_wf_append segs_wf_Cons)
  moreover have "seg_set b' \<union> seg_set r = seg_set b - block addr sz"
    unfolding b'(4) unfolding seg_set_def r using c by auto
  moreover have "unat (m_free mp - 1) = unat (m_free mp) - 1"
    using c(3) by (simp add: unat_minus_one)
  ultimately show ?thesis
    using map_update [OF p'(1), of "A @ b' # r # B" "z'\<lparr>m_size := 0\<rparr>" zs' "m_free mp - 1"] zs
      unat_nonzero [OF c(3)] seg_set_disjoint [OF p'(2)] p'(7,10-13,15)
    by (auto simp: get_post_def)
qed

lemma rmget_take_full:
  assumes p: "get_point mp A b B z zs sz addr"
    and c: "seg_lo b < unat addr" "unat addr + unat sz < seg_hi b" "m_free mp = 0"
  shows "rmget_take mp (rev A) b (B @ z # zs) sz addr = Ret (0, mp)"
  using get_pointD(16,17) [OF p] c by (simp add: rmget_take_def)

lemma block_free_iff:
  assumes L: "live (m_map mp) = A @ b # B" and ok: "segs_wf (A @ b # B)"
    and b: "unat addr \<in> seg_set b" and pos: "0 < unat sz"
  shows "block addr sz \<subseteq> free_set mp \<longleftrightarrow> unat addr + unat sz \<le> seg_hi b"
proof
  assume "block addr sz \<subseteq> free_set mp"
  then obtain t where t: "t \<in> set (A @ b # B)" "block addr sz \<subseteq> seg_set t"
    using run_in_segment [OF ok pos, of "unat addr"] L by (auto simp: free_set_def)
  have ends: "unat addr \<in> block addr sz" "unat addr + unat sz - 1 \<in> block addr sz"
    using pos by auto
  then have "t = b"
    using segs_wf_ordered [OF ok t(1), of b] t(2) b by (fastforce simp: seg_set_def)
  then show "unat addr + unat sz \<le> seg_hi b" using t(2) ends pos by (auto simp: seg_set_def)
next
  assume "unat addr + unat sz \<le> seg_hi b"
  then show "block addr sz \<subseteq> free_set mp" using b L by (auto simp: free_set_def seg_set_def)
qed

lemma splits_segment_iff:
  assumes L: "live (m_map mp) = A @ b # B" and ok: "segs_wf (A @ b # B)"
    and b: "unat addr \<in> seg_set b" and pos: "0 < unat sz"
  shows "splits_segment mp sz addr \<longleftrightarrow> seg_lo b < unat addr \<and> unat addr + unat sz < seg_hi b"
  using segs_wf_ordered [OF ok, of b] b pos L by (fastforce simp: splits_segment_def seg_set_def)

lemma rmget_post:
  assumes wf: "map_wf mp" and sz: "0 < sint sz" and fit: "unat addr + unat sz < 2 ^ 32"
  shows "\<exists>r mp'. rmget mp sz addr = Ret (r, mp') \<and>
    (if block addr sz \<subseteq> free_set mp \<and> (m_free mp \<noteq> 0 \<or> \<not> splits_segment mp sz addr)
     then r = addr \<and> get_post mp sz addr mp' else r = 0 \<and> mp' = mp)"
proof -
  have nz: "sz \<noteq> 0" and pos: "0 < unat sz" using sz by (auto simp: sint_pos_iff)
  obtain A B z zs where s: "m_map mp = A @ B @ z # zs" "live (m_map mp) = A @ B" "segs_wf (A @ B)"
    "m_size z = 0" "zeros zs" "rmget_scan [] (m_map mp) addr = Some (rev A, B @ z # zs)"
    "\<forall>a\<in>set A. unat addr \<notin> seg_set a" "B \<noteq> [] \<longrightarrow> unat addr \<in> seg_set (hd B)"
    using wf by (rule rmget_scan_split [where addr = addr])
  show ?thesis
  proof (cases B)
    case Nil
    then have "unat addr \<notin> free_set mp" using s(2,7) by (auto simp: free_set_def segs_set_def)
    moreover have "unat addr \<in> block addr sz" using pos by simp
    ultimately have "\<not> block addr sz \<subseteq> free_set mp" by blast
    then show ?thesis using s(4,6) sz Nil by (simp add: rmget_def)
  next
    case (Cons b B')
    have ok: "segs_wf (A @ b # B')" and L: "live (m_map mp) = A @ b # B'"
      and b: "unat addr \<in> seg_set b" using s(2,3,8) Cons by simp_all
    then have bok: "seg_ok b" by (auto intro: segs_wf_ok)
    note iffs = block_free_iff [OF L ok b pos] splits_segment_iff [OF L ok b pos]
    have run: "rmget mp sz addr = (if seg_hi b < unat addr + unat sz then Ret (0, mp)
        else rmget_take mp (rev A) b (B' @ z # zs) sz addr)"
      using s(6) Cons sz bok
      by (simp add: rmget_def seg_ok_def word_less_nat_alt seg_ok_bounds(4) [OF bok] word_end_nat [OF fit])
    show ?thesis
    proof (cases "unat addr + unat sz \<le> seg_hi b")
      case False
      then show ?thesis using run iffs by simp
    next
      case True
      have p: "get_point mp A b B' z zs sz addr"
        unfolding get_point_def
        using wf s(1,2,4,5) Cons nz True b by (simp add: seg_set_def)
      have "seg_lo b \<le> unat addr" using b by (simp add: seg_set_def)
      then show ?thesis
        using run iffs True rmget_take_all [OF p] rmget_take_first [OF p]
          rmget_take_final [OF p] rmget_take_middle [OF p] rmget_take_full [OF p]
        by (cases "seg_lo b = unat addr"; cases "seg_hi b = unat addr + unat sz"; cases "m_free mp = 0")
          (auto simp: not_less)
    qed
  qed
qed

section \<open>The contract\<close>

lemma rmalloc_post:
  assumes "map_wf mp" "0 < sint sz"
  shows "\<exists>addr mp'. rmalloc mp sz = Ret (addr, mp') \<and> alloc_post mp sz addr mp'"
proof -
  have "sz \<noteq> 0" using assms(2) by auto
  from rmalloc_locked_post [OF assms(1) this] assms(2) show ?thesis by (simp add: rmalloc_def)
qed

lemma rmfree_of_retry:
  assumes "addr \<noteq> 0" "0 < sint sz" "rmfree_retry mp sz addr = Ret mp'" "m_want mp' = m_want mp"
  shows "rmfree mp sz addr = Ret (mp'\<lparr>m_want := 0\<rparr>, m_want mp \<noteq> 0)"
  using assms by (auto simp: rmfree_def)

lemma map_wf_want [simp]: "map_wf (mp\<lparr>m_want := w\<rparr>) = map_wf mp"
  by (simp add: map_wf_def)

lemma free_set_want [simp]: "free_set (mp\<lparr>m_want := w\<rparr>) = free_set mp"
  by (simp add: free_set_def)

lemma rmfree_post:
  assumes wf: "map_wf mp" and args: "addr \<noteq> 0" "0 < sint sz" "unat addr + unat sz < 2 ^ 32"
    and dis: "block addr sz \<inter> free_set mp = {}" and two: "2 \<le> unat (m_nsegs mp)"
  shows "\<exists>mp'. rmfree mp sz addr = Ret (mp', m_want mp \<noteq> 0) \<and> map_wf mp' \<and>
    free_set mp' = block addr sz \<union>
      (free_set mp - (if m_free mp = 0 \<and> \<not> abuts mp sz addr then seg_set (overflow_victim mp) else {})) \<and>
    m_nsegs mp' = m_nsegs mp \<and> m_want mp' = 0"
proof -
  have nz: "sz \<noteq> 0" using args(2) by auto
  show ?thesis
  proof (cases "m_free mp = 0 \<and> \<not> abuts mp sz addr")
    case True
    then have "m_free mp = 0" "\<not> abuts mp sz addr" by auto
    from rmfree_retry_overflow [OF wf args(1) nz args(3) dis this two] rmfree_of_retry [OF args(1,2)] True
    show ?thesis by (fastforce simp: Un_commute)
  next
    case False
    then have "m_free mp \<noteq> 0 \<or> abuts mp sz addr" by auto
    from rmfree_retry_room [OF wf args(1) nz args(3) dis this] rmfree_of_retry [OF args(1,2)] False
    show ?thesis by (fastforce simp: free_post_def Un_commute)
  qed
qed

interpretation rm: resource_map map_wf free_set "\<lambda>mp. unat (m_nsegs mp)" rmalloc rmfree
proof
  fix m :: map_head and sz a :: ulong and m' w
  assume wf: "map_wf m" and sz: "0 < sint sz"
  obtain a0 m0 where ex: "rmalloc m sz = Ret (a0, m0)" "alloc_post m sz a0 m0"
    using rmalloc_post [OF wf sz] by blast
  show "\<exists>a m'. rmalloc m sz = Ret (a, m')" using ex by blast
  show "rmalloc m sz = Ret (0, m') \<Longrightarrow> m' = m" using ex by (simp add: alloc_post_def)
  show "rmalloc m sz = Ret (a, m') \<Longrightarrow> map_wf m'" using ex by (simp add: alloc_post_def)
  show "rmalloc m sz = Ret (a, m') \<Longrightarrow> unat (m_nsegs m') = unat (m_nsegs m)"
    using ex by (simp add: alloc_post_def)
  show "rmalloc m sz = Ret (a, m') \<Longrightarrow> a \<noteq> 0 \<Longrightarrow>
      blk a sz \<subseteq> free_set m \<and> free_set m' = free_set m - blk a sz"
    using ex by (auto simp: alloc_post_def blk_block)
next
  fix m :: map_head and sz a :: ulong and m' w
  assume a: "map_wf m" "a \<noteq> 0" "0 < sint sz" "unat a + unat sz < 2 ^ 32"
    "2 \<le> unat (m_nsegs m)" and dis: "blk a sz \<inter> free_set m = {}"
  obtain m0 where ex: "rmfree m sz a = Ret (m0, m_want m \<noteq> 0)" "map_wf m0"
    "blk a sz \<subseteq> free_set m0" "free_set m0 \<subseteq> free_set m \<union> blk a sz" "m_nsegs m0 = m_nsegs m"
    using rmfree_post [OF a(1-4) dis [unfolded blk_block] a(5)] by (auto simp: blk_block)
  show "\<exists>m' w. rmfree m sz a = Ret (m', w)" using ex by blast
  show "rmfree m sz a = Ret (m', w) \<Longrightarrow> map_wf m' \<and> unat (m_nsegs m') = unat (m_nsegs m)"
    using ex by simp
  show "rmfree m sz a = Ret (m', w) \<Longrightarrow> blk a sz \<subseteq> free_set m' \<and> free_set m' \<subseteq> free_set m \<union> blk a sz"
    using ex by simp
qed

lemma rmfree_wf_panic_iff:
  assumes wf: "map_wf mp" and two: "2 \<le> unat (m_nsegs mp)" and fit: "unat addr + unat sz < 2 ^ 32"
  shows "rmfree mp sz addr = Panic ''bad rmfree'' \<longleftrightarrow>
    addr = 0 \<or> sint sz \<le> 0 \<or> block addr sz \<inter> free_set mp \<noteq> {}"
proof (cases "addr = 0 \<or> sint sz \<le> 0")
  case True
  then show ?thesis by (auto simp: rmfree_def)
next
  case False
  then have args: "addr \<noteq> 0" "0 < sint sz" and nz: "sz \<noteq> 0" by auto
  show ?thesis
  proof (cases "block addr sz \<inter> free_set mp = {}")
    case True
    with rmfree_post [OF wf args fit True two] False show ?thesis by auto
  next
    case over: False
    with rmfree_retry_overlap [OF wf args(1) nz fit over] False show ?thesis
      by (simp add: rmfree_def)
  qed
qed

lemma rmfree_one_slot:
  assumes wf: "map_wf mp" and args: "addr \<noteq> 0" "0 < sint sz" "unat addr + unat sz < 2 ^ 32"
    and dis: "block addr sz \<inter> free_set mp = {}"
    and full: "m_nsegs mp = 1" "m_free mp = 0" "\<not> abuts mp sz addr"
  shows "rmfree mp sz addr = Fault"
proof -
  have nz: "sz \<noteq> 0" using args(2) by auto
  obtain A B z zs where p: "free_point mp A B z zs sz addr"
    using free_pointE [OF wf args(1) nz args(3) dis] .
  note p' = free_pointD [OF p]
  have AB: "\<forall>a\<in>set A. seg_hi a < unat addr" "\<forall>b\<in>set B. unat addr + unat sz < seg_lo b"
    using full(3) p'(8,9,16) by (auto simp: abuts_def order_less_le)
  obtain b bs where bs: "B @ z # zs = b # bs" by (cases B) auto
  have loc: "rmfree_locate [] (m_map mp) addr = Some (rev A, b # bs)" using p'(10) bs by simp
  have "nonzeros B" using segs_wf_nonzeros [OF p'(2)] by simp
  then have "rmfree_final (rev A) (b # bs) = Some (rev (A @ B), z # zs)"
    using rmfree_final_append [of B z "rev A" zs] p'(3) bs by simp
  moreover have "length (A @ B) = 1" using p'(13) full by simp
  then obtain x where "rev (A @ B) = [x]" by (cases "A @ B") auto
  ultimately have "rmfree_discard (rev A) (b # bs) = Fault"
    by (simp add: rmfree_discard_def del: rmfree_final.simps)
  then have "rmfree_retry mp sz addr = Fault"
    using rmfree_retry_apart [OF loc apart_guards [OF p bs AB]] full(2) by simp
  then show ?thesis using args by (simp add: rmfree_def)
qed

lemma rmallocmap_wait_map:
  assumes "0 < unat n" "unat n < 2 ^ 28"
  shows "rmallocmap_wait n = Ret \<lparr>m_free = n, m_want = 0, m_nam = ''rmallocmap'', m_nsegs = n,
    m_map = replicate (unat n + 2) zero_seg\<rparr>"
proof -
  have six: "(n + 6 :: ulong) - 6 = n" by simp
  have "unat (n + 6) = unat n + unat (6 :: ulong)"
    using assms by (intro unat_add_nowrap) simp
  then have u6: "unat (n + 6) = unat n + 6" "unat (6 + n) = unat n + 6"
    by (simp_all add: add.commute [of 6 n])
  then have "unat (6 + n) * unat (8 :: ulong) < 2 ^ LENGTH(32)" using assms by simp
  then have "unat ((6 + n) * 8) = unat (6 + n) * unat (8 :: ulong)"
    by (rule unat_mult_lem [THEN iffD1])
  then have "unat ((6 + n) * 8) = (unat n + 6) * 8" using u6 by simp
  then have "(unat ((6 + n) * 8) - 28) div 8 = unat n + 2" by simp
  moreover have "\<not> n + 6 < 7" using u6 assms by (simp add: word_less_nat_alt)
  ultimately show ?thesis
    by (simp add: rmallocmap_wait_def mapinit_def zalloc_map_def MAP_OVERHEAD_def sizeof_map_def
        zero_seg_def)
qed

lemma rmallocmap_map:
  assumes "0 < unat n" "unat n < 2 ^ 28"
  shows "\<exists>mp. rmallocmap True n = Ret (Some mp) \<and> map_wf mp \<and> free_set mp = {} \<and> m_nsegs mp = n"
proof -
  have "live (replicate (unat n + 2) zero_seg) = []" by (simp add: live_def zero_seg_def)
  moreover have "rmallocmap True n = kbind (rmallocmap_wait n) (\<lambda>mp. Ret (Some mp))"
    by (simp add: rmallocmap_def rmallocmap_wait_def)
  ultimately show ?thesis
    using assms rmallocmap_wait_map [OF assms]
    by (auto simp: map_wf_def free_set_def segs_set_def segs_wf_def zero_seg_def list_all_iff)
qed

section \<open>Properties\<close>

text \<open>A map with two free segments, one free slot and the delimiter, for the examples.\<close>

definition ex_map :: map_head where
  "ex_map = \<lparr>m_free = 1, m_want = 1, m_nam = ''ex'', m_nsegs = 3,
     m_map = [\<lparr>m_size = 10, m_addr = 100\<rparr>, \<lparr>m_size = 5, m_addr = 200\<rparr>, zero_seg, zero_seg, zero_seg]\<rparr>"

lemma ex_map_live: "live (m_map ex_map) = [\<lparr>m_size = 10, m_addr = 100\<rparr>, \<lparr>m_size = 5, m_addr = 200\<rparr>]"
  by (simp add: ex_map_def live_def zero_seg_def)

lemma ex_map_wf: "map_wf ex_map"
  by (simp add: map_wf_def ex_map_live) (simp add: ex_map_def segs_wf_def seg_defs zero_seg_def)

lemma ex_map_free: "free_set ex_map = {100 ..< 110} \<union> {200 ..< 205}"
  by (simp add: free_set_def ex_map_live seg_defs)

text \<open>
  C1 (rmalloc_first_fit). On a well-formed map and a positive size, \<open>rmalloc\<close> never runs off
  the array. It returns 0 and leaves the map alone exactly when no run of free addresses is long
  enough; otherwise it returns the lowest address at which such a run starts, and the free
  addresses lose exactly the block.
\<close>

theorem rmalloc_first_fit:
  assumes "map_wf mp" and "0 < sint sz"
  shows "\<exists>addr mp'. rmalloc mp sz = Ret (addr, mp') \<and> map_wf mp' \<and>
    (if addr = 0 then mp' = mp \<and> \<not> (\<exists>a. {a ..< a + unat sz} \<subseteq> free_set mp)
     else block addr sz \<subseteq> free_set mp \<and> free_set mp' = free_set mp - block addr sz \<and>
       (\<forall>a. {a ..< a + unat sz} \<subseteq> free_set mp \<longrightarrow> unat addr \<le> a))"
proof -
  obtain addr mp' where "rmalloc mp sz = Ret (addr, mp')" "alloc_post mp sz addr mp'"
    using rmalloc_post [OF assms] by blast
  then show ?thesis
    by (intro exI [of _ addr] exI [of _ mp']) (simp add: alloc_post_def split: if_splits)
qed

theorem rmalloc_first_fit_witness:
  "map_wf ex_map \<and> 0 < sint (6 :: ulong) \<and>
   (\<exists>addr mp'. rmalloc ex_map 6 = Ret (addr, mp') \<and> addr = 100 \<and> map_wf mp' \<and>
      free_set mp' = free_set ex_map - {100 ..< 106})"
proof -
  have sz: "0 < sint (6 :: ulong)" by simp
  have run: "\<exists>mp'. rmalloc ex_map 6 = Ret (100, mp')"
    by (simp add: rmalloc_def rmalloc_locked_def ex_map_def)
  from rmalloc_first_fit [OF ex_map_wf sz] run show ?thesis
    using ex_map_wf by auto
qed

text \<open>
  C2 (rmfree_free_set). Freeing a block that meets no free segment succeeds on a map with at
  least two slots. The block becomes free and merges with its neighbours, the map stays sorted
  and coalesced, and waiters are woken when there are any. Free addresses are lost only when the
  map has no slot left and the block abuts no segment; then the smaller of the last two segments
  is dropped.
\<close>

theorem rmfree_free_set:
  assumes "map_wf mp" and "addr \<noteq> 0" and "0 < sint sz" and "unat addr + unat sz < 2 ^ 32"
    and "block addr sz \<inter> free_set mp = {}" and "2 \<le> unat (m_nsegs mp)"
  shows "\<exists>mp'. rmfree mp sz addr = Ret (mp', m_want mp \<noteq> 0) \<and> map_wf mp' \<and> m_want mp' = 0 \<and>
    free_set mp' = block addr sz \<union>
      (free_set mp - (if m_free mp = 0 \<and> \<not> abuts mp sz addr then seg_set (overflow_victim mp) else {}))"
  using rmfree_post [OF assms] by blast

theorem rmfree_free_set_witness:
  "block 110 90 \<inter> free_set ex_map = {} \<and>
   (\<exists>mp'. rmfree ex_map 90 110 = Ret (mp', True) \<and> map_wf mp' \<and> free_set mp' = {100 ..< 205})"
proof -
  have dis: "block 110 90 \<inter> free_set ex_map = {}" by (auto simp: ex_map_free)
  have "m_want ex_map \<noteq> 0" "m_free ex_map \<noteq> 0" "2 \<le> unat (m_nsegs ex_map)"
    by (simp_all add: ex_map_def)
  moreover have "block 110 90 \<union> free_set ex_map = {100 ..< 205}" by (auto simp: ex_map_free)
  ultimately show ?thesis
    using rmfree_free_set [of ex_map 110 90] ex_map_wf dis by auto
qed

text \<open>
  C3 (rmfree_panics_iff). \<open>rmfree\<close> panics exactly when the protocol has broken down: a zero
  address, a size that is not positive, or a block that overlaps free space, such as a block
  freed twice.
\<close>

theorem rmfree_panics_iff:
  assumes "map_wf mp" and "2 \<le> unat (m_nsegs mp)" and "unat addr + unat sz < 2 ^ 32"
  shows "rmfree mp sz addr = Panic ''bad rmfree'' \<longleftrightarrow>
    addr = 0 \<or> sint sz \<le> 0 \<or> block addr sz \<inter> free_set mp \<noteq> {}"
  by (rule rmfree_wf_panic_iff [OF assms])

theorem rmfree_panics_iff_witness:
  "rmfree ex_map 20 190 = Panic ''bad rmfree''"
proof -
  have "200 \<in> block 190 20 \<inter> free_set ex_map" by (simp add: ex_map_free)
  then have "block 190 20 \<inter> free_set ex_map \<noteq> {}" by blast
  moreover have "2 \<le> unat (m_nsegs ex_map)" by (simp add: ex_map_def)
  ultimately show ?thesis
    using rmfree_panics_iff [of ex_map 190 20] ex_map_wf by simp
qed

text \<open>
  C4 (rmget_exact). \<open>rmget\<close> returns the address asked for exactly when the whole block is free
  and either it does not have to split a segment or a slot is left; then the free addresses lose
  exactly the block. In every other case it returns 0 and leaves the map alone.
\<close>

theorem rmget_exact:
  assumes "map_wf mp" and "0 < sint sz" and "unat addr + unat sz < 2 ^ 32"
  shows "\<exists>r mp'. rmget mp sz addr = Ret (r, mp') \<and> map_wf mp' \<and>
    (if block addr sz \<subseteq> free_set mp \<and> (m_free mp \<noteq> 0 \<or> \<not> splits_segment mp sz addr)
     then r = addr \<and> free_set mp' = free_set mp - block addr sz
     else r = 0 \<and> mp' = mp)"
proof -
  obtain r mp' where "rmget mp sz addr = Ret (r, mp')"
    "if block addr sz \<subseteq> free_set mp \<and> (m_free mp \<noteq> 0 \<or> \<not> splits_segment mp sz addr)
     then r = addr \<and> get_post mp sz addr mp' else r = 0 \<and> mp' = mp"
    using rmget_post [OF assms] by blast
  then show ?thesis
    using assms(1)
    by (intro exI [of _ r] exI [of _ mp']) (auto simp: get_post_def split: if_splits)
qed

theorem rmget_exact_witness:
  "block 103 4 \<subseteq> free_set ex_map \<and>
   (\<exists>mp'. rmget ex_map 4 103 = Ret (103, mp') \<and> map_wf mp' \<and>
      free_set mp' = free_set ex_map - {103 ..< 107})"
proof -
  have sub: "block 103 4 \<subseteq> free_set ex_map" by (auto simp: ex_map_free)
  have free: "m_free ex_map \<noteq> 0" by (simp add: ex_map_def)
  from rmget_exact [of ex_map 4 103] ex_map_wf sub free show ?thesis by auto
qed

text \<open>
  Giving an allocated block straight back restores the set of
  free addresses exactly: the slot the block needs is always there, so nothing is lost to map
  overflow.
\<close>

lemma rmalloc_rmfree_roundtrip:
  assumes "map_wf mp" and "2 \<le> unat (m_nsegs mp)" and "0 < sint sz"
    and "rmalloc mp sz = Ret (addr, mp')" and "addr \<noteq> 0"
  shows "\<exists>mp''. rmfree mp' sz addr = Ret (mp'', m_want mp \<noteq> 0) \<and> map_wf mp'' \<and>
    free_set mp'' = free_set mp"
proof -
  have post: "alloc_post mp sz addr mp'" using rmalloc_post [OF assms(1,3)] assms(4) by auto
  then have sub: "block addr sz \<subseteq> free_set mp" and m': "map_wf mp'"
    "free_set mp' = free_set mp - block addr sz" "m_nsegs mp' = m_nsegs mp" "m_want mp' = m_want mp"
    "m_free mp' \<noteq> 0 \<or> abuts mp' sz addr"
    using assms(5) by (auto simp: alloc_post_def)
  have "sz \<noteq> 0" using assms(3) by auto
  obtain s where s: "s \<in> set (live (m_map mp))" "block addr sz \<subseteq> seg_set s"
    using run_in_segment [of "live (m_map mp)" "unat sz" "unat addr"] sub assms(1)
      unat_nonzero [OF \<open>sz \<noteq> 0\<close>] by (auto simp: map_wf_def free_set_def)
  have "unat addr + unat sz \<le> seg_hi s"
    using s(2) unat_nonzero [OF \<open>sz \<noteq> 0\<close>] by (auto simp: seg_set_def)
  also have "\<dots> < 2 ^ 32"
    using s(1) assms(1) segs_wf_ok seg_ok_bounds(3) by (auto simp: map_wf_def)
  finally have fit: "unat addr + unat sz < 2 ^ 32" .
  have "block addr sz \<inter> free_set mp' = {}" using m' by auto
  from rmfree_post [OF m'(1) assms(5,3) fit this] m' assms(2) sub show ?thesis by auto
qed

lemma rmalloc_rmfree_roundtrip_witness:
  "\<exists>mp' mp''. rmalloc ex_map 10 = Ret (100, mp') \<and> rmfree mp' 10 100 = Ret (mp'', True) \<and>
     free_set mp'' = free_set ex_map"
proof -
  obtain mp' where run: "rmalloc ex_map 10 = Ret (100, mp')"
    by (simp add: rmalloc_def rmalloc_locked_def ex_map_def zero_seg_def)
  have "2 \<le> unat (m_nsegs ex_map)" "m_want ex_map \<noteq> 0" by (simp_all add: ex_map_def)
  with rmalloc_rmfree_roundtrip [OF ex_map_wf _ _ run] run show ?thesis by auto
qed

text \<open>
  On a map with a single slot the overflow path of \<open>rmfree\<close>
  compares the last segment with the memory in front of the array: when the one slot is taken
  and the block does not abut the segment in it, the code reads outside the map.
\<close>

lemma rmfree_one_slot_fault:
  assumes "map_wf mp" and "addr \<noteq> 0" and "0 < sint sz" and "unat addr + unat sz < 2 ^ 32"
    and "block addr sz \<inter> free_set mp = {}"
    and "m_nsegs mp = 1" and "m_free mp = 0" and "\<not> abuts mp sz addr"
  shows "rmfree mp sz addr = Fault"
  by (rule rmfree_one_slot [OF assms])

lemma rmfree_one_slot_fault_witness:
  "rmfree \<lparr>m_free = 0, m_want = 0, m_nam = [], m_nsegs = 1,
     m_map = [\<lparr>m_size = 4, m_addr = 8\<rparr>, zero_seg, zero_seg]\<rparr> 4 20 = Fault"
proof -
  let ?mp = "\<lparr>m_free = 0, m_want = 0, m_nam = [], m_nsegs = 1,
     m_map = [\<lparr>m_size = 4, m_addr = 8\<rparr>, zero_seg, zero_seg]\<rparr> :: map_head"
  have live: "live (m_map ?mp) = [\<lparr>m_size = 4, m_addr = 8\<rparr>]"
    by (simp add: live_def zero_seg_def)
  have "map_wf ?mp"
    unfolding map_wf_def live by (simp add: segs_wf_def seg_defs zero_seg_def)
  moreover have "block 20 4 \<inter> free_set ?mp = {}"
    unfolding free_set_def live by (auto simp: seg_defs)
  moreover have "\<not> abuts ?mp 4 20" unfolding abuts_def live by (simp add: seg_defs)
  ultimately show ?thesis by (intro rmfree_one_slot_fault) simp_all
qed

text \<open>
  A map made by \<open>rmallocmap_wait\<close> for a number of segments that
  does not overflow the byte count is well formed, has every slot free and no free address, and
  \<open>rmfreemap\<close> gives back exactly the bytes that were allocated.
\<close>

lemma rmallocmap_wait_fresh:
  assumes "0 < unat n" and "unat n < 2 ^ 28"
  shows "\<exists>mp. rmallocmap_wait n = Ret mp \<and> map_wf mp \<and> free_set mp = {} \<and> m_free mp = n \<and>
    m_nsegs mp = n \<and> rmfreemap mp = (MAP_OVERHEAD + n) * sizeof_map"
proof -
  have "live (replicate (unat n + 2) zero_seg) = []" by (simp add: live_def zero_seg_def)
  then show ?thesis
    using assms rmallocmap_wait_map [OF assms]
    by (auto simp: map_wf_def free_set_def rmfreemap_def zero_seg_def list_all_iff)
qed

lemma rmallocmap_wait_fresh_witness:
  "\<exists>mp. rmallocmap_wait 10 = Ret mp \<and> map_wf mp \<and> m_free mp = 10"
  using rmallocmap_wait_fresh [of 10] by auto

end
