(* ===== verification/Ipc.thy ===== *)
theory Ipc
  imports Kernel_Prelude
begin

text \<open>
  The part of the kernel that the System V facilities share: credentials and the super-user test
  (\<open>os/cred.c\<close>), the permission structure (\<open>sys/ipc.h\<close>), the access check and the table
  search of \<open>os/ipc.c\<close>, and the interface between an identifier that a process holds and the
  entry of the facility's table it names.
\<close>

section \<open>Errors and the context of a system call\<close>

datatype errno = EPERM | ENOENT | EINTR | E2BIG | EAGAIN | ENOMEM | EACCES | EFAULT | EBUSY | EEXIST
  | EINVAL | EFBIG | ENOSPC | ERANGE | ENOMSG | EIDRM | EOVERFLOW

record cred =
  cr_uid :: int32
  cr_gid :: int32
  cr_groups :: "int32 list"

text \<open>
  What a system call reads of the running process and of the clock: \<open>CRED()\<close>,
  \<open>curproc->p_pid\<close>, \<open>curproc->p_slot\<close>, \<open>hrestime.tv_sec\<close>, the identity of the
  thread that may be put to sleep, and the dispatch priorities by which sleepers are queued.
\<close>

record ctx =
  ctx_cred :: cred
  ctx_pid :: int32
  ctx_slot :: nat
  ctx_now :: int32
  ctx_tid :: nat
  ctx_prio :: "nat \<Rightarrow> int"

definition ASU :: "8 word" where "ASU = 2"

text \<open>The super-user test records in the accounting flag that the privilege was used.\<close>

definition suser :: "cred \<Rightarrow> 8 word \<Rightarrow> bool \<times> 8 word" where
  "suser cr u_acflag = (if cr_uid cr = 0 then (True, u_acflag OR ASU) else (False, u_acflag))"

fun groupmember_scan :: "int32 \<Rightarrow> int32 list \<Rightarrow> bool" where
  "groupmember_scan gid [] = False"
| "groupmember_scan gid (g # gs) = (if g = gid then True else groupmember_scan gid gs)"

definition groupmember :: "int32 \<Rightarrow> cred \<Rightarrow> bool" where
  "groupmember gid cr = (if gid = cr_gid cr then True else groupmember_scan gid (cr_groups cr))"

section \<open>Permission structures\<close>

record ipc_perm =
  perm_uid :: int32
  perm_gid :: int32
  perm_cuid :: int32
  perm_cgid :: int32
  perm_mode :: ulong
  perm_seq :: ulong
  perm_key :: int32
  perm_pad :: "int32 list"

record o_ipc_perm =
  o_perm_uid :: ushort
  o_perm_gid :: ushort
  o_perm_cuid :: ushort
  o_perm_cgid :: ushort
  o_perm_mode :: ushort
  o_perm_seq :: ushort
  o_perm_key :: int32

definition IPC_ALLOC :: ulong where "IPC_ALLOC = 0x8000"
definition IPC_CREAT :: int32 where "IPC_CREAT = 0x200"
definition IPC_EXCL :: int32 where "IPC_EXCL = 0x400"
definition IPC_NOWAIT :: int32 where "IPC_NOWAIT = 0x800"
definition IPC_PRIVATE :: int32 where "IPC_PRIVATE = 0"
definition IPC_RMID :: int32 where "IPC_RMID = 10"
definition IPC_SET :: int32 where "IPC_SET = 11"
definition IPC_STAT :: int32 where "IPC_STAT = 12"
definition IPC_O_RMID :: int32 where "IPC_O_RMID = 0"
definition IPC_O_SET :: int32 where "IPC_O_SET = 1"
definition IPC_O_STAT :: int32 where "IPC_O_STAT = 2"
definition MAXUID :: int32 where "MAXUID = 60002"
definition USHRT_MAX :: ulong where "USHRT_MAX = 65535"
definition SHRT_MAX :: ulong where "SHRT_MAX = 32767"

lemmas ipc_consts = IPC_ALLOC_def IPC_CREAT_def IPC_EXCL_def IPC_NOWAIT_def IPC_PRIVATE_def
  IPC_RMID_def IPC_SET_def IPC_STAT_def IPC_O_RMID_def IPC_O_SET_def IPC_O_STAT_def MAXUID_def
  USHRT_MAX_def SHRT_MAX_def

text \<open>The permission bits, \<open>0777\<close> in the source.\<close>

abbreviation ACCBITS :: ulong where "ACCBITS \<equiv> 0x1FF"

definition zero_perm :: ipc_perm where
  "zero_perm = \<lparr>perm_uid = 0, perm_gid = 0, perm_cuid = 0, perm_cgid = 0, perm_mode = 0,
     perm_seq = 0, perm_key = 0, perm_pad = [0, 0, 0, 0]\<rparr>"

definition ipc_used :: "ipc_perm \<Rightarrow> bool" where
  "ipc_used p \<longleftrightarrow> perm_mode p AND IPC_ALLOC \<noteq> 0"

section \<open>Access check\<close>

text \<open>\<open>mode\<close> is a signed \<open>int\<close>: its shift is arithmetic.\<close>

definition ipcaccess :: "ipc_perm \<Rightarrow> int32 \<Rightarrow> cred \<Rightarrow> errno option" where
  "ipcaccess p mode cr =
    (if cr_uid cr = 0 then None
     else
       let m1 = (if cr_uid cr \<noteq> perm_uid p \<and> cr_uid cr \<noteq> perm_cuid p
                 then let m0 = signed_drop_bit 3 mode
                      in if \<not> groupmember (perm_gid p) cr \<and> \<not> groupmember (perm_cgid p) cr
                         then signed_drop_bit 3 m0 else m0
                 else mode)
       in if m1 AND perm_mode p \<noteq> 0 then None else Some EACCES)"

text \<open>
  The owner test that removal and the setting of options make: the owner, the creator or the
  super-user, whose use of the privilege is recorded.
\<close>

definition ipc_owner :: "ipc_perm \<Rightarrow> cred \<Rightarrow> 8 word \<Rightarrow> bool \<times> 8 word" where
  "ipc_owner p cr u_acflag =
    (if cr_uid cr \<noteq> perm_uid p \<and> cr_uid cr \<noteq> perm_cuid p then suser cr u_acflag
     else (True, u_acflag))"

section \<open>Table search\<close>

fun ipcget_private :: "ipc_perm list \<Rightarrow> nat \<Rightarrow> nat option" where
  "ipcget_private [] i = None"
| "ipcget_private (p # ps) i = (if perm_mode p AND IPC_ALLOC \<noteq> 0 then ipcget_private ps (Suc i) else Some i)"

datatype ipc_scan = Scan_error errno | Scan_found nat | Scan_end "nat option"

fun ipcget_scan :: "int32 \<Rightarrow> int32 \<Rightarrow> ipc_perm list \<Rightarrow> nat \<Rightarrow> nat option \<Rightarrow> ipc_scan" where
  "ipcget_scan key flag [] i a = Scan_end a"
| "ipcget_scan key flag (p # ps) i a =
    (if perm_mode p AND IPC_ALLOC \<noteq> 0 then
       (if perm_key p = key then
          (if flag AND (IPC_CREAT OR IPC_EXCL) = (IPC_CREAT OR IPC_EXCL) then Scan_error EEXIST
           else if (flag AND ACCBITS) AND NOT (perm_mode p) \<noteq> 0 then Scan_error EACCES
           else Scan_found i)
        else ipcget_scan key flag ps (Suc i) a)
     else ipcget_scan key flag ps (Suc i) (if a = None then Some i else a))"

definition ipcget_init :: "int32 \<Rightarrow> int32 \<Rightarrow> cred \<Rightarrow> ipc_perm \<Rightarrow> ipc_perm" where
  "ipcget_init key flag cr p = p\<lparr>perm_mode := IPC_ALLOC OR (flag AND ACCBITS), perm_key := key,
     perm_cuid := cr_uid cr, perm_uid := cr_uid cr, perm_cgid := cr_gid cr, perm_gid := cr_gid cr\<rparr>"

text \<open>
  The permission structures of the facility's table are given as a list, its length the count
  argument. The result is the status word, the index of the entry and the contents of its
  permission structure after the call.
\<close>

definition ipcget :: "int32 \<Rightarrow> int32 \<Rightarrow> ipc_perm list \<Rightarrow> cred \<Rightarrow> errno + (bool \<times> nat \<times> ipc_perm)" where
  "ipcget key flag perms cr =
    (if key = IPC_PRIVATE then
       (case ipcget_private perms 0 of
          None \<Rightarrow> Inl ENOSPC
        | Some i \<Rightarrow> Inr (True, i, ipcget_init key flag cr (perms ! i)))
     else
       (case ipcget_scan key flag perms 0 None of
          Scan_error e \<Rightarrow> Inl e
        | Scan_found i \<Rightarrow> Inr (False, i, perms ! i)
        | Scan_end a \<Rightarrow>
            (if flag AND IPC_CREAT = 0 then Inl ENOENT
             else (case a of
                     None \<Rightarrow> Inl ENOSPC
                   | Some i \<Rightarrow> Inr (True, i, ipcget_init key flag cr (perms ! i))))))"

section \<open>Properties of the access check\<close>

lemma groupmember_scan_iff [simp]: "groupmember_scan gid gs \<longleftrightarrow> gid \<in> set gs"
  by (induction gs) auto

lemma groupmember_iff [simp]: "groupmember gid cr \<longleftrightarrow> gid \<in> insert (cr_gid cr) (set (cr_groups cr))"
  by (simp add: groupmember_def)

lemma suser_fst [simp]: "fst (suser cr ac) \<longleftrightarrow> cr_uid cr = 0"
  by (simp add: suser_def)

lemma ipc_owner_fst:
  "fst (ipc_owner p cr ac) \<longleftrightarrow> cr_uid cr = perm_uid p \<or> cr_uid cr = perm_cuid p \<or> cr_uid cr = 0"
  by (auto simp: ipc_owner_def)

section \<open>Properties of the table search\<close>

lemma ipcget_private_first:
  "ipcget_private perms n = map_option ((+) n) (first_idx (\<lambda>p. \<not> ipc_used p) perms)"
  by (induction perms arbitrary: n) (auto simp: ipc_used_def option.map_comp comp_def intro: option.map_cong)

lemma ipcget_scan_first:
  "ipcget_scan key flag perms n a =
    (case first_idx (\<lambda>p. ipc_used p \<and> perm_key p = key) perms of
       Some i \<Rightarrow>
         (if flag AND (IPC_CREAT OR IPC_EXCL) = (IPC_CREAT OR IPC_EXCL) then Scan_error EEXIST
          else if (flag AND ACCBITS) AND NOT (perm_mode (perms ! i)) \<noteq> 0 then Scan_error EACCES
          else Scan_found (n + i))
     | None \<Rightarrow> Scan_end (if a = None then map_option ((+) n) (first_idx (\<lambda>p. \<not> ipc_used p) perms) else a))"
proof (induction perms arbitrary: n a)
  case (Cons p ps)
  show ?case
  proof (cases "ipc_used p \<and> perm_key p = key")
    case True
    then show ?thesis by (auto simp: ipc_used_def)
  next
    case False
    then show ?thesis
      by (auto simp: Cons.IH ipc_used_def option.map_comp comp_def intro: option.map_cong
          split: option.splits)
  qed
qed simp

lemmas ipcget_first = ipcget_private_first ipcget_scan_first

text \<open>No two allocated entries carry the same public key.\<close>

definition keys_distinct :: "ipc_perm list \<Rightarrow> bool" where
  "keys_distinct perms \<longleftrightarrow> (\<forall>i<length perms. \<forall>j<length perms. i \<noteq> j \<longrightarrow>
     ipc_used (perms ! i) \<longrightarrow> ipc_used (perms ! j) \<longrightarrow> perm_key (perms ! i) \<noteq> IPC_PRIVATE \<longrightarrow>
     perm_key (perms ! i) \<noteq> perm_key (perms ! j))"

lemma ipc_used_alloc_bit [simp]: "(IPC_ALLOC OR (flag AND ACCBITS)) AND IPC_ALLOC = IPC_ALLOC"
  by (rule bit_word_eqI) (auto simp: IPC_ALLOC_def bit_simps)

lemma IPC_ALLOC_nonzero [simp]: "IPC_ALLOC \<noteq> 0"
  by (simp add: IPC_ALLOC_def)

lemma ipcget_init_simps [simp]:
  "ipc_used (ipcget_init key flag cr p)" "perm_key (ipcget_init key flag cr p) = key"
  "perm_seq (ipcget_init key flag cr p) = perm_seq p"
  "perm_mode (ipcget_init key flag cr p) = IPC_ALLOC OR (flag AND ACCBITS)"
  "perm_uid (ipcget_init key flag cr p) = cr_uid cr" "perm_cuid (ipcget_init key flag cr p) = cr_uid cr"
  by (simp_all add: ipcget_init_def ipc_used_def)

text \<open>What a caller of \<open>ipcget\<close> relies on, one lemma per status.\<close>

lemma ipcget_newD:
  assumes "ipcget key flag perms cr = Inr (True, i, p)"
  shows "i < length perms" and "\<not> ipc_used (perms ! i)"
    and "p = ipcget_init key flag cr (perms ! i)"
    and "key \<noteq> IPC_PRIVATE \<Longrightarrow> j < length perms \<Longrightarrow> ipc_used (perms ! j) \<Longrightarrow> perm_key (perms ! j) \<noteq> key"
  using assms
  by (auto simp: ipcget_def ipcget_first first_idx_Some_iff first_idx_None_iff
      split: if_splits option.splits ipc_scan.splits)

lemma ipcget_oldD:
  assumes "ipcget key flag perms cr = Inr (False, i, p)"
  shows "i < length perms" and "ipc_used (perms ! i)" and "p = perms ! i"
    and "perm_key (perms ! i) = key" and "key \<noteq> IPC_PRIVATE"
  using assms
  by (auto simp: ipcget_def ipcget_first first_idx_Some_iff first_idx_None_iff
      split: if_splits option.splits ipc_scan.splits)

section \<open>Identifiers\<close>

text \<open>
  The interface between identifiers and table entries that the semaphore and the message facility
  both implement: \<open>mk i s\<close> is the identifier handed out for entry \<open>i\<close> with sequence number
  \<open>s\<close>, \<open>idx\<close> and \<open>sq\<close> take it apart, \<open>accept\<close> is the range check that precedes the
  lookup, and \<open>bump\<close> the sequence number that removal through an identifier leaves behind.
\<close>

locale ipc_ids =
  fixes cnt :: nat
    and mk :: "nat \<Rightarrow> ulong \<Rightarrow> int32"
    and idx :: "int32 \<Rightarrow> nat"
    and sq :: "int32 \<Rightarrow> ulong"
    and accept :: "int32 \<Rightarrow> bool"
    and seq_ok :: "nat \<Rightarrow> ulong \<Rightarrow> bool"
    and bump :: "int32 \<Rightarrow> ulong \<Rightarrow> ulong"
  assumes mk_parts: "i < cnt \<Longrightarrow> seq_ok i s \<Longrightarrow> accept (mk i s) \<and> idx (mk i s) = i \<and> sq (mk i s) = s"
    and accept_bound: "accept d \<Longrightarrow> idx d < cnt"
    and bump_ok: "accept d \<Longrightarrow> seq_ok (idx d) (sq d) \<Longrightarrow> seq_ok (idx d) (bump d (sq d))"
    and bump_new: "accept d \<Longrightarrow> seq_ok (idx d) (sq d) \<Longrightarrow> bump d (sq d) \<noteq> sq d"
begin

text \<open>The entry an identifier names, if any.\<close>

definition entry :: "ipc_perm list \<Rightarrow> int32 \<Rightarrow> nat option" where
  "entry perms d = (if accept d \<and> idx d < length perms \<and> ipc_used (perms ! idx d) \<and>
     perm_seq (perms ! idx d) = sq d then Some (idx d) else None)"

lemma entry_mk:
  assumes "length perms = cnt" "i < cnt" "ipc_used (perms ! i)" "seq_ok i (perm_seq (perms ! i))"
  shows "entry perms (mk i (perm_seq (perms ! i))) = Some i"
  using assms mk_parts [of i "perm_seq (perms ! i)"] by (simp add: entry_def)

lemma mk_inj:
  assumes "i < cnt" "seq_ok i s" "j < cnt" "seq_ok j t" "mk i s = mk j t"
  shows "i = j \<and> s = t"
  using assms mk_parts by metis

text \<open>
  After removal an identifier names nothing, and it still names nothing once the entry has been
  given out again, for any key and to anybody: only the sequence number matters.
\<close>

lemma entry_stale:
  assumes "entry perms d = Some i" "seq_ok i (perm_seq (perms ! i))"
    and "perm_seq p = bump d (perm_seq (perms ! i))"
  shows "entry (perms[i := p]) d = None"
  using assms bump_new [of d] by (auto simp: entry_def split: if_splits)

lemma entry_other:
  assumes "entry perms d = Some j" "i \<noteq> j"
  shows "entry (perms[i := p]) d = Some j"
  using assms by (auto simp: entry_def split: if_splits)

end

lemma creat_excl_bits:
  "flag AND (IPC_CREAT OR IPC_EXCL) = (IPC_CREAT OR IPC_EXCL) \<longleftrightarrow>
   flag AND IPC_CREAT \<noteq> 0 \<and> flag AND IPC_EXCL \<noteq> 0"
proof -
  have c: "IPC_CREAT = push_bit 9 1" "IPC_EXCL = push_bit 10 1"
    by (simp_all add: IPC_CREAT_def IPC_EXCL_def)
  have one: "flag AND push_bit n 1 \<noteq> 0 \<longleftrightarrow> bit flag n" if "n < 32" for n
    using that by (auto simp: word_bits_eq_iff bit_simps)
  have "flag AND (IPC_CREAT OR IPC_EXCL) = (IPC_CREAT OR IPC_EXCL) \<longleftrightarrow> bit flag 9 \<and> bit flag 10"
  proof -
    have b: "bit (IPC_CREAT OR IPC_EXCL) n \<longleftrightarrow> n = 9 \<or> n = 10" if "n < 32" for n
      unfolding bit_or_iff c bit_push_bit_iff bit_1_iff using that by auto
    show ?thesis
    proof
      assume e: "flag AND (IPC_CREAT OR IPC_EXCL) = (IPC_CREAT OR IPC_EXCL)"
      have "bit (flag AND (IPC_CREAT OR IPC_EXCL)) n \<longleftrightarrow> bit (IPC_CREAT OR IPC_EXCL) n" for n
        by (simp only: e)
      from this [of 9] this [of 10] show "bit flag 9 \<and> bit flag 10" by (simp add: bit_and_iff b)
    next
      assume "bit flag 9 \<and> bit flag 10"
      then show "flag AND (IPC_CREAT OR IPC_EXCL) = (IPC_CREAT OR IPC_EXCL)"
        by (intro bit_word_eqI) (auto simp: bit_and_iff b)
    qed
  qed
  then show ?thesis using one [of 9] one [of 10] by (simp add: c)
qed

section \<open>The claims on the shared part\<close>

definition perm_class :: "ipc_perm \<Rightarrow> cred \<Rightarrow> nat" where
  "perm_class p cr =
    (if cr_uid cr = perm_uid p \<or> cr_uid cr = perm_cuid p then 0
     else if {perm_gid p, perm_cgid p} \<inter> insert (cr_gid cr) (set (cr_groups cr)) \<noteq> {} then 1 else 2)"

lemma owner_bits: 
  assumes "mode AND NOT 0x1C0 = (0 :: int32)"
  shows "bit mode n \<Longrightarrow> n = 6 \<or> n = 7 \<or> n = 8"
proof -
  assume b: "bit mode n"
  have "\<not> bit (mode AND NOT 0x1C0) n" using assms by simp
  moreover have "n < 32" using b by (auto dest: bit_imp_le_length)
  ultimately have "bit (0x1C0 :: int32) n" using b by (simp add: bit_simps)
  moreover have "(0x1C0 :: int32) = push_bit 6 (mask 3)" by (simp add: mask_eq_exp_minus_1)
  ultimately have "bit (push_bit 6 (mask 3) :: int32) n" by simp
  then show ?thesis unfolding bit_push_bit_iff bit_mask_iff by auto
qed

lemma signed_drop_bit_3_iff:
  fixes m :: int32
  assumes "\<And>n. bit m n \<Longrightarrow> n < 31"
  shows "bit (signed_drop_bit 3 m) n \<longleftrightarrow> bit m (n + 3)"
proof -
  have top: "\<not> bit m (LENGTH(32) - 1)" using assms [of "LENGTH(32) - 1"] by auto
  show ?thesis
  proof (cases "n < 29")
    case True
    then show ?thesis by (simp add: bit_signed_drop_bit_iff add.commute)
  next
    case False
    then have "\<not> bit m (n + 3)" "\<not> bit m (3 + n)" using assms [of "n + 3"] by (auto simp: add.commute)
    with top show ?thesis unfolding bit_signed_drop_bit_iff by (simp split: if_split)
  qed
qed

lemma access_mask:
  fixes mode q :: int32
  assumes "mode AND NOT 0x1C0 = 0"
  shows "mode AND q \<noteq> 0 \<longleftrightarrow> (\<exists>n\<in>{6,7,8}. bit mode n \<and> bit q n)"
    and "signed_drop_bit 3 mode AND q \<noteq> 0 \<longleftrightarrow> (\<exists>n\<in>{6,7,8}. bit mode n \<and> bit q (n - 3))"
    and "signed_drop_bit 3 (signed_drop_bit 3 mode) AND q \<noteq> 0 \<longleftrightarrow>
      (\<exists>n\<in>{6,7,8}. bit mode n \<and> bit q (n - 6))"
proof -
  note own = owner_bits [OF assms]
  have nz: "w \<noteq> 0 \<longleftrightarrow> (\<exists>n. bit w n)" for w :: int32
    using bit_imp_le_length by (fastforce simp: word_bits_eq_iff)
  have d1: "bit (signed_drop_bit 3 mode) n \<longleftrightarrow> bit mode (n + 3)" for n
    by (rule signed_drop_bit_3_iff) (use own in force)
  have d2: "bit (signed_drop_bit 3 (signed_drop_bit 3 mode)) n \<longleftrightarrow> bit mode (n + 6)" for n
    by (subst signed_drop_bit_3_iff) (use own in \<open>force simp: d1 ac_simps\<close>)+
  have shift: "(\<exists>n. bit mode (n + k) \<and> bit q n) \<longleftrightarrow> (\<exists>n\<in>{6,7,8}. bit mode n \<and> bit q (n - k))"
    if "k \<le> 6" for k
  proof
    assume "\<exists>n. bit mode (n + k) \<and> bit q n"
    then obtain n where n: "bit mode (n + k)" "bit q n" by blast
    then have "n + k \<in> {6,7,8}" using own [of "n + k"] by simp
    with n show "\<exists>n\<in>{6,7,8}. bit mode n \<and> bit q (n - k)" by (intro bexI [of _ "n + k"]) simp_all
  next
    assume "\<exists>n\<in>{6,7,8}. bit mode n \<and> bit q (n - k)"
    then obtain n where n: "n \<in> {6,7,8}" "bit mode n" "bit q (n - k)" by blast
    with that have "k \<le> n" by auto
    with n show "\<exists>n. bit mode (n + k) \<and> bit q n" by (intro exI [of _ "n - k"]) simp
  qed
  show "mode AND q \<noteq> 0 \<longleftrightarrow> (\<exists>n\<in>{6,7,8}. bit mode n \<and> bit q n)"
    unfolding nz bit_and_iff using own by blast
  show "signed_drop_bit 3 mode AND q \<noteq> 0 \<longleftrightarrow> (\<exists>n\<in>{6,7,8}. bit mode n \<and> bit q (n - 3))"
    unfolding nz bit_and_iff d1
    by (rule shift) simp
  show "signed_drop_bit 3 (signed_drop_bit 3 mode) AND q \<noteq> 0 \<longleftrightarrow>
      (\<exists>n\<in>{6,7,8}. bit mode n \<and> bit q (n - 6))"
    unfolding nz bit_and_iff d2 by (rule shift) simp
qed

text \<open>
  A request for a set of owner permission bits (the modes the facilities
  pass have no other bit) is granted exactly to the super-user, or when one of the requested bits
  is set in the permission class of the caller: the owner's bits for the owner or creator, the
  group's for a member, by primary or supplementary group, of the owner's or creator's group, and
  everybody's otherwise. Otherwise the answer is \<open>EACCES\<close>.
\<close>

lemma ipcaccess_class:
  assumes "mode AND NOT 0x1C0 = 0"
  shows "ipcaccess p mode cr =
    (if cr_uid cr = 0 \<or> (\<exists>n\<in>{6,7,8}. bit mode n \<and> bit (perm_mode p) (n - 3 * perm_class p cr))
     then None else Some EACCES)"
proof -
  note m = access_mask [OF assms, of "perm_mode p"]
  consider "cr_uid cr = 0" | (owner) "cr_uid cr \<noteq> 0" "cr_uid cr = perm_uid p \<or> cr_uid cr = perm_cuid p"
    | (grp) "cr_uid cr \<noteq> 0" "cr_uid cr \<noteq> perm_uid p \<and> cr_uid cr \<noteq> perm_cuid p"
        "groupmember (perm_gid p) cr \<or> groupmember (perm_cgid p) cr"
    | (other) "cr_uid cr \<noteq> 0" "cr_uid cr \<noteq> perm_uid p \<and> cr_uid cr \<noteq> perm_cuid p"
        "\<not> groupmember (perm_gid p) cr \<and> \<not> groupmember (perm_cgid p) cr"
    by blast
  then show ?thesis
  proof cases
    case 1
    then show ?thesis by (simp add: ipcaccess_def)
  next
    case owner
    then have "perm_class p cr = 0" by (simp add: perm_class_def)
    moreover from owner have "ipcaccess p mode cr = (if mode AND perm_mode p \<noteq> 0 then None else Some EACCES)"
      by (auto simp: ipcaccess_def Let_def)
    ultimately show ?thesis using owner(1) by (simp only: m) simp
  next
    case grp
    then have "perm_class p cr = 1" by (auto simp: perm_class_def)
    moreover from grp have "ipcaccess p mode cr =
        (if signed_drop_bit 3 mode AND perm_mode p \<noteq> 0 then None else Some EACCES)"
      by (auto simp: ipcaccess_def Let_def)
    ultimately show ?thesis using grp(1) by (simp only: m) simp
  next
    case other
    then have "perm_class p cr = 2" by (auto simp: perm_class_def)
    moreover from other have "ipcaccess p mode cr =
        (if signed_drop_bit 3 (signed_drop_bit 3 mode) AND perm_mode p \<noteq> 0 then None else Some EACCES)"
      by (auto simp: ipcaccess_def Let_def)
    ultimately show ?thesis using other(1) by (simp only: m) simp
  qed
qed

lemma ipcaccess_class_witness:
  "(0x80 :: int32) AND NOT 0x1C0 = 0 \<and>
   ipcaccess (zero_perm\<lparr>perm_uid := 5, perm_cuid := 5, perm_gid := 7, perm_mode := 0x8090\<rparr>) 0x80
     \<lparr>cr_uid = 6, cr_gid = 1, cr_groups = [3, 7]\<rparr> = None"
proof -
  have h: "(0x80 :: int32) AND NOT 0x1C0 = 0" by simp
  show ?thesis
    using h ipcaccess_class [OF h, of "zero_perm\<lparr>perm_uid := 5, perm_cuid := 5, perm_gid := 7, perm_mode := 0x8090\<rparr>"
        "\<lparr>cr_uid = 6, cr_gid = 1, cr_groups = [3, 7]\<rparr>"]
    by (simp add: perm_class_def)
qed

text \<open>
  C5 (ipcget_spec). The table search finds the entry that carries the key if there is one, and
  otherwise the first free entry when creation is asked for or the key is private; the errors
  \<open>EEXIST\<close>, \<open>EACCES\<close>, \<open>ENOENT\<close> and \<open>ENOSPC\<close> are returned exactly in the cases
  the documentation gives, with this precedence, and only a new entry is initialised.
\<close>

theorem ipcget_spec:
  "ipcget key flag perms cr =
    (let hit = (if key = IPC_PRIVATE then None
                else first_idx (\<lambda>p. ipc_used p \<and> perm_key p = key) perms);
         free = first_idx (\<lambda>p. \<not> ipc_used p) perms
     in case hit of
          Some i \<Rightarrow>
            if flag AND IPC_CREAT \<noteq> 0 \<and> flag AND IPC_EXCL \<noteq> 0 then Inl EEXIST
            else if (flag AND ACCBITS) AND NOT (perm_mode (perms ! i)) \<noteq> 0 then Inl EACCES
            else Inr (False, i, perms ! i)
        | None \<Rightarrow>
            if key \<noteq> IPC_PRIVATE \<and> flag AND IPC_CREAT = 0 then Inl ENOENT
            else (case free of None \<Rightarrow> Inl ENOSPC
                  | Some i \<Rightarrow> Inr (True, i, ipcget_init key flag cr (perms ! i))))"
proof -
  have "flag AND (IPC_CREAT OR IPC_EXCL) = (IPC_CREAT OR IPC_EXCL) \<longleftrightarrow>
      flag AND IPC_CREAT \<noteq> 0 \<and> flag AND IPC_EXCL \<noteq> 0"
    using creat_excl_bits by simp
  then show ?thesis
    by (simp add: ipcget_def ipcget_first Let_def option.map_comp comp_def split: option.splits)
qed

text \<open>
  A table in which no two allocated entries carry the same public key
  stays such a table after any successful call.
\<close>

lemma ipcget_keys_distinct:
  assumes "keys_distinct perms" and "ipcget key flag perms cr = Inr (new, i, p)"
  shows "keys_distinct (perms[i := p])"
proof (cases new)
  case False
  with ipcget_oldD [of key flag perms cr i p] assms show ?thesis by simp
next
  case True
  then have "ipcget key flag perms cr = Inr (True, i, p)" using assms(2) by simp
  note n = ipcget_newD [OF this]
  show ?thesis
    using assms(1) n(1,3,4) unfolding keys_distinct_def
    by (auto simp: nth_list_update)
qed

lemma ipcget_keys_distinct_witness:
  "keys_distinct [zero_perm] \<and>
   ipcget 17 (IPC_CREAT OR 0x180) [zero_perm] \<lparr>cr_uid = 6, cr_gid = 1, cr_groups = []\<rparr> =
     Inr (True, 0, ipcget_init 17 (IPC_CREAT OR 0x180) \<lparr>cr_uid = 6, cr_gid = 1, cr_groups = []\<rparr> zero_perm) \<and>
   keys_distinct [ipcget_init 17 (IPC_CREAT OR 0x180) \<lparr>cr_uid = 6, cr_gid = 1, cr_groups = []\<rparr> zero_perm]"
proof -
  have a: "keys_distinct [zero_perm]" by (simp add: keys_distinct_def)
  have b: "ipcget 17 (IPC_CREAT OR 0x180) [zero_perm] \<lparr>cr_uid = 6, cr_gid = 1, cr_groups = []\<rparr> =
     Inr (True, 0, ipcget_init 17 (IPC_CREAT OR 0x180) \<lparr>cr_uid = 6, cr_gid = 1, cr_groups = []\<rparr> zero_perm)"
    by (simp add: ipcget_def zero_perm_def ipc_consts)
  show ?thesis using a b ipcget_keys_distinct [OF a b] by simp
qed

end
