(* ===== verification/Undo_Log.thy ===== *)
theory Undo_Log
  imports Ipc
begin

text \<open>
  The contract between the semaphore operations and the record of adjustments a process must have
  undone on exit: recording an adjustment keeps the log well formed, touches the entries of one
  process only, leaves them alone when it fails, and can always be taken back. The client's
  lemma, proved from the contract alone, is that a series of recorded adjustments is undone by
  recording the opposite ones in reverse order.
\<close>

locale undo_log =
  fixes wf :: "'u \<Rightarrow> bool"
    and slots :: "'u \<Rightarrow> nat"
    and log :: "'u \<Rightarrow> nat \<Rightarrow> 'e"
    and holds :: "'u \<Rightarrow> nat \<Rightarrow> bool"
    and rcd :: "'u \<Rightarrow> nat \<Rightarrow> short \<Rightarrow> int32 \<Rightarrow> ushort \<Rightarrow> errno option \<times> 'u"
  assumes rcd_wf: "wf u \<Longrightarrow> s < slots u \<Longrightarrow> rcd u s v d n = (r, u') \<Longrightarrow> wf u' \<and> slots u' = slots u"
    and rcd_other: "wf u \<Longrightarrow> s < slots u \<Longrightarrow> rcd u s v d n = (r, u') \<Longrightarrow> t < slots u \<Longrightarrow> t \<noteq> s \<Longrightarrow>
      log u' t = log u t"
    and rcd_error: "wf u \<Longrightarrow> s < slots u \<Longrightarrow> rcd u s v d n = (Some e, u') \<Longrightarrow> log u' s = log u s"
    and rcd_holds: "wf u \<Longrightarrow> s < slots u \<Longrightarrow> rcd u s v d n = (r, u') \<Longrightarrow>
      holds u s \<or> v \<noteq> 0 \<and> r = None \<Longrightarrow> holds u' s"
    and rcd_inverse: "wf u \<Longrightarrow> s < slots u \<Longrightarrow> v \<noteq> 0 \<Longrightarrow> rcd u s v d n = (None, u') \<Longrightarrow>
      wf w \<Longrightarrow> s < slots w \<Longrightarrow> holds w s \<Longrightarrow> log w s = log u' s \<Longrightarrow>
      \<exists>w'. rcd w s (- v) d n = (None, w') \<and> log w' s = log u s"
begin

text \<open>A series of adjustments recorded with success, and taking a series back.\<close>

primrec series :: "'u \<Rightarrow> nat \<Rightarrow> (short \<times> int32 \<times> ushort) list \<Rightarrow> 'u \<Rightarrow> bool" where
  "series u s [] u' \<longleftrightarrow> u' = u"
| "series u s (x # xs) u' \<longleftrightarrow>
    (case x of (v, d, n) \<Rightarrow> v \<noteq> 0 \<and> (\<exists>u1. rcd u s v d n = (None, u1) \<and> series u1 s xs u'))"

primrec rollback :: "'u \<Rightarrow> nat \<Rightarrow> (short \<times> int32 \<times> ushort) list \<Rightarrow> 'u" where
  "rollback u s [] = u"
| "rollback u s (x # xs) = (case x of (v, d, n) \<Rightarrow> rollback (snd (rcd u s (- v) d n)) s xs)"

lemma series_snoc:
  "series u s (xs @ [(v, d, n)]) u' \<longleftrightarrow>
    (\<exists>u1. series u s xs u1 \<and> v \<noteq> 0 \<and> rcd u1 s v d n = (None, u'))"
  by (induction xs arbitrary: u) auto

lemma series_wf:
  assumes "series u s xs u'" "wf u" "s < slots u"
  shows "wf u' \<and> slots u' = slots u \<and> (\<forall>t < slots u. t \<noteq> s \<longrightarrow> log u' t = log u t) \<and>
    (holds u s \<or> xs \<noteq> [] \<longrightarrow> holds u' s)"
  using assms
proof (induction xs arbitrary: u)
  case (Cons x xs)
  obtain v d n u1 where x: "x = (v, d, n)" "v \<noteq> 0" "rcd u s v d n = (None, u1)" "series u1 s xs u'"
    using Cons.prems(1) by (cases x) auto
  have u1: "wf u1" "slots u1 = slots u" "holds u1 s"
    using rcd_wf [OF Cons.prems(2,3) x(3)] rcd_holds [OF Cons.prems(2,3) x(3)] x(2) by auto
  show ?case using Cons.IH [OF x(4)] u1 Cons.prems(3) rcd_other [OF Cons.prems(2,3) x(3)] by auto
qed simp

theorem rollback_series:
  assumes "series u s xs u'" "wf u" "s < slots u"
    and "wf w" "s < slots w" "log w s = log u' s" "holds w s \<or> xs = []"
  shows "wf (rollback w s (rev xs)) \<and> slots (rollback w s (rev xs)) = slots w \<and>
    log (rollback w s (rev xs)) s = log u s \<and>
    (\<forall>t < slots w. t \<noteq> s \<longrightarrow> log (rollback w s (rev xs)) t = log w t)"
  using assms(1,4-)
proof (induction xs arbitrary: u' w rule: rev_induct)
  case (snoc x xs)
  obtain v d n where x: "x = (v, d, n)" by (cases x)
  obtain u1 where u1: "series u s xs u1" "v \<noteq> 0" "rcd u1 s v d n = (None, u')"
    using snoc.prems(1) by (auto simp: x series_snoc)
  have wf1: "wf u1" "s < slots u1" using series_wf [OF u1(1) assms(2,3)] assms(3) by auto
  have h: "holds w s" using snoc.prems(5) by simp
  obtain w' where w': "rcd w s (- v) d n = (None, w')" "log w' s = log u1 s"
    using rcd_inverse [OF wf1 u1(2,3) snoc.prems(2,3) h snoc.prems(4)] by blast
  have ww: "wf w'" "slots w' = slots w" "holds w' s" "\<forall>t < slots w. t \<noteq> s \<longrightarrow> log w' t = log w t"
    using rcd_wf [OF snoc.prems(2,3) w'(1)] rcd_holds [OF snoc.prems(2,3) w'(1)]
      rcd_other [OF snoc.prems(2,3) w'(1)] h by auto
  show ?case
    using snoc.IH [OF u1(1) ww(1)] ww w' snoc.prems(3) by (simp add: x)
qed (use assms in simp)

end

end
