(* ===== verification/Sem_Undo.thy ===== *)
theory Sem_Undo
  imports Undo_Log
begin

text \<open>
  The adjust-on-exit part of \<open>syscall/sem.c\<close>: the undo structures of \<open>sys/sem.h\<close>, their
  pool with the table of the structure each process holds, the chain of structures with entries
  and the chain of free ones, and the routines \<open>semaoe\<close> and \<open>semunrm\<close>. A structure is named by
  its position in the pool \<open>semu\<close>; a chain linked through \<open>un_np\<close> is the list of its nodes, and
  the entries of a structure are the list of its first \<open>un_cnt\<close> entries. In the source \<open>un_cnt\<close> is a
  16-bit count: the list is exact as long as the limit \<open>semume\<close> is at most 32767, with a larger one
  the count would wrap around at the 32768th entry, which is not modelled.
\<close>

section \<open>Data\<close>

record seminfo =
  si_semmap :: int32
  si_semmni :: int32
  si_semmns :: int32
  si_semmnu :: int32
  si_semmsl :: int32
  si_semopm :: int32
  si_semume :: int32
  si_semusz :: int32
  si_semvmx :: int32
  si_semaem :: int32

record undo =
  un_aoe :: short
  un_num :: ushort
  un_id :: int32

record undo_state =
  sem_undo :: "nat option list"
  semunp :: "nat list"
  semfup :: "nat list"
  semu :: "undo list list"

section \<open>Recording an adjustment\<close>

text \<open>The search for the entry of a semaphore: its position and whether it is there.\<close>

definition aoe_before :: "int32 \<Rightarrow> ushort \<Rightarrow> undo \<Rightarrow> bool" where
  "aoe_before sid num e \<longleftrightarrow> sint (un_id e) < sint sid \<or> (un_id e = sid \<and> un_num e < num)"

fun aoe_search :: "undo list \<Rightarrow> int32 \<Rightarrow> ushort \<Rightarrow> nat \<times> bool" where
  "aoe_search [] sid num = (0, False)"
| "aoe_search (e # es) sid num =
    (if aoe_before sid num e then (case aoe_search es sid num of (i, found) \<Rightarrow> (Suc i, found))
     else (0, un_id e = sid \<and> un_num e = num))"

definition aoe_out :: "seminfo \<Rightarrow> short \<Rightarrow> bool" where
  "aoe_out si a \<longleftrightarrow> sint a > sint (si_semaem si) \<or> sint a < - sint (si_semaem si)"

text \<open>
  The work on the entries of one structure. The adjustment is a 16-bit quantity: it is changed
  first, then compared with the limit, and changed back when it is out of range.
\<close>

definition aoe_update :: "seminfo \<Rightarrow> undo list \<Rightarrow> short \<Rightarrow> int32 \<Rightarrow> ushort \<Rightarrow> errno option \<times> undo list" where
  "aoe_update si es val sid num =
    (case aoe_search es sid num of (i, found) \<Rightarrow>
       if \<not> found then
         (if int (length es) \<ge> sint (si_semume si) then (Some EINVAL, es)
          else (None, take i es @ \<lparr>un_aoe = - val, un_num = num, un_id = sid\<rparr> # drop i es))
       else
         (let a = un_aoe (es ! i) - val in
          if aoe_out si a then (Some ERANGE, es)
          else if a = 0 then (None, take i es @ drop (Suc i) es)
          else (None, es[i := (es ! i)\<lparr>un_aoe := a\<rparr>])))"

definition semaoe_entry :: "seminfo \<Rightarrow> undo_state \<Rightarrow> nat \<Rightarrow> short \<Rightarrow> int32 \<Rightarrow> ushort \<Rightarrow> errno option \<times> undo_state" where
  "semaoe_entry si u up val sid num =
    (case aoe_update si (semu u ! up) val sid num of
       (Some e, _) \<Rightarrow> (Some e, u)
     | (None, es) \<Rightarrow>
         (None, u\<lparr>semu := (semu u)[up := es],
                  semunp := (if semu u ! up = [] then up # semunp u
                             else if es = [] then remove1 up (semunp u)
                             else semunp u)\<rparr>))"

definition semaoe :: "seminfo \<Rightarrow> undo_state \<Rightarrow> nat \<Rightarrow> short \<Rightarrow> int32 \<Rightarrow> ushort \<Rightarrow> errno option \<times> undo_state" where
  "semaoe si u slot val sid num =
    (if val = 0 then (None, u)
     else if aoe_out si val then (Some ERANGE, u)
     else (case sem_undo u ! slot of
             Some up \<Rightarrow> semaoe_entry si u up val sid num
           | None \<Rightarrow>
               (case semfup u of
                  [] \<Rightarrow> (Some ENOSPC, u)
                | up # rest \<Rightarrow>
                    semaoe_entry si (u\<lparr>semfup := rest, sem_undo := (sem_undo u)[slot := Some up]\<rparr>)
                      up val sid num)))"

section \<open>Removing entries\<close>

fun semunrm_ents :: "int32 \<Rightarrow> ushort \<Rightarrow> ushort \<Rightarrow> undo list \<Rightarrow> undo list" where
  "semunrm_ents sid low high [] = []"
| "semunrm_ents sid low high (e # es) =
    (if sint sid < sint (un_id e) then e # es
     else if sint sid > sint (un_id e) \<or> low > un_num e then e # semunrm_ents sid low high es
     else if high < un_num e then e # es
     else semunrm_ents sid low high es)"

fun semunrm_chain :: "int32 \<Rightarrow> ushort \<Rightarrow> ushort \<Rightarrow> nat list \<Rightarrow> undo list list \<Rightarrow> nat list \<times> undo list list" where
  "semunrm_chain sid low high [] ents = ([], ents)"
| "semunrm_chain sid low high (p # ps) ents =
    (let es = semunrm_ents sid low high (ents ! p) in
     case semunrm_chain sid low high ps (ents[p := es]) of
       (chain, ents') \<Rightarrow> (if es = [] then chain else p # chain, ents'))"

definition semunrm :: "undo_state \<Rightarrow> int32 \<Rightarrow> ushort \<Rightarrow> ushort \<Rightarrow> undo_state" where
  "semunrm u sid low high =
    (case semunrm_chain sid low high (semunp u) (semu u) of
       (chain, ents) \<Rightarrow> u\<lparr>semunp := chain, semu := ents\<rparr>)"

section \<open>The entries of a process\<close>

definition undo_less :: "undo \<Rightarrow> undo \<Rightarrow> bool" where
  "undo_less e f \<longleftrightarrow> aoe_before (un_id f) (un_num f) e"

definition ents_ok :: "seminfo \<Rightarrow> undo list \<Rightarrow> bool" where
  "ents_ok si es \<longleftrightarrow> sorted_wrt undo_less es \<and> (\<forall>e\<in>set es. un_aoe e \<noteq> 0 \<and> \<not> aoe_out si (un_aoe e)) \<and>
     length es \<le> nat (sint (si_semume si))"

definition ents :: "undo_state \<Rightarrow> nat \<Rightarrow> undo list" where
  "ents u slot = (case sem_undo u ! slot of None \<Rightarrow> [] | Some up \<Rightarrow> semu u ! up)"

definition held :: "undo_state \<Rightarrow> nat set" where
  "held u = {up. Some up \<in> set (sem_undo u)}"

definition undo_wf :: "seminfo \<Rightarrow> undo_state \<Rightarrow> bool" where
  "undo_wf si u \<longleftrightarrow>
     (\<forall>s<length (sem_undo u). \<forall>t<length (sem_undo u). \<forall>up.
        sem_undo u ! s = Some up \<longrightarrow> sem_undo u ! t = Some up \<longrightarrow> s = t) \<and>
     (\<forall>up \<in> held u \<union> set (semfup u). up < length (semu u)) \<and>
     held u \<inter> set (semfup u) = {} \<and>
     distinct (semunp u) \<and> distinct (semfup u) \<and>
     set (semunp u) = {up \<in> held u. semu u ! up \<noteq> []} \<and>
     (\<forall>up \<in> set (semfup u). semu u ! up = []) \<and>
     (\<forall>up \<in> held u. ents_ok si (semu u ! up))"

text \<open>The adjustment recorded for a semaphore, zero when there is no entry.\<close>

definition ents_adj :: "undo list \<Rightarrow> int32 \<Rightarrow> ushort \<Rightarrow> int" where
  "ents_adj es sid num =
    (case find (\<lambda>e. un_id e = sid \<and> un_num e = num) es of None \<Rightarrow> 0 | Some e \<Rightarrow> sint (un_aoe e))"

section \<open>Search and update of sorted entries\<close>

lemma undo_less_trans: "undo_less a b \<Longrightarrow> undo_less b c \<Longrightarrow> undo_less a c"
  by (auto simp: undo_less_def aoe_before_def)

lemma undo_less_irrefl [simp]: "\<not> undo_less a a"
  by (simp add: undo_less_def aoe_before_def)

lemma aoe_search_split:
  "aoe_search es sid num =
    (length (takeWhile (aoe_before sid num) es),
     case dropWhile (aoe_before sid num) es of [] \<Rightarrow> False | e # _ \<Rightarrow> un_id e = sid \<and> un_num e = num)"
  by (induction es) auto

lemma aoe_search_take [simp]:
  "take (length (takeWhile P es)) es = takeWhile P es" "drop (length (takeWhile P es)) es = dropWhile P es"
  by (simp_all add: takeWhile_eq_take[symmetric] dropWhile_eq_drop[symmetric])

text \<open>
  Sorted entries fall apart into those before the semaphore and the rest; the update is described
  on the two parts.
\<close>

lemma aoe_cases:
  obtains (hit) xs e ys where "es = xs @ e # ys" "\<forall>x\<in>set xs. aoe_before sid num x"
      "un_id e = sid" "un_num e = num"
  | (miss) xs ys where "es = xs @ ys" "\<forall>x\<in>set xs. aoe_before sid num x"
      "ys = [] \<or> \<not> aoe_before sid num (hd ys) \<and> \<not> (un_id (hd ys) = sid \<and> un_num (hd ys) = num)"
proof -
  define xs ys where "xs = takeWhile (aoe_before sid num) es" and "ys = dropWhile (aoe_before sid num) es"
  have es: "es = xs @ ys" by (simp add: xs_def ys_def)
  have xs: "\<forall>x\<in>set xs. aoe_before sid num x" by (auto simp: xs_def dest: set_takeWhileD)
  have ys: "ys = [] \<or> \<not> aoe_before sid num (hd ys)" 
    by (metis hd_dropWhile ys_def)
  show ?thesis
  proof (cases ys)
    case Nil
    with es xs show ?thesis using miss [of xs ys] by blast
  next
    case (Cons e zs)
    with es xs ys show ?thesis using hit [of xs e zs] miss [of xs ys] by (metis list.sel(1))
  qed
qed

lemma takeWhile_pre:
  "\<forall>x\<in>set xs. P x \<Longrightarrow> ys = [] \<or> \<not> P (hd ys) \<Longrightarrow> takeWhile P (xs @ ys) = xs \<and> dropWhile P (xs @ ys) = ys"
  by (cases ys) auto

lemma aoe_not_before_self: "un_id e = sid \<Longrightarrow> un_num e = num \<Longrightarrow> \<not> aoe_before sid num e"
  by (auto simp: aoe_before_def)

lemma aoe_update_hit:
  assumes "\<forall>x\<in>set xs. aoe_before sid num x" "un_id e = sid" "un_num e = num"
  shows "aoe_update si (xs @ e # ys) val sid num =
    (let a = un_aoe e - val in
     if aoe_out si a then (Some ERANGE, xs @ e # ys)
     else if a = 0 then (None, xs @ ys)
     else (None, xs @ e\<lparr>un_aoe := a\<rparr> # ys))"
proof -
  have "aoe_search (xs @ e # ys) sid num = (length xs, True)"
    using takeWhile_pre [of xs "aoe_before sid num" "e # ys"] assms aoe_not_before_self [OF assms(2,3)]
    by (simp add: aoe_search_split)
  then show ?thesis by (simp add: aoe_update_def Let_def)
qed

lemma aoe_update_miss:
  assumes "\<forall>x\<in>set xs. aoe_before sid num x"
    "ys = [] \<or> \<not> aoe_before sid num (hd ys) \<and> \<not> (un_id (hd ys) = sid \<and> un_num (hd ys) = num)"
  shows "aoe_update si (xs @ ys) val sid num =
    (if int (length (xs @ ys)) \<ge> sint (si_semume si) then (Some EINVAL, xs @ ys)
     else (None, xs @ \<lparr>un_aoe = - val, un_num = num, un_id = sid\<rparr> # ys))"
proof -
  have "aoe_search (xs @ ys) sid num = (length xs, False)"
  proof -
    have "takeWhile (aoe_before sid num) (xs @ ys) = xs \<and> dropWhile (aoe_before sid num) (xs @ ys) = ys"
      using assms by (intro takeWhile_pre) auto
    then show ?thesis using assms(2) by (auto simp: aoe_search_split split: list.split)
  qed
  then show ?thesis by (simp add: aoe_update_def)
qed

lemma sint_minus_word:
  fixes w :: "'a::len word"
  assumes "- (2 ^ (LENGTH('a) - 1)) < sint w"
  shows "sint (- w) = - sint w"
proof -
  have "- w = word_of_int (- sint w)" by simp
  moreover have "signed_take_bit (LENGTH('a) - Suc 0) (- sint w) = - sint w"
    using assms sint_in_range [of w] by (intro signed_take_bit_int_eq_self) simp_all
  ultimately show ?thesis by (simp only: sint_sbintrunc' One_nat_def)
qed

text \<open>The limits under which a 16-bit adjustment can be negated and stays comparable.\<close>

definition aem_ok :: "seminfo \<Rightarrow> bool" where
  "aem_ok si \<longleftrightarrow> 0 \<le> sint (si_semaem si) \<and> sint (si_semaem si) \<le> 32767"

lemma aoe_out_minus:
  assumes "aem_ok si" "\<not> aoe_out si v"
  shows "\<not> aoe_out si (- v)" and "sint (- v) = - sint v"
proof -
  have "- (2 ^ (LENGTH(16) - 1)) < sint v" using assms by (auto simp: aem_ok_def aoe_out_def)
  then show "sint (- v) = - sint v" by (rule sint_minus_word)
  then show "\<not> aoe_out si (- v)" using assms(2) by (auto simp: aoe_out_def)
qed

lemma aoe_out_zero [simp]: "aem_ok si \<Longrightarrow> \<not> aoe_out si 0"
  by (simp add: aem_ok_def aoe_out_def)

lemma undo_less_update [simp]:
  "undo_less (e\<lparr>un_aoe := a\<rparr>) f \<longleftrightarrow> undo_less e f" "undo_less f (e\<lparr>un_aoe := a\<rparr>) \<longleftrightarrow> undo_less f e"
  by (simp_all add: undo_less_def aoe_before_def)

lemma undo_lessD:
  "undo_less e y \<Longrightarrow> \<not> aoe_before (un_id e) (un_num e) y \<and> \<not> (un_id y = un_id e \<and> un_num y = un_num e)"
  unfolding undo_less_def aoe_before_def by auto

lemma undo_less_rest:
  assumes "sorted_wrt undo_less ys" "ys = [] \<or> \<not> aoe_before sid num (hd ys) \<and> \<not> (un_id (hd ys) = sid \<and> un_num (hd ys) = num)"
    "y \<in> set ys"
  shows "undo_less \<lparr>un_aoe = a, un_num = num, un_id = sid\<rparr> y"
proof -
  have h: "\<not> aoe_before sid num (hd ys)" "\<not> (un_id (hd ys) = sid \<and> un_num (hd ys) = num)"
    using assms(2,3) by auto
  have "undo_less \<lparr>un_aoe = a, un_num = num, un_id = sid\<rparr> (hd ys)"
    using h unfolding undo_less_def aoe_before_def undo.select_convs
    by (metis linorder_less_linear sint_eq_iff)
  moreover have "y = hd ys \<or> undo_less (hd ys) y" using assms(1,3) by (cases ys) auto
  ultimately show ?thesis using undo_less_trans by blast
qed

lemma aoe_update_ok:
  assumes "ents_ok si es" "aem_ok si" "\<not> aoe_out si val" "val \<noteq> 0" "aoe_update si es val sid num = (r, es')"
  shows "ents_ok si es'"
proof (cases rule: aoe_cases [where es = es and sid = sid and num = num])
  case (hit xs e ys)
  then show ?thesis using assms(1,5)
    by (auto simp: aoe_update_hit Let_def ents_ok_def sorted_wrt_append split: if_splits)
next
  case (miss xs ys)
  let ?n = "\<lparr>un_aoe = - val, un_num = num, un_id = sid\<rparr>"
  have s: "sorted_wrt undo_less ys" using assms(1) miss by (simp add: ents_ok_def sorted_wrt_append)
  have "\<forall>y\<in>set ys. undo_less ?n y" using undo_less_rest [OF s miss(3)] by blast
  moreover have "\<forall>x\<in>set xs. undo_less x ?n" using miss(2) by (simp add: undo_less_def)
  moreover have "\<not> aoe_out si (- val)" using aoe_out_minus assms(2,3) by blast
  ultimately show ?thesis using assms(1,4,5) miss
    by (auto simp: aoe_update_miss ents_ok_def sorted_wrt_append split: if_splits)
qed

text \<open>Recording the opposite adjustment gives the entries back exactly.\<close>

lemma aoe_update_inverse:
  assumes "ents_ok si es" "aem_ok si" "\<not> aoe_out si val" "val \<noteq> 0"
    "aoe_update si es val sid num = (None, es')"
  shows "aoe_update si es' (- val) sid num = (None, es)"
proof (cases rule: aoe_cases [where es = es and sid = sid and num = num])
  case (miss xs ys)
  have "es' = xs @ \<lparr>un_aoe = - val, un_num = num, un_id = sid\<rparr> # ys"
    using assms(5) miss by (auto simp: aoe_update_miss split: if_splits)
  then show ?thesis using miss assms(2) by (simp add: aoe_update_hit)
next
  case (hit xs e ys)
  have e: "un_aoe e \<noteq> 0" "\<not> aoe_out si (un_aoe e)" and len: "length es \<le> nat (sint (si_semume si))"
    and s: "\<forall>y\<in>set ys. undo_less e y"
    using assms(1) hit by (auto simp: ents_ok_def sorted_wrt_append)
  show ?thesis
  proof (cases "un_aoe e - val = 0")
    case False
    then have "es' = xs @ e\<lparr>un_aoe := un_aoe e - val\<rparr> # ys"
      using assms(5) hit by (auto simp: aoe_update_hit Let_def split: if_splits)
    then show ?thesis using hit e by (simp add: aoe_update_hit)
  next
    case True
    then have "es' = xs @ ys"
      using assms(2,5) hit by (auto simp: aoe_update_hit Let_def split: if_splits)
    moreover have "ys = [] \<or> \<not> aoe_before sid num (hd ys) \<and> \<not> (un_id (hd ys) = sid \<and> un_num (hd ys) = num)"
      using s undo_lessD [of e] hit(3,4) by (cases ys) auto
    moreover have "\<not> int (length (xs @ ys)) \<ge> sint (si_semume si)" using len hit by auto
    moreover have "\<lparr>un_aoe = val, un_num = num, un_id = sid\<rparr> = e" using True hit by simp
    ultimately show ?thesis using hit by (simp add: aoe_update_miss)
  qed
qed

section \<open>The undo state as a whole\<close>

lemma undo_wfD:
  assumes "undo_wf si u"
  shows "s < length (sem_undo u) \<Longrightarrow> t < length (sem_undo u) \<Longrightarrow> sem_undo u ! s = Some up \<Longrightarrow>
      sem_undo u ! t = Some up \<Longrightarrow> s = t"
    and "up \<in> held u \<Longrightarrow> up < length (semu u)" and "up \<in> set (semfup u) \<Longrightarrow> up < length (semu u)"
    and "up \<in> held u \<Longrightarrow> up \<notin> set (semfup u)" and "up \<in> held u \<Longrightarrow> ents_ok si (semu u ! up)"
    and "up \<in> set (semfup u) \<Longrightarrow> semu u ! up = []" and "distinct (semunp u)" and "distinct (semfup u)"
    and "up \<in> set (semunp u) \<longleftrightarrow> up \<in> held u \<and> semu u ! up \<noteq> []"
  using assms unfolding undo_wf_def by blast+

lemma held_at: "slot < length (sem_undo u) \<Longrightarrow> sem_undo u ! slot = Some up \<Longrightarrow> up \<in> held u"
  by (metis (mono_tags, lifting) held_def mem_Collect_eq nth_mem)

lemma heldE:
  assumes "up \<in> held u"
  obtains s where "s < length (sem_undo u)" "sem_undo u ! s = Some up"
  using assms unfolding held_def by (metis (mono_tags, lifting) in_set_conv_nth mem_Collect_eq)

text \<open>A process that has no structure takes the first free one.\<close>

lemma acquire_wf:
  assumes wf: "undo_wf si u" and s: "slot < length (sem_undo u)" "sem_undo u ! slot = None"
    and f: "semfup u = up # rest"
  shows "undo_wf si (u\<lparr>semfup := rest, sem_undo := (sem_undo u)[slot := Some up]\<rparr>)"
proof -
  let ?u = "u\<lparr>semfup := rest, sem_undo := (sem_undo u)[slot := Some up]\<rparr>"
  note w = undo_wfD [OF wf]
  have up: "up \<in> set (semfup u)" "up \<notin> set rest" "up \<notin> held u" using f w(4,8) by auto
  have h: "held ?u = insert up (held u)"
  proof
    show "held ?u \<subseteq> insert up (held u)"
      using set_update_subset_insert [of "sem_undo u" slot "Some up"] by (auto simp: held_def)
    have "q \<in> held ?u" if q: "q \<in> held u" for q
    proof -
      obtain t where "t < length (sem_undo u)" "sem_undo u ! t = Some q" using q by (rule heldE)
      with s have "t < length (sem_undo ?u)" "sem_undo ?u ! t = Some q" by (auto simp: nth_list_update)
      then show ?thesis by (rule held_at)
    qed
    moreover have "up \<in> held ?u" using s by (intro held_at [of slot]) auto
    ultimately show "insert up (held u) \<subseteq> held ?u" by blast
  qed
  have e: "semu u ! up = []" using w(6) up(1) by blast
  have inj: "a = b" if "a < length (sem_undo ?u)" "b < length (sem_undo ?u)" "sem_undo ?u ! a = Some q"
    "sem_undo ?u ! b = Some q" for a b q
  proof -
    have at: "sem_undo ?u ! c = (if c = slot then Some up else sem_undo u ! c)" for c
      using s(1) by (auto simp: nth_list_update)
    have l: "a < length (sem_undo u)" "b < length (sem_undo u)" using that by simp_all
    have "sem_undo u ! c \<noteq> Some up" if "c < length (sem_undo u)" for c
      using that up(3) held_at by metis
    with that(3,4) l show ?thesis unfolding at using w(1) [OF l] by (metis option.inject)
  qed
  have mem: "up \<in> set (semunp u) \<longleftrightarrow> up \<in> held u \<and> semu u ! up \<noteq> []" for up by (rule w(9))
  show ?thesis
    unfolding undo_wf_def h
  proof (intro conjI)
    show "set (semunp ?u) = {q \<in> insert up (held u). semu ?u ! q \<noteq> []}"
      using mem e by auto
    show "insert up (held u) \<inter> set (semfup ?u) = {}" using w(4) up f by auto
    show "distinct (semfup ?u)" using w(8) f by simp
    show "\<forall>q\<in>insert up (held u) \<union> set (semfup ?u). q < length (semu ?u)"
      using w(2,3) f by auto
    show "\<forall>q\<in>insert up (held u). ents_ok si (semu ?u ! q)"
      using w(5) e by (auto simp: ents_ok_def)
  qed (use inj w(6,7) f in auto)
qed

text \<open>The work on a structure that a process holds.\<close>

lemma semaoe_entry_wf:
  assumes wf: "undo_wf si u" and s: "slot < length (sem_undo u)" "sem_undo u ! slot = Some up"
    and ok: "aem_ok si" "\<not> aoe_out si val" "val \<noteq> 0"
    and r: "semaoe_entry si u up val sid num = (r, u')"
  shows "undo_wf si u'" and "sem_undo u' = sem_undo u" and "semfup u' = semfup u"
    and "\<exists>es'. aoe_update si (semu u ! up) val sid num = (r, es') \<and>
      (r = None \<longrightarrow> semu u' = (semu u)[up := es']) \<and> (r \<noteq> None \<longrightarrow> u' = u)"
proof -
  note w = undo_wfD [OF wf]
  have up: "up \<in> held u" using s by (rule held_at)
  obtain r0 es' where a: "aoe_update si (semu u ! up) val sid num = (r0, es')" by fastforce
  have r0: "r0 = r" using r a by (auto simp: semaoe_entry_def split: option.splits)
  have ok': "ents_ok si es'" using aoe_update_ok [OF w(5) ok a] up by blast
  have none: "u' = u" if "r \<noteq> None" using r a r0 that by (auto simp: semaoe_entry_def)
  have some: "u' = u\<lparr>semu := (semu u)[up := es'],
      semunp := (if semu u ! up = [] then up # semunp u else if es' = [] then remove1 up (semunp u)
        else semunp u)\<rparr>" if "r = None"
    using r a r0 that by (auto simp: semaoe_entry_def)
  have fresh: "es' \<noteq> []" if "semu u ! up = []" "r = None"
    using a r0 that by (auto simp: aoe_update_def split: if_splits)
  show "sem_undo u' = sem_undo u" "semfup u' = semfup u"
    using none some by (cases r; simp)+
  show "\<exists>es'. aoe_update si (semu u ! up) val sid num = (r, es') \<and>
      (r = None \<longrightarrow> semu u' = (semu u)[up := es']) \<and> (r \<noteq> None \<longrightarrow> u' = u)"
    using a r0 none some by auto
  show "undo_wf si u'"
  proof (cases r)
    case (Some e)
    then show ?thesis using none wf by simp
  next
    case None
    note u' = some [OF None]
    have h: "held u' = held u" by (simp add: u' held_def)
    have len: "up < length (semu u)" using w(2) up by blast
    have nf: "up \<notin> set (semfup u)" using w(4) up by blast
    have mem: "q \<in> set (semunp u) \<longleftrightarrow> q \<in> held u \<and> semu u ! q \<noteq> []" for q by (rule w(9))
    have at: "semu u' ! q = (if q = up then es' else semu u ! q)" for q
      using len by (simp add: u')
    show ?thesis
      unfolding undo_wf_def h
    proof (intro conjI)
      show "set (semunp u') = {q \<in> held u. semu u' ! q \<noteq> []}"
        unfolding at using mem up fresh None w(7) by (auto simp: u' split: if_splits)
      show "distinct (semunp u')" using w(7) mem by (auto simp: u')
      show "\<forall>q\<in>held u. ents_ok si (semu u' ! q)" unfolding at using w(5) ok' by auto
      show "\<forall>q\<in>set (semfup u'). semu u' ! q = []" unfolding at using w(6) nf by (auto simp: u')
      show "held u \<inter> set (semfup u') = {}" using w(4) by (auto simp: u')
      show "\<forall>q\<in>held u \<union> set (semfup u'). q < length (semu u')" using w(2,3) by (auto simp: u')
      show "distinct (semfup u')" using w(8) by (simp add: u')
    qed (use w(1) in \<open>auto simp: u'\<close>)
  qed
qed

definition holds_undo :: "undo_state \<Rightarrow> nat \<Rightarrow> bool" where
  "holds_undo u slot \<longleftrightarrow> sem_undo u ! slot \<noteq> None"

lemma acquire_ents:
  assumes wf: "undo_wf si u" and s: "slot < length (sem_undo u)" "sem_undo u ! slot = None"
    and f: "semfup u = up # rest" and t: "t < length (sem_undo u)"
  shows "ents (u\<lparr>semfup := rest, sem_undo := (sem_undo u)[slot := Some up]\<rparr>) t = ents u t"
  using undo_wfD(6) [OF wf, of up] s f t by (auto simp: ents_def nth_list_update split: option.split)

text \<open>
  The effect of \<open>semaoe\<close> on the entries: those of the calling process change as
  \<open>aoe_update\<close> says, those of the others not at all.
\<close>

lemma semaoe_effect:
  assumes wf: "undo_wf si u" and s: "slot < length (sem_undo u)" and ok: "aem_ok si"
    and r: "semaoe si u slot val sid num = (r, u')"
  shows "undo_wf si u'" and "length (sem_undo u') = length (sem_undo u)"
    and "t < length (sem_undo u) \<Longrightarrow> t \<noteq> slot \<Longrightarrow> ents u' t = ents u t"
    and "holds_undo u slot \<or> val \<noteq> 0 \<and> r = None \<Longrightarrow> holds_undo u' slot"
    and "if val = 0 then r = None \<and> u' = u
         else if aoe_out si val then r = Some ERANGE \<and> u' = u
         else if sem_undo u ! slot = None \<and> semfup u = [] then r = Some ENOSPC \<and> u' = u
         else (r, ents u' slot) = aoe_update si (ents u slot) val sid num"
proof -
  have "undo_wf si u' \<and> length (sem_undo u') = length (sem_undo u) \<and>
     (t < length (sem_undo u) \<longrightarrow> t \<noteq> slot \<longrightarrow> ents u' t = ents u t) \<and>
     (holds_undo u slot \<or> val \<noteq> 0 \<and> r = None \<longrightarrow> holds_undo u' slot) \<and>
     (if val = 0 then r = None \<and> u' = u
         else if aoe_out si val then r = Some ERANGE \<and> u' = u
         else if sem_undo u ! slot = None \<and> semfup u = [] then r = Some ENOSPC \<and> u' = u
         else (r, ents u' slot) = aoe_update si (ents u slot) val sid num)"
  proof (cases "val = 0 \<or> aoe_out si val \<or> (sem_undo u ! slot = None \<and> semfup u = [])")
    case True
    then show ?thesis using r wf by (auto simp: semaoe_def holds_undo_def)
  next
    case False
    obtain v up where v: "undo_wf si v" "slot < length (sem_undo v)" "sem_undo v ! slot = Some up"
      "length (sem_undo v) = length (sem_undo u)" "semaoe_entry si v up val sid num = (r, u')"
      "\<And>t. t < length (sem_undo u) \<Longrightarrow> ents v t = ents u t"
    proof (cases "sem_undo u ! slot")
      case (Some up)
      then show ?thesis using that [of u up] wf s r False by (simp add: semaoe_def)
    next
      case None
      then obtain up rest where f: "semfup u = up # rest" using False by (cases "semfup u") auto
      let ?v = "u\<lparr>semfup := rest, sem_undo := (sem_undo u)[slot := Some up]\<rparr>"
      show ?thesis
        using that [of ?v up] acquire_wf [OF wf s None f] acquire_ents [OF wf s None f] s r None f False
        by (simp add: semaoe_def)
    qed
    have ok': "\<not> aoe_out si val" "val \<noteq> 0" using False by auto
    note e = semaoe_entry_wf [OF v(1-3) ok ok' v(5)]
    obtain es' where es': "aoe_update si (semu v ! up) val sid num = (r, es')"
      "r = None \<Longrightarrow> semu u' = (semu v)[up := es']" "r \<noteq> None \<Longrightarrow> u' = v" using e(4) by blast
    have up: "up < length (semu v)" using undo_wfD(2) [OF v(1)] held_at [OF v(2,3)] by blast
    have es_same: "es' = semu v ! up" if "r \<noteq> None"
      using es'(1) that by (auto simp: aoe_update_def Let_def split: if_splits prod.splits)
    have mine: "ents u' slot = es'"
      using es' es_same e(2) v(3) up by (cases r) (auto simp: ents_def)
    have others: "ents u' t = ents v t" if "t < length (sem_undo u)" "t \<noteq> slot" for t
    proof (cases r)
      case None
      have "sem_undo v ! t \<noteq> Some up"
        using undo_wfD(1) [OF v(1) _ v(2), of t up] v(3,4) that by auto
      then show ?thesis using es'(2) [OF None] e(2) by (auto simp: ents_def split: option.split)
    qed (use es'(3) in simp)
    have ent: "ents u slot = semu v ! up" using v(6) [OF s] v(3) by (simp add: ents_def)
    have hold: "holds_undo u' slot" using e(2) v(3) by (simp add: holds_undo_def)
    show ?thesis
    proof (intro conjI impI)
      show "ents u' t = ents u t" if "t < length (sem_undo u)" "t \<noteq> slot"
        using others v(6) that by simp
      show "if val = 0 then r = None \<and> u' = u
         else if aoe_out si val then r = Some ERANGE \<and> u' = u
         else if sem_undo u ! slot = None \<and> semfup u = [] then r = Some ENOSPC \<and> u' = u
         else (r, ents u' slot) = aoe_update si (ents u slot) val sid num"
        using False es'(1) mine ent by auto
    qed (use e(1,2) v(4) hold in auto)
  qed
  then show "undo_wf si u'" "length (sem_undo u') = length (sem_undo u)"
    "t < length (sem_undo u) \<Longrightarrow> t \<noteq> slot \<Longrightarrow> ents u' t = ents u t"
    "holds_undo u slot \<or> val \<noteq> 0 \<and> r = None \<Longrightarrow> holds_undo u' slot"
    "if val = 0 then r = None \<and> u' = u
         else if aoe_out si val then r = Some ERANGE \<and> u' = u
         else if sem_undo u ! slot = None \<and> semfup u = [] then r = Some ENOSPC \<and> u' = u
         else (r, ents u' slot) = aoe_update si (ents u slot) val sid num"
    by blast+
qed

lemma semaoe_inverse:
  assumes ok: "aem_ok si" and u: "undo_wf si u" "slot < length (sem_undo u)" "val \<noteq> 0"
      "semaoe si u slot val sid num = (None, u')"
    and w: "undo_wf si w" "slot < length (sem_undo w)" "holds_undo w slot" "ents w slot = ents u' slot"
  shows "\<exists>w'. semaoe si w slot (- val) sid num = (None, w') \<and> ents w' slot = ents u slot"
proof -
  have out: "\<not> aoe_out si val" and a: "(None, ents u' slot) = aoe_update si (ents u slot) val sid num"
    using semaoe_effect(5) [OF u(1,2) ok u(4)] u(3) by (auto split: if_splits)
  have eok: "ents_ok si (ents u slot)"
    using undo_wfD(5) [OF u(1)] held_at [OF u(2)] by (auto simp: ents_def ents_ok_def split: option.split)
  have inv: "aoe_update si (ents w slot) (- val) sid num = (None, ents u slot)"
    using aoe_update_inverse [OF eok ok out u(3) a [symmetric]] w(4) by simp
  obtain r w' where w': "semaoe si w slot (- val) sid num = (r, w')" by fastforce
  have "\<not> aoe_out si (- val)" "- val \<noteq> 0" "sem_undo w ! slot \<noteq> None"
    using aoe_out_minus [OF ok out] u(3) w(3) by (simp_all add: holds_undo_def)
  then have "(r, ents w' slot) = aoe_update si (ents w slot) (- val) sid num"
    using semaoe_effect(5) [OF w(1,2) ok w'] by simp
  with inv w' show ?thesis by auto
qed

interpretation ul: undo_log "\<lambda>u. undo_wf si u \<and> aem_ok si" "\<lambda>u. length (sem_undo u)" ents holds_undo "semaoe si"
  for si
proof (unfold_locales, goal_cases)
  case (1 u s v d n r u')
  then show ?case using semaoe_effect(1,2) by blast
next
  case (2 u s v d n r u' t)
  then show ?case using semaoe_effect(3) by blast
next
  case (3 u s v d n e u')
  then have "undo_wf si u" "aem_ok si" by auto
  from semaoe_effect(5) [OF this(1) 3(2) this(2) 3(3)] show ?case
    by (auto simp: aoe_update_def Let_def split: if_splits prod.splits)
next
  case (4 u s v d n r u')
  then show ?case using semaoe_effect(4) by blast
next
  case (5 u s v d n u' w)
  then show ?case using semaoe_inverse by blast
qed

section \<open>Removing the entries of a set\<close>

abbreviation hit_range :: "int32 \<Rightarrow> ushort \<Rightarrow> ushort \<Rightarrow> undo \<Rightarrow> bool" where
  "hit_range sid low high e \<equiv> un_id e = sid \<and> low \<le> un_num e \<and> un_num e \<le> high"

lemma undo_less_id: "undo_less e f \<Longrightarrow> sint (un_id e) \<le> sint (un_id f)"
  by (auto simp: undo_less_def aoe_before_def)

lemma semunrm_ents_filter:
  "sorted_wrt undo_less es \<Longrightarrow> semunrm_ents sid low high es = filter (\<lambda>e. \<not> hit_range sid low high e) es"
proof (induction es)
  case (Cons e es)
  have rest: "\<forall>f\<in>set es. undo_less e f" using Cons.prems by simp
  consider (past) "sint sid < sint (un_id e)" | (before) "sint sid > sint (un_id e) \<or> low > un_num e" "\<not> sint sid < sint (un_id e)"
    | (above) "un_id e = sid" "low \<le> un_num e" "high < un_num e"
    | (inside) "un_id e = sid" "low \<le> un_num e" "un_num e \<le> high"
    by (metis linorder_less_linear linorder_not_less sint_eq_iff)
  then show ?case
  proof cases
    case past
    then have "\<not> hit_range sid low high f" if "f \<in> set (e # es)" for f
      using that rest undo_less_id by force
    then have "filter (\<lambda>e. \<not> hit_range sid low high e) (e # es) = e # es" by (intro filter_True) blast
    with past show ?thesis by simp
  next
    case before
    then have "\<not> hit_range sid low high e" by auto
    with before Cons show ?thesis by simp
  next
    case above
    then have "\<not> hit_range sid low high f" if "f \<in> set (e # es)" for f
    proof -
      have "f = e \<or> undo_less e f" using that rest by auto
      then have "sid = un_id f \<longrightarrow> un_num e \<le> un_num f"
        using above(1) unfolding undo_less_def aoe_before_def by auto
      then show ?thesis using above(3) by auto
    qed
    then have "filter (\<lambda>e. \<not> hit_range sid low high e) (e # es) = e # es" by (intro filter_True) blast
    moreover have "\<not> un_num e < low" "\<not> sint sid > sint (un_id e)" using above by auto
    ultimately show ?thesis using above by simp
  next
    case inside
    then have "\<not> un_num e < low" "\<not> high < un_num e" by auto
    then show ?thesis using Cons inside by simp
  qed
qed simp

lemma semunrm_chain_spec:
  assumes "distinct ps" "\<forall>p\<in>set ps. p < length tab"
  shows "fst (semunrm_chain sid low high ps tab) = filter (\<lambda>p. semunrm_ents sid low high (tab ! p) \<noteq> []) ps \<and>
    length (snd (semunrm_chain sid low high ps tab)) = length tab \<and>
    (\<forall>q. snd (semunrm_chain sid low high ps tab) ! q =
      (if q \<in> set ps then semunrm_ents sid low high (tab ! q) else tab ! q))"
  using assms
proof (induction ps arbitrary: tab)
  case (Cons p ps)
  let ?e = "tab[p := semunrm_ents sid low high (tab ! p)]"
  have "\<forall>p\<in>set ps. p < length ?e" "distinct ps" using Cons.prems by auto
  note IH = Cons.IH [OF this(2,1)]
  have same: "?e ! q = tab ! q" if "q \<in> set ps" for q
    using that Cons.prems by (metis distinct.simps(2) nth_list_update_neq)
  have "fst (semunrm_chain sid low high ps ?e) = filter (\<lambda>p. semunrm_ents sid low high (tab ! p) \<noteq> []) ps"
    using IH same by (auto intro: filter_cong)
  then show ?case using IH same Cons.prems
    by (auto simp: Let_def case_prod_beta)
qed simp

lemma ents_ok_filter: "ents_ok si es \<Longrightarrow> ents_ok si (filter P es)"
  by (auto simp: ents_ok_def sorted_wrt_filter intro: order_trans [OF length_filter_le])

lemma semunrm_effect:
  assumes wf: "undo_wf si u"
  shows "undo_wf si (semunrm u sid low high)" and "sem_undo (semunrm u sid low high) = sem_undo u"
    and "slot < length (sem_undo u) \<Longrightarrow>
      ents (semunrm u sid low high) slot = filter (\<lambda>e. \<not> hit_range sid low high e) (ents u slot)"
proof -
  note w = undo_wfD [OF wf]
  let ?u = "semunrm u sid low high" and ?f = "filter (\<lambda>e. \<not> hit_range sid low high e)"
  have "\<forall>p\<in>set (semunp u). p < length (semu u)" using w(2,9) by blast
  note c = semunrm_chain_spec [OF w(7) this, of sid low high]
  have srt: "semunrm_ents sid low high (semu u ! p) = ?f (semu u ! p)" if "p \<in> held u" for p
    using w(5) [OF that] by (intro semunrm_ents_filter) (simp add: ents_ok_def)
  have fields: "sem_undo ?u = sem_undo u" "semfup ?u = semfup u" "length (semu ?u) = length (semu u)"
    "semunp ?u = filter (\<lambda>p. semunrm_ents sid low high (semu u ! p) \<noteq> []) (semunp u)"
    using c by (auto simp: semunrm_def case_prod_beta)
  have h: "held ?u = held u" by (simp add: held_def fields)
  have at: "semu ?u ! q = ?f (semu u ! q)" if "q \<in> held u" for q
    using c srt that w(9) by (auto simp: semunrm_def case_prod_beta)
  have free: "semu ?u ! q = []" if "q \<in> set (semfup u)" for q
    using c w(4,6,9) that by (auto simp: semunrm_def case_prod_beta)
  show "sem_undo ?u = sem_undo u" by (rule fields)
  show "ents ?u slot = ?f (ents u slot)" if "slot < length (sem_undo u)"
    using that at held_at by (auto simp: ents_def fields split: option.split)
  have ok: "ents_ok si (?f es)" if "ents_ok si es" for es
    using that by (rule ents_ok_filter)
  show "undo_wf si ?u"
    unfolding undo_wf_def h
  proof (intro conjI)
    show "set (semunp ?u) = {up \<in> held u. semu ?u ! up \<noteq> []}"
      using w(9) at srt by (auto simp: fields)
    show "\<forall>up\<in>held u. ents_ok si (semu ?u ! up)" using at w(5) ok by simp
    show "\<forall>up\<in>set (semfup ?u). semu ?u ! up = []" using free by (simp add: fields)
    show "held u \<inter> set (semfup ?u) = {}" using w(4) by (auto simp: fields)
    show "\<forall>q\<in>held u \<union> set (semfup ?u). q < length (semu ?u)" using w(2,3) by (auto simp: fields)
    show "distinct (semunp ?u)" "distinct (semfup ?u)" using w(7,8) by (simp_all add: fields)
  qed (use w(1) in \<open>auto simp: fields\<close>)
qed

section \<open>Adjustments as integers\<close>

text \<open>
  Two 16-bit adjustments are compared with the limit after a subtraction that may wrap around.
  The comparison is the one on the integers when the limit is below a third of \<open>2^16\<close>.
\<close>

definition aem_exact :: "seminfo \<Rightarrow> bool" where
  "aem_exact si \<longleftrightarrow> 0 \<le> sint (si_semaem si) \<and> 3 * sint (si_semaem si) < 65536"

lemma aem_exact_ok: "aem_exact si \<Longrightarrow> aem_ok si"
  by (simp add: aem_exact_def aem_ok_def)

lemma sint16_sub: "sint (a - b :: short) = (sint a - sint b + 32768) mod 65536 - 32768"
proof -
  have "a - b = word_of_int (sint a - sint b)" by simp
  then have "sint (a - b) = signed_take_bit (LENGTH(16) - 1) (sint a - sint b)"
    by (simp only: sint_sbintrunc')
  then show ?thesis by (simp add: signed_take_bit_eq_take_bit_shift take_bit_eq_mod)
qed

lemma aoe_out_abs: "aoe_out si a \<longleftrightarrow> \<bar>sint a\<bar> > sint (si_semaem si)"
  by (auto simp: aoe_out_def)

lemma aoe_out_sub:
  assumes "aem_exact si" "\<not> aoe_out si a" "\<not> aoe_out si v"
  shows "aoe_out si (a - v) \<longleftrightarrow> \<bar>sint a - sint v\<bar> > sint (si_semaem si)"
    and "\<not> aoe_out si (a - v) \<Longrightarrow> sint (a - v) = sint a - sint v"
proof -
  define x where "x = sint a - sint v"
  define m where "m = sint (si_semaem si)"
  have m: "0 \<le> m" "3 * m < 65536" using assms(1) by (simp_all add: m_def aem_exact_def)
  have x: "- (2 * m) \<le> x" "x \<le> 2 * m" using assms(2,3) by (auto simp: x_def m_def aoe_out_def)
  have s: "sint (a - v) = (x + 32768) mod 65536 - 32768" unfolding x_def by (rule sint16_sub)
  consider "-32768 \<le> x" "x < 32768" | "32768 \<le> x" | "x < -32768" by linarith
  then have "(\<bar>sint (a - v)\<bar> > m \<longleftrightarrow> \<bar>x\<bar> > m) \<and> (\<bar>x\<bar> \<le> m \<longrightarrow> sint (a - v) = x)"
  proof cases
    case 1
    then have "(x + 32768) mod 65536 = x + 32768" by (intro mod_pos_pos_trivial) simp_all
    then show ?thesis using s by simp
  next
    case 2
    then have "(x + 32768) mod 65536 = x + 32768 - 65536"
      using x m by (subst minus_mod_self2 [symmetric]) (simp add: mod_pos_pos_trivial)
    then show ?thesis using s x m 2 by simp
  next
    case 3
    then have "(x + 32768) mod 65536 = x + 32768 + 65536"
      using x m by (subst mod_add_self2 [symmetric]) (simp add: mod_pos_pos_trivial)
    then show ?thesis using s x m 3 by simp
  qed
  then show "aoe_out si (a - v) \<longleftrightarrow> \<bar>sint a - sint v\<bar> > sint (si_semaem si)"
    "\<not> aoe_out si (a - v) \<Longrightarrow> sint (a - v) = sint a - sint v"
    unfolding aoe_out_abs x_def m_def by auto
qed

lemma find_append: "find P (xs @ ys) = (case find P xs of None \<Rightarrow> find P ys | Some x \<Rightarrow> Some x)"
  by (induction xs) auto

lemma ents_adj_before:
  assumes "\<forall>x\<in>set xs. aoe_before sid num x"
  shows "ents_adj (xs @ ys) sid num = ents_adj ys sid num"
proof -
  have "find (\<lambda>e. un_id e = sid \<and> un_num e = num) xs = None"
    using assms by (auto simp: find_None_iff aoe_before_def)
  then show ?thesis by (simp add: ents_adj_def find_append)
qed

lemma ents_adj_other:
  assumes "\<not> (un_id e = d \<and> un_num e = n)"
  shows "ents_adj (xs @ e # ys) d n = ents_adj (xs @ ys) d n"
  using assms by (auto simp: ents_adj_def find_append split: option.split)

lemma ents_adj_Cons: "ents_adj (e # ys) d n = (if un_id e = d \<and> un_num e = n then sint (un_aoe e) else ents_adj ys d n)"
  by (simp add: ents_adj_def)

lemma ents_adj_after:
  assumes "sorted_wrt undo_less ys" "ys = [] \<or> \<not> aoe_before sid num (hd ys) \<and> \<not> (un_id (hd ys) = sid \<and> un_num (hd ys) = num)"
  shows "ents_adj ys sid num = 0"
proof -
  have "\<not> (un_id y = sid \<and> un_num y = num)" if "y \<in> set ys" for y
    using undo_lessD [OF undo_less_rest [OF assms that, of 0]] by simp
  then have "find (\<lambda>e. un_id e = sid \<and> un_num e = num) ys = None" by (auto simp: find_None_iff)
  then show ?thesis by (simp add: ents_adj_def)
qed

lemma ents_adj_gone:
  assumes "\<forall>y\<in>set ys. undo_less e y"
  shows "ents_adj ys (un_id e) (un_num e) = 0"
proof -
  have "find (\<lambda>f. un_id f = un_id e \<and> un_num f = un_num e) ys = None"
    using assms undo_lessD by (fastforce simp: find_None_iff)
  then show ?thesis by (simp add: ents_adj_def)
qed

lemma aoe_update_adj:
  assumes ok: "ents_ok si es" "aem_exact si" "\<not> aoe_out si val" "val \<noteq> 0"
    and r: "aoe_update si es val sid num = (r, es')"
  shows "ents_adj es' d n = ents_adj es d n - (if r = None \<and> d = sid \<and> n = num then sint val else 0)"
    and "r = (if ents_adj es sid num = 0 \<and> int (length es) \<ge> sint (si_semume si) then Some EINVAL
       else if \<bar>ents_adj es sid num - sint val\<bar> > sint (si_semaem si) then Some ERANGE else None)"
proof -
  have sv: "sint (- val) = - sint val" using aoe_out_minus(2) [OF aem_exact_ok ok(3)] ok(2) by blast
  have "ents_adj es' d n = ents_adj es d n - (if r = None \<and> d = sid \<and> n = num then sint val else 0) \<and>
    r = (if ents_adj es sid num = 0 \<and> int (length es) \<ge> sint (si_semume si) then Some EINVAL
       else if \<bar>ents_adj es sid num - sint val\<bar> > sint (si_semaem si) then Some ERANGE else None)"
  proof (cases rule: aoe_cases [where es = es and sid = sid and num = num])
    case (miss xs ys)
    have srt: "sorted_wrt undo_less ys" using ok(1) miss by (simp add: ents_ok_def sorted_wrt_append)
    have z: "ents_adj es sid num = 0"
      using ents_adj_before [OF miss(2)] ents_adj_after [OF srt miss(3)] miss(1) by simp
    have in_range: "\<not> \<bar>- sint val\<bar> > sint (si_semaem si)" using ok(3) by (simp add: aoe_out_abs)
    show ?thesis
      using r miss(1) z sv in_range ents_adj_before [OF miss(2)]
      by (auto simp: aoe_update_miss [OF miss(2,3)] ents_adj_Cons ents_adj_other split: if_splits)
  next
    case (hit xs e ys)
    have e: "un_aoe e \<noteq> 0" "\<not> aoe_out si (un_aoe e)" and gone: "\<forall>y\<in>set ys. undo_less e y"
      and len: "length es \<le> nat (sint (si_semume si))"
      using ok(1) hit by (auto simp: ents_ok_def sorted_wrt_append)
    have adj: "ents_adj es sid num = sint (un_aoe e)"
      using ents_adj_before [OF hit(2)] hit by (simp add: ents_adj_Cons)
    have nz: "sint (un_aoe e) \<noteq> 0" using e(1) sint_eq_iff [of "un_aoe e" 0] by simp
    have g: "ents_adj (xs @ ys) sid num = 0"
      using ents_adj_before [OF hit(2)] ents_adj_gone [OF gone] hit(3,4) by simp
    have oth: "ents_adj (xs @ e # ys) d n = ents_adj (xs @ ys) d n"
      "ents_adj (xs @ e\<lparr>un_aoe := a\<rparr> # ys) d n = ents_adj (xs @ ys) d n" if "\<not> (d = sid \<and> n = num)" for a
      using that hit(3,4) by (auto intro!: ents_adj_other)
    have new: "ents_adj (xs @ e\<lparr>un_aoe := a\<rparr> # ys) sid num = sint a" for a
      using ents_adj_before [OF hit(2)] hit(3,4) by (simp add: ents_adj_Cons)
    note out = aoe_out_sub [OF ok(2) e(2) ok(3)]
    have zero: "sint (un_aoe e) = sint val \<longleftrightarrow> un_aoe e - val = 0" by (simp add: sint_eq_iff)
    show ?thesis
      using r [unfolded hit(1) aoe_update_hit [OF hit(2-4)]] adj nz out oth g zero
      by (cases "d = sid \<and> n = num") (auto simp: Let_def hit(1) new split: if_splits)
  qed
  then show "ents_adj es' d n = ents_adj es d n - (if r = None \<and> d = sid \<and> n = num then sint val else 0)"
    "r = (if ents_adj es sid num = 0 \<and> int (length es) \<ge> sint (si_semume si) then Some EINVAL
       else if \<bar>ents_adj es sid num - sint val\<bar> > sint (si_semaem si) then Some ERANGE else None)"
    by blast+
qed

end
