(* ===== verification/Sleepq.thy ===== *)
theory Sleepq
  imports Kernel_Prelude
begin

text \<open>
  Threads and the sleep queues of \<open>os/sleepq.c\<close>. All sleepers of all condition variables and sleep
  channels that hash to the same bucket share one queue, ordered by dispatch priority.

  A queue linked through \<open>t_link\<close> is the list of its threads, named by numbers; the fields of the
  threads are in a table. Priorities are only compared, so they are unbounded integers.
\<close>

section \<open>Data\<close>

datatype tstate = TS_FREE | TS_SLEEP | TS_RUN | TS_ONPROC | TS_ZOMB | TS_STOPPED

text \<open>
  \<open>t_sobj_ops\<close> is the table of functions for what the thread sleeps on: none, that of condition
  variables or that of sleep channels.
\<close>

datatype sobj_ops = No_sops | Cv_sops | Sleep_sops

record kthread =
  t_pri :: int
  t_epri :: int
  t_wchan :: ulong
  t_wchan0 :: ulong
  t_state :: tstate
  t_wakeable :: bool
  t_sobj_ops :: sobj_ops
  t_schedflag :: "8 word"
  t_kpri_req :: int32
  t_whystop :: int32
  t_whatstop :: int32
  t_procp :: nat

definition DISP_PRIO :: "kthread \<Rightarrow> int" where
  "DISP_PRIO t = (if t_epri t \<noteq> 0 then t_epri t else t_pri t)"

record sq_state =
  threads :: "nat \<Rightarrow> kthread"
  sleepq_head :: "nat \<Rightarrow> nat list"
  cv_waiters :: "ulong \<Rightarrow> ushort"
  p_wcode :: "nat \<Rightarrow> int32"
  p_wdata :: "nat \<Rightarrow> int32"

section \<open>Sleep queues\<close>

fun sleepq_insert :: "(nat \<Rightarrow> int) \<Rightarrow> nat list \<Rightarrow> nat \<Rightarrow> nat list" where
  "sleepq_insert pri [] c = [c]"
| "sleepq_insert pri (tp # q) c = (if pri c > pri tp then c # tp # q else tp # sleepq_insert pri q c)"

text \<open>Taking one thread out of a queue; the flag tells whether it was there.\<close>

fun sleepq_dequeue :: "nat list \<Rightarrow> nat \<Rightarrow> bool \<times> nat list" where
  "sleepq_dequeue [] t = (False, [])"
| "sleepq_dequeue (nt # q) t =
    (if nt = t then (True, q) else (case sleepq_dequeue q t of (f, q') \<Rightarrow> (f, nt # q')))"

definition NSLEEPQ :: nat where "NSLEEPQ = 512"

definition sqhashindex :: "ulong \<Rightarrow> nat" where
  "sqhashindex x = unat ((drop_bit 2 x + drop_bit 9 x) AND 511)"

text \<open>
  A thread that is woken loses its wait channel and is handed to its scheduling class, which
  makes it runnable (\<open>CL_WAKEUP\<close>, \<open>CL_SETRUN\<close>).
\<close>

definition thread_wake :: "kthread \<Rightarrow> kthread" where
  "thread_wake t = t\<lparr>t_sobj_ops := No_sops, t_wchan := 0, t_wchan0 := 0, t_state := TS_RUN\<rparr>"

definition wake_chan :: "kthread \<Rightarrow> kthread" where
  "wake_chan t = t\<lparr>t_wchan := 0, t_sobj_ops := No_sops, t_state := TS_RUN\<rparr>"

definition sleepq_wakeone :: "(nat \<Rightarrow> kthread) \<Rightarrow> nat list \<Rightarrow> (nat \<Rightarrow> kthread) \<times> nat list" where
  "sleepq_wakeone th q = (case q of [] \<Rightarrow> (th, []) | tp # q' \<Rightarrow> (th(tp := thread_wake (th tp)), q'))"

fun sleepq_wakeall :: "(nat \<Rightarrow> kthread) \<Rightarrow> nat list \<Rightarrow> (nat \<Rightarrow> kthread) \<times> nat list" where
  "sleepq_wakeall th [] = (th, [])"
| "sleepq_wakeall th (tp # q) = sleepq_wakeall (th(tp := thread_wake (th tp))) q"

text \<open>Only the sleepers on one channel.\<close>

fun sleepq_wakeone_chan :: "(nat \<Rightarrow> kthread) \<Rightarrow> nat list \<Rightarrow> ulong \<Rightarrow> (nat \<Rightarrow> kthread) \<times> nat list" where
  "sleepq_wakeone_chan th [] chan = (th, [])"
| "sleepq_wakeone_chan th (tp # q) chan =
    (if t_wchan (th tp) = chan \<and> t_wchan0 (th tp) = 0
     then (th(tp := wake_chan (th tp)), q)
     else (case sleepq_wakeone_chan th q chan of (th', q') \<Rightarrow> (th', tp # q')))"

fun sleepq_wakeall_chan :: "(nat \<Rightarrow> kthread) \<Rightarrow> nat list \<Rightarrow> ulong \<Rightarrow> (nat \<Rightarrow> kthread) \<times> nat list" where
  "sleepq_wakeall_chan th [] chan = (th, [])"
| "sleepq_wakeall_chan th (tp # q) chan =
    (if t_wchan (th tp) = chan \<and> t_wchan0 (th tp) = 0
     then sleepq_wakeall_chan (th(tp := wake_chan (th tp))) q chan
     else (case sleepq_wakeall_chan th q chan of (th', q') \<Rightarrow> (th', tp # q')))"

lemma wake_chan_simps [simp]:
  "t_wchan (wake_chan t) = 0" "t_wchan0 (wake_chan t) = t_wchan0 t" "t_state (wake_chan t) = TS_RUN" "DISP_PRIO (wake_chan t) = DISP_PRIO t"
  "t_sobj_ops (wake_chan t) = No_sops"
  by (simp_all add: wake_chan_def DISP_PRIO_def)

lemma wake_chan_eq: "t_wchan0 t = 0 \<Longrightarrow> thread_wake t = wake_chan t"
  by (simp add: thread_wake_def wake_chan_def)

section \<open>Queues\<close>

lemma sleepq_insert_filter:
  assumes "sorted_wrt (\<lambda>s t. pri s \<ge> pri t) q"
  shows "sleepq_insert pri q c = filter (\<lambda>t. pri t \<ge> pri c) q @ c # filter (\<lambda>t. pri t < pri c) q"
  using assms
proof (induction q)
  case (Cons tp q)
  show ?case
  proof (cases "pri c > pri tp")
    case True
    then have "filter (\<lambda>t. pri t \<ge> pri c) q = []" "filter (\<lambda>t. pri t < pri c) q = q"
      using Cons.prems by (force intro!: filter_False filter_True)+
    with True show ?thesis by simp
  next
    case False
    with Cons show ?thesis by simp
  qed
qed simp

lemma sleepq_insert_set [simp]: "set (sleepq_insert pri q c) = insert c (set q)"
  by (induction q) auto

lemma sleepq_insert_length [simp]: "length (sleepq_insert pri q c) = Suc (length q)"
  by (induction q) auto

lemma sleepq_insert_distinct [simp]: "distinct (sleepq_insert pri q c) \<longleftrightarrow> distinct q \<and> c \<notin> set q"
  by (induction q) auto

lemma sleepq_insert_sorted:
  assumes "sorted_wrt (\<lambda>s t. pri s \<ge> pri t) q"
  shows "sorted_wrt (\<lambda>s t. pri s \<ge> (pri t :: int)) (sleepq_insert pri q c)"
  using assms by (auto simp: sleepq_insert_filter sorted_wrt_append sorted_wrt_filter)

lemma sleepq_insert_cong:
  "(\<And>t. t \<in> insert c (set q) \<Longrightarrow> pri t = pri' t) \<Longrightarrow> sleepq_insert pri q c = sleepq_insert pri' q c"
  by (induction q) auto

text \<open>Insertion into a shared queue is insertion into the part of each wait channel.\<close>

lemma filter_sleepq_insert:
  assumes "sorted_wrt (\<lambda>s t. pri s \<ge> pri t) q"
  shows "filter P (sleepq_insert pri q c) = (if P c then sleepq_insert pri (filter P q) c else filter P q)"
proof -
  have "sorted_wrt (\<lambda>s t. pri s \<ge> pri t) (filter P q)" using assms by (rule sorted_wrt_filter)
  moreover have "filter P (filter (\<lambda>t. pri t \<ge> pri c) q) @ filter P (filter (\<lambda>t. pri t < pri c) q) = filter P q"
    using assms
  proof (induction q)
    case (Cons x q)
    show ?case
    proof (cases "pri x \<ge> pri c")
      case False
      then have "filter (\<lambda>t. pri t \<ge> pri c) q = []" "filter (\<lambda>t. pri t < pri c) q = q"
        using Cons.prems by (force intro!: filter_False filter_True)+
      with False show ?thesis by simp
    qed (use Cons in simp)
  qed simp
  ultimately show ?thesis
    using assms by (simp add: sleepq_insert_filter filter_filter conj_commute)
qed

lemma sleepq_dequeue_spec: "sleepq_dequeue q t = (t \<in> set q, remove1 t q)"
  by (induction q) auto

lemma wakeone_spec:
  "sleepq_wakeone_chan th q chan =
    (case filter (\<lambda>t. t_wchan (th t) = chan \<and> t_wchan0 (th t) = 0) q of
       [] \<Rightarrow> (th, q)
     | tp # _ \<Rightarrow> (th(tp := wake_chan (th tp)), remove1 tp q))"
  by (induction q) (auto split: list.splits dest: filter_eq_ConsD)

lemma wakeall_spec:
  assumes "distinct q"
  shows "sleepq_wakeall_chan th q chan =
    (\<lambda>t. if t \<in> set q \<and> t_wchan (th t) = chan \<and> t_wchan0 (th t) = 0
         then wake_chan (th t) else th t,
     filter (\<lambda>t. \<not> (t_wchan (th t) = chan \<and> t_wchan0 (th t) = 0)) q)"
  using assms
proof (induction q arbitrary: th)
  case (Cons tp q)
  let ?th = "th(tp := wake_chan (th tp))"
  have "filter (\<lambda>t. \<not> (t_wchan (?th t) = chan \<and> t_wchan0 (?th t) = 0)) q =
      filter (\<lambda>t. \<not> (t_wchan (th t) = chan \<and> t_wchan0 (th t) = 0)) q"
    using Cons.prems by (intro filter_cong) auto
  then show ?case using Cons by (auto simp: fun_eq_iff)
qed simp

lemma sleepq_wakeall_spec: "sleepq_wakeall th q = (\<lambda>t. if t \<in> set q then thread_wake (th t) else th t, [])"
proof (induction q arbitrary: th)
  case (Cons tp q)
  have "thread_wake (thread_wake t) = thread_wake t" for t by (simp add: thread_wake_def)
  then show ?case using Cons by (auto simp: fun_eq_iff)
qed simp

end
