(* ===== verification/Condvar.thy ===== *)
theory Condvar
  imports Sleepq
begin

text \<open>
  Condition variables (\<open>uts/sparc/os/condvar.c\<close>) and sleep channels (\<open>os/tblock_chan.c\<close>) over the hashed
  sleep queues. A condition variable itself holds only the number of its sleepers, a sleep channel is
  any other address and holds nothing. The theorems show that each of them nevertheless behaves as a
  priority queue of its own, which is the view that the semaphore and message facilities take.
\<close>

section \<open>Condition variables\<close>

datatype kcv_type = CV_DEFAULT | CV_DRIVER | Other_type int32

definition cv_init :: "sq_state \<Rightarrow> ulong \<Rightarrow> kcv_type \<Rightarrow> sq_state kres" where
  "cv_init st cvp type = (case type of Other_type n \<Rightarrow> Panic ''cv_init: bad type''
     | _ \<Rightarrow> Ret (st\<lparr>cv_waiters := (cv_waiters st)(cvp := 0)\<rparr>))"

text \<open>\<open>addr\<close> is the memory that \<open>kmem_alloc\<close> gives, which sleeps until it has some.\<close>

definition cv_alloc :: "sq_state \<Rightarrow> ulong \<Rightarrow> kcv_type \<Rightarrow> (ulong \<times> sq_state) kres" where
  "cv_alloc st addr type = kbind (cv_init st addr type) (\<lambda>st'. Ret (addr, st'))"

abbreviation sq_prio :: "sq_state \<Rightarrow> nat \<Rightarrow> int" where
  "sq_prio st t \<equiv> DISP_PRIO (threads st t)"

text \<open>
  Blocking the running thread \<open>t\<close>. The scheduling class may raise its priority first
  (\<open>CL_SLEEP\<close>): \<open>kpri\<close> is the priority it assigns. \<open>cv_block_sig\<close> also marks the thread as one
  that a signal may wake.
\<close>

definition cv_block :: "sq_state \<Rightarrow> nat \<Rightarrow> int \<Rightarrow> ulong \<Rightarrow> sq_state" where
  "cv_block st t kpri cvp =
    (let th = (threads st)(t := (threads st t)\<lparr>t_pri := kpri, t_wchan := cvp, t_sobj_ops := Cv_sops, t_state := TS_SLEEP\<rparr>);
         b = sqhashindex cvp
     in st\<lparr>threads := th, cv_waiters := (cv_waiters st)(cvp := cv_waiters st cvp + 1),
          sleepq_head := (sleepq_head st)(b := sleepq_insert (\<lambda>x. DISP_PRIO (th x)) (sleepq_head st b) t)\<rparr>)"

definition set_wakeable :: "bool \<Rightarrow> sq_state \<Rightarrow> nat \<Rightarrow> sq_state" where
  "set_wakeable f st t = st\<lparr>threads := (threads st)(t := (threads st t)\<lparr>t_wakeable := f\<rparr>)\<rparr>"

definition cv_block_sig :: "sq_state \<Rightarrow> nat \<Rightarrow> int \<Rightarrow> ulong \<Rightarrow> sq_state" where
  "cv_block_sig st t kpri cvp = cv_block (set_wakeable True st t) t kpri cvp"

definition cv_signal :: "sq_state \<Rightarrow> ulong \<Rightarrow> sq_state" where
  "cv_signal st cvp =
    (if cv_waiters st cvp > 0 then
       let b = sqhashindex cvp in
       (case sleepq_wakeone_chan (threads st) (sleepq_head st b) cvp of (th, q) \<Rightarrow>
          st\<lparr>threads := th, cv_waiters := (cv_waiters st)(cvp := cv_waiters st cvp - 1),
             sleepq_head := (sleepq_head st)(b := q)\<rparr>)
     else st)"

definition cv_broadcast :: "sq_state \<Rightarrow> ulong \<Rightarrow> sq_state" where
  "cv_broadcast st cvp =
    (if cv_waiters st cvp > 0 then
       let b = sqhashindex cvp in
       (case sleepq_wakeall_chan (threads st) (sleepq_head st b) cvp of (th, q) \<Rightarrow>
          st\<lparr>threads := th, cv_waiters := (cv_waiters st)(cvp := 0),
             sleepq_head := (sleepq_head st)(b := q)\<rparr>)
     else st)"

text \<open>Waking one particular thread, as a signal or a timeout does.\<close>

definition cv_unsleep :: "sq_state \<Rightarrow> nat \<Rightarrow> sq_state kres" where
  "cv_unsleep st t =
    (let cvp = t_wchan (threads st t) in
     if cvp \<noteq> 0 then
       let b = sqhashindex cvp in
       (case sleepq_dequeue (sleepq_head st b) t of (found, q) \<Rightarrow>
          if found
          then Ret (st\<lparr>threads := (threads st)(t := thread_wake (threads st t)),
                  cv_waiters := (cv_waiters st)(cvp := cv_waiters st cvp - 1),
                  sleepq_head := (sleepq_head st)(b := q)\<rparr>)
          else Panic ''cv_unsleep: thread not on sleepq'')
     else Panic ''cv_unsleep: thread not on sleepq'')"

definition cv_changepri :: "sq_state \<Rightarrow> nat \<Rightarrow> int \<Rightarrow> sq_state kres" where
  "cv_changepri st t pri =
    (let cvp = t_wchan (threads st t) in
     if cvp \<noteq> 0 then
       let b = sqhashindex cvp;
           q = snd (sleepq_dequeue (sleepq_head st b) t);
           th = (threads st)(t := (threads st t)\<lparr>t_epri := pri\<rparr>)
       in Ret (st\<lparr>threads := th,
            sleepq_head := (sleepq_head st)(b := sleepq_insert (\<lambda>x. DISP_PRIO (th x)) q t)\<rparr>)
     else Panic ''cv_changepri: not on sleep queue'')"

section \<open>Sleep channels\<close>

definition t_block_chan :: "sq_state \<Rightarrow> nat \<Rightarrow> int \<Rightarrow> ulong \<Rightarrow> sq_state" where
  "t_block_chan st t kpri chan =
    (let th = (threads st)(t := (threads st t)\<lparr>t_pri := kpri, t_wchan := chan, t_sobj_ops := Sleep_sops, t_state := TS_SLEEP\<rparr>);
         b = sqhashindex chan
     in st\<lparr>threads := th, sleepq_head := (sleepq_head st)(b := sleepq_insert (\<lambda>x. DISP_PRIO (th x)) (sleepq_head st b) t)\<rparr>)"

definition t_block_sig_chan :: "sq_state \<Rightarrow> nat \<Rightarrow> int \<Rightarrow> ulong \<Rightarrow> sq_state" where
  "t_block_sig_chan st t kpri chan = t_block_chan (set_wakeable True st t) t kpri chan"

definition t_release_chan :: "sq_state \<Rightarrow> ulong \<Rightarrow> sq_state" where
  "t_release_chan st chan = (let b = sqhashindex chan in
     (case sleepq_wakeone_chan (threads st) (sleepq_head st b) chan of (th, q) \<Rightarrow>
        st\<lparr>threads := th, sleepq_head := (sleepq_head st)(b := q)\<rparr>))"

definition t_release_all_chan :: "sq_state \<Rightarrow> ulong \<Rightarrow> sq_state" where
  "t_release_all_chan st chan = (let b = sqhashindex chan in
     (case sleepq_wakeall_chan (threads st) (sleepq_head st b) chan of (th, q) \<Rightarrow>
        st\<lparr>threads := th, sleepq_head := (sleepq_head st)(b := q)\<rparr>))"

fun waitq_scan :: "(nat \<Rightarrow> kthread) \<Rightarrow> nat list \<Rightarrow> ulong \<Rightarrow> int32" where
  "waitq_scan th [] chan = 1"
| "waitq_scan th (tp # q) chan = (if t_wchan (th tp) = chan \<and> t_wchan0 (th tp) = 0 then 0 else waitq_scan th q chan)"

definition t_waitqempty_chan :: "sq_state \<Rightarrow> ulong \<Rightarrow> int32" where
  "t_waitqempty_chan st chan = waitq_scan (threads st) (sleepq_head st (sqhashindex chan)) chan"

definition unsleep :: "sq_state \<Rightarrow> nat \<Rightarrow> sq_state kres" where
  "unsleep st t =
    (let chan = t_wchan (threads st t) in
     if chan \<noteq> 0 then
       let b = sqhashindex chan in
       (case sleepq_dequeue (sleepq_head st b) t of (found, q) \<Rightarrow>
          if \<not> found then Panic ''unsleep: thread not on sleepq''
          else Ret (st\<lparr>threads := (threads st)(t := thread_wake (threads st t)), sleepq_head := (sleepq_head st)(b := q)\<rparr>))
     else Panic ''unsleep: thread not on sleepq'')"

definition changepri :: "sq_state \<Rightarrow> nat \<Rightarrow> int \<Rightarrow> sq_state kres" where
  "changepri st t pri =
    (let chan = t_wchan (threads st t) in
     if chan \<noteq> 0 then
       let b = sqhashindex chan;
           q = snd (sleepq_dequeue (sleepq_head st b) t);
           th = (threads st)(t := (threads st t)\<lparr>t_epri := pri\<rparr>)
       in Ret (st\<lparr>threads := th,
            sleepq_head := (sleepq_head st)(b := sleepq_insert (\<lambda>x. DISP_PRIO (th x)) q t)\<rparr>)
     else Panic ''changepri: not on a sleep queue'')"

section \<open>Making a thread run\<close>

text \<open>
  \<open>setrun_locked\<close> of \<open>os/slp.c\<close>: a sleeping thread leaves its queue by the function of what it sleeps on;
  one that runs stays as it is; a stopped one runs when everyone who can have stopped it agrees.
\<close>

definition TS_CSTART :: "8 word" where "TS_CSTART = 2"
definition TS_XSTART :: "8 word" where "TS_XSTART = 4"
definition TS_PSTART :: "8 word" where "TS_PSTART = 8"
definition TS_DONT_SWAP :: "8 word" where "TS_DONT_SWAP = 16"
definition TS_RESUME :: "8 word" where "TS_RESUME = 32"
definition TS_ALLSTART :: "8 word" where "TS_ALLSTART = TS_CSTART OR TS_XSTART OR TS_PSTART OR TS_RESUME"

definition SOBJ_UNSLEEP :: "sobj_ops \<Rightarrow> sq_state \<Rightarrow> nat \<Rightarrow> sq_state kres" where
  "SOBJ_UNSLEEP ops st t = (case ops of No_sops \<Rightarrow> Fault | Cv_sops \<Rightarrow> cv_unsleep st t | Sleep_sops \<Rightarrow> unsleep st t)"

definition setrun_stopped :: "sq_state \<Rightarrow> nat \<Rightarrow> sq_state" where
  "setrun_stopped st t =
    (let k = threads st t in
     if t_schedflag k AND TS_ALLSTART \<noteq> TS_ALLSTART then st
     else st\<lparr>p_wcode := (p_wcode st)(t_procp k := 0), p_wdata := (p_wdata st)(t_procp k := 0),
        threads := (threads st)(t := k\<lparr>t_whystop := 0, t_whatstop := 0, t_schedflag := t_schedflag k AND NOT TS_ALLSTART, t_state := TS_RUN\<rparr>)\<rparr>)"

definition setrun_locked :: "sq_state \<Rightarrow> nat \<Rightarrow> sq_state kres" where
  "setrun_locked st t =
    (let k = threads st t in
     if t_state k = TS_SLEEP then SOBJ_UNSLEEP (t_sobj_ops k) st t
     else if t_state k = TS_RUN \<or> t_state k = TS_ONPROC then Ret st
     else if t_state k = TS_STOPPED then Ret (setrun_stopped st t)
     else Ret st)"

definition setrun :: "sq_state \<Rightarrow> nat \<Rightarrow> sq_state kres" where
  "setrun st t = setrun_locked st t"

section \<open>Invariant\<close>

text \<open>
  Each bucket holds, in order of priority, exactly the threads asleep at an address that hashes to
  it; \<open>ch\<close> tells which addresses are sleep channels. Each condition variable counts its sleepers, and
  each sleeper knows the functions of what it sleeps on.
\<close>

definition waiters :: "sq_state \<Rightarrow> ulong \<Rightarrow> nat list" where
  "waiters st cvp = filter (\<lambda>t. t_wchan (threads st t) = cvp) (sleepq_head st (sqhashindex cvp))"

definition sops_of :: "(ulong \<Rightarrow> bool) \<Rightarrow> ulong \<Rightarrow> sobj_ops" where
  "sops_of ch c = (if ch c then Sleep_sops else Cv_sops)"

definition sq_wf :: "(ulong \<Rightarrow> bool) \<Rightarrow> sq_state \<Rightarrow> bool" where
  "sq_wf ch st \<longleftrightarrow>
    (\<forall>b. distinct (sleepq_head st b) \<and> sorted_wrt (\<lambda>s t. sq_prio st s \<ge> sq_prio st t) (sleepq_head st b)) \<and>
    (\<forall>b t. t \<in> set (sleepq_head st b) \<longleftrightarrow>
       t_state (threads st t) = TS_SLEEP \<and> sqhashindex (t_wchan (threads st t)) = b) \<and>
    (\<forall>t. t_state (threads st t) = TS_SLEEP \<longleftrightarrow> t_wchan (threads st t) \<noteq> 0) \<and>
    (\<forall>t. t_wchan0 (threads st t) = 0) \<and>
    (\<forall>cvp. cvp \<noteq> 0 \<and> \<not> ch cvp \<longrightarrow> unat (cv_waiters st cvp) = length (waiters st cvp)) \<and>
    (\<forall>t. t_state (threads st t) = TS_SLEEP \<longrightarrow> t_sobj_ops (threads st t) = sops_of ch (t_wchan (threads st t)))"

lemma sq_wfD:
  assumes "sq_wf ch st"
  shows "distinct (sleepq_head st b)" and "sorted_wrt (\<lambda>s t. sq_prio st s \<ge> sq_prio st t) (sleepq_head st b)"
    and "t \<in> set (sleepq_head st b) \<longleftrightarrow> t_state (threads st t) = TS_SLEEP \<and> sqhashindex (t_wchan (threads st t)) = b"
    and "t_state (threads st t) = TS_SLEEP \<longleftrightarrow> t_wchan (threads st t) \<noteq> 0"
    and "t_wchan0 (threads st t) = 0"
    and "cvp \<noteq> 0 \<Longrightarrow> \<not> ch cvp \<Longrightarrow> unat (cv_waiters st cvp) = length (waiters st cvp)"
    and "t_state (threads st t) = TS_SLEEP \<Longrightarrow> t_sobj_ops (threads st t) = sops_of ch (t_wchan (threads st t))"
  using assms unfolding sq_wf_def by blast+

lemma waiters_iff: "sq_wf ch st \<Longrightarrow> cvp \<noteq> 0 \<Longrightarrow> t \<in> set (waiters st cvp) \<longleftrightarrow> t_wchan (threads st t) = cvp"
  using sq_wfD(3,4) [of ch st] by (auto simp: waiters_def)

lemma distinct_waiters: "sq_wf ch st \<Longrightarrow> distinct (waiters st cvp)"
  using sq_wfD(1) by (auto simp: waiters_def)

section \<open>Each address as a queue of its own\<close>

lemma filter_remove1_other: "\<not> P t \<Longrightarrow> filter P (remove1 t q) = filter P q"
  by (induction q) auto

text \<open>The common part of blocking, on a condition variable or a sleep channel.\<close>

lemma block_wf:
  assumes wf: "sq_wf ch st" and cv: "cvp \<noteq> 0" and t: "t_state (threads st t) \<noteq> TS_SLEEP"
    and ts: "\<And>x. threads st' x = (if x = t then (threads st t)\<lparr>t_pri := kpri, t_wchan := cvp, t_sobj_ops := sops_of ch cvp, t_state := TS_SLEEP\<rparr>
      else threads st x)"
    and q: "\<And>a. sleepq_head st' a = (if a = sqhashindex cvp then sleepq_insert (sq_prio st') (sleepq_head st a) t else sleepq_head st a)"
    and n: "\<And>c. \<not> ch c \<Longrightarrow> cv_waiters st' c = (if c = cvp then cv_waiters st c + 1 else cv_waiters st c)"
    and room: "\<not> ch cvp \<Longrightarrow> length (waiters st cvp) < 65535"
  shows "sq_wf ch st'" and "waiters st' cvp = sleepq_insert (sq_prio st') (waiters st cvp) t"
    and "c \<noteq> cvp \<Longrightarrow> waiters st' c = waiters st c"
proof -
  note w = sq_wfD [OF wf]
  have tc: "t_wchan (threads st' t) = cvp" by (simp add: ts)
  have notin: "t \<notin> set (sleepq_head st a)" for a using w(3) t by blast
  have srt: "sorted_wrt (\<lambda>x y. sq_prio st' x \<ge> sq_prio st' y) (sleepq_head st a)" for a
  proof -
    have "sq_prio st' x = sq_prio st x" if "x \<in> set (sleepq_head st a)" for x
      using that notin ts by auto
    then show ?thesis using w(2) [of a] by (auto elim!: sorted_wrt_mono_rel [rotated])
  qed
  have wq: "waiters st' c = (if c = cvp then sleepq_insert (sq_prio st') (waiters st cvp) t else waiters st c)" for c
  proof -
    have f: "filter (\<lambda>x. t_wchan (threads st' x) = c) (sleepq_head st a) =
        filter (\<lambda>x. t_wchan (threads st x) = c) (sleepq_head st a)" for a c
      using notin by (intro filter_cong) (auto simp: ts)
    show ?thesis
      unfolding waiters_def q using tc by (auto simp: filter_sleepq_insert [OF srt] f)
  qed
  show "waiters st' cvp = sleepq_insert (sq_prio st') (waiters st cvp) t" by (simp add: wq)
  show "waiters st' c = waiters st c" if "c \<noteq> cvp" using that by (simp add: wq)
  show "sq_wf ch st'"
    unfolding sq_wf_def
  proof (intro conjI allI impI)
    fix a x c
    show "distinct (sleepq_head st' a)" using w(1) notin by (simp add: q)
    show "sorted_wrt (\<lambda>s t. sq_prio st' s \<ge> sq_prio st' t) (sleepq_head st' a)"
      using srt by (simp add: q sleepq_insert_sorted)
    show "x \<in> set (sleepq_head st' a) \<longleftrightarrow>
        t_state (threads st' x) = TS_SLEEP \<and> sqhashindex (t_wchan (threads st' x)) = a"
      using w(3) notin by (auto simp: q ts)
    show "t_state (threads st' x) = TS_SLEEP \<longleftrightarrow> t_wchan (threads st' x) \<noteq> 0"
      using w(4) cv by (simp add: ts)
    show "t_wchan0 (threads st' x) = 0" using w(5) by (simp add: ts)
    show "t_sobj_ops (threads st' x) = sops_of ch (t_wchan (threads st' x))" if "t_state (threads st' x) = TS_SLEEP"
      using that w(7) by (auto simp: ts split: if_splits)
    assume c: "c \<noteq> 0 \<and> \<not> ch c"
    have "unat (cv_waiters st cvp + 1) = Suc (length (waiters st cvp))" if "\<not> ch cvp"
      using w(6) [OF cv that] room [OF that] by (simp add: unat_add_nowrap)
    then show "unat (cv_waiters st' c) = length (waiters st' c)"
      using w(6) [of c] c by (auto simp: wq n)
  qed
qed

lemma cv_block_refines:
  assumes "sq_wf ch st" "cvp \<noteq> 0" "\<not> ch cvp" "t_state (threads st t) \<noteq> TS_SLEEP" "length (waiters st cvp) < 65535"
  shows "sq_wf ch (cv_block st t kpri cvp)"
    and "waiters (cv_block st t kpri cvp) cvp = sleepq_insert (sq_prio (cv_block st t kpri cvp)) (waiters st cvp) t"
    and "c \<noteq> cvp \<Longrightarrow> waiters (cv_block st t kpri cvp) c = waiters st c"
  by (rule block_wf [OF assms(1,2,4), where st' = "cv_block st t kpri cvp" and kpri = kpri];
    use assms in \<open>simp add: cv_block_def Let_def sops_of_def\<close>)+

lemma t_block_chan_refines:
  assumes "sq_wf ch st" "chan \<noteq> 0" "ch chan" "t_state (threads st t) \<noteq> TS_SLEEP"
  shows "sq_wf ch (t_block_chan st t kpri chan)"
    and "waiters (t_block_chan st t kpri chan) chan = sleepq_insert (sq_prio (t_block_chan st t kpri chan)) (waiters st chan) t"
    and "c \<noteq> chan \<Longrightarrow> waiters (t_block_chan st t kpri chan) c = waiters st c"
  by (rule block_wf [OF assms(1,2,4), where st' = "t_block_chan st t kpri chan" and kpri = kpri];
    use assms in \<open>auto simp: t_block_chan_def Let_def sops_of_def\<close>)+

text \<open>The common part of every wakeup: the woken threads leave the queues, the rest stays.\<close>

lemma wake_wf:
  assumes wf: "sq_wf ch st" and cv: "cvp \<noteq> 0"
    and W: "W \<subseteq> set (waiters st cvp)"
    and th: "\<And>x. threads st' x = (if x \<in> W then wake_chan (threads st x) else threads st x)"
    and q: "\<And>a. sleepq_head st' a = filter (\<lambda>x. x \<notin> W) (sleepq_head st a)"
    and n: "\<And>c. \<not> ch c \<Longrightarrow> cv_waiters st' c =
      (if c = cvp then of_nat (length (filter (\<lambda>x. x \<notin> W) (waiters st cvp))) else cv_waiters st c)"
  shows "sq_wf ch st'" and "waiters st' cvp = filter (\<lambda>x. x \<notin> W) (waiters st cvp)"
    and "c \<noteq> cvp \<Longrightarrow> c \<noteq> 0 \<Longrightarrow> waiters st' c = waiters st c"
proof -
  note w = sq_wfD [OF wf]
  have onW: "t_wchan (threads st x) = cvp" "t_state (threads st x) = TS_SLEEP" if "x \<in> W" for x
  proof -
    have "x \<in> set (waiters st cvp)" using that W by blast
    then show "t_wchan (threads st x) = cvp" by (simp add: waiters_iff [OF wf cv])
    then show "t_state (threads st x) = TS_SLEEP" using w(4) [of x] cv by simp
  qed
  have wq: "waiters st' c = filter (\<lambda>x. x \<notin> W) (waiters st c)" for c
    unfolding waiters_def q filter_filter using th by (intro filter_cong) auto
  have other: "waiters st' c = waiters st c" if "c \<noteq> cvp" "c \<noteq> 0" for c
  proof -
    have "x \<notin> W" if "x \<in> set (waiters st c)" for x
      using that onW waiters_iff [OF wf \<open>c \<noteq> 0\<close>] \<open>c \<noteq> cvp\<close> by auto
    then show ?thesis by (auto simp: wq intro: filter_True)
  qed
  show "waiters st' cvp = filter (\<lambda>x. x \<notin> W) (waiters st cvp)" by (rule wq)
  show "waiters st' c = waiters st c" if "c \<noteq> cvp" "c \<noteq> 0" using other that by blast
  have prio: "sq_prio st' x = sq_prio st x" for x by (simp add: th)
  show "sq_wf ch st'"
    unfolding sq_wf_def
  proof (intro conjI allI impI)
    fix a x c
    show "distinct (sleepq_head st' a)" using w(1) by (simp add: q)
    show "sorted_wrt (\<lambda>s t. sq_prio st' s \<ge> sq_prio st' t) (sleepq_head st' a)"
      using w(2) by (simp add: q prio sorted_wrt_filter)
    show "x \<in> set (sleepq_head st' a) \<longleftrightarrow>
        t_state (threads st' x) = TS_SLEEP \<and> sqhashindex (t_wchan (threads st' x)) = a"
      using w(3) by (auto simp: q th)
    show "t_state (threads st' x) = TS_SLEEP \<longleftrightarrow> t_wchan (threads st' x) \<noteq> 0"
      using w(4) by (simp add: th)
    show "t_wchan0 (threads st' x) = 0" using w(5) by (simp add: th)
    show "t_sobj_ops (threads st' x) = sops_of ch (t_wchan (threads st' x))" if "t_state (threads st' x) = TS_SLEEP"
      using that w(7) by (auto simp: th split: if_splits)
    assume c: "c \<noteq> 0 \<and> \<not> ch c"
    have "length (filter (\<lambda>x. x \<notin> W) (waiters st cvp)) < 65536" if "\<not> ch cvp"
      using w(6) [OF cv that] unat_bound [of "cv_waiters st cvp"]
      by (intro le_less_trans [OF length_filter_le]) simp
    then show "unat (cv_waiters st' c) = length (waiters st' c)"
      using w(6) [of c] other [of c] c by (auto simp: n wq unsigned_of_nat take_bit_nat_eq_self)
  qed
qed

lemma waiters_filter: "sq_wf ch st \<Longrightarrow>
  filter (\<lambda>t. t_wchan (threads st t) = cvp \<and> t_wchan0 (threads st t) = 0) (sleepq_head st (sqhashindex cvp)) = waiters st cvp"
  by (simp add: waiters_def sq_wfD(5))

lemma bucket_of_waiter:
  assumes "sq_wf ch st" "cvp \<noteq> 0" "x \<in> set (waiters st cvp)" "a \<noteq> sqhashindex cvp"
  shows "x \<notin> set (sleepq_head st a)"
  using assms sq_wfD(3) [OF assms(1)] waiters_iff [OF assms(1,2)] by auto

lemma remove1_filter: "distinct q \<Longrightarrow> remove1 t q = filter (\<lambda>x. x \<notin> {t}) q"
  by (simp add: distinct_remove1_removeAll removeAll_filter_not_eq) (metis (full_types))

text \<open>Taking one thread out of its bucket, and the count of a condition variable that loses a thread.\<close>

lemma bucket_remove:
  assumes wf: "sq_wf ch st" and cv: "cvp \<noteq> 0" and t: "t \<in> set (waiters st cvp)"
  shows "((sleepq_head st)(sqhashindex cvp := remove1 t (sleepq_head st (sqhashindex cvp)))) a = filter (\<lambda>x. x \<notin> {t}) (sleepq_head st a)"
proof (cases "a = sqhashindex cvp")
  case False
  then have "t \<notin> set (sleepq_head st a)" using bucket_of_waiter [OF wf cv t] by simp
  then have "filter (\<lambda>x. x \<notin> {t}) (sleepq_head st a) = sleepq_head st a" by (intro filter_True) auto
  with False show ?thesis by simp
qed (simp only: fun_upd_same remove1_filter [OF sq_wfD(1) [OF wf]])

lemma count_remove:
  assumes wf: "sq_wf ch st" and cv: "cvp \<noteq> 0" "\<not> ch cvp" and t: "t \<in> set (waiters st cvp)"
  shows "cv_waiters st cvp - 1 = of_nat (length (filter (\<lambda>x. x \<notin> {t}) (waiters st cvp)))"
proof -
  have "cv_waiters st cvp = of_nat (length (waiters st cvp))"
    using arg_cong [OF sq_wfD(6) [OF wf cv], of "of_nat :: nat \<Rightarrow> ushort"] by (simp del: of_nat_eq_iff)
  moreover have "length (waiters st cvp) = Suc (length (remove1 t (waiters st cvp)))"
    using t length_pos_if_in_set [OF t] by (simp add: length_remove1)
  ultimately have "cv_waiters st cvp - 1 = of_nat (length (remove1 t (waiters st cvp)))"
    by (simp only: of_nat_Suc add_diff_cancel_left')
  then show ?thesis by (simp only: remove1_filter [OF distinct_waiters [OF wf]])
qed

text \<open>The first sleeper at an address wakes.\<close>

lemma wakeone_wf:
  assumes wf: "sq_wf ch st" and cv: "cvp \<noteq> 0" and ne: "waiters st cvp = t # ws"
    and r: "(threads st', sleepq_head st' (sqhashindex cvp)) = sleepq_wakeone_chan (threads st) (sleepq_head st (sqhashindex cvp)) cvp"
      "\<And>a. a \<noteq> sqhashindex cvp \<Longrightarrow> sleepq_head st' a = sleepq_head st a"
    and n: "\<And>c. \<not> ch c \<Longrightarrow> cv_waiters st' c = (if c = cvp then cv_waiters st c - 1 else cv_waiters st c)"
  shows "sq_wf ch st'" and "waiters st' cvp = tl (waiters st cvp)"
    and "c \<noteq> cvp \<Longrightarrow> c \<noteq> 0 \<Longrightarrow> waiters st' c = waiters st c"
    and "threads st' x = (if waiters st cvp \<noteq> [] \<and> x = hd (waiters st cvp) then wake_chan (threads st x) else threads st x)"
proof -
  have t: "t \<in> set (waiters st cvp)" using ne by simp
  have s: "threads st' = (threads st)(t := wake_chan (threads st t))" "sleepq_head st' (sqhashindex cvp) = remove1 t (sleepq_head st (sqhashindex cvp))"
    using r(1) ne by (simp_all add: wakeone_spec waiters_filter [OF wf])
  have q: "sleepq_head st' a = filter (\<lambda>x. x \<notin> {t}) (sleepq_head st a)" for a
    using bucket_remove [OF wf cv t, of a] s(2) r(2) [of a] by (cases "a = sqhashindex cvp") auto
  have c: "cv_waiters st' c = (if c = cvp then of_nat (length (filter (\<lambda>x. x \<notin> {t}) (waiters st cvp))) else cv_waiters st c)" if "\<not> ch c" for c
    using n [OF that] count_remove [OF wf cv _ t] that by (cases "c = cvp") simp_all
  have th: "threads st' x = (if x \<in> {t} then wake_chan (threads st x) else threads st x)" for x by (simp add: s(1))
  have tl: "filter (\<lambda>x. x \<notin> {t}) (waiters st cvp) = tl (waiters st cvp)"
    using distinct_waiters [OF wf, of cvp] ne by (auto intro: filter_True)
  have W: "{t} \<subseteq> set (waiters st cvp)" using t by simp
  note k = wake_wf [OF wf cv W th q c]
  show "sq_wf ch st'" "c \<noteq> cvp \<Longrightarrow> c \<noteq> 0 \<Longrightarrow> waiters st' c = waiters st c" using k(1,3) by blast+
  show "waiters st' cvp = tl (waiters st cvp)" using k(2) tl by simp
  show "threads st' x = (if waiters st cvp \<noteq> [] \<and> x = hd (waiters st cvp) then wake_chan (threads st x) else threads st x)"
    using ne by (simp add: s(1))
qed

text \<open>All sleepers at an address wake.\<close>

lemma wakeall_wf:
  assumes wf: "sq_wf ch st" and cv: "cvp \<noteq> 0"
    and r: "(threads st', sleepq_head st' (sqhashindex cvp)) = sleepq_wakeall_chan (threads st) (sleepq_head st (sqhashindex cvp)) cvp"
      "\<And>a. a \<noteq> sqhashindex cvp \<Longrightarrow> sleepq_head st' a = sleepq_head st a"
    and n: "\<And>c. \<not> ch c \<Longrightarrow> cv_waiters st' c = (if c = cvp then 0 else cv_waiters st c)"
  shows "sq_wf ch st'" and "waiters st' cvp = []"
    and "c \<noteq> cvp \<Longrightarrow> c \<noteq> 0 \<Longrightarrow> waiters st' c = waiters st c"
    and "threads st' x = (if x \<in> set (waiters st cvp) then wake_chan (threads st x) else threads st x)"
proof -
  let ?W = "set (waiters st cvp)"
  note w = sq_wfD [OF wf]
  have th: "threads st' x = (if x \<in> ?W then wake_chan (threads st x) else threads st x)" for x
    using r(1) w(5) by (auto simp: wakeall_spec [OF w(1)] waiters_def)
  have f: "filter (\<lambda>x. t_wchan (threads st x) \<noteq> cvp) (sleepq_head st (sqhashindex cvp)) =
      filter (\<lambda>x. x \<notin> ?W) (sleepq_head st (sqhashindex cvp))"
    by (intro filter_cong) (auto simp: waiters_def)
  have q: "sleepq_head st' a = filter (\<lambda>x. x \<notin> ?W) (sleepq_head st a)" for a
  proof (cases "a = sqhashindex cvp")
    case True
    then show ?thesis using r(1) w(5) f by (simp add: wakeall_spec [OF w(1)])
  next
    case False
    then have "filter (\<lambda>x. x \<notin> ?W) (sleepq_head st a) = sleepq_head st a"
      using bucket_of_waiter [OF wf cv] by (intro filter_True) blast
    with False show ?thesis using r(2) by simp
  qed
  have none: "filter (\<lambda>x. x \<notin> ?W) (waiters st cvp) = []" by (intro filter_False) blast
  have c: "cv_waiters st' c = (if c = cvp then of_nat (length (filter (\<lambda>x. x \<notin> ?W) (waiters st cvp))) else cv_waiters st c)" if "\<not> ch c" for c
    using n [OF that] none by simp
  note k = wake_wf [OF wf cv subset_refl th q c]
  show "sq_wf ch st'" "c \<noteq> cvp \<Longrightarrow> c \<noteq> 0 \<Longrightarrow> waiters st' c = waiters st c" using k(1,3) by blast+
  show "waiters st' cvp = []" using k(2) none by simp
  show "threads st' x = (if x \<in> ?W then wake_chan (threads st x) else threads st x)" by (rule th)
qed

lemma cv_signal_refines:
  assumes wf: "sq_wf ch st" and cv: "cvp \<noteq> 0" "\<not> ch cvp"
  shows "sq_wf ch (cv_signal st cvp)" and "waiters (cv_signal st cvp) cvp = tl (waiters st cvp)"
    and "c \<noteq> cvp \<Longrightarrow> c \<noteq> 0 \<Longrightarrow> waiters (cv_signal st cvp) c = waiters st c"
    and "threads (cv_signal st cvp) x = (if waiters st cvp \<noteq> [] \<and> x = hd (waiters st cvp)
      then wake_chan (threads st x) else threads st x)"
proof -
  have n: "cv_waiters st cvp > 0 \<longleftrightarrow> waiters st cvp \<noteq> []"
    using sq_wfD(6) [OF wf cv] by (metis length_greater_0_conv unat_gt_0 word_gt_0)
  have "sq_wf ch (cv_signal st cvp) \<and> waiters (cv_signal st cvp) cvp = tl (waiters st cvp) \<and>
    (c \<noteq> cvp \<longrightarrow> c \<noteq> 0 \<longrightarrow> waiters (cv_signal st cvp) c = waiters st c) \<and>
    threads (cv_signal st cvp) x = (if waiters st cvp \<noteq> [] \<and> x = hd (waiters st cvp) then wake_chan (threads st x) else threads st x)"
  proof (cases "waiters st cvp")
    case Nil
    then show ?thesis using n wf by (simp add: cv_signal_def)
  next
    case (Cons t ws)
    note k = wakeone_wf [OF wf cv(1) Cons, where st' = "cv_signal st cvp"]
    show ?thesis
      by (intro conjI impI; rule k) (use n Cons in \<open>auto simp: cv_signal_def Let_def split: prod.splits\<close>)
  qed
  then show "sq_wf ch (cv_signal st cvp)" "waiters (cv_signal st cvp) cvp = tl (waiters st cvp)"
    "c \<noteq> cvp \<Longrightarrow> c \<noteq> 0 \<Longrightarrow> waiters (cv_signal st cvp) c = waiters st c"
    "threads (cv_signal st cvp) x = (if waiters st cvp \<noteq> [] \<and> x = hd (waiters st cvp) then wake_chan (threads st x) else threads st x)"
    by blast+
qed

lemma cv_broadcast_refines:
  assumes wf: "sq_wf ch st" and cv: "cvp \<noteq> 0" "\<not> ch cvp"
  shows "sq_wf ch (cv_broadcast st cvp)" and "waiters (cv_broadcast st cvp) cvp = []"
    and "c \<noteq> cvp \<Longrightarrow> c \<noteq> 0 \<Longrightarrow> waiters (cv_broadcast st cvp) c = waiters st c"
    and "threads (cv_broadcast st cvp) x = (if x \<in> set (waiters st cvp) then wake_chan (threads st x) else threads st x)"
proof -
  have n: "cv_waiters st cvp > 0 \<longleftrightarrow> waiters st cvp \<noteq> []"
    using sq_wfD(6) [OF wf cv] by (metis length_greater_0_conv unat_gt_0 word_gt_0)
  note k = wakeall_wf [OF wf cv(1), where st' = "cv_broadcast st cvp"]
  have "sq_wf ch (cv_broadcast st cvp) \<and> waiters (cv_broadcast st cvp) cvp = [] \<and>
    (c \<noteq> cvp \<longrightarrow> c \<noteq> 0 \<longrightarrow> waiters (cv_broadcast st cvp) c = waiters st c) \<and>
    threads (cv_broadcast st cvp) x = (if x \<in> set (waiters st cvp) then wake_chan (threads st x) else threads st x)"
  proof (cases "waiters st cvp = []")
    case True
    then show ?thesis using n wf by (simp add: cv_broadcast_def)
  next
    case False
    then show ?thesis
      by (intro conjI impI; intro k) (use n False in \<open>auto simp: cv_broadcast_def Let_def split: prod.splits\<close>)
  qed
  then show "sq_wf ch (cv_broadcast st cvp)" "waiters (cv_broadcast st cvp) cvp = []"
    "c \<noteq> cvp \<Longrightarrow> c \<noteq> 0 \<Longrightarrow> waiters (cv_broadcast st cvp) c = waiters st c"
    "threads (cv_broadcast st cvp) x = (if x \<in> set (waiters st cvp) then wake_chan (threads st x) else threads st x)"
    by blast+
qed

text \<open>The same for the sleep channels, which have no count.\<close>

lemma t_release_chan_refines:
  assumes wf: "sq_wf ch st" and chan: "chan \<noteq> 0" "ch chan"
  shows "sq_wf ch (t_release_chan st chan)" and "waiters (t_release_chan st chan) chan = tl (waiters st chan)"
    and "c \<noteq> chan \<Longrightarrow> c \<noteq> 0 \<Longrightarrow> waiters (t_release_chan st chan) c = waiters st c"
    and "threads (t_release_chan st chan) x = (if waiters st chan \<noteq> [] \<and> x = hd (waiters st chan)
      then wake_chan (threads st x) else threads st x)"
proof -
  have "sq_wf ch (t_release_chan st chan) \<and> waiters (t_release_chan st chan) chan = tl (waiters st chan) \<and>
    (c \<noteq> chan \<longrightarrow> c \<noteq> 0 \<longrightarrow> waiters (t_release_chan st chan) c = waiters st c) \<and>
    threads (t_release_chan st chan) x = (if waiters st chan \<noteq> [] \<and> x = hd (waiters st chan) then wake_chan (threads st x) else threads st x)"
  proof (cases "waiters st chan")
    case Nil
    then have "t_release_chan st chan = st" by (simp add: t_release_chan_def Let_def wakeone_spec waiters_filter [OF wf])
    then show ?thesis using wf Nil by simp
  next
    case (Cons t ws)
    note k = wakeone_wf [OF wf chan(1) Cons, where st' = "t_release_chan st chan"]
    show ?thesis
      by (intro conjI impI; rule k) (use chan in \<open>auto simp: t_release_chan_def Let_def split: prod.splits\<close>)
  qed
  then show "sq_wf ch (t_release_chan st chan)" "waiters (t_release_chan st chan) chan = tl (waiters st chan)"
    "c \<noteq> chan \<Longrightarrow> c \<noteq> 0 \<Longrightarrow> waiters (t_release_chan st chan) c = waiters st c"
    "threads (t_release_chan st chan) x = (if waiters st chan \<noteq> [] \<and> x = hd (waiters st chan) then wake_chan (threads st x) else threads st x)"
    by blast+
qed

lemma t_release_all_chan_refines:
  assumes "sq_wf ch st" "chan \<noteq> 0" "ch chan"
  shows "sq_wf ch (t_release_all_chan st chan)" and "waiters (t_release_all_chan st chan) chan = []"
    and "c \<noteq> chan \<Longrightarrow> c \<noteq> 0 \<Longrightarrow> waiters (t_release_all_chan st chan) c = waiters st c"
    and "threads (t_release_all_chan st chan) x = (if x \<in> set (waiters st chan) then wake_chan (threads st x) else threads st x)"
  by (rule wakeall_wf [OF assms(1,2), where st' = "t_release_all_chan st chan"];
    use assms in \<open>auto simp: t_release_all_chan_def Let_def split: prod.splits\<close>)+

lemma waitqempty_iff: "sq_wf ch st \<Longrightarrow> t_waitqempty_chan st chan = (if waiters st chan = [] then 1 else 0)"
proof -
  have "waitq_scan th q chan = (if filter (\<lambda>t. t_wchan (th t) = chan \<and> t_wchan0 (th t) = 0) q = [] then 1 else 0)" for th q
    by (induction q) simp_all
  then show "sq_wf ch st \<Longrightarrow> t_waitqempty_chan st chan = (if waiters st chan = [] then 1 else 0)"
    by (simp add: t_waitqempty_chan_def waiters_filter)
qed

section \<open>One thread\<close>

text \<open>A sleeping thread is always found in its queue, whatever it sleeps on.\<close>

lemma sobj_unsleep_refines:
  assumes wf: "sq_wf ch st" and asleep: "t_state (threads st t) = TS_SLEEP"
  defines "c0 \<equiv> t_wchan (threads st t)"
  shows "\<exists>st'. SOBJ_UNSLEEP (t_sobj_ops (threads st t)) st t = Ret st' \<and> sq_wf ch st' \<and> waiters st' c0 = remove1 t (waiters st c0) \<and>
    (\<forall>c. c \<noteq> c0 \<longrightarrow> c \<noteq> 0 \<longrightarrow> waiters st' c = waiters st c) \<and> threads st' = (threads st)(t := wake_chan (threads st t))"
proof -
  note w = sq_wfD [OF wf]
  have cv: "c0 \<noteq> 0" using w(4) asleep by (simp add: c0_def)
  have t: "t \<in> set (waiters st c0)" using waiters_iff [OF wf cv] by (simp add: c0_def)
  have tq: "t \<in> set (sleepq_head st (sqhashindex c0))" using t by (simp add: waiters_def)
  have so: "t_sobj_ops (threads st t) = sops_of ch c0" using w(7) [OF asleep] by (simp add: c0_def)
  define st' where "st' = st\<lparr>threads := (threads st)(t := wake_chan (threads st t)),
      cv_waiters := (if ch c0 then cv_waiters st else (cv_waiters st)(c0 := cv_waiters st c0 - 1)),
      sleepq_head := (sleepq_head st)(sqhashindex c0 := remove1 t (sleepq_head st (sqhashindex c0)))\<rparr>"
  have r: "SOBJ_UNSLEEP (t_sobj_ops (threads st t)) st t = Ret st'"
    using cv tq wake_chan_eq [OF w(5), of t] so
    by (simp add: SOBJ_UNSLEEP_def sops_of_def cv_unsleep_def unsleep_def Let_def sleepq_dequeue_spec st'_def flip: c0_def)
  have th: "threads st' x = (if x \<in> {t} then wake_chan (threads st x) else threads st x)" for x
    by (simp add: st'_def)
  have q: "sleepq_head st' a = filter (\<lambda>x. x \<notin> {t}) (sleepq_head st a)" for a
    using bucket_remove [OF wf cv t, of a] by (simp add: st'_def)
  have cnt: "cv_waiters st' c = (if c = c0 then of_nat (length (filter (\<lambda>x. x \<notin> {t}) (waiters st c0))) else cv_waiters st c)" if "\<not> ch c" for c
    using count_remove [OF wf cv _ t] that by (cases "c = c0") (simp_all add: st'_def)
  have "{t} \<subseteq> set (waiters st c0)" using t by simp
  note k = wake_wf [OF wf cv this th q cnt]
  show ?thesis using r k remove1_filter [OF distinct_waiters [OF wf]] by (auto simp: st'_def)
qed

lemma setrun_refines:
  assumes wf: "sq_wf ch st"
  shows "\<exists>st'. setrun st t = Ret st' \<and> sq_wf ch st' \<and> (\<forall>c. c \<noteq> 0 \<longrightarrow> waiters st' c = remove1 t (waiters st c)) \<and>
    t_state (threads st' t) = (if t_state (threads st t) = TS_SLEEP \<or> t_state (threads st t) = TS_STOPPED \<and>
      t_schedflag (threads st t) AND TS_ALLSTART = TS_ALLSTART then TS_RUN else t_state (threads st t)) \<and>
    (\<forall>x. x \<noteq> t \<longrightarrow> threads st' x = threads st x)"
proof (cases "t_state (threads st t) = TS_SLEEP")
  case True
  have "remove1 t (waiters st c) = waiters st c" if "c \<noteq> 0" "c \<noteq> t_wchan (threads st t)" for c
    using waiters_iff [OF wf that(1)] that by (simp add: remove1_idem)
  then show ?thesis using sobj_unsleep_refines [OF wf True] True
    by (simp add: setrun_def setrun_locked_def) (metis fun_upd_apply wake_chan_simps(3))
next
  case False
  let ?st = "setrun_stopped st t"
  have out: "remove1 t (waiters st c) = waiters st c" if "c \<noteq> 0" for c
    using waiters_iff [OF wf that] sq_wfD(4) [OF wf, of t] False that by (simp add: remove1_idem)
  have w0: "t_wchan (threads st t) = 0" using sq_wfD(4) [OF wf] False by blast
  have th: "t_wchan (threads ?st x) = t_wchan (threads st x)" "sq_prio ?st x = sq_prio st x" "t_wchan0 (threads ?st x) = t_wchan0 (threads st x)"
      "t_sobj_ops (threads ?st x) = t_sobj_ops (threads st x)" "sleepq_head ?st = sleepq_head st" "cv_waiters ?st = cv_waiters st"
      "t_state (threads ?st x) = TS_SLEEP \<longleftrightarrow> t_state (threads st x) = TS_SLEEP" for x
    using False by (auto simp: setrun_stopped_def Let_def DISP_PRIO_def)
  have wq: "waiters ?st c = waiters st c" for c unfolding waiters_def th by (rule refl)
  have "sq_wf ch ?st" using wf unfolding sq_wf_def th wq .
  then show ?thesis using False wf out wq
    by (cases "t_state (threads st t)") (auto simp: setrun_def setrun_locked_def setrun_stopped_def Let_def)
qed

text \<open>A thread whose inherited priority changes moves to its new place, and nobody else moves.\<close>

lemma changepri_wf:
  assumes wf: "sq_wf ch st" and asleep: "t_state (threads st t) = TS_SLEEP"
  defines "c0 \<equiv> t_wchan (threads st t)"
  shows "\<exists>st'. (if ch c0 then changepri st t pri else cv_changepri st t pri) = Ret st' \<and> sq_wf ch st' \<and>
    waiters st' c0 = sleepq_insert (sq_prio st') (remove1 t (waiters st c0)) t \<and> (\<forall>c. c \<noteq> c0 \<longrightarrow> waiters st' c = waiters st c)"
proof -
  note w = sq_wfD [OF wf]
  have cv: "c0 \<noteq> 0" using w(4) asleep by (simp add: c0_def)
  let ?b = "sqhashindex c0"
  define st' where "st' = st\<lparr>threads := (threads st)(t := (threads st t)\<lparr>t_epri := pri\<rparr>),
    sleepq_head := (sleepq_head st)(?b := sleepq_insert (\<lambda>x. DISP_PRIO (((threads st)(t := (threads st t)\<lparr>t_epri := pri\<rparr>)) x)) (remove1 t (sleepq_head st ?b)) t)\<rparr>"
  have r: "(if ch c0 then changepri st t pri else cv_changepri st t pri) = Ret st'"
    using cv by (simp add: changepri_def cv_changepri_def Let_def sleepq_dequeue_spec st'_def flip: c0_def)
  have q: "sleepq_head st' a = (if a = ?b then sleepq_insert (sq_prio st') (remove1 t (sleepq_head st a)) t else sleepq_head st a)" for a
    by (simp add: st'_def)
  have same: "t_wchan (threads st' x) = t_wchan (threads st x)" "t_state (threads st' x) = t_state (threads st x)"
      "t_wchan0 (threads st' x) = t_wchan0 (threads st x)" "t_sobj_ops (threads st' x) = t_sobj_ops (threads st x)"
      "cv_waiters st' = cv_waiters st" "x \<noteq> t \<Longrightarrow> sq_prio st' x = sq_prio st x" for x by (simp_all add: st'_def)
  have t: "t \<in> set (sleepq_head st a) \<longleftrightarrow> a = ?b" for a using w(3) asleep by (auto simp: c0_def)
  have srt: "sorted_wrt (\<lambda>x y. sq_prio st' x \<ge> sq_prio st' y) (remove1 t (sleepq_head st a))" for a
  proof -
    have "sorted_wrt (\<lambda>x y. sq_prio st x \<ge> sq_prio st y) (filter (\<lambda>x. x \<notin> {t}) (sleepq_head st a))"
      using w(2) by (rule sorted_wrt_filter)
    moreover have "sq_prio st' x = sq_prio st x" if "x \<in> set (filter (\<lambda>x. x \<notin> {t}) (sleepq_head st a))" for x
      using that same(6) by simp
    ultimately show ?thesis unfolding remove1_filter [OF w(1)] by (auto elim!: sorted_wrt_mono_rel [rotated])
  qed
  have wq: "waiters st' c = (if c = c0 then sleepq_insert (sq_prio st') (remove1 t (waiters st c0)) t else waiters st c)" for c
  proof -
    have "filter (\<lambda>x. t_wchan (threads st x) = c) (remove1 t l) = remove1 t (filter (\<lambda>x. t_wchan (threads st x) = c) l)" for l
      by (induction l) auto
    then show ?thesis unfolding waiters_def q same
      using c0_def by (auto simp: filter_sleepq_insert [OF srt] remove1_idem)
  qed
  have "length (waiters st' c) = length (waiters st c)" for c
  proof (cases "c = c0")
    case True
    have "t \<in> set (waiters st c0)" using waiters_iff [OF wf cv] by (simp add: c0_def)
    then show ?thesis using True length_pos_if_in_set by (fastforce simp: wq length_remove1)
  qed (simp add: wq)
  moreover have "sorted_wrt (\<lambda>x y. sq_prio st' x \<ge> sq_prio st' y) (sleepq_head st' a)" for a
    using srt [of a] t [of a] by (auto simp: q sleepq_insert_sorted remove1_idem)
  moreover have "distinct (sleepq_head st' a) \<and> set (sleepq_head st' a) = set (sleepq_head st a)" for a
    using w(1) [of a] t [of a] by (auto simp: q)
  ultimately have "sq_wf ch st'" using wf unfolding sq_wf_def same by simp
  then show ?thesis using r wq by auto
qed

section \<open>The interface\<close>

text \<open>
  What the users rely on: every object, which is a condition variable or a sleep channel, has a
  queue of sleeping threads; a signal makes the first of them run, a broadcast all of them, and neither
  disturbs another object.
\<close>

locale cond_vars =
  fixes wf :: "'s \<Rightarrow> bool"
    and obj :: "ulong \<Rightarrow> bool"
    and queue :: "'s \<Rightarrow> ulong \<Rightarrow> nat list"
    and runs :: "'s \<Rightarrow> nat \<Rightarrow> bool"
    and sig :: "'s \<Rightarrow> ulong \<Rightarrow> 's"
    and bcast :: "'s \<Rightarrow> ulong \<Rightarrow> 's"
  assumes sig_wf: "wf s \<Longrightarrow> obj c \<Longrightarrow> wf (sig s c)"
    and sig_queue: "wf s \<Longrightarrow> obj c \<Longrightarrow> queue (sig s c) c = tl (queue s c)"
    and sig_other: "wf s \<Longrightarrow> obj c \<Longrightarrow> d \<noteq> c \<Longrightarrow> d \<noteq> 0 \<Longrightarrow> queue (sig s c) d = queue s d"
    and sig_runs: "wf s \<Longrightarrow> obj c \<Longrightarrow> runs s x \<or> queue s c \<noteq> [] \<and> x = hd (queue s c) \<Longrightarrow> runs (sig s c) x"
    and bcast_wf: "wf s \<Longrightarrow> obj c \<Longrightarrow> wf (bcast s c)"
    and bcast_queue: "wf s \<Longrightarrow> obj c \<Longrightarrow> queue (bcast s c) c = []"
    and bcast_other: "wf s \<Longrightarrow> obj c \<Longrightarrow> d \<noteq> c \<Longrightarrow> d \<noteq> 0 \<Longrightarrow> queue (bcast s c) d = queue s d"
    and bcast_runs: "wf s \<Longrightarrow> obj c \<Longrightarrow> runs s x \<or> x \<in> set (queue s c) \<Longrightarrow> runs (bcast s c) x"
begin

text \<open>A number of signals makes that many threads run, from the front of the queue.\<close>

lemma signals:
  assumes "wf s" "obj c"
  shows "wf (((\<lambda>s. sig s c) ^^ n) s) \<and> queue (((\<lambda>s. sig s c) ^^ n) s) c = drop n (queue s c) \<and>
    (\<forall>d. d \<noteq> c \<longrightarrow> d \<noteq> 0 \<longrightarrow> queue (((\<lambda>s. sig s c) ^^ n) s) d = queue s d) \<and>
    (\<forall>x\<in>set (take n (queue s c)). runs (((\<lambda>s. sig s c) ^^ n) s) x)"
proof (induction n)
  case (Suc n)
  let ?s = "((\<lambda>s. sig s c) ^^ n) s"
  have wf: "wf ?s" and q: "queue ?s c = drop n (queue s c)" using Suc by blast+
  have "runs (sig ?s c) x" if x: "x \<in> set (take (Suc n) (queue s c))" for x
  proof -
    have "x \<in> set (take n (queue s c)) \<or> n < length (queue s c) \<and> x = queue s c ! n"
      using x by (cases "n < length (queue s c)") (auto simp: take_Suc_conv_app_nth)
    then show ?thesis
    proof
      assume "n < length (queue s c) \<and> x = queue s c ! n"
      then have "queue ?s c \<noteq> [] \<and> x = hd (queue ?s c)" by (simp add: q hd_drop_conv_nth)
      then show ?thesis using sig_runs [OF wf assms(2)] by blast
    qed (use Suc sig_runs [OF wf assms(2)] in blast)
  qed
  then show ?case using Suc sig_wf [OF wf assms(2)] sig_queue [OF wf assms(2)] sig_other [OF wf assms(2)]
    by (simp add: drop_Suc tl_drop)
qed (use assms in simp)

end

text \<open>Condition variables and sleep channels both are such objects, also when they share the queues.\<close>

interpretation cvs: cond_vars "sq_wf ch" "\<lambda>c. c \<noteq> 0 \<and> \<not> ch c" waiters "\<lambda>st t. t_state (threads st t) = TS_RUN" cv_signal cv_broadcast for ch
  by unfold_locales (auto simp: cv_signal_refines [of ch] cv_broadcast_refines [of ch])

interpretation chans: cond_vars "sq_wf ch" "\<lambda>c. c \<noteq> 0 \<and> ch c" waiters "\<lambda>st t. t_state (threads st t) = TS_RUN" t_release_chan t_release_all_chan for ch
  by unfold_locales (auto simp: t_release_chan_refines [of ch] t_release_all_chan_refines [of ch])

section \<open>Examples\<close>

text \<open>Everybody runs, and 128 is a sleep channel; then two threads sleep on a condition variable.\<close>

abbreviation chan128 :: "ulong \<Rightarrow> bool" where "chan128 \<equiv> (\<lambda>c. c = 128)"

definition all_awake :: sq_state where
  "all_awake = \<lparr>threads = (\<lambda>t. \<lparr>t_pri = 0, t_epri = 0, t_wchan = 0, t_wchan0 = 0, t_state = TS_ONPROC, t_wakeable = False,
       t_sobj_ops = No_sops, t_schedflag = 0, t_kpri_req = 0, t_whystop = 0, t_whatstop = 0, t_procp = 0\<rparr>),
     sleepq_head = (\<lambda>b. []), cv_waiters = (\<lambda>c. 0), p_wcode = (\<lambda>p. 0), p_wdata = (\<lambda>p. 0)\<rparr>"

lemma all_awake_wf: "sq_wf ch all_awake"
  by (simp add: sq_wf_def all_awake_def waiters_def)

text \<open>Two threads asleep, the second with the higher priority.\<close>

definition two_asleep :: sq_state where
  "two_asleep = cv_block (cv_block all_awake 1 5 64) 2 9 64"

lemma two_asleep: "sq_wf chan128 two_asleep" "waiters two_asleep 64 = [2, 1]"
proof -
  have a: "sq_wf chan128 (cv_block all_awake 1 5 64)" "waiters (cv_block all_awake 1 5 64) 64 = [1]"
    using cv_block_refines(1,2) [OF all_awake_wf, of 64 chan128 1 5] by (simp_all add: all_awake_def waiters_def)
  have t: "t_state (threads (cv_block all_awake 1 5 64) 2) \<noteq> TS_SLEEP"
    by (simp add: cv_block_def all_awake_def Let_def)
  show "sq_wf chan128 two_asleep" unfolding two_asleep_def
    using cv_block_refines(1) [OF a(1) _ _ t, of 64] a(2) by simp
  have "waiters two_asleep 64 = sleepq_insert (sq_prio two_asleep) [1] 2"
    unfolding two_asleep_def using cv_block_refines(2) [OF a(1) _ _ t, of 64] a(2) by simp
  moreover have "sq_prio two_asleep 1 = 5" "sq_prio two_asleep 2 = 9"
    by (simp_all add: two_asleep_def cv_block_def all_awake_def Let_def DISP_PRIO_def)
  ultimately show "waiters two_asleep 64 = [2, 1]" by simp
qed

section \<open>The claims on condition variables\<close>

text \<open>
  C6 (cv_block_queue). Putting a running thread to sleep on a condition variable inserts it into
  the queue of that condition variable behind the sleepers of the same or a higher priority, and
  leaves the queues of all the other condition variables and sleep channels as they are, also of
  those that share the hashed sleep queue.
\<close>

theorem cv_block_queue:
  assumes "sq_wf ch st" "cvp \<noteq> 0" "\<not> ch cvp" "t_state (threads st t) \<noteq> TS_SLEEP" "length (waiters st cvp) < 65535"
  shows "sq_wf ch (cv_block st t kpri cvp) \<and>
    (let pri = sq_prio (cv_block st t kpri cvp) in
     waiters (cv_block st t kpri cvp) cvp =
       filter (\<lambda>x. pri x \<ge> pri t) (waiters st cvp) @ t # filter (\<lambda>x. pri x < pri t) (waiters st cvp)) \<and>
    (\<forall>c. c \<noteq> cvp \<longrightarrow> waiters (cv_block st t kpri cvp) c = waiters st c)"
proof -
  let ?st = "cv_block st t kpri cvp"
  note r = cv_block_refines [OF assms]
  have "sorted_wrt (\<lambda>x y. sq_prio ?st x \<ge> sq_prio ?st y) (waiters st cvp)"
  proof -
    have "sq_prio ?st x = sq_prio st x" if "x \<in> set (waiters st cvp)" for x
    proof -
      have "t_state (threads st x) = TS_SLEEP" using sq_wfD(3) [OF assms(1)] that by (auto simp: waiters_def)
      then have "x \<noteq> t" using assms(4) by blast
      then show ?thesis by (simp add: cv_block_def Let_def)
    qed
    moreover have "sorted_wrt (\<lambda>x y. sq_prio st x \<ge> sq_prio st y) (waiters st cvp)"
      unfolding waiters_def using sq_wfD(2) [OF assms(1)] by (rule sorted_wrt_filter)
    ultimately show ?thesis by (auto elim!: sorted_wrt_mono_rel [rotated])
  qed
  then show ?thesis using r by (simp add: Let_def sleepq_insert_filter)
qed

theorem cv_block_queue_witness:
  "sq_wf chan128 all_awake \<and> t_state (threads all_awake 1) \<noteq> TS_SLEEP \<and> length (waiters all_awake 64) < 65535 \<and>
   waiters (cv_block all_awake 1 5 64) 64 = [1]"
proof -
  have h: "t_state (threads all_awake 1) \<noteq> TS_SLEEP" "length (waiters all_awake 64) < 65535" "(64 :: ulong) \<noteq> 0"
    by (simp_all add: all_awake_def waiters_def)
  show ?thesis
    using h all_awake_wf cv_block_queue [of chan128 all_awake 64 1 5]
    by (simp add: Let_def waiters_def all_awake_def)
qed

text \<open>
  C7 (cv_signals_in_order). Signalling a condition variable a number of times makes that many of
  its sleepers run, those at the front of its queue, and nobody else's queue changes.
\<close>

theorem cv_signals_in_order:
  assumes "sq_wf ch st" "cvp \<noteq> 0" "\<not> ch cvp"
  shows "sq_wf ch (((\<lambda>s. cv_signal s cvp) ^^ n) st) \<and>
    waiters (((\<lambda>s. cv_signal s cvp) ^^ n) st) cvp = drop n (waiters st cvp) \<and>
    (\<forall>d. d \<noteq> cvp \<longrightarrow> d \<noteq> 0 \<longrightarrow> waiters (((\<lambda>s. cv_signal s cvp) ^^ n) st) d = waiters st d) \<and>
    (\<forall>x\<in>set (take n (waiters st cvp)). t_state (threads (((\<lambda>s. cv_signal s cvp) ^^ n) st) x) = TS_RUN)"
  using cvs.signals [of ch st cvp n] assms by simp

theorem cv_signals_in_order_witness:
  "sq_wf chan128 two_asleep \<and> waiters (cv_signal two_asleep 64) 64 = [1] \<and>
   t_state (threads (cv_signal two_asleep 64) 2) = TS_RUN"
  using cv_signals_in_order [of chan128 two_asleep 64 1] two_asleep by simp


end
