(* ===== verification/Sem.thy ===== *)
theory Sem
  imports Sem_Undo Rmap Condvar
begin

text \<open>
  The System V semaphore facility, \<open>syscall/sem.c\<close> and \<open>sys/sem.h\<close>: the state of the module,
  the system calls \<open>semget\<close>, \<open>semctl\<close> and \<open>semop\<close>, and \<open>semexit\<close>. A set is named by its
  position in the table \<open>sema\<close>, a semaphore by its position in the pool \<open>sem_tab\<close>; a condition
  variable is the queue of the threads asleep on it, which is what the condition variables of
  \<open>Condvar\<close> implement. A system call runs with the lock of its set held, so each call, or the
  part of one between two sleeps, is one function from state to state.
\<close>

section \<open>Data\<close>

record sem =
  semval :: ushort
  sempid :: int32
  semncnt :: ushort
  semzcnt :: ushort
  semncnt_cv :: "nat list"
  semzcnt_cv :: "nat list"

record semid_ds =
  sem_perm :: ipc_perm
  sem_base :: nat
  sem_nsems :: ushort
  sem_otime :: int32
  sem_pad1 :: int32
  sem_ctime :: int32
  sem_pad2 :: int32
  sem_binary :: int32
  sem_pad3 :: "int32 list"

record o_semid_ds =
  o_sem_perm :: o_ipc_perm
  o_sem_nsems :: ushort
  o_sem_otime :: int32
  o_sem_ctime :: int32

record sembuf =
  sem_num :: ushort
  sem_op :: short
  sem_flg :: short

record sem_state =
  sem_info :: seminfo
  sem_tab :: "sem list"
  sema :: "semid_ds list"
  semmap :: map_head
  sem_undos :: undo_state
  sem_acflag :: "8 word"

definition SEM_A :: int32 where "SEM_A = 0x80"
definition SEM_R :: int32 where "SEM_R = 0x100"
definition SEM_UNDO :: short where "SEM_UNDO = 0x1000"
definition SEM_NOWAIT :: short where "SEM_NOWAIT = 0x800"
definition GETNCNT :: int32 where "GETNCNT = 3"
definition GETPID :: int32 where "GETPID = 4"
definition GETVAL :: int32 where "GETVAL = 5"
definition GETALL :: int32 where "GETALL = 6"
definition GETZCNT :: int32 where "GETZCNT = 7"
definition SETVAL :: int32 where "SETVAL = 8"
definition SETALL :: int32 where "SETALL = 9"
definition SEMA_INDEX_MAX :: int32 where "SEMA_INDEX_MAX = 0xFFFF"
definition SEMA_INDEX_MASK :: int32 where "SEMA_INDEX_MASK = 0xFFFF"
definition SEMA_SEQ_MAX :: int32 where "SEMA_SEQ_MAX = 0x7FFF"
definition SEMA_SEQ_MASK :: int32 where "SEMA_SEQ_MASK = 0x7FFF"
definition SEMA_SEQ_SHIFT :: nat where "SEMA_SEQ_SHIFT = 16"

section \<open>Identifiers\<close>

definition sem_index :: "int32 \<Rightarrow> nat" where
  "sem_index s = unat (s AND SEMA_INDEX_MASK)"

definition sem_sequence :: "int32 \<Rightarrow> ulong" where
  "sem_sequence s = signed_drop_bit SEMA_SEQ_SHIFT s AND SEMA_SEQ_MASK"

text \<open>The entry that an identifier names, its lock held on return; none on errors.\<close>

definition semconv_lock :: "sem_state \<Rightarrow> int32 \<Rightarrow> nat option kres" where
  "semconv_lock st s =
    (let index = sem_index s in
     if int index \<ge> sint (si_semmni (sem_info st)) then Ret None
     else kbind (elem_at (sema st) index) (\<lambda>sp.
       if perm_mode (sem_perm sp) AND IPC_ALLOC = 0 \<or> sem_sequence s \<noteq> perm_seq (sem_perm sp) then Ret None
       else Ret (Some index)))"

definition semconv :: "sem_state \<Rightarrow> int32 \<Rightarrow> errno option kres" where
  "semconv st s =
    (let index = sem_index s in
     if int index \<ge> sint (si_semmni (sem_info st)) then Ret (Some EINVAL)
     else kbind (elem_at (sema st) index) (\<lambda>sp.
       if perm_mode (sem_perm sp) AND IPC_ALLOC = 0 \<or> sem_sequence s \<noteq> perm_seq (sem_perm sp) then Ret (Some EINVAL)
       else Ret None))"

text \<open>
  A semaphore or a set changed in its table. The pointers that the code works with need not point into the
  tables; the forms that are used for them are a \<open>Fault\<close> when they do not.
\<close>

definition upd_sem :: "sem_state \<Rightarrow> nat \<Rightarrow> (sem \<Rightarrow> sem) \<Rightarrow> sem_state" where
  "upd_sem st j f = st\<lparr>sem_tab := (sem_tab st)[j := f (sem_tab st ! j)]\<rparr>"

definition put_sem :: "sem_state \<Rightarrow> nat \<Rightarrow> (sem \<Rightarrow> sem) \<Rightarrow> sem_state kres" where
  "put_sem st j f = (if j < length (sem_tab st) then Ret (upd_sem st j f) else Fault)"

definition upd_sema :: "sem_state \<Rightarrow> nat \<Rightarrow> (semid_ds \<Rightarrow> semid_ds) \<Rightarrow> sem_state" where
  "upd_sema st k f = st\<lparr>sema := (sema st)[k := f (sema st ! k)]\<rparr>"

definition put_sema :: "sem_state \<Rightarrow> nat \<Rightarrow> (semid_ds \<Rightarrow> semid_ds) \<Rightarrow> sem_state kres" where
  "put_sema st k f = (if k < length (sema st) then Ret (upd_sema st k f) else Fault)"

text \<open>A loop over the \<open>n\<close> semaphores from number \<open>i\<close> of the set at \<open>base\<close>.\<close>

fun sem_loop :: "(nat \<Rightarrow> sem \<Rightarrow> sem) \<Rightarrow> nat \<Rightarrow> nat \<Rightarrow> nat \<Rightarrow> sem list \<Rightarrow> sem list kres" where
  "sem_loop f base i 0 ss = Ret ss"
| "sem_loop f base i (Suc n) ss = kbind (put_at ss (base + i) (f i)) (\<lambda>ss'. sem_loop f base (Suc i) n ss')"

section \<open>semget\<close>

definition semget :: "sem_state \<Rightarrow> ctx \<Rightarrow> int32 \<Rightarrow> int32 \<Rightarrow> int32 \<Rightarrow> ((errno + int32) \<times> sem_state) kres" where
  "semget st c key nsems semflg =
    (case ipcget key semflg (map sem_perm (sema st)) (ctx_cred c) of
       Inl e \<Rightarrow> Ret (Inl e, st)
     | Inr (s, k, p) \<Rightarrow>
         (let st1 = upd_sema st k (\<lambda>sp. sp\<lparr>sem_perm := p\<rparr>);
              drop_entry = upd_sema st1 k (\<lambda>sp. sp\<lparr>sem_perm := (sem_perm sp)\<lparr>perm_mode := 0\<rparr>\<rparr>);
              semid = push_bit SEMA_SEQ_SHIFT (perm_seq p) + of_nat k
          in if s then
               (if sint nsems \<le> 0 \<or> sint nsems > sint (si_semmsl (sem_info st)) then Ret (Inl EINVAL, drop_entry)
                else kbind (rmalloc (semmap st) nsems)
                  (\<lambda>(i, mp).
                    if i = 0 then Ret (Inl ENOSPC, drop_entry\<lparr>semmap := mp\<rparr>)
                    else Ret (Inr semid,
                      (upd_sema st1 k (\<lambda>sp. sp\<lparr>sem_perm := (sem_perm sp)\<lparr>perm_pad := [0, 0, 0, 0]\<rparr>,
                         sem_base := unat (i - 1), sem_binary := 1, sem_nsems := ucast nsems,
                         sem_ctime := ctx_now c, sem_otime := 0, sem_pad1 := 0, sem_pad2 := 0,
                         sem_pad3 := [0, 0, 0]\<rparr>))\<lparr>semmap := mp\<rparr>)))
             else if nsems \<noteq> 0 \<and> ucast (sem_nsems (sema st ! k)) < nsems then Ret (Inl EINVAL, st1)
             else Ret (Inr semid, st1)))"

section \<open>semctl\<close>

text \<open>
  What the calling process has in memory at the last argument, and whether it can be read and
  written: the argument itself, the structure that is copied in, the values for \<open>SETALL\<close>, and the
  success of each copy out.
\<close>

record sem_uarg =
  ua_val :: int32
  ua_ds :: "semid_ds option"
  ua_ods :: "o_semid_ds option"
  ua_vals_ok :: bool
  ua_vals :: "nat \<Rightarrow> ushort"
  ua_out :: "nat \<Rightarrow> bool"

datatype sem_out = Out_none | Out_ds semid_ds | Out_ods o_semid_ds | Out_vals "ushort list"

type_synonym sem_ret = "((errno + int32) \<times> sem_out \<times> sem_state) kres"

abbreviation sem_fail :: "errno \<Rightarrow> sem_state \<Rightarrow> sem_ret" where
  "sem_fail e st \<equiv> Ret (Inl e, Out_none, st)"

definition sem_removed :: "sem \<Rightarrow> sem" where
  "sem_removed p =
    (let p1 = p\<lparr>semval := 0, sempid := 0\<rparr>;
         p2 = (if semncnt p1 \<noteq> 0 then p1\<lparr>semncnt_cv := [], semncnt := 0\<rparr> else p1)
     in if semzcnt p2 \<noteq> 0 then p2\<lparr>semzcnt_cv := [], semzcnt := 0\<rparr> else p2)"

definition semctl_rmid :: "sem_state \<Rightarrow> ctx \<Rightarrow> int32 \<Rightarrow> nat \<Rightarrow> sem_ret" where
  "semctl_rmid st c semid k = kbind (elem_at (sema st) k) (\<lambda>sp.
    (let (ok, ac) = ipc_owner (sem_perm sp) (ctx_cred c) (sem_acflag st); st0 = st\<lparr>sem_acflag := ac\<rparr>
     in if \<not> ok then sem_fail EPERM st0
        else kbind (sem_loop (\<lambda>_. sem_removed) (sem_base sp) 0 (unat (sem_nsems sp)) (sem_tab st)) (\<lambda>ss.
          kbind (rmfree (semmap st) (ucast (sem_nsems sp)) (of_nat (sem_base sp) + 1))
          (\<lambda>(mp, _).
            Ret (Inr 0, Out_none,
              (upd_sema st0 k (\<lambda>sp. sp\<lparr>sem_perm := (sem_perm sp)\<lparr>
                  perm_seq := (if sem_sequence semid = SEMA_SEQ_MAX then 0 else perm_seq (sem_perm sp) + 1),
                  perm_mode := 0\<rparr>\<rparr>))
              \<lparr>sem_undos := semunrm (sem_undos st) semid 0 (sem_nsems sp), sem_tab := ss, semmap := mp\<rparr>)))))"

definition semctl_set :: "sem_state \<Rightarrow> ctx \<Rightarrow> nat \<Rightarrow> semid_ds option \<Rightarrow> sem_ret" where
  "semctl_set st c k arg = kbind (elem_at (sema st) k) (\<lambda>sp.
    (let (ok, ac) = ipc_owner (sem_perm sp) (ctx_cred c) (sem_acflag st); st0 = st\<lparr>sem_acflag := ac\<rparr>
     in if \<not> ok then sem_fail EPERM st0
        else (case arg of
          None \<Rightarrow> sem_fail EFAULT st0
        | Some ds \<Rightarrow>
            if sint (perm_uid (sem_perm ds)) < 0 \<or> sint (perm_uid (sem_perm ds)) > sint MAXUID \<or>
               sint (perm_gid (sem_perm ds)) < 0 \<or> sint (perm_gid (sem_perm ds)) > sint MAXUID
            then sem_fail EINVAL st0
            else Ret (Inr 0, Out_none,
              upd_sema st0 k (\<lambda>sp. sp\<lparr>sem_perm := (sem_perm sp)\<lparr>perm_uid := perm_uid (sem_perm ds),
                  perm_gid := perm_gid (sem_perm ds),
                  perm_mode := (perm_mode (sem_perm ds) AND ACCBITS) OR IPC_ALLOC\<rparr>,
                sem_ctime := ctx_now c\<rparr>)))))"

definition semctl_o_set :: "sem_state \<Rightarrow> ctx \<Rightarrow> nat \<Rightarrow> o_semid_ds option \<Rightarrow> sem_ret" where
  "semctl_o_set st c k arg = kbind (elem_at (sema st) k) (\<lambda>sp.
    (let (ok, ac) = ipc_owner (sem_perm sp) (ctx_cred c) (sem_acflag st); st0 = st\<lparr>sem_acflag := ac\<rparr>
     in if \<not> ok then sem_fail EPERM st0
        else (case arg of
          None \<Rightarrow> sem_fail EFAULT st0
        | Some ds \<Rightarrow>
            if (ucast (o_perm_uid (o_sem_perm ds)) :: ulong) > MAXUID \<or>
               (ucast (o_perm_gid (o_sem_perm ds)) :: ulong) > MAXUID
            then sem_fail EINVAL st0
            else Ret (Inr 0, Out_none,
              upd_sema st0 k (\<lambda>sp. sp\<lparr>sem_perm := (sem_perm sp)\<lparr>perm_uid := ucast (o_perm_uid (o_sem_perm ds)),
                  perm_gid := ucast (o_perm_gid (o_sem_perm ds)),
                  perm_mode := (ucast (o_perm_mode (o_sem_perm ds)) AND ACCBITS) OR IPC_ALLOC\<rparr>,
                sem_ctime := ctx_now c\<rparr>)))))"

definition semctl_o_stat :: "sem_state \<Rightarrow> ctx \<Rightarrow> nat \<Rightarrow> bool \<Rightarrow> sem_ret" where
  "semctl_o_stat st c k wr = kbind (elem_at (sema st) k) (\<lambda>sp.
    (let p = sem_perm sp in
     case ipcaccess p SEM_R (ctx_cred c) of
       Some e \<Rightarrow> sem_fail e st
     | None \<Rightarrow>
         if perm_uid p > USHRT_MAX \<or> perm_gid p > USHRT_MAX \<or> perm_cuid p > USHRT_MAX \<or>
            perm_cgid p > USHRT_MAX \<or> perm_seq p > USHRT_MAX
         then sem_fail EOVERFLOW st
         else
           (let oid = \<lparr>o_sem_perm = \<lparr>o_perm_uid = ucast (perm_uid p), o_perm_gid = ucast (perm_gid p),
                        o_perm_cuid = ucast (perm_cuid p), o_perm_cgid = ucast (perm_cgid p),
                        o_perm_mode = ucast (perm_mode p), o_perm_seq = ucast (perm_seq p),
                        o_perm_key = perm_key p\<rparr>,
                      o_sem_nsems = sem_nsems sp, o_sem_otime = sem_otime sp, o_sem_ctime = sem_ctime sp\<rparr>
            in if wr then Ret (Inr 0, Out_ods oid, st) else sem_fail EFAULT st)))"

definition semctl_stat :: "sem_state \<Rightarrow> ctx \<Rightarrow> nat \<Rightarrow> bool \<Rightarrow> sem_ret" where
  "semctl_stat st c k wr = kbind (elem_at (sema st) k) (\<lambda>sp.
     case ipcaccess (sem_perm sp) SEM_R (ctx_cred c) of
       Some e \<Rightarrow> sem_fail e st
     | None \<Rightarrow> if wr then Ret (Inr 0, Out_ds sp, st) else sem_fail EFAULT st)"

text \<open>\<open>GETNCNT\<close>, \<open>GETPID\<close>, \<open>GETVAL\<close> and \<open>GETZCNT\<close> differ in the field they return.\<close>

definition semctl_get :: "sem_state \<Rightarrow> ctx \<Rightarrow> nat \<Rightarrow> ulong \<Rightarrow> (sem \<Rightarrow> int32) \<Rightarrow> sem_ret" where
  "semctl_get st c k semnum field = kbind (elem_at (sema st) k) (\<lambda>sp.
     case ipcaccess (sem_perm sp) SEM_R (ctx_cred c) of
       Some e \<Rightarrow> sem_fail e st
     | None \<Rightarrow>
         if semnum \<ge> ucast (sem_nsems sp) then sem_fail EINVAL st
         else kbind (elem_at (sem_tab st) (sem_base sp + unat semnum)) (\<lambda>p. Ret (Inr (field p), Out_none, st)))"

fun sem_copyout :: "(nat \<Rightarrow> bool) \<Rightarrow> sem list \<Rightarrow> nat \<Rightarrow> nat \<Rightarrow> nat \<Rightarrow> ushort list option kres" where
  "sem_copyout wr ss base i 0 = Ret (Some [])"
| "sem_copyout wr ss base i (Suc n) = kbind (elem_at ss (base + i)) (\<lambda>p.
     if wr i then kbind (sem_copyout wr ss base (Suc i) n) (\<lambda>r. Ret (map_option ((#) (semval p)) r)) else Ret None)"

definition semctl_getall :: "sem_state \<Rightarrow> ctx \<Rightarrow> nat \<Rightarrow> (nat \<Rightarrow> bool) \<Rightarrow> sem_ret" where
  "semctl_getall st c k wr = kbind (elem_at (sema st) k) (\<lambda>sp.
     case ipcaccess (sem_perm sp) SEM_R (ctx_cred c) of
       Some e \<Rightarrow> sem_fail e st
     | None \<Rightarrow> kbind (sem_copyout wr (sem_tab st) (sem_base sp) 0 (unat (sem_nsems sp))) (\<lambda>r.
         case r of None \<Rightarrow> sem_fail EFAULT st | Some vals \<Rightarrow> Ret (Inr 0, Out_vals vals, st)))"

definition sem_setval :: "ushort \<Rightarrow> int32 \<Rightarrow> sem \<Rightarrow> sem" where
  "sem_setval v pid p =
    (let p1 = p\<lparr>semval := v\<rparr>;
         p2 = (if v \<noteq> 0 then (if semncnt p1 \<noteq> 0 then p1\<lparr>semncnt := 0, semncnt_cv := []\<rparr> else p1)
               else if semzcnt p1 \<noteq> 0 then p1\<lparr>semzcnt := 0, semzcnt_cv := []\<rparr> else p1)
     in p2\<lparr>sempid := pid\<rparr>)"

definition semctl_setval :: "sem_state \<Rightarrow> ctx \<Rightarrow> int32 \<Rightarrow> nat \<Rightarrow> ulong \<Rightarrow> int32 \<Rightarrow> sem_ret" where
  "semctl_setval st c semid k semnum arg = kbind (elem_at (sema st) k) (\<lambda>sp.
     case ipcaccess (sem_perm sp) SEM_A (ctx_cred c) of
       Some e \<Rightarrow> sem_fail e st
     | None \<Rightarrow>
         if semnum \<ge> ucast (sem_nsems sp) then sem_fail EINVAL st
         else if arg > si_semvmx (sem_info st) then sem_fail ERANGE st
         else kbind (put_sem st (sem_base sp + unat semnum) (sem_setval (ucast arg) (ctx_pid c))) (\<lambda>st1.
           Ret (Inr 0, Out_none, st1\<lparr>sem_undos := semunrm (sem_undos st1) semid (ucast semnum) (ucast semnum)\<rparr>)))"

definition semctl_setall :: "sem_state \<Rightarrow> ctx \<Rightarrow> int32 \<Rightarrow> nat \<Rightarrow> bool \<Rightarrow> (nat \<Rightarrow> ushort) \<Rightarrow> sem_ret" where
  "semctl_setall st c semid k rd vals = kbind (elem_at (sema st) k) (\<lambda>sp.
    (let n = unat (sem_nsems sp) in
     case ipcaccess (sem_perm sp) SEM_A (ctx_cred c) of
       Some e \<Rightarrow> sem_fail e st
     | None \<Rightarrow>
         if \<not> rd then sem_fail EFAULT st
         else if \<exists>i\<in>{0..<n}. (ucast (vals i) :: ulong) > si_semvmx (sem_info st) then sem_fail ERANGE st
         else kbind (sem_loop (\<lambda>i. sem_setval (vals i) (ctx_pid c)) (sem_base sp) 0 n (sem_tab st)) (\<lambda>ss.
           Ret (Inr 0, Out_none, st\<lparr>sem_undos := semunrm (sem_undos st) semid 0 (sem_nsems sp), sem_tab := ss\<rparr>))))"

definition semctl :: "sem_state \<Rightarrow> ctx \<Rightarrow> int32 \<Rightarrow> ulong \<Rightarrow> int32 \<Rightarrow> sem_uarg \<Rightarrow> sem_ret" where
  "semctl st c semid semnum cmd arg =
    kbind (semconv_lock st semid) (\<lambda>lock. case lock of
       None \<Rightarrow> sem_fail EINVAL st
     | Some k \<Rightarrow>
         if cmd = IPC_O_RMID \<or> cmd = IPC_RMID then semctl_rmid st c semid k
         else if cmd = IPC_SET then semctl_set st c k (ua_ds arg)
         else if cmd = IPC_O_SET then semctl_o_set st c k (ua_ods arg)
         else if cmd = IPC_O_STAT then semctl_o_stat st c k (ua_out arg 0)
         else if cmd = IPC_STAT then semctl_stat st c k (ua_out arg 0)
         else if cmd = GETNCNT then semctl_get st c k semnum (\<lambda>p. ucast (semncnt p))
         else if cmd = GETPID then semctl_get st c k semnum sempid
         else if cmd = GETVAL then semctl_get st c k semnum (\<lambda>p. ucast (semval p))
         else if cmd = GETALL then semctl_getall st c k (ua_out arg)
         else if cmd = GETZCNT then semctl_get st c k semnum (\<lambda>p. ucast (semzcnt p))
         else if cmd = SETVAL then semctl_setval st c semid k semnum (ua_val arg)
         else if cmd = SETALL then semctl_setall st c semid k (ua_vals_ok arg) (ua_vals arg)
         else sem_fail EINVAL st)"

section \<open>semexit\<close>

text \<open>One entry of the exiting process: the adjustment is applied unless the set is gone or the
  value would leave its range.\<close>

definition semexit_ent :: "sem_state \<Rightarrow> undo \<Rightarrow> sem_state kres" where
  "semexit_ent st e = kbind (semconv_lock st (un_id e)) (\<lambda>lock.
     case lock of
       None \<Rightarrow> Ret st
     | Some k \<Rightarrow> kbind (elem_at (sema st) k) (\<lambda>sp.
         let j = sem_base sp + unat (un_num e)
         in kbind (elem_at (sem_tab st) j) (\<lambda>p.
            let v = uint (semval p) + sint (un_aoe e) in
            if v < 0 \<or> v > sint (si_semvmx (sem_info st)) then Ret st
            else put_sem st j (\<lambda>semp.
              let s1 = semp\<lparr>semval := word_of_int v\<rparr>;
                  s2 = (if v = 0 \<and> semzcnt s1 \<noteq> 0 then s1\<lparr>semzcnt := 0, semzcnt_cv := []\<rparr> else s1)
              in if sint (un_aoe e) > 0 \<and> semncnt s2 \<noteq> 0 then s2\<lparr>semncnt := 0, semncnt_cv := []\<rparr> else s2))))"

fun semexit_loop :: "sem_state \<Rightarrow> undo list \<Rightarrow> sem_state kres" where
  "semexit_loop st [] = Ret st"
| "semexit_loop st (e # es) = kbind (semexit_ent st e) (\<lambda>st'. semexit_loop st' es)"

text \<open>The entries are visited from the last to the first; then the structure goes back to the
  free chain.\<close>

definition semexit :: "sem_state \<Rightarrow> ctx \<Rightarrow> sem_state kres" where
  "semexit st c =
    (case sem_undo (sem_undos st) ! ctx_slot c of
       None \<Rightarrow> Ret st
     | Some up \<Rightarrow>
         if semu (sem_undos st) ! up = [] then
           Ret (st\<lparr>sem_undos := (sem_undos st)\<lparr>semfup := up # semfup (sem_undos st),
             sem_undo := (sem_undo (sem_undos st))[ctx_slot c := None]\<rparr>\<rparr>)
         else
           kbind (semexit_loop st (rev (semu (sem_undos st) ! up)))
             (\<lambda>st'. Ret (st'\<lparr>sem_undos := (sem_undos st')
                \<lparr>semu := (semu (sem_undos st'))[up := []],
                 semunp := remove1 up (semunp (sem_undos st')),
                 semfup := up # semfup (sem_undos st'),
                 sem_undo := (sem_undo (sem_undos st'))[ctx_slot c := None]\<rparr>\<rparr>)))"

section \<open>semop\<close>

text \<open>How a pass over the operations ends: all done, an error, or a wait for the semaphore at a
  position of the pool, for a greater value or for zero.\<close>

datatype sem_stop = All_done | Stop errno | Sleep_n nat | Sleep_z nat

definition aoe_if :: "sem_state \<Rightarrow> ctx \<Rightarrow> int32 \<Rightarrow> sembuf \<Rightarrow> errno option \<times> sem_state" where
  "aoe_if st c semid op =
    (if sem_flg op AND SEM_UNDO \<noteq> 0 then
       (case semaoe (sem_info st) (sem_undos st) (ctx_slot c) (sem_op op) semid (sem_num op) of
          (r, u) \<Rightarrow> (r, st\<lparr>sem_undos := u\<rparr>))
     else (None, st))"

fun semundo :: "sem_state \<Rightarrow> ctx \<Rightarrow> int32 \<Rightarrow> nat \<Rightarrow> sembuf list \<Rightarrow> sem_state kres" where
  "semundo st c semid base [] = Ret st"
| "semundo st c semid base (op # ops) =
    (if sem_op op = 0 then semundo st c semid base ops
     else kbind (put_sem st (base + unat (sem_num op)) (\<lambda>semp. semp\<lparr>semval := semval semp - sem_op op\<rparr>)) (\<lambda>st1.
       let st2 = (if sem_flg op AND SEM_UNDO \<noteq> 0
                  then st1\<lparr>sem_undos := snd (semaoe (sem_info st1) (sem_undos st1) (ctx_slot c) (- sem_op op) semid (sem_num op))\<rparr>
                  else st1)
       in semundo st2 c semid base ops))"

text \<open>A V operation on one semaphore: the new value and who is woken.\<close>

definition sem_v :: "bool \<Rightarrow> short \<Rightarrow> sem \<Rightarrow> sem" where
  "sem_v binary_type sop semp =
    (let s1 = semp\<lparr>semval := semval semp + sop\<rparr>;
         signal = (sop = 1 \<and> binary_type);
         s2 = (if semncnt s1 \<noteq> 0 then
                 (if signal then s1\<lparr>semncnt := semncnt s1 - 1, semncnt_cv := tl (semncnt_cv s1)\<rparr>
                  else s1\<lparr>semncnt := 0, semncnt_cv := []\<rparr>)
               else s1)
     in if semzcnt s2 \<noteq> 0 \<and> semval s2 = 0 then
          (if signal then s2\<lparr>semzcnt := semzcnt s2 - 1, semzcnt_cv := tl (semzcnt_cv s2)\<rparr>
           else s2\<lparr>semzcnt := 0, semzcnt_cv := []\<rparr>)
        else s2)"

definition sem_p :: "short \<Rightarrow> sem \<Rightarrow> sem" where
  "sem_p sop semp =
    (let s1 = semp\<lparr>semval := semval semp + sop\<rparr>
     in if semzcnt s1 \<noteq> 0 \<and> semval s1 = 0 then s1\<lparr>semzcnt := 0, semzcnt_cv := []\<rparr> else s1)"

text \<open>
  The pass over the operations: \<open>dn\<close> holds those already done, the last one first, which is the
  order in which they are undone.
\<close>

definition semop_fail :: "sem_state \<Rightarrow> ctx \<Rightarrow> int32 \<Rightarrow> nat \<Rightarrow> sembuf list \<Rightarrow> errno \<Rightarrow> (sem_stop \<times> sem_state) kres" where
  "semop_fail st c semid base dn e = kbind (semundo st c semid base dn) (\<lambda>st1. Ret (Stop e, st1))"

fun semop_pass :: "sem_state \<Rightarrow> ctx \<Rightarrow> int32 \<Rightarrow> nat \<Rightarrow> bool \<Rightarrow> sembuf list \<Rightarrow> sembuf list \<Rightarrow> (sem_stop \<times> sem_state) kres" where
  "semop_pass st c semid k binary_type dn [] = Ret (All_done, st)"
| "semop_pass st c semid k binary_type dn (op # ops) = kbind (elem_at (sema st) k) (\<lambda>sp.
    let base = sem_base sp; j = base + unat (sem_num op) in
    kbind (elem_at (sem_tab st) j) (\<lambda>semp.
       if sint (sem_op op) > 0 then
         (if sint (sem_op op) + uint (semval semp) > sint (si_semvmx (sem_info st))
          then semop_fail st c semid base dn ERANGE
          else (case aoe_if st c semid op of
                  (Some e, st1) \<Rightarrow> semop_fail st1 c semid base dn e
                | (None, st1) \<Rightarrow> kbind (put_sem st1 j (sem_v binary_type (sem_op op))) (\<lambda>st2.
                    semop_pass st2 c semid k binary_type (op # dn) ops)))
       else if sint (sem_op op) < 0 then
         (if uint (semval semp) \<ge> - sint (sem_op op) then
            (case aoe_if st c semid op of
               (Some e, st1) \<Rightarrow> semop_fail st1 c semid base dn e
             | (None, st1) \<Rightarrow> kbind (put_sem st1 j (sem_p (sem_op op))) (\<lambda>st2.
                 semop_pass st2 c semid k binary_type (op # dn) ops))
          else kbind (semundo st c semid base dn) (\<lambda>st1.
            if sem_flg op AND SEM_NOWAIT \<noteq> 0 then Ret (Stop EAGAIN, st1)
            else kbind (put_sem st1 j (\<lambda>s. s\<lparr>semncnt := semncnt s + 1,
                    semncnt_cv := sleepq_insert (ctx_prio c) (semncnt_cv s) (ctx_tid c)\<rparr>)) (\<lambda>st2.
              if sint (sem_op op) < -1 then kbind (put_sema st2 k (\<lambda>sp. sp\<lparr>sem_binary := 0\<rparr>)) (\<lambda>st3. Ret (Sleep_n j, st3))
              else Ret (Sleep_n j, st2))))
       else if semval semp \<noteq> 0 then
         kbind (semundo st c semid base dn) (\<lambda>st1.
          if sem_flg op AND SEM_NOWAIT \<noteq> 0 then Ret (Stop EAGAIN, st1)
          else kbind (put_sem st1 j (\<lambda>s. s\<lparr>semzcnt := semzcnt s + 1,
                  semzcnt_cv := sleepq_insert (ctx_prio c) (semzcnt_cv s) (ctx_tid c)\<rparr>)) (\<lambda>st2. Ret (Sleep_z j, st2)))
       else semop_pass st c semid k binary_type (op # dn) ops))"

fun semop_setpid :: "sem_state \<Rightarrow> nat \<Rightarrow> int32 \<Rightarrow> sembuf list \<Rightarrow> sem_state kres" where
  "semop_setpid st k pid [] = Ret st"
| "semop_setpid st k pid (op # ops) = kbind (elem_at (sema st) k) (\<lambda>sp.
    kbind (put_sem st (sem_base sp + unat (sem_num op)) (\<lambda>semp. semp\<lparr>sempid := pid\<rparr>)) (\<lambda>st1. semop_setpid st1 k pid ops))"

text \<open>
  From the label \<open>check\<close>: the recheck of the identifier when the thread has slept, the pass, and
  after a complete pass the update of \<open>sempid\<close> and \<open>sem_otime\<close>.
\<close>

definition semop_check :: "sem_state \<Rightarrow> ctx \<Rightarrow> int32 \<Rightarrow> nat \<Rightarrow> bool \<Rightarrow> sembuf list \<Rightarrow> (sem_stop \<times> sem_state) kres" where
  "semop_check st c semid k again uops =
    kbind (if again then semconv st semid else Ret None) (\<lambda>gone.
     if gone \<noteq> None then Ret (Stop EIDRM, st)
     else kbind (elem_at (sema st) k) (\<lambda>sp.
       let binary_type = (sem_binary sp \<noteq> 0 \<and> sem_nsems sp = 1) in
       kbind (semop_pass st c semid k binary_type [] uops) (\<lambda>(r, st1).
         case r of
           All_done \<Rightarrow> kbind (semop_setpid st1 k (ctx_pid c) uops) (\<lambda>st2.
             kbind (put_sema st2 k (\<lambda>sp. sp\<lparr>sem_otime := ctx_now c\<rparr>)) (\<lambda>st3. Ret (All_done, st3)))
         | _ \<Rightarrow> Ret (r, st1))))"

fun semop_verify :: "semid_ds \<Rightarrow> cred \<Rightarrow> sembuf list \<Rightarrow> errno option" where
  "semop_verify sp cr [] = None"
| "semop_verify sp cr (op # ops) =
    (case ipcaccess (sem_perm sp) (if sem_op op \<noteq> 0 then SEM_A else SEM_R) cr of
       Some e \<Rightarrow> Some e
     | None \<Rightarrow> if sem_num op \<ge> sem_nsems sp then Some EFBIG else semop_verify sp cr ops)"

text \<open>
  The system call up to its return or its first sleep; \<open>uops\<close> is what the copy of the operations
  into the kernel gives, none when it fails. The \<open>Sleep\<close> outcomes continue with
  \<open>semop_resume\<close> when the thread is woken and with \<open>semop_eintr\<close> when a signal ends the wait.
\<close>

definition semop :: "sem_state \<Rightarrow> ctx \<Rightarrow> int32 \<Rightarrow> sembuf list option \<Rightarrow> ulong \<Rightarrow> (sem_stop \<times> sem_state) kres" where
  "semop st c semid uops nsops =
    (if nsops > si_semopm (sem_info st) then Ret (Stop E2BIG, st)
     else if nsops = 0 then Ret (All_done, st)
     else (case uops of
             None \<Rightarrow> Ret (Stop EFAULT, st)
           | Some ops \<Rightarrow> kbind (semconv_lock st semid) (\<lambda>lock.
               case lock of
                  None \<Rightarrow> Ret (Stop EINVAL, st)
                | Some k \<Rightarrow> kbind (elem_at (sema st) k) (\<lambda>sp.
                    case semop_verify sp (ctx_cred c) ops of
                       Some e \<Rightarrow> Ret (Stop e, st)
                     | None \<Rightarrow> semop_check st c semid k False ops))))"

definition semop_resume :: "sem_state \<Rightarrow> ctx \<Rightarrow> int32 \<Rightarrow> nat \<Rightarrow> sembuf list \<Rightarrow> (sem_stop \<times> sem_state) kres" where
  "semop_resume st c semid k uops = semop_check st c semid k True uops"

text \<open>The wait ended by a signal: the thread is off the queue and takes back its count, which is
  a 16-bit quantity.\<close>

definition semop_eintr_n :: "sem_state \<Rightarrow> ctx \<Rightarrow> nat \<Rightarrow> (sem_stop \<times> sem_state) kres" where
  "semop_eintr_n st c j =
    kbind (put_sem st j (\<lambda>s.
      let s0 = s\<lparr>semncnt_cv := remove1 (ctx_tid c) (semncnt_cv s)\<rparr> in
      if semncnt s0 \<le> 1 then s0\<lparr>semncnt := 0, semncnt_cv := []\<rparr>
      else s0\<lparr>semncnt := semncnt s0 - 1\<rparr>)) (\<lambda>st1. Ret (Stop EINTR, st1))"

definition semop_eintr_z :: "sem_state \<Rightarrow> ctx \<Rightarrow> nat \<Rightarrow> (sem_stop \<times> sem_state) kres" where
  "semop_eintr_z st c j =
    kbind (put_sem st j (\<lambda>s.
      let s0 = s\<lparr>semzcnt_cv := remove1 (ctx_tid c) (semzcnt_cv s)\<rparr> in
      if semzcnt s0 \<le> 1 then s0\<lparr>semzcnt := 0, semzcnt_cv := []\<rparr>
      else s0\<lparr>semzcnt := semzcnt s0 - 1\<rparr>)) (\<lambda>st1. Ret (Stop EINTR, st1))"

section \<open>semsys\<close>

text \<open>
  The system entry point. The arguments of the three calls are the registers \<open>a1\<close> to \<open>a4\<close>; what a
  pointer among them refers to in the memory of the process is given by \<open>arg\<close> and \<open>uops\<close>.
\<close>

datatype sem_result = Sem_returns "errno + int32" sem_out | Sem_sleeps sem_stop

definition SEMCTL :: int32 where "SEMCTL = 0"
definition SEMGET :: int32 where "SEMGET = 1"
definition SEMOP :: int32 where "SEMOP = 2"

definition sem_result_of :: "sem_stop \<Rightarrow> sem_result" where
  "sem_result_of r = (case r of All_done \<Rightarrow> Sem_returns (Inr 0) Out_none
     | Stop e \<Rightarrow> Sem_returns (Inl e) Out_none | _ \<Rightarrow> Sem_sleeps r)"

definition semsys :: "sem_state \<Rightarrow> ctx \<Rightarrow> int32 \<Rightarrow> int32 \<Rightarrow> int32 \<Rightarrow> int32 \<Rightarrow> sem_uarg \<Rightarrow> sembuf list option \<Rightarrow>
    (sem_result \<times> sem_state) kres" where
  "semsys st c opcode a1 a2 a3 arg uops =
    (if opcode = SEMCTL then
       kbind (semctl st c a1 a2 a3 arg) (\<lambda>(r, out, st'). Ret (Sem_returns r out, st'))
     else if opcode = SEMGET then
       kbind (semget st c a1 a2 a3) (\<lambda>(r, st'). Ret (Sem_returns r Out_none, st'))
     else if opcode = SEMOP then
       kbind (semop st c a1 uops a3) (\<lambda>(r, st'). Ret (sem_result_of r, st'))
     else Ret (Sem_returns (Inl EINVAL) Out_none, st))"

section \<open>Module initialisation\<close>

text \<open>The tunable parameters; the size of an undo structure is computed (16 bytes of header with
  the first entry, and 8 for each of \<open>semume\<close> entries), and the number of sets is cut to what fits
  an identifier.\<close>

definition sem_tune :: "seminfo \<Rightarrow> seminfo" where
  "sem_tune p = p\<lparr>si_semmni := (if sint (si_semmni p) > sint SEMA_INDEX_MAX then SEMA_INDEX_MAX else si_semmni p),
     si_semusz := 16 + si_semume p * 8\<rparr>"

definition zero_sem :: sem where
  "zero_sem = \<lparr>semval = 0, sempid = 0, semncnt = 0, semzcnt = 0, semncnt_cv = [], semzcnt_cv = []\<rparr>"

definition zero_semid :: semid_ds where
  "zero_semid = \<lparr>sem_perm = zero_perm, sem_base = 0, sem_nsems = 0, sem_otime = 0, sem_pad1 = 0,
     sem_ctime = 0, sem_pad2 = 0, sem_binary = 0, sem_pad3 = [0, 0, 0]\<rparr>"

text \<open>
  \<open>fits\<close> tells whether the tables stay within a quarter of the kernel memory, \<open>avail\<close> whether
  \<open>rmallocmap\<close> finds memory and \<open>inst\<close> whether the module can be installed; \<open>v_proc\<close> is the number
  of process slots. Without undo structures the code writes through a null pointer.
\<close>

definition sem_init :: "seminfo \<Rightarrow> nat \<Rightarrow> bool \<Rightarrow> bool \<Rightarrow> errno option \<Rightarrow> (errno + sem_state) kres" where
  "sem_init tun v_proc fits avail inst =
    (let si = sem_tune tun in
     if \<not> fits then Ret (Inl ENOMEM)
     else kbind (rmallocmap avail (si_semmap si)) (\<lambda>mo.
       case mo of
         None \<Rightarrow> Ret (Inl ENOMEM)
       | Some mp0 \<Rightarrow>
           kbind (rmfree mp0 (si_semmns si) 1) (\<lambda>(mp, _).
             if si_semmnu si = 0 then Fault
             else (case inst of
                Some e \<Rightarrow> Ret (Inl e)
              | None \<Rightarrow>
                  Ret (Inr \<lparr>sem_info = si, sem_tab = replicate (unat (si_semmns si)) zero_sem,
                    sema = replicate (unat (si_semmni si)) zero_semid, semmap = mp,
                    sem_undos = \<lparr>sem_undo = replicate v_proc None, semunp = [],
                      semfup = [0..<unat (si_semmnu si)], semu = replicate (unat (si_semmnu si)) []\<rparr>,
                    sem_acflag = 0\<rparr>)))))"

end
