(* ===== verification/Sem_Pass.thy ===== *)
theory Sem_Pass
  imports Sem
begin

text \<open>
  The passes of \<open>semop\<close> over its operations. First the same functions for accesses that are known to stay in the
  tables, and that the functions of the code agree with them: always when they return, and in any case when the
  operations are on semaphores of the set. Then that a pass is atomic.
\<close>

section \<open>Accesses in the tables\<close>

lemma put_sem_in [simp]: "j < length (sem_tab st) \<Longrightarrow> put_sem st j f = Ret (upd_sem st j f)"
  by (simp add: put_sem_def)

lemma put_sem_Ret_iff [simp]: "put_sem st j f = Ret st' \<longleftrightarrow> j < length (sem_tab st) \<and> st' = upd_sem st j f"
  by (auto simp: put_sem_def)

lemma put_sema_in [simp]: "k < length (sema st) \<Longrightarrow> put_sema st k f = Ret (upd_sema st k f)"
  by (simp add: put_sema_def)

lemma put_sema_Ret_iff [simp]: "put_sema st k f = Ret st' \<longleftrightarrow> k < length (sema st) \<and> st' = upd_sema st k f"
  by (auto simp: put_sema_def)

fun sem_loop_t :: "(nat \<Rightarrow> sem \<Rightarrow> sem) \<Rightarrow> nat \<Rightarrow> nat \<Rightarrow> nat \<Rightarrow> sem list \<Rightarrow> sem list" where
  "sem_loop_t f base i 0 ss = ss"
| "sem_loop_t f base i (Suc n) ss =
    sem_loop_t f base (Suc i) n (ss[base + i := f i (ss ! (base + i))])"

fun semundo_t :: "sem_state \<Rightarrow> ctx \<Rightarrow> int32 \<Rightarrow> nat \<Rightarrow> sembuf list \<Rightarrow> sem_state" where
  "semundo_t st c semid base [] = st"
| "semundo_t st c semid base (op # ops) =
    (if sem_op op = 0 then semundo_t st c semid base ops
     else
       let st1 = upd_sem st (base + unat (sem_num op)) (\<lambda>semp. semp\<lparr>semval := semval semp - sem_op op\<rparr>);
           st2 = (if sem_flg op AND SEM_UNDO \<noteq> 0
                  then st1\<lparr>sem_undos := snd (semaoe (sem_info st1) (sem_undos st1) (ctx_slot c) (- sem_op op) semid (sem_num op))\<rparr>
                  else st1)
       in semundo_t st2 c semid base ops)"

fun semop_pass_t :: "sem_state \<Rightarrow> ctx \<Rightarrow> int32 \<Rightarrow> nat \<Rightarrow> bool \<Rightarrow> sembuf list \<Rightarrow> sembuf list \<Rightarrow> sem_stop \<times> sem_state" where
  "semop_pass_t st c semid k binary_type dn [] = (All_done, st)"
| "semop_pass_t st c semid k binary_type dn (op # ops) =
    (let base = sem_base (sema st ! k);
         j = base + unat (sem_num op);
         semp = sem_tab st ! j
     in
       if sint (sem_op op) > 0 then
         (if sint (sem_op op) + uint (semval semp) > sint (si_semvmx (sem_info st))
          then (Stop ERANGE, semundo_t st c semid base dn)
          else (case aoe_if st c semid op of
                  (Some e, st1) \<Rightarrow> (Stop e, semundo_t st1 c semid base dn)
                | (None, st1) \<Rightarrow>
                    semop_pass_t (upd_sem st1 j (sem_v binary_type (sem_op op))) c semid k binary_type (op # dn) ops))
       else if sint (sem_op op) < 0 then
         (if uint (semval semp) \<ge> - sint (sem_op op) then
            (case aoe_if st c semid op of
               (Some e, st1) \<Rightarrow> (Stop e, semundo_t st1 c semid base dn)
             | (None, st1) \<Rightarrow>
                 semop_pass_t (upd_sem st1 j (sem_p (sem_op op))) c semid k binary_type (op # dn) ops)
          else
            let st1 = semundo_t st c semid base dn in
            if sem_flg op AND SEM_NOWAIT \<noteq> 0 then (Stop EAGAIN, st1)
            else
              let st2 = upd_sem st1 j (\<lambda>s. s\<lparr>semncnt := semncnt s + 1,
                    semncnt_cv := sleepq_insert (ctx_prio c) (semncnt_cv s) (ctx_tid c)\<rparr>)
              in (Sleep_n j, if sint (sem_op op) < -1 then upd_sema st2 k (\<lambda>sp. sp\<lparr>sem_binary := 0\<rparr>) else st2))
       else if semval semp \<noteq> 0 then
         (let st1 = semundo_t st c semid base dn in
          if sem_flg op AND SEM_NOWAIT \<noteq> 0 then (Stop EAGAIN, st1)
          else (Sleep_z j, upd_sem st1 j (\<lambda>s. s\<lparr>semzcnt := semzcnt s + 1,
                  semzcnt_cv := sleepq_insert (ctx_prio c) (semzcnt_cv s) (ctx_tid c)\<rparr>)))
       else semop_pass_t st c semid k binary_type (op # dn) ops)"

fun semop_setpid_t :: "sem_state \<Rightarrow> nat \<Rightarrow> int32 \<Rightarrow> sembuf list \<Rightarrow> sem_state" where
  "semop_setpid_t st k pid [] = st"
| "semop_setpid_t st k pid (op # ops) =
    semop_setpid_t (upd_sem st (sem_base (sema st ! k) + unat (sem_num op)) (\<lambda>semp. semp\<lparr>sempid := pid\<rparr>)) k pid ops"

text \<open>Whether the set of an identifier is gone.\<close>

definition sem_gone :: "sem_state \<Rightarrow> int32 \<Rightarrow> bool" where
  "sem_gone st s = (semconv st s \<noteq> Ret None)"

definition semop_check_t :: "sem_state \<Rightarrow> ctx \<Rightarrow> int32 \<Rightarrow> nat \<Rightarrow> bool \<Rightarrow> sembuf list \<Rightarrow> sem_stop \<times> sem_state" where
  "semop_check_t st c semid k again uops =
    (if again \<and> sem_gone st semid then (Stop EIDRM, st)
     else
       let sp = sema st ! k; binary_type = (sem_binary sp \<noteq> 0 \<and> sem_nsems sp = 1) in
       (case semop_pass_t st c semid k binary_type [] uops of
          (All_done, st1) \<Rightarrow>
            (All_done,
             upd_sema (semop_setpid_t st1 k (ctx_pid c) uops) k (\<lambda>sp. sp\<lparr>sem_otime := ctx_now c\<rparr>))
        | (r, st1) \<Rightarrow> (r, st1)))"

section \<open>Basic facts\<close>

lemma upd_sem_simps [simp]:
  "sem_info (upd_sem st j f) = sem_info st" "sema (upd_sem st j f) = sema st"
  "semmap (upd_sem st j f) = semmap st" "sem_undos (upd_sem st j f) = sem_undos st"
  "sem_acflag (upd_sem st j f) = sem_acflag st" "length (sem_tab (upd_sem st j f)) = length (sem_tab st)"
  by (simp_all add: upd_sem_def)

lemma upd_sem_nth: "i < length (sem_tab st) \<Longrightarrow>
    sem_tab (upd_sem st j f) ! i = (if i = j then f (sem_tab st ! j) else sem_tab st ! i)"
  by (simp add: upd_sem_def nth_list_update)

lemma upd_sema_simps [simp]:
  "sem_info (upd_sema st k f) = sem_info st" "sem_tab (upd_sema st k f) = sem_tab st"
  "semmap (upd_sema st k f) = semmap st" "sem_undos (upd_sema st k f) = sem_undos st"
  "sem_acflag (upd_sema st k f) = sem_acflag st" "length (sema (upd_sema st k f)) = length (sema st)"
  by (simp_all add: upd_sema_def)

lemma upd_sema_nth: "i < length (sema st) \<Longrightarrow>
    sema (upd_sema st k f) ! i = (if i = k then f (sema st ! k) else sema st ! i)"
  by (simp add: upd_sema_def nth_list_update)

lemma sem_loop_length [simp]: "length (sem_loop_t f base i n ss) = length ss"
  by (induction n arbitrary: i ss) simp_all

lemma sem_loop_nth:
  "j < length ss \<Longrightarrow> sem_loop_t f base i n ss ! j =
    (if base + i \<le> j \<and> j < base + i + n then f (j - base) (ss ! j) else ss ! j)"
proof (induction n arbitrary: i ss)
  case (Suc n)
  show ?case
  proof (cases "j = base + i")
    case False
    then show ?thesis using Suc by (auto simp: nth_list_update)
  qed (use Suc in \<open>simp add: nth_list_update\<close>)
qed auto

section \<open>The functions of the code\<close>

lemma sem_loop_Ret: "sem_loop f base i n ss = Ret ss' \<Longrightarrow> ss' = sem_loop_t f base i n ss"
  by (induction n arbitrary: i ss) auto

lemma sem_loop_in: "base + i + n \<le> length ss \<Longrightarrow> sem_loop f base i n ss = Ret (sem_loop_t f base i n ss)"
  by (induction n arbitrary: i ss) auto

lemma sem_copyout_in:
  "base + i + n \<le> length ss \<Longrightarrow>
   sem_copyout wr ss base i n = Ret (if \<forall>j\<in>{i..<i + n}. wr j then Some (map semval (take n (drop (base + i) ss))) else None)"
proof (induction n arbitrary: i)
  case (Suc n)
  have "{i..<i + Suc n} = insert i {Suc i..<Suc i + n}" by auto
  moreover have "drop (base + i) ss = ss ! (base + i) # drop (base + Suc i) ss" using Suc.prems by (simp add: Cons_nth_drop_Suc)
  ultimately show ?case using Suc by simp
qed simp

lemma semundo_Ret: "semundo st c semid base dn = Ret st' \<Longrightarrow> st' = semundo_t st c semid base dn"
  by (induction dn arbitrary: st) (auto simp: Let_def split: if_splits)

lemma semundo_in:
  assumes "\<forall>op\<in>set dn. base + unat (sem_num op) < length (sem_tab st)"
  shows "semundo st c semid base dn = Ret (semundo_t st c semid base dn)"
  using assms by (induction dn arbitrary: st) (auto simp: Let_def)

lemma aoe_if_fields:
  assumes "aoe_if st c semid op = (r, st1)"
  shows "sem_info st1 = sem_info st" "sema st1 = sema st" "semmap st1 = semmap st"
    "sem_acflag st1 = sem_acflag st" "sem_tab st1 = sem_tab st"
  using assms by (auto simp: aoe_if_def split: if_splits prod.splits)

lemma semop_fail_Ret: "semop_fail st c semid base dn e = Ret (r, st') \<Longrightarrow> (r, st') = (Stop e, semundo_t st c semid base dn)"
  by (auto simp: semop_fail_def dest: semundo_Ret)

lemma semop_pass_Ret:
  "semop_pass st c semid k bt dn ops = Ret (r, st') \<Longrightarrow> semop_pass_t st c semid k bt dn ops = (r, st')"
proof (induction ops arbitrary: dn st)
  case (Cons op ops)
  show ?case using Cons.prems
    by (auto simp: Let_def split: if_splits prod.splits option.splits dest!: Cons.IH semundo_Ret semop_fail_Ret)
qed simp

text \<open>All operations on semaphores in the pool.\<close>

definition ops_in :: "sem_state \<Rightarrow> nat \<Rightarrow> sembuf list \<Rightarrow> bool" where
  "ops_in st k ops \<longleftrightarrow> k < length (sema st) \<and> (\<forall>op\<in>set ops. sem_base (sema st ! k) + unat (sem_num op) < length (sem_tab st))"

lemma semop_fail_in:
  assumes "\<forall>op\<in>set dn. base + unat (sem_num op) < length (sem_tab st)"
  shows "semop_fail st c semid base dn e = Ret (Stop e, semundo_t st c semid base dn)"
  using semundo_in [OF assms] by (simp add: semop_fail_def)

lemma semundo_t_len: "length (sem_tab (semundo_t st c semid base dn)) = length (sem_tab st)" "sema (semundo_t st c semid base dn) = sema st"
  by (induction dn arbitrary: st) (auto simp: Let_def)

lemma semop_pass_in:
  assumes "ops_in st k (dn @ ops)"
  shows "semop_pass st c semid k bt dn ops = Ret (semop_pass_t st c semid k bt dn ops)"
  using assms
proof (induction ops arbitrary: dn st)
  case (Cons op ops)
  let ?base = "sem_base (sema st ! k)" and ?j = "sem_base (sema st ! k) + unat (sem_num op)"
  have k: "k < length (sema st)" and j: "?j < length (sem_tab st)" and dn: "\<forall>op\<in>set dn. ?base + unat (sem_num op) < length (sem_tab st)"
    using Cons.prems by (auto simp: ops_in_def)
  have go: "semop_pass (upd_sem st1 i f) c semid k bt (op # dn) ops = Ret (semop_pass_t (upd_sem st1 i f) c semid k bt (op # dn) ops)"
    if "sema st1 = sema st" "sem_tab st1 = sem_tab st" for st1 i f
    using Cons.prems that by (intro Cons.IH) (auto simp: ops_in_def)
  have same: "semop_pass st c semid k bt (op # dn) ops = Ret (semop_pass_t st c semid k bt (op # dn) ops)"
    using Cons.prems by (intro Cons.IH) (auto simp: ops_in_def)
  obtain e st1 where a: "aoe_if st c semid op = (e, st1)" by fastforce
  note f = aoe_if_fields [OF a]
  have dn1: "\<forall>op\<in>set dn. ?base + unat (sem_num op) < length (sem_tab st1)" using dn f by simp
  show ?case
    using k j f go [OF f(2,5)] same a
    by (auto simp: Let_def semundo_in [OF dn] semop_fail_in [OF dn] semop_fail_in [OF dn1] semundo_t_len split: option.split)
qed simp

lemma semop_setpid_Ret: "semop_setpid st k pid ops = Ret st' \<Longrightarrow> st' = semop_setpid_t st k pid ops"
  by (induction ops arbitrary: st) auto

lemma semop_setpid_in: "ops_in st k ops \<Longrightarrow> semop_setpid st k pid ops = Ret (semop_setpid_t st k pid ops)"
  by (induction ops arbitrary: st) (auto simp: ops_in_def)

lemma semop_setpid_t_len: "length (sem_tab (semop_setpid_t st k pid ops)) = length (sem_tab st)" "sema (semop_setpid_t st k pid ops) = sema st"
  by (induction ops arbitrary: st) auto

lemma semop_check_Ret:
  assumes "semop_check st c semid k again ops = Ret (r, st')"
  shows "semop_check_t st c semid k again ops = (r, st')"
proof (cases "again \<and> sem_gone st semid")
  case True
  then show ?thesis using assms by (auto simp: semop_check_def semop_check_t_def sem_gone_def split: if_splits)
next
  case False
  let ?bt = "sem_binary (sema st ! k) \<noteq> 0 \<and> sem_nsems (sema st ! k) = 1"
  have "(if again then semconv st semid else Ret None) = Ret None" using False by (auto simp: sem_gone_def)
  then obtain r1 st1 where p: "semop_pass st c semid k ?bt [] ops = Ret (r1, st1)"
    and d: "(case r1 of All_done \<Rightarrow> kbind (semop_setpid st1 k (ctx_pid c) ops) (\<lambda>st2.
             kbind (put_sema st2 k (\<lambda>sp. sp\<lparr>sem_otime := ctx_now c\<rparr>)) (\<lambda>st3. Ret (All_done, st3)))
         | _ \<Rightarrow> Ret (r1, st1)) = Ret (r, st')"
    using assms by (auto simp: semop_check_def Let_def split: if_splits)
  show ?thesis using semop_pass_Ret [OF p] d False
    by (cases r1) (auto simp: semop_check_t_def Let_def dest: semop_setpid_Ret)
qed

lemma semop_pass_t_len:
  "semop_pass_t st c semid k bt dn ops = (r, st') \<Longrightarrow> length (sem_tab st') = length (sem_tab st) \<and> (r = All_done \<longrightarrow> sema st' = sema st)"
proof (induction ops arbitrary: dn st)
  case (Cons op ops)
  show ?case using Cons.prems
    by (auto simp: Let_def semundo_t_len aoe_if_fields split: if_splits prod.splits option.splits dest!: Cons.IH)
qed simp

lemma semop_check_in:
  assumes "ops_in st k ops" "\<exists>g. semconv st semid = Ret g"
  shows "semop_check st c semid k again ops = Ret (semop_check_t st c semid k again ops)"
proof -
  let ?bt = "sem_binary (sema st ! k) \<noteq> 0 \<and> sem_nsems (sema st ! k) = 1"
  obtain r1 st1 where p: "semop_pass_t st c semid k ?bt [] ops = (r1, st1)" by fastforce
  have k: "k < length (sema st)" using assms(1) by (simp add: ops_in_def)
  note l = semop_pass_t_len [OF p]
  have in1: "ops_in st1 k ops" if "r1 = All_done" using assms(1) l that by (simp add: ops_in_def)
  have c: "semop_pass st c semid k ?bt [] ops = Ret (r1, st1)" using semop_pass_in [of st k "[]" ops] assms(1) p by simp
  show ?thesis
  proof (cases "again \<and> sem_gone st semid")
    case True
    then show ?thesis using assms(2) by (auto simp: semop_check_def semop_check_t_def sem_gone_def)
  next
    case False
    then have "(if again then semconv st semid else Ret None) = Ret None" by (auto simp: sem_gone_def)
    then show ?thesis using c p k False semop_setpid_in [OF in1] l
      by (cases r1) (auto simp: semop_check_def semop_check_t_def Let_def semop_setpid_t_len)
  qed
qed

section \<open>semop is atomic\<close>

definition opsum :: "nat \<Rightarrow> sembuf list \<Rightarrow> nat \<Rightarrow> ushort" where
  "opsum base ops j = sum_list (map (\<lambda>op. if base + unat (sem_num op) = j then sem_op op else 0) ops)"

lemma opsum_simps [simp]:
  "opsum base [] j = 0"
  "opsum base (op # ops) j = (if base + unat (sem_num op) = j then sem_op op else 0) + opsum base ops j"
  by (simp_all add: opsum_def)

definition undo_ops :: "int32 \<Rightarrow> sembuf list \<Rightarrow> (short \<times> int32 \<times> ushort) list" where
  "undo_ops semid ops = map (\<lambda>op. (sem_op op, semid, sem_num op))
     (filter (\<lambda>op. sem_op op \<noteq> 0 \<and> sem_flg op AND SEM_UNDO \<noteq> 0) ops)"

lemma semundo_spec:
  "sem_info (semundo_t st c semid base dn) = sem_info st \<and> sema (semundo_t st c semid base dn) = sema st \<and>
   semmap (semundo_t st c semid base dn) = semmap st \<and> sem_acflag (semundo_t st c semid base dn) = sem_acflag st \<and>
   length (sem_tab (semundo_t st c semid base dn)) = length (sem_tab st) \<and>
   sem_undos (semundo_t st c semid base dn) =
     undo_log.rollback (semaoe (sem_info st)) (sem_undos st) (ctx_slot c) (undo_ops semid dn) \<and>
   (\<forall>j<length (sem_tab st). sem_tab (semundo_t st c semid base dn) ! j =
     (sem_tab st ! j)\<lparr>semval := semval (sem_tab st ! j) - opsum base dn j\<rparr>)"
proof (induction dn arbitrary: st)
  case Nil
  then show ?case by (simp add: undo_ops_def ul.rollback.simps)
next
  case (Cons op dn)
  show ?case
  proof (cases "sem_op op = 0")
    case True
    then show ?thesis using Cons.IH [of st] by (simp add: undo_ops_def)
  next
    case False
    let ?st = "let st1 = upd_sem st (base + unat (sem_num op)) (\<lambda>semp. semp\<lparr>semval := semval semp - sem_op op\<rparr>)
      in if sem_flg op AND SEM_UNDO \<noteq> 0
         then st1\<lparr>sem_undos := snd (semaoe (sem_info st1) (sem_undos st1) (ctx_slot c) (- sem_op op) semid (sem_num op))\<rparr>
         else st1"
    show ?thesis using Cons.IH [of ?st] False
      by (auto simp: Let_def undo_ops_def ul.rollback.simps upd_sem_nth diff_diff_add ac_simps)
  qed
qed

lemma sem_v_val [simp]: "semval (sem_v b sop s) = semval s + sop"
  by (simp add: sem_v_def Let_def)

lemma sem_p_val [simp]: "semval (sem_p sop s) = semval s + sop"
  by (simp add: sem_p_def Let_def)

text \<open>The state in the middle of a pass, \<open>dn\<close> done since the state \<open>st0\<close>.\<close>

definition pass_inv :: "ctx \<Rightarrow> int32 \<Rightarrow> nat \<Rightarrow> sem_state \<Rightarrow> sembuf list \<Rightarrow> sem_state \<Rightarrow> bool" where
  "pass_inv c semid k st0 dn st \<longleftrightarrow>
    sem_info st = sem_info st0 \<and> sema st = sema st0 \<and> semmap st = semmap st0 \<and> sem_acflag st = sem_acflag st0 \<and>
    length (sem_tab st) = length (sem_tab st0) \<and>
    (\<forall>j<length (sem_tab st0). semval (sem_tab st ! j) = semval (sem_tab st0 ! j) + opsum (sem_base (sema st0 ! k)) dn j) \<and>
    undo_log.series (semaoe (sem_info st0)) (sem_undos st0) (ctx_slot c) (rev (undo_ops semid dn)) (sem_undos st)"

text \<open>What a pass leaves behind that did not complete: the values and the undo entries of
  every process as they were.\<close>

definition restored :: "sem_state \<Rightarrow> sem_state \<Rightarrow> bool" where
  "restored st0 st \<longleftrightarrow>
    sem_info st = sem_info st0 \<and> semmap st = semmap st0 \<and> sem_acflag st = sem_acflag st0 \<and>
    map semval (sem_tab st) = map semval (sem_tab st0) \<and>
    map (\<lambda>sp. sp\<lparr>sem_binary := 0\<rparr>) (sema st) = map (\<lambda>sp. sp\<lparr>sem_binary := 0\<rparr>) (sema st0) \<and>
    undo_wf (sem_info st0) (sem_undos st) \<and>
    length (sem_undo (sem_undos st)) = length (sem_undo (sem_undos st0)) \<and>
    (\<forall>t<length (sem_undo (sem_undos st0)). ents (sem_undos st) t = ents (sem_undos st0) t)"

definition sem_ctx_ok :: "sem_state \<Rightarrow> ctx \<Rightarrow> bool" where
  "sem_ctx_ok st c \<longleftrightarrow> undo_wf (sem_info st) (sem_undos st) \<and> aem_ok (sem_info st) \<and>
     ctx_slot c < length (sem_undo (sem_undos st))"

lemma semundo_restores:
  assumes ok: "sem_ctx_ok st0 c" and inv: "pass_inv c semid k st0 dn st"
    and st1: "st1 = st \<or> (\<exists>op e. aoe_if st c semid op = (Some e, st1))"
  shows "restored st0 (semundo_t st1 c semid (sem_base (sema st0 ! k)) dn)"
    and "sema (semundo_t st1 c semid (sem_base (sema st0 ! k)) dn) = sema st0"
proof -
  let ?si = "sem_info st0" and ?s = "ctx_slot c" and ?base = "sem_base (sema st0 ! k)"
  let ?xs = "rev (undo_ops semid dn)"
  note i = inv [unfolded pass_inv_def]
  have wf0: "undo_wf ?si (sem_undos st0) \<and> aem_ok ?si" "?s < length (sem_undo (sem_undos st0))"
    using ok by (auto simp: sem_ctx_ok_def)
  have ser: "undo_log.series (semaoe ?si) (sem_undos st0) ?s ?xs (sem_undos st)" using i by blast
  note sw = ul.series_wf [OF ser wf0]
  have fields: "sem_info st1 = sem_info st" "sema st1 = sema st" "semmap st1 = semmap st"
    "sem_acflag st1 = sem_acflag st" "sem_tab st1 = sem_tab st"
    using st1 by (auto simp: aoe_if_def split: if_splits prod.splits)
  have u1: "undo_wf ?si (sem_undos st1) \<and> aem_ok ?si" "?s < length (sem_undo (sem_undos st1))"
    "ents (sem_undos st1) ?s = ents (sem_undos st) ?s" "holds_undo (sem_undos st1) ?s \<or> ?xs = []"
    "length (sem_undo (sem_undos st1)) = length (sem_undo (sem_undos st0))"
    "\<forall>t<length (sem_undo (sem_undos st0)). t \<noteq> ?s \<longrightarrow> ents (sem_undos st1) t = ents (sem_undos st0) t"
  proof -
    have "undo_wf ?si (sem_undos st1) \<and> aem_ok ?si \<and> ents (sem_undos st1) ?s = ents (sem_undos st) ?s \<and>
      (holds_undo (sem_undos st) ?s \<longrightarrow> holds_undo (sem_undos st1) ?s) \<and>
      length (sem_undo (sem_undos st1)) = length (sem_undo (sem_undos st)) \<and>
      (\<forall>t<length (sem_undo (sem_undos st)). t \<noteq> ?s \<longrightarrow> ents (sem_undos st1) t = ents (sem_undos st) t)"
    proof (cases "st1 = st")
      case True
      then show ?thesis using sw by simp
    next
      case False
      then obtain op e where a: "aoe_if st c semid op = (Some e, st1)" using st1 by blast
      then obtain u where u: "semaoe (sem_info st) (sem_undos st) ?s (sem_op op) semid (sem_num op) = (Some e, u)"
        "st1 = st\<lparr>sem_undos := u\<rparr>"
        by (auto simp: aoe_if_def split: if_splits prod.splits)
      have w: "undo_wf ?si (sem_undos st) \<and> aem_ok ?si" "?s < length (sem_undo (sem_undos st))" using sw wf0 by auto
      have info: "sem_info st = ?si" using i by blast
      note r = ul.rcd_wf [OF w u(1) [unfolded info]] ul.rcd_error [OF w u(1) [unfolded info]]
        ul.rcd_holds [OF w u(1) [unfolded info]] ul.rcd_other [OF w u(1) [unfolded info]]
      show ?thesis using r u(2) by simp
    qed
    then show "undo_wf ?si (sem_undos st1) \<and> aem_ok ?si" "?s < length (sem_undo (sem_undos st1))"
      "ents (sem_undos st1) ?s = ents (sem_undos st) ?s" "holds_undo (sem_undos st1) ?s \<or> ?xs = []"
      "length (sem_undo (sem_undos st1)) = length (sem_undo (sem_undos st0))"
      "\<forall>t<length (sem_undo (sem_undos st0)). t \<noteq> ?s \<longrightarrow> ents (sem_undos st1) t = ents (sem_undos st0) t"
      using sw wf0 by auto
  qed
  note rb = ul.rollback_series [OF ser wf0 u1(1-4), unfolded rev_rev_ident]
  note sp = semundo_spec [of st1 c semid ?base dn]
  have undos: "sem_undos (semundo_t st1 c semid ?base dn) =
      undo_log.rollback (semaoe ?si) (sem_undos st1) ?s (undo_ops semid dn)"
    using sp fields i by simp
  have vals: "map semval (sem_tab (semundo_t st1 c semid ?base dn)) = map semval (sem_tab st0)"
    using sp fields i by (auto intro!: nth_equalityI)
  show sema: "sema (semundo_t st1 c semid ?base dn) = sema st0" using sp fields i by simp
  have all: "ents (sem_undos (semundo_t st1 c semid ?base dn)) t = ents (sem_undos st0) t"
    if "t < length (sem_undo (sem_undos st0))" for t
    unfolding undos using rb u1(5,6) that by (cases "t = ?s") simp_all
  have misc: "sem_info (semundo_t st1 c semid ?base dn) = ?si" "semmap (semundo_t st1 c semid ?base dn) = semmap st0"
    "sem_acflag (semundo_t st1 c semid ?base dn) = sem_acflag st0"
    using sp fields i by simp_all
  show "restored st0 (semundo_t st1 c semid ?base dn)"
    unfolding restored_def misc sema using vals all rb u1(5) undos by simp
qed

lemma pass_inv_step:
  assumes inv: "pass_inv c semid k st0 dn st" and a: "aoe_if st c semid op = (None, st1)" and nz: "sem_op op \<noteq> 0"
    and f: "\<And>s. semval (f s) = semval s + sem_op op"
  shows "pass_inv c semid k st0 (op # dn) (upd_sem st1 (sem_base (sema st0 ! k) + unat (sem_num op)) f)"
proof -
  note i = inv [unfolded pass_inv_def]
  have ser: "undo_log.series (semaoe (sem_info st0)) (sem_undos st0) (ctx_slot c)
      (rev (undo_ops semid (op # dn))) (sem_undos st1)"
  proof (cases "sem_flg op AND SEM_UNDO = 0")
    case True
    then show ?thesis using i a by (auto simp: aoe_if_def undo_ops_def)
  next
    case False
    then have "semaoe (sem_info st0) (sem_undos st) (ctx_slot c) (sem_op op) semid (sem_num op) = (None, sem_undos st1)"
      using i a by (auto simp: aoe_if_def split: prod.splits)
    then show ?thesis using i nz False by (auto simp: undo_ops_def ul.series_snoc)
  qed
  show ?thesis
    unfolding pass_inv_def
    using i ser aoe_if_fields [OF a] f by (auto simp: upd_sem_nth)
qed

lemma restored_sleep:
  assumes "restored st0 st1" "\<And>s. semval (f s) = semval s"
  shows "restored st0 (upd_sem st1 j f)"
    and "restored st0 (upd_sema (upd_sem st1 j f) k (\<lambda>sp. sp\<lparr>sem_binary := b\<rparr>))"
proof -
  have "map semval (sem_tab (upd_sem st1 j f)) = map semval (sem_tab st1)"
    using assms(2) by (auto intro!: nth_equalityI simp: upd_sem_nth)
  moreover have "map (\<lambda>sp. sp\<lparr>sem_binary := 0\<rparr>) (sema (upd_sema (upd_sem st1 j f) k (\<lambda>sp. sp\<lparr>sem_binary := b\<rparr>))) =
      map (\<lambda>sp. sp\<lparr>sem_binary := 0\<rparr>) (sema st1)"
    by (auto intro!: nth_equalityI simp: upd_sema_nth)
  ultimately show "restored st0 (upd_sem st1 j f)"
    "restored st0 (upd_sema (upd_sem st1 j f) k (\<lambda>sp. sp\<lparr>sem_binary := b\<rparr>))"
    using assms(1) by (simp_all add: restored_def)
qed

lemma semop_pass_atomic:
  assumes "sem_ctx_ok st0 c" "pass_inv c semid k st0 dn st" "semop_pass_t st c semid k bt dn ops = (r, st')"
  shows "if r = All_done then pass_inv c semid k st0 (rev ops @ dn) st' else restored st0 st'"
  using assms(2,3)
proof (induction ops arbitrary: dn st)
  case (Cons op ops)
  note inv = Cons.prems(1)
  let ?base = "sem_base (sema st0 ! k)"
  let ?j = "?base + unat (sem_num op)"
  have sema: "sema st = sema st0" using inv by (simp add: pass_inv_def)
  have undo: "restored st0 (semundo_t st c semid ?base dn)"
    using semundo_restores [OF assms(1) inv] by blast
  have undo1: "restored st0 (semundo_t st1 c semid ?base dn)" if "aoe_if st c semid op = (Some e, st1)" for e st1
    using semundo_restores [OF assms(1) inv] that by blast
  note step = pass_inv_step [OF inv]
  consider (v) "sint (sem_op op) > 0" | (p) "sint (sem_op op) < 0" | (z) "sem_op op = 0"
    using sint_eq_iff [of "sem_op op" 0] by fastforce
  then show ?case
  proof cases
    case v
    then have nz: "sem_op op \<noteq> 0" by auto
    show ?thesis
    proof (cases "sint (sem_op op) + uint (semval (sem_tab st ! ?j)) > sint (si_semvmx (sem_info st))")
      case True
      then show ?thesis using Cons.prems(2) v undo by (auto simp: sema Let_def)
    next
      case False
      obtain e st1 where a: "aoe_if st c semid op = (e, st1)" by fastforce
      show ?thesis
      proof (cases e)
        case None
        have "semop_pass_t (upd_sem st1 ?j (sem_v bt (sem_op op))) c semid k bt (op # dn) ops = (r, st')"
          using Cons.prems(2) v False a None by (simp add: sema Let_def)
        from Cons.IH [OF step [OF a [unfolded None] nz] this] show ?thesis by simp
      next
        case (Some e')
        then show ?thesis using Cons.prems(2) v False a undo1 by (auto simp: sema Let_def)
      qed
    qed
  next
    case p
    then have nz: "sem_op op \<noteq> 0" and nv: "\<not> sint (sem_op op) > 0" by auto
    show ?thesis
    proof (cases "uint (semval (sem_tab st ! ?j)) \<ge> - sint (sem_op op)")
      case True
      obtain e st1 where a: "aoe_if st c semid op = (e, st1)" by fastforce
      show ?thesis
      proof (cases e)
        case None
        have "semop_pass_t (upd_sem st1 ?j (sem_p (sem_op op))) c semid k bt (op # dn) ops = (r, st')"
          using Cons.prems(2) p nv True a None by (simp add: sema Let_def)
        from Cons.IH [OF step [OF a [unfolded None] nz] this] show ?thesis by simp
      next
        case (Some e')
        then show ?thesis using Cons.prems(2) p nv True a undo1 by (auto simp: sema Let_def)
      qed
    next
      case False
      then show ?thesis using Cons.prems(2) p nv undo restored_sleep [OF undo]
        by (auto simp: sema Let_def split: if_splits)
    qed
  next
    case z
    show ?thesis
    proof (cases "semval (sem_tab st ! ?j) = 0")
      case True
      have "pass_inv c semid k st0 (op # dn) st" using inv z by (simp add: pass_inv_def undo_ops_def)
      moreover have "semop_pass_t st c semid k bt (op # dn) ops = (r, st')"
        using Cons.prems(2) z True by (simp add: sema Let_def)
      ultimately show ?thesis using Cons.IH by fastforce
    next
      case False
      then show ?thesis using Cons.prems(2) z undo restored_sleep(1) [OF undo]
        by (auto simp: sema Let_def split: if_splits)
    qed
  qed
qed simp

text \<open>The values after a complete pass, as integers.\<close>

definition opsum_int :: "nat \<Rightarrow> sembuf list \<Rightarrow> nat \<Rightarrow> int" where
  "opsum_int base ops j = sum_list (map (\<lambda>op. if base + unat (sem_num op) = j then sint (sem_op op) else 0) ops)"

lemma uint_add_sint:
  fixes v w :: ushort
  assumes "0 \<le> uint v + sint w" "uint v + sint w < 65536"
  shows "uint (v + w) = uint v + sint w"
proof -
  have "v + w = word_of_int (uint v + sint w)" by simp
  then have "uint (v + w) = take_bit LENGTH(16) (uint v + sint w)" by (simp only: uint_word_of_int_eq)
  then show ?thesis using assms by (simp add: take_bit_int_eq_self)
qed

lemma opsum_int_simps [simp]:
  "opsum_int base [] j = 0"
  "opsum_int base (op # ops) j = (if base + unat (sem_num op) = j then sint (sem_op op) else 0) + opsum_int base ops j"
  by (simp_all add: opsum_int_def)

definition vmx_ok :: "sem_state \<Rightarrow> bool" where
  "vmx_ok st \<longleftrightarrow> 0 \<le> sint (si_semvmx (sem_info st)) \<and> sint (si_semvmx (sem_info st)) \<le> 65535 \<and>
     (\<forall>s\<in>set (sem_tab st). uint (semval s) \<le> sint (si_semvmx (sem_info st)))"

text \<open>A change of one value that stays in its range is the change on integers.\<close>

lemma upd_sem_val:
  assumes "j < length (sem_tab st)" "vmx_ok st" "\<And>s. semval (f s) = semval s + w"
    and "0 \<le> uint (semval (sem_tab st ! j)) + sint w" "uint (semval (sem_tab st ! j)) + sint w \<le> sint (si_semvmx (sem_info st))"
  shows "vmx_ok (upd_sem st j f)"
    and "i < length (sem_tab st) \<Longrightarrow> uint (semval (sem_tab (upd_sem st j f) ! i)) =
      uint (semval (sem_tab st ! i)) + (if i = j then sint w else 0)"
proof -
  have u: "uint (semval (f (sem_tab st ! j))) = uint (semval (sem_tab st ! j)) + sint w"
    using assms(2-5) by (simp add: vmx_ok_def uint_add_sint)
  have "set (sem_tab (upd_sem st j f)) \<subseteq> insert (f (sem_tab st ! j)) (set (sem_tab st))"
    by (simp add: upd_sem_def set_update_subset_insert)
  then show "vmx_ok (upd_sem st j f)" using assms(2,5) u by (auto simp: vmx_ok_def)
  show "uint (semval (sem_tab (upd_sem st j f) ! i)) =
      uint (semval (sem_tab st ! i)) + (if i = j then sint w else 0)" if "i < length (sem_tab st)"
    using that u by (simp add: upd_sem_nth)
qed

lemma vmx_ok_cong: "sem_info st1 = sem_info st \<Longrightarrow> sem_tab st1 = sem_tab st \<Longrightarrow> vmx_ok st1 \<longleftrightarrow> vmx_ok st"
  by (simp add: vmx_ok_def)

text \<open>In a complete pass every intermediate value is in range, the final one in particular.\<close>

lemma semop_pass_values:
  assumes "semop_pass_t st c semid k bt dn ops = (All_done, st')" "vmx_ok st"
    and "\<forall>op\<in>set ops. sem_base (sema st ! k) + unat (sem_num op) < length (sem_tab st)"
  shows "vmx_ok st' \<and> length (sem_tab st') = length (sem_tab st) \<and> sema st' = sema st \<and>
    (\<forall>j<length (sem_tab st). uint (semval (sem_tab st' ! j)) =
      uint (semval (sem_tab st ! j)) + opsum_int (sem_base (sema st ! k)) ops j)"
  using assms
proof (induction ops arbitrary: dn st)
  case (Cons op ops)
  let ?base = "sem_base (sema st ! k)"
  let ?j = "?base + unat (sem_num op)"
  have jl: "?j < length (sem_tab st)" using Cons.prems(3) by simp
  have vm: "uint (semval (sem_tab st ! ?j)) \<le> sint (si_semvmx (sem_info st))"
    using Cons.prems(2) jl by (simp add: vmx_ok_def)
  have go: ?case
    if a: "aoe_if st c semid op = (None, st1)" and f: "\<And>s. semval (f s) = semval s + sem_op op"
      and r: "0 \<le> uint (semval (sem_tab st ! ?j)) + sint (sem_op op)"
        "uint (semval (sem_tab st ! ?j)) + sint (sem_op op) \<le> sint (si_semvmx (sem_info st))"
      and p: "semop_pass_t (upd_sem st1 ?j f) c semid k bt (op # dn) ops = (All_done, st')" for st1 f
  proof -
    note fl = aoe_if_fields [OF a]
    have v1: "vmx_ok st1" using Cons.prems(2) vmx_ok_cong fl by metis
    have l1: "?j < length (sem_tab st1)" using jl fl by simp
    note u = upd_sem_val [OF l1 v1 f, unfolded fl, OF r]
    have "\<forall>op\<in>set ops. sem_base (sema (upd_sem st1 ?j f) ! k) + unat (sem_num op) < length (sem_tab (upd_sem st1 ?j f))"
      using Cons.prems(3) fl by simp
    from Cons.IH [OF p u(1) this] u(2) fl show ?thesis by simp
  qed
  consider (v) "sint (sem_op op) > 0" | (p) "sint (sem_op op) < 0" | (z) "sem_op op = 0"
    using sint_eq_iff [of "sem_op op" 0] by fastforce
  then show ?case
  proof cases
    case v
    obtain st1 where s: "\<not> sint (sem_op op) + uint (semval (sem_tab st ! ?j)) > sint (si_semvmx (sem_info st))"
      "aoe_if st c semid op = (None, st1)"
      "semop_pass_t (upd_sem st1 ?j (sem_v bt (sem_op op))) c semid k bt (op # dn) ops = (All_done, st')"
      using Cons.prems(1) v by (auto simp: Let_def split: if_splits prod.splits option.splits)
    show ?thesis by (rule go [OF s(2) sem_v_val _ _ s(3)]) (use s(1) v in \<open>simp_all add: add.commute\<close>)
  next
    case p
    then have nv: "\<not> sint (sem_op op) > 0" by simp
    obtain st1 where s: "uint (semval (sem_tab st ! ?j)) \<ge> - sint (sem_op op)"
      "aoe_if st c semid op = (None, st1)"
      "semop_pass_t (upd_sem st1 ?j (sem_p (sem_op op))) c semid k bt (op # dn) ops = (All_done, st')"
      using Cons.prems(1) p nv by (auto simp: Let_def split: if_splits prod.splits option.splits)
    show ?thesis by (rule go [OF s(2) sem_p_val _ _ s(3)]) (use s(1) p vm in simp_all)
  next
    case z
    then have "semop_pass_t st c semid k bt (op # dn) ops = (All_done, st')"
      using Cons.prems(1) by (auto simp: Let_def split: if_splits)
    then show ?thesis using Cons.IH Cons.prems z by fastforce
  qed
qed simp

end
