(* ===== verification/Sem_Inv.thy ===== *)
theory Sem_Inv
  imports Sem_Pass
begin

text \<open>
  The invariant of the semaphore facility and the proof that every operation keeps it: the live
  sets occupy disjoint parts of the pool, disjoint from the free addresses of the resource map;
  sequence numbers stay in their range; the undo state is well formed and refers to live sets
  only; the values are within the limit, and those outside the live sets are zero.
\<close>

section \<open>Identifiers\<close>

text \<open>The parts of a set that the layout of the facility depends on.\<close>

record shape =
  sh_used :: bool
  sh_seq :: ulong
  sh_base :: nat
  sh_nsems :: nat

definition sem_shape :: "semid_ds \<Rightarrow> shape" where
  "sem_shape sp = \<lparr>sh_used = ipc_used (sem_perm sp), sh_seq = perm_seq (sem_perm sp), sh_base = sem_base sp,
     sh_nsems = unat (sem_nsems sp)\<rparr>"

abbreviation shapes :: "sem_state \<Rightarrow> shape list" where
  "shapes st \<equiv> map sem_shape (sema st)"

definition sem_find :: "shape list \<Rightarrow> int32 \<Rightarrow> nat option" where
  "sem_find hs d = (let i = sem_index d in
     if i < length hs \<and> sh_used (hs ! i) \<and> sh_seq (hs ! i) = sem_sequence d then Some i else None)"

lemma semconv_lock_find:
  assumes "length (sema st) = nat (sint (si_semmni (sem_info st)))"
  shows "semconv_lock st d = Ret (sem_find (shapes st) d)"
proof -
  have "int (sem_index d) \<ge> sint (si_semmni (sem_info st)) \<longleftrightarrow> \<not> sem_index d < length (sema st)"
    using assms by auto
  then show ?thesis
    by (simp add: semconv_lock_def sem_find_def Let_def elem_at_def) (simp add: sem_shape_def ipc_used_def)
qed

lemma semconv_find:
  assumes "length (sema st) = nat (sint (si_semmni (sem_info st)))"
  shows "semconv st d = Ret (if sem_find (shapes st) d = None then Some EINVAL else None)"
proof -
  have "semconv st d = kbind (semconv_lock st d) (\<lambda>r. Ret (if r = None then Some EINVAL else None))"
    by (simp add: semconv_def semconv_lock_def Let_def elem_at_def)
  then show ?thesis by (simp add: semconv_lock_find [OF assms])
qed

definition sem_mk :: "nat \<Rightarrow> ulong \<Rightarrow> int32" where
  "sem_mk k s = push_bit SEMA_SEQ_SHIFT s + of_nat k"

definition sem_bump :: "int32 \<Rightarrow> ulong \<Rightarrow> ulong" where
  "sem_bump d s = (if sem_sequence d = SEMA_SEQ_MAX then 0 else s + 1)"

lemma sem_index_mod: "int (sem_index d) = uint d mod 65536"
proof -
  have "d AND 0xFFFF = take_bit 16 d" by (simp add: take_bit_eq_mask mask_eq_exp_minus_1)
  then have "uint (d AND 0xFFFF) = take_bit 16 (uint d)" by (simp add: unsigned_take_bit_eq)
  then show ?thesis by (simp add: sem_index_def SEMA_INDEX_MASK_def take_bit_eq_mod)
qed

lemma sem_sequence_div:
  assumes "0 \<le> sint d"
  shows "uint (sem_sequence d) = uint d div 65536" and "uint d div 65536 < 32768"
proof -
  have u: "uint d = sint d" "uint d < 2147483648"
    using uint_of_sint_nonneg [OF assms] sint_in_range(2) [of d] by simp_all
  have dv: "drop_bit 16 (sint d) = uint d div 65536" using u by (simp add: drop_bit_eq_div)
  have lt: "uint d div 65536 < 32768" using u by simp
  have "sint (signed_drop_bit 16 d) = uint d div 65536" by (simp add: sint_signed_drop_bit_eq dv)
  then have "uint (signed_drop_bit 16 d) = uint d div 65536" using uint_of_sint_nonneg [of "signed_drop_bit 16 d"] uint_div_nonneg [of 65536 d] by simp
  moreover have "signed_drop_bit 16 d AND 0x7FFF = take_bit 15 (signed_drop_bit 16 d)"
    by (simp add: take_bit_eq_mask mask_eq_exp_minus_1)
  ultimately have "uint (signed_drop_bit 16 d AND 0x7FFF) = take_bit 15 (uint d div 65536)"
    by (simp add: unsigned_take_bit_eq)
  then show "uint (sem_sequence d) = uint d div 65536"
    using lt uint_div_nonneg [of 65536 d] by (simp add: sem_sequence_def SEMA_SEQ_SHIFT_def SEMA_SEQ_MASK_def take_bit_int_eq_self)
  show "uint d div 65536 < 32768" by (rule lt)
qed

lemma sem_mk_uint:
  assumes "k < 65536" "unat s \<le> 32767"
  shows "uint (sem_mk k s) = uint s * 65536 + int k" and "0 \<le> sint (sem_mk k s)"
proof -
  have s: "uint s \<le> 32767" using assms(2) uint_int_unat [of s] by linarith
  have "sem_mk k s = word_of_int (uint s * 65536 + int k)"
    by (simp add: sem_mk_def SEMA_SEQ_SHIFT_def push_bit_eq_mult)
  then have "uint (sem_mk k s) = take_bit LENGTH(32) (uint s * 65536 + int k)" by (simp only: uint_word_of_int_eq)
  then show u: "uint (sem_mk k s) = uint s * 65536 + int k"
    using s assms(1) by (simp add: take_bit_int_eq_self)
  then have "uint (sem_mk k s) < 2 ^ (LENGTH(32) - 1)" using s assms(1) by simp
  then show "0 \<le> sint (sem_mk k s)" by (simp add: sint_of_uint_small)
qed

lemma sem_mk_parts:
  assumes "k < 65536" "unat s \<le> 32767"
  shows "sem_index (sem_mk k s) = k" and "sem_sequence (sem_mk k s) = s"
proof -
  note m = sem_mk_uint [OF assms]
  have "int (sem_index (sem_mk k s)) = int k" unfolding sem_index_mod m using assms(1) by simp
  then show "sem_index (sem_mk k s) = k" by simp
  have "uint (sem_sequence (sem_mk k s)) = uint s" unfolding sem_sequence_div [OF m(2)] m using assms(1) by simp
  then show "sem_sequence (sem_mk k s) = s" by (simp add: word_uint_eq_iff)
qed

text \<open>A non-negative identifier is the one that was handed out for its entry and sequence number.\<close>

lemma sem_mk_canonical:
  assumes "0 \<le> sint d"
  shows "sem_mk (sem_index d) (sem_sequence d) = d"
proof -
  have s: "unat (sem_sequence d) \<le> 32767" using sem_sequence_div [OF assms] uint_int_unat [of "sem_sequence d"] by linarith
  have "uint d mod 65536 < 65536" by simp
  then have i: "sem_index d < 65536" using sem_index_mod [of d] by linarith
  show ?thesis
    unfolding word_uint_eq_iff sem_mk_uint [OF i s] sem_sequence_div [OF assms] sem_index_mod by simp
qed

lemma sem_sequence_max: "unat (sem_sequence d) \<le> 32767"
proof -
  have "sem_sequence d = take_bit 15 (signed_drop_bit 16 d)"
    by (simp add: sem_sequence_def SEMA_SEQ_SHIFT_def SEMA_SEQ_MASK_def take_bit_eq_mask mask_eq_exp_minus_1)
  then have "uint (sem_sequence d) = take_bit 15 (uint (signed_drop_bit 16 d))" by (simp add: unsigned_take_bit_eq)
  also have "\<dots> < 32768" using take_bit_int_less_exp [of 15] by simp
  finally show ?thesis using uint_int_unat [of "sem_sequence d"] by linarith
qed

interpretation sid: ipc_ids "nat (sint mni)" sem_mk sem_index sem_sequence "\<lambda>d. int (sem_index d) < sint mni"
    "\<lambda>k s. sint mni \<le> 65535 \<and> unat s \<le> 32767" sem_bump for mni :: int32
proof (unfold_locales, goal_cases)
  case (1 i s)
  then show ?case using sem_mk_parts [of i s] by auto
next
  case (2 d)
  then show ?case by auto
next
  case (3 d)
  have "unat (sem_sequence d + 1) \<le> 32767" if "sem_sequence d \<noteq> 0x7FFF"
  proof -
    have "unat (sem_sequence d) \<noteq> unat (0x7FFF :: ulong)" using that by (simp only: word_unat_eq_iff not_False_eq_True)
    then have "unat (sem_sequence d) < 32767" using 3 by simp
    then show ?thesis by (simp add: unat_add_nowrap)
  qed
  then show ?case using 3 by (auto simp: sem_bump_def SEMA_SEQ_MAX_def)
next
  case (4 d)
  then show ?case by (auto simp: sem_bump_def SEMA_SEQ_MAX_def)
qed

section \<open>Layout\<close>

definition sh_blk :: "shape \<Rightarrow> nat set" where
  "sh_blk h = {sh_base h + 1 ..< sh_base h + 1 + sh_nsems h}"

abbreviation live_sets :: "shape list \<Rightarrow> nat set" where
  "live_sets hs \<equiv> {k. k < length hs \<and> sh_used (hs ! k)}"

definition sem_layout :: "seminfo \<Rightarrow> shape list \<Rightarrow> map_head \<Rightarrow> nat \<Rightarrow> bool" where
  "sem_layout si hs mp n \<longleftrightarrow>
    0 \<le> sint (si_semmni si) \<and> sint (si_semmni si) \<le> 65535 \<and> length hs = nat (sint (si_semmni si)) \<and>
    sint (si_semmsl si) \<le> 65535 \<and> n < 2147483647 \<and>
    map_wf mp \<and> 2 \<le> unat (m_nsegs mp) \<and> free_set mp \<subseteq> {1..n} \<and>
    (\<forall>h\<in>set hs. unat (sh_seq h) \<le> 32767) \<and>
    (\<forall>h\<in>set hs. sh_used h \<longrightarrow> 0 < sh_nsems h \<and> sh_nsems h \<le> 65535 \<and> sh_base h + sh_nsems h \<le> n) \<and>
    owned (free_set mp) (live_sets hs) (\<lambda>k. sh_blk (hs ! k))"

lemma sem_layoutD:
  assumes "sem_layout si hs mp n"
  shows "length hs = nat (sint (si_semmni si))" "map_wf mp" "2 \<le> unat (m_nsegs mp)" "free_set mp \<subseteq> {1..n}"
    "k < length hs \<Longrightarrow> unat (sh_seq (hs ! k)) \<le> 32767"
    "k \<in> live_sets hs \<Longrightarrow> 0 < sh_nsems (hs ! k) \<and> sh_nsems (hs ! k) \<le> 65535 \<and> sh_base (hs ! k) + sh_nsems (hs ! k) \<le> n"
    "owned (free_set mp) (live_sets hs) (\<lambda>k. sh_blk (hs ! k))" "n < 2147483647"
    "k < length hs \<Longrightarrow> k < 65536" "sint (si_semmni si) \<le> 65535" "sint (si_semmsl si) \<le> 65535"
  using assms unfolding sem_layout_def by auto

lemma sh_blk_eq:
  assumes "sh_base h + sh_nsems h \<le> n" "n < 2147483647" "sh_nsems h \<le> 65535"
  shows "unat (of_nat (sh_base h) + 1 :: ulong) = sh_base h + 1"
    and "blk (of_nat (sh_base h) + 1) (of_nat (sh_nsems h)) = sh_blk h"
proof -
  have b: "unat (of_nat (sh_base h) :: ulong) = sh_base h"
    using assms by (simp add: unsigned_of_nat take_bit_nat_eq_self)
  then show u: "unat (of_nat (sh_base h) + 1 :: ulong) = sh_base h + 1"
    using assms by (subst unat_add_nowrap) simp_all
  have "unat (of_nat (sh_nsems h) :: ulong) = sh_nsems h"
    using assms by (simp add: unsigned_of_nat take_bit_nat_eq_self)
  then show "blk (of_nat (sh_base h) + 1) (of_nat (sh_nsems h)) = sh_blk h"
    by (simp add: blk_def u sh_blk_def)
qed

lemma sem_layout_upd:
  assumes lay: "sem_layout si hs mp n" and m: "map_wf mp'" "unat (m_nsegs mp') = unat (m_nsegs mp)" "free_set mp' \<subseteq> {1..n}"
    and h: "unat (sh_seq h) \<le> 32767"
      "sh_used h \<Longrightarrow> 0 < sh_nsems h \<and> sh_nsems h \<le> 65535 \<and> sh_base h + sh_nsems h \<le> n"
    and own: "owned (free_set mp') (live_sets (hs[k := h])) (\<lambda>i. sh_blk (hs[k := h] ! i))"
  shows "sem_layout si (hs[k := h]) mp' n"
proof -
  have mem: "x = h \<or> x \<in> set hs" if "x \<in> set (hs[k := h])" for x
    using that set_update_subset_insert [of hs k h] by blast
  show ?thesis
    unfolding sem_layout_def
  proof (intro conjI ballI impI)
    fix x assume x: "x \<in> set (hs[k := h])"
    show "unat (sh_seq x) \<le> 32767" using mem [OF x] h(1) lay by (auto simp: sem_layout_def)
    assume "sh_used x"
    then show "0 < sh_nsems x" "sh_nsems x \<le> 65535" "sh_base x + sh_nsems x \<le> n"
      using mem [OF x] h(2) lay by (auto simp: sem_layout_def)
  qed (use lay m own in \<open>simp_all add: sem_layout_def\<close>)
qed

text \<open>Giving the block of a set back to the resource map.\<close>

lemma sem_layout_release:
  assumes lay: "sem_layout si hs mp n" and k: "k \<in> live_sets hs"
    and h: "\<not> sh_used h" "unat (sh_seq h) \<le> 32767"
  shows "\<exists>mp' w. rmfree mp (of_nat (sh_nsems (hs ! k))) (of_nat (sh_base (hs ! k)) + 1) = Ret (mp', w) \<and>
    sem_layout si (hs[k := h]) mp' n"
proof -
  note d = sem_layoutD [OF lay]
  let ?h = "hs ! k" and ?B = "\<lambda>k. sh_blk (hs ! k)"
  let ?sz = "of_nat (sh_nsems ?h) :: ulong" and ?a = "of_nat (sh_base ?h) + 1 :: ulong"
  have kk: "0 < sh_nsems ?h" "sh_nsems ?h \<le> 65535" "sh_base ?h + sh_nsems ?h \<le> n" using d(6) k by auto
  have ua: "unat ?a = sh_base ?h + 1" and bl: "blk ?a ?sz = sh_blk ?h" using sh_blk_eq kk d(8) by auto
  have us: "unat ?sz = sh_nsems ?h" using kk by (simp add: unsigned_of_nat take_bit_nat_eq_self)
  have a0: "?a \<noteq> 0" using ua by (metis add_is_0 one_neq_zero unat_0)
  have sz: "0 < sint ?sz" unfolding sint_pos_iff using us kk by simp
  have sum: "unat ?a + unat ?sz < 2 ^ 32" using ua us kk d(8) by simp
  obtain mp' w where r: "rmfree mp ?sz ?a = Ret (mp', w)" and wf: "map_wf mp'"
    "unat (m_nsegs mp') = unat (m_nsegs mp)" and own: "owned (free_set mp') (live_sets hs - {k}) ?B"
    using rm.release_owned [OF d(2,3) a0 sz sum d(7) k bl [symmetric]] by blast
  have dis: "blk ?a ?sz \<inter> free_set mp = {}" using d(7) k bl by (auto simp: owned_def)
  have fr: "free_set mp' \<subseteq> {1..n}"
    using rm.release_free [OF d(2,3) a0 sz sum dis r] d(4) kk(3) unfolding bl
    by (auto simp: sh_blk_def)
  have live: "live_sets (hs[k := h]) = live_sets hs - {k}" using h(1) k by (auto simp: nth_list_update split: if_splits)
  have "owned (free_set mp') (live_sets (hs[k := h])) (\<lambda>i. sh_blk (hs[k := h] ! i))"
    unfolding live using own by (subst owned_cong [of _ _ ?B]) auto
  then have "sem_layout si (hs[k := h]) mp' n"
    using h by (intro sem_layout_upd [OF lay wf fr]) auto
  with r show ?thesis by blast
qed

text \<open>A block for a new set.\<close>

lemma sem_layout_alloc:
  assumes lay: "sem_layout si hs mp n" and k: "k < length hs" "\<not> sh_used (hs ! k)"
    and sz: "0 < sint nsems" "sint nsems \<le> 65535" and a: "rmalloc mp nsems = Ret (i, mp')" "i \<noteq> 0"
  defines "h \<equiv> \<lparr>sh_used = True, sh_seq = sh_seq (hs ! k), sh_base = unat (i - 1), sh_nsems = unat nsems\<rparr>"
  shows "sem_layout si (hs[k := h]) mp' n"
    and "m \<in> live_sets hs \<Longrightarrow> sh_blk h \<inter> sh_blk (hs ! m) = {}"
    and "unat (i - 1) + unat nsems \<le> n"
proof -
  note d = sem_layoutD [OF lay]
  let ?B = "\<lambda>k. sh_blk (hs ! k)"
  have kl: "k \<notin> live_sets hs" using k by simp
  have u1: "unat (i - 1) = unat i - 1" using a(2) unat_nonzero [of i] by (subst unat_sub_nowrap) auto
  have bi: "blk i nsems = sh_blk h" using a(2) unat_nonzero [of i] by (simp add: blk_def sh_blk_def h_def u1)
  have "int (unat nsems) = sint nsems" using uint_of_sint_nonneg [of nsems] sz by simp
  then have un: "0 < unat nsems" "unat nsems \<le> 65535" using sz by linarith+
  have sub: "blk i nsems \<subseteq> free_set mp" and fr: "free_set mp' = free_set mp - blk i nsems"
    using rm.alloc_block [OF d(2) sz(1) a] by auto
  have wf: "map_wf mp'" "unat (m_nsegs mp') = unat (m_nsegs mp)"
    using rm.alloc_wf [OF d(2) sz(1) a(1)] rm.alloc_slots [OF d(2) sz(1) a(1)] by auto
  note own = rm.alloc_owned [OF d(2) sz(1) d(7) kl a]
  have "unat i + unat nsems - 1 \<in> blk i nsems" using un by (auto simp: blk_def)
  then have top: "unat i + unat nsems - 1 \<le> n" using sub d(4) by auto
  then show bound: "unat (i - 1) + unat nsems \<le> n" using u1 a(2) unat_nonzero [of i] un by auto
  have live: "live_sets (hs[k := h]) = insert k (live_sets hs)"
    using k(1) by (auto simp: nth_list_update h_def split: if_splits)
  have own': "owned (free_set mp') (live_sets (hs[k := h])) (\<lambda>m. sh_blk (hs[k := h] ! m))"
    unfolding live using own k(1) bi
    by (subst owned_cong [of _ _ "?B(k := blk i nsems)"]) (auto simp: nth_list_update)
  have fr': "free_set mp' \<subseteq> {1..n}" using fr d(4) by blast
  have "unat (sh_seq h) \<le> 32767" using d(5) [OF k(1)] by (simp add: h_def)
  moreover have "sh_nsems h = unat nsems" "sh_base h + sh_nsems h \<le> n" using bound by (simp_all add: h_def)
  ultimately show "sem_layout si (hs[k := h]) mp' n"
    using own' un by (intro sem_layout_upd [OF lay wf fr']) auto
  show "sh_blk h \<inter> sh_blk (hs ! m) = {}" if "m \<in> live_sets hs"
    using d(7) that sub bi unfolding owned_def by blast
qed

section \<open>The invariant\<close>

definition in_set :: "shape \<Rightarrow> nat \<Rightarrow> bool" where
  "in_set h j \<longleftrightarrow> sh_base h \<le> j \<and> j < sh_base h + sh_nsems h"

definition in_live :: "shape list \<Rightarrow> nat \<Rightarrow> bool" where
  "in_live hs j \<longleftrightarrow> (\<exists>k\<in>live_sets hs. in_set (hs ! k) j)"

definition ekeys :: "undo_state \<Rightarrow> nat \<Rightarrow> (int32 \<times> ushort) set" where
  "ekeys u t = (\<lambda>e. (un_id e, un_num e)) ` set (ents u t)"

text \<open>
  An undo entry refers to a semaphore of a live set. The entries are kept under the identifier that the call
  was given, and a negative identifier names the same set as the one that \<open>semget\<close> gave; what is said about the
  entries is asked for when \<open>sr\<close> is true, and then the calls are with the identifiers of \<open>semget\<close> only.
\<close>

definition ref_ok :: "bool \<Rightarrow> shape list \<Rightarrow> int32 \<Rightarrow> ushort \<Rightarrow> bool" where
  "ref_ok sr hs d n \<longleftrightarrow> (sr \<longrightarrow> 0 \<le> sint d \<and> (\<exists>k. sem_find hs d = Some k \<and> unat n < sh_nsems (hs ! k)))"

definition undo_refs :: "bool \<Rightarrow> shape list \<Rightarrow> undo_state \<Rightarrow> bool" where
  "undo_refs sr hs u \<longleftrightarrow> (\<forall>t<length (sem_undo u). \<forall>(d, n)\<in>ekeys u t. ref_ok sr hs d n)"

definition sem_wfs :: "bool \<Rightarrow> sem_state \<Rightarrow> bool" where
  "sem_wfs sr st \<longleftrightarrow> sem_layout (sem_info st) (shapes st) (semmap st) (length (sem_tab st)) \<and>
     undo_wf (sem_info st) (sem_undos st) \<and> aem_ok (sem_info st) \<and>
     undo_refs sr (shapes st) (sem_undos st) \<and> vmx_ok st \<and>
     (\<forall>j<length (sem_tab st). \<not> in_live (shapes st) j \<longrightarrow> semval (sem_tab st ! j) = 0)"

text \<open>The whole invariant, and the part that does not depend on the identifiers used.\<close>

abbreviation sem_wf :: "sem_state \<Rightarrow> bool" where
  "sem_wf \<equiv> sem_wfs True"

abbreviation sem_tables :: "sem_state \<Rightarrow> bool" where
  "sem_tables \<equiv> sem_wfs False"

lemma sem_wf_tables: "sem_wfs sr st \<Longrightarrow> sem_tables st"
  by (simp add: sem_wfs_def undo_refs_def ref_ok_def)

lemma sem_wfD:
  assumes "sem_wfs sr st"
  shows "sem_layout (sem_info st) (shapes st) (semmap st) (length (sem_tab st))"
    "undo_wf (sem_info st) (sem_undos st)" "aem_ok (sem_info st)" "undo_refs sr (shapes st) (sem_undos st)" "vmx_ok st"
    "j < length (sem_tab st) \<Longrightarrow> \<not> in_live (shapes st) j \<Longrightarrow> semval (sem_tab st ! j) = 0"
    "length (sema st) = nat (sint (si_semmni (sem_info st)))"
    "semconv_lock st d = Ret (sem_find (shapes st) d)"
    "semconv st d = Ret (if sem_find (shapes st) d = None then Some EINVAL else None)"
proof -
  show *: "length (sema st) = nat (sint (si_semmni (sem_info st)))"
    using assms sem_layoutD(1) [of "sem_info st" "shapes st"] by (auto simp: sem_wfs_def)
  show "semconv_lock st d = Ret (sem_find (shapes st) d)" by (rule semconv_lock_find [OF *])
  show "semconv st d = Ret (if sem_find (shapes st) d = None then Some EINVAL else None)" by (rule semconv_find [OF *])
qed (use assms in \<open>auto simp: sem_wfs_def\<close>)

text \<open>Most operations leave the layout alone.\<close>

lemma sem_wf_frame:
  assumes wf: "sem_wfs sr st"
    and same: "sem_info st' = sem_info st" "shapes st' = shapes st" "semmap st' = semmap st"
      "length (sem_tab st') = length (sem_tab st)"
    and u: "undo_wf (sem_info st) (sem_undos st')" "undo_refs sr (shapes st) (sem_undos st')" and v: "vmx_ok st'"
    and z: "\<And>j. j < length (sem_tab st) \<Longrightarrow> semval (sem_tab st' ! j) = semval (sem_tab st ! j) \<or> in_live (shapes st) j"
  shows "sem_wfs sr st'"
  unfolding sem_wfs_def same
proof (intro conjI allI impI)
  fix j assume "j < length (sem_tab st)" "\<not> in_live (shapes st) j"
  then show "semval (sem_tab st' ! j) = 0" using z sem_wfD(6) [OF wf] by metis
qed (use sem_wfD [OF wf] u v in auto)

lemma undo_refs_ents:
  assumes "undo_refs sr hs u" "length (sem_undo u') = length (sem_undo u)"
    "\<And>t. t < length (sem_undo u) \<Longrightarrow> ekeys u' t \<subseteq> ekeys u t \<union> {(d, n). ref_ok sr hs d n}"
  shows "undo_refs sr hs u'"
  using assms unfolding undo_refs_def by fastforce

lemma sem_find_Some:
  assumes "sem_find hs d = Some k"
  shows "k = sem_index d" "k \<in> live_sets hs" "sh_seq (hs ! k) = sem_sequence d"
  using assms by (auto simp: sem_find_def Let_def split: if_splits)

section \<open>Passes over operations\<close>

lemma shapes_binary:
  assumes "map (\<lambda>sp. sp\<lparr>sem_binary := 0\<rparr>) (sema st) = map (\<lambda>sp. sp\<lparr>sem_binary := 0\<rparr>) (sema st0)"
  shows "shapes st = shapes st0"
proof -
  have "sem_shape sp = sem_shape (sp\<lparr>sem_binary := 0\<rparr>)" for sp by (simp add: sem_shape_def)
  then have "shapes s = map sem_shape (map (\<lambda>sp. sp\<lparr>sem_binary := 0\<rparr>) (sema s))" for s by simp
  then show ?thesis using assms by metis
qed

lemma restored_wf:
  assumes "sem_wfs sr st0" "restored st0 st"
  shows "sem_wfs sr st"
proof -
  note r = assms(2) [unfolded restored_def]
  have vals: "map semval (sem_tab st) = map semval (sem_tab st0)" using r by blast
  then have len: "length (sem_tab st) = length (sem_tab st0)" using map_eq_imp_length_eq by blast
  have at: "semval (sem_tab st ! j) = semval (sem_tab st0 ! j)" if "j < length (sem_tab st0)" for j
    using arg_cong [OF vals, of "\<lambda>l. l ! j"] len that by simp
  have "undo_refs sr (shapes st0) (sem_undos st)"
    using r by (intro undo_refs_ents [OF sem_wfD(4) [OF assms(1)]]) (auto simp: ekeys_def)
  moreover have "vmx_ok st"
    using sem_wfD(5) [OF assms(1)] r at len
    by (auto simp: vmx_ok_def all_set_conv_all_nth)
  moreover have "shapes st = shapes st0" by (rule shapes_binary) (use r in blast)
  ultimately show ?thesis using r at len by (intro sem_wf_frame [OF assms(1)]) blast+
qed

lemma aoe_update_keys:
  assumes "aoe_update si es val sid num = (r, es')"
  shows "(\<lambda>e. (un_id e, un_num e)) ` set es' \<subseteq> insert (sid, num) ((\<lambda>e. (un_id e, un_num e)) ` set es)"
proof (cases rule: aoe_cases [where es = es and sid = sid and num = num])
  case (hit xs e ys)
  then show ?thesis using assms by (auto simp: aoe_update_hit Let_def split: if_splits)
next
  case (miss xs ys)
  then show ?thesis using assms by (auto simp: aoe_update_miss split: if_splits)
qed

lemma semaoe_keys:
  assumes "undo_wf si u" "slot < length (sem_undo u)" "aem_ok si" "semaoe si u slot val sid num = (r, u')"
    and "t < length (sem_undo u)"
  shows "ekeys u' t \<subseteq> insert (sid, num) (ekeys u t)"
proof (cases "t = slot")
  case True
  show ?thesis
    using semaoe_effect(5) [OF assms(1-4)] aoe_update_keys [of si "ents u slot" val sid num r "ents u' slot"] True
    by (auto simp: ekeys_def split: if_splits)
next
  case False
  then show ?thesis using semaoe_effect(3) [OF assms(1-5)] by (auto simp: ekeys_def)
qed

lemma series_keys:
  assumes "undo_log.series (semaoe si) u slot xs u'" "undo_wf si u \<and> aem_ok si" "slot < length (sem_undo u)"
    and "t < length (sem_undo u)"
  shows "ekeys u' t \<subseteq> ekeys u t \<union> (\<lambda>(v, d, n). (d, n)) ` set xs"
  using assms
proof (induction xs arbitrary: u)
  case (Cons x xs)
  obtain v d n u1 where x: "x = (v, d, n)" "semaoe si u slot v d n = (None, u1)"
    "undo_log.series (semaoe si) u1 slot xs u'"
    using Cons.prems(1) by (cases x) auto
  have u1: "undo_wf si u1 \<and> aem_ok si" "length (sem_undo u1) = length (sem_undo u)"
    using ul.rcd_wf [OF Cons.prems(2,3) x(2)] by auto
  have "ekeys u1 t \<subseteq> insert (d, n) (ekeys u t)"
    using semaoe_keys [OF _ _ _ x(2)] Cons.prems by blast
  then show ?case using Cons.IH [OF x(3) u1(1)] u1(2) Cons.prems(3,4) x(1) by auto
qed simp

lemma semop_setpid_spec:
  "sem_info (semop_setpid_t st k pid ops) = sem_info st \<and> sema (semop_setpid_t st k pid ops) = sema st \<and>
   semmap (semop_setpid_t st k pid ops) = semmap st \<and> sem_undos (semop_setpid_t st k pid ops) = sem_undos st \<and>
   length (sem_tab (semop_setpid_t st k pid ops)) = length (sem_tab st) \<and>
   (\<forall>j<length (sem_tab st). sem_tab (semop_setpid_t st k pid ops) ! j = (sem_tab st ! j)\<lparr>sempid :=
     (if \<exists>op\<in>set ops. sem_base (sema st ! k) + unat (sem_num op) = j then pid else sempid (sem_tab st ! j))\<rparr>)"
  by (induction ops arbitrary: st) (auto simp: upd_sem_nth)

definition ops_ok :: "sem_state \<Rightarrow> nat \<Rightarrow> sembuf list \<Rightarrow> bool" where
  "ops_ok st k ops \<longleftrightarrow> (\<forall>op\<in>set ops. unat (sem_num op) < sh_nsems (shapes st ! k))"

lemma shapes_nth: "k < length (sema st) \<Longrightarrow> shapes st ! k = sem_shape (sema st ! k)"
  by simp

lemma shapes_upd_same:
  "k < length xs \<Longrightarrow> sem_shape x = sem_shape (xs ! k) \<Longrightarrow> map sem_shape (xs[k := x]) = map sem_shape xs"
  by (rule nth_equalityI) (auto simp: nth_list_update)

lemma live_bounds:
  assumes "sem_wfs sr st" "sem_find (shapes st) semid = Some k"
  shows "k < length (sema st)" "sem_base (sema st ! k) + unat (sem_nsems (sema st ! k)) \<le> length (sem_tab st)"
    "shapes st ! k = sem_shape (sema st ! k)" "k \<in> live_sets (shapes st)" "k = sem_index semid"
proof -
  note f = sem_find_Some [OF assms(2)]
  show k: "k < length (sema st)" "k \<in> live_sets (shapes st)" "k = sem_index semid" using f by auto
  then show "shapes st ! k = sem_shape (sema st ! k)" by simp
  then show "sem_base (sema st ! k) + unat (sem_nsems (sema st ! k)) \<le> length (sem_tab st)"
    using sem_layoutD(6) [OF sem_wfD(1) [OF assms(1)] k(2)] by (simp add: sem_shape_def)
qed

lemma semop_verify_ok: "semop_verify sp cr ops = None \<Longrightarrow> op \<in> set ops \<Longrightarrow> sem_num op < sem_nsems sp"
  by (induction ops) (auto split: option.splits if_splits)

lemma ops_ok_range:
  assumes "sem_wfs sr st" "sem_find (shapes st) semid = Some k" "ops_ok st k ops"
  shows "\<forall>op\<in>set ops. sem_base (sema st ! k) + unat (sem_num op) < length (sem_tab st)"
    and "op \<in> set ops \<Longrightarrow> in_live (shapes st) (sem_base (sema st ! k) + unat (sem_num op))"
proof -
  note b = live_bounds [OF assms(1,2)]
  have lt: "unat (sem_num op) < unat (sem_nsems (sema st ! k))" if "op \<in> set ops" for op
    using assms(3) that b(3) by (simp add: ops_ok_def sem_shape_def)
  then show "\<forall>op\<in>set ops. sem_base (sema st ! k) + unat (sem_num op) < length (sem_tab st)" using b(2) by fastforce
  show "in_live (shapes st) (sem_base (sema st ! k) + unat (sem_num op))" if "op \<in> set ops"
    using lt [OF that] b by (auto simp: in_live_def in_set_def sem_shape_def intro!: bexI [of _ k])
qed

lemma opsum_int_zero: "(\<And>op. op \<in> set ops \<Longrightarrow> base + unat (sem_num op) \<noteq> j) \<Longrightarrow> opsum_int base ops j = 0"
  by (induction ops) auto

text \<open>What a complete run of the operations does, and that it keeps the invariant.\<close>

lemma semop_check_done:
  assumes wf: "sem_wfs sr st" and slot: "ctx_slot c < length (sem_undo (sem_undos st))" and can: "sr \<longrightarrow> 0 \<le> sint semid"
    and k: "sem_find (shapes st) semid = Some k" and ops: "ops_ok st k ops"
    and r: "semop_check_t st c semid k again ops = (All_done, st')"
  shows "sem_wfs sr st'"
    and "j < length (sem_tab st) \<Longrightarrow> uint (semval (sem_tab st' ! j)) =
      uint (semval (sem_tab st ! j)) + opsum_int (sem_base (sema st ! k)) ops j"
    and "op \<in> set ops \<Longrightarrow> sempid (sem_tab st' ! (sem_base (sema st ! k) + unat (sem_num op))) = ctx_pid c"
    and "undo_log.series (semaoe (sem_info st)) (sem_undos st) (ctx_slot c) (undo_ops semid ops) (sem_undos st')"
    and "sema st' = (sema st)[k := (sema st ! k)\<lparr>sem_otime := ctx_now c\<rparr>]"
    and "sem_info st' = sem_info st" and "length (sem_tab st') = length (sem_tab st)" and "semmap st' = semmap st"
proof -
  define bt where "bt = (sem_binary (sema st ! k) \<noteq> 0 \<and> sem_nsems (sema st ! k) = 1)"
  obtain q st1 where p: "semop_pass_t st c semid k bt [] ops = (q, st1)" by fastforce
  have qd: "q = All_done" using r p by (auto simp: semop_check_t_def Let_def bt_def split: if_splits sem_stop.splits)
  define st2 where "st2 = semop_setpid_t st1 k (ctx_pid c) ops"
  have st': "st' = upd_sema st2 k (\<lambda>sp. sp\<lparr>sem_otime := ctx_now c\<rparr>)"
    using r p qd by (auto simp: semop_check_t_def Let_def bt_def st2_def split: if_splits)
  note b = live_bounds [OF wf k] and rng = ops_ok_range [OF wf k ops]
  have cok: "sem_ctx_ok st c" using sem_wfD(2,3) [OF wf] slot by (simp add: sem_ctx_ok_def)
  have inv0: "pass_inv c semid k st [] st" by (simp add: pass_inv_def undo_ops_def)
  have inv: "pass_inv c semid k st (rev ops) st1"
    using semop_pass_atomic [OF cok inv0 p] qd by simp
  note vals = semop_pass_values [OF p [unfolded qd] sem_wfD(5) [OF wf] rng(1)]
  note lp = semop_setpid_spec [of st1 k "ctx_pid c" ops, folded st2_def]
  have sema1: "sema st1 = sema st" "sem_info st1 = sem_info st" "semmap st1 = semmap st"
    using inv by (auto simp: pass_inv_def)
  have len: "length (sem_tab st') = length (sem_tab st)" using lp vals by (simp add: st')
  then show "length (sem_tab st') = length (sem_tab st)" .
  have v': "semval (sem_tab st' ! j) = semval (sem_tab st1 ! j)" if "j < length (sem_tab st)" for j
    using lp vals that by (simp add: st')
  then show val: "uint (semval (sem_tab st' ! j)) =
      uint (semval (sem_tab st ! j)) + opsum_int (sem_base (sema st ! k)) ops j" if "j < length (sem_tab st)" for j
    using vals that by simp
  show "sempid (sem_tab st' ! (sem_base (sema st ! k) + unat (sem_num op))) = ctx_pid c" if "op \<in> set ops" for op
    using lp vals rng(1) that sema1 by (auto simp: st')
  have "rev (undo_ops semid (rev ops)) = undo_ops semid ops" by (simp add: undo_ops_def rev_map rev_filter)
  then show ser: "undo_log.series (semaoe (sem_info st)) (sem_undos st) (ctx_slot c) (undo_ops semid ops) (sem_undos st')"
    using inv lp by (simp add: pass_inv_def st')
  show sema': "sema st' = (sema st)[k := (sema st ! k)\<lparr>sem_otime := ctx_now c\<rparr>]"
    using lp sema1 by (simp add: st' upd_sema_def)
  show info: "sem_info st' = sem_info st" "semmap st' = semmap st" using lp sema1 by (simp_all add: st')
  show "sem_wfs sr st'"
  proof (rule sem_wf_frame [OF wf info(1) _ info(2) len])
    show "shapes st' = shapes st"
      unfolding sema' by (rule shapes_upd_same) (simp_all add: sem_shape_def b(1))
    have w: "undo_wf (sem_info st) (sem_undos st) \<and> aem_ok (sem_info st)" using cok by (simp add: sem_ctx_ok_def)
    note sw = ul.series_wf [OF ser w slot]
    show "undo_wf (sem_info st) (sem_undos st')" using sw by blast
    have keys: "(\<lambda>(v, d, n). (d, n)) ` set (undo_ops semid ops) \<subseteq> {(d, n). ref_ok sr (shapes st) d n}"
      using can k ops by (auto simp: undo_ops_def ref_ok_def ops_ok_def)
    show "undo_refs sr (shapes st) (sem_undos st')"
      using sw series_keys [OF ser w slot] keys by (intro undo_refs_ents [OF sem_wfD(4) [OF wf]]) blast+
    have "vmx_ok st1" using vals by blast
    then show "vmx_ok st'" using info sema1 v' vals len by (auto simp: vmx_ok_def all_set_conv_all_nth)
    fix j assume j: "j < length (sem_tab st)"
    show "semval (sem_tab st' ! j) = semval (sem_tab st ! j) \<or> in_live (shapes st) j"
    proof (cases "\<exists>op\<in>set ops. sem_base (sema st ! k) + unat (sem_num op) = j")
      case True
      then show ?thesis using rng(2) by blast
    next
      case False
      then have "opsum_int (sem_base (sema st ! k)) ops j = 0" by (intro opsum_int_zero) blast
      then show ?thesis using val [OF j] by (simp add: word_uint_eq_iff)
    qed
  qed
qed

lemma semop_check_stopped:
  assumes wf: "sem_wfs sr st" and slot: "ctx_slot c < length (sem_undo (sem_undos st))"
    and r: "semop_check_t st c semid k again ops = (q, st')" and q: "q \<noteq> All_done"
  shows "restored st st'"
proof (cases "again \<and> sem_gone st semid")
  case True
  then show ?thesis using r sem_wfD(2) [OF wf] by (auto simp: semop_check_t_def restored_def)
next
  case False
  define bt where "bt = (sem_binary (sema st ! k) \<noteq> 0 \<and> sem_nsems (sema st ! k) = 1)"
  obtain q1 st1 where p: "semop_pass_t st c semid k bt [] ops = (q1, st1)" by fastforce
  have "q1 = q" "st' = st1"
    using r p q False by (auto simp: semop_check_t_def Let_def bt_def split: sem_stop.splits)
  moreover have cok: "sem_ctx_ok st c" using sem_wfD(2,3) [OF wf] slot by (simp add: sem_ctx_ok_def)
  moreover have "pass_inv c semid k st [] st" by (simp add: pass_inv_def undo_ops_def)
  ultimately show ?thesis using semop_pass_atomic [OF cok _ p] q by simp
qed

lemma semop_verify_in:
  assumes "sem_wfs sr st" "sem_find (shapes st) semid = Some k" "semop_verify (sema st ! k) cr ops = None"
  shows "ops_ok st k ops" "ops_in st k ops"
proof -
  note b = live_bounds [OF assms(1,2)]
  show ok: "ops_ok st k ops" using semop_verify_ok [OF assms(3)] b by (auto simp: ops_ok_def sem_shape_def word_less_nat_alt)
  show "ops_in st k ops" using ops_ok_range(1) [OF assms(1,2) ok] b(1) by (simp add: ops_in_def)
qed

text \<open>A call of \<open>semop\<close>: it gives up, or the pass begins.\<close>

lemma semop_cases:
  assumes wf: "sem_wfs sr st"
  obtains (early) e where "semop st c semid uops nsops = Ret (e, st)" "e = All_done \<longleftrightarrow> nsops = 0 \<and> nsops \<le> si_semopm (sem_info st)"
  | (pass) ops k where "uops = Some ops" "sem_find (shapes st) semid = Some k" "semop_verify (sema st ! k) (ctx_cred c) ops = None"
      "semop st c semid uops nsops = Ret (semop_check_t st c semid k False ops)"
proof (cases "nsops > si_semopm (sem_info st) \<or> nsops = 0 \<or> uops = None \<or> sem_find (shapes st) semid = None")
  case True
  show ?thesis using True sem_wfD(8) [OF wf, of semid]
    by (intro early [of "if nsops > si_semopm (sem_info st) then Stop E2BIG else if nsops = 0 then All_done
          else if uops = None then Stop EFAULT else Stop EINVAL"]) (auto simp: semop_def not_less)
next
  case False
  then obtain ops k where o: "uops = Some ops" "sem_find (shapes st) semid = Some k" by auto
  note b = live_bounds [OF wf o(2)]
  show ?thesis
  proof (cases "semop_verify (sema st ! k) (ctx_cred c) ops")
    case (Some e)
    then show ?thesis using False o b(1) sem_wfD(8) [OF wf, of semid] by (intro early [of "Stop e"]) (auto simp: semop_def)
  next
    case None
    have "semop_check st c semid k False ops = Ret (semop_check_t st c semid k False ops)"
      using semop_verify_in(2) [OF wf o(2) None] sem_wfD(9) [OF wf, of semid] by (intro semop_check_in) blast+
    then show ?thesis using False None o b(1) sem_wfD(8) [OF wf, of semid] by (intro pass [OF o None]) (auto simp: semop_def)
  qed
qed

lemma semop_wf:
  assumes wf: "sem_wfs sr st" and slot: "ctx_slot c < length (sem_undo (sem_undos st))" and can: "sr \<longrightarrow> 0 \<le> sint semid"
  shows "\<exists>q st'. semop st c semid uops nsops = Ret (q, st') \<and> sem_wfs sr st'"
  using wf
proof (cases rule: semop_cases [where c = c and semid = semid and uops = uops and nsops = nsops])
  case (early e)
  then show ?thesis using wf by blast
next
  case (pass ops k)
  obtain q st' where r: "semop_check_t st c semid k False ops = (q, st')" by fastforce
  have "sem_wfs sr st'"
    using semop_check_done(1) [OF wf slot can pass(2) semop_verify_in(1) [OF wf pass(2,3)]] semop_check_stopped [OF wf slot r] restored_wf [OF wf] r
    by (cases "q = All_done") auto
  then show ?thesis using pass(4) r by simp
qed

lemma vmx_ok_nth:
  "vmx_ok st \<longleftrightarrow> 0 \<le> sint (si_semvmx (sem_info st)) \<and> sint (si_semvmx (sem_info st)) \<le> 65535 \<and>
     (\<forall>j<length (sem_tab st). uint (semval (sem_tab st ! j)) \<le> sint (si_semvmx (sem_info st)))"
  by (simp add: vmx_ok_def all_set_conv_all_nth)

text \<open>A change of values inside live sets, within the limit.\<close>

lemma sem_wf_values:
  assumes wf: "sem_wfs sr st" and same: "sem_info st' = sem_info st" "sema st' = sema st" "semmap st' = semmap st"
      "length (sem_tab st') = length (sem_tab st)"
    and u: "undo_wf (sem_info st) (sem_undos st')" "undo_refs sr (shapes st) (sem_undos st')"
    and v: "\<And>j. j < length (sem_tab st) \<Longrightarrow> semval (sem_tab st' ! j) = semval (sem_tab st ! j) \<or>
      in_live (shapes st) j \<and> uint (semval (sem_tab st' ! j)) \<le> sint (si_semvmx (sem_info st))"
  shows "sem_wfs sr st'"
proof (rule sem_wf_frame [OF wf same(1) _ same(3,4) u])
  show "vmx_ok st'" using sem_wfD(5) [OF wf] v same unfolding vmx_ok_nth by metis
qed (use v same in auto)

lemma sem_wf_upd_sem:
  assumes wf: "sem_wfs sr st" and v: "\<And>s. semval (f s) = semval s"
  shows "sem_wfs sr (upd_sem st j f)"
  using v by (intro sem_wf_values [OF wf]) (auto simp: sem_wfD [OF wf] upd_sem_nth)

lemma semop_eintr_wf:
  assumes "sem_wfs sr st"
  shows "semop_eintr_n st c j = Ret (q, st') \<Longrightarrow> sem_wfs sr st'" "semop_eintr_z st c j = Ret (q, st') \<Longrightarrow> sem_wfs sr st'"
  using assms by (auto simp: semop_eintr_n_def semop_eintr_z_def Let_def intro!: sem_wf_upd_sem)

lemma sem_wf_acflag [simp]: "sem_wfs sr (st\<lparr>sem_acflag := a\<rparr>) \<longleftrightarrow> sem_wfs sr st"
  by (simp add: sem_wfs_def vmx_ok_def)

lemma sem_wf_upd_sema:
  assumes wf: "sem_wfs sr st" and k: "k < length (sema st)" "sem_shape (f (sema st ! k)) = sem_shape (sema st ! k)"
  shows "sem_wfs sr (upd_sema st k f)"
proof (rule sem_wf_frame [OF wf])
  show "shapes (upd_sema st k f) = shapes st"
    using k by (simp add: upd_sema_def shapes_upd_same)
  show "vmx_ok (upd_sema st k f)" using sem_wfD(5) [OF wf] by (simp add: vmx_ok_def)
qed (use sem_wfD [OF wf] in auto)

lemma alloc_bit_used: "(m OR IPC_ALLOC) AND IPC_ALLOC \<noteq> 0"
proof -
  have "(m OR IPC_ALLOC) AND IPC_ALLOC = IPC_ALLOC"
    by (rule bit_word_eqI) (auto simp: bit_simps)
  then show ?thesis by simp
qed

lemma semctl_set_wf:
  assumes wf: "sem_wfs sr st" and k: "sem_find (shapes st) semid = Some k"
  shows "semctl_set st c k arg = Ret (r, out, st') \<Longrightarrow> sem_wfs sr st'"
    and "semctl_o_set st c k oarg = Ret (r, out, st') \<Longrightarrow> sem_wfs sr st'"
proof -
  note b = live_bounds [OF wf k]
  have used: "ipc_used (sem_perm (sema st ! k))" using b(3,4) by (auto simp: sem_shape_def)
  show "sem_wfs sr st'" if "semctl_set st c k arg = Ret (r, out, st')"
    using that wf b(1) used
    by (auto simp: semctl_set_def Let_def sem_shape_def ipc_used_def alloc_bit_used intro!: sem_wf_upd_sema
        split: prod.splits if_splits option.splits)
  show "sem_wfs sr st'" if "semctl_o_set st c k oarg = Ret (r, out, st')"
    using that wf b(1) used
    by (auto simp: semctl_o_set_def Let_def sem_shape_def ipc_used_def alloc_bit_used intro!: sem_wf_upd_sema
        split: prod.splits if_splits option.splits)
qed

lemma semunrm_refs:
  assumes "undo_wf si u" "undo_refs sr hs u"
  shows "undo_wf si (semunrm u d low high)" "undo_refs sr hs (semunrm u d low high)"
    "length (sem_undo (semunrm u d low high)) = length (sem_undo u)"
  using semunrm_effect [OF assms(1)] by (auto intro!: undo_refs_ents [OF assms(2)] simp: ekeys_def)

lemma in_live_set:
  assumes "k \<in> live_sets hs" "sh_base (hs ! k) \<le> j" "j < sh_base (hs ! k) + sh_nsems (hs ! k)"
  shows "in_live hs j"
  using assms by (auto simp: in_live_def in_set_def)

lemma uint_le_sint:
  fixes v :: ulong
  assumes "0 \<le> sint m" "v \<le> m"
  shows "uint v \<le> sint m"
  using assms uint_of_sint_nonneg [OF assms(1)] by (simp add: word_le_def)

lemma semctl_setval_wf:
  assumes wf: "sem_wfs sr st" and k: "sem_find (shapes st) semid = Some k"
    and r: "semctl_setval st c semid k semnum arg = Ret (r, out, st')"
  shows "sem_wfs sr st'"
proof (cases "st' = st")
  case False
  note b = live_bounds [OF wf k]
  have f: "semnum < ucast (sem_nsems (sema st ! k))" "arg \<le> si_semvmx (sem_info st)"
    and st': "st' = (upd_sem st (sem_base (sema st ! k) + unat semnum) (sem_setval (ucast arg) (ctx_pid c)))
      \<lparr>sem_undos := semunrm (sem_undos st) semid (ucast semnum) (ucast semnum)\<rparr>"
    using r False by (auto simp: semctl_setval_def not_le not_less split: option.splits if_splits)
  have v: "semval (sem_setval a p s) = a" for a p s by (simp add: sem_setval_def Let_def)
  have num: "unat semnum < unat (sem_nsems (sema st ! k))" using f(1) by (simp add: word_less_nat_alt)
  have lim: "0 \<le> sint (si_semvmx (sem_info st))" "sint (si_semvmx (sem_info st)) \<le> 65535"
    using sem_wfD(5) [OF wf] by (auto simp: vmx_ok_def)
  have "uint arg \<le> sint (si_semvmx (sem_info st))" using uint_le_sint [OF lim(1) f(2)] .
  moreover have "uint (ucast arg :: ushort) \<le> uint arg" by (rule uint_ucast_32_16_le)
  ultimately have val: "uint (ucast arg :: ushort) \<le> sint (si_semvmx (sem_info st))" by linarith
  have lv: "in_live (shapes st) (sem_base (sema st ! k) + unat semnum)"
    using num b by (intro in_live_set [OF b(4)]) (simp_all add: sem_shape_def)
  show ?thesis
    using semunrm_refs [OF sem_wfD(2,4) [OF wf]] val lv
    by (intro sem_wf_values [OF wf]) (auto simp: st' upd_sem_nth v)
qed (use wf in simp)

lemma semctl_setall_wf:
  assumes wf: "sem_wfs sr st" and k: "sem_find (shapes st) semid = Some k"
    and r: "semctl_setall st c semid k rd vals = Ret (r, out, st')"
  shows "sem_wfs sr st'"
proof (cases "st' = st")
  case False
  note b = live_bounds [OF wf k]
  let ?n = "unat (sem_nsems (sema st ! k))" and ?base = "sem_base (sema st ! k)"
  have f: "\<And>i. i < ?n \<Longrightarrow> (ucast (vals i) :: ulong) \<le> si_semvmx (sem_info st)"
    and st': "st' = st\<lparr>sem_undos := semunrm (sem_undos st) semid 0 (sem_nsems (sema st ! k)),
      sem_tab := sem_loop_t (\<lambda>i. sem_setval (vals i) (ctx_pid c)) ?base 0 ?n (sem_tab st)\<rparr>"
    using r False b(1) sem_loop_in [of ?base 0 ?n "sem_tab st"] b(2)
    by (auto simp: semctl_setall_def Let_def not_le not_less split: option.splits if_splits)
  have v: "semval (sem_setval a p s) = a" for a p s by (simp add: sem_setval_def Let_def)
  have lim: "0 \<le> sint (si_semvmx (sem_info st))" using sem_wfD(5) [OF wf] by (auto simp: vmx_ok_def)
  have val: "uint (vals i) \<le> sint (si_semvmx (sem_info st))" if "i < ?n" for i
  proof -
    have "uint (ucast (vals i) :: ulong) = uint (vals i)" by (simp only: uint_int_unat unat_ucast_16_32)
    then show ?thesis using uint_le_sint [OF lim f [OF that]] by simp
  qed
  have lv: "in_live (shapes st) j" if "?base \<le> j" "j < ?base + ?n" for j
    using that b by (intro in_live_set [OF b(4)]) (simp_all add: sem_shape_def)
  show ?thesis
    using semunrm_refs [OF sem_wfD(2,4) [OF wf]] val lv
    by (intro sem_wf_values [OF wf]) (auto simp: st' sem_loop_nth v)
qed (use wf in simp)

lemma ucast_16_32: "(ucast (w :: ushort) :: ulong) = of_nat (unat w)"
proof -
  have "unat w < 2 ^ 32" using unat_bound [of w] by simp
  then show ?thesis by (simp add: word_unat_eq_iff unsigned_of_nat take_bit_nat_eq_self)
qed

lemma sem_bump_ok:
  assumes lay: "sem_layout si hs mp n" and f: "sem_find hs d = Some k"
  shows "unat (sem_bump d (sh_seq (hs ! k))) \<le> 32767 \<and> sem_bump d (sh_seq (hs ! k)) \<noteq> sh_seq (hs ! k)"
proof -
  note ff = sem_find_Some [OF f] and l = sem_layoutD [OF lay]
  have acc: "int (sem_index d) < sint (si_semmni si)" using ff l(1) by auto
  have ok: "sint (si_semmni si) \<le> 65535 \<and> unat (sem_sequence d) \<le> 32767" using l(10) sem_sequence_max by simp
  show ?thesis using sid.bump_ok [OF acc ok] sid.bump_new [OF acc ok] ff(3) by simp
qed

text \<open>An identifier that is not the removed one still finds its set.\<close>

lemma sem_find_upd_other:
  assumes "sem_find hs d = Some m" "m \<noteq> k"
  shows "sem_find (hs[k := h]) d = Some m" and "hs[k := h] ! m = hs ! m"
  using assms sem_find_Some [OF assms(1)] by (auto simp: sem_find_def Let_def)

lemma sem_find_unique:
  assumes "sem_find hs d = Some k" "sem_find hs e = Some k" "0 \<le> sint d" "0 \<le> sint e"
  shows "d = e"
  using sem_find_Some [OF assms(1)] sem_find_Some [OF assms(2)] sem_mk_canonical [OF assms(3)]
    sem_mk_canonical [OF assms(4)] by metis

lemma semctl_rmid_wf:
  assumes wf: "sem_wfs sr st" and k: "sem_find (shapes st) semid = Some k" and can: "sr \<longrightarrow> 0 \<le> sint semid"
  shows "\<exists>r out st'. semctl_rmid st c semid k = Ret (r, out, st') \<and> sem_wfs sr st' \<and>
    (if fst (ipc_owner (sem_perm (sema st ! k)) (ctx_cred c) (sem_acflag st)) then
       r = Inr 0 \<and> shapes st' = (shapes st)[k := (shapes st ! k)\<lparr>sh_used := False, sh_seq := sem_bump semid (sh_seq (shapes st ! k))\<rparr>]
     else r = Inl EPERM)"
proof -
  note b = live_bounds [OF wf k] and lay = sem_wfD(1) [OF wf] and ff = sem_find_Some [OF k]
  obtain ok ac where o: "ipc_owner (sem_perm (sema st ! k)) (ctx_cred c) (sem_acflag st) = (ok, ac)" by fastforce
  show ?thesis
  proof (cases ok)
    case False
    then show ?thesis using o wf b(1) by (simp add: semctl_rmid_def Let_def)
  next
    case True
    let ?sp = "sema st ! k" and ?n = "unat (sem_nsems (sema st ! k))" and ?base = "sem_base (sema st ! k)"
    define h where "h = (shapes st ! k)\<lparr>sh_used := False, sh_seq := sem_bump semid (sh_seq (shapes st ! k))\<rparr>"
    have bump: "unat (sem_bump semid (sh_seq (shapes st ! k))) \<le> 32767"
      using sem_bump_ok [OF lay k] by blast
    have h: "\<not> sh_used h" "unat (sh_seq h) \<le> 32767" using bump by (simp_all add: h_def)
    obtain mp w where rm: "rmfree (semmap st) (of_nat ?n) (of_nat ?base + 1) = Ret (mp, w)"
      "sem_layout (sem_info st) ((shapes st)[k := h]) mp (length (sem_tab st))"
      using sem_layout_release [OF lay b(4) h] b(3) by (auto simp: sem_shape_def)
    define st' where "st' = (upd_sema (st\<lparr>sem_acflag := ac\<rparr>) k (\<lambda>sp. sp\<lparr>sem_perm := (sem_perm sp)\<lparr>
          perm_seq := (if sem_sequence semid = SEMA_SEQ_MAX then 0 else perm_seq (sem_perm sp) + 1), perm_mode := 0\<rparr>\<rparr>))
      \<lparr>sem_undos := semunrm (sem_undos st) semid 0 (sem_nsems ?sp),
       sem_tab := sem_loop_t (\<lambda>_. sem_removed) ?base 0 ?n (sem_tab st), semmap := mp\<rparr>"
    have r: "semctl_rmid st c semid k = Ret (Inr 0, Out_none, st')"
      using o True rm(1) [folded ucast_16_32] b(1) sem_loop_in [of ?base 0 ?n "sem_tab st"] b(2)
      by (simp add: semctl_rmid_def Let_def st'_def)
    have sh: "shapes st' = (shapes st)[k := h]"
      by (rule nth_equalityI)
        (use b(1) in \<open>auto simp: st'_def upd_sema_def nth_list_update sem_shape_def h_def ipc_used_def sem_bump_def\<close>)
    have rv: "semval (sem_removed s) = 0" for s by (simp add: sem_removed_def Let_def)
    have at: "semval (sem_tab st' ! j) = (if ?base \<le> j \<and> j < ?base + ?n then 0 else semval (sem_tab st ! j))"
      if "j < length (sem_tab st)" for j using that by (simp add: st'_def sem_loop_nth rv)
    have len: "length (sem_tab st') = length (sem_tab st)" by (simp add: st'_def)
    note un = semunrm_effect [OF sem_wfD(2) [OF wf]]
    have undos: "sem_undos st' = semunrm (sem_undos st) semid 0 (sem_nsems ?sp)" by (simp add: st'_def)
    have refs: "undo_refs sr ((shapes st)[k := h]) (sem_undos st')"
      unfolding undo_refs_def undos un(2)
    proof (intro allI impI ballI, clarify)
      fix t d n assume t: "t < length (sem_undo (sem_undos st))"
        and dn: "(d, n) \<in> ekeys (semunrm (sem_undos st) semid 0 (sem_nsems ?sp)) t"
      obtain e where e: "e \<in> set (ents (sem_undos st) t)" "d = un_id e" "n = un_num e"
        "\<not> (un_id e = semid \<and> un_num e \<le> sem_nsems ?sp)"
        using dn un(3) [OF t] by (auto simp: ekeys_def)
      then have ro: "ref_ok sr (shapes st) d n" using sem_wfD(4) [OF wf] t by (auto simp: undo_refs_def ekeys_def)
      show "ref_ok sr ((shapes st)[k := h]) d n"
      proof (cases sr)
        case True
        then obtain m where m: "0 \<le> sint d" "sem_find (shapes st) d = Some m" "unat n < sh_nsems (shapes st ! m)"
          using ro by (auto simp: ref_ok_def)
        have "m \<noteq> k"
        proof
          assume "m = k"
          then have "d = semid" using sem_find_unique m(1,2) k can True by blast
          then show False using e m(3) \<open>m = k\<close> b(3) by (simp add: sem_shape_def word_le_nat_alt)
        qed
        then show ?thesis using m sem_find_upd_other [OF m(2)] by (auto simp: ref_ok_def)
      qed (simp add: ref_ok_def)
    qed
    have idle: "semval (sem_tab st' ! j) = 0" if "j < length (sem_tab st)" "\<not> in_live ((shapes st)[k := h]) j" for j
    proof (cases "?base \<le> j \<and> j < ?base + ?n")
      case False
      have "\<not> in_live (shapes st) j"
      proof
        assume "in_live (shapes st) j"
        then obtain m where m: "m \<in> live_sets (shapes st)" "in_set (shapes st ! m) j" by (auto simp: in_live_def)
        then have "m \<noteq> k" using False b(3) by (auto simp: in_set_def sem_shape_def)
        then have "in_live ((shapes st)[k := h]) j" using m by (auto simp: in_live_def intro!: bexI [of _ m])
        with that(2) show False ..
      qed
      then show ?thesis using at that False sem_wfD(6) [OF wf] by simp
    qed (use at that in simp)
    have "vmx_ok st'"
      using sem_wfD(5) [OF wf] at len unfolding vmx_ok_nth by (simp add: st'_def)
    moreover have "sem_info st' = sem_info st" "semmap st' = mp" by (simp_all add: st'_def)
    ultimately have "sem_wfs sr st'"
      using rm(2) un(1) refs idle sem_wfD(3) [OF wf] by (simp add: sem_wfs_def sh undos len)
    then show ?thesis using r sh o True by (simp add: h_def)
  qed
qed

section \<open>semget\<close>

text \<open>The entry that a failing call gives up again.\<close>

lemma semget_drop_shapes:
  assumes "ipcget key flg (map sem_perm (sema st)) cr = Inr (True, k, p)"
  shows "map sem_shape ((sema st)[k := (sema st ! k)\<lparr>sem_perm := p\<lparr>perm_mode := 0\<rparr>\<rparr>]) = shapes st"
proof -
  note n = ipcget_newD [OF assms]
  have k: "k < length (sema st)" and u: "\<not> ipc_used (sem_perm (sema st ! k))" using n(1,2) by auto
  show ?thesis
    using k u n(3) by (intro shapes_upd_same) (auto simp: sem_shape_def ipc_used_def)
qed

lemma semget_outcomes:
  assumes wf: "sem_wfs sr st"
  shows "\<exists>r st'. semget st c key nsems flg = Ret (r, st') \<and>
    (case ipcget key flg (map sem_perm (sema st)) (ctx_cred c) of
       Inl e \<Rightarrow> r = Inl e \<and> st' = st
     | Inr (False, k, p) \<Rightarrow> st' = st \<and> k < length (sema st) \<and> ipc_used (sem_perm (sema st ! k)) \<and>
         r = (if nsems \<noteq> 0 \<and> ucast (sem_nsems (sema st ! k)) < nsems then Inl EINVAL
              else Inr (sem_mk k (perm_seq (sem_perm (sema st ! k)))))
     | Inr (True, k, p) \<Rightarrow>
         (\<exists>e. r = Inl e \<and> sem_tab st' = sem_tab st \<and> sem_undos st' = sem_undos st \<and> sem_info st' = sem_info st \<and>
            semmap st' = semmap st \<and> shapes st' = shapes st) \<or>
         (\<exists>i mp sp. 0 < sint nsems \<and> sint nsems \<le> sint (si_semmsl (sem_info st)) \<and>
            rmalloc (semmap st) nsems = Ret (i, mp) \<and> i \<noteq> 0 \<and> r = Inr (sem_mk k (perm_seq p)) \<and>
            st' = st\<lparr>sema := (sema st)[k := sp], semmap := mp\<rparr> \<and> sem_perm sp = p\<lparr>perm_pad := [0, 0, 0, 0]\<rparr> \<and>
            sem_base sp = unat (i - 1) \<and> sem_nsems sp = ucast nsems))"
proof -
  note lay = sem_layoutD [OF sem_wfD(1) [OF wf]]
  consider (err) e where "ipcget key flg (map sem_perm (sema st)) (ctx_cred c) = Inl e"
    | (old) k p where "ipcget key flg (map sem_perm (sema st)) (ctx_cred c) = Inr (False, k, p)"
    | (new) k p where "ipcget key flg (map sem_perm (sema st)) (ctx_cred c) = Inr (True, k, p)"
  proof (cases "ipcget key flg (map sem_perm (sema st)) (ctx_cred c)")
    case (Inr x)
    obtain s k p where "x = (s, k, p)" by (cases x)
    then show ?thesis using Inr that(2,3) by (cases s) auto
  qed (use that(1) in blast)
  then show ?thesis
  proof cases
    case err
    then show ?thesis by (simp add: semget_def)
  next
    case old
    note o = ipcget_oldD [OF old]
    have "p = sem_perm (sema st ! k)" "k < length (sema st)" "ipc_used (sem_perm (sema st ! k))" using o by auto
    then show ?thesis using old by (simp add: semget_def Let_def upd_sema_def sem_mk_def)
  next
    case new
    note n = ipcget_newD [OF new]
    have k: "k < length (sema st)" using n(1) by simp
    show ?thesis
    proof (cases "sint nsems \<le> 0 \<or> sint nsems > sint (si_semmsl (sem_info st))")
      case True
      then show ?thesis using new k semget_drop_shapes [OF new]
        by (simp add: semget_def Let_def upd_sema_def)
    next
      case False
      then have pos: "0 < sint nsems" by simp
      obtain i mp where a: "rmalloc (semmap st) nsems = Ret (i, mp)" using rm.alloc_total [OF lay(2) pos] by blast
      show ?thesis
      proof (cases "i = 0")
        case True
        then have "mp = semmap st" using rm.alloc_fail [OF lay(2) pos] a by simp
        then show ?thesis using new k False a True semget_drop_shapes [OF new]
          by (simp add: semget_def Let_def upd_sema_def)
      next
        case i: False
        then show ?thesis using new k False a
          by (auto simp: semget_def Let_def upd_sema_def sem_mk_def)
      qed
    qed
  qed
qed

lemma semget_wf:
  assumes wf: "sem_wfs sr st" and r: "semget st c key nsems flg = Ret (r, st')"
  shows "sem_wfs sr st'"
proof -
  have o: "case ipcget key flg (map sem_perm (sema st)) (ctx_cred c) of
       Inl e \<Rightarrow> r = Inl e \<and> st' = st
     | Inr (False, k, p) \<Rightarrow> st' = st
     | Inr (True, k, p) \<Rightarrow>
         (\<exists>e. r = Inl e \<and> sem_tab st' = sem_tab st \<and> sem_undos st' = sem_undos st \<and> sem_info st' = sem_info st \<and>
            semmap st' = semmap st \<and> shapes st' = shapes st) \<or>
         (\<exists>i mp sp. 0 < sint nsems \<and> sint nsems \<le> sint (si_semmsl (sem_info st)) \<and>
            rmalloc (semmap st) nsems = Ret (i, mp) \<and> i \<noteq> 0 \<and>
            st' = st\<lparr>sema := (sema st)[k := sp], semmap := mp\<rparr> \<and> sem_perm sp = p\<lparr>perm_pad := [0, 0, 0, 0]\<rparr> \<and>
            sem_base sp = unat (i - 1) \<and> sem_nsems sp = ucast nsems)"
    using semget_outcomes [OF wf, of c key nsems flg] r by (auto split: sum.splits prod.splits bool.splits)
  show ?thesis
  proof (cases "\<exists>k p. ipcget key flg (map sem_perm (sema st)) (ctx_cred c) = Inr (True, k, p) \<and> shapes st' \<noteq> shapes st")
    case False
    then have "st' = st \<or> sem_tab st' = sem_tab st \<and> sem_undos st' = sem_undos st \<and> sem_info st' = sem_info st \<and>
      semmap st' = semmap st \<and> shapes st' = shapes st \<or> (\<exists>k p. ipcget key flg (map sem_perm (sema st)) (ctx_cred c) = Inr (True, k, p) \<and>
        (\<exists>i mp sp. st' = st\<lparr>sema := (sema st)[k := sp], semmap := mp\<rparr> \<and> sem_perm sp = p\<lparr>perm_pad := [0, 0, 0, 0]\<rparr>))"
      using o by (auto split: sum.splits prod.splits bool.splits)
    moreover have "\<not> (\<exists>k p. ipcget key flg (map sem_perm (sema st)) (ctx_cred c) = Inr (True, k, p) \<and>
        (\<exists>i mp sp. st' = st\<lparr>sema := (sema st)[k := sp], semmap := mp\<rparr> \<and> sem_perm sp = p\<lparr>perm_pad := [0, 0, 0, 0]\<rparr>))"
    proof clarify
      fix k p mp sp
      assume g: "ipcget key flg (map sem_perm (sema st)) (ctx_cred c) = Inr (True, k, p)"
        and st': "st' = st\<lparr>sema := (sema st)[k := sp], semmap := mp\<rparr>" "sem_perm sp = p\<lparr>perm_pad := [0, 0, 0, 0]\<rparr>"
      note n = ipcget_newD [OF g]
      have "sh_used (shapes st' ! k)" "\<not> sh_used (shapes st ! k)"
        using n(1-3) st' by (auto simp: sem_shape_def ipc_used_def)
      then have "shapes st' \<noteq> shapes st" by metis
      with False g show False by blast
    qed
    ultimately have "st' = st \<or> sem_tab st' = sem_tab st \<and> sem_undos st' = sem_undos st \<and> sem_info st' = sem_info st \<and>
      semmap st' = semmap st \<and> shapes st' = shapes st" by blast
    then show ?thesis using wf by (auto simp: sem_wfs_def vmx_ok_def)
  next
    case True
    then obtain k p where g: "ipcget key flg (map sem_perm (sema st)) (ctx_cred c) = Inr (True, k, p)" "shapes st' \<noteq> shapes st" by blast
    then obtain i mp sp where n: "0 < sint nsems" "sint nsems \<le> sint (si_semmsl (sem_info st))"
      "rmalloc (semmap st) nsems = Ret (i, mp)" "i \<noteq> 0" "st' = st\<lparr>sema := (sema st)[k := sp], semmap := mp\<rparr>"
      "sem_perm sp = p\<lparr>perm_pad := [0, 0, 0, 0]\<rparr>" "sem_base sp = unat (i - 1)" "sem_nsems sp = ucast nsems"
      using o by auto
    note q = ipcget_newD [OF g(1)]
    have k: "k < length (shapes st)" "\<not> sh_used (shapes st ! k)" using q(1,2) by (auto simp: sem_shape_def)
    have le: "sint nsems \<le> 65535" using n(2) sem_layoutD(11) [OF sem_wfD(1) [OF wf]] by simp
    have "int (unat nsems) = sint nsems" using uint_of_sint_nonneg [of nsems] n(1) by simp
    then have un: "unat (ucast nsems :: ushort) = unat nsems" using le by (intro unat_ucast_32_16) linarith
    define h where "h = \<lparr>sh_used = True, sh_seq = sh_seq (shapes st ! k), sh_base = unat (i - 1), sh_nsems = unat nsems\<rparr>"
    note al = sem_layout_alloc [OF sem_wfD(1) [OF wf] k n(1) le n(3,4), folded h_def]
    have "sem_shape sp = h" using n(6-8) un q(1,3) by (simp add: sem_shape_def h_def ipc_used_def)
    moreover have "map sem_shape ((sema st)[k := sp]) = (shapes st)[k := sem_shape sp]"
      by (rule nth_equalityI) (use k(1) in \<open>auto simp: nth_list_update\<close>)
    ultimately have sh: "shapes st' = (shapes st)[k := h]" using n(5) by simp
    have other: "m \<noteq> k" if "m \<in> live_sets (shapes st)" for m using that k by auto
    have refs: "undo_refs sr ((shapes st)[k := h]) (sem_undos st)"
      unfolding undo_refs_def
    proof (intro allI impI ballI, clarify)
      fix t d m assume "t < length (sem_undo (sem_undos st))" "(d, m) \<in> ekeys (sem_undos st) t"
      then have "ref_ok sr (shapes st) d m" using sem_wfD(4) [OF wf] by (auto simp: undo_refs_def)
      then show "ref_ok sr ((shapes st)[k := h]) d m"
        using sem_find_upd_other [of "shapes st" d _ k h] other [OF sem_find_Some(2)] by (auto simp: ref_ok_def)
    qed
    have "in_live (shapes st) j \<Longrightarrow> in_live ((shapes st)[k := h]) j" for j
      using other by (force simp: in_live_def)
    then show ?thesis
      using al(1) sem_wfD [OF wf] refs n(5) unfolding sem_wfs_def sh by (auto simp: vmx_ok_def)
  qed
qed

section \<open>semexit\<close>

text \<open>
  One adjustment: applied when the result is between zero and the limit, ignored otherwise.
\<close>

definition exit_value :: "sem_state \<Rightarrow> undo \<Rightarrow> int \<Rightarrow> int" where
  "exit_value st e x = (let v = x + sint (un_aoe e) in
     if v < 0 \<or> v > sint (si_semvmx (sem_info st)) then x else v)"

definition ent_pos :: "sem_state \<Rightarrow> undo \<Rightarrow> nat" where
  "ent_pos st e = sem_base (sema st ! sem_index (un_id e)) + unat (un_num e)"

lemma semexit_ent_spec:
  assumes wf: "sem_wfs sr st" and e: "ref_ok True (shapes st) (un_id e) (un_num e)"
  shows "\<exists>st'. semexit_ent st e = Ret st' \<and> sem_wfs sr st' \<and> sem_info st' = sem_info st \<and> sema st' = sema st \<and>
    semmap st' = semmap st \<and> sem_undos st' = sem_undos st \<and> length (sem_tab st') = length (sem_tab st) \<and>
    ent_pos st e < length (sem_tab st) \<and>
    (\<forall>j<length (sem_tab st). uint (semval (sem_tab st' ! j)) =
      (if j = ent_pos st e then exit_value st e (uint (semval (sem_tab st ! j))) else uint (semval (sem_tab st ! j))))"
proof -
  obtain k where k: "sem_find (shapes st) (un_id e) = Some k" "unat (un_num e) < sh_nsems (shapes st ! k)"
    using e by (auto simp: ref_ok_def)
  note b = live_bounds [OF wf k(1)]
  let ?j = "sem_base (sema st ! k) + unat (un_num e)"
  have num: "unat (un_num e) < unat (sem_nsems (sema st ! k))" using k(2) b(3) by (simp add: sem_shape_def)
  have jl: "?j < length (sem_tab st)" using num b(2) by linarith
  have pos: "ent_pos st e = ?j" using b(5) by (simp add: ent_pos_def)
  have lv: "in_live (shapes st) ?j" using num b by (intro in_live_set [OF b(4)]) (simp_all add: sem_shape_def)
  have lock: "semconv_lock st (un_id e) = Ret (Some k)" using k(1) sem_wfD(8) [OF wf] by simp
  define v where "v = uint (semval (sem_tab st ! ?j)) + sint (un_aoe e)"
  show ?thesis
  proof (cases "v < 0 \<or> v > sint (si_semvmx (sem_info st))")
    case True
    then show ?thesis using lock jl wf pos b(1)
      by (auto simp: semexit_ent_def Let_def v_def exit_value_def)
  next
    case False
    have lim: "sint (si_semvmx (sem_info st)) \<le> 65535" using sem_wfD(5) [OF wf] by (simp add: vmx_ok_def)
    define f :: "sem \<Rightarrow> sem" where "f = (\<lambda>semp. let s1 = semp\<lparr>semval := word_of_int v\<rparr>;
        s2 = (if v = 0 \<and> semzcnt s1 \<noteq> 0 then s1\<lparr>semzcnt := 0, semzcnt_cv := []\<rparr> else s1)
      in if sint (un_aoe e) > 0 \<and> semncnt s2 \<noteq> 0 then s2\<lparr>semncnt := 0, semncnt_cv := []\<rparr> else s2)"
    have r: "semexit_ent st e = Ret (upd_sem st ?j f)"
      using lock jl False b(1) unfolding semexit_ent_def f_def v_def by (simp add: Let_def)
    have "uint (word_of_int v :: ushort) = v"
      using False lim by (simp add: uint_word_of_int_eq take_bit_int_eq_self)
    then have vf: "uint (semval (f s)) = v" for s by (simp add: f_def Let_def)
    have "sem_wfs sr (upd_sem st ?j f)"
      using False vf lv by (intro sem_wf_values [OF wf]) (auto simp: sem_wfD [OF wf] upd_sem_nth)
    then show ?thesis using r vf False jl pos
      by (auto simp: upd_sem_nth exit_value_def v_def Let_def)
  qed
qed

fun exit_values :: "sem_state \<Rightarrow> undo list \<Rightarrow> nat \<Rightarrow> int \<Rightarrow> int" where
  "exit_values st [] j x = x"
| "exit_values st (e # es) j x = exit_values st es j (if j = ent_pos st e then exit_value st e x else x)"

lemma exit_values_cong:
  "sem_info st' = sem_info st \<Longrightarrow> sema st' = sema st \<Longrightarrow> exit_values st' es j x = exit_values st es j x"
  by (induction es arbitrary: x) (simp_all add: exit_value_def ent_pos_def)

lemma semexit_loop_spec:
  assumes "sem_wfs sr st" "\<forall>e\<in>set es. ref_ok True (shapes st) (un_id e) (un_num e)"
  shows "\<exists>st'. semexit_loop st es = Ret st' \<and> sem_wfs sr st' \<and> sem_info st' = sem_info st \<and> sema st' = sema st \<and>
    semmap st' = semmap st \<and> sem_undos st' = sem_undos st \<and> length (sem_tab st') = length (sem_tab st) \<and>
    (\<forall>j<length (sem_tab st). uint (semval (sem_tab st' ! j)) = exit_values st es j (uint (semval (sem_tab st ! j))))"
  using assms
proof (induction es arbitrary: st)
  case (Cons e es)
  obtain st1 where s1: "semexit_ent st e = Ret st1" "sem_wfs sr st1" "sem_info st1 = sem_info st" "sema st1 = sema st"
    "semmap st1 = semmap st" "sem_undos st1 = sem_undos st" "length (sem_tab st1) = length (sem_tab st)"
    "\<forall>j<length (sem_tab st). uint (semval (sem_tab st1 ! j)) =
      (if j = ent_pos st e then exit_value st e (uint (semval (sem_tab st ! j))) else uint (semval (sem_tab st ! j)))"
    using semexit_ent_spec [OF Cons.prems(1), of e] Cons.prems(2) by auto
  have "\<forall>e\<in>set es. ref_ok True (shapes st1) (un_id e) (un_num e)" using Cons.prems(2) s1(4) by simp
  from Cons.IH [OF s1(2) this] show ?case
    using s1 exit_values_cong [OF s1(3,4)] by auto
qed simp

text \<open>The undo structure of the process goes back to the free chain.\<close>

lemma undo_release_wf:
  assumes wf: "undo_wf si u" and s: "slot < length (sem_undo u)" "sem_undo u ! slot = Some up"
  defines "u' \<equiv> u\<lparr>semu := (semu u)[up := []], semunp := remove1 up (semunp u), semfup := up # semfup u,
    sem_undo := (sem_undo u)[slot := None]\<rparr>"
  shows "undo_wf si u'" and "t < length (sem_undo u) \<Longrightarrow> ents u' t = (if t = slot then [] else ents u t)"
proof -
  note w = undo_wfD [OF wf]
  have at: "sem_undo u' ! t = (if t = slot then None else sem_undo u ! t)" if "t < length (sem_undo u)" for t
    using that by (simp add: u'_def nth_list_update)
  have up: "up \<in> held u" using held_at [OF s] .
  have lup: "up < length (semu u)" using w(2) up by blast
  have h: "held u' = held u - {up}"
  proof
    show "held u' \<subseteq> held u - {up}"
    proof
      fix q assume "q \<in> held u'"
      then obtain t where t: "t < length (sem_undo u')" "sem_undo u' ! t = Some q" by (rule heldE)
      then have l: "t < length (sem_undo u)" by (simp add: u'_def)
      then have "t \<noteq> slot" "sem_undo u ! t = Some q" using at [OF l] t(2) by (auto split: if_splits)
      then show "q \<in> held u - {up}" using held_at [OF l] w(1) [OF l s(1)] s(2) by auto
    qed
    show "held u - {up} \<subseteq> held u'"
    proof
      fix q assume q: "q \<in> held u - {up}"
      then obtain t where t: "t < length (sem_undo u)" "sem_undo u ! t = Some q" using heldE by blast
      then have "t \<noteq> slot" using q s(2) by auto
      then show "q \<in> held u'" using t at [OF t(1)] by (intro held_at [of t]) (simp_all add: u'_def)
    qed
  qed
  have sem: "semu u' ! q = (if q = up then [] else semu u ! q)" for q using lup by (simp add: u'_def)
  show "undo_wf si u'"
    unfolding undo_wf_def h
  proof (intro conjI)
    show "set (semunp u') = {q \<in> held u - {up}. semu u' ! q \<noteq> []}"
      unfolding sem using w(7,9) by (auto simp: u'_def)
    show "distinct (semunp u')" using w(7) by (simp add: u'_def)
    show "distinct (semfup u')" using w(4,8) up by (auto simp: u'_def)
    show "(held u - {up}) \<inter> set (semfup u') = {}" using w(4) by (auto simp: u'_def)
    show "\<forall>q\<in>set (semfup u'). semu u' ! q = []" unfolding sem using w(6) by (auto simp: u'_def)
    show "\<forall>q\<in>held u - {up}. ents_ok si (semu u' ! q)" unfolding sem using w(5) by auto
    show "\<forall>q\<in>held u - {up} \<union> set (semfup u'). q < length (semu u')" using w(2,3) lup by (auto simp: u'_def)
    show "\<forall>a<length (sem_undo u'). \<forall>b<length (sem_undo u'). \<forall>q. sem_undo u' ! a = Some q \<longrightarrow> sem_undo u' ! b = Some q \<longrightarrow> a = b"
      using at w(1) by (auto simp: u'_def split: if_splits)
  qed
  show "ents u' t = (if t = slot then [] else ents u t)" if t: "t < length (sem_undo u)"
  proof (cases "t = slot")
    case False
    then have "sem_undo u ! t \<noteq> Some up" using w(1) [OF t s(1)] s(2) by auto
    then show ?thesis using False at [OF t] sem by (auto simp: ents_def split: option.split)
  qed (use at t in \<open>simp add: ents_def\<close>)
qed

end
