(* ===== verification/Sem_Props.thy ===== *)
theory Sem_Props
  imports Sem_Inv
begin

text \<open>
  The claims on the semaphore facility, each with an application to a concrete state.
\<close>

section \<open>A concrete state\<close>

text \<open>
  The default limits; eight semaphores; a set of two semaphores with values 1 and 0, made by the
  user 7 under key 17, and a free entry; one process has undone nothing, another must put back 1.
\<close>

definition ex_info :: seminfo where
  "ex_info = \<lparr>si_semmap = 10, si_semmni = 2, si_semmns = 8, si_semmnu = 3, si_semmsl = 4, si_semopm = 10,
     si_semume = 10, si_semusz = 96, si_semvmx = 32767, si_semaem = 16384\<rparr>"

definition ex_set :: semid_ds where
  "ex_set = zero_semid\<lparr>sem_perm := zero_perm\<lparr>perm_uid := 7, perm_cuid := 7, perm_mode := 0x81B0, perm_seq := 3, perm_key := 17\<rparr>,
     sem_base := 0, sem_nsems := 2, sem_binary := 1\<rparr>"

definition ex_id :: int32 where "ex_id = 0x30000"

definition ex_sem :: sem_state where
  "ex_sem = \<lparr>sem_info = ex_info,
     sem_tab = zero_sem\<lparr>semval := 1\<rparr> # replicate 7 zero_sem,
     sema = [ex_set, zero_semid],
     semmap = \<lparr>m_free = 9, m_want = 0, m_nam = ''rmallocmap'', m_nsegs = 10,
       m_map = \<lparr>m_size = 6, m_addr = 3\<rparr> # replicate 11 zero_seg\<rparr>,
     sem_undos = \<lparr>sem_undo = [None, Some 0], semunp = [0], semfup = [1, 2],
       semu = [[\<lparr>un_aoe = 1, un_num = 0, un_id = ex_id\<rparr>], [], []]\<rparr>,
     sem_acflag = 0\<rparr>"

definition ex_ctx :: ctx where
  "ex_ctx = \<lparr>ctx_cred = \<lparr>cr_uid = 7, cr_gid = 1, cr_groups = []\<rparr>, ctx_pid = 42, ctx_slot = 0,
     ctx_now = 1000, ctx_tid = 5, ctx_prio = (\<lambda>_. 0)\<rparr>"

lemma ex_semmap_live: "live (m_map (semmap ex_sem)) = [\<lparr>m_size = 6, m_addr = 3\<rparr>]"
  by (simp add: ex_sem_def live_def zero_seg_def)

lemma ex_shapes: "shapes ex_sem =
  [\<lparr>sh_used = True, sh_seq = 3, sh_base = 0, sh_nsems = 2\<rparr>, \<lparr>sh_used = False, sh_seq = 0, sh_base = 0, sh_nsems = 0\<rparr>]"
  by (simp add: ex_sem_def sem_shape_def ex_set_def zero_semid_def zero_perm_def ipc_used_def IPC_ALLOC_def)

lemma ex_find: "sem_find (shapes ex_sem) ex_id = Some 0"
  by (simp add: ex_shapes sem_find_def sem_index_def sem_sequence_def ex_id_def SEMA_INDEX_MASK_def
      SEMA_SEQ_SHIFT_def SEMA_SEQ_MASK_def)

lemma ex_sem_wf: "sem_wf ex_sem"
proof -
  have m: "map_wf (semmap ex_sem)" "free_set (semmap ex_sem) = {3..<9}"
    by (simp_all add: map_wf_def free_set_def ex_semmap_live)
      (simp_all add: ex_sem_def segs_wf_def seg_defs zero_seg_def segs_set_def list_all_iff)
  have lv: "live_sets (shapes ex_sem) = {0}" by (auto simp: ex_shapes less_Suc_eq)
  have "sem_layout (sem_info ex_sem) (shapes ex_sem) (semmap ex_sem) (length (sem_tab ex_sem))"
    unfolding sem_layout_def lv m(2)
    using m(1) by (auto simp: ex_shapes owned_def sh_blk_def) (simp_all add: ex_sem_def ex_info_def)
  moreover have "undo_wf (sem_info ex_sem) (sem_undos ex_sem)"
    by (auto simp: undo_wf_def ex_sem_def held_def ents_ok_def aoe_out_def ex_info_def less_Suc_eq)
  moreover have "aem_ok (sem_info ex_sem)" by (simp add: aem_ok_def ex_sem_def ex_info_def)
  moreover have "undo_refs True (shapes ex_sem) (sem_undos ex_sem)"
    unfolding undo_refs_def ref_ok_def
    using ex_find by (auto simp: ex_sem_def ekeys_def ents_def less_Suc_eq sem_shape_def ex_set_def ex_id_def)
  moreover have "vmx_ok ex_sem" by (auto simp: vmx_ok_def ex_sem_def ex_info_def zero_sem_def)
  moreover have "semval (sem_tab ex_sem ! j) = 0" if "j < length (sem_tab ex_sem)" "\<not> in_live (shapes ex_sem) j" for j
  proof -
    have "in_live (shapes ex_sem) 0" by (rule in_live_set [of 0]) (simp_all add: ex_shapes)
    then have "j \<noteq> 0" using that(2) by metis
    then obtain i where "j = Suc i" by (cases j) auto
    moreover have "i < 7" using that(1) calculation by (simp add: ex_sem_def)
    ultimately show ?thesis by (simp add: ex_sem_def) (simp add: zero_sem_def)
  qed
  ultimately show ?thesis unfolding sem_wfs_def by blast
qed

section \<open>semop\<close>

text \<open>
  C8 (semop_all_or_nothing). A \<open>semop\<close> call that does not complete all its operations, because of
  an error or because it goes to sleep, leaves the value of every semaphore and the undo entries
  of every process exactly as they were, whatever operations it had already done and undone.
\<close>

theorem semop_all_or_nothing:
  assumes "sem_tables st" "ctx_slot c < length (sem_undo (sem_undos st))"
    and "semop st c semid uops nsops = Ret (r, st')" "r \<noteq> All_done"
  shows "map semval (sem_tab st') = map semval (sem_tab st) \<and>
    (\<forall>t<length (sem_undo (sem_undos st)). ents (sem_undos st') t = ents (sem_undos st) t) \<and>
    shapes st' = shapes st \<and> semmap st' = semmap st"
  using assms(1)
proof (cases rule: semop_cases [where c = c and semid = semid and uops = uops and nsops = nsops])
  case (early e)
  then show ?thesis using assms(3) by simp
next
  case (pass ops k)
  then have k: "semop_check_t st c semid k False ops = (r, st')" using assms(3) by simp
  note res = semop_check_stopped [OF assms(1,2) k assms(4)]
  then have "shapes st' = shapes st" by (intro shapes_binary) (simp add: restored_def)
  then show ?thesis using res by (simp add: restored_def)
qed

text \<open>Two operations of which the second must wait: the first one is undone.\<close>

definition ex_ops :: "sembuf list" where
  "ex_ops = [\<lparr>sem_num = 0, sem_op = -1, sem_flg = SEM_UNDO\<rparr>, \<lparr>sem_num = 1, sem_op = -1, sem_flg = 0\<rparr>]"

lemmas ex_eval = ex_sem_def ex_info_def ex_ctx_def ex_id_def ex_set_def semconv_lock_def sem_index_def elem_at_def put_sem_def put_sema_def
  sem_sequence_def SEMA_INDEX_MASK_def SEMA_SEQ_SHIFT_def SEMA_SEQ_MASK_def zero_semid_def zero_perm_def IPC_ALLOC_def
  ipcaccess_def semop_check_def Let_def aoe_if_def SEM_UNDO_def semaoe_def semaoe_entry_def aoe_out_def
  aoe_update_def upd_sem_def upd_sema_def zero_sem_def sem_p_def SEM_NOWAIT_def SEM_A_def word_le_def

lemma ex_semop_sleeps: "\<exists>st'. semop ex_sem ex_ctx ex_id (Some ex_ops) 2 = Ret (Sleep_n 1, st')"
  by (simp add: semop_def ex_ops_def ex_eval)

theorem semop_all_or_nothing_witness:
  "sem_tables ex_sem \<and> (\<exists>st'. semop ex_sem ex_ctx ex_id (Some ex_ops) 2 = Ret (Sleep_n 1, st') \<and>
     map semval (sem_tab st') = [1, 0, 0, 0, 0, 0, 0, 0])"
proof -
  obtain st' where r: "semop ex_sem ex_ctx ex_id (Some ex_ops) 2 = Ret (Sleep_n 1, st')" using ex_semop_sleeps by blast
  have slot: "ctx_slot ex_ctx < length (sem_undo (sem_undos ex_sem))" by (simp add: ex_ctx_def ex_sem_def)
  note tab = sem_wf_tables [OF ex_sem_wf]
  have "map semval (sem_tab st') = map semval (sem_tab ex_sem)"
    using semop_all_or_nothing [OF tab slot r] by simp
  also have "\<dots> = [1, 0, 0, 0, 0, 0, 0, 0]" by (simp add: ex_sem_def zero_sem_def numeral_eq_Suc)
  finally show ?thesis using tab r by simp
qed

definition undo_sum :: "sembuf list \<Rightarrow> ushort \<Rightarrow> int" where
  "undo_sum ops n = sum_list (map (\<lambda>op. if sem_num op = n \<and> sem_flg op AND SEM_UNDO \<noteq> 0 then sint (sem_op op) else 0) ops)"

lemma series_adj:
  assumes "undo_log.series (semaoe si) u slot (undo_ops semid ops) u'" "undo_wf si u" "aem_exact si"
    "slot < length (sem_undo u)"
  shows "ents_adj (ents u' slot) d n = ents_adj (ents u slot) d n - (if d = semid then undo_sum ops n else 0)"
  using assms
proof (induction ops arbitrary: u)
  case Nil
  then show ?case by (simp add: undo_ops_def undo_sum_def)
next
  case (Cons op ops)
  show ?case
  proof (cases "sem_op op \<noteq> 0 \<and> sem_flg op AND SEM_UNDO \<noteq> 0")
    case False
    then show ?thesis using Cons by (auto simp: undo_ops_def undo_sum_def)
  next
    case True
    then obtain u1 where u1: "semaoe si u slot (sem_op op) semid (sem_num op) = (None, u1)"
      "undo_log.series (semaoe si) u1 slot (undo_ops semid ops) u'"
      using Cons.prems(1) by (auto simp: undo_ops_def)
    have ok: "aem_ok si" using aem_exact_ok Cons.prems(3) by blast
    note e = semaoe_effect [OF Cons.prems(2,4) ok u1(1)]
    have out: "\<not> aoe_out si (sem_op op)" and up: "aoe_update si (ents u slot) (sem_op op) semid (sem_num op) = (None, ents u1 slot)"
      using e(5) True by (auto split: if_splits)
    have eo: "ents_ok si (ents u slot)"
      using undo_wfD(5) [OF Cons.prems(2)] held_at [OF Cons.prems(4)] by (auto simp: ents_def ents_ok_def split: option.split)
    have "ents_adj (ents u1 slot) d n = ents_adj (ents u slot) d n - (if d = semid \<and> n = sem_num op then sint (sem_op op) else 0)"
      using aoe_update_adj(1) [OF eo Cons.prems(3) out _ up] True by auto
    then show ?thesis using Cons.IH [OF u1(2) e(1) Cons.prems(3)] e(2) Cons.prems(4) True
      by (auto simp: undo_sum_def)
  qed
qed

text \<open>
  C9 (semop_effect). A \<open>semop\<close> call that completes has added the sum of its operations to the value
  of each semaphore, as integers and within the limit of values; it has recorded in the undo
  entries of the process the sum of the operations that asked for it, with the opposite sign, and
  touched the entries of no other process; and it has set the process id and the time.
\<close>

theorem semop_effect:
  assumes wf: "sem_tables st" "aem_exact (sem_info st)" "ctx_slot c < length (sem_undo (sem_undos st))"
    and r: "semop st c semid (Some ops) nsops = Ret (All_done, st')" "nsops \<noteq> 0"
  shows "\<exists>k. semconv_lock st semid = Ret (Some k) \<and>
    (\<forall>j<length (sem_tab st). uint (semval (sem_tab st' ! j)) =
        uint (semval (sem_tab st ! j)) + opsum_int (sem_base (sema st ! k)) ops j \<and>
      uint (semval (sem_tab st' ! j)) \<le> sint (si_semvmx (sem_info st))) \<and>
    (\<forall>op\<in>set ops. sempid (sem_tab st' ! (sem_base (sema st ! k) + unat (sem_num op))) = ctx_pid c) \<and>
    (\<forall>d n. ents_adj (ents (sem_undos st') (ctx_slot c)) d n =
        ents_adj (ents (sem_undos st) (ctx_slot c)) d n - (if d = semid then undo_sum ops n else 0)) \<and>
    (\<forall>t<length (sem_undo (sem_undos st)). t \<noteq> ctx_slot c \<longrightarrow> ents (sem_undos st') t = ents (sem_undos st) t) \<and>
    sem_otime (sema st' ! k) = ctx_now c"
proof -
  obtain k where f: "sem_find (shapes st) semid = Some k" and v: "semop_verify (sema st ! k) (ctx_cred c) ops = None"
    and p: "semop_check_t st c semid k False ops = (All_done, st')"
    using wf(1)
  proof (cases rule: semop_cases [where c = c and semid = semid and uops = "Some ops" and nsops = nsops])
    case (early e)
    then show ?thesis using r by simp
  next
    case (pass ops' k)
    then show ?thesis using r(1) by (intro that) auto
  qed
  have k: "semconv_lock st semid = Ret (Some k)" using f sem_wfD(8) [OF wf(1)] by simp
  note b = live_bounds [OF wf(1) f] and ok = semop_verify_in(1) [OF wf(1) f v]
  note d = semop_check_done [OF wf(1,3) _ f ok p, simplified]
  have w: "undo_wf (sem_info st) (sem_undos st) \<and> aem_ok (sem_info st)" using sem_wfD(2,3) [OF wf(1)] by simp
  note sw = ul.series_wf [OF d(4) w wf(3)]
  have vm: "vmx_ok st'" using sem_wfD(5) [OF d(1)] .
  have lim: "uint (semval (sem_tab st' ! j)) \<le> sint (si_semvmx (sem_info st))" if "j < length (sem_tab st)" for j
    using vm d(6,7) that unfolding vmx_ok_nth by simp
  have adj: "ents_adj (ents (sem_undos st') (ctx_slot c)) x n =
      ents_adj (ents (sem_undos st) (ctx_slot c)) x n - (if x = semid then undo_sum ops n else 0)" for x n
    by (rule series_adj [OF d(4) _ wf(2,3)]) (use w in blast)
  have ot: "sem_otime (sema st' ! k) = ctx_now c" using d(5) b(1) by simp
  show ?thesis using k d(2,3) lim adj sw ot by (intro exI [of _ k]) simp
qed

definition ex_p :: "sembuf list" where
  "ex_p = [\<lparr>sem_num = 0, sem_op = -1, sem_flg = SEM_UNDO\<rparr>]"

theorem semop_effect_witness:
  "sem_tables ex_sem \<and> (\<exists>st'. semop ex_sem ex_ctx ex_id (Some ex_p) 1 = Ret (All_done, st') \<and>
     uint (semval (sem_tab st' ! 0)) = 0 \<and> ents_adj (ents (sem_undos st') 0) ex_id 0 = 1)"
proof -
  have "\<exists>st'. semop ex_sem ex_ctx ex_id (Some ex_p) 1 = Ret (All_done, st')" by (simp add: semop_def ex_p_def ex_eval)
  then obtain st' where r: "semop ex_sem ex_ctx ex_id (Some ex_p) 1 = Ret (All_done, st')" by blast
  note tab = sem_wf_tables [OF ex_sem_wf]
  have h: "aem_exact (sem_info ex_sem)" "ctx_slot ex_ctx < length (sem_undo (sem_undos ex_sem))" "(1 :: ulong) \<noteq> 0"
    by (simp_all add: aem_exact_def ex_sem_def ex_info_def ex_ctx_def)
  obtain k where k: "semconv_lock ex_sem ex_id = Ret (Some k)"
    "\<forall>j<length (sem_tab ex_sem). uint (semval (sem_tab st' ! j)) =
        uint (semval (sem_tab ex_sem ! j)) + opsum_int (sem_base (sema ex_sem ! k)) ex_p j"
    "\<forall>d n. ents_adj (ents (sem_undos st') (ctx_slot ex_ctx)) d n =
        ents_adj (ents (sem_undos ex_sem) (ctx_slot ex_ctx)) d n - (if d = ex_id then undo_sum ex_p n else 0)"
    using semop_effect [OF tab h(1,2) r h(3)] by blast
  have "semconv_lock ex_sem ex_id = Ret (Some 0)" using ex_find sem_wfD(8) [OF ex_sem_wf] by simp
  then have k0: "k = 0" using k(1) by simp
  have "uint (semval (sem_tab st' ! 0)) = 0"
    using k(2) [rule_format, of 0] k0 by (simp add: ex_sem_def ex_p_def ex_set_def zero_sem_def)
  moreover have "ents_adj (ents (sem_undos st') 0) ex_id 0 = 1"
    using k(3) [rule_format, of ex_id 0]
    by (simp add: ex_ctx_def ex_sem_def ents_def ents_adj_def undo_sum_def ex_p_def SEM_UNDO_def)
  ultimately show ?thesis using tab r by blast
qed

section \<open>The invariant\<close>

lemma semctl_wf:
  assumes wf: "sem_wfs sr st" and can: "sr \<longrightarrow> 0 \<le> sint semid"
  shows "\<exists>r out st'. semctl st c semid semnum cmd arg = Ret (r, out, st') \<and> sem_wfs sr st'"
proof (cases "sem_find (shapes st) semid")
  case None
  then show ?thesis using wf sem_wfD(8) [OF wf] by (simp add: semctl_def)
next
  case (Some k)
  have lock: "semconv_lock st semid = Ret (Some k)" using Some sem_wfD(8) [OF wf] by simp
  note b = live_bounds [OF wf Some]
  have j: "sem_base (sema st ! k) + unat n < length (sem_tab st)" if "n < ucast (sem_nsems (sema st ! k))" for n :: ulong
  proof -
    have "unat n < unat (sem_nsems (sema st ! k))" using that by (simp add: word_less_nat_alt)
    then show ?thesis using b(2) by linarith
  qed
  have ex: "\<exists>r out st'. semctl_set st c k a = Ret (r, out, st')" "\<exists>r out st'. semctl_o_set st c k b = Ret (r, out, st')"
    "\<exists>r out st'. semctl_setval st c semid k semnum v = Ret (r, out, st')"
    "\<exists>r out st'. semctl_setall st c semid k rd vs = Ret (r, out, st')" for a b v rd vs
    using b(1) j b(2) by (auto simp: semctl_set_def semctl_o_set_def semctl_setval_def semctl_setall_def Let_def sem_loop_in not_le
        split: option.split prod.split)
  have q: "\<exists>r out. semctl_o_stat st c k w = Ret (r, out, st)" "\<exists>r out. semctl_stat st c k w = Ret (r, out, st)"
    "\<exists>r out. semctl_get st c k semnum f = Ret (r, out, st)" "\<exists>r out. semctl_getall st c k g = Ret (r, out, st)" for w f g
    using b(1) j b(2) by (auto simp: semctl_o_stat_def semctl_stat_def semctl_get_def semctl_getall_def Let_def sem_copyout_in not_le split: option.split)
  have w1: "\<exists>r out st'. semctl_set st c k a = Ret (r, out, st') \<and> sem_wfs sr st'" for a
    using ex(1) [of a] semctl_set_wf(1) [OF wf Some] by blast
  have w2: "\<exists>r out st'. semctl_o_set st c k a = Ret (r, out, st') \<and> sem_wfs sr st'" for a
    using ex(2) [of a] semctl_set_wf(2) [OF wf Some] by blast
  have w3: "\<exists>r out st'. semctl_setval st c semid k semnum v = Ret (r, out, st') \<and> sem_wfs sr st'" for v
    using ex(3) [of v] semctl_setval_wf [OF wf Some] by blast
  have w4: "\<exists>r out st'. semctl_setall st c semid k rd vs = Ret (r, out, st') \<and> sem_wfs sr st'" for rd vs
    using ex(4) [of rd vs] semctl_setall_wf [OF wf Some] by blast
  have w5: "\<exists>r out st'. semctl_rmid st c semid k = Ret (r, out, st') \<and> sem_wfs sr st'"
    using semctl_rmid_wf [OF wf Some can] by blast
  show ?thesis
    unfolding semctl_def lock kbind.simps option.case using w1 w2 w3 w4 w5 q wf by (simp del: split_paired_Ex) blast
qed

lemma semsys_wf:
  assumes wf: "sem_wfs sr st" and slot: "ctx_slot c < length (sem_undo (sem_undos st))"
    and can: "sr \<longrightarrow> opcode \<noteq> SEMGET \<longrightarrow> 0 \<le> sint a1"
  shows "\<exists>res st'. semsys st c opcode a1 a2 a3 arg uops = Ret (res, st') \<and> sem_wfs sr st'"
proof -
  consider (ctl) "opcode = SEMCTL" | (get) "opcode = SEMGET" | (op) "opcode = SEMOP"
    | (bad) "opcode \<notin> {SEMCTL, SEMGET, SEMOP}" by blast
  then show ?thesis
  proof cases
    case ctl
    then have "sr \<longrightarrow> 0 \<le> sint a1" using can by (simp add: SEMCTL_def SEMGET_def)
    then obtain r out st' where "semctl st c a1 a2 a3 arg = Ret (r, out, st')" "sem_wfs sr st'"
      using semctl_wf [OF wf] by blast
    then show ?thesis using ctl by (simp add: semsys_def)
  next
    case get
    obtain r st' where r: "semget st c a1 a2 a3 = Ret (r, st')"
      using semget_outcomes [OF wf, of c a1 a2 a3] by blast
    then show ?thesis using get semget_wf [OF wf r] by (simp add: semsys_def SEMCTL_def SEMGET_def)
  next
    case op
    then have "sr \<longrightarrow> 0 \<le> sint a1" using can by (simp add: SEMOP_def SEMGET_def)
    then obtain r st' where r: "semop st c a1 uops a3 = Ret (r, st')" "sem_wfs sr st'" using semop_wf [OF wf slot] by blast
    then show ?thesis using op by (simp add: semsys_def SEMOP_def SEMCTL_def SEMGET_def)
  qed (use wf in \<open>simp add: semsys_def\<close>)
qed

text \<open>
  C10 (semsys_invariant). From a state in which the live sets are disjoint from each other and from the free part
  of the pool, no value exceeds the limit, unused semaphores are zero and the undo structures are well
  formed, every semaphore system call, with any identifier and any semaphore numbers, returns or goes to
  sleep, without a panic and without an access outside the table of sets or the pool of semaphores (every such
  access in the model is a fault when it is outside), in a state of which the same holds. When moreover all undo
  entries refer to semaphores of live sets and the identifier is one that \<open>semget\<close> can hand out, which is not
  negative, all undo entries do so afterwards.
\<close>

theorem semsys_invariant:
  assumes "sem_tables st" "ctx_slot c < length (sem_undo (sem_undos st))"
  shows "\<exists>res st'. semsys st c opcode a1 a2 a3 arg uops = Ret (res, st') \<and> sem_tables st' \<and>
    (sem_wf st \<and> (opcode = SEMGET \<or> 0 \<le> sint a1) \<longrightarrow> sem_wf st')"
proof -
  obtain res st' where r: "semsys st c opcode a1 a2 a3 arg uops = Ret (res, st')" "sem_tables st'"
    using semsys_wf [OF assms] by blast
  moreover have "sem_wf st'" if "sem_wf st" "opcode = SEMGET \<or> 0 \<le> sint a1"
    using semsys_wf [OF that(1) assms(2), of opcode a1 a2 a3 arg uops] that(2) r(1) by auto
  ultimately show ?thesis by blast
qed

theorem semsys_invariant_witness:
  "sem_wf ex_sem \<and> (\<exists>res st'. semsys ex_sem ex_ctx SEMOP ex_id 0 2 undefined (Some ex_ops) = Ret (res, st') \<and> sem_wf st') \<and>
   (\<exists>res st'. semsys ex_sem ex_ctx SEMCTL (ex_id XOR 0x80000000) 7 GETVAL undefined None = Ret (res, st') \<and> sem_tables st')"
proof -
  have slot: "ctx_slot ex_ctx < length (sem_undo (sem_undos ex_sem))" by (simp add: ex_ctx_def ex_sem_def)
  have can: "0 \<le> sint ex_id" by (simp add: ex_id_def)
  note inv = semsys_invariant [OF sem_wf_tables [OF ex_sem_wf] slot]
  have "\<exists>res st'. semsys ex_sem ex_ctx SEMOP ex_id 0 2 undefined (Some ex_ops) = Ret (res, st') \<and> sem_wf st'"
    using inv [of SEMOP ex_id 0 2 undefined "Some ex_ops"] ex_sem_wf can by auto
  then show ?thesis using ex_sem_wf inv [of SEMCTL "ex_id XOR 0x80000000" 7 GETVAL undefined None] by blast
qed

section \<open>Identifiers\<close>

lemma sem_mk_found:
  assumes "sem_wfs sr t" "k < length (sema t)" "ipc_used (sem_perm (sema t ! k))" "s = perm_seq (sem_perm (sema t ! k))"
  shows "0 \<le> sint (sem_mk k s) \<and> sem_find (shapes t) (sem_mk k s) = Some k"
proof -
  note l = sem_layoutD [OF sem_wfD(1) [OF assms(1)]]
  have kk: "k < 65536" "unat s \<le> 32767" using l(5) [of k] l(9) [of k] assms by (auto simp: sem_shape_def)
  show ?thesis using sem_mk_parts [OF kk] sem_mk_uint(2) [OF kk] assms
    by (simp add: sem_find_def Let_def) (simp add: sem_shape_def)
qed

text \<open>The cases of a successful \<open>semget\<close>.\<close>

lemma semget_cases:
  assumes wf: "sem_wfs sr st" and r: "semget st c key nsems flg = Ret (Inr d, st')"
  obtains (old) k where "st' = st" "k < length (sema st)" "ipc_used (sem_perm (sema st ! k))"
      "d = sem_mk k (perm_seq (sem_perm (sema st ! k)))"
  | (new) k p i mp sp where "ipcget key flg (map sem_perm (sema st)) (ctx_cred c) = Inr (True, k, p)"
      "0 < sint nsems" "sint nsems \<le> sint (si_semmsl (sem_info st))"
      "rmalloc (semmap st) nsems = Ret (i, mp)" "i \<noteq> 0" "d = sem_mk k (perm_seq p)"
      "st' = st\<lparr>sema := (sema st)[k := sp], semmap := mp\<rparr>" "sem_perm sp = p\<lparr>perm_pad := [0, 0, 0, 0]\<rparr>"
      "sem_base sp = unat (i - 1)" "sem_nsems sp = ucast nsems"
proof (cases "ipcget key flg (map sem_perm (sema st)) (ctx_cred c)")
  case (Inl e)
  then show ?thesis using semget_outcomes [OF wf, of c key nsems flg] r by simp
next
  case (Inr x)
  obtain s k p where x: "x = (s, k, p)" by (cases x)
  show ?thesis
  proof (cases s)
    case False
    then show ?thesis using semget_outcomes [OF wf, of c key nsems flg] r Inr x
      by (auto split: if_splits intro: old)
  next
    case True
    then show ?thesis using semget_outcomes [OF wf, of c key nsems flg] r Inr x by (auto intro: new)
  qed
qed

lemma semget_find:
  assumes wf: "sem_wfs sr st" and r: "semget st c key nsems flg = Ret (Inr d, st')"
  shows "0 \<le> sint d" "\<exists>k. semconv_lock st' d = Ret (Some k)"
proof -
  note wf' = semget_wf [OF wf r]
  have "0 \<le> sint d \<and> (\<exists>k. sem_find (shapes st') d = Some k)"
    using wf r
  proof (cases rule: semget_cases)
    case (old k)
    then show ?thesis using sem_mk_found [OF wf] by blast
  next
    case (new k p i mp sp)
    note q = ipcget_newD [OF new(1)]
    have "sema st' ! k = sp" "k < length (sema st')" using new(7) q(1) by simp_all
    then show ?thesis using sem_mk_found [OF wf', of k "perm_seq p"] q(3) new(6,8) by (auto simp: ipc_used_def)
  qed
  then show "0 \<le> sint d" "\<exists>k. semconv_lock st' d = Ret (Some k)" using sem_wfD(8) [OF wf'] by auto
qed

text \<open>
  C13 (semget_roundtrip). The identifier that \<open>semget\<close> returns is not negative and names, for the
  following calls, a live set; when the set is new it has the number of semaphores asked for, its
  semaphores were in no live set before, and all their values are zero.
\<close>

theorem semget_roundtrip:
  assumes wf: "sem_tables st" and r: "semget st c key nsems flg = Ret (Inr d, st')"
  shows "0 \<le> sint d \<and> (\<exists>k. semconv_lock st' d = Ret (Some k) \<and>
    (if sem_find (shapes st) d = Some k then st' = st
     else unat (sem_nsems (sema st' ! k)) = unat nsems \<and>
       (\<forall>j. sem_base (sema st' ! k) \<le> j \<and> j < sem_base (sema st' ! k) + unat nsems \<longrightarrow>
          \<not> in_live (shapes st) j \<and> j < length (sem_tab st') \<and> semval (sem_tab st' ! j) = 0)))"
proof -
  note lay = sem_layoutD [OF sem_wfD(1) [OF wf]] and wf' = semget_wf [OF wf r]
  from wf r show ?thesis
  proof (cases rule: semget_cases)
    case (old k)
    then show ?thesis using sem_mk_found [OF wf, of k] sem_wfD(8) [OF wf] by auto
  next
    case (new k p i mp sp)
    note q = ipcget_newD [OF new(1)]
    have k: "k < length (shapes st)" "\<not> sh_used (shapes st ! k)" using q(1,2) by (auto simp: sem_shape_def)
    have le: "sint nsems \<le> 65535" using new(3) lay(11) by simp
    have "int (unat nsems) = sint nsems" using uint_of_sint_nonneg [of nsems] new(2) by simp
    then have un: "unat (ucast nsems :: ushort) = unat nsems" using le by (intro unat_ucast_32_16) linarith
    note al = sem_layout_alloc [OF sem_wfD(1) [OF wf] k new(2) le new(4,5)]
    have sp: "sema st' ! k = sp" "k < length (sema st')" using new(7) k by simp_all
    have f: "0 \<le> sint d" "sem_find (shapes st') d = Some k"
      using sem_mk_found [OF wf', of k "perm_seq p"] sp q(3) new(6,8) by (simp_all add: ipc_used_def)
    have old: "sem_find (shapes st) d \<noteq> Some k" using k sem_find_Some(2) by blast
    have fresh: "\<not> in_live (shapes st) j \<and> j < length (sem_tab st') \<and> semval (sem_tab st' ! j) = 0"
      if "sem_base sp \<le> j \<and> j < sem_base sp + unat nsems" for j
    proof -
      have "\<not> in_live (shapes st) j"
      proof
        assume "in_live (shapes st) j"
        then obtain m where m: "m \<in> live_sets (shapes st)" "in_set (shapes st ! m) j" by (auto simp: in_live_def)
        then have "Suc j \<in> sh_blk (shapes st ! m)" by (simp add: in_set_def sh_blk_def)
        moreover have "Suc j \<in> sh_blk \<lparr>sh_used = True, sh_seq = sh_seq (shapes st ! k), sh_base = unat (i - 1), sh_nsems = unat nsems\<rparr>"
          using that new(9) by (simp add: sh_blk_def)
        ultimately show False using al(2) [OF m(1)] by blast
      qed
      moreover have "j < length (sem_tab st)" using al(3) that new(9) by linarith
      ultimately show ?thesis using sem_wfD(6) [OF wf] new(7) by simp
    qed
    show ?thesis using f old fresh sp un new(10) sem_wfD(8) [OF wf'] by auto
  qed
qed

theorem semget_roundtrip_witness:
  "sem_wf ex_sem \<and> semget ex_sem ex_ctx 17 2 0 = Ret (Inr ex_id, ex_sem) \<and> semconv_lock ex_sem ex_id = Ret (Some 0)"
proof -
  have g: "semget ex_sem ex_ctx 17 2 0 = Ret (Inr ex_id, ex_sem)"
    by (simp add: semget_def ipcget_def IPC_PRIVATE_def IPC_CREAT_def IPC_EXCL_def upd_sema_def ex_eval)
  obtain k where k: "semconv_lock ex_sem ex_id = Ret (Some k)" using semget_roundtrip [OF sem_wf_tables [OF ex_sem_wf] g] by blast
  have "semconv_lock ex_sem ex_id = Ret (Some 0)" using ex_find sem_wfD(8) [OF ex_sem_wf] by simp
  then show ?thesis using ex_sem_wf g k by simp
qed

text \<open>
  C14 (semctl_rmid_stale). Removing a set makes its identifier invalid, it stays invalid when the
  table entry is given out again by \<open>semget\<close>, whatever the key, and no process keeps an undo entry
  for it; the identifiers of the other sets keep naming them.
\<close>

theorem semctl_rmid_stale:
  assumes wf: "sem_wf st" and can: "0 \<le> sint d" and r: "semctl st c d n IPC_RMID arg = Ret (Inr 0, out, st')"
  shows "semconv_lock st' d = Ret None \<and>
    (\<forall>c' key nsems flg r2 st''. semget st' c' key nsems flg = Ret (r2, st'') \<longrightarrow> semconv_lock st'' d = Ret None \<and> r2 \<noteq> Inr d) \<and>
    (\<forall>t<length (sem_undo (sem_undos st')). \<forall>e\<in>set (ents (sem_undos st') t). un_id e \<noteq> d) \<and>
    (\<forall>e k. 0 \<le> sint e \<longrightarrow> e \<noteq> d \<longrightarrow> semconv_lock st e = Ret (Some k) \<longrightarrow> semconv_lock st' e = Ret (Some k))"
proof -
  obtain k where lock: "semconv_lock st d = Ret (Some k)" and rm: "semctl_rmid st c d k = Ret (Inr 0, out, st')"
    using r by (auto simp: semctl_def split: option.splits)
  have f: "sem_find (shapes st) d = Some k" using lock sem_wfD(8) [OF wf] by simp
  note b = live_bounds [OF wf f]
  define h where "h = (shapes st ! k)\<lparr>sh_used := False, sh_seq := sem_bump d (sh_seq (shapes st ! k))\<rparr>"
  have wf': "sem_wf st'" and sh: "shapes st' = (shapes st)[k := h]"
    using semctl_rmid_wf [OF wf f, of c] can rm by (auto simp: h_def split: if_splits)
  have seq: "sh_seq h \<noteq> sem_sequence d" using sem_bump_ok [OF sem_wfD(1) [OF wf] f] sem_find_Some(3) [OF f] by (simp add: h_def)
  have gone: "sem_find hs d = None" if "sh_seq (hs ! k) = sh_seq h \<or> \<not> sh_used (hs ! k)" for hs
    using that seq b(5) by (auto simp: sem_find_def Let_def)
  have hk: "shapes st' ! k = h" using sh b(1) by simp
  have none: "semconv_lock st' d = Ret None" using gone hk sem_wfD(8) [OF wf'] by simp
  have later: "semconv_lock st'' d = Ret None \<and> r2 \<noteq> Inr d" if g: "semget st' c' key nsems flg = Ret (r2, st'')" for c' key nsems flg r2 st''
  proof -
    note wf'' = semget_wf [OF wf' g]
    have "sh_seq (shapes st'' ! k) = sh_seq (shapes st' ! k)"
    proof -
      have "st'' = st' \<or> shapes st'' = shapes st' \<or> (\<exists>m p sp mp. ipcget key flg (map sem_perm (sema st')) (ctx_cred c') = Inr (True, m, p) \<and>
          st'' = st'\<lparr>sema := (sema st')[m := sp], semmap := mp\<rparr> \<and> sem_perm sp = p\<lparr>perm_pad := [0, 0, 0, 0]\<rparr>)"
        using semget_outcomes [OF wf', of c' key nsems flg] g by (auto split: sum.splits prod.splits bool.splits)
      then show ?thesis
      proof (elim disjE exE conjE)
        fix m p sp mp
        assume a: "ipcget key flg (map sem_perm (sema st')) (ctx_cred c') = Inr (True, m, p)"
          "st'' = st'\<lparr>sema := (sema st')[m := sp], semmap := mp\<rparr>" "sem_perm sp = p\<lparr>perm_pad := [0, 0, 0, 0]\<rparr>"
        note q = ipcget_newD [OF a(1)]
        have kl: "k < length (sema st')" using hk sh b(1) by (metis length_list_update length_map)
        show ?thesis using a q(1,3) kl by (cases "m = k") (simp_all add: sem_shape_def)
      qed simp_all
    qed
    then have "semconv_lock st'' d = Ret None" using gone [of "shapes st''"] hk sem_wfD(8) [OF wf''] by simp
    moreover have "r2 \<noteq> Inr d"
    proof
      assume "r2 = Inr d"
      with g have "semget st' c' key nsems flg = Ret (Inr d, st'')" by simp
      with semget_find(2) [OF wf' this] calculation show False by simp
    qed
    ultimately show ?thesis by blast
  qed
  have "un_id e \<noteq> d" if "t < length (sem_undo (sem_undos st'))" "e \<in> set (ents (sem_undos st') t)" for t e
  proof -
    have "ref_ok True (shapes st') (un_id e) (un_num e)"
      using sem_wfD(4) [OF wf'] that by (auto simp: undo_refs_def ekeys_def)
    then show ?thesis using gone hk by (auto simp: ref_ok_def)
  qed
  moreover have "semconv_lock st' e = Ret (Some m)" if "0 \<le> sint e" "e \<noteq> d" "semconv_lock st e = Ret (Some m)" for e m
  proof -
    have e: "sem_find (shapes st) e = Some m" using that(3) sem_wfD(8) [OF wf] by simp
    then have "m \<noteq> k" using sem_find_unique [OF _ f that(1) can] that(2) by blast
    then show ?thesis using sem_find_upd_other(1) [OF e] sh sem_wfD(8) [OF wf'] by simp
  qed
  ultimately show ?thesis using none later by blast
qed

theorem semctl_rmid_stale_witness:
  "sem_wf ex_sem \<and> (\<exists>out st'. semctl ex_sem ex_ctx ex_id 0 IPC_RMID undefined = Ret (Inr 0, out, st') \<and>
     semconv_lock st' ex_id = Ret None)"
proof -
  have can: "0 \<le> sint ex_id" by (simp add: ex_id_def)
  have own: "fst (ipc_owner (sem_perm (sema ex_sem ! 0)) (ctx_cred ex_ctx) (sem_acflag ex_sem))"
    by (simp add: ipc_owner_def ex_sem_def ex_set_def ex_ctx_def)
  obtain out st' where r: "semctl_rmid ex_sem ex_ctx ex_id 0 = Ret (Inr 0, out, st')"
    using semctl_rmid_wf [OF ex_sem_wf ex_find, of ex_ctx] can own by auto
  have "semconv_lock ex_sem ex_id = Ret (Some 0)" using ex_find sem_wfD(8) [OF ex_sem_wf] by simp
  then have s: "semctl ex_sem ex_ctx ex_id 0 IPC_RMID undefined = Ret (Inr 0, out, st')"
    using r by (simp add: semctl_def)
  show ?thesis using ex_sem_wf s semctl_rmid_stale [OF ex_sem_wf can s] by blast
qed

text \<open>
  The sequence number of an identifier is taken from its bits 16 to 30, so the
  sign bit is ignored: an identifier and the negative number that differs from it in the sign bit
  only name the same set. (The undo entries, however, are kept under the number that was passed.)
\<close>

lemma sem_id_alias: "semconv_lock st (d XOR 0x80000000) = semconv_lock st d"
proof -
  have i: "sem_index (d XOR 0x80000000) = sem_index d"
  proof -
    have "(d XOR 0x80000000) AND 0xFFFF = d AND 0xFFFF" by (simp add: bit.conj_xor_distrib2)
    then show ?thesis by (simp add: sem_index_def SEMA_INDEX_MASK_def)
  qed
  have s: "sem_sequence (d XOR 0x80000000) = sem_sequence d"
  proof -
    have t: "bit (0x80000000 :: ulong) n \<longleftrightarrow> n = 31" for n
    proof -
      have "(0x80000000 :: ulong) = push_bit 31 1" by simp
      then show ?thesis unfolding bit_push_bit_iff [of 31 "1 :: ulong" n, folded \<open>0x80000000 = push_bit 31 1\<close>] by (auto simp: bit_1_iff)
    qed
    have m: "(0x7FFF :: ulong) = mask 15" by (simp add: mask_eq_exp_minus_1)
    show ?thesis
      unfolding sem_sequence_def SEMA_SEQ_SHIFT_def SEMA_SEQ_MASK_def m
    proof (rule bit_word_eqI)
      fix n :: nat assume "n < LENGTH(32)"
      show "bit (signed_drop_bit 16 (d XOR 0x80000000) AND mask 15) n = bit (signed_drop_bit 16 d AND mask 15) n"
      proof (cases "n < 15")
        case True
        then have "\<not> bit (0x80000000 :: ulong) (16 + n)" using t [of "16 + n"] by simp
        then show ?thesis using True by (simp add: bit_and_iff bit_signed_drop_bit_iff bit_xor_iff)
      next
        case False
        then show ?thesis unfolding bit_and_iff bit_mask_iff by simp
      qed
    qed
  qed
  show ?thesis by (simp only: semconv_lock_def i s)
qed

section \<open>Setting and reading values\<close>

lemma getall_vals:
  assumes "j + n \<le> length ss"
  shows "map semval (take n (drop j (sem_loop_t (\<lambda>i. sem_setval (vals i) pid) j 0 n ss))) = map vals [0..<n]"
proof (rule nth_equalityI)
  show "length (map semval (take n (drop j (sem_loop_t (\<lambda>i. sem_setval (vals i) pid) j 0 n ss)))) = length (map vals [0..<n])"
    using assms by simp
  fix i assume i: "i < length (map semval (take n (drop j (sem_loop_t (\<lambda>i. sem_setval (vals i) pid) j 0 n ss))))"
  then have "i < n" using assms by simp
  then show "map semval (take n (drop j (sem_loop_t (\<lambda>i. sem_setval (vals i) pid) j 0 n ss))) ! i = map vals [0..<n] ! i"
    using assms by (simp add: sem_loop_nth sem_setval_def Let_def)
qed

text \<open>
  When \<open>SETALL\<close> succeeds, \<open>GETALL\<close> by anybody who may read the set returns the
  values that were set, no process has an undo entry for the set any more, and every semaphore
  of the set whose value became nonzero has nobody waiting for an increase, as all were woken.
\<close>

lemma setall_getall:
  assumes wf: "sem_wf st" and can: "0 \<le> sint d" and r: "semctl st c d n SETALL arg = Ret (Inr 0, out, st')"
    and acc: "ipcaccess (sem_perm (sema st ! sem_index d)) SEM_R (ctx_cred c') = None" and wr: "\<And>i. ua_out arg' i"
  shows "let sp = sema st ! sem_index d; m = unat (sem_nsems sp) in
    semctl st' c' d n' GETALL arg' = Ret (Inr 0, Out_vals (map (ua_vals arg) [0..<m]), st') \<and>
    (\<forall>t<length (sem_undo (sem_undos st')). \<forall>e\<in>set (ents (sem_undos st') t). un_id e \<noteq> d) \<and>
    (\<forall>i<m. ua_vals arg i \<noteq> 0 \<longrightarrow> semncnt (sem_tab st' ! (sem_base sp + i)) = 0)"
proof -
  obtain k where lock: "semconv_lock st d = Ret (Some k)"
    and sa: "semctl_setall st c d k (ua_vals_ok arg) (ua_vals arg) = Ret (Inr 0, out, st')"
    using r by (auto simp: semctl_def SETALL_def GETALL_def GETVAL_def GETPID_def GETNCNT_def GETZCNT_def SETVAL_def
        ipc_consts split: option.splits)
  have f: "sem_find (shapes st) d = Some k" using lock sem_wfD(8) [OF wf] by simp
  note b = live_bounds [OF wf f] and wf' = semctl_setall_wf [OF wf f sa]
  let ?sp = "sema st ! k" and ?m = "unat (sem_nsems (sema st ! k))"
  have st': "st' = st\<lparr>sem_undos := semunrm (sem_undos st) d 0 (sem_nsems ?sp),
      sem_tab := sem_loop_t (\<lambda>i. sem_setval (ua_vals arg i) (ctx_pid c)) (sem_base ?sp) 0 ?m (sem_tab st)\<rparr>"
    using sa b(1) sem_loop_in [of "sem_base ?sp" 0 ?m "sem_tab st"] b(2) by (auto simp: semctl_setall_def Let_def split: option.splits if_splits)
  have k: "k = sem_index d" by (rule b(5))
  have "sema st' = sema st" "sem_info st' = sem_info st" by (simp_all add: st')
  then have lock': "semconv_lock st' d = Ret (Some k)" using lock by (simp only: semconv_lock_def)
  have get: "semctl st' c' d n' GETALL arg' = Ret (Inr 0, Out_vals (map (ua_vals arg) [0..<?m]), st')"
  proof -
    have "semctl st' c' d n' GETALL arg' = semctl_getall st' c' k (ua_out arg')"
      using lock' by (simp add: semctl_def GETALL_def GETVAL_def GETPID_def GETNCNT_def ipc_consts)
    moreover have "map semval (take ?m (drop (sem_base ?sp) (sem_tab st'))) = map (ua_vals arg) [0..<?m]"
      unfolding st' using getall_vals [OF b(2)] by simp
    moreover have "sema st' = sema st" "length (sem_tab st') = length (sem_tab st)" by (simp_all add: st')
    ultimately show ?thesis using acc k b(1,2) wr by (simp add: semctl_getall_def sem_copyout_in)
  qed
  have undo: "un_id e \<noteq> d" if t: "t < length (sem_undo (sem_undos st'))" "e \<in> set (ents (sem_undos st') t)" for t e
  proof
    assume e: "un_id e = d"
    note un = semunrm_effect [OF sem_wfD(2) [OF wf], where sid = d and low = 0 and high = "sem_nsems ?sp"]
    have u: "sem_undos st' = semunrm (sem_undos st) d 0 (sem_nsems ?sp)" by (simp add: st')
    have "ref_ok True (shapes st') (un_id e) (un_num e)"
      using sem_wfD(4) [OF wf'] t by (auto simp: undo_refs_def ekeys_def)
    then have "unat (un_num e) < ?m" using e lock' sem_wfD(8) [OF wf'] b(3) st'
      by (auto simp: ref_ok_def sem_shape_def)
    moreover have "t < length (sem_undo (sem_undos st))" using t(1) u un(2) by simp
    ultimately show False using t(2) u un(3) e by (auto simp: word_le_nat_alt)
  qed
  have cnt: "semncnt (sem_tab st' ! (sem_base ?sp + i)) = 0" if i: "i < ?m" "ua_vals arg i \<noteq> 0" for i
  proof -
    have "sem_base ?sp + i < length (sem_tab st)" using b(2) i(1) by linarith
    then have "sem_tab st' ! (sem_base ?sp + i) = sem_setval (ua_vals arg i) (ctx_pid c) (sem_tab st ! (sem_base ?sp + i))"
      using i(1) by (simp add: st' sem_loop_nth)
    then show ?thesis using i(2) by (simp add: sem_setval_def Let_def)
  qed
  show ?thesis using get undo cnt k by (simp add: Let_def)
qed

definition ex_arg :: sem_uarg where
  "ex_arg = \<lparr>ua_val = 0, ua_ds = None, ua_ods = None, ua_vals_ok = True, ua_vals = (\<lambda>i. of_nat i + 4), ua_out = (\<lambda>_. True)\<rparr>"

lemma setall_getall_witness:
  "sem_wf ex_sem \<and> (\<exists>out st'. semctl ex_sem ex_ctx ex_id 0 SETALL ex_arg = Ret (Inr 0, out, st') \<and>
     semctl st' ex_ctx ex_id 0 GETALL ex_arg = Ret (Inr 0, Out_vals [4, 5], st'))"
proof -
  have can: "0 \<le> sint ex_id" by (simp add: ex_id_def)
  have i0: "sem_index ex_id = 0" by (simp add: sem_index_def SEMA_INDEX_MASK_def ex_id_def)
  have a: "ipcaccess (sem_perm (sema ex_sem ! 0)) SEM_A (ctx_cred ex_ctx) = None"
    "ipcaccess (sem_perm (sema ex_sem ! sem_index ex_id)) SEM_R (ctx_cred ex_ctx) = None"
    by (simp_all add: i0 ipcaccess_def ex_sem_def ex_set_def ex_ctx_def SEM_A_def SEM_R_def)
  have two: "unat (sem_nsems (sema ex_sem ! 0)) = 2" by (simp add: ex_sem_def ex_set_def)
  have bd: "\<not> (\<exists>i\<in>{0..<2}. (ucast (ua_vals ex_arg i) :: ulong) > si_semvmx (sem_info ex_sem))"
  proof -
    have "{0..<2 :: nat} = {0, 1}" by auto
    then show ?thesis by (simp add: ex_arg_def ex_sem_def ex_info_def word_less_def)
  qed
  obtain st' where sa: "semctl_setall ex_sem ex_ctx ex_id 0 (ua_vals_ok ex_arg) (ua_vals ex_arg) = Ret (Inr 0, Out_none, st')"
    using a(1) bd two live_bounds(1,2) [OF ex_sem_wf ex_find] sem_loop_in [of "sem_base (sema ex_sem ! 0)" 0 2 "sem_tab ex_sem"]
    unfolding semctl_setall_def Let_def by (simp add: ex_arg_def)
  have "semconv_lock ex_sem ex_id = Ret (Some 0)" using ex_find sem_wfD(8) [OF ex_sem_wf] by simp
  then have s: "semctl ex_sem ex_ctx ex_id 0 SETALL ex_arg = Ret (Inr 0, Out_none, st')"
    using sa by (simp add: semctl_def SETALL_def GETALL_def GETVAL_def GETPID_def GETNCNT_def GETZCNT_def SETVAL_def ipc_consts)
  have wr: "ua_out ex_arg i" for i by (simp add: ex_arg_def)
  have vals: "map (ua_vals ex_arg) [0..<2] = [4, 5]" by (simp add: ex_arg_def upt_rec)
  show ?thesis
    using ex_sem_wf s setall_getall [OF ex_sem_wf can s a(2) wr] two vals i0 by (simp add: Let_def)
qed

section \<open>Adjustments on exit\<close>

text \<open>
  C11 (semaoe_adjusts). With a limit below a third of \<open>2^16\<close>, recording an adjustment behaves as
  arithmetic on integers: it succeeds or fails exactly as listed, with \<open>ERANGE\<close> for an operation
  or a resulting adjustment beyond the limit, \<open>ENOSPC\<close> when the process has no undo structure and
  none is free, and \<open>EINVAL\<close> when its structure is full; on success it subtracts the operation
  from the adjustment of that semaphore, and nothing else changes for anybody.
\<close>

theorem semaoe_adjusts:
  assumes wf: "undo_wf si u" "slot < length (sem_undo u)" "aem_exact si" and r: "semaoe si u slot val sid num = (r, u')"
  shows "undo_wf si u' \<and>
    r = (if val = 0 then None
         else if \<bar>sint val\<bar> > sint (si_semaem si) then Some ERANGE
         else if sem_undo u ! slot = None \<and> semfup u = [] then Some ENOSPC
         else if ents_adj (ents u slot) sid num = 0 \<and> int (length (ents u slot)) \<ge> sint (si_semume si) then Some EINVAL
         else if \<bar>ents_adj (ents u slot) sid num - sint val\<bar> > sint (si_semaem si) then Some ERANGE
         else None) \<and>
    (\<forall>t<length (sem_undo u). \<forall>d n. ents_adj (ents u' t) d n =
       ents_adj (ents u t) d n - (if r = None \<and> t = slot \<and> d = sid \<and> n = num then sint val else 0))"
proof -
  have ok: "aem_ok si" using wf(3) by (rule aem_exact_ok)
  note e = semaoe_effect [OF wf(1,2) ok r]
  have other: "ents_adj (ents u' t) d n = ents_adj (ents u t) d n" if "t < length (sem_undo u)" "t \<noteq> slot" for t d n
    using e(3) that by simp
  have eo: "ents_ok si (ents u slot)"
    using undo_wfD(5) [OF wf(1)] held_at [OF wf(2)] by (auto simp: ents_def ents_ok_def split: option.split)
  show ?thesis
  proof (cases "val = 0 \<or> aoe_out si val \<or> (sem_undo u ! slot = None \<and> semfup u = [])")
    case True
    then show ?thesis using e(1,5) by (auto simp: aoe_out_abs)
  next
    case False
    then have out: "\<not> aoe_out si val" "val \<noteq> 0" and up: "aoe_update si (ents u slot) val sid num = (r, ents u' slot)"
      using e(5) by auto
    note a = aoe_update_adj [OF eo wf(3) out up]
    have mine: "ents_adj (ents u' slot) d n = ents_adj (ents u slot) d n - (if r = None \<and> d = sid \<and> n = num then sint val else 0)" for d n
      by (rule a(1))
    have "\<forall>t<length (sem_undo u). \<forall>d n. ents_adj (ents u' t) d n =
       ents_adj (ents u t) d n - (if r = None \<and> t = slot \<and> d = sid \<and> n = num then sint val else 0)"
    proof (intro allI impI)
      fix t d n assume "t < length (sem_undo u)"
      then show "ents_adj (ents u' t) d n = ents_adj (ents u t) d n -
          (if r = None \<and> t = slot \<and> d = sid \<and> n = num then sint val else 0)"
        using mine [of d n] other [of t d n] by (cases "t = slot") simp_all
    qed
    moreover have "r = (if val = 0 then None
         else if \<bar>sint val\<bar> > sint (si_semaem si) then Some ERANGE
         else if sem_undo u ! slot = None \<and> semfup u = [] then Some ENOSPC
         else if ents_adj (ents u slot) sid num = 0 \<and> int (length (ents u slot)) \<ge> sint (si_semume si) then Some EINVAL
         else if \<bar>ents_adj (ents u slot) sid num - sint val\<bar> > sint (si_semaem si) then Some ERANGE
         else None)"
      using False a(2) by (simp add: aoe_out_abs)
    ultimately show ?thesis using e(1) by blast
  qed
qed

theorem semaoe_adjusts_witness:
  "undo_wf ex_info (sem_undos ex_sem) \<and> aem_exact ex_info \<and>
   (\<exists>u'. semaoe ex_info (sem_undos ex_sem) 1 (- 3) ex_id 0 = (None, u') \<and> ents_adj (ents u' 1) ex_id 0 = 4)"
proof -
  have i: "sem_info ex_sem = ex_info" by (simp add: ex_sem_def)
  have h: "undo_wf ex_info (sem_undos ex_sem)" "1 < length (sem_undo (sem_undos ex_sem))" "aem_exact ex_info"
    using sem_wfD(2) [OF ex_sem_wf] by (simp_all add: i aem_exact_def ex_info_def) (simp add: ex_sem_def)
  obtain r u' where r: "semaoe ex_info (sem_undos ex_sem) 1 (- 3) ex_id 0 = (r, u')" by fastforce
  have adj: "ents_adj (ents (sem_undos ex_sem) 1) ex_id 0 = 1" by (simp add: ents_adj_def ents_def ex_sem_def)
  have "r = None" using semaoe_adjusts [OF h r] adj by (simp add: ex_info_def ex_sem_def)
  then show ?thesis using h r semaoe_adjusts [OF h r] adj by simp
qed

lemma undo_empty_release:
  assumes wf: "undo_wf si u" and s: "slot < length (sem_undo u)" "sem_undo u ! slot = Some up" and e: "semu u ! up = []"
  shows "u\<lparr>semfup := up # semfup u, sem_undo := (sem_undo u)[slot := None]\<rparr> =
    u\<lparr>semu := (semu u)[up := []], semunp := remove1 up (semunp u), semfup := up # semfup u,
      sem_undo := (sem_undo u)[slot := None]\<rparr>"
proof -
  have "(semu u)[up := []] = semu u" using e by (metis list_update_id)
  moreover have "remove1 up (semunp u) = semunp u" using undo_wfD(9) [OF wf, of up] e by (simp add: remove1_idem)
  ultimately show ?thesis by simp
qed

text \<open>
  C12 (semexit_applies). When a process exits, its recorded adjustments are applied from the last
  entry to the first, each one only if the resulting value is neither negative nor beyond the
  limit; its undo structure, when it has one, is emptied, taken off the chain of those in use and put
  at the head of the chain of free ones; the structures and entries of all the other processes are
  unchanged, and the invariant holds. The call cannot fail.
\<close>

theorem semexit_applies:
  assumes wf: "sem_wf st" and slot: "ctx_slot c < length (sem_undo (sem_undos st))"
  shows "\<exists>st'. semexit st c = Ret st' \<and> sem_wf st' \<and> 
    sem_undo (sem_undos st') = (sem_undo (sem_undos st))[ctx_slot c := None] \<and>
    (case sem_undo (sem_undos st) ! ctx_slot c of
       None \<Rightarrow> sem_undos st' = sem_undos st
     | Some up \<Rightarrow> semfup (sem_undos st') = up # semfup (sem_undos st) \<and> semunp (sem_undos st') = filter ((\<noteq>) up) (semunp (sem_undos st)) \<and>
         semu (sem_undos st') = (semu (sem_undos st))[up := []]) \<and>
    (\<forall>t<length (sem_undo (sem_undos st)). t \<noteq> ctx_slot c \<longrightarrow> ents (sem_undos st') t = ents (sem_undos st) t) \<and>
    (\<forall>j<length (sem_tab st). uint (semval (sem_tab st' ! j)) =
       exit_values st (rev (ents (sem_undos st) (ctx_slot c))) j (uint (semval (sem_tab st ! j))))"
proof (cases "sem_undo (sem_undos st) ! ctx_slot c")
  case None
  then have "(sem_undo (sem_undos st))[ctx_slot c := None] = sem_undo (sem_undos st)" using list_update_id by metis
  then show ?thesis using wf None by (simp add: semexit_def ents_def)
next
  case (Some up)
  let ?s = "ctx_slot c" and ?u = "sem_undos st"
  have e: "ents ?u ?s = semu ?u ! up" using Some by (simp add: ents_def)
  have refs: "\<forall>e\<in>set (rev (semu ?u ! up)). ref_ok True (shapes st) (un_id e) (un_num e)"
    using sem_wfD(4) [OF wf] slot e by (auto simp: undo_refs_def ekeys_def)
  obtain st1 where s1: "semexit_loop st (rev (semu ?u ! up)) = Ret st1" "sem_wf st1" "sem_info st1 = sem_info st"
    "sema st1 = sema st" "semmap st1 = semmap st" "sem_undos st1 = ?u" "length (sem_tab st1) = length (sem_tab st)"
    "\<forall>j<length (sem_tab st). uint (semval (sem_tab st1 ! j)) =
       exit_values st (rev (semu ?u ! up)) j (uint (semval (sem_tab st ! j)))"
    using semexit_loop_spec [OF wf refs] by blast
  define u' where "u' = ?u\<lparr>semu := (semu ?u)[up := []], semunp := remove1 up (semunp ?u), semfup := up # semfup ?u,
      sem_undo := (sem_undo ?u)[?s := None]\<rparr>"
  note rel = undo_release_wf [OF sem_wfD(2) [OF wf] slot Some, folded u'_def]
  have r: "semexit st c = Ret (st1\<lparr>sem_undos := u'\<rparr>)"
  proof (cases "semu ?u ! up = []")
    case True
    then have "st1 = st" using s1(1) by simp
    then show ?thesis using Some True undo_empty_release [OF sem_wfD(2) [OF wf] slot Some True]
      by (simp add: semexit_def u'_def)
  next
    case False
    then show ?thesis using Some s1(1,6) by (simp add: semexit_def u'_def)
  qed
  have len: "length (sem_undo u') = length (sem_undo ?u)" by (simp add: u'_def)
  have "sem_wf (st1\<lparr>sem_undos := u'\<rparr>)"
  proof (rule sem_wf_values [OF s1(2)])
    show "undo_wf (sem_info st1) (sem_undos (st1\<lparr>sem_undos := u'\<rparr>))" using rel(1) s1(3) by simp
    have "ekeys u' t \<subseteq> ekeys (sem_undos st1) t" if "t < length (sem_undo ?u)" for t
      using rel(2) [OF that] s1(6) by (auto simp: ekeys_def)
    then show "undo_refs True (shapes st1) (sem_undos (st1\<lparr>sem_undos := u'\<rparr>))"
      using len s1(6) by (intro undo_refs_ents [OF sem_wfD(4) [OF s1(2)]]) auto
  qed auto
  moreover have "remove1 up (semunp ?u) = filter ((\<noteq>) up) (semunp ?u)"
    using undo_wfD(7) [OF sem_wfD(2) [OF wf]] by (simp add: distinct_remove1_removeAll removeAll_filter_not_eq)
  then have "sem_undo u' = (sem_undo ?u)[?s := None]" "semfup u' = up # semfup ?u" "semunp u' = filter ((\<noteq>) up) (semunp ?u)" "semu u' = (semu ?u)[up := []]"
    by (simp_all add: u'_def)
  ultimately show ?thesis using r rel(2) s1(8) e Some by (intro exI [of _ "st1\<lparr>sem_undos := u'\<rparr>"]) simp
qed

definition ex_ctx1 :: ctx where "ex_ctx1 = ex_ctx\<lparr>ctx_slot := 1\<rparr>"

theorem semexit_applies_witness:
  "sem_wf ex_sem \<and> (\<exists>st'. semexit ex_sem ex_ctx1 = Ret st' \<and> uint (semval (sem_tab st' ! 0)) = 2 \<and>
     sem_undo (sem_undos st') = [None, None] \<and> semfup (sem_undos st') = [0, 1, 2] \<and> semunp (sem_undos st') = [])"
proof -
  have slot: "ctx_slot ex_ctx1 < length (sem_undo (sem_undos ex_sem))" by (simp add: ex_ctx1_def ex_sem_def)
  have "exit_values ex_sem (rev (ents (sem_undos ex_sem) (ctx_slot ex_ctx1))) 0 (uint (semval (sem_tab ex_sem ! 0))) = 2"
    by (simp add: ents_def ex_ctx1_def exit_value_def ent_pos_def ex_eval)
  moreover have "0 < length (sem_tab ex_sem)" "ctx_slot ex_ctx1 = 1" "sem_undo (sem_undos ex_sem) = [None, Some 0]" "semfup (sem_undos ex_sem) = [1, 2]"
    "semunp (sem_undos ex_sem) = [0]" by (simp_all add: ex_sem_def ex_ctx1_def)
  ultimately show ?thesis using ex_sem_wf semexit_applies [OF ex_sem_wf slot] by auto
qed

section \<open>Initialisation\<close>

text \<open>
  With parameters in a usable range, and memory enough, the module
  starts in a state that satisfies the invariant: no set exists, the whole pool is free, no undo
  structure is in use, and as many as configured are free.
\<close>

lemma sem_init_invariant:
  assumes "2 \<le> sint (si_semmap tun)" "sint (si_semmap tun) < 2 ^ 28" "0 < sint (si_semmns tun)" "sint (si_semmns tun) < 2147483647"
    "0 \<le> sint (si_semmni tun)" "sint (si_semmsl tun) \<le> 65535"
    "0 \<le> sint (si_semvmx tun)" "sint (si_semvmx tun) \<le> 65535" "0 \<le> sint (si_semaem tun)" "sint (si_semaem tun) \<le> 32767" "si_semmnu tun \<noteq> 0"
  shows "\<exists>st. sem_init tun v_proc True True None = Ret (Inr st) \<and> sem_wf st \<and> live_sets (shapes st) = {} \<and>
    length (sem_tab st) = unat (si_semmns tun) \<and> semfup (sem_undos st) = [0..<unat (si_semmnu tun)]"
proof -
  let ?si = "sem_tune tun"
  have si: "si_semmap ?si = si_semmap tun" "si_semmns ?si = si_semmns tun" "si_semmsl ?si = si_semmsl tun"
    "si_semvmx ?si = si_semvmx tun" "si_semaem ?si = si_semaem tun" "si_semmnu ?si = si_semmnu tun"
    by (simp_all add: sem_tune_def)
  have mni: "0 \<le> sint (si_semmni ?si)" "sint (si_semmni ?si) \<le> 65535"
    using assms(5) by (auto simp: sem_tune_def SEMA_INDEX_MAX_def)
  have nn: "int (unat w) = sint w" if "0 \<le> sint w" for w :: int32 using uint_of_sint_nonneg [OF that] by simp
  have small: "sint (si_semmap tun) < 268435456" using assms(2) by simp
  have um': "0 < unat (si_semmap tun)" "unat (si_semmap tun) < 268435456" "2 \<le> unat (si_semmap tun)"
    using nn [of "si_semmap tun"] assms(1) small by linarith+
  then have um: "0 < unat (si_semmap tun)" "unat (si_semmap tun) < 2 ^ 28" "2 \<le> unat (si_semmap tun)" by simp_all
  have un: "0 < unat (si_semmns tun)" "unat (si_semmns tun) < 2147483647"
    using nn [of "si_semmns tun"] assms(3,4) by linarith+
  obtain mp0 where m0: "rmallocmap True (si_semmap tun) = Ret (Some mp0)" "map_wf mp0" "free_set mp0 = {}"
    "m_nsegs mp0 = si_semmap tun" using rmallocmap_map [OF um(1,2)] by blast
  have slots: "2 \<le> unat (m_nsegs mp0)" using m0(4) um(3) by simp
  have sum: "unat (1 :: ulong) + unat (si_semmns tun) < 2 ^ 32" using un by simp
  have dis: "blk 1 (si_semmns tun) \<inter> free_set mp0 = {}" using m0(3) by simp
  obtain mp w where m: "rmfree mp0 (si_semmns tun) 1 = Ret (mp, w)"
    using rm.release_total [OF m0(2) slots _ assms(3) sum dis] by auto
  have mwf: "map_wf mp" "unat (m_nsegs mp) = unat (m_nsegs mp0)"
    using rm.release_wf [OF m0(2) slots _ assms(3) sum dis m] by auto
  have fr: "free_set mp \<subseteq> {1..unat (si_semmns tun)}"
    using rm.release_free [OF m0(2) slots _ assms(3) sum dis m] m0(3) by (auto simp: blk_def)
  define st where "st = \<lparr>sem_info = ?si, sem_tab = replicate (unat (si_semmns tun)) zero_sem,
     sema = replicate (unat (si_semmni ?si)) zero_semid, semmap = mp,
     sem_undos = \<lparr>sem_undo = replicate v_proc None, semunp = [],
       semfup = [0..<unat (si_semmnu tun)], semu = replicate (unat (si_semmnu tun)) []\<rparr>, sem_acflag = 0\<rparr>"
  have r: "sem_init tun v_proc True True None = Ret (Inr st)"
    using m0(1) m assms(11) by (simp add: sem_init_def Let_def si st_def)
  have sh: "shapes st = replicate (unat (si_semmni ?si)) \<lparr>sh_used = False, sh_seq = 0, sh_base = 0, sh_nsems = 0\<rparr>"
    by (simp add: st_def sem_shape_def zero_semid_def zero_perm_def ipc_used_def)
  have live: "live_sets (shapes st) = {}" by (auto simp: sh)
  have len: "unat (si_semmni ?si) = nat (sint (si_semmni ?si))" using nn [OF mni(1)] by linarith
  have "sem_layout (sem_info st) (shapes st) (semmap st) (length (sem_tab st))"
    unfolding sem_layout_def live sh
    using mni assms(6) un mwf slots fr si len by (auto simp: st_def owned_def)
  moreover have "undo_wf (sem_info st) (sem_undos st)"
    by (auto simp: undo_wf_def st_def held_def)
  moreover have "aem_ok (sem_info st)" using assms(9,10) si by (simp add: aem_ok_def st_def)
  moreover have "undo_refs True (shapes st) (sem_undos st)" by (simp add: undo_refs_def ekeys_def ents_def st_def)
  moreover have "vmx_ok st" using assms(7,8) si by (auto simp: vmx_ok_def st_def zero_sem_def)
  moreover have "semval (sem_tab st ! j) = 0" if "j < length (sem_tab st)" for j
    using that by (simp add: st_def) (simp add: zero_sem_def)
  ultimately have "sem_wf st" unfolding sem_wfs_def by blast
  then show ?thesis using r live by (intro exI [of _ st]) (simp add: st_def)
qed

lemma sem_init_invariant_witness:
  "\<exists>st. sem_init ex_info 30 True True None = Ret (Inr st) \<and> sem_wf st \<and> length (sem_tab st) = 8"
  using sem_init_invariant [of ex_info 30] by (auto simp: ex_info_def)

end
