(* ===== verification/Msg.thy ===== *)
theory Msg
  imports Ipc Rmap Condvar "HOL-Library.Signed_Division"
begin

text \<open>
  The System V message facility, \<open>os/msg.c\<close> and \<open>sys/msg.h\<close>: the state of the module and the
  system calls \<open>msgget\<close>, \<open>msgctl\<close>, \<open>msgrcv\<close> and \<open>msgsnd\<close>. Pointers to queues and to message
  headers are positions in the tables \<open>msgque\<close> and \<open>msgh\<close>; the headers are linked through
  \<open>msg_next\<close> as in the source, into one list per queue and the list of free headers. A condition
  variable is the queue of the threads asleep on it. The mutex \<open>msg_lock\<close> is held from the entry
  of a call to its return or sleep, so the part of a call between two sleeps is one function from
  state to state, and a sleep is an outcome that a further function resumes.
\<close>

section \<open>Data\<close>

record msginfo =
  mi_msgmap :: int32
  mi_msgmax :: int32
  mi_msgmnb :: int32
  mi_msgmni :: int32
  mi_msgssz :: int32
  mi_msgtql :: int32
  mi_msgseg :: ushort

record msg =
  msg_next :: "nat option"
  msg_type :: int32
  msg_ts :: ushort
  msg_spot :: short

record msqid_ds =
  msg_perm :: ipc_perm
  msg_first :: "nat option"
  msg_last :: "nat option"
  msg_cbytes :: ulong
  msg_qnum :: ulong
  msg_qbytes :: ulong
  msg_lspid :: int32
  msg_lrpid :: int32
  msg_stime :: int32
  msg_pad1 :: int32
  msg_rtime :: int32
  msg_pad2 :: int32
  msg_ctime :: int32
  msg_pad3 :: int32
  msg_cv :: "nat list"
  msg_qnum_cv :: "nat list"
  msg_pad4 :: "int32 list"

record o_msqid_ds =
  o_msg_perm :: o_ipc_perm
  o_msg_first :: "nat option"
  o_msg_last :: "nat option"
  o_msg_cbytes :: ushort
  o_msg_qnum :: ushort
  o_msg_qbytes :: ushort
  o_msg_lspid :: short
  o_msg_lrpid :: short
  o_msg_stime :: int32
  o_msg_rtime :: int32
  o_msg_ctime :: int32

record msglock =
  msglock_lock :: byte
  msglock_cv :: "nat list"

text \<open>
  The globals of the module: \<open>msg_pool\<close> is the message buffer \<open>msg\<close>, \<open>msgmap_cv\<close> the condition
  variable inside the map, \<open>msg_acflag\<close> the accounting flag of the running process.
\<close>

record msg_state =
  msg_info :: msginfo
  msg_pool :: "byte list"
  msgmap :: map_head
  msgmap_cv :: "nat list"
  msgh :: "msg list"
  msgque :: "msqid_ds list"
  msglocks :: "msglock list"
  msgfp :: "nat option"
  msgfp_cv :: "nat list"
  msg_acflag :: byte

definition MSG_R :: int32 where "MSG_R = 0x100"
definition MSG_W :: int32 where "MSG_W = 0x80"
definition MSG_RWAIT :: ulong where "MSG_RWAIT = 0x200"
definition MSG_WWAIT :: ulong where "MSG_WWAIT = 0x400"
definition MSG_NOERROR :: int32 where "MSG_NOERROR = 0x1000"
definition MSGGET :: int32 where "MSGGET = 0"
definition MSGCTL :: int32 where "MSGCTL = 1"
definition MSGRCV :: int32 where "MSGRCV = 2"
definition MSGSND :: int32 where "MSGSND = 3"

definition upd_q :: "msg_state \<Rightarrow> nat \<Rightarrow> (msqid_ds \<Rightarrow> msqid_ds) \<Rightarrow> msg_state" where
  "upd_q st k f = st\<lparr>msgque := (msgque st)[k := f (msgque st ! k)]\<rparr>"

definition upd_h :: "msg_state \<Rightarrow> nat \<Rightarrow> (msg \<Rightarrow> msg) \<Rightarrow> msg_state" where
  "upd_h st i f = st\<lparr>msgh := (msgh st)[i := f (msgh st ! i)]\<rparr>"

definition upd_l :: "msg_state \<Rightarrow> nat \<Rightarrow> (msglock \<Rightarrow> msglock) \<Rightarrow> msg_state" where
  "upd_l st k f = st\<lparr>msglocks := (msglocks st)[k := f (msglocks st ! k)]\<rparr>"

text \<open>Giving up the lock of a queue wakes those who wait for it.\<close>

definition msg_unlock :: "msg_state \<Rightarrow> nat \<Rightarrow> msg_state" where
  "msg_unlock st k = upd_l st k (\<lambda>l. l\<lparr>msglock_lock := 0, msglock_cv := []\<rparr>)"

definition set_mode :: "(ulong \<Rightarrow> ulong) \<Rightarrow> msqid_ds \<Rightarrow> msqid_ds" where
  "set_mode f q = q\<lparr>msg_perm := (msg_perm q)\<lparr>perm_mode := f (perm_mode (msg_perm q))\<rparr>\<rparr>"

abbreviation q_mode :: "msqid_ds \<Rightarrow> ulong" where
  "q_mode q \<equiv> perm_mode (msg_perm q)"

section \<open>Outcomes\<close>

text \<open>
  What a call leaves in the memory of the process, what it sleeps for (a queue's lock, a message,
  space on a queue, a free header, space in the message buffer), and how it ends.
\<close>

datatype msg_out = MOut_none | MOut_ds msqid_ds | MOut_ods o_msqid_ds | MOut_msg int32 "byte list"

datatype msg_wait = W_lock nat | W_rcv nat | W_snd_q nat | W_snd_h nat | W_snd_m nat

datatype msg_res = Msg_done "errno + int32" msg_out | Msg_sleep msg_wait

type_synonym msg_ret = "(msg_res \<times> msg_state) kres"

abbreviation msg_fail :: "errno \<Rightarrow> msg_state \<Rightarrow> msg_ret" where
  "msg_fail e st \<equiv> Ret (Msg_done (Inl e) MOut_none, st)"

text \<open>
  What the process has at the pointer argument: the structures read by \<open>IPC_SET\<close>, the type and the
  text of a message to send, none or not readable when the copy fails, and whether the copies out
  succeed.
\<close>

record msg_uarg =
  um_ds :: "msqid_ds option"
  um_ods :: "o_msqid_ds option"
  um_type :: "int32 option"
  um_text_ok :: bool
  um_text :: "nat \<Rightarrow> byte"
  um_out :: bool
  um_out_text :: bool

section \<open>Segments of the message buffer\<close>

text \<open>Bytes to segments, rounding up; a segment size of zero is a division by zero.\<close>

definition btoq :: "msginfo \<Rightarrow> int32 \<Rightarrow> ulong kres" where
  "btoq mi x =
    (if mi_msgssz mi = 0 then Fault
     else Ret (word_of_int (sint (x + mi_msgssz mi - 1) sdiv sint (mi_msgssz mi))))"

text \<open>The bytes of the buffer from a segment on, if they lie inside it.\<close>

definition pool_get :: "msg_state \<Rightarrow> int \<Rightarrow> nat \<Rightarrow> byte list kres" where
  "pool_get st spot n =
    (let off = sint (mi_msgssz (msg_info st)) * spot in
     if off < 0 \<or> nat off + n > length (msg_pool st) then Fault
     else Ret (take n (drop (nat off) (msg_pool st))))"

definition pool_put :: "msg_state \<Rightarrow> int \<Rightarrow> byte list \<Rightarrow> msg_state kres" where
  "pool_put st spot bs =
    (let off = sint (mi_msgssz (msg_info st)) * spot in
     if off < 0 \<or> nat off + length bs > length (msg_pool st) then Fault
     else Ret (st\<lparr>msg_pool := take (nat off) (msg_pool st) @ bs @ drop (nat off + length bs) (msg_pool st)\<rparr>))"

section \<open>msgfree\<close>

text \<open>A header goes back to the head of the free list; those who wait for one are woken if there
  was none.\<close>

definition free_header :: "msg_state \<Rightarrow> nat \<Rightarrow> msg_state" where
  "free_header st mp =
    (upd_h st mp (\<lambda>m. m\<lparr>msg_next := msgfp st\<rparr>))
      \<lparr>msgfp_cv := (if msgfp st = None then [] else msgfp_cv st), msgfp := Some mp\<rparr>"

definition free_text :: "msg_state \<Rightarrow> int32 \<Rightarrow> ulong \<Rightarrow> msg_state kres" where
  "free_text st ts addr =
    kbind (btoq (msg_info st) ts) (\<lambda>n.
      kbind (rmfree (msgmap st) n addr) (\<lambda>(rmp, wake).
        Ret (st\<lparr>msgmap := rmp, msgmap_cv := (if wake then [] else msgmap_cv st)\<rparr>)))"

definition wake_writers :: "msqid_ds \<Rightarrow> msqid_ds" where
  "wake_writers q =
    (if q_mode q AND MSG_WWAIT \<noteq> 0 then (set_mode (\<lambda>m. m AND NOT MSG_WWAIT) q)\<lparr>msg_cv := []\<rparr> else q)"

definition msgfree :: "msg_state \<Rightarrow> nat \<Rightarrow> nat option \<Rightarrow> nat \<Rightarrow> msg_state kres" where
  "msgfree st k pmp mp =
    (if mp \<ge> length (msgh st) \<or> (\<exists>p\<in>set_option pmp. p \<ge> length (msgh st)) then Fault
     else
       let m = msgh st ! mp;
           st1 = (case pmp of
                    None \<Rightarrow> upd_q st k (\<lambda>q. q\<lparr>msg_first := msg_next m\<rparr>)
                  | Some p \<Rightarrow> upd_h st p (\<lambda>pm. pm\<lparr>msg_next := msg_next m\<rparr>));
           st2 = (if msg_next m = None then upd_q st1 k (\<lambda>q. q\<lparr>msg_last := pmp\<rparr>) else st1);
           st3 = upd_q st2 k (\<lambda>q. wake_writers (q\<lparr>msg_qnum := msg_qnum q - 1\<rparr>))
       in kbind (if msg_ts m \<noteq> 0 then free_text st3 (ucast (msg_ts m)) (scast (msg_spot m) + 1) else Ret st3)
            (\<lambda>st4. Ret (free_header st4 mp)))"

section \<open>msgconv\<close>

text \<open>
  The queue that an identifier names, locked on return. The loop that waits for the lock runs once
  in the model: when the lock is taken the thread goes to sleep for it.
\<close>

datatype conv = Conv_err errno | Conv_wait nat | Conv_ok nat

definition msgconv :: "msg_state \<Rightarrow> ctx \<Rightarrow> int32 \<Rightarrow> (conv \<times> msg_state) kres" where
  "msgconv st c d =
    (if sint d < 0 then Ret (Conv_err EINVAL, st)
     else if mi_msgmni (msg_info st) = 0 then Fault
     else
       let k = nat (sint d smod sint (mi_msgmni (msg_info st))) in
       if k \<ge> length (msgque st) then Fault
       else if msglock_lock (msglocks st ! k) \<noteq> 0 then
         Ret (Conv_wait k, upd_l st k (\<lambda>l. l\<lparr>msglock_cv := sleepq_insert (ctx_prio c) (msglock_cv l) (ctx_tid c)\<rparr>))
       else
         let st1 = upd_l st k (\<lambda>l. l\<lparr>msglock_lock := 1\<rparr>); p = msg_perm (msgque st ! k) in
         if perm_mode p AND IPC_ALLOC = 0 \<or> word_of_int (sint d sdiv sint (mi_msgmni (msg_info st))) \<noteq> perm_seq p
         then Ret (Conv_err EINVAL, msg_unlock st1 k)
         else Ret (Conv_ok k, st1))"

section \<open>msgctl\<close>

text \<open>
  The loop that frees all messages of a queue. It is run with the number of headers as fuel, as
  each round takes one header off the queue; a longer chain can only be a cyclic one.
\<close>

fun msgfree_all :: "nat \<Rightarrow> msg_state \<Rightarrow> nat \<Rightarrow> msg_state kres" where
  "msgfree_all n st k =
    (case msg_first (msgque st ! k) of
       None \<Rightarrow> Ret st
     | Some mp \<Rightarrow> (case n of 0 \<Rightarrow> Fault | Suc n' \<Rightarrow> kbind (msgfree st k None mp) (\<lambda>st'. msgfree_all n' st' k)))"

declare msgfree_all.simps [simp del]

definition msgctl_rmid :: "msg_state \<Rightarrow> ctx \<Rightarrow> int32 \<Rightarrow> nat \<Rightarrow> msg_ret" where
  "msgctl_rmid st c msgid k =
    (case ipc_owner (msg_perm (msgque st ! k)) (ctx_cred c) (msg_acflag st) of
       (ok, ac) \<Rightarrow>
         if \<not> ok then msg_fail EPERM (st\<lparr>msg_acflag := ac\<rparr>)
         else kbind (msgfree_all (length (msgh st)) (st\<lparr>msg_acflag := ac\<rparr>) k) (\<lambda>st1.
           Ret (Msg_done (Inr 0) MOut_none, upd_q st1 k (\<lambda>q.
             let s = (if sint (msgid + mi_msgmni (msg_info st1)) < 0 then 0 else perm_seq (msg_perm q) + 1);
                 q1 = q\<lparr>msg_cbytes := 0, msg_perm := (msg_perm q)\<lparr>perm_seq := s\<rparr>\<rparr>;
                 q2 = (if q_mode q1 AND MSG_RWAIT \<noteq> 0 then q1\<lparr>msg_qnum_cv := []\<rparr> else q1);
                 q3 = (if q_mode q2 AND MSG_WWAIT \<noteq> 0 then q2\<lparr>msg_cv := []\<rparr> else q2)
             in set_mode (\<lambda>_. 0) q3))))"

text \<open>The super-user test is made, and recorded, only when the limit of the queue is raised.\<close>

definition msg_raise :: "msqid_ds \<Rightarrow> ulong \<Rightarrow> cred \<Rightarrow> byte \<Rightarrow> bool \<times> byte" where
  "msg_raise q qbytes cr ac = (if qbytes > msg_qbytes q then suser cr ac else (True, ac))"

definition msgctl_o_set :: "msg_state \<Rightarrow> ctx \<Rightarrow> nat \<Rightarrow> o_msqid_ds option \<Rightarrow> msg_ret" where
  "msgctl_o_set st c k arg =
    (let q = msgque st ! k; (ok, ac) = ipc_owner (msg_perm q) (ctx_cred c) (msg_acflag st); st0 = st\<lparr>msg_acflag := ac\<rparr>
     in if \<not> ok then msg_fail EPERM st0
        else (case arg of
          None \<Rightarrow> msg_fail EFAULT st0
        | Some ods \<Rightarrow>
            let (ok2, ac2) = msg_raise q (ucast (o_msg_qbytes ods)) (ctx_cred c) ac; st1 = st\<lparr>msg_acflag := ac2\<rparr>
            in if \<not> ok2 then msg_fail EPERM st1
               else if (ucast (o_perm_uid (o_msg_perm ods)) :: ulong) > MAXUID \<or>
                  (ucast (o_perm_gid (o_msg_perm ods)) :: ulong) > MAXUID
               then msg_fail EINVAL st1
               else Ret (Msg_done (Inr 0) MOut_none,
                 upd_q st1 k (\<lambda>q. q\<lparr>msg_perm := (msg_perm q)\<lparr>perm_uid := ucast (o_perm_uid (o_msg_perm ods)),
                     perm_gid := ucast (o_perm_gid (o_msg_perm ods)),
                     perm_mode := (q_mode q AND NOT ACCBITS) OR (ucast (o_perm_mode (o_msg_perm ods)) AND ACCBITS)\<rparr>,
                   msg_qbytes := ucast (o_msg_qbytes ods), msg_ctime := ctx_now c\<rparr>))))"

definition msgctl_set :: "msg_state \<Rightarrow> ctx \<Rightarrow> nat \<Rightarrow> msqid_ds option \<Rightarrow> msg_ret" where
  "msgctl_set st c k arg =
    (let q = msgque st ! k; (ok, ac) = ipc_owner (msg_perm q) (ctx_cred c) (msg_acflag st); st0 = st\<lparr>msg_acflag := ac\<rparr>
     in if \<not> ok then msg_fail EPERM st0
        else (case arg of
          None \<Rightarrow> msg_fail EFAULT st0
        | Some ds \<Rightarrow>
            let (ok2, ac2) = msg_raise q (msg_qbytes ds) (ctx_cred c) ac; st1 = st\<lparr>msg_acflag := ac2\<rparr>
            in if \<not> ok2 then msg_fail EPERM st1
               else if sint (perm_uid (msg_perm ds)) < 0 \<or> sint (perm_uid (msg_perm ds)) > sint MAXUID \<or>
                  sint (perm_gid (msg_perm ds)) < 0 \<or> sint (perm_gid (msg_perm ds)) > sint MAXUID
               then msg_fail EINVAL st1
               else Ret (Msg_done (Inr 0) MOut_none,
                 upd_q st1 k (\<lambda>q. q\<lparr>msg_perm := (msg_perm q)\<lparr>perm_uid := perm_uid (msg_perm ds),
                     perm_gid := perm_gid (msg_perm ds),
                     perm_mode := (q_mode q AND NOT ACCBITS) OR (q_mode ds AND ACCBITS)\<rparr>,
                   msg_qbytes := msg_qbytes ds, msg_ctime := ctx_now c\<rparr>))))"

definition msgctl_o_stat :: "msg_state \<Rightarrow> ctx \<Rightarrow> nat \<Rightarrow> bool \<Rightarrow> msg_ret" where
  "msgctl_o_stat st c k wr =
    (let q = msgque st ! k; p = msg_perm q in
     case ipcaccess p MSG_R (ctx_cred c) of
       Some e \<Rightarrow> msg_fail e st
     | None \<Rightarrow>
         if perm_uid p > USHRT_MAX \<or> perm_gid p > USHRT_MAX \<or> perm_cuid p > USHRT_MAX \<or>
            perm_cgid p > USHRT_MAX \<or> perm_seq p > USHRT_MAX \<or> msg_cbytes q > USHRT_MAX \<or>
            msg_qnum q > USHRT_MAX \<or> msg_qbytes q > USHRT_MAX \<or> msg_lspid q > SHRT_MAX \<or>
            msg_lrpid q > SHRT_MAX
         then msg_fail EOVERFLOW st
         else
           (let ods = \<lparr>o_msg_perm = \<lparr>o_perm_uid = ucast (perm_uid p), o_perm_gid = ucast (perm_gid p),
                        o_perm_cuid = ucast (perm_cuid p), o_perm_cgid = ucast (perm_cgid p),
                        o_perm_mode = ucast (perm_mode p), o_perm_seq = ucast (perm_seq p),
                        o_perm_key = perm_key p\<rparr>,
                      o_msg_first = None, o_msg_last = None, o_msg_cbytes = ucast (msg_cbytes q),
                      o_msg_qnum = ucast (msg_qnum q), o_msg_qbytes = ucast (msg_qbytes q),
                      o_msg_lspid = ucast (msg_lspid q), o_msg_lrpid = ucast (msg_lrpid q),
                      o_msg_stime = msg_stime q, o_msg_rtime = msg_rtime q, o_msg_ctime = msg_ctime q\<rparr>
            in if wr then Ret (Msg_done (Inr 0) (MOut_ods ods), st) else msg_fail EFAULT st))"

definition msgctl_stat :: "msg_state \<Rightarrow> ctx \<Rightarrow> nat \<Rightarrow> bool \<Rightarrow> msg_ret" where
  "msgctl_stat st c k wr =
    (let q = msgque st ! k in
     case ipcaccess (msg_perm q) MSG_R (ctx_cred c) of
       Some e \<Rightarrow> msg_fail e st
     | None \<Rightarrow> if wr then Ret (Msg_done (Inr 0) (MOut_ds q), st) else msg_fail EFAULT st)"

definition msgctl_cmd :: "msg_state \<Rightarrow> ctx \<Rightarrow> int32 \<Rightarrow> nat \<Rightarrow> int32 \<Rightarrow> msg_uarg \<Rightarrow> msg_ret" where
  "msgctl_cmd st c msgid k cmd arg =
    (if cmd = IPC_O_RMID \<or> cmd = IPC_RMID then msgctl_rmid st c msgid k
     else if cmd = IPC_O_SET then msgctl_o_set st c k (um_ods arg)
     else if cmd = IPC_SET then msgctl_set st c k (um_ds arg)
     else if cmd = IPC_O_STAT then msgctl_o_stat st c k (um_out arg)
     else if cmd = IPC_STAT then msgctl_stat st c k (um_out arg)
     else msg_fail EINVAL st)"

text \<open>The command runs with the queue locked; the lock is given up on every way out.\<close>

definition msgctl :: "msg_state \<Rightarrow> ctx \<Rightarrow> int32 \<Rightarrow> int32 \<Rightarrow> msg_uarg \<Rightarrow> msg_ret" where
  "msgctl st c msgid cmd arg =
    kbind (msgconv st c msgid) (\<lambda>(r, st0).
      (case r of
         Conv_err e \<Rightarrow> msg_fail e st0
       | Conv_wait k \<Rightarrow> Ret (Msg_sleep (W_lock k), st0)
       | Conv_ok k \<Rightarrow>
           kbind (msgctl_cmd st0 c msgid k cmd arg) (\<lambda>(res, st1). Ret (res, msg_unlock st1 k))))"

section \<open>msgget\<close>

definition msgget :: "msg_state \<Rightarrow> ctx \<Rightarrow> int32 \<Rightarrow> int32 \<Rightarrow> msg_ret" where
  "msgget st c key msgflg =
    (case ipcget key msgflg (map msg_perm (msgque st)) (ctx_cred c) of
       Inl e \<Rightarrow> msg_fail e st
     | Inr (s, k, p) \<Rightarrow>
         (let st1 = upd_q st k (\<lambda>q. q\<lparr>msg_perm := p\<rparr>);
              st2 = (if s then upd_q st1 k (\<lambda>q. q\<lparr>msg_first := None, msg_last := None, msg_qnum := 0,
                       msg_qbytes := mi_msgmnb (msg_info st), msg_lspid := 0, msg_lrpid := 0, msg_stime := 0,
                       msg_rtime := 0, msg_ctime := ctx_now c,
                       msg_perm := (msg_perm q)\<lparr>perm_pad := [0, 0, 0, 0]\<rparr>,
                       msg_pad1 := 0, msg_pad2 := 0, msg_pad3 := 0, msg_pad4 := [0, 0, 0]\<rparr>)
                     else st1)
          in Ret (Msg_done (Inr (perm_seq p * mi_msgmni (msg_info st) + of_nat k)) MOut_none, st2)))"

section \<open>msgrcv\<close>

record msgrcva =
  rcv_msqid :: int32
  rcv_msgsz :: int32
  rcv_msgtyp :: int32
  rcv_msgflg :: int32

text \<open>
  The search for a message of a type other than 0: \<open>mp\<close> is the header looked at, \<open>pmp\<close> the one
  before it, \<open>smp\<close> and \<open>spmp\<close> the best one so far and its predecessor. It is run with the number of
  headers as fuel; only a cyclic chain is longer.
\<close>

fun msgrcv_scan :: "nat \<Rightarrow> msg list \<Rightarrow> int32 \<Rightarrow> nat option \<Rightarrow> nat option \<Rightarrow> nat option \<Rightarrow> nat option \<Rightarrow>
    (nat option \<times> nat option) kres" where
  "msgrcv_scan n h typ pmp None smp spmp = Ret (smp, spmp)"
| "msgrcv_scan 0 h typ pmp (Some mp) smp spmp = Fault"
| "msgrcv_scan (Suc n) h typ pmp (Some mp) smp spmp =
    (if mp \<ge> length h then Fault
     else if sint typ > 0 then
       (if typ \<noteq> msg_type (h ! mp) then msgrcv_scan n h typ (Some mp) (msg_next (h ! mp)) smp spmp
        else Ret (Some mp, pmp))
     else if sint (msg_type (h ! mp)) \<le> sint (- typ) then
       (if \<exists>s\<in>set_option smp. sint (msg_type (h ! s)) \<le> sint (msg_type (h ! mp))
        then msgrcv_scan n h typ (Some mp) (msg_next (h ! mp)) smp spmp
        else msgrcv_scan n h typ (Some mp) (msg_next (h ! mp)) (Some mp) pmp)
     else msgrcv_scan n h typ (Some mp) (msg_next (h ! mp)) smp spmp)"

definition msgrcv_find :: "msg_state \<Rightarrow> nat \<Rightarrow> int32 \<Rightarrow> (nat option \<times> nat option) kres" where
  "msgrcv_find st k typ =
    (let mp = msg_first (msgque st ! k) in
     if typ = 0 then Ret (mp, None)
     else msgrcv_scan (length (msgh st)) (msgh st) typ None mp None None)"

text \<open>Handing a message to the process and taking it off the queue.\<close>

definition msgrcv_take :: "msg_state \<Rightarrow> ctx \<Rightarrow> nat \<Rightarrow> msgrcva \<Rightarrow> msg_uarg \<Rightarrow> nat \<Rightarrow> nat option \<Rightarrow> msg_ret" where
  "msgrcv_take st c k a um smp spmp =
    (if smp \<ge> length (msgh st) then Fault
     else
       let m = msgh st ! smp; big = (rcv_msgsz a < ucast (msg_ts m)) in
       if big \<and> rcv_msgflg a AND MSG_NOERROR = 0 then msg_fail E2BIG st
       else
         let sz = (if big then rcv_msgsz a else ucast (msg_ts m)) in
         if \<not> um_out um then msg_fail EFAULT st
         else
           kbind (if sz \<noteq> 0 then pool_get st (sint (msg_spot m)) (unat sz) else Ret []) (\<lambda>bs.
             if sz \<noteq> 0 \<and> \<not> um_out_text um then msg_fail EFAULT st
             else
               kbind (msgfree (upd_q st k (\<lambda>q. q\<lparr>msg_cbytes := msg_cbytes q - ucast (msg_ts m),
                         msg_lrpid := ctx_pid c, msg_rtime := ctx_now c\<rparr>)) k spmp smp)
                 (\<lambda>st1. Ret (Msg_done (Inr sz) (MOut_msg (msg_type m) bs), st1))))"

text \<open>
  What follows the lookup of the identifier at the label \<open>findmsg\<close>, with the queue locked: take a
  message, fail, or go to sleep. The lock is given up in every case.
\<close>

definition msgrcv_locked :: "msg_state \<Rightarrow> ctx \<Rightarrow> nat \<Rightarrow> msgrcva \<Rightarrow> msg_uarg \<Rightarrow> msg_ret" where
  "msgrcv_locked st c k a um =
    kbind (msgrcv_find st k (rcv_msgtyp a)) (\<lambda>(smp, spmp).
      (case smp of
         Some mp \<Rightarrow> kbind (msgrcv_take st c k a um mp spmp) (\<lambda>(res, st1). Ret (res, msg_unlock st1 k))
       | None \<Rightarrow>
           if rcv_msgflg a AND IPC_NOWAIT \<noteq> 0 then msg_fail ENOMSG (msg_unlock st k)
           else Ret (Msg_sleep (W_rcv k),
             upd_q (msg_unlock (upd_q st k (set_mode (\<lambda>m. m OR MSG_RWAIT))) k) k
               (\<lambda>q. q\<lparr>msg_qnum_cv := sleepq_insert (ctx_prio c) (msg_qnum_cv q) (ctx_tid c)\<rparr>))))"

text \<open>
  The recheck of the identifier that both \<open>msgrcv\<close> and \<open>msgsnd\<close> make before they use the queue, as
  it may have been removed while the lock was not held: \<open>body\<close> runs with the queue locked.
\<close>

definition msg_again :: "msg_state \<Rightarrow> ctx \<Rightarrow> int32 \<Rightarrow> nat \<Rightarrow> (msg_state \<Rightarrow> msg_ret) \<Rightarrow> msg_ret" where
  "msg_again st c msqid k body =
    kbind (msgconv st c msqid) (\<lambda>(r, st0).
      (case r of
         Conv_err e \<Rightarrow> msg_fail EIDRM st0
       | Conv_wait k1 \<Rightarrow> Ret (Msg_sleep (W_lock k1), st0)
       | Conv_ok k1 \<Rightarrow> if k1 \<noteq> k then msg_fail EIDRM (msg_unlock st0 k1) else body st0))"

definition msgrcv_findmsg :: "msg_state \<Rightarrow> ctx \<Rightarrow> nat \<Rightarrow> msgrcva \<Rightarrow> msg_uarg \<Rightarrow> msg_ret" where
  "msgrcv_findmsg st c k a um = msg_again st c (rcv_msqid a) k (\<lambda>st0. msgrcv_locked st0 c k a um)"

definition msgrcv :: "msg_state \<Rightarrow> ctx \<Rightarrow> msgrcva \<Rightarrow> msg_uarg \<Rightarrow> msg_ret" where
  "msgrcv st c a um =
    kbind (msgconv st c (rcv_msqid a)) (\<lambda>(r, st0).
      (case r of
         Conv_err e \<Rightarrow> msg_fail e st0
       | Conv_wait k \<Rightarrow> Ret (Msg_sleep (W_lock k), st0)
       | Conv_ok k \<Rightarrow>
           (case ipcaccess (msg_perm (msgque st0 ! k)) MSG_R (ctx_cred c) of
              Some e \<Rightarrow> msg_fail e (msg_unlock st0 k)
            | None \<Rightarrow>
                if sint (rcv_msgsz a) < 0 then msg_fail EINVAL (msg_unlock st0 k)
                else msgrcv_findmsg (msg_unlock st0 k) c k a um)))"

text \<open>A sleeping receiver is woken, or interrupted by a signal, which only takes it off the queue.\<close>

definition msgrcv_resume :: "msg_state \<Rightarrow> ctx \<Rightarrow> nat \<Rightarrow> msgrcva \<Rightarrow> msg_uarg \<Rightarrow> msg_ret" where
  "msgrcv_resume st c k a um = msgrcv_findmsg st c k a um"

definition msgrcv_eintr :: "msg_state \<Rightarrow> ctx \<Rightarrow> nat \<Rightarrow> msg_ret" where
  "msgrcv_eintr st c k =
    msg_fail EINTR (upd_q st k (\<lambda>q. q\<lparr>msg_qnum_cv := remove1 (ctx_tid c) (msg_qnum_cv q)\<rparr>))"

section \<open>msgsnd\<close>

record msgsnda =
  snd_msqid :: int32
  snd_msgsz :: int32
  snd_msgflg :: int32

text \<open>
  Putting a message at the end of a queue and waking the receivers. Both headers written, the new
  one and the last of the queue, must lie in the table.
\<close>

definition msgsnd_link :: "msg_state \<Rightarrow> ctx \<Rightarrow> nat \<Rightarrow> nat \<Rightarrow> int32 \<Rightarrow> int32 \<Rightarrow> short \<Rightarrow> msg_state kres" where
  "msgsnd_link st c k mp typ cnt spot =
    (let st1 = upd_q st k (\<lambda>q. q\<lparr>msg_qnum := msg_qnum q + 1, msg_cbytes := msg_cbytes q + cnt,
                 msg_lspid := ctx_pid c, msg_stime := ctx_now c\<rparr>)
     in if mp \<ge> length (msgh st1) then Fault
        else
          let st2 = upd_h st1 mp (\<lambda>_. \<lparr>msg_next = None, msg_type = typ, msg_ts = ucast cnt, msg_spot = spot\<rparr>)
          in kbind (case msg_last (msgque st ! k) of
                      None \<Rightarrow> Ret (upd_q st2 k (\<lambda>q. q\<lparr>msg_first := Some mp, msg_last := Some mp\<rparr>))
                    | Some l \<Rightarrow>
                        if l \<ge> length (msgh st2) then Fault
                        else Ret (upd_q (upd_h st2 l (\<lambda>m. m\<lparr>msg_next := Some mp\<rparr>)) k (\<lambda>q. q\<lparr>msg_last := Some mp\<rparr>)))
               (\<lambda>st3. Ret (upd_q st3 k (\<lambda>q. if q_mode q AND MSG_RWAIT \<noteq> 0
                  then (set_mode (\<lambda>m. m AND NOT MSG_RWAIT) q)\<lparr>msg_qnum_cv := []\<rparr> else q))))"

text \<open>
  The three resources a message needs, in the order they are asked for: space on the queue, a
  header, and segments of the buffer. \<open>msgsnd_text\<close> has taken the header \<open>mp\<close>. A \<open>copyin\<close> that
  fails may have filled part of the segments before it met the bad address; they are freed at once
  and no message lies in them, and the model leaves their bytes as they were.
\<close>

definition msgsnd_text :: "msg_state \<Rightarrow> ctx \<Rightarrow> nat \<Rightarrow> msgsnda \<Rightarrow> msg_uarg \<Rightarrow> int32 \<Rightarrow> nat \<Rightarrow> msg_ret" where
  "msgsnd_text st c k a um typ mp =
    (let cnt = snd_msgsz a in
     if cnt = 0 then
       kbind (msgsnd_link st c k mp typ cnt (- 1)) (\<lambda>st3. Ret (Msg_done (Inr 0) MOut_none, msg_unlock st3 k))
     else
       kbind (btoq (msg_info st) cnt) (\<lambda>n.
         kbind (rmalloc_locked (msgmap st) n) (\<lambda>(addr, rmp).
           let st1 = st\<lparr>msgmap := rmp\<rparr> in
           if addr = 0 then
             (if snd_msgflg a AND IPC_NOWAIT \<noteq> 0 then msg_fail EAGAIN (msg_unlock (free_header st1 mp) k)
              else
                let st2 = msg_unlock (free_header (st1\<lparr>msgmap := rmp\<lparr>m_want := m_want rmp + 1\<rparr>\<rparr>) mp) k
                in Ret (Msg_sleep (W_snd_m k),
                     st2\<lparr>msgmap_cv := sleepq_insert (ctx_prio c) (msgmap_cv st2) (ctx_tid c)\<rparr>))
           else
             let spot = addr - 1 in
             if \<not> um_text_ok um then
               kbind (free_text st1 cnt (spot + 1)) (\<lambda>st2. msg_fail EFAULT (msg_unlock (free_header st2 mp) k))
             else
               kbind (pool_put st1 (uint spot) (map (um_text um) [0..<unat cnt])) (\<lambda>st2.
                 kbind (msgsnd_link st2 c k mp typ cnt (ucast spot)) (\<lambda>st3.
                   Ret (Msg_done (Inr 0) MOut_none, msg_unlock st3 k))))))"

definition msgsnd_locked :: "msg_state \<Rightarrow> ctx \<Rightarrow> nat \<Rightarrow> msgsnda \<Rightarrow> msg_uarg \<Rightarrow> int32 \<Rightarrow> msg_ret" where
  "msgsnd_locked st c k a um typ =
    (let q = msgque st ! k; nowait = (snd_msgflg a AND IPC_NOWAIT \<noteq> 0) in
     if snd_msgsz a + msg_cbytes q > msg_qbytes q then
       (if nowait then msg_fail EAGAIN (msg_unlock st k)
        else Ret (Msg_sleep (W_snd_q k),
          upd_q (msg_unlock (upd_q st k (set_mode (\<lambda>m. m OR MSG_WWAIT))) k) k
            (\<lambda>q. q\<lparr>msg_cv := sleepq_insert (ctx_prio c) (msg_cv q) (ctx_tid c)\<rparr>)))
     else (case msgfp st of
         None \<Rightarrow>
           if nowait then msg_fail EAGAIN (msg_unlock st k)
           else let st1 = upd_l st k (\<lambda>l. l\<lparr>msglock_lock := 0\<rparr>)
                in Ret (Msg_sleep (W_snd_h k), st1\<lparr>msgfp_cv := sleepq_insert (ctx_prio c) (msgfp_cv st1) (ctx_tid c)\<rparr>)
       | Some mp \<Rightarrow>
           if mp \<ge> length (msgh st) then Fault
           else msgsnd_text (st\<lparr>msgfp := msg_next (msgh st ! mp)\<rparr>) c k a um typ mp))"

definition msgsnd_getres :: "msg_state \<Rightarrow> ctx \<Rightarrow> nat \<Rightarrow> msgsnda \<Rightarrow> msg_uarg \<Rightarrow> int32 \<Rightarrow> msg_ret" where
  "msgsnd_getres st c k a um typ = msg_again st c (snd_msqid a) k (\<lambda>st0. msgsnd_locked st0 c k a um typ)"

definition msgsnd :: "msg_state \<Rightarrow> ctx \<Rightarrow> msgsnda \<Rightarrow> msg_uarg \<Rightarrow> msg_ret" where
  "msgsnd st c a um =
    kbind (msgconv st c (snd_msqid a)) (\<lambda>(r, st0).
      (case r of
         Conv_err e \<Rightarrow> msg_fail e st0
       | Conv_wait k \<Rightarrow> Ret (Msg_sleep (W_lock k), st0)
       | Conv_ok k \<Rightarrow>
           (case ipcaccess (msg_perm (msgque st0 ! k)) MSG_W (ctx_cred c) of
              Some e \<Rightarrow> msg_fail e (msg_unlock st0 k)
            | None \<Rightarrow>
                if sint (snd_msgsz a) < 0 \<or> sint (snd_msgsz a) > sint (mi_msgmax (msg_info st0))
                then msg_fail EINVAL (msg_unlock st0 k)
                else (case um_type um of
                    None \<Rightarrow> msg_fail EFAULT (msg_unlock st0 k)
                  | Some typ \<Rightarrow>
                      if sint typ < 1 then msg_fail EINVAL (msg_unlock st0 k)
                      else msgsnd_getres (msg_unlock st0 k) c k a um typ))))"

definition msgsnd_resume :: "msg_state \<Rightarrow> ctx \<Rightarrow> nat \<Rightarrow> msgsnda \<Rightarrow> msg_uarg \<Rightarrow> int32 \<Rightarrow> msg_ret" where
  "msgsnd_resume st c k a um typ = msgsnd_getres st c k a um typ"

text \<open>
  A sender whose sleep a signal ends looks its queue up once more before it returns. The three
  sleeps differ in the queue of threads it is taken off, and the one for space on the queue also
  wakes the other senders.
\<close>

definition msgsnd_intr :: "msg_state \<Rightarrow> ctx \<Rightarrow> nat \<Rightarrow> msgsnda \<Rightarrow> (msqid_ds \<Rightarrow> msqid_ds) \<Rightarrow> msg_ret" where
  "msgsnd_intr st c k a f =
    kbind (msgconv st c (snd_msqid a)) (\<lambda>(r, st0).
      (case r of
         Conv_err e \<Rightarrow> msg_fail e st0
       | Conv_wait k1 \<Rightarrow> Ret (Msg_sleep (W_lock k1), st0)
       | Conv_ok k1 \<Rightarrow>
           if k1 \<noteq> k then msg_fail EINTR (msg_unlock st0 k1)
           else msg_fail EINTR (msg_unlock (upd_q st0 k f) k)))"

definition msgsnd_eintr_q :: "msg_state \<Rightarrow> ctx \<Rightarrow> nat \<Rightarrow> msgsnda \<Rightarrow> msg_ret" where
  "msgsnd_eintr_q st c k a =
    msgsnd_intr (upd_q st k (\<lambda>q. q\<lparr>msg_cv := remove1 (ctx_tid c) (msg_cv q)\<rparr>)) c k a
      (\<lambda>q. (set_mode (\<lambda>m. m AND NOT MSG_WWAIT) q)\<lparr>msg_cv := []\<rparr>)"

definition msgsnd_eintr_h :: "msg_state \<Rightarrow> ctx \<Rightarrow> nat \<Rightarrow> msgsnda \<Rightarrow> msg_ret" where
  "msgsnd_eintr_h st c k a = msgsnd_intr (st\<lparr>msgfp_cv := remove1 (ctx_tid c) (msgfp_cv st)\<rparr>) c k a (\<lambda>q. q)"

definition msgsnd_eintr_m :: "msg_state \<Rightarrow> ctx \<Rightarrow> nat \<Rightarrow> msgsnda \<Rightarrow> msg_ret" where
  "msgsnd_eintr_m st c k a = msgsnd_intr (st\<lparr>msgmap_cv := remove1 (ctx_tid c) (msgmap_cv st)\<rparr>) c k a (\<lambda>q. q)"

section \<open>msgsys\<close>

text \<open>The system entry point: the registers \<open>a1\<close> to \<open>a5\<close> hold the arguments of the call.\<close>

definition msgsys :: "msg_state \<Rightarrow> ctx \<Rightarrow> int32 \<Rightarrow> int32 \<Rightarrow> int32 \<Rightarrow> int32 \<Rightarrow> int32 \<Rightarrow> int32 \<Rightarrow> msg_uarg \<Rightarrow> msg_ret" where
  "msgsys st c opcode a1 a2 a3 a4 a5 um =
    (if opcode = MSGGET then msgget st c a1 a2
     else if opcode = MSGCTL then msgctl st c a1 a2 um
     else if opcode = MSGRCV then
       msgrcv st c \<lparr>rcv_msqid = a1, rcv_msgsz = a3, rcv_msgtyp = a4, rcv_msgflg = a5\<rparr> um
     else if opcode = MSGSND then msgsnd st c \<lparr>snd_msqid = a1, snd_msgsz = a3, snd_msgflg = a4\<rparr> um
     else msg_fail EINVAL st)"

section \<open>Module initialisation\<close>

definition INTRND :: "'a::len word \<Rightarrow> 'a word" where
  "INTRND x = (x + 3) div 4 * 4"

text \<open>
  The bytes of all tables, in 64-bit arithmetic: a map entry takes 8 bytes, a queue 112, a lock 4
  and a header 12.
\<close>

definition msg_bytes :: "msginfo \<Rightarrow> 64 word" where
  "msg_bytes mi = INTRND (ucast (mi_msgseg mi) * scast (mi_msgssz mi)) + scast (mi_msgmap mi) * ucast sizeof_map +
     scast (mi_msgmni mi) * 112 + INTRND (scast (mi_msgmni mi) * 4) + scast (mi_msgtql mi) * 12"

definition zero_msqid :: msqid_ds where
  "zero_msqid = \<lparr>msg_perm = zero_perm, msg_first = None, msg_last = None, msg_cbytes = 0, msg_qnum = 0,
     msg_qbytes = 0, msg_lspid = 0, msg_lrpid = 0, msg_stime = 0, msg_pad1 = 0, msg_rtime = 0, msg_pad2 = 0,
     msg_ctime = 0, msg_pad3 = 0, msg_cv = [], msg_qnum_cv = [], msg_pad4 = [0, 0, 0]\<rparr>"

definition zero_msg :: msg where
  "zero_msg = \<lparr>msg_next = None, msg_type = 0, msg_ts = 0, msg_spot = 0\<rparr>"

text \<open>The loop that links the headers: \<open>i\<close> is the position of \<open>mp\<close>, \<open>n\<close> the number of rounds left.\<close>

fun msg_thread :: "nat \<Rightarrow> nat \<Rightarrow> msg list \<Rightarrow> msg list" where
  "msg_thread 0 i h = h"
| "msg_thread (Suc n) i h = msg_thread n (Suc i) (h[i := (h ! i)\<lparr>msg_next := Some (Suc i)\<rparr>])"

text \<open>
  \<open>mavail\<close> is a quarter of the available kernel memory and \<open>inst\<close> the answer of the module
  installation.
\<close>

definition msg_init :: "msginfo \<Rightarrow> 64 word \<Rightarrow> errno option \<Rightarrow> (errno + msg_state) kres" where
  "msg_init mi mavail inst =
    (if msg_bytes mi > mavail then Ret (Inl ENOMEM)
     else kbind (mapinit (zalloc_map (mi_msgmap mi * sizeof_map)) (ucast (mi_msgseg mi)) 1 ''msgmap'' (mi_msgmap mi))
       (\<lambda>rmp. case inst of
          Some e \<Rightarrow> Ret (Inl e)
        | None \<Rightarrow>
            Ret (Inr \<lparr>msg_info = mi,
              msg_pool = replicate (unat (INTRND (ucast (mi_msgseg mi) * mi_msgssz mi))) 0,
              msgmap = rmp, msgmap_cv = [],
              msgh = msg_thread (nat (sint (mi_msgtql mi) - 1)) 0 (replicate (unat (mi_msgtql mi)) zero_msg),
              msgque = replicate (unat (mi_msgmni mi)) zero_msqid,
              msglocks = replicate (unat (mi_msgmni mi)) \<lparr>msglock_lock = 0, msglock_cv = []\<rparr>,
              msgfp = Some 0, msgfp_cv = [], msg_acflag = 0\<rparr>)))"

end
