(* ===== verification/Msg_Inv.thy ===== *)
theory Msg_Inv
  imports Msg
begin

text \<open>
  The invariant of the message facility and that every operation keeps it. The linked lists of the
  headers represent one list of messages per queue and the list of free headers; the texts of the
  queued messages lie in disjoint blocks of the buffer, apart from the free part of its map; the
  counters of a queue agree with its list; a thread is only asleep on a queue whose flag tells so,
  and none sleeps for a header while one is free; and no queue is locked between two steps.
\<close>

section \<open>Linked lists of headers\<close>

fun lseg :: "msg list \<Rightarrow> nat option \<Rightarrow> nat list \<Rightarrow> nat option \<Rightarrow> bool" where
  "lseg h p [] q \<longleftrightarrow> p = q"
| "lseg h p (x # xs) q \<longleftrightarrow> p = Some x \<and> x < length h \<and> lseg h (msg_next (h ! x)) xs q"

fun hwalk :: "nat \<Rightarrow> msg list \<Rightarrow> nat option \<Rightarrow> nat list" where
  "hwalk n h None = []"
| "hwalk 0 h (Some x) = []"
| "hwalk (Suc n) h (Some x) = (if x < length h then x # hwalk n h (msg_next (h ! x)) else [])"

lemma lseg_append: "lseg h p (xs @ ys) q \<longleftrightarrow> (\<exists>r. lseg h p xs r \<and> lseg h r ys q)"
  by (induction xs arbitrary: p) auto

lemma lseg_upd: "i \<notin> set xs \<Longrightarrow> lseg (h[i := m]) p xs q \<longleftrightarrow> lseg h p xs q"
  by (induction xs arbitrary: p) auto

lemma lseg_cong: "(\<And>i. i \<in> set xs \<Longrightarrow> msg_next (h' ! i) = msg_next (h ! i)) \<Longrightarrow> length h' = length h \<Longrightarrow>
    lseg h' p xs q \<longleftrightarrow> lseg h p xs q"
  by (induction xs arbitrary: p) auto

lemma lseg_bound: "lseg h p xs q \<Longrightarrow> i \<in> set xs \<Longrightarrow> i < length h"
  by (induction xs arbitrary: p) auto

lemma lseg_None [simp]: "lseg h None xs None \<longleftrightarrow> xs = []"
  by (cases xs) auto

lemma lseg_hd: "lseg h p xs None \<Longrightarrow> p = (if xs = [] then None else Some (hd xs))"
  by (cases xs) auto

text \<open>Taking an element out of the middle, as the unlinking of a header does.\<close>

lemma lseg_unlink_first:
  "lseg h p (x # xs) None \<Longrightarrow> lseg h (msg_next (h ! x)) xs None"
  by simp

lemma lseg_unlink:
  assumes "lseg h p (xs @ x # ys) None" "distinct (xs @ x # ys)" "xs \<noteq> []"
  shows "lseg (h[last xs := (h ! last xs)\<lparr>msg_next := msg_next (h ! x)\<rparr>]) p (xs @ ys) None"
proof -
  obtain zs l where xs: "xs = zs @ [l]" using assms(3) by (cases xs rule: rev_cases) auto
  let ?h = "h[l := (h ! l)\<lparr>msg_next := msg_next (h ! x)\<rparr>]"
  obtain r where r: "lseg h p zs r" "r = Some l" "l < length h" "lseg h (msg_next (h ! x)) ys None"
    using assms(1) xs by (auto simp: lseg_append)
  have "lseg ?h p zs r" "lseg ?h (msg_next (h ! x)) ys None"
    using r assms(2) xs by (auto simp: lseg_upd)
  then show ?thesis using xs r by (auto simp: lseg_append)
qed

lemma lseg_snoc:
  assumes "lseg h p xs None" "x \<notin> set xs" "x < length h" "distinct xs" "msg_next m = None" "xs \<noteq> []"
  shows "lseg ((h[x := m])[last xs := ((h[x := m]) ! last xs)\<lparr>msg_next := Some x\<rparr>]) p (xs @ [x]) None"
proof -
  obtain zs l where xs: "xs = zs @ [l]" using assms(6) by (cases xs rule: rev_cases) auto
  have "lseg h p zs (Some l)" "l < length h" "l \<noteq> x" "l \<notin> set zs" "x \<notin> set zs"
    using assms xs by (auto simp: lseg_append)
  then show ?thesis using xs assms by (auto simp: lseg_append lseg_upd)
qed

lemma hwalk_lseg:
  assumes "lseg h p xs None" "length xs \<le> n"
  shows "hwalk n h p = xs"
  using assms
proof (induction xs arbitrary: p n)
  case (Cons x xs)
  then show ?case by (cases n) auto
qed auto

lemma distinct_bounded_length:
  assumes "distinct xs" "\<And>i. i \<in> set xs \<Longrightarrow> i < n"
  shows "length xs \<le> n"
proof -
  have "set xs \<subseteq> {..<n}" using assms(2) by blast
  then have "card (set xs) \<le> card {..<n}" by (intro card_mono) auto
  then show ?thesis using distinct_card [OF assms(1)] by simp
qed

section \<open>The parts of the invariant\<close>

text \<open>Parameters in a usable range: the comments of the source ask for fewer than 32768 segments;
  message sizes are kept in 16 bits.\<close>

definition msg_params :: "msginfo \<Rightarrow> bool" where
  "msg_params mi \<longleftrightarrow> 0 < sint (mi_msgmni mi) \<and> sint (mi_msgmni mi) \<le> 1073741824 \<and> 0 < sint (mi_msgssz mi) \<and> sint (mi_msgssz mi) \<le> 65536 \<and>
     unat (mi_msgseg mi) < 32768 \<and> sint (mi_msgmax mi) \<le> 65535"

abbreviation ssz :: "msginfo \<Rightarrow> nat" where
  "ssz mi \<equiv> unat (mi_msgssz mi)"

definition nseg :: "msginfo \<Rightarrow> nat \<Rightarrow> nat" where
  "nseg mi ts = (ts + ssz mi - 1) div ssz mi"

definition spot_of :: "msg \<Rightarrow> nat" where
  "spot_of m = nat (sint (msg_spot m))"

definition text_blk :: "msginfo \<Rightarrow> msg \<Rightarrow> nat set" where
  "text_blk mi m = {spot_of m + 1 ..< spot_of m + 1 + nseg mi (unat (msg_ts m))}"

definition hchains :: "msg list \<Rightarrow> msqid_ds list \<Rightarrow> nat option \<Rightarrow> nat list list \<Rightarrow> nat list \<Rightarrow> bool" where
  "hchains h que fp qs fs \<longleftrightarrow> length qs = length que \<and>
    (\<forall>k<length que. lseg h (msg_first (que ! k)) (qs ! k) None \<and>
       msg_last (que ! k) = (if qs ! k = [] then None else Some (last (qs ! k)))) \<and>
    lseg h fp fs None \<and> distinct (concat qs @ fs)"

definition texts :: "msginfo \<Rightarrow> msg list \<Rightarrow> map_head \<Rightarrow> nat set \<Rightarrow> bool" where
  "texts mi h rmp I \<longleftrightarrow> map_wf rmp \<and> 2 \<le> unat (m_nsegs rmp) \<and> free_set rmp \<subseteq> {1..unat (mi_msgseg mi)} \<and>
    (\<forall>i\<in>I. 1 \<le> sint (msg_type (h ! i)) \<and>
      (msg_ts (h ! i) \<noteq> 0 \<longrightarrow> 0 \<le> sint (msg_spot (h ! i)) \<and>
         spot_of (h ! i) + nseg mi (unat (msg_ts (h ! i))) \<le> unat (mi_msgseg mi))) \<and>
    owned (free_set rmp) {i \<in> I. msg_ts (h ! i) \<noteq> 0} (\<lambda>i. text_blk mi (h ! i))"

text \<open>A queue that is not allocated has no message and no waiter; the sequence number of an entry
  stays in the range in which identifiers are not negative.\<close>

definition seq_ok :: "int32 \<Rightarrow> nat \<Rightarrow> ulong \<Rightarrow> bool" where
  "seq_ok mni k s \<longleftrightarrow> unat s * unat mni + k < 2147483648"

definition queue_ok :: "msginfo \<Rightarrow> nat \<Rightarrow> msqid_ds \<Rightarrow> nat list \<Rightarrow> bool" where
  "queue_ok mi k q xs \<longleftrightarrow> msg_qnum q = of_nat (length xs) \<and> seq_ok (mi_msgmni mi) k (perm_seq (msg_perm q)) \<and>
    (\<not> ipc_used (msg_perm q) \<longrightarrow> xs = [] \<and> q_mode q = 0) \<and>
    (msg_qnum_cv q \<noteq> [] \<longrightarrow> q_mode q AND MSG_RWAIT \<noteq> 0) \<and>
    (msg_cv q \<noteq> [] \<longrightarrow> q_mode q AND MSG_WWAIT \<noteq> 0)"

definition msg_rep :: "msg_state \<Rightarrow> nat list list \<Rightarrow> nat list \<Rightarrow> bool" where
  "msg_rep st qs fs \<longleftrightarrow> msg_params (msg_info st) \<and> length (msgque st) = nat (sint (mi_msgmni (msg_info st))) \<and>
    ssz (msg_info st) * unat (mi_msgseg (msg_info st)) \<le> length (msg_pool st) \<and>
    hchains (msgh st) (msgque st) (msgfp st) qs fs \<and>
    texts (msg_info st) (msgh st) (msgmap st) (set (concat qs)) \<and>
    (\<forall>k<length (msgque st). queue_ok (msg_info st) k (msgque st ! k) (qs ! k)) \<and>
    (msgfp_cv st \<noteq> [] \<longrightarrow> msgfp st = None)"

definition bytes_ok :: "msg list \<Rightarrow> msqid_ds \<Rightarrow> nat list \<Rightarrow> bool" where
  "bytes_ok h q xs \<longleftrightarrow> msg_cbytes q = sum_list (map (\<lambda>i. ucast (msg_ts (h ! i))) xs)"

definition idle_lock :: msglock where
  "idle_lock = \<lparr>msglock_lock = 0, msglock_cv = []\<rparr>"

definition locks_idle :: "msg_state \<Rightarrow> bool" where
  "locks_idle st \<longleftrightarrow> msglocks st = replicate (length (msgque st)) idle_lock"

definition msg_good :: "msg_state \<Rightarrow> nat list list \<Rightarrow> nat list \<Rightarrow> bool" where
  "msg_good st qs fs \<longleftrightarrow> msg_rep st qs fs \<and> (\<forall>k<length (msgque st). bytes_ok (msgh st) (msgque st ! k) (qs ! k))"

definition msg_wf :: "msg_state \<Rightarrow> bool" where
  "msg_wf st \<longleftrightarrow> (\<exists>qs fs. msg_good st qs fs) \<and> locks_idle st"

text \<open>The list of headers of a queue, and its messages: the type and the text of each.\<close>

definition hdrs :: "msg_state \<Rightarrow> nat \<Rightarrow> nat list" where
  "hdrs st k = hwalk (length (msgh st)) (msgh st) (msg_first (msgque st ! k))"

definition message :: "msg_state \<Rightarrow> nat \<Rightarrow> int32 \<times> byte list" where
  "message st i = (msg_type (msgh st ! i),
     if msg_ts (msgh st ! i) = 0 then []
     else take (unat (msg_ts (msgh st ! i))) (drop (ssz (msg_info st) * spot_of (msgh st ! i)) (msg_pool st)))"

definition msgs :: "msg_state \<Rightarrow> nat \<Rightarrow> (int32 \<times> byte list) list" where
  "msgs st k = map (message st) (hdrs st k)"

lemma hchainsD:
  assumes "hchains h que fp qs fs"
  shows "length qs = length que" "lseg h fp fs None" "distinct (concat qs @ fs)"
    "k < length que \<Longrightarrow> lseg h (msg_first (que ! k)) (qs ! k) None"
    "k < length que \<Longrightarrow> msg_last (que ! k) = (if qs ! k = [] then None else Some (last (qs ! k)))"
  using assms by (auto simp: hchains_def)

lemma hchains_bound:
  assumes "hchains h que fp qs fs" "i \<in> set (concat qs)"
  shows "i < length h"
proof -
  obtain x where "x \<in> set qs" "i \<in> set x" using assms(2) by auto
  then obtain k where "k < length qs" "i \<in> set (qs ! k)" by (auto simp: in_set_conv_nth [of x])
  then show ?thesis using lseg_bound [OF hchainsD(4) [OF assms(1)]] hchainsD(1) [OF assms(1)] by auto
qed

lemma set_nth_concat: "j < length qs \<Longrightarrow> set (qs ! j) \<subseteq> set (concat qs)"
  using nth_mem [of j qs] by (auto intro: nth_mem)

lemma hdrs_rep:
  assumes "msg_rep st qs fs" "k < length (msgque st)"
  shows "hdrs st k = qs ! k"
proof -
  have ch: "hchains (msgh st) (msgque st) (msgfp st) qs fs" using assms by (simp add: msg_rep_def)
  note l = hchainsD(4) [OF ch assms(2)]
  have "qs ! k \<in> set qs" using assms(2) hchainsD(1) [OF ch] by simp
  then have "distinct (qs ! k)" using hchainsD(3) [OF ch] by (auto simp: distinct_concat_iff)
  then have "length (qs ! k) \<le> length (msgh st)" using lseg_bound [OF l] by (intro distinct_bounded_length)
  then show ?thesis by (simp add: hdrs_def hwalk_lseg [OF l])
qed

section \<open>Segments\<close>

text \<open>On non-negative numbers the division and the remainder of C are the usual ones.\<close>

lemma sdiv_nat: "int a sdiv int b = int (a div b)"
  by (cases "a = 0"; cases "b = 0") (simp_all add: signed_divide_int_def zdiv_int)

lemma smod_nat: "int a smod int b = int (a mod b)"
  by (cases "a = 0"; cases "b = 0") (simp_all add: signed_modulo_int_def zmod_int)

lemma btoq_nseg:
  assumes "msg_params mi" "0 < unat x" "unat x \<le> 65535"
  shows "\<exists>n. btoq mi x = Ret n \<and> unat n = nseg mi (unat x) \<and> 0 < sint n \<and> 0 < nseg mi (unat x) \<and>
    unat x \<le> nseg mi (unat x) * ssz mi"
proof -
  let ?s = "ssz mi"
  have p: "0 < sint (mi_msgssz mi)" "sint (mi_msgssz mi) \<le> 65536" using assms(1) by (simp_all add: msg_params_def)
  have s3: "sint (mi_msgssz mi) = int ?s" using p(1) by (intro sint_unat) simp
  have s: "0 < ?s" "?s \<le> 65536" using p s3 by linarith+
  have u: "unat (x + mi_msgssz mi - 1) = unat x + ?s - 1"
  proof -
    have a: "unat (x + mi_msgssz mi) = unat x + ?s" using s assms(3) by (intro unat_add_nowrap) simp
    show ?thesis using a s(1) by (subst unat_sub_nowrap) simp_all
  qed
  have i: "sint (x + mi_msgssz mi - 1) = int (unat x + ?s - 1)"
  proof -
    have "unat (x + mi_msgssz mi - 1) < 2 ^ (LENGTH(32) - 1)" unfolding u using s assms(3) by simp
    from sint_of_unat_small [OF this] show ?thesis by (simp only: u)
  qed
  let ?n = "nseg mi (unat x)"
  have bound: "?n \<le> 131072" unfolding nseg_def using s assms(3) by (intro order_trans [OF div_le_dividend]) simp
  have pos: "0 < ?n" unfolding nseg_def using s assms(2) by (simp add: div_greater_zero_iff)
  have cover: "unat x \<le> ?n * ?s"
  proof -
    have "unat x + ?s - 1 = ?n * ?s + (unat x + ?s - 1) mod ?s" by (simp add: nseg_def)
    moreover have "(unat x + ?s - 1) mod ?s < ?s" using s(1) by simp
    ultimately show ?thesis by linarith
  qed
  have sd: "sint (x + mi_msgssz mi - 1) sdiv sint (mi_msgssz mi) = int ?n"
    unfolding i s3 nseg_def by (rule sdiv_nat)
  have nz: "mi_msgssz mi \<noteq> 0" using s(1) by auto
  have un: "unat (word_of_nat ?n :: ulong) = ?n" using bound by (intro unat_of_nat_small) simp
  moreover have "0 < sint (word_of_nat ?n :: ulong)" unfolding sint_pos_iff un using pos bound by simp
  ultimately show ?thesis using sd nz pos cover by (auto simp: btoq_def)
qed

section \<open>Data that linking does not touch\<close>

definition same_data :: "msg list \<Rightarrow> msg list \<Rightarrow> bool" where
  "same_data h h' \<longleftrightarrow> length h' = length h \<and>
    (\<forall>i<length h. msg_type (h' ! i) = msg_type (h ! i) \<and> msg_ts (h' ! i) = msg_ts (h ! i) \<and> msg_spot (h' ! i) = msg_spot (h ! i))"

lemma same_data_refl [simp]: "same_data h h"
  by (simp add: same_data_def)

lemma same_data_next [simp]: "same_data h (h[i := (h ! i)\<lparr>msg_next := n\<rparr>])"
proof -
  have "msg_type (h[i := (h ! i)\<lparr>msg_next := n\<rparr>] ! j) = msg_type (h ! j) \<and> msg_ts (h[i := (h ! i)\<lparr>msg_next := n\<rparr>] ! j) = msg_ts (h ! j) \<and>
      msg_spot (h[i := (h ! i)\<lparr>msg_next := n\<rparr>] ! j) = msg_spot (h ! j)" if "j < length h" for j
    using that by (cases "i = j") simp_all
  then show ?thesis by (simp add: same_data_def)
qed

lemma same_data_trans [trans]: "same_data h h1 \<Longrightarrow> same_data h1 h2 \<Longrightarrow> same_data h h2"
  by (simp add: same_data_def)

lemma texts_same:
  assumes "texts mi h rmp I" "\<And>i. i \<in> I \<Longrightarrow> msg_type (h' ! i) = msg_type (h ! i) \<and> msg_ts (h' ! i) = msg_ts (h ! i) \<and>
    msg_spot (h' ! i) = msg_spot (h ! i)"
  shows "texts mi h' rmp I"
proof -
  let ?J = "{i \<in> I. msg_ts (h ! i) \<noteq> 0}"
  have J: "{i \<in> I. msg_ts (h' ! i) \<noteq> 0} = ?J" using assms(2) by auto
  have e: "spot_of (h' ! i) = spot_of (h ! i)" "text_blk mi (h' ! i) = text_blk mi (h ! i)" if "i \<in> I" for i
    using assms(2) that by (auto simp: spot_of_def text_blk_def)
  have "owned (free_set rmp) ?J (\<lambda>i. text_blk mi (h' ! i)) \<longleftrightarrow> owned (free_set rmp) ?J (\<lambda>i. text_blk mi (h ! i))"
    by (rule owned_cong) (simp add: e)
  then show ?thesis using assms(1) unfolding texts_def J using assms(2) e by simp
qed

lemma texts_same_data:
  assumes "texts mi h rmp I" "same_data h h'" "\<And>i. i \<in> I \<Longrightarrow> i < length h"
  shows "texts mi h' rmp I"
  by (rule texts_same [OF assms(1)]) (use assms(2,3) in \<open>simp add: same_data_def\<close>)

section \<open>Freeing a message\<close>

lemma list_split_at: "k < length qs \<Longrightarrow> \<exists>A B. qs = A @ qs ! k # B \<and> length A = k \<and> (\<forall>x. qs[k := x] = A @ x # B)"
  using id_take_nth_drop [of k qs] upd_conv_take_nth_drop [of k qs]
  by (intro exI [of _ "take k qs"] exI [of _ "drop (Suc k) qs"]) simp

lemma list_split_other:
  assumes "length A = k" "j \<noteq> k" "j < length (A @ x # B)"
  shows "(A @ x # B) ! j \<in> set A \<union> set B"
proof (cases "j < k")
  case False
  then obtain n where n: "j - k = Suc n" using assms(2) by (cases "j - k") auto
  then have "(A @ x # B) ! j = B ! n" "n < length B" using assms False by (auto simp: nth_append)
  then show ?thesis by simp
qed (use assms in \<open>simp add: nth_append\<close>)

lemma text_free:
  assumes par: "msg_params mi" and t: "texts mi h rmp I" and i: "i \<in> I" "msg_ts (h ! i) \<noteq> 0"
    and n: "btoq mi (ucast (msg_ts (h ! i))) = Ret n"
  shows "\<exists>rmp' w. rmfree rmp n (scast (msg_spot (h ! i)) + 1) = Ret (rmp', w) \<and> texts mi h rmp' (I - {i})"
proof -
  let ?m = "h ! i" and ?a = "scast (msg_spot (h ! i)) + 1 :: ulong"
  let ?J = "{j \<in> I. msg_ts (h ! j) \<noteq> 0}"
  have seg: "unat (mi_msgseg mi) < 32768" using par by (simp add: msg_params_def)
  have tx: "map_wf rmp" "2 \<le> unat (m_nsegs rmp)" "0 \<le> sint (msg_spot ?m)"
    "spot_of ?m + nseg mi (unat (msg_ts ?m)) \<le> unat (mi_msgseg mi)" "owned (free_set rmp) ?J (\<lambda>j. text_blk mi (h ! j))"
    using t i by (auto simp: texts_def)
  have ts: "0 < unat (msg_ts ?m)" "unat (msg_ts ?m) \<le> 65535" using i(2) unat_bound [of "msg_ts ?m"] by (auto simp: unat_gt_0)
  have n': "unat n = nseg mi (unat (msg_ts ?m))" "0 < sint n"
    using btoq_nseg [OF par, of "ucast (msg_ts ?m)"] ts n by auto
  have sp: "spot_of ?m < 32768" using tx(4) seg by linarith
  have a: "unat ?a = spot_of ?m + 1"
  proof -
    have "(scast (msg_spot ?m) :: ulong) = word_of_nat (spot_of ?m)"
      using tx(3) by (simp add: spot_of_def)
    then have "?a = word_of_nat (spot_of ?m + 1)" by simp
    then show ?thesis using sp by (simp only:) (rule unat_of_nat_small, simp)
  qed
  have blk: "text_blk mi ?m = blk ?a n" by (simp add: text_blk_def blk_def a n')
  have sum: "unat ?a + unat n < 2 ^ 32" using a n' tx(4) seg by simp
  have "?a \<noteq> 0" using a by (metis add_is_0 one_neq_zero unat_0)
  then obtain rmp' w where r: "rmfree rmp n ?a = Ret (rmp', w)" "map_wf rmp'" "unat (m_nsegs rmp') = unat (m_nsegs rmp)"
    "owned (free_set rmp') (?J - {i}) (\<lambda>j. text_blk mi (h ! j))"
    using rm.release_owned [OF tx(1,2) _ n'(2) sum tx(5)] i blk by blast
  have dis: "blk ?a n \<inter> free_set rmp = {}" using tx(5) i blk by (auto simp: owned_def)
  have "free_set rmp' \<subseteq> free_set rmp \<union> blk ?a n"
    using rm.release_free [OF tx(1,2) \<open>?a \<noteq> 0\<close> n'(2) sum dis r(1)] by blast
  moreover have "blk ?a n \<subseteq> {1..unat (mi_msgseg mi)}" unfolding blk [symmetric] text_blk_def using tx(4) by auto
  moreover have "free_set rmp \<subseteq> {1..unat (mi_msgseg mi)}" using t by (simp add: texts_def)
  ultimately have f: "free_set rmp' \<subseteq> {1..unat (mi_msgseg mi)}" by blast
  have "?J - {i} = {j \<in> I - {i}. msg_ts (h ! j) \<noteq> 0}" by auto
  then have "texts mi h rmp' (I - {i})" using t r f tx(2) by (auto simp: texts_def)
  then show ?thesis using r(1) by blast
qed

lemma upd_q_simps [simp]:
  "msg_info (upd_q st k f) = msg_info st" "msg_pool (upd_q st k f) = msg_pool st" "msgmap (upd_q st k f) = msgmap st"
  "msgmap_cv (upd_q st k f) = msgmap_cv st" "msgh (upd_q st k f) = msgh st"
  "msgque (upd_q st k f) = (msgque st)[k := f (msgque st ! k)]" "msglocks (upd_q st k f) = msglocks st"
  "msgfp (upd_q st k f) = msgfp st" "msgfp_cv (upd_q st k f) = msgfp_cv st" "msg_acflag (upd_q st k f) = msg_acflag st"
  by (simp_all add: upd_q_def)

lemma upd_h_simps [simp]:
  "msg_info (upd_h st k f) = msg_info st" "msg_pool (upd_h st k f) = msg_pool st" "msgmap (upd_h st k f) = msgmap st"
  "msgmap_cv (upd_h st k f) = msgmap_cv st" "msgh (upd_h st k f) = (msgh st)[k := f (msgh st ! k)]"
  "msgque (upd_h st k f) = msgque st" "msglocks (upd_h st k f) = msglocks st"
  "msgfp (upd_h st k f) = msgfp st" "msgfp_cv (upd_h st k f) = msgfp_cv st" "msg_acflag (upd_h st k f) = msg_acflag st"
  by (simp_all add: upd_h_def)

lemma upd_l_simps [simp]:
  "msg_info (upd_l st k f) = msg_info st" "msg_pool (upd_l st k f) = msg_pool st" "msgmap (upd_l st k f) = msgmap st"
  "msgmap_cv (upd_l st k f) = msgmap_cv st" "msgh (upd_l st k f) = msgh st" "msgque (upd_l st k f) = msgque st"
  "msglocks (upd_l st k f) = (msglocks st)[k := f (msglocks st ! k)]"
  "msgfp (upd_l st k f) = msgfp st" "msgfp_cv (upd_l st k f) = msgfp_cv st" "msg_acflag (upd_l st k f) = msg_acflag st"
  by (simp_all add: upd_l_def)

definition unlink_q :: "nat option \<Rightarrow> nat option \<Rightarrow> msqid_ds \<Rightarrow> msqid_ds" where
  "unlink_q pmp nx q = wake_writers (q\<lparr>msg_first := (if pmp = None then nx else msg_first q),
     msg_last := (if nx = None then pmp else msg_last q), msg_qnum := msg_qnum q - 1\<rparr>)"

definition unlink_h :: "nat option \<Rightarrow> nat option \<Rightarrow> msg list \<Rightarrow> msg list" where
  "unlink_h pmp nx h = (case pmp of None \<Rightarrow> h | Some p \<Rightarrow> h[p := (h ! p)\<lparr>msg_next := nx\<rparr>])"

lemma unlink_h_length [simp]: "length (unlink_h pmp nx h) = length h"
  by (simp add: unlink_h_def split: option.split)

lemma msgfree_unfold:
  assumes "mp < length (msgh st)" "\<And>p. pmp = Some p \<Longrightarrow> p < length (msgh st)" "k < length (msgque st)"
  shows "msgfree st k pmp mp =
    (let m = msgh st ! mp;
         st3 = st\<lparr>msgh := unlink_h pmp (msg_next m) (msgh st), msgque := (msgque st)[k := unlink_q pmp (msg_next m) (msgque st ! k)]\<rparr>
     in kbind (if msg_ts m \<noteq> 0 then free_text st3 (ucast (msg_ts m)) (scast (msg_spot m) + 1) else Ret st3)
          (\<lambda>st4. Ret (free_header st4 mp)))"
proof -
  let ?nx = "msg_next (msgh st ! mp)"
  have e: "upd_q (if ?nx = None then upd_q (case pmp of None \<Rightarrow> upd_q st k (\<lambda>q. q\<lparr>msg_first := ?nx\<rparr>)
        | Some p \<Rightarrow> upd_h st p (\<lambda>pm. pm\<lparr>msg_next := ?nx\<rparr>)) k (\<lambda>q. q\<lparr>msg_last := pmp\<rparr>)
      else (case pmp of None \<Rightarrow> upd_q st k (\<lambda>q. q\<lparr>msg_first := ?nx\<rparr>)
        | Some p \<Rightarrow> upd_h st p (\<lambda>pm. pm\<lparr>msg_next := ?nx\<rparr>))) k (\<lambda>q. wake_writers (q\<lparr>msg_qnum := msg_qnum q - 1\<rparr>)) =
    st\<lparr>msgh := unlink_h pmp ?nx (msgh st), msgque := (msgque st)[k := unlink_q pmp ?nx (msgque st ! k)]\<rparr>"
    using assms(3) by (cases pmp; cases ?nx) (simp_all add: upd_q_def upd_h_def unlink_q_def unlink_h_def)
  have "\<not> (mp \<ge> length (msgh st) \<or> (\<exists>p\<in>set_option pmp. p \<ge> length (msgh st)))"
    using assms(1,2) by (cases pmp) auto
  then show ?thesis unfolding msgfree_def Let_def e by simp
qed

lemma wake_writers_simps [simp]:
  "msg_first (wake_writers q) = msg_first q" "msg_last (wake_writers q) = msg_last q"
  "msg_cbytes (wake_writers q) = msg_cbytes q" "msg_qnum (wake_writers q) = msg_qnum q"
  "msg_qbytes (wake_writers q) = msg_qbytes q" "msg_qnum_cv (wake_writers q) = msg_qnum_cv q"
  "perm_seq (msg_perm (wake_writers q)) = perm_seq (msg_perm q)"
  by (simp_all add: wake_writers_def set_mode_def)

text \<open>How the chains look after a change of one queue.\<close>

lemma hchains_upd:
  assumes "length qs = length que" "lseg h (msg_first q) xs None" "msg_last q = (if xs = [] then None else Some (last xs))"
    and "\<And>j. j < length que \<Longrightarrow> j \<noteq> k \<Longrightarrow> lseg h (msg_first (que ! j)) (qs ! j) None"
    and "\<And>j. j < length que \<Longrightarrow> j \<noteq> k \<Longrightarrow> msg_last (que ! j) = (if qs ! j = [] then None else Some (last (qs ! j)))"
    and "lseg h fp fs None" "distinct (concat (qs[k := xs]) @ fs)"
  shows "hchains h (que[k := q]) fp (qs[k := xs]) fs"
proof -
  have "lseg h (msg_first (que[k := q] ! j)) (qs[k := xs] ! j) None \<and>
      msg_last (que[k := q] ! j) = (if qs[k := xs] ! j = [] then None else Some (last (qs[k := xs] ! j)))"
    if "j < length que" for j
    using that assms by (cases "j = k") simp_all
  then show ?thesis using assms(1,6,7) by (simp add: hchains_def)
qed

lemma hchains_free:
  assumes ch: "hchains h que fp qs fs" and k: "k < length que" and q: "qs ! k = as @ i # bs"
    and pmp: "pmp = (if as = [] then None else Some (last as))"
  shows "hchains ((unlink_h pmp (msg_next (h ! i)) h)[i := (unlink_h pmp (msg_next (h ! i)) h ! i)\<lparr>msg_next := fp\<rparr>])
    (que[k := unlink_q pmp (msg_next (h ! i)) (que ! k)]) (Some i) (qs[k := as @ bs]) (i # fs)"
proof -
  let ?nx = "msg_next (h ! i)"
  let ?h1 = "unlink_h pmp ?nx h"
  let ?h2 = "?h1[i := (?h1 ! i)\<lparr>msg_next := fp\<rparr>]"
  let ?q = "unlink_q pmp ?nx (que ! k)"
  note c = hchainsD [OF ch]
  have kq: "k < length qs" using k c(1) by simp
  obtain A B where AB: "qs = A @ (as @ i # bs) # B" "length A = k" "\<And>x. qs[k := x] = A @ x # B"
    using list_split_at [OF kq] q by auto
  have d: "distinct (concat A @ as @ i # bs @ concat B @ fs)" using c(3) AB(1) by simp
  have l: "lseg h (msg_first (que ! k)) (as @ i # bs) None" using c(4) [OF k] q by simp
  have ib: "i < length h" using lseg_bound [OF l] by simp
  have pm: "x \<in> set as" if "pmp = Some x" for x using that pmp by (auto split: if_splits)
  have out: "lseg ?h2 p xs None \<longleftrightarrow> lseg h p xs None" if "set xs \<inter> set (as @ [i]) = {}" for p xs
  proof -
    have "i \<notin> set xs" "\<And>x. pmp = Some x \<Longrightarrow> x \<notin> set xs" using that pm by auto
    then show ?thesis by (cases pmp) (simp_all add: unlink_h_def lseg_upd)
  qed
  have "set fs \<inter> set (as @ [i]) = {}" using d by auto
  then have free: "lseg ?h2 (Some i) (i # fs) None" using out [of fs fp] c(2) ib by simp
  have own: "lseg ?h2 (msg_first ?q) (as @ bs) None \<and>
      msg_last ?q = (if as @ bs = [] then None else Some (last (as @ bs)))"
  proof (cases "as = []")
    case True
    have "lseg h ?nx bs None" using l True by simp
    moreover have "set bs \<inter> set (as @ [i]) = {}" using d by auto
    ultimately have "lseg ?h2 ?nx bs None" using out [of bs ?nx] by simp
    moreover have "bs = [] \<longleftrightarrow> ?nx = None" using l True lseg_hd [of h ?nx bs] by auto
    ultimately show ?thesis using pmp True c(5) [OF k] q by (auto simp: unlink_q_def)
  next
    case False
    have "distinct (as @ i # bs)" using d by auto
    then have "lseg ?h1 (msg_first (que ! k)) (as @ bs) None"
      using lseg_unlink [OF l _ False] False pmp by (simp add: unlink_h_def)
    then have "lseg ?h2 (msg_first (que ! k)) (as @ bs) None" using d by (subst lseg_upd) auto
    moreover have "lseg h ?nx bs None" using l by (auto simp: lseg_append)
    then have "bs = [] \<longleftrightarrow> ?nx = None" using lseg_hd [of h ?nx bs] by auto
    ultimately show ?thesis using pmp False c(5) [OF k] q by (auto simp: unlink_q_def)
  qed
  have other: "lseg ?h2 (msg_first (que ! j)) (qs ! j) None" if "j < length que" "j \<noteq> k" for j
  proof -
    have "qs ! j \<in> set A \<union> set B" using list_split_other [OF AB(2) that(2)] that(1) c(1) AB(1) by simp
    then have "set (qs ! j) \<subseteq> set (concat A) \<union> set (concat B)" by auto
    moreover have "(set (concat A) \<union> set (concat B)) \<inter> set (as @ [i]) = {}" using d by auto
    ultimately have "set (qs ! j) \<inter> set (as @ [i]) = {}" by blast
    then show ?thesis using out [of "qs ! j"] c(4) [OF that(1)] by simp
  qed
  have dist: "distinct (concat (qs[k := as @ bs]) @ i # fs)" unfolding AB(3) using d by auto
  show ?thesis by (rule hchains_upd [OF c(1) conjunct1 [OF own] conjunct2 [OF own] other c(5) free dist])
qed

section \<open>Mode bits\<close>

lemma mode_clear [simp]:
  "(m AND NOT MSG_WWAIT) AND IPC_ALLOC = m AND IPC_ALLOC" "(m AND NOT MSG_WWAIT) AND MSG_RWAIT = m AND MSG_RWAIT"
  "(m AND NOT MSG_RWAIT) AND IPC_ALLOC = m AND IPC_ALLOC" "(m AND NOT MSG_RWAIT) AND MSG_WWAIT = m AND MSG_WWAIT"
  "(m AND NOT MSG_WWAIT) AND MSG_WWAIT = 0" "(m AND NOT MSG_RWAIT) AND MSG_RWAIT = 0"
  by (simp_all add: MSG_WWAIT_def MSG_RWAIT_def IPC_ALLOC_def and.assoc)

lemma mode_set [simp]:
  "(m OR MSG_WWAIT) AND IPC_ALLOC = m AND IPC_ALLOC" "(m OR MSG_WWAIT) AND MSG_RWAIT = m AND MSG_RWAIT"
  "(m OR MSG_RWAIT) AND IPC_ALLOC = m AND IPC_ALLOC" "(m OR MSG_RWAIT) AND MSG_WWAIT = m AND MSG_WWAIT"
  "(m OR MSG_WWAIT) AND MSG_WWAIT = MSG_WWAIT" "(m OR MSG_RWAIT) AND MSG_RWAIT = MSG_RWAIT"
  by (simp_all add: MSG_WWAIT_def MSG_RWAIT_def IPC_ALLOC_def bit.conj_disj_distrib2)

text \<open>The complement of the access bits is normalised to a negative number.\<close>

lemma mode_access [simp]:
  "((m AND - 512) OR (x AND ACCBITS)) AND IPC_ALLOC = m AND IPC_ALLOC"
  "((m AND - 512) OR (x AND ACCBITS)) AND MSG_RWAIT = m AND MSG_RWAIT"
  "((m AND - 512) OR (x AND ACCBITS)) AND MSG_WWAIT = m AND MSG_WWAIT" for m x :: ulong
  by (simp_all add: MSG_WWAIT_def MSG_RWAIT_def IPC_ALLOC_def bit.conj_disj_distrib2 and.assoc)

lemma wait_bits [simp]: "MSG_RWAIT \<noteq> 0" "MSG_WWAIT \<noteq> 0"
  by (simp_all add: MSG_RWAIT_def MSG_WWAIT_def)

section \<open>Freeing keeps the invariant\<close>

lemma msg_repD:
  assumes "msg_rep st qs fs"
  shows "msg_params (msg_info st)" "length (msgque st) = nat (sint (mi_msgmni (msg_info st)))"
    "ssz (msg_info st) * unat (mi_msgseg (msg_info st)) \<le> length (msg_pool st)"
    "hchains (msgh st) (msgque st) (msgfp st) qs fs"
    "texts (msg_info st) (msgh st) (msgmap st) (set (concat qs))"
    "k < length (msgque st) \<Longrightarrow> queue_ok (msg_info st) k (msgque st ! k) (qs ! k)"
    "msgfp_cv st \<noteq> [] \<Longrightarrow> msgfp st = None" "length qs = length (msgque st)"
  using assms by (auto simp: msg_rep_def hchains_def)

text \<open>A changed queue that is in order by itself leaves all queues in order.\<close>

lemma queues_upd:
  assumes "\<And>j. j < length que \<Longrightarrow> queue_ok mi j (que ! j) (qs ! j)" "k < length que \<Longrightarrow> queue_ok mi k q xs"
    and "length qs = length que"
  shows "\<forall>j<length (que[k := q]). queue_ok mi j (que[k := q] ! j) (qs[k := xs] ! j)"
proof (intro allI impI)
  fix j assume "j < length (que[k := q])"
  then show "queue_ok mi j (que[k := q] ! j) (qs[k := xs] ! j)" using assms by (cases "j = k") simp_all
qed

lemma unlink_q_ok:
  assumes "queue_ok mi k q (as @ i # bs)"
  shows "queue_ok mi k (unlink_q pmp nx q) (as @ bs)"
  using assms by (auto simp: queue_ok_def unlink_q_def wake_writers_def set_mode_def ipc_used_def)

lemma msgfree_rep:
  assumes rep: "msg_rep st qs fs" and k: "k < length (msgque st)" and q: "qs ! k = as @ i # bs"
    and pmp: "pmp = (if as = [] then None else Some (last as))"
  shows "\<exists>st'. msgfree st k pmp i = Ret st' \<and> msg_rep st' (qs[k := as @ bs]) (i # fs) \<and>
    same_data (msgh st) (msgh st') \<and> msg_info st' = msg_info st \<and> msg_pool st' = msg_pool st \<and>
    msglocks st' = msglocks st \<and> msg_acflag st' = msg_acflag st \<and>
    msgque st' = (msgque st)[k := unlink_q pmp (msg_next (msgh st ! i)) (msgque st ! k)]"
proof -
  note r = msg_repD [OF rep]
  let ?m = "msgh st ! i" and ?mi = "msg_info st"
  let ?h1 = "unlink_h pmp (msg_next ?m) (msgh st)"
  let ?que = "(msgque st)[k := unlink_q pmp (msg_next ?m) (msgque st ! k)]"
  let ?st3 = "st\<lparr>msgh := ?h1, msgque := ?que\<rparr>"
  let ?I = "set (concat qs)" and ?I' = "set (concat (qs[k := as @ bs]))"
  note c = hchainsD [OF r(4)]
  have l: "lseg (msgh st) (msg_first (msgque st ! k)) (as @ i # bs) None" using c(4) [OF k] q by simp
  have ib: "i < length (msgh st)" using lseg_bound [OF l] by simp
  have pb: "p < length (msgh st)" if "pmp = Some p" for p
    using lseg_bound [OF l, of p] that pmp by (auto split: if_splits)
  obtain A B where AB: "qs = A @ (as @ i # bs) # B" "\<And>x. qs[k := x] = A @ x # B"
    using list_split_at [of k qs] k q r(8) by auto
  have I: "i \<in> ?I" using AB(1) by simp
  have I': "?I' = ?I - {i}" unfolding AB(2) using AB(1) c(3) by auto
  have same1: "same_data (msgh st) ?h1" by (cases pmp) (simp_all add: unlink_h_def)
  have same: "same_data (msgh st) (?h1[i := (?h1 ! i)\<lparr>msg_next := msgfp st\<rparr>])"
    by (rule same_data_trans [OF same1 same_data_next])
  have "\<exists>rmp cv. (if msg_ts ?m \<noteq> 0 then free_text ?st3 (ucast (msg_ts ?m)) (scast (msg_spot ?m) + 1) else Ret ?st3) =
      Ret (?st3\<lparr>msgmap := rmp, msgmap_cv := cv\<rparr>) \<and> texts ?mi (msgh st) rmp (?I - {i})"
  proof (cases "msg_ts ?m = 0")
    case True
    have "{j \<in> ?I - {i}. msg_ts (msgh st ! j) \<noteq> 0} = {j \<in> ?I. msg_ts (msgh st ! j) \<noteq> 0}" using True by auto
    then have "texts ?mi (msgh st) (msgmap st) (?I - {i})" using r(5) unfolding texts_def by (simp only: Ball_def Diff_iff) blast
    then show ?thesis using True by (intro exI [of _ "msgmap st"] exI [of _ "msgmap_cv st"]) simp
  next
    case False
    obtain n where n: "btoq ?mi (ucast (msg_ts ?m)) = Ret n"
      using btoq_nseg [OF r(1), of "ucast (msg_ts ?m)"] False unat_bound [of "msg_ts ?m"] by (auto simp: unat_gt_0)
    obtain rmp w where f: "rmfree (msgmap st) n (scast (msg_spot ?m) + 1) = Ret (rmp, w)" "texts ?mi (msgh st) rmp (?I - {i})"
      using text_free [OF r(1,5) I False n] by blast
    then show ?thesis using False n
      by (intro exI [of _ rmp] exI [of _ "if w then [] else msgmap_cv st"]) (simp add: free_text_def)
  qed
  then obtain rmp cv where t: "(if msg_ts ?m \<noteq> 0 then free_text ?st3 (ucast (msg_ts ?m)) (scast (msg_spot ?m) + 1) else Ret ?st3) =
      Ret (?st3\<lparr>msgmap := rmp, msgmap_cv := cv\<rparr>)" "texts ?mi (msgh st) rmp (?I - {i})" by blast
  define st' where "st' = free_header (?st3\<lparr>msgmap := rmp, msgmap_cv := cv\<rparr>) i"
  have fields: "msgh st' = ?h1[i := (?h1 ! i)\<lparr>msg_next := msgfp st\<rparr>]" "msgque st' = ?que" "msgfp st' = Some i" "msgmap st' = rmp"
    "msg_info st' = ?mi" "msg_pool st' = msg_pool st" "msglocks st' = msglocks st" "msg_acflag st' = msg_acflag st"
    "msgfp_cv st' = (if msgfp st = None then [] else msgfp_cv st)"
    by (simp_all add: st'_def free_header_def)
  have "msgfree st k pmp i = Ret st'"
    using msgfree_unfold [OF ib pb k] t(1) by (simp add: Let_def st'_def)
  moreover have "msg_rep st' (qs[k := as @ bs]) (i # fs)"
    unfolding msg_rep_def fields I'
  proof (intro conjI)
    show "hchains (?h1[i := (?h1 ! i)\<lparr>msg_next := msgfp st\<rparr>]) ?que (Some i) (qs[k := as @ bs]) (i # fs)"
      by (rule hchains_free [OF r(4) k q pmp])
    show "texts ?mi (?h1[i := (?h1 ! i)\<lparr>msg_next := msgfp st\<rparr>]) rmp (?I - {i})"
      by (rule texts_same_data [OF t(2) same]) (use hchains_bound [OF r(4)] in blast)
    show "\<forall>j<length ?que. queue_ok ?mi j (?que ! j) (qs[k := as @ bs] ! j)"
      by (rule queues_upd [OF r(6) unlink_q_ok r(8)]) (use r(6) [OF k] q in simp_all)
    show "(if msgfp st = None then [] else msgfp_cv st) \<noteq> [] \<longrightarrow> Some i = None"
      using r(7) by (cases "msgfp_cv st = []") simp_all
  qed (use r in simp_all)
  ultimately show ?thesis using same fields by (intro exI [of _ st']) simp
qed

section \<open>Identifiers\<close>

definition msg_mk :: "int32 \<Rightarrow> nat \<Rightarrow> ulong \<Rightarrow> int32" where
  "msg_mk mni k s = s * mni + of_nat k"

definition msg_idx :: "int32 \<Rightarrow> int32 \<Rightarrow> nat" where
  "msg_idx mni d = unat d mod unat mni"

definition msg_sq :: "int32 \<Rightarrow> int32 \<Rightarrow> ulong" where
  "msg_sq mni d = of_nat (unat d div unat mni)"

definition msg_accept :: "int32 \<Rightarrow> int32 \<Rightarrow> bool" where
  "msg_accept mni d \<longleftrightarrow> 0 < sint mni \<and> sint mni \<le> 1073741824 \<and> 0 \<le> sint d"

definition msg_bump :: "int32 \<Rightarrow> int32 \<Rightarrow> ulong \<Rightarrow> ulong" where
  "msg_bump mni d s = (if sint (d + mni) < 0 then 0 else s + 1)"

lemma mni_nat:
  assumes "0 < sint (mni :: int32)" "sint mni \<le> 1073741824"
  shows "0 < unat mni" "unat mni \<le> 1073741824" "nat (sint mni) = unat mni"
  using assms sint_unat [of mni] by linarith+

lemma msg_mk_unat:
  assumes "seq_ok mni k s"
  shows "unat (msg_mk mni k s) = unat s * unat mni + k" and "0 \<le> sint (msg_mk mni k s)"
proof -
  have lt: "unat s * unat mni + k < 2147483648" using assms by (simp add: seq_ok_def)
  have "msg_mk mni k s = word_of_nat (unat s * unat mni + k)" by (simp add: msg_mk_def)
  then show u: "unat (msg_mk mni k s) = unat s * unat mni + k" using lt by (simp only:) (rule unat_of_nat_small, simp)
  have "unat (msg_mk mni k s) < 2 ^ (LENGTH(32) - 1)" unfolding u using lt by simp
  from sint_of_unat_small [OF this] show "0 \<le> sint (msg_mk mni k s)" by simp
qed

lemma msg_sq_unat: "unat (msg_sq mni d) = unat d div unat mni"
proof -
  have "unat d div unat mni < 2 ^ LENGTH(32)"
    using unat_bound [of d] by (meson div_le_dividend le_less_trans)
  then show ?thesis unfolding msg_sq_def by (rule unat_of_nat_small)
qed

lemma id_parts:
  assumes "0 \<le> sint d"
  shows "unat (msg_sq mni d) * unat mni + msg_idx mni d = unat d" and "seq_ok mni (msg_idx mni d) (msg_sq mni d)"
    and "msg_mk mni (msg_idx mni d) (msg_sq mni d) = d"
proof -
  show e: "unat (msg_sq mni d) * unat mni + msg_idx mni d = unat d"
    by (simp add: msg_sq_unat msg_idx_def)
  have "unat d < 2147483648" by (rule unat_of_sint_nonneg [OF assms])
  then show s: "seq_ok mni (msg_idx mni d) (msg_sq mni d)" by (simp add: seq_ok_def e)
  show "msg_mk mni (msg_idx mni d) (msg_sq mni d) = d" unfolding word_unat_eq_iff msg_mk_unat(1) [OF s] e ..
qed

text \<open>Removal through an identifier moves the sequence number on, or back to 0 when the next
  identifier of the entry would be negative.\<close>

lemma msg_bump_cases:
  assumes "msg_accept mni d"
  shows "if unat d + unat mni < 2147483648 then unat (msg_bump mni d (msg_sq mni d)) = unat (msg_sq mni d) + 1
    else msg_bump mni d (msg_sq mni d) = 0 \<and> msg_sq mni d \<noteq> 0"
proof -
  have a: "0 < sint mni" "sint mni \<le> 1073741824" "0 \<le> sint d" using assms by (simp_all add: msg_accept_def)
  note m = mni_nat [OF a(1,2)]
  have d: "unat d < 2147483648" by (rule unat_of_sint_nonneg [OF a(3)])
  have u: "unat (d + mni) = unat d + unat mni" using d m by (intro unat_add_nowrap) simp
  have pos: "msg_sq mni d \<noteq> 0" if "\<not> unat d + unat mni < 2147483648"
  proof
    assume "msg_sq mni d = 0"
    then have "unat d = msg_idx mni d" using id_parts(1) [OF a(3), of mni] by simp
    moreover have "msg_idx mni d < unat mni" using m(1) by (simp add: msg_idx_def)
    ultimately have "unat d < unat mni" by linarith
    then show False using that m by linarith
  qed
  show ?thesis
  proof (cases "unat d + unat mni < 2147483648")
    case True
    then have "sint (d + mni) = int (unat (d + mni))" unfolding u [symmetric] by (intro sint_of_unat_small) simp
    then have b: "msg_bump mni d (msg_sq mni d) = msg_sq mni d + 1" by (simp add: msg_bump_def)
    have "unat (msg_sq mni d) \<le> unat d" by (simp add: msg_sq_unat)
    then have "unat (msg_sq mni d + 1) = unat (msg_sq mni d) + 1" using d by (subst unat_add_nowrap) simp_all
    then show ?thesis using b True by simp
  next
    case False
    then have "\<not> 0 \<le> sint (d + mni)"
      using unat_of_sint_nonneg [of "d + mni"] u by linarith
    then show ?thesis using False pos by (simp add: msg_bump_def)
  qed
qed

interpretation mid: ipc_ids "nat (sint mni)" "msg_mk mni" "msg_idx mni" "msg_sq mni" "msg_accept mni"
    "\<lambda>k s. sint mni \<le> 1073741824 \<and> seq_ok mni k s" "msg_bump mni" for mni :: int32
proof (unfold_locales, goal_cases)
  case (1 i s)
  then have m: "0 < sint mni" "sint mni \<le> 1073741824" "seq_ok mni i s" by auto
  note u = msg_mk_unat [OF m(3)]
  have i: "i < unat mni" using 1 mni_nat [OF m(1,2)] by simp
  have "msg_idx mni (msg_mk mni i s) = i" using i by (simp add: msg_idx_def u)
  moreover have "unat (msg_sq mni (msg_mk mni i s)) = unat s" using i by (simp add: msg_sq_unat u)
  then have "msg_sq mni (msg_mk mni i s) = s" by (simp only: word_unat_eq_iff)
  ultimately show ?case using m u(2) by (simp add: msg_accept_def)
next
  case (2 d)
  then show ?case using mni_nat [of mni] by (simp add: msg_accept_def msg_idx_def)
next
  case (3 d)
  then have a: "0 \<le> sint d" "sint mni \<le> 1073741824" "0 < sint mni" by (auto simp: msg_accept_def)
  have "msg_idx mni d < unat mni" using mni_nat [OF a(3,2)] by (simp add: msg_idx_def)
  then have i: "msg_idx mni d < 2147483648" using mni_nat [OF a(3,2)] by linarith
  show ?case using msg_bump_cases [OF 3(1)] id_parts(1) [OF a(1), of mni] a(2) i
    by (auto simp: seq_ok_def algebra_simps split: if_splits)
next
  case (4 d)
  then show ?case using msg_bump_cases [OF 4(1)] by (auto split: if_splits)
qed

section \<open>Looking a queue up\<close>

definition msg_find :: "msg_state \<Rightarrow> int32 \<Rightarrow> nat option" where
  "msg_find st d =
    (if 0 \<le> sint d \<and> ipc_used (msg_perm (msgque st ! msg_idx (mi_msgmni (msg_info st)) d)) \<and>
        perm_seq (msg_perm (msgque st ! msg_idx (mi_msgmni (msg_info st)) d)) = msg_sq (mi_msgmni (msg_info st)) d
     then Some (msg_idx (mi_msgmni (msg_info st)) d) else None)"

definition msg_locked :: "msg_state \<Rightarrow> nat \<Rightarrow> msg_state" where
  "msg_locked st k = upd_l st k (\<lambda>l. l\<lparr>msglock_lock := 1\<rparr>)"

lemma msg_find_entry:
  assumes "msg_params (msg_info st)" "length (msgque st) = nat (sint (mi_msgmni (msg_info st)))"
  shows "msg_find st d = mid.entry (mi_msgmni (msg_info st)) (map msg_perm (msgque st)) d"
proof -
  let ?n = "mi_msgmni (msg_info st)"
  have m: "0 < sint ?n" "sint ?n \<le> 1073741824" using assms(1) by (simp_all add: msg_params_def)
  have "msg_idx ?n d < length (msgque st)" using mni_nat [OF m] assms(2) by (simp add: msg_idx_def)
  then show ?thesis using m by (auto simp: msg_find_def mid.entry_def msg_accept_def)
qed

lemma msg_find_bound:
  assumes "msg_params (msg_info st)" "length (msgque st) = nat (sint (mi_msgmni (msg_info st)))" "msg_find st d = Some k"
  shows "k < length (msgque st)" "ipc_used (msg_perm (msgque st ! k))" "0 \<le> sint d"
    "k = msg_idx (mi_msgmni (msg_info st)) d" "perm_seq (msg_perm (msgque st ! k)) = msg_sq (mi_msgmni (msg_info st)) d"
proof -
  let ?n = "mi_msgmni (msg_info st)"
  have m: "0 < sint ?n" "sint ?n \<le> 1073741824" using assms(1) by (simp_all add: msg_params_def)
  show "k < length (msgque st)" using mni_nat [OF m] assms(2,3) by (auto simp: msg_find_def msg_idx_def split: if_splits)
qed (use assms(3) in \<open>auto simp: msg_find_def split: if_splits\<close>)

lemma idle_lock_reset [simp]: "l\<lparr>msglock_lock := 0, msglock_cv := []\<rparr> = idle_lock" for l :: msglock
  by (simp add: idle_lock_def)

lemma unlock_locked: "k < length (msglocks st) \<Longrightarrow> msglocks st ! k = idle_lock \<Longrightarrow> msg_unlock (msg_locked st k) k = st"
  using list_update_id [of "msglocks st" k] by (simp add: msg_unlock_def msg_locked_def upd_l_def)

text \<open>With no queue locked, the lookup does not sleep: it returns with the queue locked or
  leaves the state as it was.\<close>

lemma msgconv_spec:
  assumes p: "msg_params (msg_info st)" and len: "length (msgque st) = nat (sint (mi_msgmni (msg_info st)))" and idle: "locks_idle st"
  shows "msgconv st c d = Ret (case msg_find st d of None \<Rightarrow> (Conv_err EINVAL, st) | Some k \<Rightarrow> (Conv_ok k, msg_locked st k))"
proof (cases "0 \<le> sint d")
  case True
  let ?n = "mi_msgmni (msg_info st)"
  have m: "0 < sint ?n" "sint ?n \<le> 1073741824" using p by (simp_all add: msg_params_def)
  note mn = mni_nat [OF m]
  have sn: "sint ?n = int (unat ?n)" using m(1) by (intro sint_unat) simp
  have k: "nat (sint d smod sint ?n) = msg_idx ?n d" "(word_of_int (sint d sdiv sint ?n) :: ulong) = msg_sq ?n d"
    unfolding sn sint_unat [OF True] smod_nat sdiv_nat by (simp_all add: msg_idx_def msg_sq_def)
  have b: "msg_idx ?n d < length (msgque st)" using mn len by (simp add: msg_idx_def)
  have l: "msglocks st ! msg_idx ?n d = idle_lock" "msg_idx ?n d < length (msglocks st)"
    using idle b by (simp_all add: locks_idle_def)
  have nz: "?n \<noteq> 0" using m by auto
  show ?thesis
    unfolding msgconv_def k Let_def
    using True nz b l unlock_locked [OF l(2,1)]
    by (auto simp: msg_find_def ipc_used_def msg_locked_def idle_lock_def)
qed (simp add: msgconv_def msg_find_def)

section \<open>Frames\<close>

lemma msg_rep_frame:
  assumes "msg_rep st qs fs" "msg_info st' = msg_info st" "length (msg_pool st') = length (msg_pool st)" "msgh st' = msgh st"
    "msgque st' = msgque st" "msgfp st' = msgfp st" "msgmap st' = msgmap st" "msgfp_cv st' = msgfp_cv st"
  shows "msg_rep st' qs fs"
  using assms by (simp add: msg_rep_def)

lemma msg_rep_upd_q:
  assumes rep: "msg_rep st qs fs" and "msg_first (f (msgque st ! k)) = msg_first (msgque st ! k)"
    "msg_last (f (msgque st ! k)) = msg_last (msgque st ! k)"
    and ok: "k < length (msgque st) \<Longrightarrow> queue_ok (msg_info st) k (f (msgque st ! k)) (qs ! k)"
  shows "msg_rep (upd_q st k f) qs fs"
proof -
  note r = msg_repD [OF rep]
  let ?que = "(msgque st)[k := f (msgque st ! k)]"
  have "\<forall>j<length ?que. queue_ok (msg_info st) j (?que ! j) (qs[k := qs ! k] ! j)"
    by (rule queues_upd) (use r(6,8) ok in simp_all)
  moreover have "msg_first (?que ! j) = msg_first (msgque st ! j) \<and> msg_last (?que ! j) = msg_last (msgque st ! j)" for j
  proof (cases "j = k \<and> k < length (msgque st)")
    case True
    then show ?thesis using assms(2,3) by (simp only: nth_list_update_eq)
  next
    case False
    then have "?que ! j = msgque st ! j" by (cases "j = k") (simp_all add: list_update_beyond)
    then show ?thesis by simp
  qed
  then have "hchains (msgh st) ?que (msgfp st) qs fs" using r(4) by (simp add: hchains_def)
  ultimately show ?thesis using rep by (simp add: msg_rep_def)
qed

lemma message_same:
  assumes "same_data (msgh st) (msgh st')" "msg_info st' = msg_info st" "msg_pool st' = msg_pool st" "i < length (msgh st)"
  shows "message st' i = message st i"
  using assms by (simp add: message_def same_data_def spot_of_def)

lemma msgs_rep: "msg_rep st qs fs \<Longrightarrow> k < length (msgque st) \<Longrightarrow> msgs st k = map (message st) (qs ! k)"
  by (simp add: msgs_def hdrs_rep)

text \<open>What a step leaves of the messages of every queue, in terms of the represented lists.\<close>

lemma msgs_same:
  assumes "msg_rep st qs fs" "msg_rep st' qs' fs'" "same_data (msgh st) (msgh st')" "msg_info st' = msg_info st"
    "msg_pool st' = msg_pool st" "k < length (msgque st)" "set (qs' ! k) \<subseteq> set (concat qs)"
  shows "msgs st' k = map (message st) (qs' ! k)"
proof -
  have "length (msgque st') = length (msgque st)" using msg_repD(2) [OF assms(1)] msg_repD(2) [OF assms(2)] assms(4) by simp
  then have "msgs st' k = map (message st') (qs' ! k)" using assms(6) by (intro msgs_rep [OF assms(2)]) simp
  also have "\<dots> = map (message st) (qs' ! k)"
    using assms(7) hchains_bound [OF msg_repD(4) [OF assms(1)]] by (intro map_cong message_same [OF assms(3-5)]) auto
  finally show ?thesis .
qed

lemma text_length:
  assumes rep: "msg_rep st qs fs" and i: "i \<in> set (concat qs)"
  shows "length (snd (message st i)) = unat (msg_ts (msgh st ! i))"
    and "msg_ts (msgh st ! i) \<noteq> 0 \<Longrightarrow> ssz (msg_info st) * spot_of (msgh st ! i) + unat (msg_ts (msgh st ! i)) \<le> length (msg_pool st)"
    and "msg_ts (msgh st ! i) \<noteq> 0 \<Longrightarrow> n \<le> unat (msg_ts (msgh st ! i)) \<Longrightarrow>
      pool_get st (sint (msg_spot (msgh st ! i))) n = Ret (take n (snd (message st i)))"
proof -
  note r = msg_repD [OF rep]
  let ?m = "msgh st ! i" and ?mi = "msg_info st"
  have fit: "ssz ?mi * spot_of ?m + unat (msg_ts ?m) \<le> length (msg_pool st)" "0 \<le> sint (msg_spot ?m)" if "msg_ts ?m \<noteq> 0"
  proof -
    have t: "0 \<le> sint (msg_spot ?m)" "spot_of ?m + nseg ?mi (unat (msg_ts ?m)) \<le> unat (mi_msgseg ?mi)"
      using r(5) i that by (auto simp: texts_def)
    have "unat (msg_ts ?m) \<le> nseg ?mi (unat (msg_ts ?m)) * ssz ?mi"
      using btoq_nseg [OF r(1), of "ucast (msg_ts ?m)"] that unat_bound [of "msg_ts ?m"] by (auto simp: unat_gt_0)
    then have "ssz ?mi * spot_of ?m + unat (msg_ts ?m) \<le> ssz ?mi * (spot_of ?m + nseg ?mi (unat (msg_ts ?m)))"
      by (simp add: algebra_simps)
    also have "\<dots> \<le> ssz ?mi * unat (mi_msgseg ?mi)" using t(2) by (rule mult_le_mono2)
    finally show "ssz ?mi * spot_of ?m + unat (msg_ts ?m) \<le> length (msg_pool st)" "0 \<le> sint (msg_spot ?m)"
      using r(3) t by simp_all
  qed
  then show "length (snd (message st i)) = unat (msg_ts ?m)" by (auto simp: message_def)
  assume nz: "msg_ts ?m \<noteq> 0"
  show "ssz ?mi * spot_of ?m + unat (msg_ts ?m) \<le> length (msg_pool st)" by (rule fit(1) [OF nz])
  assume n: "n \<le> unat (msg_ts ?m)"
  have "0 < sint (mi_msgssz ?mi)" using r(1) by (simp add: msg_params_def)
  then have "sint (mi_msgssz ?mi) = int (ssz ?mi)" by (intro sint_unat) simp
  moreover have "sint (msg_spot ?m) = int (spot_of ?m)" using fit(2) [OF nz] by (simp add: spot_of_def)
  ultimately have off: "sint (mi_msgssz ?mi) * sint (msg_spot ?m) = int (ssz ?mi * spot_of ?m)" by simp
  show "pool_get st (sint (msg_spot ?m)) n = Ret (take n (snd (message st i)))"
    unfolding pool_get_def off Let_def nat_int using fit(1) [OF nz] n nz
    by (simp add: message_def min_def del: of_nat_mult)
qed

lemma msg_good_frame:
  assumes "msg_good st qs fs" "msg_info st' = msg_info st" "length (msg_pool st') = length (msg_pool st)" "msgh st' = msgh st"
    "msgque st' = msgque st" "msgfp st' = msgfp st" "msgmap st' = msgmap st" "msgfp_cv st' = msgfp_cv st"
  shows "msg_good st' qs fs"
  using assms msg_rep_frame [of st qs fs st'] by (simp add: msg_good_def)

lemma msg_goodD:
  assumes "msg_good st qs fs"
  shows "msg_rep st qs fs" "k < length (msgque st) \<Longrightarrow> bytes_ok (msgh st) (msgque st ! k) (qs ! k)"
    "msg_params (msg_info st)" "length (msgque st) = nat (sint (mi_msgmni (msg_info st)))" "length qs = length (msgque st)"
    "k < length (msgque st) \<Longrightarrow> queue_ok (msg_info st) k (msgque st ! k) (qs ! k)"
  using assms by (auto simp: msg_good_def dest: msg_repD)

lemma msg_good_upd_q:
  assumes good: "msg_good st qs fs" and "msg_first (f (msgque st ! k)) = msg_first (msgque st ! k)"
    "msg_last (f (msgque st ! k)) = msg_last (msgque st ! k)" "msg_cbytes (f (msgque st ! k)) = msg_cbytes (msgque st ! k)"
    and ok: "k < length (msgque st) \<Longrightarrow> queue_ok (msg_info st) k (f (msgque st ! k)) (qs ! k)"
  shows "msg_good (upd_q st k f) qs fs"
proof -
  have "bytes_ok (msgh st) ((msgque st)[k := f (msgque st ! k)] ! j) (qs ! j)" if "j < length (msgque st)" for j
    using msg_goodD(2) [OF good that] assms(4) that by (cases "j = k") (simp_all add: bytes_ok_def)
  moreover have "msg_rep (upd_q st k f) qs fs" by (rule msg_rep_upd_q [OF msg_goodD(1) [OF good]]) fact+
  ultimately show ?thesis by (simp add: msg_good_def)
qed

lemma msg_unlock_simps [simp]:
  "msg_info (msg_unlock st k) = msg_info st" "msg_pool (msg_unlock st k) = msg_pool st" "msgmap (msg_unlock st k) = msgmap st"
  "msgmap_cv (msg_unlock st k) = msgmap_cv st" "msgh (msg_unlock st k) = msgh st" "msgque (msg_unlock st k) = msgque st"
  "msgfp (msg_unlock st k) = msgfp st" "msgfp_cv (msg_unlock st k) = msgfp_cv st" "msg_acflag (msg_unlock st k) = msg_acflag st"
  "msglocks (msg_unlock st k) = (msglocks st)[k := idle_lock]"
  by (simp_all add: msg_unlock_def)

lemma msg_locked_simps [simp]:
  "msg_info (msg_locked st k) = msg_info st" "msg_pool (msg_locked st k) = msg_pool st" "msgmap (msg_locked st k) = msgmap st"
  "msgmap_cv (msg_locked st k) = msgmap_cv st" "msgh (msg_locked st k) = msgh st" "msgque (msg_locked st k) = msgque st"
  "msgfp (msg_locked st k) = msgfp st" "msgfp_cv (msg_locked st k) = msgfp_cv st" "msg_acflag (msg_locked st k) = msg_acflag st"
  by (simp_all add: msg_locked_def)

lemma msgs_frame:
  assumes "msgh st' = msgh st" "msg_first (msgque st' ! k) = msg_first (msgque st ! k)" "msg_info st' = msg_info st" "msg_pool st' = msg_pool st"
  shows "msgs st' k = msgs st k"
  using assms by (simp add: msgs_def hdrs_def message_def)

lemma msg_wfD:
  assumes "msg_wf st"
  shows "msg_params (msg_info st)" "length (msgque st) = nat (sint (mi_msgmni (msg_info st)))" "locks_idle st"
  using assms by (auto simp: msg_wf_def msg_good_def msg_rep_def)

lemma idle_again:
  assumes "locks_idle st" "k < length (msgque st)" "msglocks st1 = msglocks (msg_locked st k)" "length (msgque st1) = length (msgque st)"
  shows "locks_idle (msg_unlock st1 k)"
proof -
  have "(replicate n x)[k := y, k := x] = replicate n x" for n and x y :: msglock
    using list_update_id [of "replicate n x" k] by (cases "k < n") (simp_all add: list_update_beyond)
  then show ?thesis using assms by (simp add: locks_idle_def msg_locked_def)
qed

text \<open>The state in which the body of a call runs, and the state it is left in.\<close>

lemma msg_wf_unlock:
  assumes "msg_wf st" "k < length (msgque st)" "msglocks st1 = msglocks (msg_locked st k)" "length (msgque st1) = length (msgque st)"
    "msg_good st1 qs fs"
  shows "msg_wf (msg_unlock st1 k)"
proof -
  have "msg_good (msg_unlock st1 k) qs fs" by (rule msg_good_frame [OF assms(5)]) simp_all
  then show ?thesis using idle_again [OF msg_wfD(3) [OF assms(1)] assms(2-4)] by (auto simp: msg_wf_def)
qed

lemma msg_wf_unlocked: "msg_wf st \<Longrightarrow> k < length (msgque st) \<Longrightarrow> msg_unlock (msg_locked st k) k = st"
  using msg_wfD(3) [of st] by (intro unlock_locked) (simp_all add: locks_idle_def)

lemma msg_wf_frame:
  assumes "msg_wf st" "msg_info st' = msg_info st" "length (msg_pool st') = length (msg_pool st)" "msgh st' = msgh st"
    "msgque st' = msgque st" "msgfp st' = msgfp st" "msgmap st' = msgmap st" "msgfp_cv st' = msgfp_cv st" "msglocks st' = msglocks st"
  shows "msg_wf st'"
proof -
  obtain qs fs where "msg_good st qs fs" using assms(1) by (auto simp: msg_wf_def)
  from msg_good_frame [OF this assms(2-8)] show ?thesis using assms(1,5,9) by (auto simp: msg_wf_def locks_idle_def)
qed

lemma msgconv_wf:
  assumes "msg_wf st"
  shows "msgconv st c d = Ret (case msg_find st d of None \<Rightarrow> (Conv_err EINVAL, st) | Some k \<Rightarrow> (Conv_ok k, msg_locked st k))"
  by (rule msgconv_spec [OF msg_wfD [OF assms]])

lemma msg_again_wf:
  assumes "msg_wf st"
  shows "msg_again st c d k body =
    (case msg_find st d of None \<Rightarrow> msg_fail EIDRM st
     | Some k1 \<Rightarrow> if k1 = k then body (msg_locked st k) else msg_fail EIDRM st)"
proof (cases "msg_find st d")
  case (Some k1)
  have "msg_unlock (msg_locked st k1) k1 = st"
    by (rule msg_wf_unlocked [OF assms msg_find_bound(1) [OF msg_wfD(1,2) [OF assms] Some]])
  then show ?thesis by (simp add: msg_again_def msgconv_wf [OF assms] Some)
qed (simp add: msg_again_def msgconv_wf [OF assms])

lemma queue_in_heap:
  assumes "msg_rep st qs fs" "j < length (msgque st)" "x \<in> set (qs ! j)"
  shows "x < length (msgh st)" "x \<in> set (concat qs)"
proof -
  show "x \<in> set (concat qs)" using set_nth_concat [of j qs] assms msg_repD(8) [OF assms(1)] by auto
  then show "x < length (msgh st)" by (rule hchains_bound [OF msg_repD(4) [OF assms(1)]])
qed

lemma bytes_ok_same:
  assumes "bytes_ok h q xs" "same_data h h'" "\<And>x. x \<in> set xs \<Longrightarrow> x < length h" "msg_cbytes q' = msg_cbytes q"
  shows "bytes_ok h' q' xs"
proof -
  have "map (\<lambda>x. ucast (msg_ts (h' ! x)) :: ulong) xs = map (\<lambda>x. ucast (msg_ts (h ! x))) xs"
    by (intro map_cong refl) (use assms(2,3) in \<open>simp add: same_data_def\<close>)
  then show ?thesis using assms(1,4) unfolding bytes_ok_def by (simp only:)
qed

section \<open>What a waiting receiver depends on\<close>

text \<open>The receivers asleep on a queue, and what decides whether an identifier still names it.\<close>

definition rview :: "msqid_ds \<Rightarrow> nat list \<times> ulong \<times> bool" where
  "rview q = (msg_qnum_cv q, perm_seq (msg_perm q), ipc_used (msg_perm q))"

definition same_rview :: "msg_state \<Rightarrow> msg_state \<Rightarrow> bool" where
  "same_rview st st' \<longleftrightarrow> length (msgque st') = length (msgque st) \<and>
     (\<forall>j<length (msgque st). rview (msgque st' ! j) = rview (msgque st ! j))"

definition rview_woken :: "msg_state \<Rightarrow> nat \<Rightarrow> msg_state \<Rightarrow> bool" where
  "rview_woken st k st' \<longleftrightarrow> length (msgque st') = length (msgque st) \<and>
     (\<forall>j<length (msgque st). rview (msgque st' ! j) = (if j = k then ([], snd (rview (msgque st ! j))) else rview (msgque st ! j)))"

lemma same_rview_refl [simp]: "same_rview st st"
  by (simp add: same_rview_def)

lemma same_rviewI: "msgque st' = msgque st \<Longrightarrow> same_rview st st'"
  by (simp add: same_rview_def)

lemma same_rview_trans: "same_rview st st1 \<Longrightarrow> same_rview st1 st2 \<Longrightarrow> same_rview st st2"
  by (simp add: same_rview_def)

lemma same_rview_upd:
  assumes "msgque st' = (msgque st)[k := q]" "k < length (msgque st) \<Longrightarrow> rview q = rview (msgque st ! k)"
  shows "same_rview st st'"
proof -
  have "rview (msgque st' ! j) = rview (msgque st ! j)" if "j < length (msgque st)" for j
    using assms that by (cases "j = k") simp_all
  then show ?thesis using assms(1) by (simp add: same_rview_def)
qed

lemma msg_find_rview:
  assumes "same_rview st st'" "msg_info st' = msg_info st" "msg_params (msg_info st)" "length (msgque st) = nat (sint (mi_msgmni (msg_info st)))"
  shows "msg_find st' d = msg_find st d"
proof -
  let ?n = "mi_msgmni (msg_info st)"
  have m: "0 < sint ?n" "sint ?n \<le> 1073741824" using assms(3) by (simp_all add: msg_params_def)
  have "msg_idx ?n d < length (msgque st)" using mni_nat [OF m] assms(4) by (simp add: msg_idx_def)
  then have "rview (msgque st' ! msg_idx ?n d) = rview (msgque st ! msg_idx ?n d)" using assms(1) by (simp add: same_rview_def)
  then show ?thesis using assms(2) by (simp add: msg_find_def rview_def)
qed

end
