(* ===== verification/Msg_Rcv.thy ===== *)
theory Msg_Rcv
  imports Msg_Inv
begin

text \<open>
  Receiving: the choice of a message among those on the queue, as the manual describes it, and that
  the search of \<open>msgrcv\<close> through the linked list makes it; then what \<open>msgrcv\<close> does to the queues.
\<close>

section \<open>The choice of a message\<close>

text \<open>
  The first message for type 0, the first one of a positive type, and for a negative type the first
  among those of the lowest type, if that does not exceed the absolute value.
\<close>

definition lowest :: "int \<Rightarrow> int list \<Rightarrow> nat option" where
  "lowest b ts = first_idx (\<lambda>t. t \<le> b \<and> (\<forall>u\<in>set ts. t \<le> u)) ts"

definition msg_select :: "int32 \<Rightarrow> int32 list \<Rightarrow> nat option" where
  "msg_select typ ts =
    (if typ = 0 then (if ts = [] then None else Some 0)
     else if sint typ > 0 then first_idx (\<lambda>t. t = typ) ts
     else lowest (sint (- typ)) (map sint ts))"

lemma lowest_None: "lowest b ts = None \<longleftrightarrow> (\<forall>t\<in>set ts. b < t)"
proof
  assume n: "lowest b ts = None"
  show "\<forall>t\<in>set ts. b < t"
  proof (rule ccontr)
    assume "\<not> (\<forall>t\<in>set ts. b < t)"
    then obtain t where t: "t \<in> set ts" "t \<le> b" by auto
    have fin: "finite (set ts)" "set ts \<noteq> {}" using t by auto
    then obtain j where j: "j < length ts" "ts ! j = Min (set ts)" using Min_in [OF fin] by (auto simp: in_set_conv_nth)
    have "ts ! j \<le> b" "\<forall>u\<in>set ts. ts ! j \<le> u" using j fin t Min_le [OF fin(1)] by fastforce+
    then show False using n j by (auto simp: lowest_def first_idx_None_iff)
  qed
next
  assume "\<forall>t\<in>set ts. b < t"
  then show "lowest b ts = None" unfolding lowest_def first_idx_None_iff using nth_mem by fastforce
qed

lemma lowest_Some:
  "lowest b ts = Some j \<longleftrightarrow> j < length ts \<and> ts ! j \<le> b \<and> (\<forall>u\<in>set ts. ts ! j \<le> u) \<and> (\<forall>i<j. ts ! j < ts ! i)"
proof (cases "j < length ts \<and> ts ! j \<le> b \<and> (\<forall>u\<in>set ts. ts ! j \<le> u)")
  case True
  then have "ts ! i \<le> b \<and> (\<forall>u\<in>set ts. ts ! i \<le> u) \<longleftrightarrow> \<not> ts ! j < ts ! i" if "i < j" for i
    using that nth_mem [of i ts] nth_mem [of j ts] by fastforce
  then show ?thesis using True by (auto simp: lowest_def first_idx_Some_iff)
qed (auto simp: lowest_def first_idx_Some_iff)

text \<open>How the choice changes when one more message is looked at.\<close>

lemma lowest_snoc:
  "lowest b (ts @ [x]) =
    (if x \<le> b \<and> (\<forall>j. lowest b ts = Some j \<longrightarrow> x < ts ! j) then Some (length ts) else lowest b ts)"
proof (cases "lowest b ts")
  case None
  then have "\<forall>t\<in>set ts. b < t" by (simp add: lowest_None)
  then have "lowest b (ts @ [x]) = Some (length ts)" if "x \<le> b"
    unfolding lowest_Some using that nth_mem by (fastforce simp: nth_append)
  moreover have "lowest b (ts @ [x]) = None" if "\<not> x \<le> b"
    unfolding lowest_None using that \<open>\<forall>t\<in>set ts. b < t\<close> by auto
  ultimately show ?thesis using None by simp
next
  case (Some j)
  then have j: "j < length ts" "ts ! j \<le> b" "\<forall>u\<in>set ts. ts ! j \<le> u" "\<forall>i<j. ts ! j < ts ! i"
    by (simp_all add: lowest_Some)
  show ?thesis
  proof (cases "x < ts ! j")
    case True
    then have "lowest b (ts @ [x]) = Some (length ts)"
      unfolding lowest_Some using j by (fastforce simp: nth_append dest: nth_mem)
    then show ?thesis using True Some j(2) by simp
  next
    case False
    then have "lowest b (ts @ [x]) = Some j"
      unfolding lowest_Some using j by (auto simp: nth_append)
    then show ?thesis using False Some by simp
  qed
qed

section \<open>The search through the list\<close>

definition prev :: "nat list \<Rightarrow> nat \<Rightarrow> nat option" where
  "prev xs j = (if j = 0 then None else Some (xs ! (j - 1)))"

definition hits :: "nat list \<Rightarrow> nat option \<Rightarrow> nat option \<times> nat option" where
  "hits xs r = (case r of None \<Rightarrow> (None, None) | Some j \<Rightarrow> (Some (xs ! j), prev xs j))"

lemma prev_append: "j \<le> length xs \<Longrightarrow> prev (xs @ ys) j = prev xs j"
  by (auto simp: prev_def nth_append)

lemma scan_pos:
  assumes "sint typ > 0" "lseg h p xs None" "length xs \<le> n" "pmp = prev as (length as)"
  shows "msgrcv_scan n h typ pmp p None None =
    Ret (hits (as @ xs) (map_option ((+) (length as)) (first_idx (\<lambda>i. msg_type (h ! i) = typ) xs)))"
  using assms(2-4)
proof (induction xs arbitrary: p n pmp as)
  case (Cons x xs)
  obtain n' where n: "n = Suc n'" using Cons.prems(2) by (cases n) auto
  show ?case
  proof (cases "msg_type (h ! x) = typ")
    case True
    then show ?thesis using Cons.prems assms(1) n by (simp add: hits_def prev_append)
  next
    case False
    have "Some x = prev (as @ [x]) (length (as @ [x]))" by (simp add: prev_def)
    from Cons.IH [OF _ _ this, of "msg_next (h ! x)" n'] show ?thesis
      using Cons.prems False assms(1) n
      by (cases "first_idx (\<lambda>i. msg_type (h ! i) = typ) xs") (auto simp: add.commute)
  qed
qed (simp add: hits_def)

lemma scan_neg:
  assumes neg: "sint typ < 0" and "lseg h p xs None" "length xs \<le> n" "pmp = prev as (length as)"
    and "(smp, spmp) = hits as (lowest (sint (- typ)) (map (\<lambda>i. sint (msg_type (h ! i))) as))"
  shows "msgrcv_scan n h typ pmp p smp spmp =
    Ret (hits (as @ xs) (lowest (sint (- typ)) (map (\<lambda>i. sint (msg_type (h ! i))) (as @ xs))))"
  using assms(2-5)
proof (induction xs arbitrary: p n pmp as smp spmp)
  case Nil
  then show ?case by simp
next
  case (Cons x xs)
  let ?b = "sint (- typ)" and ?ty = "\<lambda>i. sint (msg_type (h ! i))"
  obtain n' where n: "n = Suc n'" using Cons.prems(2) by (cases n) auto
  let ?L = "lowest ?b (map ?ty as)"
  have better: "(\<exists>s\<in>set_option smp. ?ty s \<le> ?ty x) \<longleftrightarrow> \<not> (\<forall>j. ?L = Some j \<longrightarrow> ?ty x < map ?ty as ! j)"
  proof (cases ?L)
    case None
    then show ?thesis using Cons.prems(4) by (simp add: hits_def)
  next
    case (Some j)
    then have "j < length as" by (simp add: lowest_Some)
    then show ?thesis using Some Cons.prems(4) by (auto simp: hits_def)
  qed
  let ?r = "if ?ty x \<le> ?b \<and> \<not> (\<exists>s\<in>set_option smp. ?ty s \<le> ?ty x) then (Some x, pmp) else (smp, spmp)"
  have hit: "hits (as @ [x]) (lowest ?b (map ?ty (as @ [x]))) = ?r"
  proof (cases "?ty x \<le> ?b \<and> \<not> (\<exists>s\<in>set_option smp. ?ty s \<le> ?ty x)")
    case True
    then have "lowest ?b (map ?ty (as @ [x])) = Some (length as)" using better by (simp add: lowest_snoc)
    then show ?thesis using True Cons.prems(3) by (simp add: hits_def prev_append)
  next
    case False
    then have e: "lowest ?b (map ?ty (as @ [x])) = ?L" using better by (auto simp: lowest_snoc)
    have "hits (as @ [x]) ?L = hits as ?L"
    proof (cases ?L)
      case (Some j)
      then have "j < length as" by (simp add: lowest_Some)
      then show ?thesis unfolding Some by (simp add: hits_def nth_append prev_append)
    qed (simp add: hits_def)
    then show ?thesis using False e Cons.prems(4) by auto
  qed
  have "Some x = prev (as @ [x]) (length (as @ [x]))" by (simp add: prev_def)
  from Cons.IH [OF _ _ this, of "msg_next (h ! x)" n' "fst ?r" "snd ?r"] hit
  have ih: "msgrcv_scan n' h typ (Some x) (msg_next (h ! x)) (fst ?r) (snd ?r) =
      Ret (hits (as @ x # xs) (lowest ?b (map ?ty (as @ x # xs))))"
    using Cons.prems(1,2) n by simp
  have "msgrcv_scan n h typ pmp p smp spmp = msgrcv_scan n' h typ (Some x) (msg_next (h ! x)) (fst ?r) (snd ?r)"
    using Cons.prems(1) neg n by auto
  then show ?case using ih by simp
qed

lemma msgrcv_find_select:
  assumes rep: "msg_rep st qs fs" and k: "k < length (msgque st)"
  shows "msgrcv_find st k typ = Ret (hits (qs ! k) (msg_select typ (map fst (msgs st k))))"
proof -
  have ch: "hchains (msgh st) (msgque st) (msgfp st) qs fs" using msg_repD(4) [OF rep] .
  note l = hchainsD(4) [OF ch k]
  have h: "hdrs st k = qs ! k" by (rule hdrs_rep [OF rep k])
  have len: "length (qs ! k) \<le> length (msgh st)"
  proof -
    have "qs ! k \<in> set qs" using k msg_repD(8) [OF rep] by simp
    then have "distinct (qs ! k)" using hchainsD(3) [OF ch] by (auto simp: distinct_concat_iff)
    then show ?thesis using lseg_bound [OF l] by (intro distinct_bounded_length)
  qed
  have ty: "map fst (msgs st k) = map (\<lambda>i. msg_type (msgh st ! i)) (qs ! k)"
    by (simp add: msgs_def h message_def)
  have "sint typ = 0 \<longleftrightarrow> typ = 0" using sint_eq_iff [of "typ" 0] by simp
  then have "typ = 0 \<or> sint typ > 0 \<or> sint typ < 0 \<and> typ \<noteq> 0" by linarith
  then show ?thesis
  proof (elim disjE conjE, goal_cases)
    case 1
    then show ?thesis using lseg_hd [OF l] unfolding msgrcv_find_def msg_select_def ty
      by (auto simp: hits_def prev_def hd_conv_nth)
  next
    case 2
    then have "typ \<noteq> 0" by auto
    have e: "first_idx (\<lambda>t. t = typ) (map (\<lambda>i. msg_type (msgh st ! i)) xs) = first_idx (\<lambda>i. msg_type (msgh st ! i) = typ) xs" for xs
      by (induction xs) auto
    have "msgrcv_find st k typ = Ret (hits (qs ! k) (map_option ((+) 0) (first_idx (\<lambda>i. msg_type (msgh st ! i) = typ) (qs ! k))))"
      using scan_pos [OF 2 l len, of None "[]"] \<open>typ \<noteq> 0\<close> by (simp add: msgrcv_find_def prev_def)
    moreover have "map_option ((+) 0) r = r" for r :: "nat option" by (cases r) simp_all
    ultimately show ?thesis using 2 \<open>typ \<noteq> 0\<close> unfolding ty by (simp add: msg_select_def e)
  next
    case 3
    have "msgrcv_find st k typ =
        Ret (hits (qs ! k) (lowest (sint (- typ)) (map (\<lambda>i. sint (msg_type (msgh st ! i))) (qs ! k))))"
      using scan_neg [OF 3(1) l len, of None "[]" None None] 3 by (simp add: msgrcv_find_def prev_def hits_def lowest_def)
    then show ?thesis using 3 unfolding ty by (simp add: msg_select_def comp_def)
  qed
qed

section \<open>Taking a message\<close>

lemma take_drop_nth:
  assumes "n < length xs"
  shows "xs = take n xs @ xs ! n # drop (Suc n) xs"
    and "prev xs n = (if take n xs = [] then None else Some (last (take n xs)))"
  using assms id_take_nth_drop [OF assms] by (auto simp: prev_def last_conv_nth min_def)

lemma sum_remove:
  fixes xs :: "nat list"
  assumes "n < length xs"
  shows "sum_list (map f (take n xs @ drop (Suc n) xs)) = sum_list (map f xs) - (f (xs ! n) :: ulong)"
proof -
  have "sum_list (map f xs) = sum_list (map f (take n xs @ xs ! n # drop (Suc n) xs))"
    using take_drop_nth(1) [OF assms] by simp
  then show ?thesis by simp
qed

text \<open>What a message taken off queue \<open>k\<close> leaves: the other messages of all queues, in order, and a
  state in order.\<close>

definition taken :: "nat list list \<Rightarrow> nat \<Rightarrow> nat \<Rightarrow> nat list list" where
  "taken qs k n = qs[k := take n (qs ! k) @ drop (Suc n) (qs ! k)]"

lemma msgrcv_take_spec:
  assumes good: "msg_good st qs fs" and k: "k < length (msgque st)" and n: "n < length (qs ! k)"
    and sz: "0 \<le> sint (rcv_msgsz a)" and m: "message st (qs ! k ! n) = (t, tx)"
  shows "\<exists>st'. msgrcv_take st c k a um (qs ! k ! n) (prev (qs ! k) n) =
      (if unat (rcv_msgsz a) < length tx \<and> rcv_msgflg a AND MSG_NOERROR = 0 then msg_fail E2BIG st
       else if \<not> um_out um \<or> \<not> um_out_text um \<and> min (unat (rcv_msgsz a)) (length tx) \<noteq> 0 then msg_fail EFAULT st
       else Ret (Msg_done (Inr (of_nat (min (unat (rcv_msgsz a)) (length tx)))) (MOut_msg t (take (unat (rcv_msgsz a)) tx)), st')) \<and>
    msg_good st' (taken qs k n) ((qs ! k ! n) # fs) \<and> same_data (msgh st) (msgh st') \<and> msg_info st' = msg_info st \<and>
    msg_pool st' = msg_pool st \<and> msglocks st' = msglocks st \<and> same_rview st st'"
proof -
  let ?i = "qs ! k ! n"
  let ?m = "msgh st ! ?i"
  let ?f = "\<lambda>q. q\<lparr>msg_cbytes := msg_cbytes q - ucast (msg_ts ?m), msg_lrpid := ctx_pid c, msg_rtime := ctx_now c\<rparr>"
  let ?st = "upd_q st k ?f"
  have rep: "msg_rep st qs fs" using good by (simp add: msg_good_def)
  note r = msg_repD [OF rep]
  have i: "?i \<in> set (concat qs)" using n k r(8) by (auto intro!: bexI [of _ "qs ! k"])
  have ib: "?i < length (msgh st)" by (rule hchains_bound [OF r(4) i])
  have te: "length tx = unat (msg_ts ?m)" "t = msg_type ?m" "snd (message st ?i) = tx" "msg_ts ?m = 0 \<Longrightarrow> tx = []"
    using text_length(1) [OF rep i] m by (auto simp: message_def)
  have rep1: "msg_rep ?st qs fs" by (rule msg_rep_upd_q [OF rep]) (use r(6) [OF k] in \<open>simp_all add: queue_ok_def\<close>)
  obtain st' where f: "msgfree ?st k (prev (qs ! k) n) ?i = Ret st'" "msg_rep st' (taken qs k n) (?i # fs)"
    "same_data (msgh ?st) (msgh st')" "msg_info st' = msg_info ?st" "msg_pool st' = msg_pool ?st" "msglocks st' = msglocks ?st"
    "msgque st' = (msgque ?st)[k := unlink_q (prev (qs ! k) n) (msg_next (msgh ?st ! ?i)) (msgque ?st ! k)]"
    using msgfree_rep [OF rep1 _ take_drop_nth(1) [OF n] take_drop_nth(2) [OF n]] k unfolding taken_def by auto
  have q': "msgque st' = (msgque st)[k := unlink_q (prev (qs ! k) n) (msg_next ?m) (?f (msgque st ! k))]" using f(7) k by simp
  have big: "rcv_msgsz a < ucast (msg_ts ?m) \<longleftrightarrow> unat (rcv_msgsz a) < length tx"
    unfolding te(1) by (simp add: word_less_nat_alt)
  let ?sz = "if unat (rcv_msgsz a) < length tx then rcv_msgsz a else ucast (msg_ts ?m)"
  have szn: "unat ?sz = min (unat (rcv_msgsz a)) (length tx)" using te(1) by simp
  have sz0: "?sz = 0 \<longleftrightarrow> min (unat (rcv_msgsz a)) (length tx) = 0" unfolding szn [symmetric] by (simp add: unat_eq_zero)
  have szw: "?sz = of_nat (min (unat (rcv_msgsz a)) (length tx))" unfolding szn [symmetric] by simp
  have get: "(if ?sz \<noteq> 0 then pool_get st (sint (msg_spot ?m)) (unat ?sz) else Ret []) = Ret (take (unat (rcv_msgsz a)) tx)"
  proof (cases "?sz = 0")
    case True
    then have "unat (rcv_msgsz a) = 0 \<or> length tx = 0" using sz0 by (simp add: min_def split: if_splits)
    then have "take (unat (rcv_msgsz a)) tx = []" by auto
    then show ?thesis using True by simp
  next
    case False
    then have "msg_ts ?m \<noteq> 0" using sz0 te(4) by auto
    then have "pool_get st (sint (msg_spot ?m)) (unat ?sz) = Ret (take (unat ?sz) tx)"
      using text_length(3) [OF rep i, of "unat ?sz"] szn te(1,3) by simp
    moreover have "take (unat ?sz) tx = take (unat (rcv_msgsz a)) tx" unfolding szn by (simp add: min_def)
    ultimately show ?thesis using False by simp
  qed
  have "msgrcv_take st c k a um ?i (prev (qs ! k) n) =
      (if unat (rcv_msgsz a) < length tx \<and> rcv_msgflg a AND MSG_NOERROR = 0 then msg_fail E2BIG st
       else if \<not> um_out um \<or> \<not> um_out_text um \<and> min (unat (rcv_msgsz a)) (length tx) \<noteq> 0 then msg_fail EFAULT st
       else Ret (Msg_done (Inr (of_nat (min (unat (rcv_msgsz a)) (length tx)))) (MOut_msg t (take (unat (rcv_msgsz a)) tx)), st'))"
    unfolding msgrcv_take_def Let_def big get f(1) te(2) using ib sz0 szw by auto
  moreover have "bytes_ok (msgh st') (msgque st' ! j) (taken qs k n ! j)" if j: "j < length (msgque st')" for j
  proof -
    have jl: "j < length (msgque st)" using j q' by simp
    have in_h: "x < length (msgh st)" if "x \<in> set (qs ! j)" for x by (rule queue_in_heap(1) [OF rep jl that])
    note b = msg_goodD(2) [OF good jl]
    show ?thesis
    proof (cases "j = k")
      case True
      let ?q = "(msgque st ! k)\<lparr>msg_cbytes := msg_cbytes (msgque st ! k) - ucast (msg_ts ?m)\<rparr>"
      have "bytes_ok (msgh st) ?q (take n (qs ! k) @ drop (Suc n) (qs ! k))"
        unfolding bytes_ok_def sum_remove [OF n] using b True by (simp add: bytes_ok_def)
      then have "bytes_ok (msgh st') (msgque st' ! k) (take n (qs ! k) @ drop (Suc n) (qs ! k))"
        by (rule bytes_ok_same)
          (use f(3) in_h True k q' in \<open>auto simp: unlink_q_def dest: in_set_takeD in_set_dropD\<close>)
      then show ?thesis using True k r(8) by (simp add: taken_def)
    next
      case False
      have "bytes_ok (msgh st') (msgque st' ! j) (qs ! j)"
        by (rule bytes_ok_same [OF b]) (use f(3) in_h q' False in simp_all)
      then show ?thesis using False by (simp add: taken_def)
    qed
  qed
  then have "msg_good st' (taken qs k n) (?i # fs)" using f(2) by (simp add: msg_good_def)
  moreover have "same_rview st st'"
    by (rule same_rview_upd [OF q']) (simp add: unlink_q_def wake_writers_def set_mode_def ipc_used_def rview_def)
  ultimately show ?thesis using f(3-6) q' by (intro exI [of _ st']) simp
qed

section \<open>msgrcv\<close>

text \<open>Once the checks of the call are passed, only the queue it names decides.\<close>

lemma msgrcv_enters:
  assumes wf: "msg_wf st" and f: "msg_find st (rcv_msqid a) = Some k"
    and acc: "ipcaccess (msg_perm (msgque st ! k)) MSG_R (ctx_cred c) = None" and sz: "0 \<le> sint (rcv_msgsz a)"
  shows "msgrcv st c a um = msgrcv_locked (msg_locked st k) c k a um"
proof -
  have "msg_unlock (msg_locked st k) k = st"
    by (rule msg_wf_unlocked [OF wf msg_find_bound(1) [OF msg_wfD(1,2) [OF wf] f]])
  then show ?thesis using assms
    by (simp add: msgrcv_def msgrcv_findmsg_def msgconv_wf msg_again_wf)
qed

lemma msgrcv_checks:
  assumes wf: "msg_wf st"
  shows "msgrcv st c a um =
    (case msg_find st (rcv_msqid a) of
       None \<Rightarrow> msg_fail EINVAL st
     | Some k \<Rightarrow>
         (case ipcaccess (msg_perm (msgque st ! k)) MSG_R (ctx_cred c) of
            Some e \<Rightarrow> msg_fail e st
          | None \<Rightarrow> if sint (rcv_msgsz a) < 0 then msg_fail EINVAL st else msgrcv_locked (msg_locked st k) c k a um))"
proof (cases "msg_find st (rcv_msqid a)")
  case (Some k)
  have "msg_unlock (msg_locked st k) k = st"
    by (rule msg_wf_unlocked [OF wf msg_find_bound(1) [OF msg_wfD(1,2) [OF wf] Some]])
  then show ?thesis using Some wf
    by (simp add: msgrcv_def msgrcv_findmsg_def msgconv_wf msg_again_wf split: option.split)
qed (simp add: msgrcv_def msgconv_wf [OF wf])

text \<open>
  The locked part: the message is the one that \<open>msg_select\<close> names. On success it is gone from its
  queue, and all other messages stay where they are; in all other cases the queues are unchanged.
\<close>

definition msgs_minus :: "msg_state \<Rightarrow> nat \<Rightarrow> nat \<Rightarrow> msg_state \<Rightarrow> bool" where
  "msgs_minus st k n st' \<longleftrightarrow> msgs st' k = take n (msgs st k) @ drop (Suc n) (msgs st k) \<and>
     (\<forall>j<length (msgque st). j \<noteq> k \<longrightarrow> msgs st' j = msgs st j)"

definition rview_asleep :: "msg_state \<Rightarrow> ctx \<Rightarrow> nat \<Rightarrow> msg_state \<Rightarrow> bool" where
  "rview_asleep st c k st' \<longleftrightarrow> length (msgque st') = length (msgque st) \<and>
     (\<forall>j<length (msgque st). rview (msgque st' ! j) =
       (if j = k then (sleepq_insert (ctx_prio c) (msg_qnum_cv (msgque st ! k)) (ctx_tid c), snd (rview (msgque st ! k)))
        else rview (msgque st ! j)))"

lemma msgrcv_locked_spec:
  assumes wf: "msg_wf st" and k: "k < length (msgque st)" and used: "ipc_used (msg_perm (msgque st ! k))" and sz: "0 \<le> sint (rcv_msgsz a)"
  shows "\<exists>st'. msg_wf st' \<and> msg_info st' = msg_info st \<and> msgrcv_locked (msg_locked st k) c k a um =
    (case msg_select (rcv_msgtyp a) (map fst (msgs st k)) of
       None \<Rightarrow> if rcv_msgflg a AND IPC_NOWAIT \<noteq> 0 then msg_fail ENOMSG st else Ret (Msg_sleep (W_rcv k), st')
     | Some n \<Rightarrow>
         let (t, tx) = msgs st k ! n; m = unat (rcv_msgsz a) in
         if m < length tx \<and> rcv_msgflg a AND MSG_NOERROR = 0 then msg_fail E2BIG st
         else if \<not> um_out um \<or> \<not> um_out_text um \<and> min m (length tx) \<noteq> 0 then msg_fail EFAULT st
         else Ret (Msg_done (Inr (of_nat (min m (length tx)))) (MOut_msg t (take m tx)), st')) \<and>
    (case msg_select (rcv_msgtyp a) (map fst (msgs st k)) of
       None \<Rightarrow> (\<forall>j<length (msgque st). msgs st' j = msgs st j) \<and> rview_asleep st c k st'
     | Some n \<Rightarrow> msgs_minus st k n st' \<and> same_rview st st')"
proof -
  obtain qs fs where good: "msg_good st qs fs" using wf by (auto simp: msg_wf_def)
  let ?st = "msg_locked st k"
  have good0: "msg_good ?st qs fs" by (rule msg_good_frame [OF good]) simp_all
  note rep = msg_goodD(1) [OF good] and rep0 = msg_goodD(1) [OF good0]
  have ms: "msgs ?st k = msgs st k" by (rule msgs_frame) simp_all
  have un: "msg_unlock ?st k = st" by (rule msg_wf_unlocked [OF wf k])
  have find: "msgrcv_find ?st k (rcv_msgtyp a) = Ret (hits (qs ! k) (msg_select (rcv_msgtyp a) (map fst (msgs st k))))"
    using msgrcv_find_select [OF rep0, of k "rcv_msgtyp a"] k ms by simp
  show ?thesis
  proof (cases "msg_select (rcv_msgtyp a) (map fst (msgs st k))")
    case None
    let ?f = "\<lambda>q. (set_mode (\<lambda>m. m OR MSG_RWAIT) q)\<lparr>msg_qnum_cv := sleepq_insert (ctx_prio c) (msg_qnum_cv q) (ctx_tid c)\<rparr>"
    have "queue_ok (msg_info st) k (msgque st ! k) (qs ! k)" by (rule msg_goodD(6) [OF good k])
    then have "msg_good (upd_q ?st k ?f) qs fs"
      using used by (intro msg_good_upd_q [OF good0]) (simp_all add: queue_ok_def set_mode_def ipc_used_def)
    then have w: "msg_wf (msg_unlock (upd_q ?st k ?f) k)" by (intro msg_wf_unlock [OF wf k]) simp_all
    let ?g = "\<lambda>q. q\<lparr>msg_qnum_cv := sleepq_insert (ctx_prio c) (msg_qnum_cv q) (ctx_tid c)\<rparr>"
    have e: "upd_q (msg_unlock (upd_q ?st k (set_mode (\<lambda>m. m OR MSG_RWAIT))) k) k ?g = msg_unlock (upd_q ?st k ?f) k"
      using k by (simp add: upd_q_def msg_unlock_def upd_l_def set_mode_def)
    have "msgs (msg_unlock (upd_q ?st k ?f) k) j = msgs st j" if "j < length (msgque st)" for j
      using that by (intro msgs_frame) (cases "j = k"; simp add: set_mode_def)+
    moreover have "rview_asleep st c k (msg_unlock (upd_q ?st k ?f) k)"
    proof -
      have "rview (?f (msgque st ! k)) = (sleepq_insert (ctx_prio c) (msg_qnum_cv (msgque st ! k)) (ctx_tid c), snd (rview (msgque st ! k)))"
        by (simp add: rview_def set_mode_def ipc_used_def)
      then show ?thesis using k by (auto simp: rview_asleep_def nth_list_update)
    qed
    ultimately show ?thesis using w None find e un
      by (intro exI [of _ "msg_unlock (upd_q ?st k ?f) k"]) (simp add: msgrcv_locked_def hits_def)
  next
    case (Some n)
    have n: "n < length (qs ! k)"
    proof -
      have "n < length (map fst (msgs st k))"
        using Some by (auto simp: msg_select_def lowest_def dest: first_idx_SomeD split: if_splits)
      then show ?thesis by (simp add: msgs_rep [OF rep k])
    qed
    obtain t tx where m: "message st (qs ! k ! n) = (t, tx)" by force
    have m0: "message ?st (qs ! k ! n) = (t, tx)" using m by (auto simp: message_def)
    have mk: "msgs st k ! n = (t, tx)" using n m by (simp add: msgs_rep [OF rep k])
    have k0: "k < length (msgque ?st)" using k by simp
    obtain st1 where tk: "msgrcv_take ?st c k a um (qs ! k ! n) (prev (qs ! k) n) =
        (if unat (rcv_msgsz a) < length tx \<and> rcv_msgflg a AND MSG_NOERROR = 0 then msg_fail E2BIG ?st
         else if \<not> um_out um \<or> \<not> um_out_text um \<and> min (unat (rcv_msgsz a)) (length tx) \<noteq> 0 then msg_fail EFAULT ?st
         else Ret (Msg_done (Inr (of_nat (min (unat (rcv_msgsz a)) (length tx)))) (MOut_msg t (take (unat (rcv_msgsz a)) tx)), st1))"
      and st1: "msg_good st1 (taken qs k n) ((qs ! k ! n) # fs)" "same_data (msgh ?st) (msgh st1)" "msg_info st1 = msg_info ?st"
        "msg_pool st1 = msg_pool ?st" "msglocks st1 = msglocks ?st" "same_rview ?st st1"
      using msgrcv_take_spec [OF good0 k0 n sz m0, of c um] by blast
    have w: "msg_wf (msg_unlock st1 k)" using st1(6) by (intro msg_wf_unlock [OF wf k st1(5) _ st1(1)]) (simp add: same_rview_def)
    have rv: "same_rview st (msg_unlock st1 k)" using st1(6) by (simp add: same_rview_def)
    have all: "msgs (msg_unlock st1 k) j = map (message st) (taken qs k n ! j)" if j: "j < length (msgque st)" for j
    proof -
      have sub: "set (taken qs k n ! j) \<subseteq> set (concat qs)"
      proof -
        have "set (take n (qs ! k) @ drop (Suc n) (qs ! k)) \<subseteq> set (qs ! k)" using set_take_subset set_drop_subset by fastforce
        then have "set (taken qs k n ! j) \<subseteq> set (qs ! j)" using j msg_goodD(5) [OF good] by (cases "j = k") (simp_all add: taken_def)
        then show ?thesis using j msg_goodD(5) [OF good] set_nth_concat [of j qs] by simp
      qed
      have "msgs (msg_unlock st1 k) j = msgs st1 j" by (rule msgs_frame) simp_all
      also have "\<dots> = map (message st) (taken qs k n ! j)"
        by (rule msgs_same [OF rep msg_goodD(1) [OF st1(1)] _ _ _ j sub]) (use st1 in simp_all)
      finally show ?thesis .
    qed
    have "msgs_minus st k n (msg_unlock st1 k)"
      unfolding msgs_minus_def using all k msg_goodD(5) [OF good] msgs_rep [OF rep]
      by (simp add: taken_def take_map drop_map)
    then show ?thesis using w Some find tk un mk st1(3) rv
      by (intro exI [of _ "msg_unlock st1 k"]) (simp add: msgrcv_locked_def hits_def Let_def)
  qed
qed

end
