(* ===== verification/Msg_Snd.thy ===== *)
theory Msg_Snd
  imports Msg_Inv
begin

text \<open>
  Sending: the header and the segments that a message takes are new, so that the texts of the
  queued messages stay what they were, and \<open>msgsnd\<close> appends to one queue and changes no other.
\<close>

section \<open>Writing into the buffer\<close>

definition put_at :: "nat \<Rightarrow> 'a list \<Rightarrow> 'a list \<Rightarrow> 'a list" where
  "put_at off bs p = take off p @ bs @ drop (off + length bs) p"

lemma put_at_length [simp]: "off + length bs \<le> length p \<Longrightarrow> length (put_at off bs p) = length p"
  by (simp add: put_at_def)

lemma put_at_nth:
  "off + length bs \<le> length p \<Longrightarrow> i < length p \<Longrightarrow>
    put_at off bs p ! i = (if off \<le> i \<and> i < off + length bs then bs ! (i - off) else p ! i)"
  by (auto simp: put_at_def nth_append)

lemma put_at_same: "off + length bs \<le> length p \<Longrightarrow> take (length bs) (drop off (put_at off bs p)) = bs"
  by (simp add: put_at_def)

lemma put_at_other:
  assumes "off + length bs \<le> length p" "o2 + n \<le> length p" "o2 + n \<le> off \<or> off + length bs \<le> o2"
  shows "take n (drop o2 (put_at off bs p)) = take n (drop o2 p)"
proof (rule nth_equalityI)
  fix i assume "i < length (take n (drop o2 (put_at off bs p)))"
  then have "i < n" "o2 + i < length p" using assms by auto
  then show "take n (drop o2 (put_at off bs p)) ! i = take n (drop o2 p) ! i"
    using assms by (auto simp: put_at_nth)
qed (use assms in simp)

section \<open>Headers\<close>

definition spare :: "msg_state \<Rightarrow> nat list list \<Rightarrow> nat list \<Rightarrow> nat \<Rightarrow> bool" where
  "spare st qs fs mp \<longleftrightarrow> mp < length (msgh st) \<and> mp \<notin> set (concat qs) \<and> mp \<notin> set fs"

lemma pop_header:
  assumes good: "msg_good st qs fs" and fp: "msgfp st = Some mp"
  shows "\<exists>fs'. fs = mp # fs' \<and> msg_good (st\<lparr>msgfp := msg_next (msgh st ! mp)\<rparr>) qs fs' \<and> spare st qs fs' mp"
proof -
  note r = msg_repD [OF msg_goodD(1) [OF good]]
  note c = hchainsD [OF r(4)]
  obtain fs' where fs: "fs = mp # fs'" "mp < length (msgh st)" "lseg (msgh st) (msg_next (msgh st ! mp)) fs' None"
    using c(2) fp by (cases fs) auto
  have ch: "hchains (msgh st) (msgque st) (msg_next (msgh st ! mp)) qs fs'"
    using r(4) fs by (auto simp: hchains_def)
  have "msgfp_cv st = []" using r(7) fp by auto
  then have "msg_good (st\<lparr>msgfp := msg_next (msgh st ! mp)\<rparr>) qs fs'"
    using good ch by (simp add: msg_good_def msg_rep_def)
  then show ?thesis using fs c(3) by (auto simp: spare_def)
qed

lemma free_header_good:
  assumes good: "msg_good st qs fs" and sp: "spare st qs fs mp"
  shows "msg_good (free_header st mp) qs (mp # fs)" "same_data (msgh st) (msgh (free_header st mp))"
proof -
  note r = msg_repD [OF msg_goodD(1) [OF good]]
  note c = hchainsD [OF r(4)]
  let ?h = "(msgh st)[mp := (msgh st ! mp)\<lparr>msg_next := msgfp st\<rparr>]"
  have out: "mp \<notin> set (qs ! k)" if "k < length (msgque st)" for k
    using sp set_nth_concat [of k qs] that c(1) by (auto simp: spare_def)
  have ch: "hchains ?h (msgque st) (Some mp) qs (mp # fs)"
    using r(4) sp out unfolding hchains_def by (auto simp: lseg_upd spare_def)
  have h: "msgh (free_header st mp) = ?h" by (simp add: free_header_def)
  show same: "same_data (msgh st) (msgh (free_header st mp))" unfolding h by simp
  have t: "texts (msg_info st) ?h (msgmap st) (set (concat qs))"
    by (rule texts_same_data [OF r(5)]) (use hchains_bound [OF r(4)] in simp_all)
  have "bytes_ok ?h (msgque st ! k) (qs ! k)" if "k < length (msgque st)" for k
    by (rule bytes_ok_same [OF msg_goodD(2) [OF good that]]) (use queue_in_heap(1) [OF msg_goodD(1) [OF good] that] in simp_all)
  moreover have "msgfp st \<noteq> None \<Longrightarrow> msgfp_cv st = []" using r(7) by (cases "msgfp_cv st = []") simp_all
  ultimately show "msg_good (free_header st mp) qs (mp # fs)"
    using good ch t by (auto simp: msg_good_def msg_rep_def free_header_def)
qed

section \<open>Segments of a new message\<close>

text \<open>
  The segments at \<open>addr\<close> are a place for the text of a new message in header \<open>mp\<close>: the texts of
  the queued messages are apart from it, and it can be given back.
\<close>

definition text_place :: "msginfo \<Rightarrow> msg list \<Rightarrow> nat set \<Rightarrow> nat \<Rightarrow> int32 \<Rightarrow> ulong \<Rightarrow> ulong \<Rightarrow> map_head \<Rightarrow> bool" where
  "text_place mi h I mp cnt n addr rmp' \<longleftrightarrow> texts mi h rmp' I \<and> unat (addr - 1) + nseg mi (unat cnt) \<le> unat (mi_msgseg mi) \<and>
      (\<forall>m. msg_ts m = ucast cnt \<and> msg_spot m = ucast (addr - 1) \<and> 1 \<le> sint (msg_type m) \<longrightarrow>
         0 \<le> sint (msg_spot m) \<and> spot_of m = unat (addr - 1) \<and> texts mi (h[mp := m]) rmp' (insert mp I)) \<and>
      (\<exists>rmp'' w. rmfree rmp' n addr = Ret (rmp'', w) \<and> texts mi h rmp'' I)"

lemma text_placeD:
  assumes "text_place mi h I mp cnt n addr rmp"
  shows "texts mi h rmp I" "unat (addr - 1) + nseg mi (unat cnt) \<le> unat (mi_msgseg mi)"
    "\<exists>rmp' w. rmfree rmp n addr = Ret (rmp', w) \<and> texts mi h rmp' I"
    and "msg_ts m = ucast cnt \<Longrightarrow> msg_spot m = ucast (addr - 1) \<Longrightarrow> 1 \<le> sint (msg_type m) \<Longrightarrow>
      0 \<le> sint (msg_spot m) \<and> spot_of m = unat (addr - 1) \<and> texts mi (h[mp := m]) rmp (insert mp I)"
  using assms unfolding text_place_def by blast+

lemma text_alloc:
  assumes par: "msg_params mi" and t: "texts mi h rmp I" and mp: "mp \<notin> I" "mp < length h"
    and cnt: "0 < unat cnt" "unat cnt \<le> 65535" and n: "btoq mi cnt = Ret n"
  shows "\<exists>addr rmp'. rmalloc_locked rmp n = Ret (addr, rmp') \<and> (addr = 0 \<longrightarrow> rmp' = rmp) \<and>
    (addr = 0 \<longleftrightarrow> \<not> (\<exists>x. {x ..< x + nseg mi (unat cnt)} \<subseteq> free_set rmp)) \<and>
    (addr \<noteq> 0 \<longrightarrow> text_place mi h I mp cnt n addr rmp')"
proof -
  have seg: "unat (mi_msgseg mi) < 32768" using par by (simp add: msg_params_def)
  note n' = btoq_nseg [OF par cnt] n
  have ns: "unat n = nseg mi (unat cnt)" "0 < sint n" "0 < nseg mi (unat cnt)" using n' by auto
  have tx: "map_wf rmp" "2 \<le> unat (m_nsegs rmp)" "free_set rmp \<subseteq> {1..unat (mi_msgseg mi)}"
    "owned (free_set rmp) {i \<in> I. msg_ts (h ! i) \<noteq> 0} (\<lambda>i. text_blk mi (h ! i))"
    using t by (simp_all add: texts_def)
  have ra: "rmalloc rmp n = rmalloc_locked rmp n" using ns(2) by (simp add: rmalloc_def)
  obtain addr rmp' where al: "rmalloc_locked rmp n = Ret (addr, rmp')"
    using rm.alloc_total [OF tx(1) ns(2)] ra by auto
  have fail: "addr = 0 \<Longrightarrow> rmp' = rmp" using rm.alloc_fail [OF tx(1) ns(2), of rmp'] al ra by simp
  have al': "rmalloc rmp n = Ret (addr, rmp')" using al ra by simp
  have ok: "text_place mi h I mp cnt n addr rmp'" if nz: "addr \<noteq> 0"
  proof -
    have b: "blk addr n \<subseteq> free_set rmp" "free_set rmp' = free_set rmp - blk addr n" "map_wf rmp'"
      "unat (m_nsegs rmp') = unat (m_nsegs rmp)"
      using rm.alloc_block [OF tx(1) ns(2) al' nz] rm.alloc_wf [OF tx(1) ns(2) al'] rm.alloc_slots [OF tx(1) ns(2) al'] by auto
    have ge: "0 < unat addr" using nz by (simp add: unat_gt_0)
    have "unat addr + unat n - 1 \<in> blk addr n" using ns(1,3) by (auto simp: blk_def)
    then have hi: "unat addr + unat n - 1 \<le> unat (mi_msgseg mi)" using b(1) tx(3) by auto
    have "unat addr + unat n \<le> 32768" using hi ge seg by linarith
    then have sm: "unat addr + unat n < 2 ^ 32" by simp
    have a1: "unat (addr - 1) = unat addr - 1" using ge by (subst unat_sub_nowrap) simp_all
    have fit: "unat (addr - 1) + nseg mi (unat cnt) \<le> unat (mi_msgseg mi)" using a1 hi ge ns by linarith
    have t1: "texts mi h rmp' I"
      using t b tx(2,4) by (auto simp: texts_def intro: owned_mono)
    obtain rmp'' w where f: "rmfree rmp' n addr = Ret (rmp'', w)" "map_wf rmp''" "free_set rmp'' \<subseteq> free_set rmp"
      using rm.alloc_release [OF tx(1,2) ns(2) al' nz sm] by auto
    have dis: "blk addr n \<inter> free_set rmp' = {}" using b by auto
    have "unat (m_nsegs rmp'') = unat (m_nsegs rmp)"
      using rm.release_wf [OF b(3) _ nz ns(2) sm dis f(1)] b(4) tx(2) by auto
    then have t2: "texts mi h rmp'' I" using t f tx(2,4) by (auto simp: texts_def intro: owned_mono)
    have new: "0 \<le> sint (msg_spot m) \<and> spot_of m = unat (addr - 1) \<and> texts mi (h[mp := m]) rmp' (insert mp I)"
      if m: "msg_ts m = ucast cnt" "msg_spot m = ucast (addr - 1)" "1 \<le> sint (msg_type m)" for m
    proof -
      have u16: "unat (msg_spot m) = unat (addr - 1)" unfolding m(2) using fit seg by (intro unat_ucast_32_16) linarith
      have "unat (msg_spot m) < 2 ^ (LENGTH(16) - 1)" unfolding u16 using fit seg ns(3) by simp
      then have s: "sint (msg_spot m) = int (unat (addr - 1))" by (simp only: sint_of_unat_small u16)
      then have sp: "spot_of m = unat (addr - 1)" by (simp only: spot_of_def nat_int)
      have ts: "unat (msg_ts m) = unat cnt" unfolding m(1) using cnt(2) by (intro unat_ucast_32_16) simp
      have blk: "text_blk mi m = blk addr n" unfolding text_blk_def blk_def sp ts using a1 ge ns(1) by simp
      let ?J = "{i \<in> I. msg_ts (h ! i) \<noteq> 0}" and ?h = "h[mp := m]"
      have old: "?h ! i = h ! i" if "i \<in> I" for i using that mp by (cases "i = mp") auto
      have own: "owned (free_set rmp') (insert mp ?J) ((\<lambda>i. text_blk mi (h ! i))(mp := blk addr n))"
        using rm.alloc_owned [OF tx(1) ns(2) tx(4) _ al' nz, of mp] mp by simp
      have "{i \<in> insert mp I. msg_ts (?h ! i) \<noteq> 0} = insert mp ?J"
        using mp(2) old ts cnt(1) by auto
      moreover have "owned (free_set rmp') (insert mp ?J) (\<lambda>i. text_blk mi (?h ! i))"
        using own by (rule iffD1 [OF owned_cong, rotated]) (use mp old blk in auto)
      ultimately have "texts mi ?h rmp' (insert mp I)"
        using t1 mp(2) old m(3) s sp ts fit unfolding texts_def by (auto simp: spot_of_def)
      then show ?thesis using s sp by simp
    qed
    show ?thesis unfolding text_place_def using t1 fit new f(1) t2 by blast
  qed
  have "alloc_post rmp n addr rmp'" using rmalloc_post [OF tx(1) ns(2)] al' by auto
  then have room: "addr = 0 \<longleftrightarrow> \<not> (\<exists>x. {x ..< x + nseg mi (unat cnt)} \<subseteq> free_set rmp)"
    unfolding alloc_post_def ns(1) [symmetric] by (auto split: if_splits)
  show ?thesis
    by (intro exI conjI; (rule al)?; (rule fail impI room)?) (use fail ok in blast)+
qed

section \<open>Linking a message to its queue\<close>

definition link_h :: "nat option \<Rightarrow> nat \<Rightarrow> msg list \<Rightarrow> msg list" where
  "link_h lst mp h = (case lst of None \<Rightarrow> h | Some l \<Rightarrow> h[l := (h ! l)\<lparr>msg_next := Some mp\<rparr>])"

definition link_q :: "ctx \<Rightarrow> nat \<Rightarrow> int32 \<Rightarrow> msqid_ds \<Rightarrow> msqid_ds" where
  "link_q c mp cnt q =
    (let q1 = q\<lparr>msg_qnum := msg_qnum q + 1, msg_cbytes := msg_cbytes q + cnt, msg_lspid := ctx_pid c,
           msg_stime := ctx_now c, msg_first := (if msg_last q = None then Some mp else msg_first q), msg_last := Some mp\<rparr>
     in if q_mode q1 AND MSG_RWAIT \<noteq> 0 then (set_mode (\<lambda>m. m AND NOT MSG_RWAIT) q1)\<lparr>msg_qnum_cv := []\<rparr> else q1)"

definition new_msg :: "int32 \<Rightarrow> int32 \<Rightarrow> short \<Rightarrow> msg" where
  "new_msg ty cnt spot = \<lparr>msg_next = None, msg_type = ty, msg_ts = ucast cnt, msg_spot = spot\<rparr>"

text \<open>What \<open>msgsnd_link\<close> does when both headers lie in the table.\<close>

definition msgsnd_linked :: "msg_state \<Rightarrow> ctx \<Rightarrow> nat \<Rightarrow> nat \<Rightarrow> int32 \<Rightarrow> int32 \<Rightarrow> short \<Rightarrow> msg_state" where
  "msgsnd_linked st c k mp ty cnt spot =
    st\<lparr>msgh := link_h (msg_last (msgque st ! k)) mp ((msgh st)[mp := new_msg ty cnt spot]),
       msgque := (msgque st)[k := link_q c mp cnt (msgque st ! k)]\<rparr>"

lemma msgsnd_link_in:
  assumes "k < length (msgque st)" "mp < length (msgh st)" "\<And>l. msg_last (msgque st ! k) = Some l \<Longrightarrow> l < length (msgh st)"
  shows "msgsnd_link st c k mp ty cnt spot = Ret (msgsnd_linked st c k mp ty cnt spot)"
  using assms
  by (cases "msg_last (msgque st ! k)")
    (simp_all add: msgsnd_link_def msgsnd_linked_def Let_def upd_q_def upd_h_def link_h_def link_q_def new_msg_def)

lemma msgsnd_link_Ret:
  assumes good: "msg_good st qs fs" and k: "k < length (msgque st)" and sp: "spare st qs fs mp"
  shows "msgsnd_link st c k mp ty cnt spot = Ret (msgsnd_linked st c k mp ty cnt spot)"
proof (rule msgsnd_link_in [OF k])
  show "mp < length (msgh st)" using sp by (simp add: spare_def)
  note d = hchainsD [OF msg_repD(4) [OF msg_goodD(1) [OF good]]]
  show "l < length (msgh st)" if "msg_last (msgque st ! k) = Some l" for l
    using that d(5) [OF k] lseg_bound [OF d(4) [OF k]] by (auto split: if_splits)
qed

lemma link_q_simps [simp]:
  "msg_last (link_q c mp cnt q) = Some mp" "msg_first (link_q c mp cnt q) = (if msg_last q = None then Some mp else msg_first q)"
  "msg_cbytes (link_q c mp cnt q) = msg_cbytes q + cnt"
  by (simp_all add: link_q_def Let_def set_mode_def)

lemma link_q_ok: "queue_ok mi k q xs \<Longrightarrow> ipc_used (msg_perm q) \<Longrightarrow> queue_ok mi k (link_q c mp cnt q) (xs @ [mp])"
  by (auto simp: queue_ok_def link_q_def Let_def set_mode_def ipc_used_def)

lemma link_q_rview: "queue_ok mi k q xs \<Longrightarrow> rview (link_q c mp cnt q) = ([], snd (rview q))"
  by (auto simp: queue_ok_def link_q_def Let_def set_mode_def ipc_used_def rview_def)

lemma concat_append_at:
  assumes "k < length qs"
  shows "set (concat (qs[k := qs ! k @ [mp]])) = insert mp (set (concat qs))"
    and "distinct (concat qs @ fs) \<Longrightarrow> mp \<notin> set (concat qs) \<Longrightarrow> mp \<notin> set fs \<Longrightarrow> distinct (concat (qs[k := qs ! k @ [mp]]) @ fs)"
proof -
  obtain A B where AB: "qs = A @ qs ! k # B" "\<And>x. qs[k := x] = A @ x # B" using list_split_at [OF assms] by auto
  have c: "concat qs = concat A @ qs ! k @ concat B" using arg_cong [OF AB(1), of concat] by simp
  show "set (concat (qs[k := qs ! k @ [mp]])) = insert mp (set (concat qs))" unfolding c AB(2) by auto
  show "distinct (concat qs @ fs) \<Longrightarrow> mp \<notin> set (concat qs) \<Longrightarrow> mp \<notin> set fs \<Longrightarrow> distinct (concat (qs[k := qs ! k @ [mp]]) @ fs)"
    unfolding c AB(2) by auto
qed

lemma hchains_link:
  assumes ch: "hchains h que fp qs fs" and k: "k < length que" and mp: "mp < length h" "mp \<notin> set (concat qs)" "mp \<notin> set fs"
    and m: "msg_next m = None"
  shows "hchains (link_h (msg_last (que ! k)) mp (h[mp := m])) (que[k := link_q c mp cnt (que ! k)]) fp (qs[k := qs ! k @ [mp]]) fs"
proof -
  note d = hchainsD [OF ch]
  let ?h = "link_h (msg_last (que ! k)) mp (h[mp := m])"
  have kq: "k < length qs" using k d(1) by simp
  have last: "l \<in> set (qs ! k)" if "msg_last (que ! k) = Some l" for l
    using that d(5) [OF k] by (auto split: if_splits)
  have out: "lseg ?h p xs None \<longleftrightarrow> lseg h p xs None" if "mp \<notin> set xs" "set (qs ! k) \<inter> set xs = {}" for p xs
  proof (cases "msg_last (que ! k)")
    case (Some l)
    then have "l \<notin> set xs" using last that(2) by auto
    then show ?thesis using Some that(1) by (simp add: link_h_def lseg_upd)
  qed (use that(1) in \<open>simp add: link_h_def lseg_upd\<close>)
  have mk: "mp \<notin> set (qs ! j)" if "j < length que" for j using that mp(2) set_nth_concat [of j qs] d(1) by auto
  have dis: "set (qs ! k) \<inter> set fs = {}" "distinct (qs ! k)"
    using d(3) set_nth_concat [OF kq] nth_mem [OF kq] by (auto simp: distinct_concat_iff)
  have disj: "set (qs ! k) \<inter> set (qs ! j) = {}" if "j < length que" "j \<noteq> k" for j
  proof -
    obtain A B where AB: "qs = A @ qs ! k # B" "length A = k" using list_split_at [OF kq] by auto
    have "qs ! j \<in> set A \<union> set B" using list_split_other [OF AB(2) that(2), of "qs ! k" B] that(1) d(1) AB(1) by simp
    moreover have "distinct (concat A @ qs ! k @ concat B @ fs)" using d(3) arg_cong [OF AB(1), of concat] by simp
    ultimately show ?thesis by auto
  qed
  have own: "lseg ?h (msg_first (link_q c mp cnt (que ! k))) (qs ! k @ [mp]) None"
  proof (cases "qs ! k = []")
    case True
    then have "msg_last (que ! k) = None" using d(5) [OF k] by simp
    then show ?thesis using True m mp(1) by (simp add: link_h_def)
  next
    case False
    then show ?thesis using lseg_snoc [OF d(4) [OF k] mk [OF k] mp(1) dis(2) m False] d(5) [OF k] by (simp add: link_h_def)
  qed
  have lst: "msg_last (link_q c mp cnt (que ! k)) = (if qs ! k @ [mp] = [] then None else Some (last (qs ! k @ [mp])))" by simp
  have other: "lseg ?h (msg_first (que ! j)) (qs ! j) None" if "j < length que" "j \<noteq> k" for j
    using out [OF mk [OF that(1)] disj [OF that]] d(4) [OF that(1)] by simp
  have free: "lseg ?h fp fs None" using out [OF mp(3) dis(1)] d(2) by simp
  show ?thesis by (rule hchains_upd [OF d(1) own lst other d(5) free concat_append_at(2) [OF kq d(3) mp(2,3)]])
qed

lemma msgsnd_linked_good:
  assumes good: "msg_good st qs fs" and k: "k < length (msgque st)" and used: "ipc_used (msg_perm (msgque st ! k))"
    and sp: "spare st qs fs mp" and cnt: "unat cnt \<le> 65535"
    and tx: "texts (msg_info st) ((msgh st)[mp := new_msg ty cnt spot]) (msgmap st) (insert mp (set (concat qs)))"
  shows "msg_good (msgsnd_linked st c k mp ty cnt spot) (qs[k := qs ! k @ [mp]]) fs"
    and "same_data ((msgh st)[mp := new_msg ty cnt spot]) (msgh (msgsnd_linked st c k mp ty cnt spot))"
proof -
  note r = msg_repD [OF msg_goodD(1) [OF good]]
  let ?m = "new_msg ty cnt spot" and ?q = "link_q c mp cnt (msgque st ! k)"
  let ?h1 = "(msgh st)[mp := ?m]"
  let ?h = "link_h (msg_last (msgque st ! k)) mp ?h1"
  have s: "mp < length (msgh st)" "mp \<notin> set (concat qs)" "mp \<notin> set fs" using sp by (simp_all add: spare_def)
  have kq: "k < length qs" using k r(8) by simp
  have ch: "hchains ?h ((msgque st)[k := ?q]) (msgfp st) (qs[k := qs ! k @ [mp]]) fs"
    by (rule hchains_link [OF r(4) k s]) (simp add: new_msg_def)
  have same: "same_data ?h1 ?h" by (cases "msg_last (msgque st ! k)") (simp_all add: link_h_def)
  then show "same_data ?h1 (msgh (msgsnd_linked st c k mp ty cnt spot))" by (simp add: msgsnd_linked_def)
  have t: "texts (msg_info st) ?h (msgmap st) (set (concat (qs[k := qs ! k @ [mp]])))"
    unfolding concat_append_at(1) [OF kq] by (rule texts_same_data [OF tx same]) (use hchains_bound [OF r(4)] s(1) in auto)
  have qok: "\<forall>j<length ((msgque st)[k := ?q]). queue_ok (msg_info st) j ((msgque st)[k := ?q] ! j) (qs[k := qs ! k @ [mp]] ! j)"
    by (rule queues_upd) (use r(6,8) link_q_ok [OF r(6) [OF k] used] in simp_all)
  have byt: "bytes_ok ?h ((msgque st)[k := ?q] ! j) (qs[k := qs ! k @ [mp]] ! j)" if j: "j < length (msgque st)" for j
  proof -
    have sub: "x < length (msgh st)" "x \<noteq> mp" if "x \<in> set (qs ! j)" for x
      using hchains_bound [OF r(4), of x] that set_nth_concat [of j qs] j r(8) s(2) by auto
    have "ucast (msg_ts (?h ! x)) = (ucast (msg_ts (msgh st ! x)) :: ulong)" if "x \<in> set (qs ! j)" for x
      using same sub [OF that] by (simp add: same_data_def)
    then have old: "sum_list (map (\<lambda>x. ucast (msg_ts (?h ! x)) :: ulong) (qs ! j)) = msg_cbytes (msgque st ! j)"
      using msg_goodD(2) [OF good j] unfolding bytes_ok_def by (metis (no_types, lifting) map_cong)
    have new: "ucast (msg_ts (?h ! mp)) = cnt"
    proof -
      have "msg_ts (?h ! mp) = ucast cnt" using same s(1) by (simp add: same_data_def new_msg_def)
      moreover have "(ucast (ucast cnt :: ushort) :: ulong) = cnt"
        using cnt unfolding word_unat_eq_iff by (simp add: unat_ucast_32_16)
      ultimately show ?thesis by simp
    qed
    show ?thesis using old new k j kq by (cases "j = k") (simp_all add: bytes_ok_def)
  qed
  show "msg_good (msgsnd_linked st c k mp ty cnt spot) (qs[k := qs ! k @ [mp]]) fs"
    unfolding msgsnd_linked_def msg_good_def msg_rep_def using r(1-3,7) ch t qok byt by simp
qed

section \<open>msgsnd\<close>

text \<open>What sending appends: the queue grows by one message at its end, the other queues stay.\<close>

definition msgs_plus :: "msg_state \<Rightarrow> nat \<Rightarrow> int32 \<times> byte list \<Rightarrow> msg_state \<Rightarrow> bool" where
  "msgs_plus st k m st' \<longleftrightarrow> msgs st' k = msgs st k @ [m] \<and> (\<forall>j<length (msgque st). j \<noteq> k \<longrightarrow> msgs st' j = msgs st j)"

text \<open>A state in which the body of a call has kept the lock, the parameters and the queues.\<close>

definition kept :: "msg_state \<Rightarrow> nat \<Rightarrow> msg_state \<Rightarrow> bool" where
  "kept st k st1 \<longleftrightarrow> msglocks st1 = msglocks (msg_locked st k) \<and> length (msgque st1) = length (msgque st) \<and> msg_info st1 = msg_info st \<and>
     same_rview st st1"

lemma kept_wf: "msg_wf st \<Longrightarrow> k < length (msgque st) \<Longrightarrow> kept st k st1 \<Longrightarrow> msg_good st1 qs fs \<Longrightarrow> msg_wf (msg_unlock st1 k)"
  unfolding kept_def by (blast intro: msg_wf_unlock)

lemma put_keeps:
  assumes rep: "msg_rep st qs fs" and i: "i \<in> set (concat qs)" and mp: "mp \<notin> set (concat qs)" "mp < length (msgh st)"
    and m: "msg_ts m = ucast (of_nat (length bs) :: int32)" "length bs \<le> 65535" "bs \<noteq> []" "0 \<le> sint (msg_spot m)"
    and tx: "texts (msg_info st) ((msgh st)[mp := m]) rmp (insert mp (set (concat qs)))"
    and off: "off = ssz (msg_info st) * spot_of m" and len: "off + length bs \<le> length (msg_pool st)"
  shows "message (st\<lparr>msg_pool := put_at off bs (msg_pool st)\<rparr>) i = message st i"
proof (cases "msg_ts (msgh st ! i) = 0")
  case False
  let ?mi = "msg_info st" and ?x = "msgh st ! i" and ?h = "(msgh st)[mp := m]"
  have ne: "i \<noteq> mp" using i mp by auto
  have ts: "unat (msg_ts m) = length bs" unfolding m(1) using m(2) by (simp add: unat_ucast_32_16 unat_of_nat_small)
  have nz: "msg_ts m \<noteq> 0" using ts m(3) by auto
  have "owned (free_set rmp) {j \<in> insert mp (set (concat qs)). msg_ts (?h ! j) \<noteq> 0} (\<lambda>j. text_blk ?mi (?h ! j))"
    using tx by (simp add: texts_def)
  then have dis: "text_blk ?mi ?x \<inter> text_blk ?mi m = {}"
    using i ne mp(2) nz False unfolding owned_def by (metis (mono_tags, lifting) insertCI mem_Collect_eq nth_list_update_eq nth_list_update_neq)
  have par: "msg_params ?mi" using msg_repD(1) [OF rep] .
  have cov: "0 < nseg ?mi (unat (msg_ts y))" "unat (msg_ts y) \<le> nseg ?mi (unat (msg_ts y)) * ssz ?mi" if "msg_ts y \<noteq> 0" for y
    using btoq_nseg [OF par, of "ucast (msg_ts y)"] that unat_bound [of "msg_ts y"] by (auto simp: unat_gt_0)
  have "spot_of ?x + nseg ?mi (unat (msg_ts ?x)) \<le> spot_of m \<or> spot_of m + nseg ?mi (unat (msg_ts m)) \<le> spot_of ?x"
  proof (rule ccontr)
    assume "\<not> ?thesis"
    then have "max (spot_of ?x) (spot_of m) + 1 \<in> text_blk ?mi ?x \<inter> text_blk ?mi m"
      using cov(1) [OF False] cov(1) [OF nz] by (auto simp: text_blk_def)
    then show False using dis by simp
  qed
  then have "ssz ?mi * (spot_of ?x + nseg ?mi (unat (msg_ts ?x))) \<le> ssz ?mi * spot_of m \<or>
      ssz ?mi * (spot_of m + nseg ?mi (unat (msg_ts m))) \<le> ssz ?mi * spot_of ?x" by (metis mult_le_mono2)
  then have apart: "ssz ?mi * spot_of ?x + unat (msg_ts ?x) \<le> off \<or> off + length bs \<le> ssz ?mi * spot_of ?x"
    unfolding off ts [symmetric] using cov(2) [OF False] cov(2) [OF nz] by (auto simp: algebra_simps)
  show ?thesis using put_at_other [OF len text_length(2) [OF rep i False] apart] by (simp add: message_def)
qed (simp add: message_def)

lemma msg_good_map:
  assumes "msg_good st qs fs" "texts (msg_info st) (msgh st) rmp (set (concat qs))"
  shows "msg_good (st\<lparr>msgmap := rmp, msgmap_cv := cv\<rparr>) qs fs" "msg_good (st\<lparr>msgmap := rmp\<rparr>) qs fs"
  using assms by (simp_all add: msg_good_def msg_rep_def)

text \<open>Giving the header back after a failure changes no message.\<close>

lemma give_back:
  assumes wf: "msg_wf st" "k < length (msgque st)" and good: "msg_good st1 qs fs" "kept st k st1" "spare st1 qs fs mp"
    and j: "\<And>j. j < length (msgque st) \<Longrightarrow> msgs st1 j = msgs st j"
  shows "msg_wf (msg_unlock (free_header st1 mp) k)" "msg_info (msg_unlock (free_header st1 mp) k) = msg_info st"
    "same_rview st (msg_unlock (free_header st1 mp) k)"
    "\<And>j. j < length (msgque st) \<Longrightarrow> msgs (msg_unlock (free_header st1 mp) k) j = msgs st j"
proof -
  note f = free_header_good [OF good(1,3)]
  have kp: "kept st k (free_header st1 mp)" using good(2) by (simp add: kept_def free_header_def same_rview_def)
  show "msg_wf (msg_unlock (free_header st1 mp) k)" by (rule kept_wf [OF wf kp f(1)])
  show "msg_info (msg_unlock (free_header st1 mp) k) = msg_info st" using kp by (simp add: kept_def)
  show "same_rview st (msg_unlock (free_header st1 mp) k)" using kp by (simp add: kept_def same_rview_def)
  fix j assume jl: "j < length (msgque st)"
  have l1: "j < length (msgque st1)" using jl good(2) by (simp add: kept_def)
  have "msgs (msg_unlock (free_header st1 mp) k) j = msgs (free_header st1 mp) j" by (rule msgs_frame) simp_all
  also have "\<dots> = map (message st1) (qs ! j)"
    by (rule msgs_same [OF msg_goodD(1) [OF good(1)] msg_goodD(1) [OF f(1)] f(2) _ _ l1 set_nth_concat])
      (use l1 msg_goodD(5) [OF good(1)] in \<open>simp_all add: free_header_def\<close>)
  also have "\<dots> = msgs st1 j" by (rule msgs_rep [OF msg_goodD(1) [OF good(1)] l1, symmetric])
  finally show "msgs (msg_unlock (free_header st1 mp) k) j = msgs st j" using j [OF jl] by simp
qed

text \<open>A message that has its segments and its text in place, and is put on the queue.\<close>

lemma append_message:
  assumes wf: "msg_wf st" "k < length (msgque st)" and good: "msg_good st1 qs fs" "kept st k st1" "spare st1 qs fs mp"
    and used: "ipc_used (msg_perm (msgque st1 ! k))" and cnt: "unat cnt \<le> 65535"
    and j: "\<And>j. j < length (msgque st) \<Longrightarrow> map (message st1) (qs ! j) = msgs st j"
    and tx: "texts (msg_info st1) ((msgh st1)[mp := new_msg ty cnt spot]) (msgmap st1) (insert mp (set (concat qs)))"
    and mt: "message (st1\<lparr>msgh := (msgh st1)[mp := new_msg ty cnt spot]\<rparr>) mp = m"
  shows "msg_wf (msg_unlock (msgsnd_linked st1 c k mp ty cnt spot) k)"
    "msg_info (msg_unlock (msgsnd_linked st1 c k mp ty cnt spot) k) = msg_info st"
    "msgs_plus st k m (msg_unlock (msgsnd_linked st1 c k mp ty cnt spot) k)"
    "rview_woken st k (msg_unlock (msgsnd_linked st1 c k mp ty cnt spot) k)"
proof -
  let ?st = "msgsnd_linked st1 c k mp ty cnt spot" and ?h = "(msgh st1)[mp := new_msg ty cnt spot]"
  have k1: "k < length (msgque st1)" using wf(2) good(2) by (simp add: kept_def)
  note l = msgsnd_linked_good [OF good(1) k1 used good(3) cnt tx, of c]
  have fields: "msg_info ?st = msg_info st1" "msg_pool ?st = msg_pool st1" "length (msgque ?st) = length (msgque st1)"
    "msglocks ?st = msglocks st1"
    by (simp_all add: msgsnd_linked_def)
  have kp: "msglocks ?st = msglocks (msg_locked st k)" "length (msgque ?st) = length (msgque st)"
    using good(2) fields by (simp_all add: kept_def)
  show "msg_wf (msg_unlock ?st k)" by (rule msg_wf_unlock [OF wf kp l(1)])
  show "msg_info (msg_unlock ?st k) = msg_info st" using good(2) fields by (simp add: kept_def)
  have "rview (link_q c mp cnt (msgque st1 ! k)) = ([], snd (rview (msgque st1 ! k)))"
    by (rule link_q_rview [OF msg_goodD(6) [OF good(1) k1]])
  then show "rview_woken st k (msg_unlock ?st k)"
    using good(2) k1 unfolding msgsnd_linked_def by (auto simp: rview_woken_def kept_def same_rview_def nth_list_update)
  have len: "length qs = length (msgque st)" using msg_goodD(5) [OF good(1)] good(2) by (simp add: kept_def)
  have s: "mp < length (msgh st1)" "mp \<notin> set (concat qs)" using good(3) by (simp_all add: spare_def)
  have msg: "message ?st i = message (st1\<lparr>msgh := ?h\<rparr>) i" if "i < length (msgh st1)" for i
    using l(2) that fields by (intro message_same) simp_all
  have old: "message ?st i = message st1 i" if "i \<in> set (concat qs)" for i
  proof -
    have "i \<noteq> mp" "i < length (msgh st1)" using that s hchains_bound [OF msg_repD(4) [OF msg_goodD(1) [OF good(1)]]] by auto
    then show ?thesis using msg [of i] by (simp add: message_def)
  qed
  have un: "msgs (msg_unlock ?st k) j = map (message ?st) (qs[k := qs ! k @ [mp]] ! j)" if "j < length (msgque st)" for j
  proof -
    have "msgs (msg_unlock ?st k) j = msgs ?st j" by (rule msgs_frame) simp_all
    then show ?thesis using msgs_rep [OF msg_goodD(1) [OF l(1)], of j] that good(2) fields by (simp add: kept_def)
  qed
  have oldq: "map (message ?st) (qs ! i) = msgs st i" if "i < length (msgque st)" for i
    using j [OF that] old set_nth_concat [of i qs] that len by (metis (no_types, lifting) map_cong subsetD)
  show "msgs_plus st k m (msg_unlock ?st k)"
    unfolding msgs_plus_def using un oldq wf(2) len msg [OF s(1)] mt by simp
qed

text \<open>How a call ends that has room on its queue and a header: the outcome depends on the room in
  the buffer and on whether the text can be read.\<close>

definition snd_room :: "msg_state \<Rightarrow> nat \<Rightarrow> bool" where
  "snd_room st cnt \<longleftrightarrow> cnt = 0 \<or> (\<exists>x. {x ..< x + nseg (msg_info st) cnt} \<subseteq> free_set (msgmap st))"

definition snd_text :: "msg_uarg \<Rightarrow> int32 \<Rightarrow> byte list" where
  "snd_text um cnt = map (um_text um) [0..<unat cnt]"

definition snd_outcome :: "msg_state \<Rightarrow> nat \<Rightarrow> msgsnda \<Rightarrow> msg_uarg \<Rightarrow> msg_res" where
  "snd_outcome st k a um =
    (let q = msgque st ! k; nowait = (snd_msgflg a AND IPC_NOWAIT \<noteq> 0);
         stop = (\<lambda>w. if nowait then Msg_done (Inl EAGAIN) MOut_none else Msg_sleep w)
     in if snd_msgsz a + msg_cbytes q > msg_qbytes q then stop (W_snd_q k)
        else if msgfp st = None then stop (W_snd_h k)
        else if \<not> snd_room st (unat (snd_msgsz a)) then stop (W_snd_m k)
        else if snd_msgsz a \<noteq> 0 \<and> \<not> um_text_ok um then Msg_done (Inl EFAULT) MOut_none
        else Msg_done (Inr 0) MOut_none)"

definition snd_effect :: "msg_state \<Rightarrow> nat \<Rightarrow> msgsnda \<Rightarrow> msg_uarg \<Rightarrow> int32 \<Rightarrow> msg_res \<Rightarrow> msg_state \<Rightarrow> bool" where
  "snd_effect st k a um ty res st' \<longleftrightarrow>
    (if res = Msg_done (Inr 0) MOut_none then msgs_plus st k (ty, snd_text um (snd_msgsz a)) st' \<and> rview_woken st k st'
     else (\<forall>j<length (msgque st). msgs st' j = msgs st j) \<and> same_rview st st')"

lemma pool_put_at:
  assumes "0 < sint (mi_msgssz (msg_info st))" "ssz (msg_info st) * unat spot + length bs \<le> length (msg_pool st)"
  shows "pool_put st (uint spot) bs = Ret (st\<lparr>msg_pool := put_at (ssz (msg_info st) * unat spot) bs (msg_pool st)\<rparr>)"
proof -
  have "sint (mi_msgssz (msg_info st)) * uint spot = int (ssz (msg_info st) * unat spot)"
    using assms(1) sint_unat [of "mi_msgssz (msg_info st)"] by simp
  then show ?thesis
    using assms(2) unfolding pool_put_def by (simp add: Let_def put_at_def del: of_nat_mult)
qed

text \<open>The text of the message goes into its segments, and the message on its queue.\<close>

lemma send_text:
  assumes wf: "msg_wf st" "k < length (msgque st)" and good: "msg_good st1 qs fs" "kept st k st1" "spare st1 qs fs mp"
    and used: "ipc_used (msg_perm (msgque st1 ! k))" and cnt: "cnt \<noteq> 0" "unat cnt \<le> 65535" and ty: "1 \<le> sint ty"
    and j: "\<And>j. j < length (msgque st) \<Longrightarrow> msgs st1 j = msgs st j"
    and pl: "text_place (msg_info st1) (msgh st1) (set (concat qs)) mp cnt n0 addr rmp"
    and n: "unat cnt \<le> nseg (msg_info st1) (unat cnt) * ssz (msg_info st1)"
  shows "\<exists>st2. pool_put (st1\<lparr>msgmap := rmp\<rparr>) (uint (addr - 1)) (snd_text um cnt) = Ret st2 \<and>
    msgsnd_link st2 c k mp ty cnt (ucast (addr - 1)) = Ret (msgsnd_linked st2 c k mp ty cnt (ucast (addr - 1))) \<and>
    msg_wf (msg_unlock (msgsnd_linked st2 c k mp ty cnt (ucast (addr - 1))) k) \<and>
    msg_info (msg_unlock (msgsnd_linked st2 c k mp ty cnt (ucast (addr - 1))) k) = msg_info st \<and>
    msgs_plus st k (ty, snd_text um cnt) (msg_unlock (msgsnd_linked st2 c k mp ty cnt (ucast (addr - 1))) k) \<and>
    rview_woken st k (msg_unlock (msgsnd_linked st2 c k mp ty cnt (ucast (addr - 1))) k)"
proof -
  let ?mi = "msg_info st1" and ?bs = "snd_text um cnt" and ?m = "new_msg ty cnt (ucast (addr - 1))"
  let ?off = "ssz ?mi * unat (addr - 1)"
  note rep = msg_goodD(1) [OF good(1)]
  note r = msg_repD [OF rep]
  have s: "mp < length (msgh st1)" "mp \<notin> set (concat qs)" using good(3) by (simp_all add: spare_def)
  have bs: "length ?bs = unat cnt" "?bs \<noteq> []" using cnt(1) by (auto simp: snd_text_def unat_gt_0)
  have m: "0 \<le> sint (msg_spot ?m)" "spot_of ?m = unat (addr - 1)"
    "texts ?mi ((msgh st1)[mp := ?m]) rmp (insert mp (set (concat qs)))"
    using text_placeD(4) [OF pl, of ?m] ty by (simp_all add: new_msg_def)
  have len: "?off + length ?bs \<le> length (msg_pool st1)"
  proof -
    have "?off + length ?bs \<le> ssz ?mi * (unat (addr - 1) + nseg ?mi (unat cnt))" using n bs(1) by (simp add: algebra_simps)
    also have "\<dots> \<le> ssz ?mi * unat (mi_msgseg ?mi)" by (rule mult_le_mono2 [OF text_placeD(2) [OF pl]])
    finally show ?thesis using r(3) by simp
  qed
  define st2 where "st2 = st1\<lparr>msgmap := rmp, msg_pool := put_at ?off ?bs (msg_pool st1)\<rparr>"
  have put: "pool_put (st1\<lparr>msgmap := rmp\<rparr>) (uint (addr - 1)) ?bs = Ret st2"
    using pool_put_at [of "st1\<lparr>msgmap := rmp\<rparr>" "addr - 1" ?bs] r(1) len by (simp add: st2_def msg_params_def)
  have good2: "msg_good st2 qs fs"
    by (rule msg_good_frame [OF msg_good_map(2) [OF good(1) text_placeD(1) [OF pl]]]) (use len in \<open>simp_all add: st2_def\<close>)
  have keep: "message st2 i = message st1 i" if "i \<in> set (concat qs)" for i
  proof -
    have "message (st1\<lparr>msg_pool := put_at ?off ?bs (msg_pool st1)\<rparr>) i = message st1 i"
      by (rule put_keeps [OF rep that s(2,1) _ _ bs(2) m(1,3)]) (use bs(1) cnt(2) m(2) len in \<open>simp_all add: new_msg_def\<close>)
    moreover have "message st2 i = message (st1\<lparr>msg_pool := put_at ?off ?bs (msg_pool st1)\<rparr>) i"
      by (simp add: st2_def message_def)
    ultimately show ?thesis by simp
  qed
  have "map (message st2) (qs ! i) = msgs st i" if i: "i < length (msgque st)" for i
  proof -
    have i1: "i < length (msgque st1)" "i < length qs" using i good(2) msg_goodD(5) [OF good(1)] by (simp_all add: kept_def)
    have "map (message st2) (qs ! i) = map (message st1) (qs ! i)" 
      by (intro map_cong refl keep) (use set_nth_concat [OF i1(2)] in blast)
    then show ?thesis using msgs_rep [OF rep i1(1)] j [OF i] by simp
  qed
  moreover have "message (st2\<lparr>msgh := (msgh st2)[mp := ?m]\<rparr>) mp = (ty, ?bs)"
  proof -
    have ts: "unat (msg_ts ?m) = length ?bs" using cnt(2) bs(1) by (simp add: new_msg_def unat_ucast_32_16)
    then have "msg_ts ?m \<noteq> 0" using bs(2) by auto
    then show ?thesis using s(1) m(2) ts put_at_same [OF len] by (simp add: message_def st2_def) (simp add: new_msg_def)
  qed
  moreover have spare2: "spare st2 qs fs mp" using good(3) by (simp add: st2_def spare_def)
  have "msgsnd_link st2 c k mp ty cnt (ucast (addr - 1)) = Ret (msgsnd_linked st2 c k mp ty cnt (ucast (addr - 1)))"
    by (rule msgsnd_link_Ret [OF good2 _ spare2]) (use wf(2) good(2) in \<open>simp add: st2_def kept_def\<close>)
  moreover have "kept st k st2" "spare st2 qs fs mp" "ipc_used (msg_perm (msgque st2 ! k))"
    "texts (msg_info st2) ((msgh st2)[mp := ?m]) (msgmap st2) (insert mp (set (concat qs)))"
    using good(2,3) used m(3) by (simp_all add: st2_def kept_def spare_def same_rview_def)
  moreover from calculation have "msg_wf (msg_unlock (msgsnd_linked st2 c k mp ty cnt (ucast (addr - 1))) k)"
    "msg_info (msg_unlock (msgsnd_linked st2 c k mp ty cnt (ucast (addr - 1))) k) = msg_info st"
    "msgs_plus st k (ty, ?bs) (msg_unlock (msgsnd_linked st2 c k mp ty cnt (ucast (addr - 1))) k)"
    "rview_woken st k (msg_unlock (msgsnd_linked st2 c k mp ty cnt (ucast (addr - 1))) k)"
    by (intro append_message [OF wf good2 _ _ _ cnt(2)]; simp)+
  ultimately show ?thesis using put by blast
qed

lemma msgsnd_text_alloc:
  assumes wf: "msg_wf st" "k < length (msgque st)" and good: "msg_good st1 qs fs" "kept st k st1" "spare st1 qs fs mp"
    and used: "ipc_used (msg_perm (msgque st1 ! k))" and cnt: "snd_msgsz a \<noteq> 0" "unat (snd_msgsz a) \<le> 65535" and ty: "1 \<le> sint ty"
    and j: "\<And>j. j < length (msgque st) \<Longrightarrow> msgs st1 j = msgs st j"
  shows "\<exists>res st'. msgsnd_text st1 c k a um ty mp = Ret (res, st') \<and> msg_wf st' \<and> msg_info st' = msg_info st \<and>
    snd_effect st k a um ty res st' \<and>
    res = (if \<not> snd_room st1 (unat (snd_msgsz a)) then
             (if snd_msgflg a AND IPC_NOWAIT \<noteq> 0 then Msg_done (Inl EAGAIN) MOut_none else Msg_sleep (W_snd_m k))
           else if \<not> um_text_ok um then Msg_done (Inl EFAULT) MOut_none else Msg_done (Inr 0) MOut_none)"
proof -
  let ?cnt = "snd_msgsz a" and ?mi = "msg_info st1" and ?I = "set (concat qs)"
  note r = msg_repD [OF msg_goodD(1) [OF good(1)]]
  have s: "mp < length (msgh st1)" "mp \<notin> ?I" using good(3) by (simp_all add: spare_def)
  have c0: "0 < unat ?cnt" using cnt(1) by (simp add: unat_gt_0)
  obtain n where n: "btoq ?mi ?cnt = Ret n" "unat ?cnt \<le> nseg ?mi (unat ?cnt) * ssz ?mi" using btoq_nseg [OF r(1) c0 cnt(2)] by auto
  obtain addr rmp where al: "rmalloc_locked (msgmap st1) n = Ret (addr, rmp)" "addr = 0 \<Longrightarrow> rmp = msgmap st1"
      "addr = 0 \<longleftrightarrow> \<not> snd_room st1 (unat ?cnt)"
    and ok: "addr \<noteq> 0 \<Longrightarrow> text_place ?mi (msgh st1) ?I mp ?cnt n addr rmp"
    using text_alloc [OF r(1,5) s(2,1) c0 cnt(2) n(1)] c0 unfolding snd_room_def by auto
  have ms: "msgs (st1\<lparr>msgmap := m, msgmap_cv := cv\<rparr>) i = msgs st1 i" for m cv i by (rule msgs_frame) simp_all
  have frame: "kept st k (st1\<lparr>msgmap := m, msgmap_cv := cv\<rparr>)" "spare (st1\<lparr>msgmap := m, msgmap_cv := cv\<rparr>) qs fs mp"
    "\<And>j. j < length (msgque st) \<Longrightarrow> msgs (st1\<lparr>msgmap := m, msgmap_cv := cv\<rparr>) j = msgs st j" for m cv
    using good(2,3) j unfolding ms by (simp_all add: kept_def spare_def same_rview_def)
  show ?thesis
  proof (cases "addr = 0")
    case True
    have want: "msg_good (st1\<lparr>msgmap := (msgmap st1)\<lparr>m_want := w\<rparr>, msgmap_cv := msgmap_cv st1\<rparr>) qs fs" for w
      using r(5) by (intro msg_good_map(1) [OF good(1)]) (simp add: texts_def)
    show ?thesis
    proof (cases "snd_msgflg a AND IPC_NOWAIT = 0")
      case False
      then show ?thesis using give_back [OF wf want [of "m_want (msgmap st1)"] frame] True al n cnt(1)
        by (simp add: msgsnd_text_def Let_def snd_effect_def)
    next
      case nw: True
      let ?st2 = "msg_unlock (free_header (st1\<lparr>msgmap := (msgmap st1)\<lparr>m_want := m_want (msgmap st1) + 1\<rparr>\<rparr>) mp) k"
      have g1: "msg_wf ?st2" "msg_info ?st2 = msg_info st" "same_rview st ?st2" "\<And>j. j < length (msgque st) \<Longrightarrow> msgs ?st2 j = msgs st j"
        using give_back [OF wf want [of "m_want (msgmap st1) + 1"] frame] by simp_all
      let ?st3 = "?st2\<lparr>msgmap_cv := sleepq_insert (ctx_prio c) (msgmap_cv ?st2) (ctx_tid c)\<rparr>"
      have "msg_wf ?st3" by (rule msg_wf_frame [OF g1(1)]) simp_all
      moreover have "msgs ?st3 j = msgs st j" if "j < length (msgque st)" for j
      proof -
        have "msgs ?st3 j = msgs ?st2 j" by (rule msgs_frame) simp_all
        then show ?thesis using g1(4) [OF that] by simp
      qed
      moreover have "same_rview st ?st3" using g1(3) by (simp add: same_rview_def)
      ultimately show ?thesis using g1(2) True al n cnt(1) nw
        by (simp add: msgsnd_text_def Let_def snd_effect_def)
    qed
  next
    case False
    note pl = ok [OF False]
    have room: "snd_room st1 (unat ?cnt)" using False al(3) by simp
    show ?thesis
    proof (cases "um_text_ok um")
      case rd: False
      obtain rmp2 w where f: "rmfree rmp n addr = Ret (rmp2, w)" "texts ?mi (msgh st1) rmp2 ?I" using text_placeD(3) [OF pl] by blast
      let ?cv = "if w then [] else msgmap_cv st1"
      have e: "msgsnd_text st1 c k a um ty mp =
          msg_fail EFAULT (msg_unlock (free_header (st1\<lparr>msgmap := rmp2, msgmap_cv := ?cv\<rparr>) mp) k)"
        using al(1) n(1) cnt(1) False rd f(1) by (simp add: msgsnd_text_def Let_def free_text_def)
      show ?thesis using give_back [OF wf msg_good_map(1) [OF good(1) f(2)] frame] e room rd by (simp add: snd_effect_def)
    next
      case rd: True
      obtain st2 where st2: "pool_put (st1\<lparr>msgmap := rmp\<rparr>) (uint (addr - 1)) (snd_text um ?cnt) = Ret st2"
        "msgsnd_link st2 c k mp ty ?cnt (ucast (addr - 1)) = Ret (msgsnd_linked st2 c k mp ty ?cnt (ucast (addr - 1)))"
        "msg_wf (msg_unlock (msgsnd_linked st2 c k mp ty ?cnt (ucast (addr - 1))) k)"
        "msg_info (msg_unlock (msgsnd_linked st2 c k mp ty ?cnt (ucast (addr - 1))) k) = msg_info st"
        "msgs_plus st k (ty, snd_text um ?cnt) (msg_unlock (msgsnd_linked st2 c k mp ty ?cnt (ucast (addr - 1))) k)"
        "rview_woken st k (msg_unlock (msgsnd_linked st2 c k mp ty ?cnt (ucast (addr - 1))) k)"
        using send_text [OF wf good used cnt ty j pl n(2), of um c] by blast
      have "msgsnd_text st1 c k a um ty mp =
          Ret (Msg_done (Inr 0) MOut_none, msg_unlock (msgsnd_linked st2 c k mp ty ?cnt (ucast (addr - 1))) k)"
        using al(1) n(1) cnt(1) False rd st2(1,2) by (simp add: msgsnd_text_def Let_def snd_text_def)
      then show ?thesis using st2(3-6) rd room by (simp add: snd_effect_def)
    qed
  qed
qed

lemma msgsnd_text_none:
  assumes wf: "msg_wf st" "k < length (msgque st)" and good: "msg_good st1 qs fs" "kept st k st1" "spare st1 qs fs mp"
    and used: "ipc_used (msg_perm (msgque st1 ! k))" and ty: "1 \<le> sint ty"
    and j: "\<And>j. j < length (msgque st) \<Longrightarrow> msgs st1 j = msgs st j"
  shows "msg_wf (msg_unlock (msgsnd_linked st1 c k mp ty 0 (- 1)) k)"
    "msg_info (msg_unlock (msgsnd_linked st1 c k mp ty 0 (- 1)) k) = msg_info st"
    "msgs_plus st k (ty, []) (msg_unlock (msgsnd_linked st1 c k mp ty 0 (- 1)) k)"
    "rview_woken st k (msg_unlock (msgsnd_linked st1 c k mp ty 0 (- 1)) k)"
proof -
  let ?m = "new_msg ty 0 (- 1)" and ?I = "set (concat qs)"
  let ?h = "(msgh st1)[mp := ?m]"
  note rep = msg_goodD(1) [OF good(1)]
  have s: "mp < length (msgh st1)" "mp \<notin> ?I" using good(3) by (simp_all add: spare_def)
  have old: "?h ! i = msgh st1 ! i" if "i \<in> ?I" for i using that s by (metis nth_list_update_neq)
  have "texts (msg_info st1) ?h (msgmap st1) ?I"
    by (rule texts_same [OF msg_repD(5) [OF rep]]) (use old in simp)
  moreover have "{i \<in> insert mp ?I. msg_ts (?h ! i) \<noteq> 0} = {i \<in> ?I. msg_ts (?h ! i) \<noteq> 0}"
    using s by (auto simp: new_msg_def)
  ultimately have "texts (msg_info st1) ?h (msgmap st1) (insert mp ?I)"
    unfolding texts_def using s(1) ty by (simp add: new_msg_def)
  moreover have "map (message st1) (qs ! i) = msgs st i" if i: "i < length (msgque st)" for i
    using msgs_rep [OF rep, of i] j [OF i] good(2) i by (simp add: kept_def)
  moreover have "message (st1\<lparr>msgh := ?h\<rparr>) mp = (ty, [])" using s(1) by (simp add: message_def new_msg_def)
  ultimately show "msg_wf (msg_unlock (msgsnd_linked st1 c k mp ty 0 (- 1)) k)"
    "msg_info (msg_unlock (msgsnd_linked st1 c k mp ty 0 (- 1)) k) = msg_info st"
    "msgs_plus st k (ty, []) (msg_unlock (msgsnd_linked st1 c k mp ty 0 (- 1)) k)"
    "rview_woken st k (msg_unlock (msgsnd_linked st1 c k mp ty 0 (- 1)) k)"
    by (intro append_message [OF wf good used]; simp)+
qed

lemma msgsnd_locked_spec:
  assumes wf: "msg_wf st" and k: "k < length (msgque st)" and used: "ipc_used (msg_perm (msgque st ! k))"
    and cnt: "unat (snd_msgsz a) \<le> 65535" and ty: "1 \<le> sint ty"
  shows "\<exists>st'. msgsnd_locked (msg_locked st k) c k a um ty = Ret (snd_outcome st k a um, st') \<and> msg_wf st' \<and> msg_info st' = msg_info st \<and>
    snd_effect st k a um ty (snd_outcome st k a um) st'"
proof -
  obtain qs fs where good: "msg_good st qs fs" using wf by (auto simp: msg_wf_def)
  let ?st = "msg_locked st k"
  have good0: "msg_good ?st qs fs" by (rule msg_good_frame [OF good]) simp_all
  have un: "msg_unlock ?st k = st" by (rule msg_wf_unlocked [OF wf k])
  consider (full) "snd_msgsz a + msg_cbytes (msgque st ! k) > msg_qbytes (msgque st ! k)"
    | (nohdr) "\<not> snd_msgsz a + msg_cbytes (msgque st ! k) > msg_qbytes (msgque st ! k)" "msgfp st = None"
    | (hdr) mp where "\<not> snd_msgsz a + msg_cbytes (msgque st ! k) > msg_qbytes (msgque st ! k)" "msgfp st = Some mp"
    by (cases "msgfp st") auto
  then show ?thesis
  proof cases
    case full
    show ?thesis
    proof (cases "snd_msgflg a AND IPC_NOWAIT = 0")
      case True
      let ?f = "\<lambda>q. (set_mode (\<lambda>m. m OR MSG_WWAIT) q)\<lparr>msg_cv := sleepq_insert (ctx_prio c) (msg_cv q) (ctx_tid c)\<rparr>"
      let ?st' = "msg_unlock (upd_q ?st k ?f) k"
      have "queue_ok (msg_info st) k (msgque st ! k) (qs ! k)" by (rule msg_goodD(6) [OF good k])
      then have "msg_good (upd_q ?st k ?f) qs fs"
        using used by (intro msg_good_upd_q [OF good0]) (simp_all add: queue_ok_def set_mode_def ipc_used_def)
      then have w: "msg_wf ?st'" by (intro msg_wf_unlock [OF wf k]) simp_all
      have e: "upd_q (msg_unlock (upd_q ?st k (set_mode (\<lambda>m. m OR MSG_WWAIT))) k) k
          (\<lambda>q. q\<lparr>msg_cv := sleepq_insert (ctx_prio c) (msg_cv q) (ctx_tid c)\<rparr>) = ?st'"
        using k by (simp add: upd_q_def msg_unlock_def upd_l_def set_mode_def)
      have "msgs ?st' j = msgs st j" if "j < length (msgque st)" for j
        using that by (intro msgs_frame) (cases "j = k"; simp add: set_mode_def)+
      moreover have "same_rview st ?st'"
        by (rule same_rview_upd [where k = k and q = "?f (msgque st ! k)"]) (simp_all add: rview_def set_mode_def ipc_used_def)
      ultimately show ?thesis using w full True e
        by (intro exI [of _ ?st']) (simp add: msgsnd_locked_def snd_outcome_def snd_effect_def Let_def)
    next
      case False
      then show ?thesis using full wf un by (intro exI [of _ st]) (simp add: msgsnd_locked_def snd_outcome_def snd_effect_def Let_def)
    qed
  next
    case nohdr
    let ?st' = "st\<lparr>msgfp_cv := sleepq_insert (ctx_prio c) (msgfp_cv st) (ctx_tid c)\<rparr>"
    have e: "(upd_l ?st k (\<lambda>l. l\<lparr>msglock_lock := 0\<rparr>))
        \<lparr>msgfp_cv := sleepq_insert (ctx_prio c) (msgfp_cv (upd_l ?st k (\<lambda>l. l\<lparr>msglock_lock := 0\<rparr>))) (ctx_tid c)\<rparr> = ?st'"
    proof -
      have l: "msglocks st ! k = idle_lock" "k < length (msglocks st)" using msg_wfD(3) [OF wf] k by (simp_all add: locks_idle_def)
      have "idle_lock\<lparr>msglock_lock := 0\<rparr> = idle_lock" by (simp add: idle_lock_def)
      then have "upd_l ?st k (\<lambda>l. l\<lparr>msglock_lock := 0\<rparr>) = st"
        using l list_update_id [of "msglocks st" k] by (simp add: upd_l_def msg_locked_def)
      then show ?thesis by simp
    qed
    have "msg_wf ?st'" using good nohdr(2) msg_wfD(3) [OF wf]
      unfolding msg_wf_def locks_idle_def by (auto simp: msg_good_def msg_rep_def intro!: exI [of _ qs] exI [of _ fs])
    moreover have "msgs ?st' j = msgs st j" for j by (rule msgs_frame) simp_all
    moreover have "same_rview st ?st'" by (rule same_rviewI) simp
    ultimately show ?thesis using nohdr e un wf
      by (intro exI [of _ "if snd_msgflg a AND IPC_NOWAIT = 0 then ?st' else st"])
        (simp add: msgsnd_locked_def snd_outcome_def snd_effect_def Let_def)
  next
    case hdr
    have fp0: "msgfp ?st = Some mp" using hdr by simp
    obtain fs' where g1: "msg_good (?st\<lparr>msgfp := msg_next (msgh ?st ! mp)\<rparr>) qs fs'" and sp: "spare ?st qs fs' mp"
      using pop_header [OF good0 fp0] by blast
    let ?st1 = "?st\<lparr>msgfp := msg_next (msgh st ! mp)\<rparr>"
    have g: "msg_good ?st1 qs fs'" "kept st k ?st1" "spare ?st1 qs fs' mp" "ipc_used (msg_perm (msgque ?st1 ! k))"
      using g1 sp used by (simp_all add: kept_def spare_def same_rview_def)
    have ms: "msgs ?st1 j = msgs st j" for j by (rule msgs_frame) simp_all
    have room: "snd_room ?st1 (unat (snd_msgsz a)) = snd_room st (unat (snd_msgsz a))" by (simp add: snd_room_def)
    have step: "msgsnd_locked ?st c k a um ty = msgsnd_text ?st1 c k a um ty mp"
      using hdr sp by (simp add: msgsnd_locked_def Let_def spare_def)
    show ?thesis
    proof (cases "snd_msgsz a = 0")
      case True
      note z = msgsnd_text_none [OF wf k g ty ms, of c]
      have "msgsnd_locked ?st c k a um ty = Ret (Msg_done (Inr 0) MOut_none, msg_unlock (msgsnd_linked ?st1 c k mp ty 0 (- 1)) k)"
        unfolding step using True msgsnd_link_Ret [OF g(1) _ g(3), of k] k by (simp add: msgsnd_text_def)
      moreover have "snd_outcome st k a um = Msg_done (Inr 0) MOut_none"
        using True hdr by (simp add: snd_outcome_def snd_room_def Let_def)
      ultimately show ?thesis using z True by (simp add: snd_effect_def snd_text_def)
    next
      case False
      then show ?thesis using msgsnd_text_alloc [OF wf k g False cnt ty ms, of c um] hdr
        unfolding step room by (auto simp: snd_outcome_def Let_def)
    qed
  qed
qed

lemma msgsnd_checks:
  assumes wf: "msg_wf st"
  shows "msgsnd st c a um =
    (case msg_find st (snd_msqid a) of
       None \<Rightarrow> msg_fail EINVAL st
     | Some k \<Rightarrow>
         (case ipcaccess (msg_perm (msgque st ! k)) MSG_W (ctx_cred c) of
            Some e \<Rightarrow> msg_fail e st
          | None \<Rightarrow>
              if sint (snd_msgsz a) < 0 \<or> sint (snd_msgsz a) > sint (mi_msgmax (msg_info st)) then msg_fail EINVAL st
              else (case um_type um of
                      None \<Rightarrow> msg_fail EFAULT st
                    | Some ty \<Rightarrow> if sint ty < 1 then msg_fail EINVAL st
                        else msgsnd_locked (msg_locked st k) c k a um ty)))"
proof (cases "msg_find st (snd_msqid a)")
  case (Some k)
  have "msg_unlock (msg_locked st k) k = st"
    by (rule msg_wf_unlocked [OF wf msg_find_bound(1) [OF msg_wfD(1,2) [OF wf] Some]])
  then show ?thesis using Some wf
    by (simp add: msgsnd_def msgsnd_getres_def msgconv_wf msg_again_wf split: option.split)
qed (simp add: msgsnd_def msgconv_wf [OF wf])

end
