(* ===== verification/Msg_Ctl.thy ===== *)
theory Msg_Ctl
  imports Msg_Inv
begin

text \<open>
  Creating, changing and removing message queues: what \<open>msgget\<close> and the commands of \<open>msgctl\<close> do
  to the queues and to the identifiers that name them.
\<close>

section \<open>Removing all messages of a queue\<close>

lemma unlink_q_first: "msg_first (unlink_q None nx q) = nx"
  by (simp add: unlink_q_def)

lemma msgfree_all_rep:
  assumes "msg_rep st qs fs" "k < length (msgque st)" "length (qs ! k) \<le> n"
  shows "\<exists>st' fs' q'. msgfree_all n st k = Ret st' \<and> msg_rep st' (qs[k := []]) fs' \<and> same_data (msgh st) (msgh st') \<and>
    msg_info st' = msg_info st \<and> msg_pool st' = msg_pool st \<and> msglocks st' = msglocks st \<and> msg_acflag st' = msg_acflag st \<and>
    msgque st' = (msgque st)[k := q'] \<and> rview q' = rview (msgque st ! k)"
  using assms
proof (induction n arbitrary: st qs fs)
  case 0
  have "msg_first (msgque st ! k) = None"
    using lseg_hd [OF hchainsD(4) [OF msg_repD(4) [OF 0(1)] 0(2)]] 0(3) by simp
  then have "msgfree_all 0 st k = Ret st" by (simp add: msgfree_all.simps)
  moreover have "qs[k := []] = qs" using 0(3) by (metis le_zero_eq length_0_conv list_update_id)
  ultimately show ?case using 0(1) by (intro exI [of _ st] exI [of _ fs] exI [of _ "msgque st ! k"]) simp
next
  case (Suc n)
  note l = hchainsD(4) [OF msg_repD(4) [OF Suc.prems(1)] Suc.prems(2)]
  show ?case
  proof (cases "qs ! k")
    case Nil
    then have "msg_first (msgque st ! k) = None" using lseg_hd [OF l] by simp
    then have "msgfree_all (Suc n) st k = Ret st" by (simp add: msgfree_all.simps)
    moreover have "qs[k := []] = qs" using Nil by (metis list_update_id)
    ultimately show ?thesis using Suc.prems(1) by (intro exI [of _ st] exI [of _ fs] exI [of _ "msgque st ! k"]) simp
  next
    case (Cons i bs)
    then have fst: "msg_first (msgque st ! k) = Some i" using lseg_hd [OF l] by simp
    obtain st1 where f: "msgfree st k None i = Ret st1" "msg_rep st1 (qs[k := bs]) (i # fs)" "same_data (msgh st) (msgh st1)"
      "msg_info st1 = msg_info st" "msg_pool st1 = msg_pool st" "msglocks st1 = msglocks st" "msg_acflag st1 = msg_acflag st"
      "msgque st1 = (msgque st)[k := unlink_q None (msg_next (msgh st ! i)) (msgque st ! k)]"
      using msgfree_rep [OF Suc.prems(1,2), of "[]" i bs None] Cons by auto
    have kq: "k < length qs" using msg_repD(8) [OF Suc.prems(1)] Suc.prems(2) by simp
    have k1: "k < length (msgque st1)" using Suc.prems(2) f(8) by simp
    have le: "length (qs[k := bs] ! k) \<le> n" using Suc.prems(3) Cons kq by simp
    have rv: "rview (msgque st1 ! k) = rview (msgque st ! k)"
      using f(8) Suc.prems(2) by (simp add: unlink_q_def wake_writers_def set_mode_def ipc_used_def rview_def)
    obtain st' fs' q' where r: "msgfree_all n st1 k = Ret st'" "msg_rep st' (qs[k := []]) fs'" "same_data (msgh st1) (msgh st')"
      "msg_info st' = msg_info st1" "msg_pool st' = msg_pool st1" "msglocks st' = msglocks st1" "msg_acflag st' = msg_acflag st1"
      "msgque st' = (msgque st1)[k := q']" "rview q' = rview (msgque st1 ! k)"
      using Suc.IH [OF f(2) k1 le] by auto
    have "msgfree_all (Suc n) st k = Ret st'" using fst f(1) r(1) by (simp add: msgfree_all.simps [of "Suc n"])
    then show ?thesis using r f(3-8) rv same_data_trans [OF f(3) r(3)] by (intro exI [of _ st'] exI [of _ fs'] exI [of _ q']) simp
  qed
qed

section \<open>IPC_RMID\<close>

definition rm_q :: "int32 \<Rightarrow> int32 \<Rightarrow> msqid_ds \<Rightarrow> msqid_ds" where
  "rm_q mni msgid q =
    (let s = (if sint (msgid + mni) < 0 then 0 else perm_seq (msg_perm q) + 1);
         q1 = q\<lparr>msg_cbytes := 0, msg_perm := (msg_perm q)\<lparr>perm_seq := s\<rparr>\<rparr>;
         q2 = (if q_mode q1 AND MSG_RWAIT \<noteq> 0 then q1\<lparr>msg_qnum_cv := []\<rparr> else q1);
         q3 = (if q_mode q2 AND MSG_WWAIT \<noteq> 0 then q2\<lparr>msg_cv := []\<rparr> else q2)
     in set_mode (\<lambda>_. 0) q3)"

lemma msgctl_rmid_eq:
  "msgctl_rmid st c d k =
    (if \<not> fst (ipc_owner (msg_perm (msgque st ! k)) (ctx_cred c) (msg_acflag st))
     then msg_fail EPERM (st\<lparr>msg_acflag := snd (ipc_owner (msg_perm (msgque st ! k)) (ctx_cred c) (msg_acflag st))\<rparr>)
     else kbind (msgfree_all (length (msgh st)) (st\<lparr>msg_acflag := snd (ipc_owner (msg_perm (msgque st ! k)) (ctx_cred c) (msg_acflag st))\<rparr>) k)
       (\<lambda>st1. Ret (Msg_done (Inr 0) MOut_none, upd_q st1 k (rm_q (mi_msgmni (msg_info st1)) d))))"
  by (simp only: msgctl_rmid_def rm_q_def [abs_def] case_prod_beta)

lemma rm_q_simps [simp]:
  "msg_first (rm_q mni d q) = msg_first q" "msg_last (rm_q mni d q) = msg_last q" "msg_cbytes (rm_q mni d q) = 0"
  "msg_qnum (rm_q mni d q) = msg_qnum q" "perm_seq (msg_perm (rm_q mni d q)) = msg_bump mni d (perm_seq (msg_perm q))"
  "q_mode (rm_q mni d q) = 0" "\<not> ipc_used (msg_perm (rm_q mni d q))"
  by (simp_all add: rm_q_def Let_def set_mode_def msg_bump_def ipc_used_def)

lemma rm_q_ok:
  assumes "queue_ok mi k q []" "seq_ok (mi_msgmni mi) k (msg_bump (mi_msgmni mi) d (perm_seq (msg_perm q)))"
  shows "queue_ok mi k (rm_q (mi_msgmni mi) d q) []" "msg_qnum_cv (rm_q (mi_msgmni mi) d q) = []"
proof -
  show c: "msg_qnum_cv (rm_q (mi_msgmni mi) d q) = []"
    using assms(1) by (auto simp: rm_q_def Let_def set_mode_def queue_ok_def)
  have "msg_cv (rm_q (mi_msgmni mi) d q) = []"
    using assms(1) by (auto simp: rm_q_def Let_def set_mode_def queue_ok_def)
  then show "queue_ok mi k (rm_q (mi_msgmni mi) d q) []" using assms c by (simp add: queue_ok_def)
qed

lemma msg_find_bump:
  assumes wf: "msg_wf st" and f: "msg_find st d = Some k"
  shows "seq_ok (mi_msgmni (msg_info st)) k (msg_bump (mi_msgmni (msg_info st)) d (perm_seq (msg_perm (msgque st ! k))))"
    "msg_bump (mi_msgmni (msg_info st)) d (perm_seq (msg_perm (msgque st ! k))) \<noteq> perm_seq (msg_perm (msgque st ! k))"
proof -
  let ?n = "mi_msgmni (msg_info st)"
  note b = msg_find_bound [OF msg_wfD(1,2) [OF wf] f]
  have m: "0 < sint ?n" "sint ?n \<le> 1073741824" using msg_wfD(1) [OF wf] by (simp_all add: msg_params_def)
  have acc: "msg_accept ?n d" using m b(3) by (simp add: msg_accept_def)
  have s: "sint ?n \<le> 1073741824 \<and> seq_ok ?n (msg_idx ?n d) (msg_sq ?n d)" using m(2) id_parts(2) [OF b(3)] by blast
  show "seq_ok ?n k (msg_bump ?n d (perm_seq (msg_perm (msgque st ! k))))"
    using mid.bump_ok [OF acc s] b(4,5) by simp
  show "msg_bump ?n d (perm_seq (msg_perm (msgque st ! k))) \<noteq> perm_seq (msg_perm (msgque st ! k))"
    using mid.bump_new [OF acc s] b(5) by simp
qed

text \<open>Removing a queue: its entry is free, nobody waits on it, and the others are as they were.\<close>

definition rmid_effect :: "msg_state \<Rightarrow> int32 \<Rightarrow> nat \<Rightarrow> msg_state \<Rightarrow> bool" where
  "rmid_effect st d k st' \<longleftrightarrow> length (msgque st') = length (msgque st) \<and>
    (\<forall>j<length (msgque st). j \<noteq> k \<longrightarrow> msgs st' j = msgs st j \<and> msgque st' ! j = msgque st ! j) \<and> msgs st' k = [] \<and>
    rview (msgque st' ! k) = ([], msg_bump (mi_msgmni (msg_info st)) d (perm_seq (msg_perm (msgque st ! k))), False)"

lemma msgctl_rmid_spec:
  assumes wf: "msg_wf st" and f: "msg_find st d = Some k"
  shows "\<exists>st1. msgctl_rmid (msg_locked st k) c d k =
      (if fst (ipc_owner (msg_perm (msgque st ! k)) (ctx_cred c) (msg_acflag st)) then Ret (Msg_done (Inr 0) MOut_none, st1)
       else msg_fail EPERM ((msg_locked st k)\<lparr>msg_acflag := snd (ipc_owner (msg_perm (msgque st ! k)) (ctx_cred c) (msg_acflag st))\<rparr>)) \<and>
    msg_wf (msg_unlock st1 k) \<and> msg_info (msg_unlock st1 k) = msg_info st \<and> rmid_effect st d k (msg_unlock st1 k)"
proof -
  obtain qs fs where good: "msg_good st qs fs" using wf by (auto simp: msg_wf_def)
  note b = msg_find_bound [OF msg_wfD(1,2) [OF wf] f]
  note rep = msg_goodD(1) [OF good]
  let ?n = "mi_msgmni (msg_info st)"
  let ?ac = "snd (ipc_owner (msg_perm (msgque st ! k)) (ctx_cred c) (msg_acflag st))"
  let ?st = "(msg_locked st k)\<lparr>msg_acflag := ?ac\<rparr>"
  have rep0: "msg_rep ?st qs fs" by (rule msg_rep_frame [OF rep]) simp_all
  have k0: "k < length (msgque ?st)" using b(1) by simp
  have len: "length (qs ! k) \<le> length (msgh st)"
  proof -
    have "distinct (qs ! k)" using hchainsD(3) [OF msg_repD(4) [OF rep]] b(1) msg_repD(8) [OF rep] nth_mem [of k qs]
      by (auto simp: distinct_concat_iff)
    then show ?thesis using lseg_bound [OF hchainsD(4) [OF msg_repD(4) [OF rep] b(1)]] by (intro distinct_bounded_length)
  qed
  obtain st2 fs' q' where r: "msgfree_all (length (msgh st)) ?st k = Ret st2" "msg_rep st2 (qs[k := []]) fs'" "same_data (msgh st) (msgh st2)"
    "msg_info st2 = msg_info st" "msg_pool st2 = msg_pool st" "msglocks st2 = msglocks (msg_locked st k)"
    "msgque st2 = (msgque st)[k := q']" "rview q' = rview (msgque st ! k)"
    using msgfree_all_rep [OF rep0 k0 len] by auto
  define st1 where "st1 = upd_q st2 k (rm_q ?n d)"
  have kq: "k < length qs" using b(1) msg_repD(8) [OF rep] by simp
  have que: "msgque st1 = (msgque st)[k := rm_q ?n d q']" using r(7) b(1) by (simp add: st1_def)
  have seq: "perm_seq (msg_perm q') = perm_seq (msg_perm (msgque st ! k))" using r(8) by (simp add: rview_def)
  have qok: "queue_ok (msg_info st) k q' []" using msg_repD(6) [OF r(2), of k] r(4,7) b(1) kq by simp
  have rq: "queue_ok (msg_info st) k (rm_q ?n d q') []" "msg_qnum_cv (rm_q ?n d q') = []"
    using rm_q_ok [OF qok] msg_find_bump(1) [OF wf f] seq by simp_all
  have rep1: "msg_rep st1 (qs[k := []]) fs'"
    unfolding st1_def by (rule msg_rep_upd_q [OF r(2)]) (use rq r(4,7) b(1) kq in simp_all)
  have good1: "msg_good st1 (qs[k := []]) fs'"
  proof -
    have "bytes_ok (msgh st1) (msgque st1 ! j) (qs[k := []] ! j)" if j: "j < length (msgque st1)" for j
    proof (cases "j = k")
      case True
      then show ?thesis using que b(1) kq by (simp add: bytes_ok_def)
    next
      case False
      have jl: "j < length (msgque st)" using j que by simp
      have "bytes_ok (msgh st1) (msgque st1 ! j) (qs ! j)"
        by (rule bytes_ok_same [OF msg_goodD(2) [OF good jl]])
          (use r(3) queue_in_heap(1) [OF rep jl] que False in \<open>simp_all add: st1_def\<close>)
      then show ?thesis using False by simp
    qed
    then show ?thesis using rep1 by (simp add: msg_good_def)
  qed
  have w: "msg_wf (msg_unlock st1 k)"
    by (rule msg_wf_unlock [OF wf b(1) _ _ good1]) (use r(6) que in \<open>simp_all add: st1_def\<close>)
  have ms: "msgs (msg_unlock st1 k) j = (if j = k then [] else msgs st j)" if j: "j < length (msgque st)" for j
  proof -
    have "set (qs[k := []] ! j) \<subseteq> set (concat qs)"
      using set_nth_concat [of j qs] j msg_repD(8) [OF rep] by (cases "j = k") simp_all
    moreover have "msgs (msg_unlock st1 k) j = msgs st1 j" by (rule msgs_frame) simp_all
    ultimately have "msgs (msg_unlock st1 k) j = map (message st) (qs[k := []] ! j)"
      using msgs_same [OF rep rep1 _ _ _ j] r(3-5) by (simp add: st1_def)
    then show ?thesis using msgs_rep [OF rep j] kq by (cases "j = k") simp_all
  qed
  have "rmid_effect st d k (msg_unlock st1 k)"
    unfolding rmid_effect_def using ms que b(1) rq(2) seq by (simp add: rview_def)
  moreover have "msgctl_rmid (msg_locked st k) c d k =
      (if fst (ipc_owner (msg_perm (msgque st ! k)) (ctx_cred c) (msg_acflag st)) then Ret (Msg_done (Inr 0) MOut_none, st1)
       else msg_fail EPERM ?st)"
    using r(1,4) by (simp add: msgctl_rmid_eq st1_def)
  ultimately show ?thesis using w r(4) by (intro exI [of _ st1]) (simp add: st1_def)
qed

section \<open>The other commands\<close>

text \<open>A change of the permissions and limits of a queue leaves its messages and its waiters alone.\<close>

definition harmless :: "(msqid_ds \<Rightarrow> msqid_ds) \<Rightarrow> bool" where
  "harmless f \<longleftrightarrow> (\<forall>q. msg_first (f q) = msg_first q \<and> msg_last (f q) = msg_last q \<and> msg_cbytes (f q) = msg_cbytes q \<and>
     msg_qnum (f q) = msg_qnum q \<and> rview (f q) = rview q \<and> msg_cv (f q) = msg_cv q \<and>
     q_mode (f q) AND MSG_RWAIT = q_mode q AND MSG_RWAIT \<and> q_mode (f q) AND MSG_WWAIT = q_mode q AND MSG_WWAIT)"

definition set_q :: "int32 \<Rightarrow> int32 \<Rightarrow> ulong \<Rightarrow> ulong \<Rightarrow> int32 \<Rightarrow> msqid_ds \<Rightarrow> msqid_ds" where
  "set_q uid gid mode qb now q = q\<lparr>msg_perm := (msg_perm q)\<lparr>perm_uid := uid, perm_gid := gid,
     perm_mode := (q_mode q AND NOT ACCBITS) OR (mode AND ACCBITS)\<rparr>, msg_qbytes := qb, msg_ctime := now\<rparr>"

lemma harmless_set_q: "harmless (set_q uid gid mode qb now)"
  by (simp add: harmless_def set_q_def rview_def ipc_used_def)

lemma harmless_id: "harmless (\<lambda>q. q)"
  by (simp add: harmless_def)

lemma harmless_wf:
  assumes wf: "msg_wf st" and k: "k < length (msgque st)" and used: "ipc_used (msg_perm (msgque st ! k))" and f: "harmless f"
    and st1: "st1 = upd_q ((msg_locked st k)\<lparr>msg_acflag := ac\<rparr>) k f"
  shows "msg_wf (msg_unlock st1 k) \<and> msg_info (msg_unlock st1 k) = msg_info st \<and> same_rview st (msg_unlock st1 k) \<and>
    (\<forall>j<length (msgque st). msgs (msg_unlock st1 k) j = msgs st j)"
proof -
  let ?st = "(msg_locked st k)\<lparr>msg_acflag := ac\<rparr>"
  note h = f [unfolded harmless_def, rule_format]
  obtain qs fs where good: "msg_good st qs fs" using wf by (auto simp: msg_wf_def)
  have good0: "msg_good ?st qs fs" by (rule msg_good_frame [OF good]) simp_all
  have u: "ipc_used (msg_perm (f (msgque st ! k)))" "perm_seq (msg_perm (f (msgque st ! k))) = perm_seq (msg_perm (msgque st ! k))"
    "msg_qnum_cv (f (msgque st ! k)) = msg_qnum_cv (msgque st ! k)"
    using used h [of "msgque st ! k"] by (auto simp: rview_def)
  have "queue_ok (msg_info st) k (msgque st ! k) (qs ! k)" by (rule msg_goodD(6) [OF good k])
  then have "queue_ok (msg_info st) k (f (msgque st ! k)) (qs ! k)"
    using h [of "msgque st ! k"] u by (simp add: queue_ok_def)
  then have "msg_good st1 qs fs" unfolding st1 using h by (intro msg_good_upd_q [OF good0]) simp_all
  then have "msg_wf (msg_unlock st1 k)" by (intro msg_wf_unlock [OF wf k]) (simp_all add: st1)
  moreover have "same_rview st (msg_unlock st1 k)"
    by (rule same_rview_upd [where k = k and q = "f (msgque st ! k)"]) (simp_all add: st1 h)
  moreover have "msgs (msg_unlock st1 k) j = msgs st j" if "j < length (msgque st)" for j
    by (rule msgs_frame) (use that h in \<open>cases "j = k"; simp add: st1\<close>)+
  ultimately show ?thesis by (simp add: st1)
qed

text \<open>All other commands end in such a state, with or without a change of the queue.\<close>

definition ctl_quiet :: "msg_state \<Rightarrow> nat \<Rightarrow> msg_ret \<Rightarrow> bool" where
  "ctl_quiet st k r \<longleftrightarrow> (\<exists>res out ac f. r = Ret (Msg_done res out, upd_q (st\<lparr>msg_acflag := ac\<rparr>) k f) \<and> harmless f)"

lemma upd_q_id: "upd_q st k (\<lambda>q. q) = st"
  by (simp add: upd_q_def)

lemma ctl_quiet_same: "ctl_quiet st k (Ret (Msg_done res out, st\<lparr>msg_acflag := ac\<rparr>))" "ctl_quiet st k (Ret (Msg_done res out, st))"
proof -
  show "ctl_quiet st k (Ret (Msg_done res out, st\<lparr>msg_acflag := ac\<rparr>))" for ac
    unfolding ctl_quiet_def
    by (intro exI [of _ res] exI [of _ out] exI [of _ ac] exI [of _ "\<lambda>q. q"]) (simp add: upd_q_id harmless_id)
  from this [of "msg_acflag st"] show "ctl_quiet st k (Ret (Msg_done res out, st))" by simp
qed

lemma msgctl_set_quiet: "ctl_quiet st k (msgctl_set st c k arg)"
proof -
  have upd: "ctl_quiet st k (Ret (Msg_done (Inr 0) MOut_none, upd_q (st\<lparr>msg_acflag := ac\<rparr>) k (\<lambda>q. q\<lparr>msg_perm := (msg_perm q)
      \<lparr>perm_uid := uid, perm_gid := gid, perm_mode := (q_mode q AND NOT ACCBITS) OR (mode AND ACCBITS)\<rparr>, msg_qbytes := qb, msg_ctime := now\<rparr>)))"
    for ac uid gid mode qb now
    using harmless_set_q [of uid gid mode qb now] unfolding ctl_quiet_def set_q_def [abs_def] by blast
  show ?thesis unfolding msgctl_set_def Let_def case_prod_beta using upd ctl_quiet_same by (simp split: option.split)
qed

lemma msgctl_o_set_quiet: "ctl_quiet st k (msgctl_o_set st c k arg)"
proof -
  have upd: "ctl_quiet st k (Ret (Msg_done (Inr 0) MOut_none, upd_q (st\<lparr>msg_acflag := ac\<rparr>) k (\<lambda>q. q\<lparr>msg_perm := (msg_perm q)
      \<lparr>perm_uid := uid, perm_gid := gid, perm_mode := (q_mode q AND NOT ACCBITS) OR (mode AND ACCBITS)\<rparr>, msg_qbytes := qb, msg_ctime := now\<rparr>)))"
    for ac uid gid mode qb now
    using harmless_set_q [of uid gid mode qb now] unfolding ctl_quiet_def set_q_def [abs_def] by blast
  show ?thesis unfolding msgctl_o_set_def Let_def case_prod_beta using upd ctl_quiet_same by (simp split: option.split)
qed

lemma msgctl_stat_quiet: "ctl_quiet st k (msgctl_stat st c k wr)" "ctl_quiet st k (msgctl_o_stat st c k wr)"
  by (auto simp: msgctl_stat_def msgctl_o_stat_def Let_def ctl_quiet_same split: option.split)

text \<open>What a call of \<open>msgctl\<close> does, in one of two ways.\<close>

lemma msgctl_spec:
  assumes wf: "msg_wf st"
  shows "\<exists>res out st'. msgctl st c d cmd arg = Ret (Msg_done res out, st') \<and> msg_wf st' \<and> msg_info st' = msg_info st \<and>
    ((\<exists>k. msg_find st d = Some k \<and> res = Inr 0 \<and> out = MOut_none \<and> (cmd = IPC_RMID \<or> cmd = IPC_O_RMID) \<and> rmid_effect st d k st') \<or>
     (same_rview st st' \<and> (\<forall>j<length (msgque st). msgs st' j = msgs st j) \<and> ((cmd = IPC_RMID \<or> cmd = IPC_O_RMID) \<longrightarrow> res \<noteq> Inr 0)))"
proof (cases "msg_find st d")
  case None
  then show ?thesis using wf by (simp add: msgctl_def msgconv_wf)
next
  case (Some k)
  note b = msg_find_bound [OF msg_wfD(1,2) [OF wf] Some]
  let ?st = "msg_locked st k"
  have e: "msgctl st c d cmd arg = kbind (msgctl_cmd ?st c d k cmd arg) (\<lambda>(res, st1). Ret (res, msg_unlock st1 k))"
    using Some wf by (simp add: msgctl_def msgconv_wf)
  show ?thesis
  proof (cases "cmd = IPC_O_RMID \<or> cmd = IPC_RMID")
    case True
    obtain st1 where r: "msgctl_rmid ?st c d k =
      (if fst (ipc_owner (msg_perm (msgque st ! k)) (ctx_cred c) (msg_acflag st)) then Ret (Msg_done (Inr 0) MOut_none, st1)
       else msg_fail EPERM (?st\<lparr>msg_acflag := snd (ipc_owner (msg_perm (msgque st ! k)) (ctx_cred c) (msg_acflag st))\<rparr>))"
      "msg_wf (msg_unlock st1 k)" "msg_info (msg_unlock st1 k) = msg_info st" "rmid_effect st d k (msg_unlock st1 k)"
      using msgctl_rmid_spec [OF wf Some, of c] by blast
    have cmd: "msgctl_cmd ?st c d k cmd arg = msgctl_rmid ?st c d k" using True by (auto simp: msgctl_cmd_def)
    show ?thesis
    proof (cases "fst (ipc_owner (msg_perm (msgque st ! k)) (ctx_cred c) (msg_acflag st))")
      case own: True
      then have "msgctl st c d cmd arg = Ret (Msg_done (Inr 0) MOut_none, msg_unlock st1 k)" using e cmd r(1) by simp
      then show ?thesis using r Some True by auto
    next
      case False
      let ?st1 = "?st\<lparr>msg_acflag := snd (ipc_owner (msg_perm (msgque st ! k)) (ctx_cred c) (msg_acflag st))\<rparr>"
      have "msgctl st c d cmd arg = msg_fail EPERM (msg_unlock ?st1 k)" using False e cmd r(1) by simp
      then show ?thesis using harmless_wf [OF wf b(1,2) harmless_id, of ?st1] by (auto simp: upd_q_id)
    qed
  next
    case False
    have "ctl_quiet ?st k (msgctl_cmd ?st c d k cmd arg)"
      using False by (simp add: msgctl_cmd_def msgctl_set_quiet msgctl_o_set_quiet msgctl_stat_quiet ctl_quiet_same)
    then obtain res out ac f where q: "msgctl_cmd ?st c d k cmd arg = Ret (Msg_done res out, upd_q (?st\<lparr>msg_acflag := ac\<rparr>) k f)" "harmless f"
      by (auto simp: ctl_quiet_def)
    then show ?thesis using harmless_wf [OF wf b(1,2) q(2) refl, of ac] e False by auto
  qed
qed

section \<open>msgget\<close>

text \<open>
  A call that succeeds finds an existing queue and changes nothing, or takes a free entry, which
  then is an empty queue; the identifier it returns names the queue.
\<close>

lemma msgget_spec:
  assumes wf: "msg_wf st"
  shows "\<exists>res st'. msgget st c key flg = Ret (Msg_done res MOut_none, st') \<and> msg_wf st' \<and> msg_info st' = msg_info st \<and>
    (\<forall>j<length (msgque st). msgs st' j = msgs st j) \<and> length (msgque st') = length (msgque st) \<and>
    (case res of
       Inl e \<Rightarrow> st' = st
     | Inr d \<Rightarrow> \<exists>k<length (msgque st). msg_find st' d = Some k \<and>
         (if ipc_used (msg_perm (msgque st ! k)) then st' = st
          else msgs st' k = [] \<and> msg_qnum_cv (msgque st' ! k) = [] \<and>
            perm_seq (msg_perm (msgque st' ! k)) = perm_seq (msg_perm (msgque st ! k)) \<and>
            (\<forall>j. j \<noteq> k \<longrightarrow> msgque st' ! j = msgque st ! j)))"
proof (cases "ipcget key flg (map msg_perm (msgque st)) (ctx_cred c)")
  case (Inl e)
  then show ?thesis using wf by (simp add: msgget_def)
next
  case (Inr r)
  obtain s k p where r: "r = (s, k, p)" by (cases r)
  obtain qs fs where good: "msg_good st qs fs" using wf by (auto simp: msg_wf_def)
  let ?n = "mi_msgmni (msg_info st)"
  have m: "0 < sint ?n" "sint ?n \<le> 1073741824" using msg_wfD(1) [OF wf] by (simp_all add: msg_params_def)
  have len: "length (msgque st) = nat (sint ?n)" by (rule msg_wfD(2) [OF wf])
  have found: "msg_find st' (msg_mk ?n k (perm_seq (msg_perm (msgque st' ! k)))) = Some k"
    if st': "msg_wf st'" "msg_info st' = msg_info st" "k < length (msgque st')" "ipc_used (msg_perm (msgque st' ! k))" for st'
  proof -
    obtain qs' fs' where g: "msg_good st' qs' fs'" using st'(1) by (auto simp: msg_wf_def)
    have "seq_ok ?n k (perm_seq (msg_perm (msgque st' ! k)))" using msg_goodD(6) [OF g st'(3)] st'(2) by (simp add: queue_ok_def)
    then have "mid.entry ?n (map msg_perm (msgque st')) (msg_mk ?n k (perm_seq (map msg_perm (msgque st') ! k))) = Some k"
      using st' msg_wfD(2) [OF st'(1)] m(2) by (intro mid.entry_mk) simp_all
    then show ?thesis using msg_find_entry [OF msg_wfD(1,2) [OF st'(1)]] st'(2,3) by simp
  qed
  show ?thesis
  proof (cases s)
    case False
    then have i: "ipcget key flg (map msg_perm (msgque st)) (ctx_cred c) = Inr (False, k, p)" using Inr r by simp
    note o = ipcget_oldD [OF i]
    have k: "k < length (msgque st)" using o(1) by simp
    have p: "p = msg_perm (msgque st ! k)" "ipc_used (msg_perm (msgque st ! k))" using o k by simp_all
    have "msgget st c key flg = Ret (Msg_done (Inr (msg_mk ?n k (perm_seq p))) MOut_none, st)"
      using i p by (simp add: msgget_def Let_def upd_q_def msg_mk_def)
    then show ?thesis using wf found [OF wf refl k p(2)] p k by auto
  next
    case True
    then have i: "ipcget key flg (map msg_perm (msgque st)) (ctx_cred c) = Inr (True, k, p)" using Inr r by simp
    note o = ipcget_newD [OF i]
    have k: "k < length (msgque st)" "\<not> ipc_used (msg_perm (msgque st ! k))" using o by simp_all
    have p: "p = ipcget_init key flg (ctx_cred c) (msg_perm (msgque st ! k))" using o k by simp
    let ?f = "\<lambda>q. q\<lparr>msg_first := None, msg_last := None, msg_qnum := 0, msg_qbytes := mi_msgmnb (msg_info st), msg_lspid := 0,
       msg_lrpid := 0, msg_stime := 0, msg_rtime := 0, msg_ctime := ctx_now c, msg_perm := p\<lparr>perm_pad := [0, 0, 0, 0]\<rparr>,
       msg_pad1 := 0, msg_pad2 := 0, msg_pad3 := 0, msg_pad4 := [0, 0, 0]\<rparr>"
    have qok: "queue_ok (msg_info st) k (msgque st ! k) (qs ! k)" by (rule msg_goodD(6) [OF good k(1)])
    then have empty: "qs ! k = []" "msg_qnum_cv (msgque st ! k) = []" "msg_cv (msgque st ! k) = []"
      using k(2) by (auto simp: queue_ok_def)
    have c: "msg_first (msgque st ! k) = None" "msg_last (msgque st ! k) = None"
      using lseg_hd [OF hchainsD(4)] hchainsD(5) msg_repD(4) [OF msg_goodD(1) [OF good]] k(1) empty(1) by fastforce+
    have good1: "msg_good (upd_q st k ?f) qs fs"
      using c qok empty p by (intro msg_good_upd_q [OF good]) (simp_all add: queue_ok_def ipc_used_def)
    then have w: "msg_wf (upd_q st k ?f)" using msg_wfD(3) [OF wf] by (auto simp: msg_wf_def locks_idle_def)
    have u: "ipc_used (msg_perm (msgque (upd_q st k ?f) ! k))" using k(1) p by (simp add: ipc_used_def)
    have ms: "msgs (upd_q st k ?f) j = msgs st j" if "j < length (msgque st)" for j
      using c that by (intro msgs_frame) (cases "j = k"; simp)+
    have "msgs st k = []" using msgs_rep [OF msg_goodD(1) [OF good] k(1)] empty(1) by simp
    moreover have "msgget st c key flg = Ret (Msg_done (Inr (msg_mk ?n k (perm_seq p))) MOut_none, upd_q st k ?f)"
      using i k(1) by (simp add: msgget_def Let_def upd_q_def msg_mk_def)
    moreover have "msg_find (upd_q st k ?f) (msg_mk ?n k (perm_seq p)) = Some k"
      using found [OF w _ _ u] k(1) by simp
    ultimately show ?thesis using w ms k empty p by auto
  qed
qed

end
