(* ===== verification/Msg_Steps.thy ===== *)
theory Msg_Steps
  imports Msg_Rcv Msg_Snd Msg_Ctl
begin

text \<open>
  The message facility as a system of threads: calls, sleeps, wakeups and interruptions interleave
  in any order, each step running under the mutex of the module. The invariant of the module holds
  in all states that are reached, and no receiver sleeps while a message it would take is there.
\<close>

section \<open>Every call keeps the invariant\<close>

text \<open>
  What a step may do to the receivers asleep: those still asleep afterwards, apart from the threads
  in \<open>T\<close>, were asleep before on the same queue, and no message of a new type has come to it.
\<close>

definition calm :: "nat set \<Rightarrow> msg_state \<Rightarrow> msg_state \<Rightarrow> bool" where
  "calm T st st' \<longleftrightarrow> msg_info st' = msg_info st \<and> length (msgque st') = length (msgque st) \<and>
    (\<forall>j<length (msgque st). \<forall>u\<in>set (msg_qnum_cv (msgque st' ! j)) - T. u \<in> set (msg_qnum_cv (msgque st ! j)) \<and>
       snd (rview (msgque st' ! j)) = snd (rview (msgque st ! j)) \<and> fst ` set (msgs st' j) \<subseteq> fst ` set (msgs st j))"

lemma calm_refl [simp]: "calm T st st"
  by (simp add: calm_def)

lemma calm_same:
  assumes "same_rview st st'" "msg_info st' = msg_info st"
    "\<And>j. j < length (msgque st) \<Longrightarrow> fst ` set (msgs st' j) \<subseteq> fst ` set (msgs st j)"
  shows "calm T st st'"
proof -
  have "msg_qnum_cv (msgque st' ! j) = msg_qnum_cv (msgque st ! j)" "snd (rview (msgque st' ! j)) = snd (rview (msgque st ! j))"
    if "j < length (msgque st)" for j
    using assms(1) that by (auto simp: same_rview_def rview_def)
  then show ?thesis using assms by (auto simp: calm_def same_rview_def)
qed

definition step_ok :: "nat set \<Rightarrow> msg_state \<Rightarrow> msg_ret \<Rightarrow> bool" where
  "step_ok T st r \<longleftrightarrow> (\<exists>res st'. r = Ret (res, st') \<and> msg_wf st' \<and> calm T st st' \<and> (\<forall>k. res \<noteq> Msg_sleep (W_lock k)))"

lemma step_ok_fail: "msg_wf st \<Longrightarrow> step_ok T st (msg_fail e st)"
  by (simp add: step_ok_def)

lemma msgget_ok:
  assumes wf: "msg_wf st"
  shows "step_ok T st (msgget st c key flg)"
proof -
  obtain res st' where r: "msgget st c key flg = Ret (Msg_done res MOut_none, st')" "msg_wf st'" "msg_info st' = msg_info st"
    "\<forall>j<length (msgque st). msgs st' j = msgs st j" "length (msgque st') = length (msgque st)"
    "case res of Inl e \<Rightarrow> st' = st
     | Inr d \<Rightarrow> \<exists>k<length (msgque st). msg_find st' d = Some k \<and>
         (if ipc_used (msg_perm (msgque st ! k)) then st' = st
          else msgs st' k = [] \<and> msg_qnum_cv (msgque st' ! k) = [] \<and>
            perm_seq (msg_perm (msgque st' ! k)) = perm_seq (msg_perm (msgque st ! k)) \<and>
            (\<forall>j. j \<noteq> k \<longrightarrow> msgque st' ! j = msgque st ! j))"
    using msgget_spec [OF wf, of c key flg] by blast
  have "calm T st st'"
  proof (cases "st' = st")
    case False
    then obtain k where k: "msg_qnum_cv (msgque st' ! k) = []" "\<forall>j. j \<noteq> k \<longrightarrow> msgque st' ! j = msgque st ! j"
      using r(6) by (auto split: sum.splits if_splits)
    have "u \<in> set (msg_qnum_cv (msgque st ! j)) \<and> snd (rview (msgque st' ! j)) = snd (rview (msgque st ! j))"
      if "u \<in> set (msg_qnum_cv (msgque st' ! j))" for u j
      using that k by (cases "j = k") auto
    then show ?thesis using r(3-5) by (auto simp: calm_def)
  qed simp
  then show ?thesis using r(1,2) by (auto simp: step_ok_def)
qed

lemma msgctl_ok:
  assumes wf: "msg_wf st"
  shows "step_ok T st (msgctl st c d cmd arg)"
proof -
  obtain res out st' where r: "msgctl st c d cmd arg = Ret (Msg_done res out, st')" "msg_wf st'" "msg_info st' = msg_info st"
    "(\<exists>k. msg_find st d = Some k \<and> rmid_effect st d k st') \<or> same_rview st st' \<and> (\<forall>j<length (msgque st). msgs st' j = msgs st j)"
    using msgctl_spec [OF wf, of c d cmd arg] by blast
  have "calm T st st'"
    using r(4)
  proof (elim disjE exE conjE)
    fix k assume e: "rmid_effect st d k st'"
    have "u \<in> set (msg_qnum_cv (msgque st ! j)) \<and> snd (rview (msgque st' ! j)) = snd (rview (msgque st ! j)) \<and>
        fst ` set (msgs st' j) \<subseteq> fst ` set (msgs st j)"
      if "j < length (msgque st)" "u \<in> set (msg_qnum_cv (msgque st' ! j))" for u j
      using that e by (cases "j = k") (auto simp: rmid_effect_def rview_def)
    moreover have "length (msgque st') = length (msgque st)" using e by (simp add: rmid_effect_def)
    ultimately show ?thesis unfolding calm_def using r(3) by blast
  next
    assume a: "same_rview st st'" "\<forall>j<length (msgque st). msgs st' j = msgs st j"
    show ?thesis by (rule calm_same [OF a(1) r(3)]) (simp add: a(2))
  qed
  then show ?thesis using r(1,2) by (auto simp: step_ok_def)
qed

lemma msgrcv_locked_ok:
  assumes wf: "msg_wf st" and k: "k < length (msgque st)" "ipc_used (msg_perm (msgque st ! k))" and sz: "0 \<le> sint (rcv_msgsz a)"
  shows "\<exists>res st'. msgrcv_locked (msg_locked st k) c k a um = Ret (res, st') \<and> msg_wf st' \<and> calm {ctx_tid c} st st' \<and>
    (\<forall>w. res = Msg_sleep w \<longrightarrow> w = W_rcv k \<and> rview_asleep st c k st' \<and> msgs st' k = msgs st k \<and>
       msg_select (rcv_msgtyp a) (map fst (msgs st k)) = None)"
proof -
  obtain st' where s: "msg_wf st'" "msg_info st' = msg_info st" "msgrcv_locked (msg_locked st k) c k a um =
    (case msg_select (rcv_msgtyp a) (map fst (msgs st k)) of
       None \<Rightarrow> if rcv_msgflg a AND IPC_NOWAIT \<noteq> 0 then msg_fail ENOMSG st else Ret (Msg_sleep (W_rcv k), st')
     | Some n \<Rightarrow>
         let (t, tx) = msgs st k ! n; m = unat (rcv_msgsz a) in
         if m < length tx \<and> rcv_msgflg a AND MSG_NOERROR = 0 then msg_fail E2BIG st
         else if \<not> um_out um \<or> \<not> um_out_text um \<and> min m (length tx) \<noteq> 0 then msg_fail EFAULT st
         else Ret (Msg_done (Inr (of_nat (min m (length tx)))) (MOut_msg t (take m tx)), st'))"
    "case msg_select (rcv_msgtyp a) (map fst (msgs st k)) of
       None \<Rightarrow> (\<forall>j<length (msgque st). msgs st' j = msgs st j) \<and> rview_asleep st c k st'
     | Some n \<Rightarrow> msgs_minus st k n st' \<and> same_rview st st'"
    using msgrcv_locked_spec [OF wf k sz, of c um] by blast
  show ?thesis
  proof (cases "msg_select (rcv_msgtyp a) (map fst (msgs st k))")
    case None
    then have e: "\<forall>j<length (msgque st). msgs st' j = msgs st j" "rview_asleep st c k st'" using s(4) by simp_all
    have "u \<in> set (msg_qnum_cv (msgque st ! j)) \<and> snd (rview (msgque st' ! j)) = snd (rview (msgque st ! j))"
      if "j < length (msgque st)" "u \<in> set (msg_qnum_cv (msgque st' ! j))" "u \<noteq> ctx_tid c" for u j
      using that e(2) by (cases "j = k") (auto simp: rview_asleep_def rview_def sleepq_insert_set)
    then have "calm {ctx_tid c} st st'" using e s(2) by (auto simp: calm_def rview_asleep_def)
    then show ?thesis using None s wf e k(1) by auto
  next
    case (Some n)
    then have e: "msgs_minus st k n st'" "same_rview st st'" using s(4) by simp_all
    have "fst ` set (msgs st' j) \<subseteq> fst ` set (msgs st j)" if "j < length (msgque st)" for j
      using e(1) that by (cases "j = k") (auto simp: msgs_minus_def dest: in_set_takeD in_set_dropD)
    then have "calm {ctx_tid c} st st'" using e(2) s(2) by (intro calm_same)
    then show ?thesis using Some s wf by (auto simp: Let_def split: prod.splits if_splits)
  qed
qed

text \<open>The calls that wait for a message, and their continuation after a wakeup.\<close>

definition rcv_post :: "msg_state \<Rightarrow> ctx \<Rightarrow> msgrcva \<Rightarrow> msg_ret \<Rightarrow> bool" where
  "rcv_post st c a r \<longleftrightarrow> (\<exists>res st'. r = Ret (res, st') \<and> msg_wf st' \<and> calm {ctx_tid c} st st' \<and>
    (\<forall>w. res = Msg_sleep w \<longrightarrow> 0 \<le> sint (rcv_msgsz a) \<and> (\<exists>k. w = W_rcv k \<and> k < length (msgque st') \<and>
       msg_find st' (rcv_msqid a) = Some k \<and>
       msg_select (rcv_msgtyp a) (map fst (msgs st' k)) = None)))"

lemma rcv_post_locked:
  assumes wf: "msg_wf st" and f: "msg_find st (rcv_msqid a) = Some k" and sz: "0 \<le> sint (rcv_msgsz a)"
  shows "rcv_post st c a (msgrcv_locked (msg_locked st k) c k a um)"
proof -
  note b = msg_find_bound [OF msg_wfD(1,2) [OF wf] f]
  obtain res st' where r: "msgrcv_locked (msg_locked st k) c k a um = Ret (res, st')" "msg_wf st'" "calm {ctx_tid c} st st'"
    "\<forall>w. res = Msg_sleep w \<longrightarrow> w = W_rcv k \<and> rview_asleep st c k st' \<and> msgs st' k = msgs st k \<and>
       msg_select (rcv_msgtyp a) (map fst (msgs st k)) = None"
    using msgrcv_locked_ok [OF wf b(1,2) sz] by blast
  have "msg_find st' (rcv_msqid a) = Some k" if "rview_asleep st c k st'"
  proof -
    have "snd (rview (msgque st' ! k)) = snd (rview (msgque st ! k))" using that b(1) by (simp add: rview_asleep_def)
    then show ?thesis using b(4) f r(3) by (auto simp: msg_find_def rview_def calm_def split: if_splits)
  qed
  moreover have "k < length (msgque st')" using b(1) r(3) by (simp add: calm_def)
  ultimately show ?thesis using r sz by (auto simp: rcv_post_def)
qed

lemma rcv_post_fail: "msg_wf st \<Longrightarrow> rcv_post st c a (msg_fail e st)"
  by (simp add: rcv_post_def)

lemma msgrcv_post:
  assumes wf: "msg_wf st"
  shows "rcv_post st c a (msgrcv st c a um)"
  unfolding msgrcv_checks [OF wf]
  using rcv_post_fail [OF wf] rcv_post_locked [OF wf] by (auto split: option.split)

lemma msgrcv_resume_post:
  assumes wf: "msg_wf st" and sz: "0 \<le> sint (rcv_msgsz a)"
  shows "rcv_post st c a (msgrcv_resume st c k a um)"
  unfolding msgrcv_resume_def msgrcv_findmsg_def msg_again_wf [OF wf]
  using rcv_post_fail [OF wf] rcv_post_locked [OF wf _ sz] by (auto split: option.split)

text \<open>The calls that wait for room.\<close>

lemma msgsnd_locked_ok:
  assumes wf: "msg_wf st" and k: "k < length (msgque st)" "ipc_used (msg_perm (msgque st ! k))"
    and cnt: "unat (snd_msgsz a) \<le> 65535" and ty: "1 \<le> sint ty"
  shows "step_ok {} st (msgsnd_locked (msg_locked st k) c k a um ty)"
proof -
  obtain st' where r: "msgsnd_locked (msg_locked st k) c k a um ty = Ret (snd_outcome st k a um, st')" "msg_wf st'"
    "msg_info st' = msg_info st" "snd_effect st k a um ty (snd_outcome st k a um) st'"
    using msgsnd_locked_spec [OF wf k cnt ty, of c um] by blast
  have "calm {} st st'"
  proof (cases "snd_outcome st k a um = Msg_done (Inr 0) MOut_none")
    case True
    then have e: "msgs_plus st k (ty, snd_text um (snd_msgsz a)) st'" "rview_woken st k st'" using r(4) by (simp_all add: snd_effect_def)
    have "u \<in> set (msg_qnum_cv (msgque st ! j)) \<and> snd (rview (msgque st' ! j)) = snd (rview (msgque st ! j)) \<and>
        fst ` set (msgs st' j) \<subseteq> fst ` set (msgs st j)"
      if "j < length (msgque st)" "u \<in> set (msg_qnum_cv (msgque st' ! j))" for u j
      using that e by (cases "j = k") (auto simp: rview_woken_def rview_def msgs_plus_def)
    then show ?thesis using r(3) e(2) unfolding calm_def rview_woken_def by blast
  next
    case False
    then show ?thesis using r(3,4) by (intro calm_same) (simp_all add: snd_effect_def)
  qed
  then show ?thesis using r(1,2) by (auto simp: step_ok_def snd_outcome_def Let_def)
qed

lemma size_bound:
  assumes "msg_wf st" "\<not> (sint n < 0 \<or> sint n > sint (mi_msgmax (msg_info st)))"
  shows "unat n \<le> 65535"
proof -
  have "sint n \<le> 65535" "0 \<le> sint n" using assms(2) msg_wfD(1) [OF assms(1)] by (auto simp: msg_params_def)
  then show ?thesis using sint_unat [of n] by linarith
qed

lemma msgsnd_ok:
  assumes wf: "msg_wf st"
  shows "step_ok {} st (msgsnd st c a um)"
proof -
  have "step_ok {} st (msgsnd_locked (msg_locked st k) c k a um ty)"
    if "msg_find st (snd_msqid a) = Some k" "\<not> (sint (snd_msgsz a) < 0 \<or> sint (snd_msgsz a) > sint (mi_msgmax (msg_info st)))"
      "\<not> sint ty < 1" for k ty
    using msgsnd_locked_ok [OF wf msg_find_bound(1,2) [OF msg_wfD(1,2) [OF wf] that(1)] size_bound [OF wf that(2)]] that(3) by simp
  then show ?thesis unfolding msgsnd_checks [OF wf] using step_ok_fail [OF wf] by (auto split: option.split)
qed

lemma msgsnd_resume_ok:
  assumes wf: "msg_wf st" and cnt: "unat (snd_msgsz a) \<le> 65535" and ty: "1 \<le> sint ty"
  shows "step_ok {} st (msgsnd_resume st c k a um ty)"
  unfolding msgsnd_resume_def msgsnd_getres_def msg_again_wf [OF wf]
  using step_ok_fail [OF wf] msgsnd_locked_ok [OF wf _ _ cnt ty] msg_find_bound(1,2) [OF msg_wfD(1,2) [OF wf]]
  by (auto split: option.split)

section \<open>Interrupted sleeps\<close>

lemma eintr_rcv_ok:
  assumes wf: "msg_wf st"
  shows "step_ok {} st (msgrcv_eintr st c k)"
proof -
  obtain qs fs where good: "msg_good st qs fs" using wf by (auto simp: msg_wf_def)
  let ?f = "\<lambda>q. q\<lparr>msg_qnum_cv := remove1 (ctx_tid c) (msg_qnum_cv q)\<rparr>"
  have "msg_good (upd_q st k ?f) qs fs"
  proof (rule msg_good_upd_q [OF good])
    assume "k < length (msgque st)"
    then have "queue_ok (msg_info st) k (msgque st ! k) (qs ! k)" by (rule msg_goodD(6) [OF good])
    then show "queue_ok (msg_info st) k (?f (msgque st ! k)) (qs ! k)" by (auto simp: queue_ok_def)
  qed simp_all
  then have "msg_wf (upd_q st k ?f)" using msg_wfD(3) [OF wf] by (auto simp: msg_wf_def locks_idle_def)
  moreover have "calm {} st (upd_q st k ?f)"
  proof -
    have "u \<in> set (msg_qnum_cv (msgque st ! j)) \<and> snd (rview (msgque (upd_q st k ?f) ! j)) = snd (rview (msgque st ! j)) \<and>
        msgs (upd_q st k ?f) j = msgs st j"
      if "j < length (msgque st)" "u \<in> set (msg_qnum_cv (msgque (upd_q st k ?f) ! j))" for u j
    proof -
      have "msgs (upd_q st k ?f) j = msgs st j" using that(1) by (intro msgs_frame) (cases "j = k"; simp)+
      then show ?thesis using that by (cases "j = k") (auto simp: rview_def dest: set_remove1_subset [THEN subsetD])
    qed
    then show ?thesis unfolding calm_def by fastforce
  qed
  ultimately show ?thesis by (auto simp: msgrcv_eintr_def step_ok_def)
qed

text \<open>A sender that gives up may clear the flag of its queue, and then wakes the other senders.\<close>

lemma msgsnd_intr_ok:
  assumes wf: "msg_wf st" and f: "f = (\<lambda>q. q) \<or> f = (\<lambda>q. (set_mode (\<lambda>m. m AND NOT MSG_WWAIT) q)\<lparr>msg_cv := []\<rparr>)"
  shows "step_ok {} st (msgsnd_intr st c k a f)"
proof (cases "msg_find st (snd_msqid a)")
  case None
  then show ?thesis using step_ok_fail [OF wf] by (simp add: msgsnd_intr_def msgconv_wf [OF wf])
next
  case (Some k1)
  note b = msg_find_bound [OF msg_wfD(1,2) [OF wf] Some]
  show ?thesis
  proof (cases "k1 = k")
    case False
    then show ?thesis using step_ok_fail [OF wf] msg_wf_unlocked [OF wf b(1)] Some by (simp add: msgsnd_intr_def msgconv_wf [OF wf])
  next
    case True
    obtain qs fs where good: "msg_good st qs fs" using wf by (auto simp: msg_wf_def)
    let ?st = "upd_q (msg_locked st k) k f"
    have good0: "msg_good (msg_locked st k) qs fs" by (rule msg_good_frame [OF good]) simp_all
    have q: "queue_ok (msg_info st) k (msgque st ! k) (qs ! k)" using b(1) True by (intro msg_goodD(6) [OF good]) simp
    have fq: "msg_first (f q) = msg_first q" "msg_last (f q) = msg_last q" "msg_cbytes (f q) = msg_cbytes q" "rview (f q) = rview q" for q
      using f by (auto simp: set_mode_def rview_def ipc_used_def)
    have "queue_ok (msg_info st) k (f (msgque st ! k)) (qs ! k)"
      using f q b(2) True by (auto simp: queue_ok_def set_mode_def ipc_used_def)
    then have "msg_good ?st qs fs" by (intro msg_good_upd_q [OF good0]) (simp_all add: fq)
    then have w: "msg_wf (msg_unlock ?st k)" using b(1) True by (intro msg_wf_unlock [OF wf]) simp_all
    have "same_rview st (msg_unlock ?st k)"
      by (rule same_rview_upd [where k = k and q = "f (msgque st ! k)"]) (simp_all add: fq)
    moreover have "msgs (msg_unlock ?st k) j = msgs st j" if "j < length (msgque st)" for j
      using that by (intro msgs_frame) (cases "j = k"; simp add: fq)+
    ultimately have "calm {} st (msg_unlock ?st k)" by (intro calm_same) simp_all
    then show ?thesis using w True Some by (simp add: msgsnd_intr_def msgconv_wf [OF wf] step_ok_def)
  qed
qed

lemma step_ok_after:
  assumes "same_rview st st1" "msg_info st1 = msg_info st" "\<And>j. j < length (msgque st) \<Longrightarrow> msgs st1 j = msgs st j" "step_ok {} st1 r"
  shows "step_ok {} st r"
proof -
  obtain res st' where r: "r = Ret (res, st')" "msg_wf st'" "calm {} st1 st'" "\<forall>k. res \<noteq> Msg_sleep (W_lock k)"
    using assms(4) by (auto simp: step_ok_def)
  have "calm {} st st'"
    using r(3) assms(1-3) by (auto simp: calm_def same_rview_def rview_def)
  then show ?thesis using r by (auto simp: step_ok_def)
qed

lemma eintr_q_ok:
  assumes wf: "msg_wf st"
  shows "step_ok {} st (msgsnd_eintr_q st c k a)"
proof -
  obtain qs fs where good: "msg_good st qs fs" using wf by (auto simp: msg_wf_def)
  let ?f = "\<lambda>q. q\<lparr>msg_cv := remove1 (ctx_tid c) (msg_cv q)\<rparr>"
  have "msg_good (upd_q st k ?f) qs fs"
  proof (rule msg_good_upd_q [OF good])
    assume "k < length (msgque st)"
    then have "queue_ok (msg_info st) k (msgque st ! k) (qs ! k)" by (rule msg_goodD(6) [OF good])
    then show "queue_ok (msg_info st) k (?f (msgque st ! k)) (qs ! k)" by (auto simp: queue_ok_def)
  qed simp_all
  then have w: "msg_wf (upd_q st k ?f)" using msg_wfD(3) [OF wf] by (auto simp: msg_wf_def locks_idle_def)
  show ?thesis
    unfolding msgsnd_eintr_q_def
  proof (rule step_ok_after [OF _ _ _ msgsnd_intr_ok [OF w]])
    show "same_rview st (upd_q st k ?f)"
      by (rule same_rview_upd [where k = k and q = "?f (msgque st ! k)"]) (simp_all add: rview_def)
    show "msgs (upd_q st k ?f) j = msgs st j" if "j < length (msgque st)" for j
      using that by (intro msgs_frame) (cases "j = k"; simp)+
  qed simp_all
qed

lemma eintr_h_ok:
  assumes wf: "msg_wf st"
  shows "step_ok {} st (msgsnd_eintr_h st c k a)"
proof -
  let ?st = "st\<lparr>msgfp_cv := remove1 (ctx_tid c) (msgfp_cv st)\<rparr>"
  obtain qs fs where good: "msg_good st qs fs" using wf by (auto simp: msg_wf_def)
  have "msgfp_cv ?st \<noteq> [] \<Longrightarrow> msgfp st = None" using msg_repD(7) [OF msg_goodD(1) [OF good]] by (cases "msgfp_cv st = []") simp_all
  then have "msg_good ?st qs fs" using good by (simp add: msg_good_def msg_rep_def)
  then have w: "msg_wf ?st" using msg_wfD(3) [OF wf] by (auto simp: msg_wf_def locks_idle_def)
  show ?thesis
    unfolding msgsnd_eintr_h_def
    by (rule step_ok_after [OF same_rviewI _ _ msgsnd_intr_ok [OF w]]) (simp_all add: msgs_def hdrs_def message_def)
qed

lemma eintr_m_ok:
  assumes wf: "msg_wf st"
  shows "step_ok {} st (msgsnd_eintr_m st c k a)"
proof -
  let ?st = "st\<lparr>msgmap_cv := remove1 (ctx_tid c) (msgmap_cv st)\<rparr>"
  have w: "msg_wf ?st" by (rule msg_wf_frame [OF wf]) simp_all
  show ?thesis
    unfolding msgsnd_eintr_m_def
    by (rule step_ok_after [OF same_rviewI _ _ msgsnd_intr_ok [OF w]]) (simp_all add: msgs_def hdrs_def message_def)
qed

section \<open>The system of threads\<close>

text \<open>
  A thread that is inside a call that went to sleep has a pending entry with what it needs to
  continue: the queue, its arguments, its view of its memory, and for a sender the type it read.
\<close>

datatype pending = P_rcv nat msgrcva msg_uarg | P_snd msg_wait msgsnda msg_uarg int32

record msg_sys =
  sys_st :: msg_state
  sys_pend :: "nat \<Rightarrow> pending option"

fun snd_cv :: "msg_state \<Rightarrow> msg_wait \<Rightarrow> nat list" where
  "snd_cv st (W_snd_q k) = msg_cv (msgque st ! k)"
| "snd_cv st (W_snd_h k) = msgfp_cv st"
| "snd_cv st (W_snd_m k) = msgmap_cv st"
| "snd_cv st _ = []"

fun snd_queue :: "msg_wait \<Rightarrow> nat" where
  "snd_queue (W_snd_q k) = k" | "snd_queue (W_snd_h k) = k" | "snd_queue (W_snd_m k) = k"
| "snd_queue (W_lock k) = k" | "snd_queue (W_rcv k) = k"

fun snd_eintr :: "msg_state \<Rightarrow> ctx \<Rightarrow> msg_wait \<Rightarrow> msgsnda \<Rightarrow> msg_ret" where
  "snd_eintr st c (W_snd_h k) a = msgsnd_eintr_h st c k a"
| "snd_eintr st c (W_snd_m k) a = msgsnd_eintr_m st c k a"
| "snd_eintr st c w a = msgsnd_eintr_q st c (snd_queue w) a"

fun pend_rcv :: "msg_res \<Rightarrow> msgrcva \<Rightarrow> msg_uarg \<Rightarrow> pending option" where
  "pend_rcv (Msg_sleep w) a um = Some (P_rcv (snd_queue w) a um)"
| "pend_rcv (Msg_done r out) a um = None"

fun pend_snd :: "msg_res \<Rightarrow> msgsnda \<Rightarrow> msg_uarg \<Rightarrow> int32 \<Rightarrow> pending option" where
  "pend_snd (Msg_sleep w) a um ty = Some (P_snd w a um ty)"
| "pend_snd (Msg_done r out) a um ty = None"

text \<open>
  The steps: a thread with nothing pending makes a call; a thread that was woken, and so is on the
  queue of its condition variable no more, continues; a thread that sleeps, or was woken and has
  not yet run, takes a signal.
\<close>

inductive msg_step :: "msg_sys \<Rightarrow> msg_sys \<Rightarrow> bool" where
  get: "sys_pend s (ctx_tid c) = None \<Longrightarrow> msgget (sys_st s) c key flg = Ret (res, st') \<Longrightarrow> msg_step s (s\<lparr>sys_st := st'\<rparr>)"
| ctl: "sys_pend s (ctx_tid c) = None \<Longrightarrow> msgctl (sys_st s) c d cmd arg = Ret (res, st') \<Longrightarrow> msg_step s (s\<lparr>sys_st := st'\<rparr>)"
| rcv: "sys_pend s (ctx_tid c) = None \<Longrightarrow> msgrcv (sys_st s) c a um = Ret (res, st') \<Longrightarrow>
    msg_step s (s\<lparr>sys_st := st', sys_pend := (sys_pend s)(ctx_tid c := pend_rcv res a um)\<rparr>)"
| snd: "sys_pend s (ctx_tid c) = None \<Longrightarrow> msgsnd (sys_st s) c a um = Ret (res, st') \<Longrightarrow>
    msg_step s (s\<lparr>sys_st := st', sys_pend := (sys_pend s)(ctx_tid c := pend_snd res a um (the (um_type um)))\<rparr>)"
| rcv_go: "sys_pend s (ctx_tid c) = Some (P_rcv k a um) \<Longrightarrow> ctx_tid c \<notin> set (msg_qnum_cv (msgque (sys_st s) ! k)) \<Longrightarrow>
    msgrcv_resume (sys_st s) c k a um = Ret (res, st') \<Longrightarrow>
    msg_step s (s\<lparr>sys_st := st', sys_pend := (sys_pend s)(ctx_tid c := pend_rcv res a um)\<rparr>)"
| snd_go: "sys_pend s (ctx_tid c) = Some (P_snd w a um ty) \<Longrightarrow> ctx_tid c \<notin> set (snd_cv (sys_st s) w) \<Longrightarrow>
    msgsnd_resume (sys_st s) c (snd_queue w) a um ty = Ret (res, st') \<Longrightarrow>
    msg_step s (s\<lparr>sys_st := st', sys_pend := (sys_pend s)(ctx_tid c := pend_snd res a um ty)\<rparr>)"
| rcv_intr: "sys_pend s (ctx_tid c) = Some (P_rcv k a um) \<Longrightarrow> msgrcv_eintr (sys_st s) c k = Ret (res, st') \<Longrightarrow>
    msg_step s (s\<lparr>sys_st := st', sys_pend := (sys_pend s)(ctx_tid c := None)\<rparr>)"
| snd_intr: "sys_pend s (ctx_tid c) = Some (P_snd w a um ty) \<Longrightarrow> snd_eintr (sys_st s) c w a = Ret (res, st') \<Longrightarrow>
    msg_step s (s\<lparr>sys_st := st', sys_pend := (sys_pend s)(ctx_tid c := None)\<rparr>)"

text \<open>What is true of a pending call.\<close>

fun pend_ok :: "msg_state \<Rightarrow> nat \<Rightarrow> pending \<Rightarrow> bool" where
  "pend_ok st t (P_rcv k a um) \<longleftrightarrow> 0 \<le> sint (rcv_msgsz a) \<and> k < length (msgque st) \<and>
     (t \<in> set (msg_qnum_cv (msgque st ! k)) \<longrightarrow>
        msg_find st (rcv_msqid a) = Some k \<and> msg_select (rcv_msgtyp a) (map fst (msgs st k)) = None)"
| "pend_ok st t (P_snd w a um ty) \<longleftrightarrow> unat (snd_msgsz a) \<le> 65535 \<and> 1 \<le> sint ty"

definition sys_inv :: "msg_sys \<Rightarrow> bool" where
  "sys_inv s \<longleftrightarrow> msg_wf (sys_st s) \<and> (\<forall>t p. sys_pend s t = Some p \<longrightarrow> pend_ok (sys_st s) t p)"

section \<open>No receiver is forgotten\<close>

lemma msg_select_subset:
  assumes "msg_select ty ts = None" "set us \<subseteq> set ts"
  shows "msg_select ty us = None"
proof -
  have "first_idx P us = None" if "first_idx P ts = None" for P
    using that assms(2) unfolding first_idx_None_iff by (metis in_set_conv_nth subsetD)
  moreover have "lowest b (map sint us) = None" if "lowest b (map sint ts) = None" for b
    using that assms(2) unfolding lowest_None by auto
  ultimately show ?thesis using assms by (auto simp: msg_select_def split: if_splits)
qed

lemma calm_pend:
  assumes c: "calm T st st'" and p: "pend_ok st t p" and t: "t \<notin> T"
  shows "pend_ok st' t p"
proof (cases p)
  case (P_rcv k a um)
  have k: "k < length (msgque st)" "0 \<le> sint (rcv_msgsz a)" using p P_rcv by simp_all
  have "msg_find st' (rcv_msqid a) = Some k \<and> msg_select (rcv_msgtyp a) (map fst (msgs st' k)) = None"
    if s: "t \<in> set (msg_qnum_cv (msgque st' ! k))"
  proof -
    have q: "t \<in> set (msg_qnum_cv (msgque st ! k))" "snd (rview (msgque st' ! k)) = snd (rview (msgque st ! k))"
      "fst ` set (msgs st' k) \<subseteq> fst ` set (msgs st k)" "msg_info st' = msg_info st"
      using c s t k by (auto simp: calm_def)
    then have o: "msg_find st (rcv_msqid a) = Some k" "msg_select (rcv_msgtyp a) (map fst (msgs st k)) = None" using p P_rcv by simp_all
    have "msg_find st' (rcv_msqid a) = Some k" using o(1) q(2,4) by (auto simp: msg_find_def rview_def split: if_splits)
    then show ?thesis using msg_select_subset [OF o(2)] q(3) by simp
  qed
  then show ?thesis using P_rcv k c by (simp add: calm_def)
qed (use p in simp)

lemma msgsnd_sleeps:
  assumes wf: "msg_wf st" and r: "msgsnd st c a um = Ret (Msg_sleep w, st')"
  shows "unat (snd_msgsz a) \<le> 65535" "1 \<le> sint (the (um_type um))"
  using r size_bound [OF wf, of "snd_msgsz a"] unfolding msgsnd_checks [OF wf]
  by (auto split: option.splits if_splits)

lemma sys_inv_upd:
  assumes inv: "sys_inv s" and w: "msg_wf st'" and c: "calm T (sys_st s) st'" "T \<subseteq> {t}"
    and p: "\<And>q. p = Some q \<Longrightarrow> pend_ok st' t q"
  shows "sys_inv (s\<lparr>sys_st := st', sys_pend := (sys_pend s)(t := p)\<rparr>)"
proof -
  have "pend_ok st' u q" if "((sys_pend s)(t := p)) u = Some q" for u q
  proof (cases "u = t")
    case False
    then have "pend_ok (sys_st s) u q" "u \<notin> T" using that inv c(2) by (auto simp: sys_inv_def)
    then show ?thesis by (rule calm_pend [OF c(1)])
  qed (use that p in simp)
  then show ?thesis using w by (simp add: sys_inv_def)
qed

lemma sys_invD: "sys_inv s \<Longrightarrow> sys_pend s t = Some p \<Longrightarrow> pend_ok (sys_st s) t p" "sys_inv s \<Longrightarrow> msg_wf (sys_st s)"
  by (simp_all add: sys_inv_def)

lemma sys_inv_st:
  assumes "sys_inv s" "step_ok {} (sys_st s) (Ret (res, st'))"
  shows "sys_inv (s\<lparr>sys_st := st'\<rparr>)"
  using assms calm_pend [of "{}" "sys_st s" st'] by (auto simp: sys_inv_def step_ok_def)

lemma sys_inv_rcv:
  assumes inv: "sys_inv s" and r: "rcv_post (sys_st s) c a (Ret (res, st'))"
  shows "sys_inv (s\<lparr>sys_st := st', sys_pend := (sys_pend s)(ctx_tid c := pend_rcv res a um)\<rparr>)"
  by (rule sys_inv_upd [OF inv, where T = "{ctx_tid c}"]) (use r in \<open>cases res; auto simp: rcv_post_def\<close>)+

lemma sys_inv_snd:
  assumes inv: "sys_inv s" and r: "step_ok {} (sys_st s) (Ret (res, st'))" and p: "\<And>q. p = Some q \<Longrightarrow> pend_ok st' t q"
  shows "sys_inv (s\<lparr>sys_st := st', sys_pend := (sys_pend s)(t := p)\<rparr>)"
  by (rule sys_inv_upd [OF inv, where T = "{}"]) (use r p in \<open>auto simp: step_ok_def\<close>)

lemma msg_step_inv:
  assumes "msg_step s s'" "sys_inv s"
  shows "sys_inv s'"
  using assms
proof (induction rule: msg_step.induct)
  case (get s c key flg res st')
  then show ?case using msgget_ok [of "sys_st s"] sys_inv_st by (metis sys_inv_def)
next
  case (ctl s c d cmd arg res st')
  then show ?case using msgctl_ok [of "sys_st s"] sys_inv_st by (metis sys_inv_def)
next
  case (rcv s c a um res st')
  then show ?case using msgrcv_post [of "sys_st s" c a um] by (intro sys_inv_rcv) (auto simp: sys_inv_def)
next
  case (snd s c a um res st')
  have wf: "msg_wf (sys_st s)" using snd by (simp add: sys_inv_def)
  have "pend_ok st' (ctx_tid c) q" if "pend_snd res a um (the (um_type um)) = Some q" for q
    using that msgsnd_sleeps [OF wf] snd(2) by (cases res) auto
  then show ?case using msgsnd_ok [OF wf, of c a um] snd by (intro sys_inv_snd) auto
next
  case (rcv_go s c k a um res st')
  then have "msg_wf (sys_st s)" "0 \<le> sint (rcv_msgsz a)" using sys_invD(1) [of s "ctx_tid c"] by (auto simp: sys_invD(2))
  then show ?case using msgrcv_resume_post [of "sys_st s" a c k um] rcv_go by (intro sys_inv_rcv) auto
next
  case (snd_go s c w a um ty res st')
  then have p: "msg_wf (sys_st s)" "unat (snd_msgsz a) \<le> 65535" "1 \<le> sint ty"
    using sys_invD(1) [of s "ctx_tid c"] by (auto simp: sys_invD(2))
  have "pend_ok st' (ctx_tid c) q" if "pend_snd res a um ty = Some q" for q using that p by (cases res) auto
  then show ?case using msgsnd_resume_ok [OF p, of c "snd_queue w" um] snd_go by (intro sys_inv_snd) auto
next
  case (rcv_intr s c k a um res st')
  then show ?case using eintr_rcv_ok [of "sys_st s" c k] by (intro sys_inv_snd) (auto simp: sys_inv_def)
next
  case (snd_intr s c w a um ty res st')
  then have "msg_wf (sys_st s)" by (simp add: sys_inv_def)
  then have "step_ok {} (sys_st s) (snd_eintr (sys_st s) c w a)"
    by (cases w) (simp_all add: eintr_q_ok eintr_h_ok eintr_m_ok)
  then show ?case using snd_intr by (intro sys_inv_snd) auto
qed

lemma msg_steps_inv: "msg_step\<^sup>*\<^sup>* s s' \<Longrightarrow> sys_inv s \<Longrightarrow> sys_inv s'"
  by (induction rule: rtranclp_induct) (auto intro: msg_step_inv)

end
