(* ===== verification/Msg_Props.thy ===== *)
theory Msg_Props
  imports Msg_Steps
begin

text \<open>
  The claims on the message facility, each with an application to a concrete state.
\<close>

section \<open>A concrete state\<close>

text \<open>
  Two queue entries, three headers, sixteen segments of eight bytes. Queue 0, made by user 7, holds
  a message of type 5 whose text is the four bytes 1, 2, 3, 4; thread 9 sleeps on it for room.
\<close>

definition mx_info :: msginfo where
  "mx_info = \<lparr>mi_msgmap = 10, mi_msgmax = 64, mi_msgmnb = 6, mi_msgmni = 2, mi_msgssz = 8, mi_msgtql = 3, mi_msgseg = 16\<rparr>"

definition mx_queue :: msqid_ds where
  "mx_queue = zero_msqid\<lparr>msg_perm := zero_perm\<lparr>perm_uid := 7, perm_cuid := 7, perm_mode := 0x85B0, perm_seq := 3, perm_key := 17\<rparr>,
     msg_first := Some 1, msg_last := Some 1, msg_cbytes := 4, msg_qnum := 1, msg_qbytes := 12, msg_cv := [9]\<rparr>"

definition mx_id :: int32 where "mx_id = 6"

definition mx_st :: msg_state where
  "mx_st = \<lparr>msg_info = mx_info, msg_pool = [1, 2, 3, 4] @ replicate 124 0,
     msgmap = \<lparr>m_free = 3, m_want = 0, m_nam = ''msgmap'', m_nsegs = 4,
       m_map = \<lparr>m_size = 15, m_addr = 2\<rparr> # replicate 5 zero_seg\<rparr>,
     msgmap_cv = [],
     msgh = [\<lparr>msg_next = Some 2, msg_type = 0, msg_ts = 0, msg_spot = 0\<rparr>,
       \<lparr>msg_next = None, msg_type = 5, msg_ts = 4, msg_spot = 0\<rparr>,
       \<lparr>msg_next = None, msg_type = 0, msg_ts = 0, msg_spot = 0\<rparr>],
     msgque = [mx_queue, zero_msqid], msglocks = replicate 2 idle_lock, msgfp = Some 0, msgfp_cv = [], msg_acflag = 0\<rparr>"

definition mx_ctx :: ctx where
  "mx_ctx = \<lparr>ctx_cred = \<lparr>cr_uid = 7, cr_gid = 1, cr_groups = []\<rparr>, ctx_pid = 42, ctx_slot = 0,
     ctx_now = 1000, ctx_tid = 5, ctx_prio = (\<lambda>_. 0)\<rparr>"

definition mx_um :: msg_uarg where
  "mx_um = \<lparr>um_ds = None, um_ods = None, um_type = Some 2, um_text_ok = True, um_text = (\<lambda>i. of_nat i + 65),
     um_out = True, um_out_text = True\<rparr>"

lemma mx_map_live: "live (m_map (msgmap mx_st)) = [\<lparr>m_size = 15, m_addr = 2\<rparr>]"
  by (simp add: mx_st_def live_def zero_seg_def)

lemma mx_map: "map_wf (msgmap mx_st)" "free_set (msgmap mx_st) = {2..<17}"
  by (simp_all add: map_wf_def free_set_def mx_map_live)
    (simp_all add: mx_st_def segs_wf_def seg_defs zero_seg_def segs_set_def list_all_iff)

lemmas mx_eval = mx_st_def mx_info_def mx_queue_def zero_msqid_def zero_perm_def

lemma mx_good: "msg_good mx_st [[1], []] [0, 2]"
proof -
  have p: "msg_params (msg_info mx_st)" by (simp add: msg_params_def mx_st_def mx_info_def)
  have "hchains (msgh mx_st) (msgque mx_st) (msgfp mx_st) [[1], []] [0, 2]"
    by (simp add: hchains_def mx_eval less_Suc_eq)
  moreover have "texts (msg_info mx_st) (msgh mx_st) (msgmap mx_st) (set (concat [[1], []]))"
  proof -
    have "{i \<in> {1}. msg_ts (msgh mx_st ! i) \<noteq> 0} = {1}" by (auto simp: mx_eval)
    then show ?thesis
      unfolding texts_def mx_map(2) using mx_map(1)
      by (simp add: owned_def) (simp add: mx_eval text_blk_def spot_of_def nseg_def, simp add: subset_iff)
  qed
  moreover have "queue_ok (msg_info mx_st) k (msgque mx_st ! k) ([[1], []] ! k)" if "k < length (msgque mx_st)" for k
  proof -
    have "k = 0 \<or> k = 1" using that by (simp add: mx_st_def less_Suc_eq)
    then show ?thesis by (auto simp: queue_ok_def seq_ok_def mx_eval ipc_used_def IPC_ALLOC_def MSG_WWAIT_def)
  qed
  moreover have "bytes_ok (msgh mx_st) (msgque mx_st ! k) ([[1], []] ! k)" if "k < length (msgque mx_st)" for k
  proof -
    have "k = 0 \<or> k = 1" using that by (simp add: mx_st_def less_Suc_eq)
    then show ?thesis by (auto simp: bytes_ok_def mx_eval)
  qed
  ultimately show ?thesis
    using p unfolding msg_good_def msg_rep_def by (simp add: mx_st_def mx_info_def)
qed

lemma mx_wf: "msg_wf mx_st"
  using mx_good by (auto simp: msg_wf_def locks_idle_def mx_st_def numeral_2_eq_2)

lemma mx_find: "msg_find mx_st mx_id = Some 0"
  by (simp add: msg_find_def mx_id_def mx_eval msg_idx_def msg_sq_def ipc_used_def IPC_ALLOC_def)

lemma mx_msgs: "msgs mx_st 0 = [(5, [1, 2, 3, 4])]" "msgs mx_st 1 = []"
proof -
  have "hdrs mx_st 0 = [1]" "hdrs mx_st 1 = []" using hdrs_rep [OF msg_goodD(1) [OF mx_good]] by (simp_all add: mx_st_def)
  then show "msgs mx_st 0 = [(5, [1, 2, 3, 4])]" "msgs mx_st 1 = []"
    by (simp_all add: msgs_def message_def mx_eval spot_of_def)
qed

lemma mx_access: "ipcaccess (msg_perm (msgque mx_st ! 0)) MSG_W (ctx_cred mx_ctx) = None"
  "ipcaccess (msg_perm (msgque mx_st ! 0)) MSG_R (ctx_cred mx_ctx) = None"
  by (simp_all add: ipcaccess_def mx_eval mx_ctx_def MSG_W_def MSG_R_def)

section \<open>Sending and receiving\<close>

text \<open>
  C15 (msgsnd_appends). A \<open>msgsnd\<close> call with valid arguments ends as the state of the resources
  decides: \<open>EAGAIN\<close> or a sleep, in this order, when the queue has no room for the bytes, no
  header is free, or the buffer has no long enough run of free segments; \<open>EFAULT\<close> when the text
  cannot be read; otherwise success. On success the message, with its type and exactly the bytes
  of the process, is the last one of its queue and no other queue has changed; in all other cases
  no queue has.
\<close>

theorem msgsnd_appends:
  assumes "msg_wf st" "msg_find st (snd_msqid a) = Some k" "ipcaccess (msg_perm (msgque st ! k)) MSG_W (ctx_cred c) = None"
    "0 \<le> sint (snd_msgsz a)" "sint (snd_msgsz a) \<le> sint (mi_msgmax (msg_info st))" "um_type um = Some ty" "1 \<le> sint ty"
  shows "\<exists>st'. msgsnd st c a um = Ret (snd_outcome st k a um, st') \<and> msg_wf st' \<and>
    (if snd_outcome st k a um = Msg_done (Inr 0) MOut_none
     then msgs st' k = msgs st k @ [(ty, map (um_text um) [0..<unat (snd_msgsz a)])] \<and>
       (\<forall>j<length (msgque st). j \<noteq> k \<longrightarrow> msgs st' j = msgs st j)
     else (\<forall>j<length (msgque st). msgs st' j = msgs st j))"
proof -
  have "\<not> (sint (snd_msgsz a) < 0 \<or> sint (snd_msgsz a) > sint (mi_msgmax (msg_info st)))" using assms(4,5) by simp
  note b = msg_find_bound [OF msg_wfD(1,2) [OF assms(1)] assms(2)] size_bound [OF assms(1) this]
  have "msgsnd st c a um = msgsnd_locked (msg_locked st k) c k a um ty"
    using assms by (simp add: msgsnd_checks)
  then show ?thesis
    using msgsnd_locked_spec [OF assms(1) b(1,2,6) assms(7), of c um]
    by (auto simp: snd_effect_def msgs_plus_def snd_text_def)
qed

definition mx_snd :: msgsnda where "mx_snd = \<lparr>snd_msqid = mx_id, snd_msgsz = 3, snd_msgflg = 0\<rparr>"

lemma mx_outcome: "snd_outcome mx_st 0 mx_snd mx_um = Msg_done (Inr 0) MOut_none"
proof -
  have "snd_room mx_st 3" unfolding snd_room_def mx_map(2)
    by (rule disjI2, rule exI [of _ 2]) (simp add: nseg_def mx_st_def mx_info_def)
  then show ?thesis by (simp add: snd_outcome_def mx_snd_def mx_um_def) (simp add: mx_eval)
qed

theorem msgsnd_appends_witness:
  "msg_wf mx_st \<and> (\<exists>st'. msgsnd mx_st mx_ctx mx_snd mx_um = Ret (Msg_done (Inr 0) MOut_none, st') \<and>
     msgs st' 0 = [(5, [1, 2, 3, 4]), (2, [65, 66, 67])])"
proof -
  have "msg_find mx_st (snd_msqid mx_snd) = Some 0" "um_type mx_um = Some 2" "unat (snd_msgsz mx_snd) = 3"
    "0 \<le> sint (snd_msgsz mx_snd)" "sint (snd_msgsz mx_snd) \<le> sint (mi_msgmax (msg_info mx_st))"
    using mx_find by (simp_all add: mx_snd_def mx_um_def mx_st_def mx_info_def)
  with msgsnd_appends [OF mx_wf this(1) mx_access(1) this(4,5,2)] mx_outcome mx_msgs show ?thesis
    using mx_wf by (auto simp: mx_um_def upt_rec)
qed

text \<open>
  C16 (msgrcv_selects). A \<open>msgrcv\<close> call with valid arguments finds the message its type argument
  asks for: the first of the queue for 0, the first of that type for a positive argument, and for a
  negative one the first among those of the lowest type, if that type is at most the absolute value.
  With no such message it fails with \<open>ENOMSG\<close> or sleeps. A text longer than the buffer is an error
  unless \<open>MSG_NOERROR\<close> cuts it. On success the process gets the type and the text, that message and
  no other leaves the queue, and no other queue changes.
\<close>

theorem msgrcv_selects:
  assumes "msg_wf st" "msg_find st (rcv_msqid a) = Some k" "ipcaccess (msg_perm (msgque st ! k)) MSG_R (ctx_cred c) = None"
    "0 \<le> sint (rcv_msgsz a)"
  shows "\<exists>st'. msg_wf st' \<and> msgrcv st c a um =
    (case msg_select (rcv_msgtyp a) (map fst (msgs st k)) of
       None \<Rightarrow> if rcv_msgflg a AND IPC_NOWAIT \<noteq> 0 then msg_fail ENOMSG st else Ret (Msg_sleep (W_rcv k), st')
     | Some n \<Rightarrow>
         let (t, tx) = msgs st k ! n; m = unat (rcv_msgsz a) in
         if m < length tx \<and> rcv_msgflg a AND MSG_NOERROR = 0 then msg_fail E2BIG st
         else if \<not> um_out um \<or> \<not> um_out_text um \<and> min m (length tx) \<noteq> 0 then msg_fail EFAULT st
         else Ret (Msg_done (Inr (of_nat (min m (length tx)))) (MOut_msg t (take m tx)), st')) \<and>
    (case msg_select (rcv_msgtyp a) (map fst (msgs st k)) of
       None \<Rightarrow> (\<forall>j<length (msgque st). msgs st' j = msgs st j) \<and> ctx_tid c \<in> set (msg_qnum_cv (msgque st' ! k))
     | Some n \<Rightarrow> msgs st' k = take n (msgs st k) @ drop (Suc n) (msgs st k) \<and>
         (\<forall>j<length (msgque st). j \<noteq> k \<longrightarrow> msgs st' j = msgs st j))"
proof -
  note b = msg_find_bound [OF msg_wfD(1,2) [OF assms(1)] assms(2)]
  have e: "msgrcv st c a um = msgrcv_locked (msg_locked st k) c k a um"
    using assms by (simp add: msgrcv_checks)
  have "ctx_tid c \<in> set (msg_qnum_cv (msgque st' ! k))" if "rview_asleep st c k st'" for st'
    using that b(1) by (auto simp: rview_asleep_def rview_def sleepq_insert_set)
  then show ?thesis
    unfolding e using msgrcv_locked_spec [OF assms(1) b(1,2) assms(4), of c um]
    by (auto simp: msgs_minus_def split: option.splits)
qed

definition mx_rcv :: "int32 \<Rightarrow> msgrcva" where
  "mx_rcv typ = \<lparr>rcv_msqid = mx_id, rcv_msgsz = 10, rcv_msgtyp = typ, rcv_msgflg = 0\<rparr>"

lemma mx_rcv_simps [simp]: "rcv_msqid (mx_rcv t) = mx_id" "rcv_msgsz (mx_rcv t) = 10" "rcv_msgtyp (mx_rcv t) = t" "rcv_msgflg (mx_rcv t) = 0"
  by (simp_all add: mx_rcv_def)

lemma mx_select: "msg_select (- 6) [5] = Some 0" "msg_select 3 [5] = None" "msg_select 0 [5] = Some 0"
  by (simp_all add: msg_select_def lowest_def)

theorem msgrcv_selects_witness:
  "\<exists>st'. msgrcv mx_st mx_ctx (mx_rcv (- 6)) mx_um = Ret (Msg_done (Inr 4) (MOut_msg 5 [1, 2, 3, 4]), st') \<and> msgs st' 0 = []"
  using msgrcv_selects [OF mx_wf, of "mx_rcv (- 6)" 0 mx_ctx mx_um] mx_find mx_access(2) mx_msgs(1)
  by (auto simp: mx_select mx_um_def)

text \<open>
  C17 (msg_send_receive). What is sent is received: after a successful \<open>msgsnd\<close> on a queue without
  a message of that type, a process that may read the queue and asks for the type, with room for the
  text, gets exactly the bytes that were sent, and all queues hold again what they held before.
\<close>

theorem msg_send_receive:
  assumes "msg_wf st" "msg_find st (snd_msqid a) = Some k" "um_type um = Some ty" "ty \<notin> fst ` set (msgs st k)"
    "msgsnd st c a um = Ret (Msg_done (Inr 0) MOut_none, st1)"
    "ipcaccess (msg_perm (msgque st1 ! k)) MSG_R (ctx_cred c2) = None" "um_out um2" "um_out_text um2"
    "rcv_msqid b = snd_msqid a" "rcv_msgtyp b = ty" "sint (snd_msgsz a) \<le> sint (rcv_msgsz b)"
  shows "\<exists>st2. msgrcv st1 c2 b um2 =
      Ret (Msg_done (Inr (snd_msgsz a)) (MOut_msg ty (map (um_text um) [0..<unat (snd_msgsz a)])), st2) \<and>
    msg_wf st2 \<and> (\<forall>j<length (msgque st). msgs st2 j = msgs st j)"
proof -
  note b = msg_find_bound [OF msg_wfD(1,2) [OF assms(1)] assms(2)]
  have v: "ipcaccess (msg_perm (msgque st ! k)) MSG_W (ctx_cred c) = None" "0 \<le> sint (snd_msgsz a)"
      "sint (snd_msgsz a) \<le> sint (mi_msgmax (msg_info st))" "1 \<le> sint ty"
    using assms(2,3,5) unfolding msgsnd_checks [OF assms(1)] by (auto split: option.splits if_splits)
  then have sz: "unat (snd_msgsz a) \<le> 65535" by (intro size_bound [OF assms(1)]) simp
  have "msgsnd st c a um = msgsnd_locked (msg_locked st k) c k a um ty"
    using assms(1-3) v by (simp add: msgsnd_checks)
  then have s: "msg_wf st1" "snd_effect st k a um ty (Msg_done (Inr 0) MOut_none) st1" "msg_info st1 = msg_info st"
    using msgsnd_locked_spec [OF assms(1) b(1,2) sz v(4), of c um] assms(5) by auto
  let ?tx = "map (um_text um) [0..<unat (snd_msgsz a)]"
  have e: "msgs st1 k = msgs st k @ [(ty, ?tx)]" "\<forall>j<length (msgque st). j \<noteq> k \<longrightarrow> msgs st1 j = msgs st j"
    "rview_woken st k st1"
    using s(2) by (auto simp: snd_effect_def msgs_plus_def snd_text_def)
  have f: "msg_find st1 (rcv_msqid b) = Some k"
    using e(3) b s(3) assms(9) by (auto simp: msg_find_def rview_woken_def rview_def)
  have n: "msg_select ty (map fst (msgs st1 k)) = Some (length (msgs st k))"
  proof -
    have "first_idx (\<lambda>t. t = ty) (map fst (msgs st k) @ [ty]) = Some (length (msgs st k))"
      using assms(4) by (subst first_idx_Some_iff) (auto simp: nth_append image_iff dest: nth_mem)
    then show ?thesis using v(4) by (auto simp: msg_select_def e(1))
  qed
  have len: "length (msgque st1) = length (msgque st)" using e(3) by (simp add: rview_woken_def)
  have le: "unat (snd_msgsz a) \<le> unat (rcv_msgsz b)" using v(2) assms(11) sint_unat [of "snd_msgsz a"] sint_unat [of "rcv_msgsz b"] by linarith
  have "msgs st1 k ! length (msgs st k) = (ty, ?tx)" "0 \<le> sint (rcv_msgsz b)" using e(1) v(2) assms(11) by simp_all
  then obtain st2 where "msg_wf st2" "msgrcv st1 c2 b um2 = Ret (Msg_done (Inr (snd_msgsz a)) (MOut_msg ty ?tx), st2)"
    "msgs st2 k = msgs st k" "\<forall>j<length (msgque st1). j \<noteq> k \<longrightarrow> msgs st2 j = msgs st1 j"
    using msgrcv_selects [OF s(1) f assms(6), of um2] assms(7,8,10) n e(1) le by (auto simp: min_absorb2)
  then show ?thesis using e(2) len by (metis (no_types))
qed

lemma mx_snd_run:
  "case msgsnd mx_st mx_ctx mx_snd mx_um of
     Ret (r, st1) \<Rightarrow> r = Msg_done (Inr 0) MOut_none \<and> ipcaccess (msg_perm (msgque st1 ! 0)) MSG_R (ctx_cred mx_ctx) = None
   | _ \<Rightarrow> False"
  by code_simp

theorem msg_send_receive_witness:
  "\<exists>st1 st2. msgsnd mx_st mx_ctx mx_snd mx_um = Ret (Msg_done (Inr 0) MOut_none, st1) \<and>
     msgrcv st1 mx_ctx (mx_rcv 2) mx_um = Ret (Msg_done (Inr 3) (MOut_msg 2 [65, 66, 67]), st2) \<and>
     msgs st2 0 = [(5, [1, 2, 3, 4])]"
proof -
  obtain st1 where s: "msgsnd mx_st mx_ctx mx_snd mx_um = Ret (Msg_done (Inr 0) MOut_none, st1)"
    "ipcaccess (msg_perm (msgque st1 ! 0)) MSG_R (ctx_cred mx_ctx) = None"
    using mx_snd_run by (auto split: kres.splits)
  have "0 < length (msgque mx_st)" by (simp add: mx_st_def)
  moreover have "snd_msgsz mx_snd = 3" "snd_msqid mx_snd = mx_id" "um_type mx_um = Some 2"
    "map (um_text mx_um) [0..<3] = [65, 66, 67]" "um_out mx_um" "um_out_text mx_um"
    by (simp_all add: mx_snd_def mx_um_def upt_rec)
  ultimately show ?thesis
    using msg_send_receive [OF mx_wf, of mx_snd 0 mx_um 2 mx_ctx st1 mx_ctx mx_um "mx_rcv 2"] s mx_find mx_msgs(1)
    by auto
qed

section \<open>The invariant\<close>

text \<open>
  C18 (msgsys_invariant). In a state in order every system call of the message facility, with any
  opcode and any arguments, returns or goes to sleep and leaves a state in order: the chains of
  headers of the queues and of the free list share no header, the texts of two messages share no
  segment of the buffer and none with the free segments of the map, the counters match the chains,
  and no entry of the lock table is left taken. A call never finds the lock of a queue taken. That
  no header and no segment is lost is not part of the invariant.
\<close>

theorem msgsys_invariant:
  assumes "msg_wf st"
  shows "\<exists>res st'. msgsys st c opcode a1 a2 a3 a4 a5 um = Ret (res, st') \<and> msg_wf st' \<and> msg_info st' = msg_info st \<and>
    (\<forall>k. res \<noteq> Msg_sleep (W_lock k))"
proof -
  have p: "\<exists>res st'. r = Ret (res, st') \<and> msg_wf st' \<and> msg_info st' = msg_info st \<and> (\<forall>k. res \<noteq> Msg_sleep (W_lock k))"
    if "step_ok T st r \<or> rcv_post st c a r" for r T a
    using that by (auto simp: step_ok_def rcv_post_def calm_def)
  note calls = msgget_ok [OF assms] msgctl_ok [OF assms] msgsnd_ok [OF assms] msgrcv_post [OF assms] step_ok_fail [OF assms]
  let ?a = "\<lparr>rcv_msqid = a1, rcv_msgsz = a3, rcv_msgtyp = a4, rcv_msgflg = a5\<rparr>"
  have "step_ok {} st (msgsys st c opcode a1 a2 a3 a4 a5 um) \<or> rcv_post st c ?a (msgsys st c opcode a1 a2 a3 a4 a5 um)"
    unfolding msgsys_def using calls by auto
  then show ?thesis by (rule p)
qed

theorem msgsys_invariant_witness:
  "\<exists>res st'. msgsys mx_st mx_ctx MSGSND 6 0 3 0 0 mx_um = Ret (res, st') \<and> msg_wf st'"
  using msgsys_invariant [OF mx_wf, of mx_ctx MSGSND 6 0 3 0 0 mx_um] by blast

text \<open>
  C19 (msg_no_lost_wakeup). However calls, wakeups and interruptions of any number of threads
  interleave, a thread that sleeps in \<open>msgrcv\<close> sleeps on the queue its identifier names, and that
  queue holds no message it would take: no message comes in without waking it, and no queue is
  removed or made anew under it. The invariant of the module holds throughout.
\<close>

theorem msg_no_lost_wakeup:
  assumes "msg_wf st" "msg_step\<^sup>*\<^sup>* \<lparr>sys_st = st, sys_pend = (\<lambda>_. None)\<rparr> s"
  shows "msg_wf (sys_st s) \<and> (\<forall>t k a um. sys_pend s t = Some (P_rcv k a um) \<longrightarrow> t \<in> set (msg_qnum_cv (msgque (sys_st s) ! k)) \<longrightarrow>
    msg_find (sys_st s) (rcv_msqid a) = Some k \<and> msg_select (rcv_msgtyp a) (map fst (msgs (sys_st s) k)) = None)"
proof -
  have "sys_inv s" using assms(1) by (intro msg_steps_inv [OF assms(2)]) (simp add: sys_inv_def)
  then show ?thesis using sys_invD(1) [of s] by (fastforce simp: sys_invD(2))
qed

theorem msg_no_lost_wakeup_witness:
  "\<exists>s. msg_step\<^sup>*\<^sup>* \<lparr>sys_st = mx_st, sys_pend = (\<lambda>_. None)\<rparr> s \<and> sys_pend s 5 = Some (P_rcv 0 (mx_rcv 3) mx_um) \<and>
     msg_find (sys_st s) mx_id = Some 0 \<and> msg_select 3 (map fst (msgs (sys_st s) 0)) = None"
proof -
  let ?s = "\<lparr>sys_st = mx_st, sys_pend = (\<lambda>_. None)\<rparr>"
  obtain st' where r: "msgrcv mx_st mx_ctx (mx_rcv 3) mx_um = Ret (Msg_sleep (W_rcv 0), st')"
    "ctx_tid mx_ctx \<in> set (msg_qnum_cv (msgque st' ! 0))"
    using msgrcv_selects [OF mx_wf, of "mx_rcv 3" 0 mx_ctx mx_um] mx_find mx_access(2) mx_msgs(1)
    by (auto simp: mx_select)
  let ?s' = "?s\<lparr>sys_st := st', sys_pend := (sys_pend ?s)(ctx_tid mx_ctx := pend_rcv (Msg_sleep (W_rcv 0)) (mx_rcv 3) mx_um)\<rparr>"
  have st: "msg_step ?s ?s'" by (rule msg_step.rcv) (use r(1) in simp_all)
  have "ctx_tid mx_ctx = 5" by (simp add: mx_ctx_def)
  moreover from this have "sys_pend ?s' 5 = Some (P_rcv 0 (mx_rcv 3) mx_um)" by simp
  moreover have "sys_st ?s' = st'" by simp
  ultimately show ?thesis
    using msg_no_lost_wakeup [OF mx_wf r_into_rtranclp [where r = msg_step, OF st]] r(2) r_into_rtranclp [where r = msg_step, OF st]
    by (metis mx_rcv_simps(1,3))
qed

section \<open>Accounting\<close>

text \<open>The texts of a queue lie in disjoint runs of segments, so together they fit the buffer.\<close>

lemma texts_fit:
  assumes rep: "msg_rep st qs fs" and k: "k < length (msgque st)"
  shows "(\<Sum>i\<leftarrow>qs ! k. unat (msg_ts (msgh st ! i))) \<le> ssz (msg_info st) * unat (mi_msgseg (msg_info st))"
proof -
  let ?mi = "msg_info st" and ?h = "msgh st"
  let ?I = "{i \<in> set (qs ! k). msg_ts (?h ! i) \<noteq> 0}"
  note r = msg_repD [OF rep]
  have sub: "set (qs ! k) \<subseteq> set (concat qs)" using r(8) k by (intro set_nth_concat) simp
  have dist: "distinct (qs ! k)" using hchainsD(3) [OF r(4)] r(8) k by (auto simp: distinct_concat_iff)
  have own: "owned (free_set (msgmap st)) {i \<in> set (concat qs). msg_ts (?h ! i) \<noteq> 0} (\<lambda>i. text_blk ?mi (?h ! i))"
    using r(5) by (simp add: texts_def)
  have ts: "unat (msg_ts (?h ! i)) \<le> ssz ?mi * card (text_blk ?mi (?h ! i))" for i
  proof (cases "msg_ts (?h ! i) = 0")
    case False
    then show ?thesis using btoq_nseg [OF r(1), of "ucast (msg_ts (?h ! i))"] unat_bound [of "msg_ts (?h ! i)"]
      by (auto simp: unat_gt_0 text_blk_def mult.commute)
  qed simp
  have "(\<Sum>i\<leftarrow>qs ! k. unat (msg_ts (?h ! i))) = (\<Sum>i\<in>set (qs ! k). unat (msg_ts (?h ! i)))"
    by (rule sum_list_distinct_conv_sum_set [OF dist])
  also have "\<dots> = (\<Sum>i\<in>?I. unat (msg_ts (?h ! i)))" by (rule sum.mono_neutral_right) auto
  also have "\<dots> \<le> ssz ?mi * (\<Sum>i\<in>?I. card (text_blk ?mi (?h ! i)))"
    unfolding sum_distrib_left by (rule sum_mono [OF ts])
  also have "(\<Sum>i\<in>?I. card (text_blk ?mi (?h ! i))) = card (\<Union>i\<in>?I. text_blk ?mi (?h ! i))"
  proof (rule card_UN_disjoint [symmetric])
    show "\<forall>i\<in>?I. \<forall>j\<in>?I. i \<noteq> j \<longrightarrow> text_blk ?mi (?h ! i) \<inter> text_blk ?mi (?h ! j) = {}"
      using own sub unfolding owned_def by blast
  qed (simp_all add: text_blk_def)
  also have "\<dots> \<le> card {1..unat (mi_msgseg ?mi)}"
  proof (intro card_mono UN_least)
    fix i assume i: "i \<in> ?I"
    then have "i \<in> set (concat qs)" using sub by blast
    then show "text_blk ?mi (?h ! i) \<subseteq> {1..unat (mi_msgseg ?mi)}" using r(5) i by (fastforce simp: texts_def text_blk_def)
  qed simp
  finally show ?thesis by simp
qed

text \<open>
  In a state in order the counters of a queue are exact: with fewer than
  $2^{32}$ headers \<open>msg_qnum\<close> is the number of its messages, and \<open>msg_cbytes\<close> is the sum of the
  lengths of their texts as a natural number, without a wrap, and at most the size of the buffer.
\<close>

lemma msg_accounting:
  assumes "msg_wf st" "k < length (msgque st)" "length (msgh st) < 4294967296"
  shows "unat (msg_qnum (msgque st ! k)) = length (msgs st k) \<and>
    unat (msg_cbytes (msgque st ! k)) = (\<Sum>m\<leftarrow>msgs st k. length (snd m)) \<and>
    (\<Sum>m\<leftarrow>msgs st k. length (snd m)) \<le> ssz (msg_info st) * unat (mi_msgseg (msg_info st))"
proof -
  obtain qs fs where good: "msg_good st qs fs" using assms(1) by (auto simp: msg_wf_def)
  note rep = msg_goodD(1) [OF good]
  note r = msg_repD [OF rep]
  have sub: "set (qs ! k) \<subseteq> set (concat qs)" using r(8) assms(2) by (intro set_nth_concat) simp
  have "distinct (qs ! k)" using hchainsD(3) [OF r(4)] r(8) assms(2) by (auto simp: distinct_concat_iff)
  then have "length (qs ! k) \<le> length (msgh st)"
    using hchains_bound [OF r(4)] sub by (intro distinct_bounded_length) blast+
  then have n: "unat (msg_qnum (msgque st ! k)) = length (msgs st k)"
    using assms(3) msg_goodD(6) [OF good assms(2)]
    by (simp add: queue_ok_def msgs_rep [OF rep assms(2)] unat_of_nat_small)
  have len: "(\<Sum>m\<leftarrow>msgs st k. length (snd m)) = (\<Sum>i\<leftarrow>qs ! k. unat (msg_ts (msgh st ! i)))"
    unfolding msgs_rep [OF rep assms(2)] map_map
    by (intro arg_cong [where f = sum_list] map_cong) (simp_all add: text_length(1) [OF rep subsetD [OF sub]])
  note fit = texts_fit [OF rep assms(2)]
  have "ssz (msg_info st) \<le> 65536" "unat (mi_msgseg (msg_info st)) < 32768"
    using r(1) sint_unat [of "mi_msgssz (msg_info st)"] unfolding msg_params_def by linarith+
  then have "ssz (msg_info st) * unat (mi_msgseg (msg_info st)) \<le> 65536 * 32767" by (intro mult_le_mono) simp_all
  then have small: "(\<Sum>i\<leftarrow>qs ! k. unat (msg_ts (msgh st ! i))) < 4294967296" using fit by linarith
  have "(\<Sum>i\<leftarrow>xs. ucast (msg_ts (msgh st ! i)) :: ulong) = of_nat (\<Sum>i\<leftarrow>xs. unat (msg_ts (msgh st ! i)))" for xs
    by (induction xs) (simp_all add: unsigned_ucast_eq flip: word_unat_eq_iff)
  then have "msg_cbytes (msgque st ! k) = of_nat (\<Sum>i\<leftarrow>qs ! k. unat (msg_ts (msgh st ! i)))"
    using msg_goodD(2) [OF good assms(2)] by (simp add: bytes_ok_def)
  then have "unat (msg_cbytes (msgque st ! k)) = (\<Sum>i\<leftarrow>qs ! k. unat (msg_ts (msgh st ! i)))"
    using small by (simp add: unat_of_nat_small)
  then show ?thesis using n len fit by simp
qed

lemma msg_accounting_witness:
  "unat (msg_qnum mx_queue) = 1 \<and> unat (msg_cbytes mx_queue) = 4 \<and> length (msgs mx_st 0) = 1"
proof -
  have "0 < length (msgque mx_st)" "length (msgh mx_st) < 4294967296" "msgque mx_st ! 0 = mx_queue" by (simp_all add: mx_st_def)
  then show ?thesis using msg_accounting [OF mx_wf, of 0] mx_msgs(1) by simp
qed

section \<open>Identifiers\<close>

text \<open>An identifier that names no queue is refused by every call, whatever the arguments and the caller.\<close>

definition msg_refused :: "msg_state \<Rightarrow> int32 \<Rightarrow> bool" where
  "msg_refused st d \<longleftrightarrow>
    (\<forall>c cmd arg. msgctl st c d cmd arg = msg_fail EINVAL st) \<and>
    (\<forall>c a um. msgsnd st c (a\<lparr>snd_msqid := d\<rparr>) um = msg_fail EINVAL st) \<and>
    (\<forall>c a um. msgrcv st c (a\<lparr>rcv_msqid := d\<rparr>) um = msg_fail EINVAL st)"

lemma msg_find_refused: "msg_wf st \<Longrightarrow> msg_find st d = None \<Longrightarrow> msg_refused st d"
  by (simp add: msg_refused_def msgctl_def msgconv_wf msgsnd_checks msgrcv_checks)

lemma msgget_stale:
  assumes wf: "msg_wf st" and d: "k = msg_idx (mi_msgmni (msg_info st)) d" "\<not> ipc_used (msg_perm (msgque st ! k))"
      "perm_seq (msg_perm (msgque st ! k)) \<noteq> msg_sq (mi_msgmni (msg_info st)) d"
    and get: "msgget st c key flg = Ret (r, st2)"
  shows "msg_wf st2" "msg_find st2 d = None" "r \<noteq> Msg_done (Inr d) MOut_none"
proof -
  obtain res where g: "r = Msg_done res MOut_none" "msg_wf st2" "msg_info st2 = msg_info st"
    "case res of Inl e \<Rightarrow> st2 = st
     | Inr d2 \<Rightarrow> \<exists>k2<length (msgque st). msg_find st2 d2 = Some k2 \<and>
         (if ipc_used (msg_perm (msgque st ! k2)) then st2 = st
          else msgs st2 k2 = [] \<and> msg_qnum_cv (msgque st2 ! k2) = [] \<and>
            perm_seq (msg_perm (msgque st2 ! k2)) = perm_seq (msg_perm (msgque st ! k2)) \<and>
            (\<forall>j. j \<noteq> k2 \<longrightarrow> msgque st2 ! j = msgque st ! j))"
    using msgget_spec [OF wf, of c key flg] get by auto
  have same: "st2 = st \<Longrightarrow> msg_find st2 d = None" using d by (auto simp: msg_find_def)
  have stale: "msg_find st2 d = None"
  proof (cases res)
    case (Inr d2)
    then obtain k2 where "if ipc_used (msg_perm (msgque st ! k2)) then st2 = st
        else msgs st2 k2 = [] \<and> msg_qnum_cv (msgque st2 ! k2) = [] \<and>
          perm_seq (msg_perm (msgque st2 ! k2)) = perm_seq (msg_perm (msgque st ! k2)) \<and> (\<forall>j. j \<noteq> k2 \<longrightarrow> msgque st2 ! j = msgque st ! j)"
      using g(4) by auto
    then have k2: "st2 = st \<or> perm_seq (msg_perm (msgque st2 ! k2)) = perm_seq (msg_perm (msgque st ! k2)) \<and> (\<forall>j. j \<noteq> k2 \<longrightarrow> msgque st2 ! j = msgque st ! j)"
      by (auto split: if_splits)
    show ?thesis
    proof (cases "k2 = k")
      case True
      then show ?thesis using k2 g(3) d by (auto simp: msg_find_def)
    next
      case False
      then show ?thesis using k2 g(3) d same by (auto simp: msg_find_def split: if_splits)
    qed
  qed (use g(4) same in simp)
  have "r \<noteq> Msg_done (Inr d) MOut_none" using g(1,4) stale by auto
  then show "msg_wf st2" "msg_find st2 d = None" "r \<noteq> Msg_done (Inr d) MOut_none" using g(2) stale by simp_all
qed

text \<open>
  C20 (msg_rmid_stale). After a successful \<open>IPC_RMID\<close> the identifier names no queue: every
  \<open>msgctl\<close>, \<open>msgsnd\<close> and \<open>msgrcv\<close> with it fails with \<open>EINVAL\<close> and changes nothing, whoever calls
  and with whatever arguments. A \<open>msgget\<close> that follows does not return the identifier, even when it
  makes a new queue in the same entry, and afterwards the identifier is refused in the same way. The
  queue is empty, its receivers are awake, and the other queues are untouched.
\<close>

theorem msg_rmid_stale:
  assumes "msg_wf st" "msgctl st c d IPC_RMID arg = Ret (Msg_done (Inr 0) out, st')"
    "msgget st' c2 key flg = Ret (r2, st2)"
  shows "\<exists>k. msg_find st d = Some k \<and> msgs st' k = [] \<and> msg_qnum_cv (msgque st' ! k) = [] \<and>
      (\<forall>j<length (msgque st). j \<noteq> k \<longrightarrow> msgs st' j = msgs st j \<and> msgque st' ! j = msgque st ! j) \<and>
      msg_refused st' d \<and> r2 \<noteq> Msg_done (Inr d) MOut_none \<and> msg_refused st2 d"
proof -
  obtain k where k: "msg_find st d = Some k" "rmid_effect st d k st'" and wf: "msg_wf st'" and inf: "msg_info st' = msg_info st"
    using msgctl_spec [OF assms(1), of c d IPC_RMID arg] assms(2) by auto
  note b = msg_find_bound [OF msg_wfD(1,2) [OF assms(1)] k(1)]
  let ?n = "mi_msgmni (msg_info st)"
  have new: "msg_bump ?n d (perm_seq (msg_perm (msgque st ! k))) \<noteq> msg_sq ?n d" using msg_find_bump [OF assms(1) k(1)] b(5) by simp
  have e: "perm_seq (msg_perm (msgque st' ! k)) \<noteq> msg_sq ?n d" "\<not> ipc_used (msg_perm (msgque st' ! k))" "msg_qnum_cv (msgque st' ! k) = []"
    using k(2) new by (auto simp: rmid_effect_def rview_def)
  have f': "msg_find st' d = None" using e(2) b(4) inf by (auto simp: msg_find_def)
  note g = msgget_stale [OF wf _ e(2) _ assms(3), of d, unfolded inf, OF b(4) e(1)]
  show ?thesis using k e(3) msg_find_refused [OF wf f'] msg_find_refused [OF g(1,2)] g(3) by (auto simp: rmid_effect_def)
qed

lemma mx_rmid_run:
  "case msgctl mx_st mx_ctx mx_id IPC_RMID mx_um of
     Ret (r, st1) \<Rightarrow> r = Msg_done (Inr 0) MOut_none \<and>
       (case msgget st1 mx_ctx 0 0 of Ret (r2, st2) \<Rightarrow> r2 = Msg_done (Inr 8) MOut_none | _ \<Rightarrow> False)
   | _ \<Rightarrow> False"
  by code_simp

theorem msg_rmid_stale_witness:
  "\<exists>st1 st2. msgctl mx_st mx_ctx mx_id IPC_RMID mx_um = Ret (Msg_done (Inr 0) MOut_none, st1) \<and> msgs st1 0 = [] \<and>
     msgget st1 mx_ctx 0 0 = Ret (Msg_done (Inr 8) MOut_none, st2) \<and>
     msg_refused st1 mx_id \<and> msg_refused st2 mx_id \<and> mx_id \<noteq> 8"
proof -
  obtain st1 where r1: "msgctl mx_st mx_ctx mx_id IPC_RMID mx_um = Ret (Msg_done (Inr 0) MOut_none, st1)"
    "case msgget st1 mx_ctx 0 0 of Ret (r2, st2) \<Rightarrow> r2 = Msg_done (Inr 8) MOut_none | _ \<Rightarrow> False"
    using mx_rmid_run by (cases "msgctl mx_st mx_ctx mx_id IPC_RMID mx_um") (simp_all split: prod.splits)
  then obtain st2 where r: "msgctl mx_st mx_ctx mx_id IPC_RMID mx_um = Ret (Msg_done (Inr 0) MOut_none, st1)"
    "msgget st1 mx_ctx 0 0 = Ret (Msg_done (Inr 8) MOut_none, st2)"
    by (cases "msgget st1 mx_ctx 0 0") (simp_all split: prod.splits)
  then show ?thesis using msg_rmid_stale [OF mx_wf r] r mx_find by auto
qed

text \<open>
  C21 (msgctl_set_no_wakeup). \<open>IPC_SET\<close> can raise the limit \<open>msg_qbytes\<close> of a queue, but leaves the
  senders that sleep for room on it asleep, with the flag \<open>MSG_WWAIT\<close> set: a sender whose message
  fits under the new limit sleeps on until a message is taken from the queue.
\<close>

theorem msgctl_set_no_wakeup:
  assumes "msg_wf st" "msg_find st d = Some k" "um_ds arg = Some ds" "cr_uid (ctx_cred c) = 0"
    "0 \<le> sint (perm_uid (msg_perm ds))" "sint (perm_uid (msg_perm ds)) \<le> sint MAXUID"
    "0 \<le> sint (perm_gid (msg_perm ds))" "sint (perm_gid (msg_perm ds)) \<le> sint MAXUID"
  shows "\<exists>st'. msgctl st c d IPC_SET arg = Ret (Msg_done (Inr 0) MOut_none, st') \<and> msg_wf st' \<and>
    msg_qbytes (msgque st' ! k) = msg_qbytes ds \<and> msg_cv (msgque st' ! k) = msg_cv (msgque st ! k)"
proof -
  note b = msg_find_bound [OF msg_wfD(1,2) [OF assms(1)] assms(2)]
  have "fst (msg_raise q n (ctx_cred c) ac)" "fst (ipc_owner p (ctx_cred c) ac)" for q n ac p
    using assms(4) by (simp_all add: msg_raise_def suser_def ipc_owner_def)
  then obtain st1 where s: "msgctl_set (msg_locked st k) c k (Some ds) = Ret (Msg_done (Inr 0) MOut_none, st1)"
    "msg_qbytes (msgque st1 ! k) = msg_qbytes ds" "msg_cv (msgque st1 ! k) = msg_cv (msgque st ! k)"
    using assms(5-8) b(1) by (auto simp: msgctl_set_def Let_def split_beta)
  then have e: "msgctl st c d IPC_SET arg = Ret (Msg_done (Inr 0) MOut_none, msg_unlock st1 k)"
    using assms(1,2,3) by (simp add: msgctl_def msgconv_wf msgctl_cmd_def IPC_RMID_def IPC_SET_def IPC_O_RMID_def IPC_O_SET_def)
  then have "msg_wf (msg_unlock st1 k)" using msgctl_spec [OF assms(1), of c d IPC_SET arg] by auto
  then show ?thesis using e s by auto
qed

definition mx_set :: msg_uarg where
  "mx_set = mx_um\<lparr>um_ds := Some (mx_queue\<lparr>msg_qbytes := 64\<rparr>)\<rparr>"

theorem msgctl_set_no_wakeup_witness:
  "\<exists>st'. msgctl mx_st (mx_ctx\<lparr>ctx_cred := (ctx_cred mx_ctx)\<lparr>cr_uid := 0\<rparr>\<rparr>) mx_id IPC_SET mx_set = Ret (Msg_done (Inr 0) MOut_none, st') \<and>
     msg_qbytes (msgque st' ! 0) = 64 \<and> msg_cv (msgque st' ! 0) = [9]"
proof -
  have "um_ds mx_set = Some (mx_queue\<lparr>msg_qbytes := 64\<rparr>)" "msg_cv (msgque mx_st ! 0) = [9]" by (simp_all add: mx_set_def mx_st_def mx_queue_def)
  moreover have "sint (perm_uid (msg_perm mx_queue)) = 7" "sint (perm_gid (msg_perm mx_queue)) = 0" "sint MAXUID = 60002"
    by (simp_all add: mx_eval MAXUID_def)
  ultimately show ?thesis
    using msgctl_set_no_wakeup [OF mx_wf mx_find, of mx_set _ "mx_ctx\<lparr>ctx_cred := (ctx_cred mx_ctx)\<lparr>cr_uid := 0\<rparr>\<rparr>"] by auto
qed

section \<open>Initialisation\<close>

lemma lseg_thread:
  assumes "\<forall>j<length h. msg_next (h ! j) = (if j < i then Some (Suc j) else None)" "i + n < length h" 
  shows "length (msg_thread n i h) = length h \<and>
    (\<forall>j<length h. msg_next (msg_thread n i h ! j) = (if j < i + n then Some (Suc j) else None))"
  using assms
proof (induction n arbitrary: i h)
  case (Suc n)
  let ?h = "h[i := (h ! i)\<lparr>msg_next := Some (Suc i)\<rparr>]"
  have "\<forall>j<length ?h. msg_next (?h ! j) = (if j < Suc i then Some (Suc j) else None)"
    using Suc.prems by (auto simp: nth_list_update less_Suc_eq)
  from Suc.IH [OF this] show ?case using Suc.prems(2) by simp
qed simp

lemma lseg_upt:
  assumes "\<forall>j<length h. msg_next (h ! j) = (if j < m then Some (Suc j) else None)" "i \<le> m" "m < length h"
  shows "lseg h (Some i) [i..<Suc m] None"
  using assms(2)
proof (induction "m - i" arbitrary: i)
  case 0
  then show ?case using assms by simp
next
  case (Suc n)
  then have "lseg h (Some (Suc i)) [Suc i..<Suc m] None" by simp
  moreover have "[i..<Suc m] = i # [Suc i..<Suc m]" using Suc.prems by (simp add: upt_rec)
  ultimately show ?case using Suc assms by (auto simp: upt_rec [of i])
qed

lemma INTRND_room:
  assumes "unat (x :: ulong) < 2147483648"
  shows "unat x \<le> unat (INTRND x)"
proof -
  have a: "unat (x + 3) = unat x + 3" using assms by (subst unat_add_nowrap) simp_all
  have "unat (x + 3) div 4 * 4 \<le> unat (x + 3)" by simp
  then have "unat (x + 3) div 4 * 4 < 4294967296" using a assms by linarith
  then have "unat ((x + 3) div 4 * 4) = unat (x + 3) div 4 * 4" by (simp add: unat_mult_nowrap unat_div)
  moreover have "unat x \<le> unat (x + 3) div 4 * 4" unfolding a by linarith
  ultimately show ?thesis by (simp add: INTRND_def)
qed

lemma mapinit_msgmap:
  assumes "8 \<le> unat n" "unat n < 268435456" "0 < unat sz" "unat sz < 65536"
  shows "\<exists>rmp. mapinit (zalloc_map (n * sizeof_map)) sz 1 name n = Ret rmp \<and> map_wf rmp \<and> 2 \<le> unat (m_nsegs rmp) \<and>
    free_set rmp = {1..unat sz}"
proof -
  have b: "unat (n * sizeof_map) = unat n * 8" using assms(2) by (simp add: sizeof_map_def unat_mult_nowrap)
  have o: "MAP_OVERHEAD = 6" by (simp add: MAP_OVERHEAD_def sizeof_map_def)
  have n: "unat (n - 6) = unat n - 6" "unat (n - 6 - 1) = unat n - 7"
    using assms(1,2) by (simp_all add: unat_sub word_le_nat_alt)
  have "(unat n * 8 - 28) div 8 = Suc (unat n - 5)" using assms(1) by presburger
  then have z: "m_map (zalloc_map (n * sizeof_map)) = zero_seg # replicate (unat n - 5) zero_seg" by (simp add: zalloc_map_def b)
  have sz: "sz \<noteq> 0" using assms(3) by auto
  define rmp where "rmp = (zalloc_map (n * sizeof_map))\<lparr>m_free := n - 6 - 1, m_nsegs := n - 6, m_nam := name,
    m_map := zero_seg\<lparr>m_size := sz, m_addr := 1\<rparr> # replicate (unat n - 5) zero_seg\<rparr>"
  have "mapinit (zalloc_map (n * sizeof_map)) sz 1 name n = Ret rmp"
    using assms(1) sz by (simp add: mapinit_def o z rmp_def word_less_nat_alt)
  moreover have l: "live (m_map rmp) = [\<lparr>m_size = sz, m_addr = 1\<rparr>]"
    using sz by (simp add: rmp_def live_def zero_seg_def)
  moreover have "map_wf rmp" unfolding map_wf_def l
    using assms sz n by (simp add: rmp_def segs_wf_def seg_defs zero_seg_def list_all_iff, linarith)
  moreover have "2 \<le> unat (m_nsegs rmp)" using assms(1) n(1) by (simp add: rmp_def)
  moreover have "free_set rmp = {1..unat sz}" by (auto simp: free_set_def l segs_set_def seg_defs)
  ultimately show ?thesis by blast
qed

text \<open>
  Module initialisation with usable parameters and enough memory leaves a
  state in order, with no queue in use, no message, and all headers on the free list.
\<close>

lemma msg_init_invariant:
  assumes "msg_params mi" "8 \<le> sint (mi_msgmap mi)" "sint (mi_msgmap mi) < 268435456" "mi_msgseg mi \<noteq> 0" "1 \<le> sint (mi_msgtql mi)"
    "msg_bytes mi \<le> mavail"
  shows "\<exists>st. msg_init mi mavail None = Ret (Inr st) \<and> msg_wf st \<and> msg_info st = mi \<and>
    (\<forall>k<length (msgque st). \<not> ipc_used (msg_perm (msgque st ! k)) \<and> msgs st k = []) \<and>
    hwalk (length (msgh st)) (msgh st) (msgfp st) = [0..<unat (mi_msgtql mi)]"
proof -
  have p: "0 < sint (mi_msgmni mi)" "0 < sint (mi_msgssz mi)" "sint (mi_msgssz mi) \<le> 65536" "unat (mi_msgseg mi) < 32768"
    using assms(1) by (auto simp: msg_params_def)
  have nn: "sint (mi_msgmni mi) = int (unat (mi_msgmni mi))" "sint (mi_msgmap mi) = int (unat (mi_msgmap mi))"
    "sint (mi_msgssz mi) = int (ssz mi)" "sint (mi_msgtql mi) = int (unat (mi_msgtql mi))"
    using p assms(2,5) by (intro sint_unat; linarith)+
  let ?sz = "ucast (mi_msgseg mi) :: ulong"
  have u: "unat ?sz = unat (mi_msgseg mi)" by simp
  have "0 < unat (mi_msgseg mi)" using assms(4) by (simp add: unat_gt_0)
  then obtain rmp where m: "mapinit (zalloc_map (mi_msgmap mi * sizeof_map)) ?sz 1 ''msgmap'' (mi_msgmap mi) = Ret rmp" "map_wf rmp"
    "2 \<le> unat (m_nsegs rmp)" "free_set rmp = {1..unat (mi_msgseg mi)}"
    using mapinit_msgmap [of "mi_msgmap mi" ?sz "''msgmap''"] assms(2,3) nn(2) p(4) u by auto
  let ?n = "unat (mi_msgtql mi) - 1" and ?z = "replicate (unat (mi_msgtql mi)) zero_msg"
  have n: "nat (sint (mi_msgtql mi) - 1) = ?n" "0 < unat (mi_msgtql mi)" using nn(4) assms(5) by linarith+
  define st where "st = \<lparr>msg_info = mi, msg_pool = replicate (unat (INTRND (?sz * mi_msgssz mi))) 0, msgmap = rmp, msgmap_cv = [],
    msgh = msg_thread ?n 0 ?z, msgque = replicate (unat (mi_msgmni mi)) zero_msqid,
    msglocks = replicate (unat (mi_msgmni mi)) idle_lock, msgfp = Some 0, msgfp_cv = [], msg_acflag = 0\<rparr>"
  have r: "msg_init mi mavail None = Ret (Inr st)"
    using assms(6) m(1) by (simp add: msg_init_def st_def idle_lock_def n(1) linorder_not_less)
  have th: "length (msg_thread ?n 0 ?z) = unat (mi_msgtql mi)"
    "\<forall>j<unat (mi_msgtql mi). msg_next (msg_thread ?n 0 ?z ! j) = (if j < ?n then Some (Suc j) else None)"
    using lseg_thread [of ?z 0 ?n] n(2) by (simp_all add: zero_msg_def)
  have fs: "lseg (msgh st) (msgfp st) [0..<unat (mi_msgtql mi)] None"
    using lseg_upt [of "msgh st" ?n 0] th n(2) by (simp add: st_def)
  have "unat (?sz * mi_msgssz mi) = unat (mi_msgseg mi) * ssz mi \<and> unat (mi_msgseg mi) * ssz mi < 2147483648"
  proof -
    have "unat (mi_msgseg mi) * ssz mi \<le> 32767 * 65536" using p(3,4) nn(3) by (intro mult_le_mono; linarith)
    then show ?thesis by (simp add: unat_mult_nowrap u)
  qed
  then have pool: "ssz mi * unat (mi_msgseg mi) \<le> length (msg_pool st)"
    using INTRND_room [of "?sz * mi_msgssz mi"] by (simp add: st_def mult.commute)
  let ?qs = "replicate (unat (mi_msgmni mi)) []"
  have "hchains (msgh st) (msgque st) (msgfp st) ?qs [0..<unat (mi_msgtql mi)]"
    using fs by (simp add: hchains_def st_def zero_msqid_def)
  moreover have "queue_ok mi k zero_msqid []" if "k < unat (mi_msgmni mi)" for k
  proof -
    have "k < 2147483648" using that nn(1) assms(1) unfolding msg_params_def by linarith
    then show ?thesis by (simp add: queue_ok_def seq_ok_def zero_msqid_def zero_perm_def)
  qed
  ultimately have good: "msg_good st ?qs [0..<unat (mi_msgtql mi)]"
    using assms(1) m pool nn(1) by (simp add: msg_good_def msg_rep_def texts_def bytes_ok_def st_def zero_msqid_def)
  then have wf: "msg_wf st" by (auto simp: msg_wf_def locks_idle_def st_def)
  have "\<not> ipc_used (msg_perm (msgque st ! k)) \<and> msgs st k = []" if "k < length (msgque st)" for k
    using that msgs_rep [OF msg_goodD(1) [OF good] that] by (simp add: st_def zero_msqid_def zero_perm_def ipc_used_def)
  moreover have "hwalk (length (msgh st)) (msgh st) (msgfp st) = [0..<unat (mi_msgtql mi)]"
    using fs th(1) by (intro hwalk_lseg) (simp_all add: st_def)
  ultimately show ?thesis using r wf by (auto simp: st_def)
qed

lemma msg_init_invariant_witness:
  "\<exists>st. msg_init mx_info 4096 None = Ret (Inr st) \<and> msg_wf st \<and> hwalk (length (msgh st)) (msgh st) (msgfp st) = [0, 1, 2]"
proof -
  have "msg_params mx_info" "msg_bytes mx_info \<le> 4096" "8 \<le> sint (mi_msgmap mx_info)" "sint (mi_msgmap mx_info) < 268435456"
    "mi_msgseg mx_info \<noteq> 0" "1 \<le> sint (mi_msgtql mx_info)" "unat (mi_msgtql mx_info) = 3"
    by (simp_all add: mx_info_def msg_params_def msg_bytes_def INTRND_def sizeof_map_def)
  with msg_init_invariant [OF this(1,3,4,5,6,2)] show ?thesis by (auto simp: upt_rec numeral_2_eq_2)
qed

end
