(* ===== verification/Xdr.thy ===== *)
theory Xdr
  imports Kernel_Prelude "HOL-Library.Signed_Division"
begin

text \<open>
  External data representation, \<open>rpc/xdr.c\<close>, \<open>rpc/xdr_array.c\<close>, \<open>rpc/xdr_refer.c\<close> and the memory
  streams of \<open>rpc/xdr_mem.c\<close>. A filter takes a stream handle and an object and returns its boolean
  result, the object as it leaves it, and the handle: which of encoding, decoding and freeing it
  does is a field of the handle, as in the source. The operations of a stream are a record of
  functions in the handle, so the filters work on any kind of stream.
\<close>

section \<open>Streams\<close>

datatype xdr_op = XDR_ENCODE | XDR_DECODE | XDR_FREE

definition BYTES_PER_XDR_UNIT :: ulong where "BYTES_PER_XDR_UNIT = 4"
definition XDR_FALSE :: int32 where "XDR_FALSE = 0"
definition XDR_TRUE :: int32 where "XDR_TRUE = 1"
definition LASTUNSIGNED :: ulong where "LASTUNSIGNED = - 1"
definition XDR_PEEK :: int32 where "XDR_PEEK = 2"
definition XDR_SKIPBYTES :: int32 where "XDR_SKIPBYTES = 3"

definition RNDUP :: "ulong \<Rightarrow> ulong" where
  "RNDUP x = (x + BYTES_PER_XDR_UNIT - 1) div BYTES_PER_XDR_UNIT * BYTES_PER_XDR_UNIT"

definition RNDUP_int :: "int32 \<Rightarrow> int32" where
  "RNDUP_int x = word_of_int (sint (x + BYTES_PER_XDR_UNIT - 1) sdiv 4) * BYTES_PER_XDR_UNIT"

text \<open>
  A pointer to bytes is null, points to memory of its own with the given contents, or points into
  the buffer of a stream, which holds the given bytes there.
\<close>

datatype cptr = NullP | Mem "byte list" | Buf "byte list"

fun cload :: "cptr \<Rightarrow> byte list kres" where
  "cload NullP = Fault" | "cload (Mem bs) = Ret bs" | "cload (Buf bs) = Ret bs"

text \<open>
  \<open>bcopy\<close> of the first \<open>n\<close> bytes of a piece of memory, and of given bytes to the start of one. What a
  store through a pointer into a stream's buffer does to the stream is not followed.
\<close>

definition bcopy_from :: "cptr \<Rightarrow> nat \<Rightarrow> byte list kres" where
  "bcopy_from p n = kbind (cload p) (\<lambda>bs. if length bs < n then Fault else Ret (take n bs))"

fun bcopy_to :: "cptr \<Rightarrow> byte list \<Rightarrow> cptr kres" where
  "bcopy_to (Mem m) bs = (if length m < length bs then Fault else Ret (Mem (bs @ drop (length bs) m)))"
| "bcopy_to _ bs = Fault"

text \<open>
  The operations vector over the private state of the stream. The last two fields are no entries
  of the vector: they are the loads and stores of the processor in the buffer to which \<open>x_inline\<close>
  gives a pointer.
\<close>

record 's xdr_ops =
  x_getlong :: "'s \<Rightarrow> (int32 option \<times> 's) kres"
  x_putlong :: "'s \<Rightarrow> int32 \<Rightarrow> (bool \<times> 's) kres"
  x_getbytes :: "'s \<Rightarrow> cptr \<Rightarrow> int32 \<Rightarrow> (bool \<times> cptr \<times> 's) kres"
  x_putbytes :: "'s \<Rightarrow> cptr \<Rightarrow> int32 \<Rightarrow> (bool \<times> 's) kres"
  x_getpostn :: "'s \<Rightarrow> ulong"
  x_setpostn :: "'s \<Rightarrow> ulong \<Rightarrow> bool \<times> 's"
  x_inline :: "'s \<Rightarrow> int32 \<Rightarrow> ulong option \<times> 's"
  x_control :: "'s \<Rightarrow> int32 \<Rightarrow> int32 \<Rightarrow> (int32 option \<times> 's) kres"
  x_load :: "'s \<Rightarrow> ulong \<Rightarrow> nat \<Rightarrow> byte list kres"
  x_store :: "'s \<Rightarrow> ulong \<Rightarrow> byte list \<Rightarrow> 's kres"

text \<open>
  The handle. \<open>x_stream\<close> holds the fields \<open>x_private\<close>, \<open>x_base\<close> and \<open>x_handy\<close> and the memory behind
  them. \<open>x_kmem\<close> is the number of bytes of kernel memory that \<open>mem_alloc\<close> has handed out, and
  \<open>x_fresh\<close> what such memory contains.
\<close>

record 's XDR =
  x_op :: xdr_op
  x_ops :: "'s xdr_ops"
  x_stream :: 's
  x_kmem :: nat
  x_fresh :: "nat \<Rightarrow> byte"

type_synonym ('s, 'a) xdrproc = "'s XDR \<Rightarrow> 'a \<Rightarrow> (bool \<times> 'a \<times> 's XDR) kres"

text \<open>
  A filter that another filter calls through a pointer is handed a third argument, the constant
  \<open>LASTUNSIGNED\<close>. A filter of two arguments ignores it, a filter with a size limit, such as
  \<open>xdr_string\<close>, takes it for the limit.
\<close>

type_synonym ('s, 'a) xdrproc_t = "ulong \<Rightarrow> ('s, 'a) xdrproc"

definition mem_alloc :: "'s XDR \<Rightarrow> ulong \<Rightarrow> byte list \<times> 's XDR" where
  "mem_alloc xs n = (map (x_fresh xs) [0..<unat n], xs\<lparr>x_kmem := x_kmem xs + unat n\<rparr>)"

text \<open>Memory is given back in one piece with its size, and only memory that was handed out.\<close>

definition kmem_free :: "'s XDR \<Rightarrow> nat \<Rightarrow> ulong \<Rightarrow> 's XDR kres" where
  "kmem_free xs len n = (if len \<noteq> unat n \<or> x_kmem xs < len then Fault else Ret (xs\<lparr>x_kmem := x_kmem xs - len\<rparr>))"

fun mem_free :: "'s XDR \<Rightarrow> cptr \<Rightarrow> ulong \<Rightarrow> 's XDR kres" where
  "mem_free xs (Mem bs) n = kmem_free xs (length bs) n"
| "mem_free xs _ n = Fault"

definition XDR_GETLONG :: "'s XDR \<Rightarrow> (int32 option \<times> 's XDR) kres" where
  "XDR_GETLONG xs = kbind (x_getlong (x_ops xs) (x_stream xs)) (\<lambda>(r, s). Ret (r, xs\<lparr>x_stream := s\<rparr>))"

definition XDR_PUTLONG :: "'s XDR \<Rightarrow> int32 \<Rightarrow> (bool \<times> 's XDR) kres" where
  "XDR_PUTLONG xs l = kbind (x_putlong (x_ops xs) (x_stream xs) l) (\<lambda>(r, s). Ret (r, xs\<lparr>x_stream := s\<rparr>))"

definition XDR_GETBYTES :: "'s XDR \<Rightarrow> cptr \<Rightarrow> int32 \<Rightarrow> (bool \<times> cptr \<times> 's XDR) kres" where
  "XDR_GETBYTES xs p n = kbind (x_getbytes (x_ops xs) (x_stream xs) p n) (\<lambda>(r, p', s). Ret (r, p', xs\<lparr>x_stream := s\<rparr>))"

definition XDR_PUTBYTES :: "'s XDR \<Rightarrow> cptr \<Rightarrow> int32 \<Rightarrow> (bool \<times> 's XDR) kres" where
  "XDR_PUTBYTES xs p n = kbind (x_putbytes (x_ops xs) (x_stream xs) p n) (\<lambda>(r, s). Ret (r, xs\<lparr>x_stream := s\<rparr>))"

definition XDR_INLINE :: "'s XDR \<Rightarrow> int32 \<Rightarrow> ulong option \<times> 's XDR" where
  "XDR_INLINE xs n = (case x_inline (x_ops xs) (x_stream xs) n of (b, s) \<Rightarrow> (b, xs\<lparr>x_stream := s\<rparr>))"

section \<open>Big-endian words\<close>

definition enc32 :: "32 word \<Rightarrow> byte list" where
  "enc32 w = [ucast (drop_bit 24 w), ucast (drop_bit 16 w), ucast (drop_bit 8 w), ucast w]"

fun dec32 :: "byte list \<Rightarrow> 32 word" where
  "dec32 (a # b # c # d # _) = (push_bit 24 (ucast a)) OR ((push_bit 16 (ucast b)) OR ((push_bit 8 (ucast c)) OR ucast d))"
| "dec32 _ = 0"

section \<open>Filters\<close>

definition xdr_void :: "'s XDR \<Rightarrow> bool \<times> 's XDR" where
  "xdr_void xs = (True, xs)"

definition xdr_long :: "('s, int32) xdrproc" where
  "xdr_long xs l =
    (case x_op xs of
       XDR_ENCODE \<Rightarrow> kbind (XDR_PUTLONG xs l) (\<lambda>(b, xs). Ret (b, l, xs))
     | XDR_DECODE \<Rightarrow> kbind (XDR_GETLONG xs) (\<lambda>(r, xs).
         case r of None \<Rightarrow> Ret (False, l, xs) | Some v \<Rightarrow> Ret (True, v, xs))
     | XDR_FREE \<Rightarrow> Ret (True, l, xs))"

definition xdr_u_long :: "('s, ulong) xdrproc" where
  "xdr_u_long xs l =
    (case x_op xs of
       XDR_DECODE \<Rightarrow> kbind (XDR_GETLONG xs) (\<lambda>(r, xs).
         case r of None \<Rightarrow> Ret (False, l, xs) | Some v \<Rightarrow> Ret (True, v, xs))
     | XDR_ENCODE \<Rightarrow> kbind (XDR_PUTLONG xs l) (\<lambda>(b, xs). Ret (b, l, xs))
     | XDR_FREE \<Rightarrow> Ret (True, l, xs))"

text \<open>An \<open>int\<close> is as wide as a \<open>long\<close>.\<close>

definition xdr_int :: "('s, int32) xdrproc" where
  "xdr_int xs i = xdr_long xs i"

definition xdr_u_int :: "('s, ulong) xdrproc" where
  "xdr_u_int xs u = xdr_u_long xs u"

text \<open>The two halves of a 64-bit integer, the high one first in memory and on the stream.\<close>

definition ll_hi :: "64 word \<Rightarrow> 32 word" where "ll_hi v = ucast (drop_bit 32 v)"
definition ll_lo :: "64 word \<Rightarrow> 32 word" where "ll_lo v = ucast v"
definition ll_mk :: "32 word \<Rightarrow> 32 word \<Rightarrow> 64 word" where "ll_mk h l = (push_bit 32 (ucast h)) OR ucast l"

definition xdr_longlong_t :: "('s, 64 word) xdrproc" where
  "xdr_longlong_t xs v =
    (case x_op xs of
       XDR_ENCODE \<Rightarrow> kbind (XDR_PUTLONG xs (ll_hi v)) (\<lambda>(b, xs).
         if b then kbind (XDR_PUTLONG xs (ll_lo v)) (\<lambda>(b, xs). Ret (b, v, xs)) else Ret (False, v, xs))
     | XDR_DECODE \<Rightarrow> kbind (XDR_GETLONG xs) (\<lambda>(r, xs).
         case r of
           None \<Rightarrow> Ret (False, v, xs)
         | Some h \<Rightarrow> kbind (XDR_GETLONG xs) (\<lambda>(r, xs).
             case r of None \<Rightarrow> Ret (False, ll_mk h (ll_lo v), xs) | Some l \<Rightarrow> Ret (True, ll_mk h l, xs)))
     | XDR_FREE \<Rightarrow> Ret (True, v, xs))"

definition xdr_u_longlong_t :: "('s, 64 word) xdrproc" where
  "xdr_u_longlong_t xs v =
    (case x_op xs of
       XDR_ENCODE \<Rightarrow> kbind (XDR_PUTLONG xs (ll_hi v)) (\<lambda>(b, xs).
         if b then kbind (XDR_PUTLONG xs (ll_lo v)) (\<lambda>(b, xs). Ret (b, v, xs)) else Ret (False, v, xs))
     | XDR_DECODE \<Rightarrow> kbind (XDR_GETLONG xs) (\<lambda>(r, xs).
         case r of
           None \<Rightarrow> Ret (False, v, xs)
         | Some h \<Rightarrow> kbind (XDR_GETLONG xs) (\<lambda>(r, xs).
             case r of None \<Rightarrow> Ret (False, ll_mk h (ll_lo v), xs) | Some l \<Rightarrow> Ret (True, ll_mk h l, xs)))
     | XDR_FREE \<Rightarrow> Ret (True, v, xs))"

definition xdr_short :: "('s, short) xdrproc" where
  "xdr_short xs sp =
    (case x_op xs of
       XDR_ENCODE \<Rightarrow> kbind (XDR_PUTLONG xs (scast sp)) (\<lambda>(b, xs). Ret (b, sp, xs))
     | XDR_DECODE \<Rightarrow> kbind (XDR_GETLONG xs) (\<lambda>(r, xs).
         case r of None \<Rightarrow> Ret (False, sp, xs) | Some l \<Rightarrow> Ret (True, ucast l, xs))
     | XDR_FREE \<Rightarrow> Ret (True, sp, xs))"

definition xdr_u_short :: "('s, ushort) xdrproc" where
  "xdr_u_short xs usp =
    (case x_op xs of
       XDR_ENCODE \<Rightarrow> kbind (XDR_PUTLONG xs (ucast usp)) (\<lambda>(b, xs). Ret (b, usp, xs))
     | XDR_DECODE \<Rightarrow> kbind (XDR_GETLONG xs) (\<lambda>(r, xs).
         case r of None \<Rightarrow> Ret (False, usp, xs) | Some l \<Rightarrow> Ret (True, ucast l, xs))
     | XDR_FREE \<Rightarrow> Ret (True, usp, xs))"

definition xdr_char :: "('s, byte) xdrproc" where
  "xdr_char xs cp = kbind (xdr_int xs (scast cp)) (\<lambda>(b, i, xs). Ret (b, if b then ucast i else cp, xs))"

definition xdr_bool :: "('s, int32) xdrproc" where
  "xdr_bool xs bp =
    (case x_op xs of
       XDR_ENCODE \<Rightarrow> kbind (XDR_PUTLONG xs (if bp \<noteq> 0 then XDR_TRUE else XDR_FALSE)) (\<lambda>(b, xs). Ret (b, bp, xs))
     | XDR_DECODE \<Rightarrow> kbind (XDR_GETLONG xs) (\<lambda>(r, xs).
         case r of None \<Rightarrow> Ret (False, bp, xs) | Some l \<Rightarrow> Ret (True, if l = XDR_FALSE then 0 else 1, xs))
     | XDR_FREE \<Rightarrow> Ret (True, bp, xs))"

definition xdr_enum :: "('s, int32) xdrproc" where
  "xdr_enum xs e = xdr_long xs e"

text \<open>A fixed number of bytes, padded to whole units.\<close>

definition xdr_opaque :: "ulong \<Rightarrow> ('s, cptr) xdrproc" where
  "xdr_opaque cnt xs cp =
    (if cnt = 0 then Ret (True, cp, xs)
     else
       let r = cnt mod BYTES_PER_XDR_UNIT;
           rndup = (if r \<noteq> 0 then BYTES_PER_XDR_UNIT - r else r)
       in case x_op xs of
            XDR_DECODE \<Rightarrow> kbind (XDR_GETBYTES xs cp cnt) (\<lambda>(b, cp, xs).
              if \<not> b then Ret (False, cp, xs)
              else if rndup = 0 then Ret (True, cp, xs)
              else kbind (XDR_GETBYTES xs (Mem [0, 0, 0, 0]) rndup) (\<lambda>(b, crud, xs). Ret (b, cp, xs)))
          | XDR_ENCODE \<Rightarrow> kbind (XDR_PUTBYTES xs cp cnt) (\<lambda>(b, xs).
              if \<not> b then Ret (False, cp, xs)
              else if rndup = 0 then Ret (True, cp, xs)
              else kbind (XDR_PUTBYTES xs (Mem [0, 0, 0, 0]) rndup) (\<lambda>(b, xs). Ret (b, cp, xs)))
          | XDR_FREE \<Rightarrow> Ret (True, cp, xs))"

text \<open>Counted bytes: the object is the pointer and the count.\<close>

definition xdr_bytes :: "ulong \<Rightarrow> ('s, cptr \<times> ulong) xdrproc" where
  "xdr_bytes maxsize xs obj =
    (let (sp, size0) = obj in
     kbind (xdr_u_int xs size0) (\<lambda>(b, nodesize, xs).
       if \<not> b then Ret (False, (sp, nodesize), xs)
       else if nodesize > maxsize \<and> x_op xs \<noteq> XDR_FREE then Ret (False, (sp, nodesize), xs)
       else (case x_op xs of
           XDR_DECODE \<Rightarrow>
             if nodesize = 0 then Ret (True, (sp, nodesize), xs)
             else
               let (sp, xs) = (if sp = NullP then (case mem_alloc xs nodesize of (m, xs) \<Rightarrow> (Mem m, xs)) else (sp, xs))
               in kbind (xdr_opaque nodesize xs sp) (\<lambda>(b, sp, xs). Ret (b, (sp, nodesize), xs))
         | XDR_ENCODE \<Rightarrow> kbind (xdr_opaque nodesize xs sp) (\<lambda>(b, sp, xs). Ret (b, (sp, nodesize), xs))
         | XDR_FREE \<Rightarrow>
             if sp \<noteq> NullP then kbind (mem_free xs sp nodesize) (\<lambda>xs. Ret (True, (NullP, nodesize), xs))
             else Ret (True, (sp, nodesize), xs))))"

definition MAX_NETOBJ_SZ :: ulong where "MAX_NETOBJ_SZ = 1024"

record netobj =
  n_len :: ulong
  n_bytes :: cptr

definition xdr_netobj :: "('s, netobj) xdrproc" where
  "xdr_netobj xs np =
    kbind (xdr_bytes MAX_NETOBJ_SZ xs (n_bytes np, n_len np)) (\<lambda>(b, (p, n), xs). Ret (b, \<lparr>n_len = n, n_bytes = p\<rparr>, xs))"

text \<open>
  A discriminated union: the arms are tried in order up to an entry without a procedure. The object
  is the discriminant and the union.
\<close>

fun xdr_union_arm :: "(int32 \<times> ('s, 'a) xdrproc_t option) list \<Rightarrow> ('s, 'a) xdrproc_t option \<Rightarrow> int32 \<Rightarrow> ('s, 'a) xdrproc" where
  "xdr_union_arm [] dfault dscm xs un = Fault"
| "xdr_union_arm ((v, None) # cs) dfault dscm xs un = (case dfault of None \<Rightarrow> Ret (False, un, xs) | Some p \<Rightarrow> p LASTUNSIGNED xs un)"
| "xdr_union_arm ((v, Some p) # cs) dfault dscm xs un = (if v = dscm then p LASTUNSIGNED xs un else xdr_union_arm cs dfault dscm xs un)"

definition xdr_union :: "(int32 \<times> ('s, 'a) xdrproc_t option) list \<Rightarrow> ('s, 'a) xdrproc_t option \<Rightarrow> ('s, int32 \<times> 'a) xdrproc" where
  "xdr_union choices dfault xs obj =
    (let (dscmp, un) = obj in
     kbind (xdr_enum xs dscmp) (\<lambda>(b, dscm, xs).
       if \<not> b then Ret (False, (dscm, un), xs)
       else kbind (xdr_union_arm choices dfault dscm xs un) (\<lambda>(b, un, xs). Ret (b, (dscm, un), xs))))"

text \<open>\<open>strlen\<close> reads up to the first null byte; without one it runs off the memory.\<close>

definition cstrlen :: "cptr \<Rightarrow> ulong kres" where
  "cstrlen p = kbind (cload p) (\<lambda>bs. if 0 \<in> set bs then Ret (of_nat (length (takeWhile (\<lambda>c. c \<noteq> 0) bs))) else Fault)"

fun cput :: "cptr \<Rightarrow> nat \<Rightarrow> byte \<Rightarrow> cptr kres" where
  "cput (Mem m) i c = (if i < length m then Ret (Mem (m[i := c])) else Fault)"
| "cput _ i c = Fault"

definition xdr_string :: "ulong \<Rightarrow> ('s, cptr) xdrproc" where
  "xdr_string maxsize xs cpp =
    (if x_op xs = XDR_FREE \<and> cpp = NullP then Ret (True, cpp, xs)
     else
       kbind (if x_op xs = XDR_DECODE then Ret 0 else cstrlen cpp) (\<lambda>size0.
         kbind (xdr_u_int xs size0) (\<lambda>(b, size, xs).
           if \<not> b then Ret (False, cpp, xs)
           else if size > maxsize then Ret (False, cpp, xs)
           else
             let nodesize = size + 1 in
             case x_op xs of
               XDR_DECODE \<Rightarrow>
                 if nodesize = 0 then Ret (True, cpp, xs)
                 else
                   let (sp, xs) = (if cpp = NullP then (case mem_alloc xs nodesize of (m, xs) \<Rightarrow> (Mem m, xs)) else (cpp, xs))
                   in kbind (cput sp (unat size) 0) (\<lambda>sp.
                        kbind (xdr_opaque size xs sp) (\<lambda>(b, sp, xs).
                          if \<not> b then kbind (mem_free xs sp nodesize) (\<lambda>xs. Ret (False, cpp, xs))
                          else kbind (cstrlen sp) (\<lambda>n.
                            if n \<noteq> size then kbind (mem_free xs sp nodesize) (\<lambda>xs. Ret (False, cpp, xs))
                            else Ret (True, sp, xs))))
             | XDR_ENCODE \<Rightarrow> kbind (xdr_opaque size xs cpp) (\<lambda>(b, sp, xs). Ret (b, cpp, xs))
             | XDR_FREE \<Rightarrow> kbind (mem_free xs cpp nodesize) (\<lambda>xs. Ret (True, NullP, xs)))))"

definition xdr_wrapstring :: "('s, cptr) xdrproc" where
  "xdr_wrapstring xs cpp = xdr_string LASTUNSIGNED xs cpp"

text \<open>
  The loop over the elements of an array. The memory at \<open>target\<close> is the list of the elements that
  fit it; going past them is a fault.
\<close>

fun xdr_array_loop :: "('s, 'a) xdrproc_t \<Rightarrow> ulong \<Rightarrow> ulong \<Rightarrow> ('s, 'a list) xdrproc" where
  "xdr_array_loop elproc c i xs [] = (if i < c then Fault else Ret (True, [], xs))"
| "xdr_array_loop elproc c i xs (e # es) =
    (if i < c then
       kbind (elproc LASTUNSIGNED xs e) (\<lambda>(stat, e, xs).
         if stat then kbind (xdr_array_loop elproc c (i + 1) xs es) (\<lambda>(stat, es, xs). Ret (stat, e # es, xs))
         else Ret (False, e # es, xs))
     else Ret (True, e # es, xs))"

text \<open>
  A counted array: the object is the pointer to the elements and the count. \<open>zero\<close> is an element
  of zero bytes, \<open>elsize\<close> the size of one.
\<close>

definition xdr_array :: "ulong \<Rightarrow> ulong \<Rightarrow> 'a \<Rightarrow> ('s, 'a) xdrproc_t \<Rightarrow> ('s, 'a list option \<times> ulong) xdrproc" where
  "xdr_array maxsize elsize zero elproc xs obj =
    (let (addrp, size0) = obj in
     kbind (xdr_u_int xs size0) (\<lambda>(b, c, xs).
       if \<not> b then Ret (False, (addrp, c), xs)
       else if c > maxsize \<and> x_op xs \<noteq> XDR_FREE then Ret (False, (addrp, c), xs)
       else
         let nodesize = c * elsize in
         if addrp = None \<and> (x_op xs = XDR_DECODE \<and> c = 0 \<or> x_op xs = XDR_FREE) then Ret (True, (addrp, c), xs)
         else
           let (addrp, xs) =
             (if addrp = None \<and> x_op xs = XDR_DECODE
              then (Some (replicate (unat nodesize div unat elsize) zero), xs\<lparr>x_kmem := x_kmem xs + unat nodesize\<rparr>)
              else (addrp, xs))
           in kbind (xdr_array_loop elproc c 0 xs (case addrp of None \<Rightarrow> [] | Some es \<Rightarrow> es)) (\<lambda>(stat, es, xs).
                if x_op xs = XDR_FREE
                then kbind (kmem_free xs (length es * unat elsize) nodesize) (\<lambda>xs. Ret (stat, (None, c), xs))
                else Ret (stat, (map_option (\<lambda>_. es) addrp, c), xs))))"

text \<open>An object behind a pointer. A procedure that is handed a null pointer loads through it.\<close>

definition xdr_reference :: "ulong \<Rightarrow> 'a \<Rightarrow> ('s, 'a) xdrproc_t \<Rightarrow> ('s, 'a option) xdrproc" where
  "xdr_reference sz zero proc xs pp =
    (if pp = None \<and> x_op xs = XDR_FREE then Ret (True, pp, xs)
     else
       let (loc, xs) = (if pp = None \<and> x_op xs = XDR_DECODE then (Some zero, xs\<lparr>x_kmem := x_kmem xs + unat sz\<rparr>) else (pp, xs))
       in case loc of
            None \<Rightarrow> Fault
          | Some v \<Rightarrow> kbind (proc LASTUNSIGNED xs v) (\<lambda>(stat, v, xs).
              if x_op xs = XDR_FREE then kbind (kmem_free xs (unat sz) sz) (\<lambda>xs. Ret (stat, None, xs))
              else Ret (stat, Some v, xs)))"

definition xdr_pointer :: "ulong \<Rightarrow> 'a \<Rightarrow> ('s, 'a) xdrproc_t \<Rightarrow> ('s, 'a option) xdrproc" where
  "xdr_pointer sz zero proc xs objpp =
    kbind (xdr_bool xs (if objpp \<noteq> None then 1 else 0)) (\<lambda>(b, more_data, xs).
      if \<not> b then Ret (False, objpp, xs)
      else if more_data = 0 then Ret (True, None, xs)
      else xdr_reference sz zero proc xs objpp)"

definition xdr_free :: "('s, 'a) xdrproc \<Rightarrow> 's XDR \<Rightarrow> 'a \<Rightarrow> (bool \<times> 'a \<times> 's XDR) kres" where
  "xdr_free proc xs obj = proc (xs\<lparr>x_op := XDR_FREE\<rparr>) obj"

section \<open>Memory streams\<close>

text \<open>
  \<open>x_mem\<close> is the memory from \<open>x_base\<close> on. A load or store of a long at an address that is not a
  multiple of 4 traps.
\<close>

record mem_stream =
  x_private :: ulong
  x_base :: ulong
  x_handy :: int32
  x_mem :: "byte list"

definition mem_read :: "mem_stream \<Rightarrow> ulong \<Rightarrow> nat \<Rightarrow> byte list kres" where
  "mem_read s a n =
    (let off = unat (a - x_base s) in
     if off + n \<le> length (x_mem s) then Ret (take n (drop off (x_mem s))) else Fault)"

definition mem_write :: "mem_stream \<Rightarrow> ulong \<Rightarrow> byte list \<Rightarrow> mem_stream kres" where
  "mem_write s a bs =
    (let off = unat (a - x_base s) in
     if off + length bs \<le> length (x_mem s)
     then Ret (s\<lparr>x_mem := take off (x_mem s) @ bs @ drop (off + length bs) (x_mem s)\<rparr>) else Fault)"

definition aligned :: "ulong \<Rightarrow> bool" where
  "aligned a \<longleftrightarrow> a AND 3 = 0"

definition xdrmem_getlong :: "mem_stream \<Rightarrow> (int32 option \<times> mem_stream) kres" where
  "xdrmem_getlong s =
    (let s1 = s\<lparr>x_handy := x_handy s - 4\<rparr> in
     if sint (x_handy s1) < 0 then Ret (None, s1)
     else if \<not> aligned (x_private s1) then Fault
     else kbind (mem_read s1 (x_private s1) 4) (\<lambda>bs. Ret (Some (dec32 bs), s1\<lparr>x_private := x_private s1 + 4\<rparr>)))"

definition xdrmem_putlong :: "mem_stream \<Rightarrow> int32 \<Rightarrow> (bool \<times> mem_stream) kres" where
  "xdrmem_putlong s l =
    (let s1 = s\<lparr>x_handy := x_handy s - 4\<rparr> in
     if sint (x_handy s1) < 0 then Ret (False, s1)
     else if \<not> aligned (x_private s1) then Fault
     else kbind (mem_write s1 (x_private s1) (enc32 l)) (\<lambda>s2. Ret (True, s2\<lparr>x_private := x_private s2 + 4\<rparr>)))"

text \<open>The count of \<open>bcopy\<close> is unsigned, so a negative length is a huge one.\<close>

definition xdrmem_getbytes :: "mem_stream \<Rightarrow> cptr \<Rightarrow> int32 \<Rightarrow> (bool \<times> cptr \<times> mem_stream) kres" where
  "xdrmem_getbytes s addr len =
    (let s1 = s\<lparr>x_handy := x_handy s - len\<rparr> in
     if sint (x_handy s1) < 0 then Ret (False, addr, s1)
     else kbind (mem_read s1 (x_private s1) (unat len)) (\<lambda>bs. kbind (bcopy_to addr bs) (\<lambda>addr.
       Ret (True, addr, s1\<lparr>x_private := x_private s1 + len\<rparr>))))"

definition xdrmem_putbytes :: "mem_stream \<Rightarrow> cptr \<Rightarrow> int32 \<Rightarrow> (bool \<times> mem_stream) kres" where
  "xdrmem_putbytes s addr len =
    (let s1 = s\<lparr>x_handy := x_handy s - len\<rparr> in
     if sint (x_handy s1) < 0 then Ret (False, s1)
     else kbind (bcopy_from addr (unat len)) (\<lambda>bs. kbind (mem_write s1 (x_private s1) bs) (\<lambda>s2.
       Ret (True, s2\<lparr>x_private := x_private s2 + len\<rparr>))))"

definition xdrmem_getpos :: "mem_stream \<Rightarrow> ulong" where
  "xdrmem_getpos s = x_private s - x_base s"

definition xdrmem_setpos :: "mem_stream \<Rightarrow> ulong \<Rightarrow> bool \<times> mem_stream" where
  "xdrmem_setpos s pos =
    (let newaddr = x_base s + pos; lastaddr = x_private s + x_handy s in
     if sint newaddr > sint lastaddr then (False, s)
     else (True, s\<lparr>x_private := newaddr, x_handy := lastaddr - newaddr\<rparr>))"

definition xdrmem_inline :: "mem_stream \<Rightarrow> int32 \<Rightarrow> ulong option \<times> mem_stream" where
  "xdrmem_inline s len =
    (if sint (x_handy s) \<ge> sint len
     then (Some (x_private s), s\<lparr>x_handy := x_handy s - len, x_private := x_private s + len\<rparr>)
     else (None, s))"

text \<open>The test of \<open>x_handy\<close> against a \<open>sizeof\<close> is unsigned.\<close>

definition xdrmem_control :: "mem_stream \<Rightarrow> int32 \<Rightarrow> int32 \<Rightarrow> (int32 option \<times> mem_stream) kres" where
  "xdrmem_control s request info =
    (if request = XDR_PEEK then
       (if x_handy s < 4 then Ret (None, s)
        else if \<not> aligned (x_private s) then Fault
        else kbind (mem_read s (x_private s) 4) (\<lambda>bs. Ret (Some (dec32 bs), s)))
     else if request = XDR_SKIPBYTES then
       (let len = RNDUP_int info; s1 = s\<lparr>x_handy := x_handy s - len\<rparr> in
        if sint (x_handy s1) < 0 then Ret (None, s1)
        else Ret (Some info, s1\<lparr>x_private := x_private s1 + len\<rparr>))
     else Ret (None, s))"

definition xdrmem_ops :: "mem_stream xdr_ops" where
  "xdrmem_ops = \<lparr>x_getlong = xdrmem_getlong, x_putlong = xdrmem_putlong, x_getbytes = xdrmem_getbytes,
     x_putbytes = xdrmem_putbytes, x_getpostn = xdrmem_getpos, x_setpostn = xdrmem_setpos,
     x_inline = xdrmem_inline, x_control = xdrmem_control, x_load = mem_read, x_store = mem_write\<rparr>"

text \<open>\<open>mem\<close> is what the memory at \<open>addr\<close> holds, \<open>size\<close> bytes or more.\<close>

definition xdrmem_create :: "ulong \<Rightarrow> byte list \<Rightarrow> ulong \<Rightarrow> xdr_op \<Rightarrow> nat \<Rightarrow> (nat \<Rightarrow> byte) \<Rightarrow> mem_stream XDR" where
  "xdrmem_create addr mem sz op kmem fresh = \<lparr>x_op = op, x_ops = xdrmem_ops,
     x_stream = \<lparr>x_private = addr, x_base = addr, x_handy = sz, x_mem = mem\<rparr>, x_kmem = kmem, x_fresh = fresh\<rparr>"

end
