(* ===== verification/Xdr_Codec.thy ===== *)
theory Xdr_Codec
  imports Xdr
begin

text \<open>
  The contracts of the package. \<open>xdr_stream\<close> says what a stream promises the filters: it has bytes
  behind the current position and bytes ahead of it, and its operations move the position over what
  they read or write, or fail when not enough is ahead. \<open>xdr_codec\<close> says what a filter promises its
  callers: it encodes a value as certain bytes, decodes those bytes to the value, survives any other
  bytes, and frees what it allocated. The filters of \<open>xdr.c\<close>, \<open>xdr_array.c\<close> and \<open>xdr_refer.c\<close> are
  shown to keep the second contract on every stream that keeps the first.
\<close>

section \<open>Bytes\<close>

lemma length_enc32 [simp]: "length (enc32 w) = 4"
  by (simp add: enc32_def)

lemma dec_enc32: "dec32 (enc32 w @ r) = w"
proof -
  have "bit (dec32 (enc32 w @ r)) n = bit w n" if "n < 32" for n
  proof -
    consider "n < 8" | "8 \<le> n" "n < 16" | "16 \<le> n" "n < 24" | "24 \<le> n" using that by linarith
    then show ?thesis using that by cases (auto simp: enc32_def bit_simps)
  qed
  then show ?thesis by (intro bit_word_eqI) simp
qed

lemma dec_enc32' [simp]: "dec32 (enc32 w) = w"
  using dec_enc32 [of w "[]"] by simp

lemma dec_take4 [simp]: "4 \<le> length bs \<Longrightarrow> dec32 (take 4 bs) = dec32 bs"
  by (cases bs; cases "tl bs"; cases "tl (tl bs)"; cases "tl (tl (tl bs))") (auto simp: eval_nat_numeral)

lemma ll_parts [simp]: "ll_mk (ll_hi v) (ll_lo v) = v"
  by (rule bit_word_eqI) (auto simp: ll_mk_def ll_hi_def ll_lo_def bit_simps)

text \<open>A whole number of units.\<close>

definition whole :: "byte list \<Rightarrow> bool" where
  "whole bs \<longleftrightarrow> 4 dvd length bs"

lemma whole_simps [simp]: "whole []" "whole (enc32 w)"
  by (simp_all add: whole_def)

lemma whole_append: "whole as \<Longrightarrow> whole bs \<Longrightarrow> whole (as @ bs)"
  by (simp add: whole_def dvd_add del: dvd_imp_mod_0)

lemma whole_take4: "4 \<le> length bs \<Longrightarrow> whole (take 4 bs)"
  by (simp add: whole_def)

definition pad :: "nat \<Rightarrow> nat" where
  "pad n = (if n mod 4 = 0 then 0 else 4 - n mod 4)"

lemma pad_unit: "4 dvd n + pad n" "pad n < 4"
proof -
  have m: "n mod 4 < 4" by simp
  obtain q r where n: "n = 4 * q + r" "r < 4" using mult_div_mod_eq [of 4 n] m by metis
  then have "n mod 4 = r" by simp
  then have "n + pad n = 4 * (if r = 0 then q else q + 1)" using n by (simp add: pad_def)
  then show "4 dvd n + pad n" by (metis dvd_triv_left)
  show "pad n < 4" using m by (auto simp: pad_def)
qed

lemma pad_0 [simp]: "pad 0 = 0"
  by (simp add: pad_def)

section \<open>What a stream promises\<close>

locale xdr_stream =
  fixes ops :: "'s xdr_ops"
    and wf :: "'s \<Rightarrow> bool"
    and behind :: "'s \<Rightarrow> byte list"
    and ahead :: "'s \<Rightarrow> byte list"
  assumes getlong: "wf s \<Longrightarrow> whole (behind s) \<Longrightarrow> 4 \<le> length (ahead s) \<Longrightarrow>
      \<exists>s'. x_getlong ops s = Ret (Some (dec32 (ahead s)), s') \<and> wf s' \<and>
        behind s' = behind s @ take 4 (ahead s) \<and> ahead s' = drop 4 (ahead s)"
    and getlong_end: "wf s \<Longrightarrow> \<not> 4 \<le> length (ahead s) \<Longrightarrow> \<exists>s'. x_getlong ops s = Ret (None, s')"
    and putlong: "wf s \<Longrightarrow> whole (behind s) \<Longrightarrow> 4 \<le> length (ahead s) \<Longrightarrow>
      \<exists>s'. x_putlong ops s l = Ret (True, s') \<and> wf s' \<and> behind s' = behind s @ enc32 l \<and> ahead s' = drop 4 (ahead s)"
    and putlong_end: "wf s \<Longrightarrow> \<not> 4 \<le> length (ahead s) \<Longrightarrow> \<exists>s'. x_putlong ops s l = Ret (False, s')"
    and getbytes: "wf s \<Longrightarrow> unat n < 2147483648 \<Longrightarrow> unat n \<le> length m \<Longrightarrow> unat n \<le> length (ahead s) \<Longrightarrow>
      \<exists>s'. x_getbytes ops s (Mem m) n = Ret (True, Mem (take (unat n) (ahead s) @ drop (unat n) m), s') \<and> wf s' \<and>
        behind s' = behind s @ take (unat n) (ahead s) \<and> ahead s' = drop (unat n) (ahead s)"
    and getbytes_end: "wf s \<Longrightarrow> unat n < 2147483648 \<Longrightarrow> \<not> unat n \<le> length (ahead s) \<Longrightarrow>
      \<exists>s'. x_getbytes ops s p n = Ret (False, p, s')"
    and putbytes: "wf s \<Longrightarrow> unat n < 2147483648 \<Longrightarrow> unat n \<le> length m \<Longrightarrow> unat n \<le> length (ahead s) \<Longrightarrow>
      \<exists>s'. x_putbytes ops s (Mem m) n = Ret (True, s') \<and> wf s' \<and>
        behind s' = behind s @ take (unat n) m \<and> ahead s' = drop (unat n) (ahead s)"
    and putbytes_end: "wf s \<Longrightarrow> unat n < 2147483648 \<Longrightarrow> \<not> unat n \<le> length (ahead s) \<Longrightarrow>
      \<exists>s'. x_putbytes ops s p n = Ret (False, s')"
begin

text \<open>A handle in order stands at a unit boundary of its stream; \<open>moved\<close> says it passed over bytes.\<close>

definition good :: "'s XDR \<Rightarrow> bool" where
  "good xs \<longleftrightarrow> x_ops xs = ops \<and> wf (x_stream xs) \<and> whole (behind (x_stream xs))"

definition left :: "'s XDR \<Rightarrow> byte list" where
  "left xs = ahead (x_stream xs)"

definition moved :: "'s XDR \<Rightarrow> byte list \<Rightarrow> 's XDR \<Rightarrow> bool" where
  "moved xs bs xs' \<longleftrightarrow> x_op xs' = x_op xs \<and> x_ops xs' = x_ops xs \<and> wf (x_stream xs') \<and>
     behind (x_stream xs') = behind (x_stream xs) @ bs \<and> left xs' = drop (length bs) (left xs)"

lemma moved_good: "good xs \<Longrightarrow> moved xs bs xs' \<Longrightarrow> whole bs \<Longrightarrow> good xs'"
  by (simp add: good_def moved_def whole_append)

lemma moved_trans: "moved xs as xs1 \<Longrightarrow> moved xs1 bs xs2 \<Longrightarrow> moved xs (as @ bs) xs2"
  by (simp add: moved_def add.commute)

lemma moved_refl: "good xs \<Longrightarrow> moved xs [] xs"
  by (simp add: good_def moved_def)

lemma moved_op: "moved xs bs xs' \<Longrightarrow> x_op xs' = x_op xs"
  by (simp add: moved_def)

lemma moved_left: "moved xs bs xs' \<Longrightarrow> left xs' = drop (length bs) (left xs)"
  by (simp add: moved_def)

lemma GETLONG:
  assumes "good xs" "4 \<le> length (left xs)"
  shows "\<exists>xs'. XDR_GETLONG xs = Ret (Some (dec32 (left xs)), xs') \<and> moved xs (take 4 (left xs)) xs' \<and> x_kmem xs' = x_kmem xs"
proof -
  obtain s' where "x_getlong ops (x_stream xs) = Ret (Some (dec32 (left xs)), s')" "wf s'"
    "behind s' = behind (x_stream xs) @ take 4 (left xs)" "ahead s' = drop 4 (left xs)"
    using getlong [of "x_stream xs"] assms by (auto simp: good_def left_def)
  then show ?thesis using assms by (simp add: XDR_GETLONG_def good_def moved_def left_def)
qed

lemma GETLONG_end:
  assumes "good xs" "\<not> 4 \<le> length (left xs)"
  shows "\<exists>xs'. XDR_GETLONG xs = Ret (None, xs') \<and> x_op xs' = x_op xs \<and> x_kmem xs' = x_kmem xs"
  using getlong_end [of "x_stream xs"] assms by (auto simp: XDR_GETLONG_def good_def left_def)

lemma PUTLONG:
  assumes "good xs" "4 \<le> length (left xs)"
  shows "\<exists>xs'. XDR_PUTLONG xs l = Ret (True, xs') \<and> moved xs (enc32 l) xs' \<and> x_kmem xs' = x_kmem xs"
proof -
  obtain s' where "x_putlong ops (x_stream xs) l = Ret (True, s')" "wf s'"
    "behind s' = behind (x_stream xs) @ enc32 l" "ahead s' = drop 4 (left xs)"
    using putlong [of "x_stream xs" l] assms by (auto simp: good_def left_def)
  then show ?thesis using assms by (simp add: XDR_PUTLONG_def good_def moved_def left_def)
qed

lemma PUTLONG_end:
  assumes "good xs" "\<not> 4 \<le> length (left xs)"
  shows "\<exists>xs'. XDR_PUTLONG xs l = Ret (False, xs') \<and> x_op xs' = x_op xs"
  using putlong_end [of "x_stream xs" l] assms by (auto simp: XDR_PUTLONG_def good_def left_def)

end

section \<open>What a filter promises\<close>

text \<open>
  \<open>enc\<close> gives the bytes of a value, \<open>ok\<close> says which values are encoded faithfully, \<open>ini\<close> which
  objects may be decoded into, and \<open>held\<close> how much kernel memory an object owns, or that it cannot
  be freed.
\<close>

locale xdr_codec = xdr_stream +
  fixes proc :: "('a, 'b) xdrproc"
    and enc :: "'b \<Rightarrow> byte list"
    and ok :: "'b \<Rightarrow> bool"
    and ini :: "'b \<Rightarrow> bool"
    and held :: "'b \<Rightarrow> nat option"
  assumes unit: "ok v \<Longrightarrow> whole (enc v)"
    and encode: "good xs \<Longrightarrow> x_op xs = XDR_ENCODE \<Longrightarrow> ok v \<Longrightarrow> length (enc v) \<le> length (left xs) \<Longrightarrow>
      \<exists>xs'. proc xs v = Ret (True, v, xs') \<and> moved xs (enc v) xs' \<and> x_kmem xs' = x_kmem xs"
    and encode_full: "good xs \<Longrightarrow> x_op xs = XDR_ENCODE \<Longrightarrow> ok v \<Longrightarrow> \<not> length (enc v) \<le> length (left xs) \<Longrightarrow>
      \<exists>v' xs'. proc xs v = Ret (False, v', xs') \<and> x_op xs' = XDR_ENCODE"
    and decode: "good xs \<Longrightarrow> x_op xs = XDR_DECODE \<Longrightarrow> ok v \<Longrightarrow> ini d \<Longrightarrow> left xs = enc v @ r \<Longrightarrow>
      \<exists>xs'. proc xs d = Ret (True, v, xs') \<and> moved xs (enc v) xs' \<and> held v = Some (x_kmem xs' - x_kmem xs) \<and> x_kmem xs \<le> x_kmem xs'"
    and decode_any: "good xs \<Longrightarrow> x_op xs = XDR_DECODE \<Longrightarrow> ini d \<Longrightarrow>
      \<exists>b v xs'. proc xs d = Ret (b, v, xs') \<and> x_op xs' = XDR_DECODE \<and> x_kmem xs \<le> x_kmem xs' \<and>
        held v = Some (x_kmem xs' - x_kmem xs) \<and> (b \<longrightarrow> ok v \<and> (\<exists>bs. moved xs bs xs' \<and> whole bs))"
    and free: "x_op xs = XDR_FREE \<Longrightarrow> held v = Some m \<Longrightarrow> m \<le> x_kmem xs \<Longrightarrow>
      \<exists>v' xs'. proc xs v = Ret (True, v', xs') \<and> x_op xs' = XDR_FREE \<and> x_kmem xs' = x_kmem xs - m"
    and ini_held: "ini v \<Longrightarrow> held v = Some 0"
begin

text \<open>Whatever a decoder leaves, on success or failure, can be freed, and then holds no memory.\<close>

lemma decode_free:
  assumes "good xs" "x_op xs = XDR_DECODE" "ini d"
  shows "\<exists>b v xs' v' xs''. proc xs d = Ret (b, v, xs') \<and> xdr_free proc xs' v = Ret (True, v', xs'') \<and> x_kmem xs'' = x_kmem xs"
proof -
  obtain b v xs' where d: "proc xs d = Ret (b, v, xs')" "x_kmem xs \<le> x_kmem xs'" "held v = Some (x_kmem xs' - x_kmem xs)"
    using decode_any [OF assms] by blast
  then have "\<exists>v' xs''. xdr_free proc xs' v = Ret (True, v', xs'') \<and> x_kmem xs'' = x_kmem xs"
    using free [of "xs'\<lparr>x_op := XDR_FREE\<rparr>" v "x_kmem xs' - x_kmem xs"] by (auto simp: xdr_free_def)
  then show ?thesis using d(1) by blast
qed

end

section \<open>Integers\<close>

context xdr_stream
begin

text \<open>The filters that put one long or get one, and convert it.\<close>

lemma word_codec:
  fixes p :: "('s, 'b) xdrproc" and f :: "'b \<Rightarrow> int32" and g :: "int32 \<Rightarrow> 'b"
  assumes e: "\<And>xs v. x_op xs = XDR_ENCODE \<Longrightarrow> p xs v = kbind (XDR_PUTLONG xs (f v)) (\<lambda>(b, xs). Ret (b, v, xs))"
    and d: "\<And>xs v. x_op xs = XDR_DECODE \<Longrightarrow>
      p xs v = kbind (XDR_GETLONG xs) (\<lambda>(r, xs). case r of None \<Rightarrow> Ret (False, v, xs) | Some l \<Rightarrow> Ret (True, g l, xs))"
    and fr: "\<And>xs v. x_op xs = XDR_FREE \<Longrightarrow> p xs v = Ret (True, v, xs)"
    and inv: "\<And>v. ok v \<Longrightarrow> g (f v) = v" and okg: "\<And>l. ok (g l)"
  shows "xdr_codec ops wf behind ahead p (\<lambda>v. enc32 (f v)) ok (\<lambda>_. True) (\<lambda>_. Some 0)"
proof
  fix xs :: "'s XDR" and v :: 'b
  show "whole (enc32 (f v))" by simp
  show "\<exists>xs'. p xs v = Ret (True, v, xs') \<and> moved xs (enc32 (f v)) xs' \<and> x_kmem xs' = x_kmem xs"
    if "good xs" "x_op xs = XDR_ENCODE" "length (enc32 (f v)) \<le> length (left xs)"
    using PUTLONG [of xs "f v"] that by (auto simp: e)
  show "\<exists>v' xs'. p xs v = Ret (False, v', xs') \<and> x_op xs' = XDR_ENCODE"
    if "good xs" "x_op xs = XDR_ENCODE" "\<not> length (enc32 (f v)) \<le> length (left xs)"
    using PUTLONG_end [of xs "f v"] that by (auto simp: e)
  show "\<exists>v' xs'. p xs v = Ret (True, v', xs') \<and> x_op xs' = XDR_FREE \<and> x_kmem xs' = x_kmem xs - m"
    if "x_op xs = XDR_FREE" "Some 0 = Some m" for m
    using that by (simp add: fr)
next
  fix xs :: "'s XDR" and v d r
  assume "good xs" "x_op xs = XDR_DECODE" "ok v" "left xs = enc32 (f v) @ r"
  then show "\<exists>xs'. p xs d = Ret (True, v, xs') \<and> moved xs (enc32 (f v)) xs' \<and> Some 0 = Some (x_kmem xs' - x_kmem xs) \<and>
      x_kmem xs \<le> x_kmem xs'"
    using GETLONG [of xs] by (auto simp: assms(2) dec_enc32 inv)
next
  fix xs :: "'s XDR" and d
  assume a: "good xs" "x_op xs = XDR_DECODE"
  show "\<exists>b v xs'. p xs d = Ret (b, v, xs') \<and> x_op xs' = XDR_DECODE \<and> x_kmem xs \<le> x_kmem xs' \<and>
      Some 0 = Some (x_kmem xs' - x_kmem xs) \<and> (b \<longrightarrow> ok v \<and> (\<exists>bs. moved xs bs xs' \<and> whole bs))"
  proof (cases "4 \<le> length (left xs)")
    case True
    obtain xs' where g: "XDR_GETLONG xs = Ret (Some (dec32 (left xs)), xs')" "moved xs (take 4 (left xs)) xs'" "x_kmem xs' = x_kmem xs"
      using GETLONG [OF a(1) True] by blast
    then show ?thesis using a True okg moved_op [OF g(2)] whole_take4 [OF True] by (auto simp: d)
  next
    case False
    then show ?thesis using GETLONG_end [OF a(1) False] a by (auto simp: d)
  qed
qed simp_all

lemma long_codec: "xdr_codec ops wf behind ahead xdr_long enc32 (\<lambda>_. True) (\<lambda>_. True) (\<lambda>_. Some 0)"
  by (rule word_codec [where f = "\<lambda>v. v" and g = "\<lambda>l. l"]) (simp_all add: xdr_long_def)

lemma u_long_codec: "xdr_codec ops wf behind ahead xdr_u_long enc32 (\<lambda>_. True) (\<lambda>_. True) (\<lambda>_. Some 0)"
  by (rule word_codec [where f = "\<lambda>v. v" and g = "\<lambda>l. l"]) (simp_all add: xdr_u_long_def)

lemma u_int_codec: "xdr_codec ops wf behind ahead xdr_u_int enc32 (\<lambda>_. True) (\<lambda>_. True) (\<lambda>_. Some 0)"
  by (rule word_codec [where f = "\<lambda>v. v" and g = "\<lambda>l. l"]) (simp_all add: xdr_u_int_def xdr_u_long_def)

lemma enum_codec: "xdr_codec ops wf behind ahead xdr_enum enc32 (\<lambda>_. True) (\<lambda>_. True) (\<lambda>_. Some 0)"
  by (rule word_codec [where f = "\<lambda>v. v" and g = "\<lambda>l. l"]) (simp_all add: xdr_enum_def xdr_long_def)

lemma ucast_scast_short: "(ucast (scast (v :: 16 word) :: 32 word) :: 16 word) = v"
  by (rule bit_word_eqI) (auto simp: bit_simps)

lemma ucast_ucast_short: "(ucast (ucast (v :: 16 word) :: 32 word) :: 16 word) = v"
  by (rule bit_word_eqI) (auto simp: bit_simps)

lemma short_codec: "xdr_codec ops wf behind ahead xdr_short (\<lambda>v. enc32 (scast v)) (\<lambda>_. True) (\<lambda>_. True) (\<lambda>_. Some 0)"
  by (rule word_codec [where g = ucast]) (simp_all add: xdr_short_def ucast_scast_short)

lemma u_short_codec: "xdr_codec ops wf behind ahead xdr_u_short (\<lambda>v. enc32 (ucast v)) (\<lambda>_. True) (\<lambda>_. True) (\<lambda>_. Some 0)"
  by (rule word_codec [where g = ucast]) (simp_all add: xdr_u_short_def ucast_ucast_short)

lemma ucast_scast_char: "(ucast (scast (v :: 8 word) :: 32 word) :: 8 word) = v"
  by (rule bit_word_eqI) (auto simp: bit_simps)

lemma char_codec: "xdr_codec ops wf behind ahead xdr_char (\<lambda>v. enc32 (scast v)) (\<lambda>_. True) (\<lambda>_. True) (\<lambda>_. Some 0)"
proof (rule word_codec [where g = ucast])
  fix xs :: "'s XDR" and v
  show "xdr_char xs v = kbind (XDR_PUTLONG xs (scast v)) (\<lambda>(b, xs). Ret (b, v, xs))" if "x_op xs = XDR_ENCODE"
    using that by (cases "XDR_PUTLONG xs (scast v)") (auto simp: xdr_char_def xdr_int_def xdr_long_def ucast_scast_char)
  show "xdr_char xs v = kbind (XDR_GETLONG xs) (\<lambda>(r, xs). case r of None \<Rightarrow> Ret (False, v, xs) | Some l \<Rightarrow> Ret (True, ucast l, xs))"
    if "x_op xs = XDR_DECODE"
    using that by (cases "XDR_GETLONG xs") (auto simp: xdr_char_def xdr_int_def xdr_long_def split: option.split)
qed (simp_all add: xdr_char_def xdr_int_def xdr_long_def ucast_scast_char)

lemma bool_codec: "xdr_codec ops wf behind ahead xdr_bool (\<lambda>v. enc32 (if v \<noteq> 0 then XDR_TRUE else XDR_FALSE))
    (\<lambda>v. v = 0 \<or> v = 1) (\<lambda>_. True) (\<lambda>_. Some 0)"
  by (rule word_codec [where g = "\<lambda>l. if l = XDR_FALSE then 0 else 1"]) (auto simp: xdr_bool_def XDR_TRUE_def XDR_FALSE_def)

end

end
