(* ===== verification/Xdr_Filters.thy ===== *)
theory Xdr_Filters
  imports Xdr_Codec
begin

text \<open>
  The filters of more than one unit keep the contract of \<open>Xdr_Codec\<close>: 64-bit integers, opaque
  bytes, counted bytes and strings, and, over any element that keeps it, arrays and pointers.
\<close>

section \<open>64-bit integers\<close>

definition enc64 :: "64 word \<Rightarrow> byte list" where
  "enc64 v = enc32 (ll_hi v) @ enc32 (ll_lo v)"

lemma whole_enc64 [simp]: "whole (enc64 v)" "length (enc64 v) = 8"
  by (simp_all add: enc64_def whole_append)

context xdr_stream
begin

lemma longlong_codec: "xdr_codec ops wf behind ahead xdr_longlong_t enc64 (\<lambda>_. True) (\<lambda>_. True) (\<lambda>_. Some 0)"
proof
  fix xs :: "'s XDR" and v
  assume a: "good xs" "x_op xs = XDR_ENCODE" "length (enc64 v) \<le> length (left xs)"
  obtain xs1 where 1: "XDR_PUTLONG xs (ll_hi v) = Ret (True, xs1)" "moved xs (enc32 (ll_hi v)) xs1" "x_kmem xs1 = x_kmem xs"
    using PUTLONG [OF a(1)] a(3) by auto
  have g: "good xs1" "4 \<le> length (left xs1)" using moved_good [OF a(1) 1(2)] moved_left [OF 1(2)] a(3) by simp_all
  obtain xs2 where 2: "XDR_PUTLONG xs1 (ll_lo v) = Ret (True, xs2)" "moved xs1 (enc32 (ll_lo v)) xs2" "x_kmem xs2 = x_kmem xs1"
    using PUTLONG [OF g] by auto
  show "\<exists>xs'. xdr_longlong_t xs v = Ret (True, v, xs') \<and> moved xs (enc64 v) xs' \<and> x_kmem xs' = x_kmem xs"
    using a(2) 1 2 moved_trans [OF 1(2) 2(2)] by (simp add: xdr_longlong_t_def enc64_def)
next
  fix xs :: "'s XDR" and v
  assume a: "good xs" "x_op xs = XDR_ENCODE" "\<not> length (enc64 v) \<le> length (left xs)"
  show "\<exists>v' xs'. xdr_longlong_t xs v = Ret (False, v', xs') \<and> x_op xs' = XDR_ENCODE"
  proof (cases "4 \<le> length (left xs)")
    case True
    obtain xs1 where 1: "XDR_PUTLONG xs (ll_hi v) = Ret (True, xs1)" "moved xs (enc32 (ll_hi v)) xs1"
      using PUTLONG [OF a(1) True] by auto
    have g: "good xs1" "\<not> 4 \<le> length (left xs1)" using moved_good [OF a(1) 1(2)] moved_left [OF 1(2)] a(3) by simp_all
    show ?thesis using PUTLONG_end [OF g, of "ll_lo v"] a(2) 1(1) moved_op [OF 1(2)] by (auto simp: xdr_longlong_t_def)
  next
    case False
    then show ?thesis using PUTLONG_end [OF a(1) False, of "ll_hi v"] a(2) by (auto simp: xdr_longlong_t_def)
  qed
next
  fix xs :: "'s XDR" and v d r
  assume a: "good xs" "x_op xs = XDR_DECODE" "left xs = enc64 v @ r"
  obtain xs1 where 1: "XDR_GETLONG xs = Ret (Some (ll_hi v), xs1)" "moved xs (enc32 (ll_hi v)) xs1" "x_kmem xs1 = x_kmem xs"
    using GETLONG [OF a(1)] a(3) by (auto simp: enc64_def dec_enc32)
  have l: "left xs1 = enc32 (ll_lo v) @ r" using moved_left [OF 1(2)] a(3) by (simp add: enc64_def)
  obtain xs2 where 2: "XDR_GETLONG xs1 = Ret (Some (ll_lo v), xs2)" "moved xs1 (enc32 (ll_lo v)) xs2" "x_kmem xs2 = x_kmem xs1"
    using GETLONG [OF moved_good [OF a(1) 1(2)]] l by (auto simp: dec_enc32)
  show "\<exists>xs'. xdr_longlong_t xs d = Ret (True, v, xs') \<and> moved xs (enc64 v) xs' \<and> Some 0 = Some (x_kmem xs' - x_kmem xs) \<and>
      x_kmem xs \<le> x_kmem xs'"
    using a(2) 1 2 moved_trans [OF 1(2) 2(2)] by (simp add: xdr_longlong_t_def enc64_def)
next
  fix xs :: "'s XDR" and d
  assume a: "good xs" "x_op xs = XDR_DECODE"
  show "\<exists>b v xs'. xdr_longlong_t xs d = Ret (b, v, xs') \<and> x_op xs' = XDR_DECODE \<and> x_kmem xs \<le> x_kmem xs' \<and>
      Some 0 = Some (x_kmem xs' - x_kmem xs) \<and> (b \<longrightarrow> True \<and> (\<exists>bs. moved xs bs xs' \<and> whole bs))"
  proof (cases "4 \<le> length (left xs)")
    case True
    obtain xs1 where 1: "XDR_GETLONG xs = Ret (Some (dec32 (left xs)), xs1)" "moved xs (take 4 (left xs)) xs1" "x_kmem xs1 = x_kmem xs"
      using GETLONG [OF a(1) True] by blast
    note w = whole_take4 [OF True]
    note g = moved_good [OF a(1) 1(2) w]
    show ?thesis
    proof (cases "4 \<le> length (left xs1)")
      case True
      then obtain xs2 where 2: "XDR_GETLONG xs1 = Ret (Some (dec32 (left xs1)), xs2)" "moved xs1 (take 4 (left xs1)) xs2"
        "x_kmem xs2 = x_kmem xs1" using GETLONG [OF g] by blast
      note m = moved_trans [OF 1(2) 2(2)]
      show ?thesis using a 1 2 moved_op [OF m] m whole_append [OF w whole_take4 [OF True]]
        by (auto simp: xdr_longlong_t_def)
    next
      case False
      then show ?thesis using GETLONG_end [OF g False] a 1 moved_op [OF 1(2)] by (auto simp: xdr_longlong_t_def)
    qed
  next
    case False
    then show ?thesis using GETLONG_end [OF a(1) False] a by (auto simp: xdr_longlong_t_def)
  qed
qed (simp_all add: xdr_longlong_t_def)

lemma u_longlong_codec: "xdr_codec ops wf behind ahead xdr_u_longlong_t enc64 (\<lambda>_. True) (\<lambda>_. True) (\<lambda>_. Some 0)"
proof -
  have "(xdr_u_longlong_t :: ('s, 64 word) xdrproc) = xdr_longlong_t"
    by (intro ext) (simp add: xdr_u_longlong_t_def xdr_longlong_t_def)
  then show ?thesis using longlong_codec by simp
qed

end

section \<open>Opaque bytes\<close>

definition enc_opaque :: "byte list \<Rightarrow> byte list" where
  "enc_opaque bs = bs @ replicate (pad (length bs)) 0"

lemma whole_opaque [simp]: "whole (enc_opaque bs)"
  using pad_unit(1) by (simp add: whole_def enc_opaque_def)

text \<open>The number of padding bytes, as the code computes it.\<close>

definition rnd :: "ulong \<Rightarrow> ulong" where
  "rnd n = (if n mod BYTES_PER_XDR_UNIT \<noteq> 0 then BYTES_PER_XDR_UNIT - n mod BYTES_PER_XDR_UNIT else n mod BYTES_PER_XDR_UNIT)"

lemma rnd_pad: "unat (rnd n) = pad (unat n)" "rnd n = 0 \<longleftrightarrow> pad (unat n) = 0"
proof -
  have m: "unat (n mod 4) = unat n mod 4" by (simp add: unat_mod)
  have z: "(n mod 4 = 0) = (unat n mod 4 = 0)" unfolding m [symmetric] unat_eq_zero ..
  have "unat (4 - n mod 4) = 4 - unat n mod 4"
    using m by (subst unat_sub_nowrap) simp_all
  then show "unat (rnd n) = pad (unat n)" unfolding rnd_def pad_def BYTES_PER_XDR_UNIT_def using z m by presburger
  then show "rnd n = 0 \<longleftrightarrow> pad (unat n) = 0" by (metis unat_eq_zero)
qed

lemma rnd_small: "unat (rnd n) < 4"
  using rnd_pad(1) pad_unit(2) by simp

context xdr_stream
begin

text \<open>Bytes are moved also when the stream does not stand at a unit boundary.\<close>

definition live :: "'s XDR \<Rightarrow> bool" where
  "live xs \<longleftrightarrow> x_ops xs = ops \<and> wf (x_stream xs)"

lemma good_live: "good xs \<Longrightarrow> live xs"
  by (simp add: good_def live_def)

lemma moved_live: "live xs \<Longrightarrow> moved xs bs xs' \<Longrightarrow> live xs'"
  by (simp add: live_def moved_def)

lemma GETBYTES:
  assumes "live xs" "unat n < 2147483648" "unat n \<le> length m" "unat n \<le> length (left xs)"
  shows "\<exists>xs'. XDR_GETBYTES xs (Mem m) n = Ret (True, Mem (take (unat n) (left xs) @ drop (unat n) m), xs') \<and>
    moved xs (take (unat n) (left xs)) xs' \<and> x_kmem xs' = x_kmem xs"
proof -
  obtain s' where "x_getbytes ops (x_stream xs) (Mem m) n = Ret (True, Mem (take (unat n) (left xs) @ drop (unat n) m), s')" "wf s'"
    "behind s' = behind (x_stream xs) @ take (unat n) (left xs)" "ahead s' = drop (unat n) (left xs)"
    using getbytes [of "x_stream xs" n m] assms by (auto simp: live_def left_def)
  then show ?thesis using assms by (simp add: XDR_GETBYTES_def live_def moved_def left_def)
qed

lemma GETBYTES_end:
  assumes "live xs" "unat n < 2147483648" "\<not> unat n \<le> length (left xs)"
  shows "\<exists>xs'. XDR_GETBYTES xs p n = Ret (False, p, xs') \<and> x_op xs' = x_op xs \<and> x_kmem xs' = x_kmem xs"
  using getbytes_end [of "x_stream xs" n p] assms by (auto simp: XDR_GETBYTES_def live_def left_def)

lemma PUTBYTES:
  assumes "live xs" "unat n < 2147483648" "unat n \<le> length m" "unat n \<le> length (left xs)"
  shows "\<exists>xs'. XDR_PUTBYTES xs (Mem m) n = Ret (True, xs') \<and> moved xs (take (unat n) m) xs' \<and> x_kmem xs' = x_kmem xs"
proof -
  obtain s' where "x_putbytes ops (x_stream xs) (Mem m) n = Ret (True, s')" "wf s'"
    "behind s' = behind (x_stream xs) @ take (unat n) m" "ahead s' = drop (unat n) (left xs)"
    using putbytes [of "x_stream xs" n m] assms by (auto simp: live_def left_def)
  then show ?thesis using assms by (simp add: XDR_PUTBYTES_def live_def moved_def left_def)
qed

lemma PUTBYTES_end:
  assumes "live xs" "unat n < 2147483648" "\<not> unat n \<le> length (left xs)"
  shows "\<exists>xs'. XDR_PUTBYTES xs p n = Ret (False, xs') \<and> x_op xs' = x_op xs"
  using putbytes_end [of "x_stream xs" n p] assms by (auto simp: XDR_PUTBYTES_def live_def left_def)

lemma opaque_unfold:
  "xdr_opaque n xs cp = (if n = 0 then Ret (True, cp, xs)
   else case x_op xs of
     XDR_DECODE \<Rightarrow> kbind (XDR_GETBYTES xs cp n) (\<lambda>(b, cp, xs).
       if \<not> b then Ret (False, cp, xs) else if rnd n = 0 then Ret (True, cp, xs)
       else kbind (XDR_GETBYTES xs (Mem [0, 0, 0, 0]) (rnd n)) (\<lambda>(b, crud, xs). Ret (b, cp, xs)))
   | XDR_ENCODE \<Rightarrow> kbind (XDR_PUTBYTES xs cp n) (\<lambda>(b, xs).
       if \<not> b then Ret (False, cp, xs) else if rnd n = 0 then Ret (True, cp, xs)
       else kbind (XDR_PUTBYTES xs (Mem [0, 0, 0, 0]) (rnd n)) (\<lambda>(b, xs). Ret (b, cp, xs)))
   | XDR_FREE \<Rightarrow> Ret (True, cp, xs))"
  unfolding xdr_opaque_def Let_def rnd_def ..

lemma opaque_decode:
  assumes g: "good xs" and op: "x_op xs = XDR_DECODE" and n: "unat n < 2147483648" "unat n \<le> length m"
  shows "if unat n + pad (unat n) \<le> length (left xs)
    then \<exists>xs'. xdr_opaque n xs (Mem m) = Ret (True, Mem (take (unat n) (left xs) @ drop (unat n) m), xs') \<and>
      moved xs (take (unat n + pad (unat n)) (left xs)) xs' \<and> x_kmem xs' = x_kmem xs
    else \<exists>m' xs'. xdr_opaque n xs (Mem m) = Ret (False, Mem m', xs') \<and> length m' = length m \<and> x_op xs' = XDR_DECODE \<and> x_kmem xs' = x_kmem xs"
proof (cases "n = 0")
  case True
  then show ?thesis using moved_refl [OF g] by (simp add: xdr_opaque_def)
next
  case nz: False
  show ?thesis
  proof (cases "unat n \<le> length (left xs)")
    case False
    obtain xs1 where "XDR_GETBYTES xs (Mem m) n = Ret (False, Mem m, xs1)" "x_op xs1 = x_op xs" "x_kmem xs1 = x_kmem xs"
      using GETBYTES_end [OF good_live [OF g] n(1) False] by blast
    then show ?thesis using nz op False by (simp add: opaque_unfold)
  next
    case True
    obtain xs1 where 1: "XDR_GETBYTES xs (Mem m) n = Ret (True, Mem (take (unat n) (left xs) @ drop (unat n) m), xs1)"
      "moved xs (take (unat n) (left xs)) xs1" "x_kmem xs1 = x_kmem xs" using GETBYTES [OF good_live [OF g] n True] by blast
    note l = moved_live [OF good_live [OF g] 1(2)]
    have left: "left xs1 = drop (unat n) (left xs)" using moved_left [OF 1(2)] True by simp
    show ?thesis
    proof (cases "rnd n = 0")
      case True
      then show ?thesis using 1 nz op \<open>unat n \<le> length (left xs)\<close> rnd_pad(2) [of n] by (auto simp: opaque_unfold)
    next
      case r: False
      have rs: "unat (rnd n) < 2147483648" "unat (rnd n) \<le> length [0 :: byte, 0, 0, 0]" using rnd_small [of n] by simp_all
      show ?thesis
      proof (cases "unat (rnd n) \<le> length (left xs1)")
        case True
        obtain crud xs2 where 2: "XDR_GETBYTES xs1 (Mem [0, 0, 0, 0]) (rnd n) = Ret (True, crud, xs2)"
          "moved xs1 (take (unat (rnd n)) (left xs1)) xs2" "x_kmem xs2 = x_kmem xs1" using GETBYTES [OF l rs True] by blast
        have "take (unat n) (left xs) @ take (unat (rnd n)) (left xs1) = take (unat n + pad (unat n)) (left xs)"
          by (simp add: left rnd_pad(1) take_add)
        then show ?thesis using moved_trans [OF 1(2) 2(2)] 1 2 nz r op True left \<open>unat n \<le> length (left xs)\<close>
          by (auto simp: opaque_unfold rnd_pad(1))
      next
        case False
        obtain crud xs2 where "XDR_GETBYTES xs1 (Mem [0, 0, 0, 0]) (rnd n) = Ret (False, crud, xs2)" "x_op xs2 = x_op xs1" "x_kmem xs2 = x_kmem xs1"
          using GETBYTES_end [OF l rs(1) False] by blast
        then show ?thesis using 1 nz r op left moved_op [OF 1(2)] False \<open>unat n \<le> length (left xs)\<close> n(2)
          by (simp add: opaque_unfold rnd_pad(1))
      qed
    qed
  qed
qed

lemma opaque_encode:
  assumes g: "good xs" and op: "x_op xs = XDR_ENCODE" and n: "unat n < 2147483648" "unat n \<le> length m"
  shows "if unat n + pad (unat n) \<le> length (left xs)
    then \<exists>xs'. xdr_opaque n xs (Mem m) = Ret (True, Mem m, xs') \<and> moved xs (enc_opaque (take (unat n) m)) xs' \<and> x_kmem xs' = x_kmem xs
    else \<exists>p xs'. xdr_opaque n xs (Mem m) = Ret (False, p, xs') \<and> x_op xs' = XDR_ENCODE"
proof (cases "n = 0")
  case True
  then show ?thesis using moved_refl [OF g] by (simp add: xdr_opaque_def enc_opaque_def)
next
  case nz: False
  show ?thesis
  proof (cases "unat n \<le> length (left xs)")
    case False
    obtain xs1 where "XDR_PUTBYTES xs (Mem m) n = Ret (False, xs1)" "x_op xs1 = x_op xs"
      using PUTBYTES_end [OF good_live [OF g] n(1) False] by blast
    then show ?thesis using nz op False by (simp add: opaque_unfold)
  next
    case True
    obtain xs1 where 1: "XDR_PUTBYTES xs (Mem m) n = Ret (True, xs1)"
      "moved xs (take (unat n) m) xs1" "x_kmem xs1 = x_kmem xs" using PUTBYTES [OF good_live [OF g] n True] by blast
    note l = moved_live [OF good_live [OF g] 1(2)]
    have left: "left xs1 = drop (unat n) (left xs)" using moved_left [OF 1(2)] n(2) by simp
    show ?thesis
    proof (cases "rnd n = 0")
      case True
      then show ?thesis using 1 nz op \<open>unat n \<le> length (left xs)\<close> n(2) rnd_pad(2) [of n] by (auto simp: opaque_unfold enc_opaque_def)
    next
      case r: False
      have rs: "unat (rnd n) < 2147483648" "unat (rnd n) \<le> length [0 :: byte, 0, 0, 0]" using rnd_small [of n] by simp_all
      show ?thesis
      proof (cases "unat (rnd n) \<le> length (left xs1)")
        case True
        obtain xs2 where 2: "XDR_PUTBYTES xs1 (Mem [0, 0, 0, 0]) (rnd n) = Ret (True, xs2)"
          "moved xs1 (take (unat (rnd n)) [0, 0, 0, 0]) xs2" "x_kmem xs2 = x_kmem xs1" using PUTBYTES [OF l rs True] by blast
        have "take k [0 :: byte, 0, 0, 0] = replicate k 0" if "k < 4" for k
          using that by (auto simp: less_Suc_eq eval_nat_numeral)
        then have "take (unat n) m @ take (unat (rnd n)) [0, 0, 0, 0] = enc_opaque (take (unat n) m)"
          using n(2) pad_unit(2) [of "unat n"] by (simp add: enc_opaque_def rnd_pad(1))
        then show ?thesis using moved_trans [OF 1(2) 2(2)] 1 2 nz r op True left \<open>unat n \<le> length (left xs)\<close>
          by (auto simp: opaque_unfold rnd_pad(1))
      next
        case False
        obtain xs2 where "XDR_PUTBYTES xs1 (Mem [0, 0, 0, 0]) (rnd n) = Ret (False, xs2)" "x_op xs2 = x_op xs1"
          using PUTBYTES_end [OF l rs(1) False] by blast
        then show ?thesis using 1 nz r op left moved_op [OF 1(2)] False \<open>unat n \<le> length (left xs)\<close>
          by (simp add: opaque_unfold rnd_pad(1))
      qed
    qed
  qed
qed

end

section \<open>Counted bytes\<close>

fun cbytes :: "cptr \<Rightarrow> byte list" where
  "cbytes NullP = []" | "cbytes (Mem bs) = bs" | "cbytes (Buf bs) = bs"

definition enc_bytes :: "cptr \<times> ulong \<Rightarrow> byte list" where
  "enc_bytes obj = enc32 (snd obj) @ enc_opaque (cbytes (fst obj))"

definition ok_bytes :: "ulong \<Rightarrow> cptr \<times> ulong \<Rightarrow> bool" where
  "ok_bytes mx obj \<longleftrightarrow> snd obj \<le> mx \<and>
    (fst obj = NullP \<and> snd obj = 0 \<or> (\<exists>bs. fst obj = Mem bs \<and> bs \<noteq> [] \<and> length bs = unat (snd obj)))"

definition held_bytes :: "cptr \<times> ulong \<Rightarrow> nat option" where
  "held_bytes obj = (case fst obj of NullP \<Rightarrow> Some 0 | Mem bs \<Rightarrow> if length bs = unat (snd obj) then Some (length bs) else None | Buf bs \<Rightarrow> None)"

abbreviation ini_bytes :: "cptr \<times> ulong \<Rightarrow> bool" where
  "ini_bytes obj \<equiv> fst obj = NullP"

lemma enc_opaque_Nil [simp]: "enc_opaque [] = []"
  by (simp add: enc_opaque_def)

lemma length_enc_opaque: "length (enc_opaque bs) = length bs + pad (length bs)"
  by (simp add: enc_opaque_def)

context xdr_stream
begin

lemma kmem_upd [simp]: "good (xs\<lparr>x_kmem := k\<rparr>) = good xs" "left (xs\<lparr>x_kmem := k\<rparr>) = left xs"
  "moved (xs\<lparr>x_kmem := k\<rparr>) bs ys = moved xs bs ys" "moved xs bs (ys\<lparr>x_kmem := k\<rparr>) = moved xs bs ys"
  by (simp_all add: good_def left_def moved_def)

lemma u_int_decode:
  assumes "good xs" "x_op xs = XDR_DECODE"
  shows "if 4 \<le> length (left xs)
    then \<exists>xs'. xdr_u_int xs d = Ret (True, dec32 (left xs), xs') \<and> moved xs (take 4 (left xs)) xs' \<and> x_kmem xs' = x_kmem xs
    else \<exists>xs'. xdr_u_int xs d = Ret (False, d, xs') \<and> x_op xs' = XDR_DECODE \<and> x_kmem xs' = x_kmem xs"
proof (cases "4 \<le> length (left xs)")
  case True
  obtain xs' where "XDR_GETLONG xs = Ret (Some (dec32 (left xs)), xs')" "moved xs (take 4 (left xs)) xs'" "x_kmem xs' = x_kmem xs"
    using GETLONG [OF assms(1) True] by blast
  then show ?thesis using True assms(2) by (simp add: xdr_u_int_def xdr_u_long_def)
next
  case False
  obtain xs' where "XDR_GETLONG xs = Ret (None, xs')" "x_op xs' = x_op xs" "x_kmem xs' = x_kmem xs"
    using GETLONG_end [OF assms(1) False] by blast
  then show ?thesis using False assms(2) by (simp add: xdr_u_int_def xdr_u_long_def)
qed

lemma u_int_encode:
  assumes "good xs" "x_op xs = XDR_ENCODE"
  shows "if 4 \<le> length (left xs)
    then \<exists>xs'. xdr_u_int xs n = Ret (True, n, xs') \<and> moved xs (enc32 n) xs' \<and> x_kmem xs' = x_kmem xs
    else \<exists>xs'. xdr_u_int xs n = Ret (False, n, xs') \<and> x_op xs' = XDR_ENCODE"
proof (cases "4 \<le> length (left xs)")
  case True
  obtain xs' where "XDR_PUTLONG xs n = Ret (True, xs')" "moved xs (enc32 n) xs'" "x_kmem xs' = x_kmem xs"
    using PUTLONG [OF assms(1) True] by blast
  then show ?thesis using True assms(2) by (simp add: xdr_u_int_def xdr_u_long_def)
next
  case False
  obtain xs' where "XDR_PUTLONG xs n = Ret (False, xs')" "x_op xs' = x_op xs"
    using PUTLONG_end [OF assms(1) False] by blast
  then show ?thesis using False assms(2) by (simp add: xdr_u_int_def xdr_u_long_def)
qed

lemma u_int_free: "x_op xs = XDR_FREE \<Longrightarrow> xdr_u_int xs n = Ret (True, n, xs)"
  by (simp add: xdr_u_int_def xdr_u_long_def)

text \<open>Decoding counted bytes from any stream: the count, the bytes into fresh memory, the padding.\<close>

lemma bytes_decode:
  assumes g: "good xs" and op: "x_op xs = XDR_DECODE" and mx: "unat mx < 2147483648"
  defines "n \<equiv> dec32 (left xs)"
  shows "if 4 \<le> length (left xs) \<and> n \<le> mx \<and> 4 + unat n + pad (unat n) \<le> length (left xs)
    then \<exists>xs'. xdr_bytes mx xs (NullP, d) = Ret (True, (if n = 0 then NullP else Mem (take (unat n) (drop 4 (left xs))), n), xs') \<and>
      moved xs (take (4 + unat n + pad (unat n)) (left xs)) xs' \<and> x_kmem xs' = x_kmem xs + unat n
    else \<exists>p n' xs'. xdr_bytes mx xs (NullP, d) = Ret (False, (p, n'), xs') \<and> x_op xs' = XDR_DECODE \<and> x_kmem xs \<le> x_kmem xs' \<and>
      held_bytes (p, n') = Some (x_kmem xs' - x_kmem xs)"
proof (cases "4 \<le> length (left xs)")
  case False
  then obtain xs1 where "xdr_u_int xs d = Ret (False, d, xs1)" "x_op xs1 = XDR_DECODE" "x_kmem xs1 = x_kmem xs"
    using u_int_decode [OF g op, of d] by auto
  then show ?thesis using False by (simp add: xdr_bytes_def held_bytes_def)
next
  case True
  then obtain xs1 where 1: "xdr_u_int xs d = Ret (True, n, xs1)" "moved xs (take 4 (left xs)) xs1" "x_kmem xs1 = x_kmem xs"
    using u_int_decode [OF g op, of d] by (auto simp: n_def)
  have op1: "x_op xs1 = XDR_DECODE" using moved_op [OF 1(2)] op by simp
  note g1 = moved_good [OF g 1(2) whole_take4 [OF True]]
  have l1: "left xs1 = drop 4 (left xs)" using moved_left [OF 1(2)] True by simp
  show ?thesis
  proof (cases "n \<le> mx")
    case False
    then have "xdr_bytes mx xs (NullP, d) = Ret (False, (NullP, n), xs1)" using 1 op1 by (simp add: xdr_bytes_def not_le)
    then show ?thesis using False op1 1(3) by (simp add: held_bytes_def)
  next
    case n: True
    show ?thesis
    proof (cases "n = 0")
      case True
      then show ?thesis using 1 op1 n \<open>4 \<le> length (left xs)\<close> by (simp add: xdr_bytes_def)
    next
      case nz: False
      have nn: "unat n < 2147483648" using n mx by (simp add: word_le_nat_alt)
      define ys where "ys = xs1\<lparr>x_kmem := x_kmem xs1 + unat n\<rparr>"
      have e: "xdr_bytes mx xs (NullP, d) = kbind (xdr_opaque n ys (Mem (map (x_fresh xs1) [0..<unat n])))
          (\<lambda>(b, sp, xs). Ret (b, (sp, n), xs))"
        using 1 op1 n nz by (simp add: xdr_bytes_def mem_alloc_def ys_def not_less [symmetric])
      have y: "good ys" "x_op ys = XDR_DECODE" "left ys = drop 4 (left xs)" "x_kmem ys = x_kmem xs + unat n"
        using g1 op1 l1 1(3) by (simp_all add: ys_def)
      note od = opaque_decode [OF y(1,2) nn, of "map (x_fresh xs1) [0..<unat n]"]
      show ?thesis
      proof (cases "4 + unat n + pad (unat n) \<le> length (left xs)")
        case fit: True
        then have "unat n + pad (unat n) \<le> length (left ys)" using y(3) by simp
        then obtain xs2 where 2: "xdr_opaque n ys (Mem (map (x_fresh xs1) [0..<unat n])) = Ret (True, Mem (take (unat n) (drop 4 (left xs))), xs2)"
          "moved ys (take (unat n + pad (unat n)) (drop 4 (left xs))) xs2" "x_kmem xs2 = x_kmem ys"
          using od by (auto simp: y(3) simp del: length_drop)
        have "take 4 (left xs) @ take (unat n + pad (unat n)) (drop 4 (left xs)) = take (4 + unat n + pad (unat n)) (left xs)"
          by (simp add: take_add add.assoc)
        moreover have "moved xs (take 4 (left xs) @ take (unat n + pad (unat n)) (drop 4 (left xs))) xs2"
          using moved_trans [OF 1(2)] 2(2) by (simp add: ys_def)
        ultimately show ?thesis using e 2(1,3) True n nz fit y(4) by simp
      next
        case False
        then have "\<not> unat n + pad (unat n) \<le> length (left ys)" using y(3) True by simp
        then obtain m xs2 where "xdr_opaque n ys (Mem (map (x_fresh xs1) [0..<unat n])) = Ret (False, Mem m, xs2)" "length m = unat n"
          "x_op xs2 = XDR_DECODE" "x_kmem xs2 = x_kmem ys" using od by auto
        then show ?thesis using e False y(4) by (simp add: held_bytes_def)
      qed
    qed
  qed
qed

lemma bytes_codec:
  assumes mx: "unat mx < 2147483648"
  shows "xdr_codec ops wf behind ahead (xdr_bytes mx) enc_bytes (ok_bytes mx) ini_bytes held_bytes"
proof
  fix xs :: "'s XDR" and v
  show "whole (enc_bytes v)" by (simp add: enc_bytes_def whole_append)
  assume a: "good xs" "x_op xs = XDR_ENCODE" "ok_bytes mx v"
  obtain p n where v: "v = (p, n)" by (cases v)
  have n: "n \<le> mx" "unat n < 2147483648" using a(3) mx by (auto simp: ok_bytes_def v word_le_nat_alt)
  have len: "length (enc_bytes v) = 4 + (unat n + pad (unat n))"
    using a(3) by (auto simp: enc_bytes_def v length_enc_opaque ok_bytes_def)
  have step: "xdr_bytes mx xs v = kbind (xdr_u_int xs n) (\<lambda>(b, n, xs). if \<not> b then Ret (False, (p, n), xs)
    else if n > mx then Ret (False, (p, n), xs) else kbind (xdr_opaque n xs p) (\<lambda>(b, sp, xs). Ret (b, (sp, n), xs)))"
    using u_int_encode [OF a(1,2), of n] a(2)
    by (auto simp: xdr_bytes_def v moved_op split: if_splits)
  show "\<exists>xs'. xdr_bytes mx xs v = Ret (True, v, xs') \<and> moved xs (enc_bytes v) xs' \<and> x_kmem xs' = x_kmem xs"
    if fit: "length (enc_bytes v) \<le> length (left xs)"
  proof -
    obtain xs1 where 1: "xdr_u_int xs n = Ret (True, n, xs1)" "moved xs (enc32 n) xs1" "x_kmem xs1 = x_kmem xs"
      using u_int_encode [OF a(1,2), of n] fit len by auto
    note g1 = moved_good [OF a(1) 1(2)]
    have "\<exists>xs2. xdr_opaque n xs1 p = Ret (True, p, xs2) \<and> moved xs1 (enc_opaque (cbytes p)) xs2 \<and> x_kmem xs2 = x_kmem xs1"
    proof (cases "p = NullP")
      case True
      then show ?thesis using a(3) moved_refl [OF g1] by (simp add: ok_bytes_def v xdr_opaque_def)
    next
      case False
      then obtain bs where "p = Mem bs" "length bs = unat n" using a(3) by (auto simp: ok_bytes_def v)
      moreover have "unat n + pad (unat n) \<le> length (left xs1)" using moved_left [OF 1(2)] fit len by simp
      ultimately show ?thesis using opaque_encode [OF g1, of n bs] moved_op [OF 1(2)] a(2) n(2) by simp
    qed
    then obtain xs2 where "xdr_opaque n xs1 p = Ret (True, p, xs2)" "moved xs1 (enc_opaque (cbytes p)) xs2" "x_kmem xs2 = x_kmem xs1"
      by blast
    then show ?thesis using step 1 n(1) moved_trans [OF 1(2)] by (simp add: v enc_bytes_def)
  qed
  show "\<exists>v' xs'. xdr_bytes mx xs v = Ret (False, v', xs') \<and> x_op xs' = XDR_ENCODE"
    if full: "\<not> length (enc_bytes v) \<le> length (left xs)"
  proof (cases "4 \<le> length (left xs)")
    case False
    then obtain xs1 where "xdr_u_int xs n = Ret (False, n, xs1)" "x_op xs1 = XDR_ENCODE" using u_int_encode [OF a(1,2), of n] by auto
    then show ?thesis using step by simp
  next
    case True
    then obtain xs1 where 1: "xdr_u_int xs n = Ret (True, n, xs1)" "moved xs (enc32 n) xs1" using u_int_encode [OF a(1,2), of n] by auto
    note g1 = moved_good [OF a(1) 1(2)]
    have op1: "x_op xs1 = XDR_ENCODE" using moved_op [OF 1(2)] a(2) by simp
    have l1: "\<not> unat n + pad (unat n) \<le> length (left xs1)" using full True len moved_left [OF 1(2)] by simp
    then obtain bs where p: "p = Mem bs" "length bs = unat n" using a(3) by (auto simp: ok_bytes_def v)
    obtain q xs2 where "xdr_opaque n xs1 p = Ret (False, q, xs2)" "x_op xs2 = XDR_ENCODE"
      using opaque_encode [OF g1 op1 n(2), of bs] l1 p by auto
    then show ?thesis using step 1 n(1) by (simp add: not_less [symmetric])
  qed
next
  fix xs :: "'s XDR" and v d r
  assume a: "good xs" "x_op xs = XDR_DECODE" "ok_bytes mx v" "ini_bytes d" "left xs = enc_bytes v @ r"
  obtain p n where v: "v = (p, n)" by (cases v)
  have n: "dec32 (left xs) = n" "length (cbytes p) = unat n" "p = (if n = 0 then NullP else Mem (cbytes p))" "n \<le> mx"
    using a(3) by (auto simp: a(5) enc_bytes_def v dec_enc32 ok_bytes_def)
  have t: "take (4 + unat n + pad (unat n)) (left xs) = enc_bytes v" "take (unat n) (drop 4 (left xs)) = cbytes p"
    "4 + unat n + pad (unat n) \<le> length (left xs)"
    using n(2) by (simp_all add: a(5) enc_bytes_def v enc_opaque_def)
  have pv: "(if n = 0 then NullP else Mem (take (unat n) (drop 4 (left xs))), n) = v"
    unfolding t(2) v n(3) [symmetric] ..
  obtain xs' where "xdr_bytes mx xs (NullP, snd d) = Ret (True, v, xs')" "moved xs (enc_bytes v) xs'" "x_kmem xs' = x_kmem xs + unat n"
    using bytes_decode [OF a(1,2) mx, of "snd d"] n(4) t(3) unfolding n(1) pv t(1) by auto
  moreover have "d = (NullP, snd d)" using a(4) by (cases d) simp
  moreover have "held_bytes v = Some (unat n)" using n(2,3) by (cases p) (auto simp: held_bytes_def v split: if_splits)
  ultimately show "\<exists>xs'. xdr_bytes mx xs d = Ret (True, v, xs') \<and> moved xs (enc_bytes v) xs' \<and>
      held_bytes v = Some (x_kmem xs' - x_kmem xs) \<and> x_kmem xs \<le> x_kmem xs'" by (metis add_diff_cancel_left' le_add1)
next
  fix xs :: "'s XDR" and d :: "cptr \<times> ulong"
  assume a: "good xs" "x_op xs = XDR_DECODE" "ini_bytes d"
  let ?n = "dec32 (left xs)" and ?l = "left xs"
  have d: "d = (NullP, snd d)" using a(3) by (cases d) simp
  show "\<exists>b v xs'. xdr_bytes mx xs d = Ret (b, v, xs') \<and> x_op xs' = XDR_DECODE \<and> x_kmem xs \<le> x_kmem xs' \<and>
      held_bytes v = Some (x_kmem xs' - x_kmem xs) \<and> (b \<longrightarrow> ok_bytes mx v \<and> (\<exists>bs. moved xs bs xs' \<and> whole bs))"
  proof (cases "4 \<le> length ?l \<and> ?n \<le> mx \<and> 4 + unat ?n + pad (unat ?n) \<le> length ?l")
    case True
    then obtain xs' where r: "xdr_bytes mx xs (NullP, snd d) = Ret (True, (if ?n = 0 then NullP else Mem (take (unat ?n) (drop 4 ?l)), ?n), xs')"
      "moved xs (take (4 + unat ?n + pad (unat ?n)) ?l) xs'" "x_kmem xs' = x_kmem xs + unat ?n"
      using bytes_decode [OF a(1,2) mx, of "snd d"] by auto
    have "whole (take (4 + unat ?n + pad (unat ?n)) ?l)" using True pad_unit(1) [of "unat ?n"] by (simp add: whole_def add.assoc)
    moreover have "x_op xs' = XDR_DECODE" using moved_op [OF r(2)] a(2) by simp
    moreover have "take (unat ?n) (drop 4 ?l) \<noteq> []" if "?n \<noteq> 0"
    proof -
      have "0 < unat ?n" using that by (simp add: unat_gt_0)
      then show ?thesis using True by simp
    qed
    ultimately show ?thesis using r d True by (auto simp: held_bytes_def ok_bytes_def)
  next
    case False
    obtain p n' xs' where "xdr_bytes mx xs (NullP, snd d) = Ret (False, (p, n'), xs')" "x_op xs' = XDR_DECODE" "x_kmem xs \<le> x_kmem xs'"
      "held_bytes (p, n') = Some (x_kmem xs' - x_kmem xs)"
      using bytes_decode [OF a(1,2) mx, of "snd d"] False by (auto simp only: if_False)
    then show ?thesis using d by auto
  qed
next
  fix xs :: "'s XDR" and v m
  assume a: "x_op xs = XDR_FREE" "held_bytes v = Some m" "m \<le> x_kmem xs"
  then show "\<exists>v' xs'. xdr_bytes mx xs v = Ret (True, v', xs') \<and> x_op xs' = XDR_FREE \<and> x_kmem xs' = x_kmem xs - m"
    by (cases v; cases "fst v") (auto simp: xdr_bytes_def held_bytes_def u_int_free kmem_free_def split: if_splits)
next
  fix v :: "cptr \<times> ulong"
  show "held_bytes v = Some 0" if "ini_bytes v" using that by (simp add: held_bytes_def)
qed

end

section \<open>Strings\<close>

text \<open>A string in memory: its characters and the null byte that ends it.\<close>

definition is_str :: "ulong \<Rightarrow> byte list \<Rightarrow> bool" where
  "is_str mx bs \<longleftrightarrow> 0 \<notin> set bs \<and> length bs \<le> unat mx"

definition ok_string :: "ulong \<Rightarrow> cptr \<Rightarrow> bool" where
  "ok_string mx p \<longleftrightarrow> (\<exists>bs. p = Mem (bs @ [0]) \<and> is_str mx bs)"

definition enc_string :: "cptr \<Rightarrow> byte list" where
  "enc_string p = (let bs = takeWhile (\<lambda>c. c \<noteq> 0) (cbytes p) in enc32 (of_nat (length bs)) @ enc_opaque bs)"

definition held_string :: "ulong \<Rightarrow> cptr \<Rightarrow> nat option" where
  "held_string mx p = (if p = NullP then Some 0 else if ok_string mx p then Some (length (cbytes p)) else None)"

lemma takeWhile_str: "0 \<notin> set bs \<Longrightarrow> takeWhile (\<lambda>c. c \<noteq> 0) (bs @ 0 # r) = bs" for bs :: "byte list"
  by (induction bs) auto

lemma enc_string_str: "is_str mx bs \<Longrightarrow> enc_string (Mem (bs @ [0])) = enc32 (of_nat (length bs)) @ enc_opaque bs"
  by (simp add: enc_string_def is_str_def takeWhile_str)

lemma cstrlen_str: "is_str mx bs \<Longrightarrow> cstrlen (Mem (bs @ 0 # r)) = Ret (of_nat (length bs))"
  by (simp add: cstrlen_def is_str_def takeWhile_str)

lemma str_len:
  assumes "is_str mx bs" "unat mx < 2147483648"
  shows "unat (of_nat (length bs) :: ulong) = length bs" "(of_nat (length bs) :: ulong) \<le> mx"
    "unat (of_nat (length bs) + 1 :: ulong) = length bs + 1"
proof -
  have l: "length bs \<le> unat mx" using assms(1) by (simp add: is_str_def)
  then show u: "unat (of_nat (length bs) :: ulong) = length bs" using assms(2) by (intro unat_of_nat_small) simp
  then show "(of_nat (length bs) :: ulong) \<le> mx" using l by (simp add: word_le_nat_alt)
  show "unat (of_nat (length bs) + 1 :: ulong) = length bs + 1" using u l assms(2) by (subst unat_add_nowrap) simp_all
qed

text \<open>\<open>strlen\<close> of the bytes read, which are followed by a null byte.\<close>

lemma cstrlen_read:
  assumes "length bs < 4294967296"
  shows "\<exists>k. cstrlen (Mem (bs @ [0])) = Ret k \<and> (k = of_nat (length bs) \<longleftrightarrow> 0 \<notin> set bs)"
proof (cases "0 \<in> set bs")
  case False
  then show ?thesis by (simp add: cstrlen_def takeWhile_str)
next
  case True
  let ?t = "takeWhile (\<lambda>c. c \<noteq> 0) (bs @ [0])"
  have "?t = takeWhile (\<lambda>c. c \<noteq> 0) bs" using True by (simp add: takeWhile_append1)
  moreover have "length (takeWhile (\<lambda>c. c \<noteq> 0) bs) < length bs"
    using True length_takeWhile_le [of "\<lambda>c. c \<noteq> 0" bs] takeWhile_eq_take [of "\<lambda>c. c \<noteq> 0" bs]
    by (metis (mono_tags, lifting) le_neq_implies_less set_takeWhileD take_all_iff order_refl)
  ultimately have l: "length ?t < length bs" by simp
  then have "(of_nat (length ?t) :: ulong) \<noteq> of_nat (length bs)"
    using assms unat_of_nat_small [where 'a = 32, of "length ?t"] unat_of_nat_small [where 'a = 32, of "length bs"] by auto
  then show ?thesis using True by (simp add: cstrlen_def)
qed

context xdr_stream
begin

lemma string_decode:
  assumes g: "good xs" and op: "x_op xs = XDR_DECODE" and mx: "unat mx < 2147483648"
  defines "n \<equiv> dec32 (left xs)"
  shows "if 4 \<le> length (left xs) \<and> n \<le> mx \<and> 4 + unat n + pad (unat n) \<le> length (left xs) \<and> 0 \<notin> set (take (unat n) (drop 4 (left xs)))
    then \<exists>xs'. xdr_string mx xs NullP = Ret (True, Mem (take (unat n) (drop 4 (left xs)) @ [0]), xs') \<and>
      moved xs (take (4 + unat n + pad (unat n)) (left xs)) xs' \<and> x_kmem xs' = x_kmem xs + (unat n + 1)
    else \<exists>xs'. xdr_string mx xs NullP = Ret (False, NullP, xs') \<and> x_op xs' = XDR_DECODE \<and> x_kmem xs' = x_kmem xs"
proof (cases "4 \<le> length (left xs)")
  case False
  then obtain xs1 where "xdr_u_int xs 0 = Ret (False, 0, xs1)" "x_op xs1 = XDR_DECODE" "x_kmem xs1 = x_kmem xs"
    using u_int_decode [OF g op, of 0] by auto
  then show ?thesis using False op by (simp add: xdr_string_def)
next
  case True
  then obtain xs1 where 1: "xdr_u_int xs 0 = Ret (True, n, xs1)" "moved xs (take 4 (left xs)) xs1" "x_kmem xs1 = x_kmem xs"
    using u_int_decode [OF g op, of 0] by (auto simp: n_def)
  have op1: "x_op xs1 = XDR_DECODE" using moved_op [OF 1(2)] op by simp
  note g1 = moved_good [OF g 1(2) whole_take4 [OF True]]
  have l1: "left xs1 = drop 4 (left xs)" using moved_left [OF 1(2)] True by simp
  show ?thesis
  proof (cases "n \<le> mx")
    case False
    then show ?thesis using 1 op1 op by (simp add: xdr_string_def not_le)
  next
    case n: True
    have nn: "unat n < 2147483648" using n mx by (simp add: word_le_nat_alt)
    have n1: "unat (n + 1) = unat n + 1" using nn by (subst unat_add_nowrap) simp_all
    then have nz: "n + 1 \<noteq> 0" by (metis add_eq_0_iff_both_eq_0 one_neq_zero unat_0)
    define ys where "ys = xs1\<lparr>x_kmem := x_kmem xs1 + (unat n + 1)\<rparr>"
    define m where "m = (map (x_fresh xs1) [0..<unat n + 1])[unat n := 0]"
    have m: "length m = unat n + 1" "drop (unat n) m = [0]" by (simp_all add: m_def drop_update_swap drop_map)
    have e: "xdr_string mx xs NullP = kbind (xdr_opaque n ys (Mem m)) (\<lambda>(b, sp, xs).
        if \<not> b then kbind (mem_free xs sp (n + 1)) (\<lambda>xs. Ret (False, NullP, xs))
        else kbind (cstrlen sp) (\<lambda>k. if k \<noteq> n then kbind (mem_free xs sp (n + 1)) (\<lambda>xs. Ret (False, NullP, xs)) else Ret (True, sp, xs)))"
      using 1 op op1 n nz by (simp add: xdr_string_def mem_alloc_def ys_def m_def n1 Let_def not_less [symmetric])
    have y: "good ys" "x_op ys = XDR_DECODE" "left ys = drop 4 (left xs)" "x_kmem ys = x_kmem xs + (unat n + 1)"
      using g1 op1 l1 1(3) by (simp_all add: ys_def)
    note od = opaque_decode [OF y(1,2) nn, of m]
    show ?thesis
    proof (cases "4 + unat n + pad (unat n) \<le> length (left xs)")
      case False
      then have "\<not> unat n + pad (unat n) \<le> length (left ys)" using y(3) True by simp
      then obtain m' xs2 where "xdr_opaque n ys (Mem m) = Ret (False, Mem m', xs2)" "length m' = unat n + 1"
        "x_op xs2 = XDR_DECODE" "x_kmem xs2 = x_kmem ys" using od m(1) by auto
      then show ?thesis using e False y(4) n1 by (simp add: kmem_free_def)
    next
      case fit: True
      let ?s = "take (unat n) (drop 4 (left xs))"
      have "unat n + pad (unat n) \<le> length (left ys)" using fit y(3) by simp
      then obtain xs2 where 2: "xdr_opaque n ys (Mem m) = Ret (True, Mem (?s @ [0]), xs2)"
        "moved ys (take (unat n + pad (unat n)) (drop 4 (left xs))) xs2" "x_kmem xs2 = x_kmem ys"
        using od m by (auto simp: y(3) simp del: length_drop)
      have ls: "length ?s = unat n" using fit by simp
      then obtain k where k: "cstrlen (Mem (?s @ [0])) = Ret k" "k = n \<longleftrightarrow> 0 \<notin> set ?s"
        using cstrlen_read [of ?s] nn by (auto simp: ls)
      have mv: "moved xs (take (4 + unat n + pad (unat n)) (left xs)) xs2"
      proof -
        have "take 4 (left xs) @ take (unat n + pad (unat n)) (drop 4 (left xs)) = take (4 + unat n + pad (unat n)) (left xs)"
          by (simp add: take_add add.assoc)
        then show ?thesis using moved_trans [OF 1(2)] 2(2) by (metis kmem_upd(3) ys_def)
      qed
      show ?thesis
      proof (cases "k = n")
        case True
        then show ?thesis using e 2(1,3) k fit y(4) n mv \<open>4 \<le> length (left xs)\<close> by simp
      next
        case False
        then show ?thesis using e 2(1,3) k y(4) n1 ls moved_op [OF mv] op by (simp add: kmem_free_def)
      qed
    qed
  qed
qed

lemma string_codec:
  assumes mx: "unat mx < 2147483648"
  shows "xdr_codec ops wf behind ahead (xdr_string mx) enc_string (ok_string mx) (\<lambda>p. p = NullP) (held_string mx)"
proof
  fix xs :: "'s XDR" and v
  show "whole (enc_string v)" by (simp add: enc_string_def Let_def whole_append)
  assume a: "good xs" "x_op xs = XDR_ENCODE" "ok_string mx v"
  then obtain bs where v: "v = Mem (bs @ [0])" "is_str mx bs" by (auto simp: ok_string_def)
  let ?n = "of_nat (length bs) :: ulong"
  note u = str_len [OF v(2) mx]
  have enc: "enc_string v = enc32 ?n @ enc_opaque bs" using enc_string_str [OF v(2)] v(1) by simp
  have nn: "unat ?n < 2147483648" "unat ?n \<le> length (bs @ [0])" using u v(2) mx by (simp_all add: is_str_def)
  have step: "xdr_string mx xs v = kbind (xdr_u_int xs ?n) (\<lambda>(b, n, xs). if \<not> b then Ret (False, v, xs)
    else if n > mx then Ret (False, v, xs) else kbind (xdr_opaque n xs v) (\<lambda>(b, sp, xs). Ret (b, v, xs)))"
    using u_int_encode [OF a(1,2), of ?n] a(2) cstrlen_str [OF v(2), of "[]"]
    by (auto simp: xdr_string_def v(1) moved_op split: if_splits)
  show "\<exists>xs'. xdr_string mx xs v = Ret (True, v, xs') \<and> moved xs (enc_string v) xs' \<and> x_kmem xs' = x_kmem xs"
    if fit: "length (enc_string v) \<le> length (left xs)"
  proof -
    obtain xs1 where 1: "xdr_u_int xs ?n = Ret (True, ?n, xs1)" "moved xs (enc32 ?n) xs1" "x_kmem xs1 = x_kmem xs"
      using u_int_encode [OF a(1,2), of ?n] fit enc by auto
    note g1 = moved_good [OF a(1) 1(2)]
    have op1: "x_op xs1 = XDR_ENCODE" using moved_op [OF 1(2)] a(2) by simp
    have "length bs + pad (length bs) \<le> length (left xs1)" using moved_left [OF 1(2)] fit enc by (simp add: length_enc_opaque)
    then obtain xs2 where "xdr_opaque ?n xs1 v = Ret (True, v, xs2)" "moved xs1 (enc_opaque bs) xs2" "x_kmem xs2 = x_kmem xs1"
      using opaque_encode [OF g1 op1 nn] by (auto simp: u(1) v(1))
    then show ?thesis using step 1 u(2) moved_trans [OF 1(2)] enc by (simp add: not_less [symmetric])
  qed
  show "\<exists>v' xs'. xdr_string mx xs v = Ret (False, v', xs') \<and> x_op xs' = XDR_ENCODE"
    if full: "\<not> length (enc_string v) \<le> length (left xs)"
  proof (cases "4 \<le> length (left xs)")
    case False
    then obtain xs1 where "xdr_u_int xs ?n = Ret (False, ?n, xs1)" "x_op xs1 = XDR_ENCODE" using u_int_encode [OF a(1,2), of ?n] by auto
    then show ?thesis using step by simp
  next
    case True
    then obtain xs1 where 1: "xdr_u_int xs ?n = Ret (True, ?n, xs1)" "moved xs (enc32 ?n) xs1" using u_int_encode [OF a(1,2), of ?n] by auto
    note g1 = moved_good [OF a(1) 1(2)]
    have op1: "x_op xs1 = XDR_ENCODE" using moved_op [OF 1(2)] a(2) by simp
    have "\<not> length bs + pad (length bs) \<le> length (left xs1)" using full True enc moved_left [OF 1(2)] by (simp add: length_enc_opaque)
    then obtain q xs2 where "xdr_opaque ?n xs1 v = Ret (False, q, xs2)" "x_op xs2 = XDR_ENCODE"
      using opaque_encode [OF g1 op1 nn] by (auto simp: u(1) v(1))
    then show ?thesis using step 1 u(2) by (simp add: not_less [symmetric])
  qed
next
  fix xs :: "'s XDR" and v d r
  assume a: "good xs" "x_op xs = XDR_DECODE" "ok_string mx v" "d = NullP" "left xs = enc_string v @ r"
  then obtain bs where v: "v = Mem (bs @ [0])" "is_str mx bs" by (auto simp: ok_string_def)
  note u = str_len [OF v(2) mx]
  have enc: "enc_string v = enc32 (of_nat (length bs)) @ enc_opaque bs" using enc_string_str [OF v(2)] v(1) by simp
  have n: "dec32 (left xs) = of_nat (length bs)" by (simp add: a(5) enc dec_enc32)
  have t: "take (4 + length bs + pad (length bs)) (left xs) = enc_string v" "take (length bs) (drop 4 (left xs)) = bs"
    "4 + length bs + pad (length bs) \<le> length (left xs)"
    by (simp_all add: a(5) enc enc_opaque_def)
  obtain xs' where "xdr_string mx xs NullP = Ret (True, v, xs')" "moved xs (enc_string v) xs'" "x_kmem xs' = x_kmem xs + (length bs + 1)"
    using string_decode [OF a(1,2) mx] u(2) t(3) v(2) unfolding n u(1) t(1,2) v(1) [symmetric] by (auto simp: is_str_def)
  moreover have "held_string mx v = Some (length bs + 1)" using v a(3) by (simp add: held_string_def)
  ultimately show "\<exists>xs'. xdr_string mx xs d = Ret (True, v, xs') \<and> moved xs (enc_string v) xs' \<and>
      held_string mx v = Some (x_kmem xs' - x_kmem xs) \<and> x_kmem xs \<le> x_kmem xs'" using a(4) by auto
next
  fix xs :: "'s XDR" and d :: cptr
  assume a: "good xs" "x_op xs = XDR_DECODE" "d = NullP"
  let ?n = "dec32 (left xs)" and ?l = "left xs"
  let ?s = "take (unat ?n) (drop 4 ?l)"
  show "\<exists>b v xs'. xdr_string mx xs d = Ret (b, v, xs') \<and> x_op xs' = XDR_DECODE \<and> x_kmem xs \<le> x_kmem xs' \<and>
      held_string mx v = Some (x_kmem xs' - x_kmem xs) \<and> (b \<longrightarrow> ok_string mx v \<and> (\<exists>bs. moved xs bs xs' \<and> whole bs))"
  proof (cases "4 \<le> length ?l \<and> ?n \<le> mx \<and> 4 + unat ?n + pad (unat ?n) \<le> length ?l \<and> 0 \<notin> set ?s")
    case True
    then obtain xs' where r: "xdr_string mx xs NullP = Ret (True, Mem (?s @ [0]), xs')"
      "moved xs (take (4 + unat ?n + pad (unat ?n)) ?l) xs'" "x_kmem xs' = x_kmem xs + (unat ?n + 1)"
      using string_decode [OF a(1,2) mx] by auto
    have "whole (take (4 + unat ?n + pad (unat ?n)) ?l)" using True pad_unit(1) [of "unat ?n"] by (simp add: whole_def add.assoc)
    moreover have "x_op xs' = XDR_DECODE" using moved_op [OF r(2)] a(2) by simp
    moreover have "length ?s = unat ?n" using True unfolding length_take length_drop by linarith
    then have "is_str mx ?s" using True by (simp add: is_str_def word_le_nat_alt)
    then have "ok_string mx (Mem (?s @ [0]))" by (auto simp: ok_string_def)
    ultimately show ?thesis using r a(3) True \<open>length ?s = unat ?n\<close> by (auto simp: held_string_def)
  next
    case False
    obtain xs' where "xdr_string mx xs NullP = Ret (False, NullP, xs')" "x_op xs' = XDR_DECODE" "x_kmem xs' = x_kmem xs"
      using string_decode [OF a(1,2) mx] False by (auto simp only: if_False)
    then show ?thesis using a(3) by (auto simp: held_string_def)
  qed
next
  fix xs :: "'s XDR" and v m
  assume a: "x_op xs = XDR_FREE" "held_string mx v = Some m" "m \<le> x_kmem xs"
  show "\<exists>v' xs'. xdr_string mx xs v = Ret (True, v', xs') \<and> x_op xs' = XDR_FREE \<and> x_kmem xs' = x_kmem xs - m"
  proof (cases "v = NullP")
    case True
    then show ?thesis using a by (simp add: xdr_string_def held_string_def)
  next
    case False
    then obtain bs where v: "v = Mem (bs @ [0])" "is_str mx bs" "m = length bs + 1"
      using a(2) by (auto simp: held_string_def ok_string_def split: if_splits)
    note u = str_len [OF v(2) mx]
    show ?thesis using a(1,3) v cstrlen_str [OF v(2), of "[]"] u
      by (simp add: xdr_string_def u_int_free kmem_free_def not_less [symmetric])
  qed
qed (simp add: held_string_def)

end

section \<open>Arrays and pointers\<close>

definition enc_array :: "('b \<Rightarrow> byte list) \<Rightarrow> 'b list option \<times> ulong \<Rightarrow> byte list" where
  "enc_array en obj = enc32 (snd obj) @ concat (map en (case fst obj of None \<Rightarrow> [] | Some es \<Rightarrow> es))"

definition ok_array :: "ulong \<Rightarrow> ('b \<Rightarrow> bool) \<Rightarrow> 'b list option \<times> ulong \<Rightarrow> bool" where
  "ok_array mx k obj \<longleftrightarrow> snd obj \<le> mx \<and>
    (fst obj = None \<and> snd obj = 0 \<or> (\<exists>es. fst obj = Some es \<and> es \<noteq> [] \<and> length es = unat (snd obj) \<and> (\<forall>e\<in>set es. k e)))"

text \<open>The memory of an array is that of its elements and what each element holds.\<close>

fun held_list :: "('b \<Rightarrow> nat option) \<Rightarrow> 'b list \<Rightarrow> nat option" where
  "held_list h [] = Some 0"
| "held_list h (e # es) = (case (h e, held_list h es) of (Some a, Some b) \<Rightarrow> Some (a + b) | _ \<Rightarrow> None)"

definition held_array :: "ulong \<Rightarrow> ulong \<Rightarrow> ('b \<Rightarrow> nat option) \<Rightarrow> 'b list option \<times> ulong \<Rightarrow> nat option" where
  "held_array mx elsize h obj = (case fst obj of
     None \<Rightarrow> Some 0
   | Some es \<Rightarrow> if length es = unat (snd obj) \<and> snd obj \<le> mx then map_option (\<lambda>m. unat (snd obj) * unat elsize + m) (held_list h es) else None)"

abbreviation ini_array :: "'b list option \<times> ulong \<Rightarrow> bool" where
  "ini_array obj \<equiv> fst obj = None"

lemma held_list_replicate: "h z = Some 0 \<Longrightarrow> held_list h (replicate n z) = Some 0"
  by (induction n) simp_all

lemma held_list_append: "held_list h (as @ bs) = (case (held_list h as, held_list h bs) of (Some a, Some b) \<Rightarrow> Some (a + b) | _ \<Rightarrow> None)"
  by (induction as) (auto split: option.splits)

context xdr_codec
begin

lemma loop_encode:
  assumes "good xs" "x_op xs = XDR_ENCODE" "\<forall>e\<in>set es. ok e" "unat i + length es = unat c"
  shows "if length (concat (map enc es)) \<le> length (left xs)
    then \<exists>xs'. xdr_array_loop (\<lambda>_. proc) c i xs es = Ret (True, es, xs') \<and> moved xs (concat (map enc es)) xs' \<and> x_kmem xs' = x_kmem xs
    else \<exists>es' xs'. xdr_array_loop (\<lambda>_. proc) c i xs es = Ret (False, es', xs') \<and> x_op xs' = XDR_ENCODE"
  using assms
proof (induction es arbitrary: xs i)
  case Nil
  then have "i = c" by (simp add: word_unat_eq_iff)
  then show ?case using Nil.prems moved_refl by simp
next
  case (Cons e es)
  have i: "i < c" using Cons.prems(4) by (simp add: word_less_nat_alt)
  have i1: "unat (i + 1) = unat i + 1" using Cons.prems(4) unat_bound [of c] by (subst unat_add_nowrap) simp_all
  show ?case
  proof (cases "length (enc e) \<le> length (left xs)")
    case False
    then obtain e' xs1 where "proc xs e = Ret (False, e', xs1)" "x_op xs1 = XDR_ENCODE"
      using encode_full [of xs e] Cons.prems by auto
    then show ?thesis using i False by simp
  next
    case True
    then obtain xs1 where 1: "proc xs e = Ret (True, e, xs1)" "moved xs (enc e) xs1" "x_kmem xs1 = x_kmem xs"
      using encode [of xs e] Cons.prems by auto
    note g1 = moved_good [OF Cons.prems(1) 1(2) unit]
    have ih: "if length (concat (map enc es)) \<le> length (left xs1)
      then \<exists>xs'. xdr_array_loop (\<lambda>_. proc) c (i + 1) xs1 es = Ret (True, es, xs') \<and> moved xs1 (concat (map enc es)) xs' \<and> x_kmem xs' = x_kmem xs1
      else \<exists>es' xs'. xdr_array_loop (\<lambda>_. proc) c (i + 1) xs1 es = Ret (False, es', xs') \<and> x_op xs' = XDR_ENCODE"
      using Cons.prems i1 moved_op [OF 1(2)] by (intro Cons.IH g1) simp_all
    have l: "length (concat (map enc (e # es))) \<le> length (left xs) \<longleftrightarrow> length (concat (map enc es)) \<le> length (left xs1)"
      using moved_left [OF 1(2)] True by auto
    show ?thesis
    proof (cases "length (concat (map enc es)) \<le> length (left xs1)")
      case True
      then obtain xs2 where "xdr_array_loop (\<lambda>_. proc) c (i + 1) xs1 es = Ret (True, es, xs2)" "moved xs1 (concat (map enc es)) xs2"
        "x_kmem xs2 = x_kmem xs1" using ih by auto
      then show ?thesis using l True i 1 moved_trans [OF 1(2)] by (simp del: length_concat)
    next
      case False
      then obtain es' xs2 where "xdr_array_loop (\<lambda>_. proc) c (i + 1) xs1 es = Ret (False, es', xs2)" "x_op xs2 = XDR_ENCODE" using ih by auto
      then show ?thesis using l False i 1 by (simp del: length_concat)
    qed
  qed
qed

lemma loop_decode:
  assumes "good xs" "x_op xs = XDR_DECODE" "\<forall>e\<in>set es. ok e" "unat i + length es = unat c" "length ds = length es"
    "\<forall>d\<in>set ds. ini d" "left xs = concat (map enc es) @ r"
  shows "\<exists>xs'. xdr_array_loop (\<lambda>_. proc) c i xs ds = Ret (True, es, xs') \<and> moved xs (concat (map enc es)) xs' \<and>
    held_list held es = Some (x_kmem xs' - x_kmem xs) \<and> x_kmem xs \<le> x_kmem xs'"
  using assms
proof (induction es arbitrary: xs i ds)
  case Nil
  then have "i = c" by (simp add: word_unat_eq_iff)
  then show ?case using Nil.prems moved_refl by simp
next
  case (Cons e es)
  have i: "i < c" using Cons.prems(4) by (simp add: word_less_nat_alt)
  have i1: "unat (i + 1) = unat i + 1" using Cons.prems(4) unat_bound [of c] by (subst unat_add_nowrap) simp_all
  obtain d ds' where ds: "ds = d # ds'" using Cons.prems(5) by (cases ds) auto
  obtain xs1 where 1: "proc xs d = Ret (True, e, xs1)" "moved xs (enc e) xs1" "held e = Some (x_kmem xs1 - x_kmem xs)" "x_kmem xs \<le> x_kmem xs1"
    using decode [of xs e d] Cons.prems ds by auto
  have g1: "good xs1" using moved_good [OF Cons.prems(1) 1(2) unit] Cons.prems(3) by simp
  have "left xs1 = concat (map enc es) @ r" using moved_left [OF 1(2)] Cons.prems(7) by simp
  then obtain xs2 where 2: "xdr_array_loop (\<lambda>_. proc) c (i + 1) xs1 ds' = Ret (True, es, xs2)" "moved xs1 (concat (map enc es)) xs2"
    "held_list held es = Some (x_kmem xs2 - x_kmem xs1)" "x_kmem xs1 \<le> x_kmem xs2"
    using Cons.IH [OF g1, of "i + 1" ds'] Cons.prems ds i1 moved_op [OF 1(2)] by auto
  then show ?case using i 1 ds moved_trans [OF 1(2) 2(2)] by simp
qed

lemma loop_any:
  assumes "good xs" "x_op xs = XDR_DECODE" "unat i + length ds = unat c" "\<forall>d\<in>set ds. ini d"
  shows "\<exists>b es xs'. xdr_array_loop (\<lambda>_. proc) c i xs ds = Ret (b, es, xs') \<and> x_op xs' = XDR_DECODE \<and> length es = length ds \<and>
    x_kmem xs \<le> x_kmem xs' \<and> held_list held es = Some (x_kmem xs' - x_kmem xs) \<and>
    (b \<longrightarrow> (\<forall>e\<in>set es. ok e) \<and> (\<exists>bs. moved xs bs xs' \<and> whole bs))"
  using assms
proof (induction ds arbitrary: xs i)
  case Nil
  then have "i = c" by (simp add: word_unat_eq_iff)
  moreover have "\<exists>bs. moved xs bs xs \<and> whole bs" using moved_refl [OF Nil.prems(1)] whole_simps(1) by blast
  ultimately show ?case using Nil.prems(2) by auto
next
  case (Cons d ds)
  have i: "i < c" using Cons.prems(3) by (simp add: word_less_nat_alt)
  have i1: "unat (i + 1) = unat i + 1" using Cons.prems(3) unat_bound [of c] by (subst unat_add_nowrap) simp_all
  obtain b e xs1 where 1: "proc xs d = Ret (b, e, xs1)" "x_op xs1 = XDR_DECODE" "x_kmem xs \<le> x_kmem xs1"
    "held e = Some (x_kmem xs1 - x_kmem xs)" "b \<longrightarrow> ok e \<and> (\<exists>bs. moved xs bs xs1 \<and> whole bs)"
    using decode_any [of xs d] Cons.prems by auto
  show ?case
  proof (cases b)
    case False
    have "held_list held ds = Some 0" using Cons.prems(4) ini_held by (induction ds) auto
    then have "xdr_array_loop (\<lambda>_. proc) c i xs (d # ds) = Ret (False, e # ds, xs1)" "held_list held (e # ds) = Some (x_kmem xs1 - x_kmem xs)"
      using 1 i False by simp_all
    then show ?thesis using 1(2,3) by auto
  next
    case True
    then obtain bs where m1: "moved xs bs xs1" "whole bs" "ok e" using 1(5) by blast
    obtain b2 es xs2 where 2: "xdr_array_loop (\<lambda>_. proc) c (i + 1) xs1 ds = Ret (b2, es, xs2)" "x_op xs2 = XDR_DECODE" "length es = length ds"
      "x_kmem xs1 \<le> x_kmem xs2" "held_list held es = Some (x_kmem xs2 - x_kmem xs1)"
      "b2 \<longrightarrow> (\<forall>e\<in>set es. ok e) \<and> (\<exists>bs. moved xs1 bs xs2 \<and> whole bs)"
      using Cons.IH [OF moved_good [OF Cons.prems(1) m1(1,2)] 1(2), of "i + 1"] Cons.prems i1 by auto
    have "\<exists>bs. moved xs bs xs2 \<and> whole bs" if b2 using 2(6) that moved_trans [OF m1(1)] whole_append [OF m1(2)] by blast
    then show ?thesis using 1 2 i True m1(3) by simp
  qed
qed

text \<open>The elements at the start of the stream go to the first elements of the array.\<close>

lemma loop_prefix:
  assumes "good xs" "x_op xs = XDR_DECODE" "\<forall>e\<in>set es. ok e" "unat i + length es \<le> unat c" "length es \<le> length ds"
    "\<forall>d\<in>set ds. ini d" "left xs = concat (map enc es) @ r"
  shows "\<exists>xs'. xdr_array_loop (\<lambda>_. proc) c i xs ds =
      kbind (xdr_array_loop (\<lambda>_. proc) c (i + of_nat (length es)) xs' (drop (length es) ds)) (\<lambda>(b, es', xs). Ret (b, es @ es', xs)) \<and>
    moved xs (concat (map enc es)) xs'"
  using assms
proof (induction es arbitrary: xs i ds)
  case Nil
  have "kbind z (\<lambda>(b, es', xs). Ret (b, [] @ es', xs)) = z" for z :: "(bool \<times> 'b list \<times> 'a XDR) kres" by (cases z) simp_all
  then show ?case using moved_refl [OF Nil.prems(1)] by auto
next
  case (Cons e es)
  have i: "i < c" using Cons.prems(4) by (simp add: word_less_nat_alt)
  have i1: "unat (i + 1) = unat i + 1" using Cons.prems(4) unat_bound [of c] by (subst unat_add_nowrap) simp_all
  obtain d ds' where ds: "ds = d # ds'" using Cons.prems(5) by (cases ds) auto
  obtain xs1 where 1: "proc xs d = Ret (True, e, xs1)" "moved xs (enc e) xs1"
    using decode [of xs e d] Cons.prems ds by auto
  have g1: "good xs1" using moved_good [OF Cons.prems(1) 1(2) unit] Cons.prems(3) by simp
  have "left xs1 = concat (map enc es) @ r" using moved_left [OF 1(2)] Cons.prems(7) by simp
  then obtain xs2 where 2: "xdr_array_loop (\<lambda>_. proc) c (i + 1) xs1 ds' =
      kbind (xdr_array_loop (\<lambda>_. proc) c (i + 1 + of_nat (length es)) xs2 (drop (length es) ds')) (\<lambda>(b, es', xs). Ret (b, es @ es', xs))"
    "moved xs1 (concat (map enc es)) xs2"
    using Cons.IH [OF g1, of "i + 1" ds'] Cons.prems ds i1 moved_op [OF 1(2)] by auto
  have k: "kbind (kbind z (\<lambda>(b, es', xs). Ret (b, es @ es', xs))) (\<lambda>(b, es, xs). Ret (b, e # es, xs)) =
      kbind z (\<lambda>(b, es', xs). Ret (b, (e # es) @ es', xs))" for z :: "(bool \<times> 'b list \<times> 'a XDR) kres"
    by (cases z) auto
  have "i + of_nat (length (e # es)) = i + 1 + of_nat (length es)" by simp
  then show ?case using i 1 ds 2 k moved_trans [OF 1(2) 2(2)] by (intro exI [of _ xs2]) (simp add: add.assoc)
qed

lemma loop_free:
  assumes "x_op xs = XDR_FREE" "unat i + length es = unat c" "held_list held es = Some m" "m \<le> x_kmem xs"
  shows "\<exists>es' xs'. xdr_array_loop (\<lambda>_. proc) c i xs es = Ret (True, es', xs') \<and> length es' = length es \<and> x_op xs' = XDR_FREE \<and> x_kmem xs' = x_kmem xs - m"
  using assms
proof (induction es arbitrary: xs i m)
  case Nil
  then have "i = c" by (simp add: word_unat_eq_iff)
  then show ?case using Nil.prems by simp
next
  case (Cons e es)
  have i: "i < c" using Cons.prems(2) by (simp add: word_less_nat_alt)
  have i1: "unat (i + 1) = unat i + 1" using Cons.prems(2) unat_bound [of c] by (subst unat_add_nowrap) simp_all
  obtain a b where m: "held e = Some a" "held_list held es = Some b" "m = a + b" using Cons.prems(3) by (auto split: option.splits)
  obtain e' xs1 where 1: "proc xs e = Ret (True, e', xs1)" "x_op xs1 = XDR_FREE" "x_kmem xs1 = x_kmem xs - a"
    using free [OF Cons.prems(1) m(1)] m(3) Cons.prems(4) by auto
  have "b \<le> x_kmem xs1" using 1(3) m(3) Cons.prems(4) by linarith
  then obtain es' xs2 where 2: "xdr_array_loop (\<lambda>_. proc) c (i + 1) xs1 es = Ret (True, es', xs2)" "length es' = length es" "x_op xs2 = XDR_FREE"
    "x_kmem xs2 = x_kmem xs1 - b" using Cons.IH [OF 1(2), of "i + 1" b] i1 Cons.prems(2) m(2) by auto
  then show ?case using i 1 m(3) by simp
qed

end

context xdr_codec
begin

lemma array_fresh:
  assumes "xdr_u_int xs s = Ret (True, c, xs1)" "x_op xs1 = XDR_DECODE" "c \<le> mx" "c \<noteq> 0" "unat (c * elsize) div unat elsize = unat c"
    "xdr_array_loop (\<lambda>_. proc) c 0 (xs1\<lparr>x_kmem := x_kmem xs1 + unat (c * elsize)\<rparr>) (replicate (unat c) zero) = Ret (b, es, xs2)"
    "x_op xs2 = XDR_DECODE"
  shows "xdr_array mx elsize zero (\<lambda>_. proc) xs (None, s) = Ret (b, (Some es, c), xs2)"
  using assms(3) by (simp add: xdr_array_def assms Let_def not_less [symmetric] del: not_less)

text \<open>
  A block that has room for fewer elements than the count says and the message carries is overrun;
  the loop fills a block with room for all of them.
\<close>

lemma array_overrun:
  assumes g: "good xs" "x_op xs = XDR_DECODE" and l: "left xs = enc32 c @ concat (map enc es) @ r"
    and ok: "\<forall>e\<in>set es. ok e" "ini zero" and c: "c \<le> mx" "length es \<le> unat c"
    and n: "unat (c * elsize) div unat elsize < length es"
  shows "\<exists>xs1. xdr_u_int xs s = Ret (True, c, xs1) \<and> xdr_array mx elsize zero (\<lambda>_. proc) xs (None, s) = Fault \<and>
    (\<exists>b es' xs'. xdr_array_loop (\<lambda>_. proc) c 0 xs1 (replicate (unat c) zero) = Ret (b, es @ es', xs'))"
proof -
  obtain xs1 where 1: "xdr_u_int xs s = Ret (True, c, xs1)" "moved xs (enc32 c) xs1"
    using u_int_decode [OF g, of s] l by (auto simp: dec_enc32)
  note g1 = moved_good [OF g(1) 1(2)]
  have op1: "x_op xs1 = XDR_DECODE" using moved_op [OF 1(2)] g(2) by simp
  have left1: "left xs1 = concat (map enc es) @ r" using moved_left [OF 1(2)] l by simp
  let ?n = "unat (c * elsize) div unat elsize"
  define ys where "ys = xs1\<lparr>x_kmem := x_kmem xs1 + unat (c * elsize)\<rparr>"
  have y: "good ys" "x_op ys = XDR_DECODE" "left ys = concat (map enc (take ?n es)) @ (concat (map enc (drop ?n es)) @ r)"
    using g1 op1 left1 by (simp_all add: ys_def good_def left_def flip: append_assoc map_append concat_append)
  have len: "length (take ?n es) = ?n" using n by simp
  have nc: "of_nat ?n < c" using n c(2) unat_bound [of c] by (simp add: word_less_nat_alt unat_of_nat_small)
  have "\<exists>xs'. xdr_array_loop (\<lambda>_. proc) c 0 ys (replicate ?n zero) =
      kbind (xdr_array_loop (\<lambda>_. proc) c (0 + of_nat (length (take ?n es))) xs' (drop (length (take ?n es)) (replicate ?n zero)))
        (\<lambda>(b, es', xs). Ret (b, take ?n es @ es', xs)) \<and> moved ys (concat (map enc (take ?n es))) xs'"
    by (rule loop_prefix [OF y(1,2) _ _ _ _ y(3)]) (use ok n c(2) in \<open>auto dest: in_set_takeD\<close>)
  then have "xdr_array_loop (\<lambda>_. proc) c 0 ys (replicate ?n zero) = Fault" unfolding len using nc by auto
  moreover have "c \<noteq> 0" using nc by auto
  ultimately have "xdr_array mx elsize zero (\<lambda>_. proc) xs (None, s) = Fault"
    using 1(1) op1 c(1) by (simp add: xdr_array_def Let_def ys_def not_less [symmetric] del: not_less)
  moreover obtain xs2 where 2: "xdr_array_loop (\<lambda>_. proc) c 0 xs1 (replicate (unat c) zero) =
      kbind (xdr_array_loop (\<lambda>_. proc) c (0 + of_nat (length es)) xs2 (drop (length es) (replicate (unat c) zero)))
        (\<lambda>(b, es', xs). Ret (b, es @ es', xs))" "moved xs1 (concat (map enc es)) xs2"
    using loop_prefix [OF g1 op1 ok(1) _ _ _ left1, of 0 c "replicate (unat c) zero"] ok(2) c(2) by auto
  moreover have "whole (concat (map enc es))" using ok(1) by (induction es) (simp_all add: whole_append unit)
  then have "\<exists>b es' xs'. xdr_array_loop (\<lambda>_. proc) c (of_nat (length es)) xs2 (replicate (unat c - length es) zero) = Ret (b, es', xs')"
    using loop_any [OF moved_good [OF g1 2(2)], of "of_nat (length es)" "replicate (unat c - length es) zero" c] moved_op [OF 2(2)] op1 ok(2) c(2)
      unat_bound [of c] by (auto simp: unat_of_nat_small)
  ultimately show ?thesis using 1(1) by auto
qed

text \<open>The size of the block does not wrap when the largest array has fewer than $2^{32}$ bytes.\<close>

lemma array_codec:
  assumes z: "ini zero" and mx: "unat mx * unat elsize < 4294967296" and el: "elsize \<noteq> 0"
  shows "xdr_codec ops wf behind ahead (xdr_array mx elsize zero (\<lambda>_. proc)) (enc_array enc) (ok_array mx ok) ini_array (held_array mx elsize held)"
proof -
  have size: "unat (c * elsize) = unat c * unat elsize" "unat (c * elsize) div unat elsize = unat c" if "c \<le> mx" for c
  proof -
    have "unat c * unat elsize \<le> unat mx * unat elsize" using that by (intro mult_le_mono1) (simp add: word_le_nat_alt)
    then have "unat c * unat elsize < 4294967296" using mx by linarith
    then show "unat (c * elsize) = unat c * unat elsize" by (intro unat_mult_nowrap) simp
    then show "unat (c * elsize) div unat elsize = unat c" using el by (simp add: unat_eq_zero)
  qed
  show ?thesis
  proof
    fix xs :: "'a XDR" and v
    show "whole (enc_array enc v)" if "ok_array mx ok v"
    proof -
      have "whole (concat (map enc es))" if "\<forall>e\<in>set es. ok e" for es using that by (induction es) (simp_all add: whole_append unit)
      then show ?thesis using that by (auto simp: enc_array_def ok_array_def whole_append)
    qed
    assume a: "good xs" "x_op xs = XDR_ENCODE" "ok_array mx ok v"
    obtain p c where v: "v = (p, c)" by (cases v)
    let ?es = "case p of None \<Rightarrow> [] | Some es \<Rightarrow> es"
    have c: "c \<le> mx" "length ?es = unat c" "\<forall>e\<in>set ?es. ok e" "map_option (\<lambda>_. ?es) p = p"
      using a(3) by (auto simp: ok_array_def v)
    show "\<exists>xs'. xdr_array mx elsize zero (\<lambda>_. proc) xs v = Ret (True, v, xs') \<and> moved xs (enc_array enc v) xs' \<and> x_kmem xs' = x_kmem xs"
      if fit: "length (enc_array enc v) \<le> length (left xs)"
    proof -
      obtain xs1 where 1: "xdr_u_int xs c = Ret (True, c, xs1)" "moved xs (enc32 c) xs1" "x_kmem xs1 = x_kmem xs"
        using u_int_encode [OF a(1,2), of c] fit by (auto simp: enc_array_def v)
      have op1: "x_op xs1 = XDR_ENCODE" using moved_op [OF 1(2)] a(2) by simp
      have "length (concat (map enc ?es)) \<le> length (left xs1)" using moved_left [OF 1(2)] fit by (simp add: enc_array_def v del: length_concat)
      then obtain xs2 where 2: "xdr_array_loop (\<lambda>_. proc) c 0 xs1 ?es = Ret (True, ?es, xs2)" "moved xs1 (concat (map enc ?es)) xs2" "x_kmem xs2 = x_kmem xs1"
        using loop_encode [OF moved_good [OF a(1) 1(2)] op1 c(3), of 0 c] c(2) by (auto simp del: length_concat)
      have "x_op xs2 \<noteq> XDR_FREE" using moved_op [OF 2(2)] op1 by simp
      then show ?thesis using 1 2 op1 c(1,4) moved_trans [OF 1(2) 2(2)]
        by (simp add: xdr_array_def v enc_array_def not_less [symmetric])
    qed
    show "\<exists>v' xs'. xdr_array mx elsize zero (\<lambda>_. proc) xs v = Ret (False, v', xs') \<and> x_op xs' = XDR_ENCODE"
      if full: "\<not> length (enc_array enc v) \<le> length (left xs)"
    proof (cases "4 \<le> length (left xs)")
      case False
      then obtain xs1 where "xdr_u_int xs c = Ret (False, c, xs1)" "x_op xs1 = XDR_ENCODE" using u_int_encode [OF a(1,2), of c] by auto
      then show ?thesis by (simp add: xdr_array_def v)
    next
      case True
      then obtain xs1 where 1: "xdr_u_int xs c = Ret (True, c, xs1)" "moved xs (enc32 c) xs1" using u_int_encode [OF a(1,2), of c] by auto
      have op1: "x_op xs1 = XDR_ENCODE" using moved_op [OF 1(2)] a(2) by simp
      have "\<not> length (concat (map enc ?es)) \<le> length (left xs1)" using moved_left [OF 1(2)] full True by (simp add: enc_array_def v del: length_concat)
      then obtain es' xs2 where "xdr_array_loop (\<lambda>_. proc) c 0 xs1 ?es = Ret (False, es', xs2)" "x_op xs2 = XDR_ENCODE"
        using loop_encode [OF moved_good [OF a(1) 1(2)] op1 c(3), of 0 c] c(2) by (auto simp del: length_concat)
      then show ?thesis using 1 op1 c(1) by (simp add: xdr_array_def v not_less [symmetric])
    qed
  next
    fix xs :: "'a XDR" and v r and d :: "'b list option \<times> ulong"
    assume a: "good xs" "x_op xs = XDR_DECODE" "ok_array mx ok v" "ini_array d" "left xs = enc_array enc v @ r"
    obtain p c where v: "v = (p, c)" by (cases v)
    obtain s where d: "d = (None, s)" using a(4) by (cases d) simp
    have c: "c \<le> mx" using a(3) by (simp add: ok_array_def v)
    obtain xs1 where 1: "xdr_u_int xs s = Ret (True, c, xs1)" "moved xs (enc32 c) xs1" "x_kmem xs1 = x_kmem xs"
      using u_int_decode [OF a(1,2), of s] by (auto simp: a(5) enc_array_def v dec_enc32)
    have op1: "x_op xs1 = XDR_DECODE" using moved_op [OF 1(2)] a(2) by simp
    note g1 = moved_good [OF a(1) 1(2)]
    show "\<exists>xs'. xdr_array mx elsize zero (\<lambda>_. proc) xs d = Ret (True, v, xs') \<and> moved xs (enc_array enc v) xs' \<and>
        held_array mx elsize held v = Some (x_kmem xs' - x_kmem xs) \<and> x_kmem xs \<le> x_kmem xs'"
    proof (cases "c = 0")
      case True
      then have "p = None" using a(3) by (auto simp: ok_array_def v)
      then show ?thesis using True 1 op1 c by (simp add: xdr_array_def d v enc_array_def held_array_def)
    next
      case False
      then obtain es where p: "p = Some es" "length es = unat c" "\<forall>e\<in>set es. ok e" using a(3) by (auto simp: ok_array_def v)
      define ys where "ys = xs1\<lparr>x_kmem := x_kmem xs1 + unat (c * elsize)\<rparr>"
      have y: "good ys" "x_op ys = XDR_DECODE" "left ys = concat (map enc es) @ r" "x_kmem ys = x_kmem xs + unat c * unat elsize"
        using g1 op1 moved_left [OF 1(2)] 1(3) size(1) [OF c] by (simp_all add: ys_def a(5) enc_array_def v p(1))
      obtain xs2 where 2: "xdr_array_loop (\<lambda>_. proc) c 0 ys (replicate (unat c) zero) = Ret (True, es, xs2)" "moved ys (concat (map enc es)) xs2"
        "held_list held es = Some (x_kmem xs2 - x_kmem ys)" "x_kmem ys \<le> x_kmem xs2"
        using loop_decode [OF y(1,2) p(3), of 0 c "replicate (unat c) zero" r] p(2) z y(3) by auto
      have "x_op xs2 = XDR_DECODE" using moved_op [OF 2(2)] y(2) by simp
      moreover have "moved xs1 (concat (map enc es)) xs2" using 2(2) by (simp add: ys_def)
      ultimately show ?thesis
        using array_fresh [OF 1(1) op1 c False size(2) [OF c] 2(1) [unfolded ys_def]] 2(3,4) moved_trans [OF 1(2)] y(4) p(2) c
        by (simp add: d v p(1) enc_array_def held_array_def)
    qed
  next
    fix xs :: "'a XDR" and d :: "'b list option \<times> ulong"
    assume a: "good xs" "x_op xs = XDR_DECODE" "ini_array d"
    obtain s where d: "d = (None, s)" using a(3) by (cases d) simp
    show "\<exists>b v xs'. xdr_array mx elsize zero (\<lambda>_. proc) xs d = Ret (b, v, xs') \<and> x_op xs' = XDR_DECODE \<and> x_kmem xs \<le> x_kmem xs' \<and>
        held_array mx elsize held v = Some (x_kmem xs' - x_kmem xs) \<and> (b \<longrightarrow> ok_array mx ok v \<and> (\<exists>bs. moved xs bs xs' \<and> whole bs))"
    proof (cases "4 \<le> length (left xs)")
      case False
      then obtain xs1 where "xdr_u_int xs s = Ret (False, s, xs1)" "x_op xs1 = XDR_DECODE" "x_kmem xs1 = x_kmem xs"
        using u_int_decode [OF a(1,2), of s] by auto
      then have "xdr_array mx elsize zero (\<lambda>_. proc) xs d = Ret (False, (None, s), xs1)" by (simp add: xdr_array_def d)
      then show ?thesis using \<open>x_op xs1 = _\<close> \<open>x_kmem xs1 = _\<close> by (auto simp: held_array_def)
    next
      case True
      define c where "c = dec32 (left xs)"
      obtain xs1 where 1: "xdr_u_int xs s = Ret (True, c, xs1)" "moved xs (take 4 (left xs)) xs1" "x_kmem xs1 = x_kmem xs"
        using u_int_decode [OF a(1,2), of s] True by (auto simp: c_def)
      have op1: "x_op xs1 = XDR_DECODE" using moved_op [OF 1(2)] a(2) by simp
      note w = whole_take4 [OF True]
      consider "c > mx" | "c \<le> mx" "c = 0" | "c \<le> mx" "c \<noteq> 0" by force
      then show ?thesis
      proof cases
        case 1
        then have "xdr_array mx elsize zero (\<lambda>_. proc) xs d = Ret (False, (None, c), xs1)"
          using \<open>xdr_u_int xs s = _\<close> op1 by (simp add: xdr_array_def d)
        then show ?thesis using op1 \<open>x_kmem xs1 = _\<close> by (auto simp: held_array_def)
      next
        case 2
        then have "xdr_array mx elsize zero (\<lambda>_. proc) xs d = Ret (True, (None, 0), xs1)"
          using 1 op1 by (simp add: xdr_array_def d)
        then show ?thesis using 1 op1 w by (auto simp: held_array_def ok_array_def)
      next
        case 3
        define ys where "ys = xs1\<lparr>x_kmem := x_kmem xs1 + unat (c * elsize)\<rparr>"
        have y: "good ys" "x_op ys = XDR_DECODE" "x_kmem ys = x_kmem xs + unat c * unat elsize"
          using moved_good [OF a(1) 1(2) w] op1 1(3) size(1) [OF 3(1)] by (simp_all add: ys_def)
        obtain b es xs2 where 2: "xdr_array_loop (\<lambda>_. proc) c 0 ys (replicate (unat c) zero) = Ret (b, es, xs2)" "x_op xs2 = XDR_DECODE"
          "length es = unat c" "x_kmem ys \<le> x_kmem xs2" "held_list held es = Some (x_kmem xs2 - x_kmem ys)"
          "b \<longrightarrow> (\<forall>e\<in>set es. ok e) \<and> (\<exists>bs. moved ys bs xs2 \<and> whole bs)"
          using loop_any [OF y(1,2), of 0 "replicate (unat c) zero" c] z by auto
        have e: "xdr_array mx elsize zero (\<lambda>_. proc) xs d = Ret (b, (Some es, c), xs2)"
          unfolding d by (rule array_fresh [OF 1(1) op1 3 size(2) [OF 3(1)] 2(1) [unfolded ys_def] 2(2)])
        have "\<exists>bs. moved xs bs xs2 \<and> whole bs" if b
          using 2(6) that moved_trans [OF 1(2)] whole_append [OF w] by (metis kmem_upd(3) ys_def)
        moreover have "es \<noteq> []" using 2(3) 3(2) by (auto simp: unat_eq_zero)
        ultimately show ?thesis using e 2 3(1) y(3) by (simp add: held_array_def ok_array_def)
      qed
    qed
  next
    fix xs :: "'a XDR" and v m
    assume a: "x_op xs = XDR_FREE" "held_array mx elsize held v = Some m" "m \<le> x_kmem xs"
    obtain p c where v: "v = (p, c)" by (cases v)
    show "\<exists>v' xs'. xdr_array mx elsize zero (\<lambda>_. proc) xs v = Ret (True, v', xs') \<and> x_op xs' = XDR_FREE \<and> x_kmem xs' = x_kmem xs - m"
    proof (cases p)
      case None
      then show ?thesis using a by (simp add: xdr_array_def v u_int_free held_array_def)
    next
      case (Some es)
      then obtain k where k: "held_list held es = Some k" "m = unat c * unat elsize + k" "length es = unat c" "c \<le> mx"
        using a(2) by (auto simp: held_array_def v split: if_splits)
      obtain es' xs' where "xdr_array_loop (\<lambda>_. proc) c 0 xs es = Ret (True, es', xs')" "length es' = unat c" "x_op xs' = XDR_FREE"
        "x_kmem xs' = x_kmem xs - k" using loop_free [OF a(1), of 0 es c k] k a(3) by auto
      moreover have "\<not> x_kmem xs - k < unat c * unat elsize" "x_kmem xs - (k + unat c * unat elsize) = x_kmem xs - m"
        using a(3) k(2) by linarith+
      ultimately show ?thesis using a(1) Some size(1) [OF k(4)] by (simp add: xdr_array_def v u_int_free kmem_free_def)
    qed
  qed (simp add: held_array_def)
qed

end

text \<open>A pointer is encoded as a flag and, if it is not null, the object.\<close>

definition enc_pointer :: "('b \<Rightarrow> byte list) \<Rightarrow> 'b option \<Rightarrow> byte list" where
  "enc_pointer en p = (case p of None \<Rightarrow> enc32 XDR_FALSE | Some v \<Rightarrow> enc32 XDR_TRUE @ en v)"

definition held_pointer :: "ulong \<Rightarrow> ('b \<Rightarrow> nat option) \<Rightarrow> 'b option \<Rightarrow> nat option" where
  "held_pointer sz h p = (case p of None \<Rightarrow> Some 0 | Some v \<Rightarrow> map_option ((+) (unat sz)) (h v))"

context xdr_stream
begin

lemma bool_decode:
  assumes "good xs" "x_op xs = XDR_DECODE"
  shows "if 4 \<le> length (left xs)
    then \<exists>xs'. xdr_bool xs d = Ret (True, if dec32 (left xs) = 0 then 0 else 1, xs') \<and> moved xs (take 4 (left xs)) xs' \<and> x_kmem xs' = x_kmem xs
    else \<exists>xs'. xdr_bool xs d = Ret (False, d, xs') \<and> x_op xs' = XDR_DECODE \<and> x_kmem xs' = x_kmem xs"
proof (cases "4 \<le> length (left xs)")
  case True
  obtain xs' where "XDR_GETLONG xs = Ret (Some (dec32 (left xs)), xs')" "moved xs (take 4 (left xs)) xs'" "x_kmem xs' = x_kmem xs"
    using GETLONG [OF assms(1) True] by blast
  then show ?thesis using True assms(2) by (simp add: xdr_bool_def XDR_FALSE_def)
next
  case False
  obtain xs' where "XDR_GETLONG xs = Ret (None, xs')" "x_op xs' = x_op xs" "x_kmem xs' = x_kmem xs"
    using GETLONG_end [OF assms(1) False] by blast
  then show ?thesis using False assms(2) by (simp add: xdr_bool_def)
qed

end

context xdr_codec
begin

lemma pointer_codec:
  assumes z: "ini zero"
  shows "xdr_codec ops wf behind ahead (xdr_pointer sz zero (\<lambda>_. proc)) (enc_pointer enc) (\<lambda>p. \<forall>v\<in>set_option p. ok v)
    (\<lambda>p. p = None) (held_pointer sz held)"
proof
  fix xs :: "'a XDR" and p
  show "whole (enc_pointer enc p)" if "\<forall>v\<in>set_option p. ok v"
    using that unit by (auto simp: enc_pointer_def whole_append split: option.split)
  assume a: "good xs" "x_op xs = XDR_ENCODE" "\<forall>v\<in>set_option p. ok v"
  let ?f = "if p \<noteq> None then 1 else 0 :: int32"
  let ?w = "if ?f \<noteq> 0 then XDR_TRUE else XDR_FALSE"
  show "\<exists>xs'. xdr_pointer sz zero (\<lambda>_. proc) xs p = Ret (True, p, xs') \<and> moved xs (enc_pointer enc p) xs' \<and> x_kmem xs' = x_kmem xs"
    if fit: "length (enc_pointer enc p) \<le> length (left xs)"
  proof -
    obtain xs1 where 1: "XDR_PUTLONG xs ?w = Ret (True, xs1)" "moved xs (enc32 ?w) xs1" "x_kmem xs1 = x_kmem xs"
      using PUTLONG [OF a(1), of ?w] fit by (auto simp: enc_pointer_def split: option.splits)
    show ?thesis
    proof (cases p)
      case None
      then show ?thesis using 1 a(2) by (simp add: xdr_pointer_def xdr_bool_def enc_pointer_def)
    next
      case (Some v)
      have op1: "x_op xs1 = XDR_ENCODE" using moved_op [OF 1(2)] a(2) by simp
      have "length (enc v) \<le> length (left xs1)" using moved_left [OF 1(2)] fit Some by (simp add: enc_pointer_def)
      then obtain xs2 where 2: "proc xs1 v = Ret (True, v, xs2)" "moved xs1 (enc v) xs2" "x_kmem xs2 = x_kmem xs1"
        using encode [OF moved_good [OF a(1) 1(2)] op1, of v] a(3) Some by auto
      have "x_op xs2 = XDR_ENCODE" using moved_op [OF 2(2)] op1 by simp
      then show ?thesis using 1 2 a(2) op1 Some moved_trans [OF 1(2) 2(2)]
        by (simp add: xdr_pointer_def xdr_bool_def xdr_reference_def enc_pointer_def)
    qed
  qed
  show "\<exists>p' xs'. xdr_pointer sz zero (\<lambda>_. proc) xs p = Ret (False, p', xs') \<and> x_op xs' = XDR_ENCODE"
    if full: "\<not> length (enc_pointer enc p) \<le> length (left xs)"
  proof (cases "4 \<le> length (left xs)")
    case False
    then obtain xs1 where "XDR_PUTLONG xs ?w = Ret (False, xs1)" "x_op xs1 = x_op xs" using PUTLONG_end [OF a(1), of ?w] by blast
    then show ?thesis using a(2) by (simp add: xdr_pointer_def xdr_bool_def)
  next
    case True
    then obtain v where p: "p = Some v" using full by (cases p) (simp_all add: enc_pointer_def)
    obtain xs1 where 1: "XDR_PUTLONG xs ?w = Ret (True, xs1)" "moved xs (enc32 ?w) xs1" using PUTLONG [OF a(1) True, of ?w] by blast
    have op1: "x_op xs1 = XDR_ENCODE" using moved_op [OF 1(2)] a(2) by simp
    have "\<not> length (enc v) \<le> length (left xs1)" using moved_left [OF 1(2)] full True p by (simp add: enc_pointer_def)
    then obtain v' xs2 where "proc xs1 v = Ret (False, v', xs2)" "x_op xs2 = XDR_ENCODE"
      using encode_full [OF moved_good [OF a(1) 1(2)] op1, of v] a(3) p by auto
    then show ?thesis using 1 a(2) op1 p by (simp add: xdr_pointer_def xdr_bool_def xdr_reference_def)
  qed
next
  fix xs :: "'a XDR" and v r and d :: "'b option"
  assume a: "good xs" "x_op xs = XDR_DECODE" "\<forall>w\<in>set_option v. ok w" "d = None" "left xs = enc_pointer enc v @ r"
  have l: "4 \<le> length (left xs)" "dec32 (left xs) = (if v = None then 0 else 1)"
    "take 4 (left xs) = enc32 (if v = None then XDR_FALSE else XDR_TRUE)"
    using a(5) by (auto simp: enc_pointer_def dec_enc32 XDR_FALSE_def XDR_TRUE_def split: option.splits)
  then obtain xs1 where 1: "xdr_bool xs 0 = Ret (True, if v = None then 0 else 1, xs1)"
    "moved xs (enc32 (if v = None then XDR_FALSE else XDR_TRUE)) xs1" "x_kmem xs1 = x_kmem xs"
    using bool_decode [OF a(1,2), of 0] by auto
  have op1: "x_op xs1 = XDR_DECODE" using moved_op [OF 1(2)] a(2) by simp
  show "\<exists>xs'. xdr_pointer sz zero (\<lambda>_. proc) xs d = Ret (True, v, xs') \<and> moved xs (enc_pointer enc v) xs' \<and>
      held_pointer sz held v = Some (x_kmem xs' - x_kmem xs) \<and> x_kmem xs \<le> x_kmem xs'"
  proof (cases v)
    case None
    then show ?thesis using 1 a(4) by (simp add: xdr_pointer_def enc_pointer_def held_pointer_def)
  next
    case (Some w)
    define ys where "ys = xs1\<lparr>x_kmem := x_kmem xs1 + unat sz\<rparr>"
    have y: "good ys" "x_op ys = XDR_DECODE" "left ys = enc w @ r" "x_kmem ys = x_kmem xs + unat sz"
      using moved_good [OF a(1) 1(2)] op1 moved_left [OF 1(2)] 1(3) a(5) Some by (simp_all add: ys_def enc_pointer_def)
    obtain xs2 where 2: "proc ys zero = Ret (True, w, xs2)" "moved ys (enc w) xs2" "held w = Some (x_kmem xs2 - x_kmem ys)" "x_kmem ys \<le> x_kmem xs2"
      using decode [OF y(1,2) _ z y(3)] a(3) Some by auto
    have "x_op xs2 = XDR_DECODE" "moved xs1 (enc w) xs2" using moved_op [OF 2(2)] y(2) 2(2) by (simp_all add: ys_def)
    moreover have "xdr_pointer sz zero (\<lambda>_. proc) xs d = xdr_reference sz zero (\<lambda>_. proc) xs1 None" using 1(1) a(4) Some by (simp add: xdr_pointer_def)
    moreover have "xdr_reference sz zero (\<lambda>_. proc) xs1 None = Ret (True, Some w, xs2)"
      using op1 2(1) calculation(1) by (simp add: xdr_reference_def flip: ys_def)
    ultimately show ?thesis using 1(2) 2(3,4) moved_trans [OF 1(2)] y(4) Some by (simp add: enc_pointer_def held_pointer_def)
  qed
next
  fix xs :: "'a XDR" and d :: "'b option"
  assume a: "good xs" "x_op xs = XDR_DECODE" "d = None"
  show "\<exists>b v xs'. xdr_pointer sz zero (\<lambda>_. proc) xs d = Ret (b, v, xs') \<and> x_op xs' = XDR_DECODE \<and> x_kmem xs \<le> x_kmem xs' \<and>
      held_pointer sz held v = Some (x_kmem xs' - x_kmem xs) \<and> (b \<longrightarrow> (\<forall>w\<in>set_option v. ok w) \<and> (\<exists>bs. moved xs bs xs' \<and> whole bs))"
  proof (cases "4 \<le> length (left xs)")
    case False
    then obtain xs1 where "xdr_bool xs 0 = Ret (False, 0, xs1)" "x_op xs1 = XDR_DECODE" "x_kmem xs1 = x_kmem xs"
      using bool_decode [OF a(1,2), of 0] by auto
    then have "xdr_pointer sz zero (\<lambda>_. proc) xs d = Ret (False, None, xs1)" by (simp add: xdr_pointer_def a(3))
    then show ?thesis using \<open>x_op xs1 = _\<close> \<open>x_kmem xs1 = _\<close> by (auto simp: held_pointer_def)
  next
    case True
    then obtain xs1 where 1: "xdr_bool xs 0 = Ret (True, if dec32 (left xs) = 0 then 0 else 1, xs1)"
      "moved xs (take 4 (left xs)) xs1" "x_kmem xs1 = x_kmem xs" using bool_decode [OF a(1,2), of 0] by auto
    have op1: "x_op xs1 = XDR_DECODE" using moved_op [OF 1(2)] a(2) by simp
    note w = whole_take4 [OF True]
    show ?thesis
    proof (cases "dec32 (left xs) = 0")
      case True
      then have "xdr_pointer sz zero (\<lambda>_. proc) xs d = Ret (True, None, xs1)" using 1(1) by (simp add: xdr_pointer_def a(3))
      then show ?thesis using op1 1 w by (auto simp: held_pointer_def)
    next
      case False
      define ys where "ys = xs1\<lparr>x_kmem := x_kmem xs1 + unat sz\<rparr>"
      have y: "good ys" "x_op ys = XDR_DECODE" "x_kmem ys = x_kmem xs + unat sz"
        using moved_good [OF a(1) 1(2) w] op1 1(3) by (simp_all add: ys_def)
      obtain b v xs2 where 2: "proc ys zero = Ret (b, v, xs2)" "x_op xs2 = XDR_DECODE" "x_kmem ys \<le> x_kmem xs2"
        "held v = Some (x_kmem xs2 - x_kmem ys)" "b \<longrightarrow> ok v \<and> (\<exists>bs. moved ys bs xs2 \<and> whole bs)"
        using decode_any [OF y(1,2) z] by blast
      have "xdr_pointer sz zero (\<lambda>_. proc) xs d = xdr_reference sz zero (\<lambda>_. proc) xs1 None" using 1(1) a(3) False by (simp add: xdr_pointer_def)
      also have "\<dots> = Ret (b, Some v, xs2)" using op1 2(1,2) by (simp add: xdr_reference_def flip: ys_def)
      finally have e: "xdr_pointer sz zero (\<lambda>_. proc) xs d = Ret (b, Some v, xs2)" .
      have "\<exists>bs. moved xs bs xs2 \<and> whole bs" if b
        using 2(5) that moved_trans [OF 1(2)] whole_append [OF w] by (metis kmem_upd(3) ys_def)
      then show ?thesis using e 2 y(3) by (simp add: held_pointer_def)
    qed
  qed
next
  fix xs :: "'a XDR" and v m
  assume a: "x_op xs = XDR_FREE" "held_pointer sz held v = Some m" "m \<le> x_kmem xs"
  show "\<exists>v' xs'. xdr_pointer sz zero (\<lambda>_. proc) xs v = Ret (True, v', xs') \<and> x_op xs' = XDR_FREE \<and> x_kmem xs' = x_kmem xs - m"
  proof (cases v)
    case None
    then show ?thesis using a by (simp add: xdr_pointer_def xdr_bool_def held_pointer_def)
  next
    case (Some w)
    then obtain k where k: "held w = Some k" "m = unat sz + k" using a(2) by (auto simp: held_pointer_def)
    have "k \<le> x_kmem xs" using a(3) k(2) by linarith
    then obtain w' xs' where "proc xs w = Ret (True, w', xs')" "x_op xs' = XDR_FREE" "x_kmem xs' = x_kmem xs - k"
      using free [OF a(1) k(1)] by blast
    moreover have "\<not> x_kmem xs - k < unat sz" "x_kmem xs - (k + unat sz) = x_kmem xs - m" using a(3) k(2) by linarith+
    ultimately show ?thesis using a(1) Some by (simp add: xdr_pointer_def xdr_bool_def xdr_reference_def kmem_free_def)
  qed
qed (simp add: held_pointer_def)

end

end
