(* ===== verification/Xdr_Mem.thy ===== *)
theory Xdr_Mem
  imports Xdr_Filters
begin

text \<open>
  Memory streams keep the contract of a stream: what lies behind the position is the buffer up to
  \<open>x_private\<close>, what lies ahead are the \<open>x_handy\<close> bytes from there. The filters then keep theirs on
  memory streams, and what one memory stream encodes another one decodes.
\<close>

section \<open>The contract\<close>

definition mem_off :: "mem_stream \<Rightarrow> nat" where
  "mem_off s = unat (x_private s - x_base s)"

definition mem_wf :: "mem_stream \<Rightarrow> bool" where
  "mem_wf s \<longleftrightarrow> 0 \<le> sint (x_handy s) \<and> mem_off s + unat (x_handy s) = length (x_mem s) \<and>
     length (x_mem s) < 2147483648 \<and> aligned (x_base s)"

definition mem_behind :: "mem_stream \<Rightarrow> byte list" where
  "mem_behind s = take (mem_off s) (x_mem s)"

definition mem_ahead :: "mem_stream \<Rightarrow> byte list" where
  "mem_ahead s = drop (mem_off s) (x_mem s)"

lemma aligned_bits: "aligned a \<longleftrightarrow> take_bit 2 a = 0"
  by (simp add: aligned_def take_bit_eq_mask mask_eq_exp_minus_1)

lemma aligned_iff: "aligned a \<longleftrightarrow> 4 dvd unat a"
proof -
  have "unat (take_bit 2 a) = unat a mod 4" by (simp add: unsigned_take_bit_eq take_bit_eq_mod unat_mod)
  then have "take_bit 2 a = 0 \<longleftrightarrow> unat a mod 4 = 0" by (metis unat_eq_zero)
  then show ?thesis unfolding aligned_bits dvd_eq_mod_eq_0 .
qed

lemma aligned_add: "aligned a \<Longrightarrow> aligned b \<Longrightarrow> aligned (a + b)"
  unfolding aligned_iff unat_word_ariths(1) by (intro dvd_mod dvd_add) simp_all

lemma aligned_private:
  assumes "mem_wf s" "whole (mem_behind s)"
  shows "aligned (x_private s)"
proof -
  have "length (mem_behind s) = mem_off s" using assms(1) by (simp add: mem_behind_def mem_wf_def)
  then have "aligned (x_private s - x_base s)" using assms(2) by (simp add: whole_def aligned_iff mem_off_def)
  then show ?thesis using aligned_add [of "x_private s - x_base s" "x_base s"] assms(1) by (simp add: mem_wf_def)
qed

text \<open>What is left of \<open>x_handy\<close> after \<open>n\<close> bytes, or that it is used up.\<close>

lemma handy_left:
  assumes "mem_wf s" "unat n < 2147483648"
  shows "sint (x_handy s - n) < 0 \<longleftrightarrow> length (mem_ahead s) < unat n"
    and "unat n \<le> length (mem_ahead s) \<Longrightarrow> unat (x_handy s - n) = length (mem_ahead s) - unat n"
proof -
  have h: "unat (x_handy s) = length (mem_ahead s)" "unat (x_handy s) < 2147483648"
    using assms(1) by (auto simp: mem_wf_def mem_ahead_def)
  have i: "sint (x_handy s) = int (unat (x_handy s))" "sint n = int (unat n)"
    by (rule sint_small32 [OF h(2)], rule sint_small32 [OF assms(2)])
  show "unat (x_handy s - n) = length (mem_ahead s) - unat n" if "unat n \<le> length (mem_ahead s)"
    using that h(1) by (simp add: unat_sub_nowrap)
  show "sint (x_handy s - n) < 0 \<longleftrightarrow> length (mem_ahead s) < unat n"
  proof (cases "length (mem_ahead s) < unat n")
    case True
    have "- 2147483648 \<le> sint (x_handy s) - sint n" "sint (x_handy s) - sint n < 2147483648"
      using i h(2) assms(2) by linarith+
    then have "signed_take_bit 31 (sint (x_handy s) - sint n) = sint (x_handy s) - sint n"
      by (intro signed_take_bit_int_eq_self) simp_all
    then have "sint (x_handy s - n) = sint (x_handy s) - sint n" by (simp add: sint_word_ariths)
    then have "sint (x_handy s - n) < 0" using True i h(1) by linarith
    then show ?thesis using True by simp
  next
    case False
    then have "unat (x_handy s - n) < 2147483648" using h by (simp add: unat_sub_nowrap)
    then have "sint (x_handy s - n) = int (unat (x_handy s - n))" by (rule sint_small32)
    then show ?thesis using False by simp
  qed
qed

lemma off_moved:
  assumes "mem_wf s" "unat n \<le> length (mem_ahead s)"
  shows "unat (x_private s + n - x_base s) = mem_off s + unat n"
proof -
  have "mem_off s + unat n < 4294967296" using assms by (auto simp: mem_wf_def mem_ahead_def)
  then have "unat ((x_private s - x_base s) + n) = mem_off s + unat n" by (simp add: unat_add_nowrap mem_off_def)
  moreover have "x_private s + n - x_base s = (x_private s - x_base s) + n" by simp
  ultimately show ?thesis by (simp only:)
qed

text \<open>A position moved over \<open>n\<close> bytes that now read \<open>bs\<close>.\<close>

lemma mem_moved:
  assumes wf: "mem_wf s" and n: "unat n < 2147483648" "unat n \<le> length (mem_ahead s)" "length bs = unat n"
    and s': "s' = s\<lparr>x_handy := x_handy s - n, x_private := x_private s + n, x_mem := mem_behind s @ bs @ drop (unat n) (mem_ahead s)\<rparr>"
  shows "mem_wf s'" "mem_behind s' = mem_behind s @ bs" "mem_ahead s' = drop (unat n) (mem_ahead s)"
proof -
  have o: "mem_off s' = mem_off s + unat n" using off_moved [OF wf n(2)] by (simp add: s' mem_off_def)
  have b: "length (mem_behind s) = mem_off s" "mem_off s + length (mem_ahead s) = length (x_mem s)"
    using wf by (auto simp: mem_wf_def mem_behind_def mem_ahead_def)
  show "mem_behind s' = mem_behind s @ bs" "mem_ahead s' = drop (unat n) (mem_ahead s)"
    unfolding mem_behind_def [of s'] mem_ahead_def [of s'] o using n(3) b(1) by (simp_all add: s')
  have "0 \<le> sint (x_handy s - n)" using handy_left(1) [OF wf n(1)] n(2) by simp
  then show "mem_wf s'" unfolding mem_wf_def o
    using wf handy_left(2) [OF wf n(1,2)] b n(2,3) by (simp add: s' mem_wf_def)
qed

lemma mem_read_ahead:
  assumes "mem_wf s" "n \<le> length (mem_ahead s)" "x_private s1 = x_private s" "x_base s1 = x_base s" "x_mem s1 = x_mem s"
  shows "mem_read s1 (x_private s) n = Ret (take n (mem_ahead s))"
  using assms by (auto simp: mem_read_def mem_off_def mem_ahead_def mem_wf_def Let_def)

lemma mem_write_ahead:
  assumes "mem_wf s" "length bs \<le> length (mem_ahead s)" "x_private s1 = x_private s" "x_base s1 = x_base s" "x_mem s1 = x_mem s"
  shows "mem_write s1 (x_private s) bs = Ret (s1\<lparr>x_mem := mem_behind s @ bs @ drop (length bs) (mem_ahead s)\<rparr>)"
proof -
  have "drop (length bs) (mem_ahead s) = drop (mem_off s + length bs) (x_mem s)" by (simp add: mem_ahead_def add.commute)
  moreover have "mem_off s + length bs \<le> length (x_mem s)" using assms(1,2) by (auto simp: mem_wf_def mem_ahead_def)
  ultimately show ?thesis using assms(3-5) by (simp add: mem_write_def mem_off_def mem_behind_def Let_def)
qed

lemma mem_split: "mem_wf s \<Longrightarrow> mem_behind s @ take n (mem_ahead s) @ drop n (mem_ahead s) = x_mem s"
  by (simp add: mem_behind_def mem_ahead_def del: drop_drop)

interpretation xm: xdr_stream xdrmem_ops mem_wf mem_behind mem_ahead
proof
  fix s :: mem_stream and l
  assume a: "mem_wf s" "whole (mem_behind s)" "4 \<le> length (mem_ahead s)"
  note h = handy_left(1) [OF a(1), of 4]
  let ?s = "s\<lparr>x_handy := x_handy s - 4, x_private := x_private s + 4\<rparr>"
  have "?s = s\<lparr>x_handy := x_handy s - 4, x_private := x_private s + 4, x_mem := mem_behind s @ take 4 (mem_ahead s) @ drop (unat (4 :: ulong)) (mem_ahead s)\<rparr>"
    using mem_split [OF a(1), of 4] by simp
  note m = mem_moved [OF a(1) _ _ _ this]
  have "xdrmem_getlong s = Ret (Some (dec32 (mem_ahead s)), ?s)"
    using a h aligned_private [OF a(1,2)] mem_read_ahead [OF a(1,3), of "s\<lparr>x_handy := x_handy s - 4\<rparr>"]
    by (simp add: xdrmem_getlong_def Let_def)
  then show "\<exists>s'. x_getlong xdrmem_ops s = Ret (Some (dec32 (mem_ahead s)), s') \<and> mem_wf s' \<and>
      mem_behind s' = mem_behind s @ take 4 (mem_ahead s) \<and> mem_ahead s' = drop 4 (mem_ahead s)"
    using m a(3) by (simp add: xdrmem_ops_def)
  let ?t = "s\<lparr>x_handy := x_handy s - 4, x_private := x_private s + 4, x_mem := mem_behind s @ enc32 l @ drop (unat (4 :: ulong)) (mem_ahead s)\<rparr>"
  note m = mem_moved [OF a(1) _ _ _ refl, of 4 "enc32 l"]
  have "xdrmem_putlong s l = Ret (True, ?t)"
    using a h aligned_private [OF a(1,2)] mem_write_ahead [OF a(1), of "enc32 l" "s\<lparr>x_handy := x_handy s - 4\<rparr>"]
    by (simp add: xdrmem_putlong_def Let_def)
  then show "\<exists>s'. x_putlong xdrmem_ops s l = Ret (True, s') \<and> mem_wf s' \<and> mem_behind s' = mem_behind s @ enc32 l \<and>
      mem_ahead s' = drop 4 (mem_ahead s)"
    using m a(3) by (simp add: xdrmem_ops_def)
next
  fix s :: mem_stream and l
  assume a: "mem_wf s" "\<not> 4 \<le> length (mem_ahead s)"
  note h = handy_left(1) [OF a(1), of 4]
  show "\<exists>s'. x_getlong xdrmem_ops s = Ret (None, s')" "\<exists>s'. x_putlong xdrmem_ops s l = Ret (False, s')"
    using a(2) h by (simp_all add: xdrmem_ops_def xdrmem_getlong_def xdrmem_putlong_def Let_def)
next
  fix s :: mem_stream and n :: int32 and m :: "byte list"
  assume a: "mem_wf s" "unat n < 2147483648" "unat n \<le> length m" "unat n \<le> length (mem_ahead s)"
  note h = handy_left(1) [OF a(1,2)]
  let ?s = "s\<lparr>x_handy := x_handy s - n, x_private := x_private s + n\<rparr>"
  have "?s = s\<lparr>x_handy := x_handy s - n, x_private := x_private s + n, x_mem := mem_behind s @ take (unat n) (mem_ahead s) @ drop (unat n) (mem_ahead s)\<rparr>"
    using mem_split [OF a(1), of "unat n"] by simp
  note mv = mem_moved [OF a(1,2,4) _ this]
  have "xdrmem_getbytes s (Mem m) n = Ret (True, Mem (take (unat n) (mem_ahead s) @ drop (unat n) m), ?s)"
    using a h mem_read_ahead [OF a(1,4), of "s\<lparr>x_handy := x_handy s - n\<rparr>"] by (simp add: xdrmem_getbytes_def Let_def)
  then show "\<exists>s'. x_getbytes xdrmem_ops s (Mem m) n = Ret (True, Mem (take (unat n) (mem_ahead s) @ drop (unat n) m), s') \<and> mem_wf s' \<and>
      mem_behind s' = mem_behind s @ take (unat n) (mem_ahead s) \<and> mem_ahead s' = drop (unat n) (mem_ahead s)"
    using mv a(4) by (simp add: xdrmem_ops_def)
  note mv = mem_moved [OF a(1,2,4) _ refl, of "take (unat n) m"]
  have "xdrmem_putbytes s (Mem m) n = Ret (True, s\<lparr>x_handy := x_handy s - n, x_private := x_private s + n,
      x_mem := mem_behind s @ take (unat n) m @ drop (unat n) (mem_ahead s)\<rparr>)"
    using a h mem_write_ahead [OF a(1), of "take (unat n) m" "s\<lparr>x_handy := x_handy s - n\<rparr>"]
    by (simp add: xdrmem_putbytes_def Let_def bcopy_from_def)
  then show "\<exists>s'. x_putbytes xdrmem_ops s (Mem m) n = Ret (True, s') \<and> mem_wf s' \<and>
      mem_behind s' = mem_behind s @ take (unat n) m \<and> mem_ahead s' = drop (unat n) (mem_ahead s)"
    using mv a(3) by (simp add: xdrmem_ops_def)
next
  fix s :: mem_stream and n :: int32 and p
  assume a: "mem_wf s" "unat n < 2147483648" "\<not> unat n \<le> length (mem_ahead s)"
  then show "\<exists>s'. x_getbytes xdrmem_ops s p n = Ret (False, p, s')" "\<exists>s'. x_putbytes xdrmem_ops s p n = Ret (False, s')"
    using handy_left(1) [OF a(1,2)] by (simp_all add: xdrmem_ops_def xdrmem_getbytes_def xdrmem_putbytes_def Let_def)
qed

end
