(* ===== verification/Xdr_Props.thy ===== *)
theory Xdr_Props
  imports Xdr_Mem
begin

text \<open>
  Filters on memory streams: the contract of each filter at work, and the claims on the package.
\<close>

section \<open>Filters on memory streams\<close>

locale mem_codec = xdr_codec xdrmem_ops mem_wf mem_behind mem_ahead proc enc ok ini held
  for proc :: "(mem_stream, 'b) xdrproc" and enc ok ini held
begin

lemma create_good:
  assumes "aligned addr" "length mem < 2147483648"
  shows "good (xdrmem_create addr mem (of_nat (length mem)) op k f)" "left (xdrmem_create addr mem (of_nat (length mem)) op k f) = mem"
    "mem_behind (x_stream (xdrmem_create addr mem (of_nat (length mem)) op k f)) = []"
proof -
  let ?s = "x_stream (xdrmem_create addr mem (of_nat (length mem)) op k f)"
  have u: "unat (of_nat (length mem) :: int32) = length mem" using assms(2) by (intro unat_of_nat_small) simp
  then have "0 \<le> sint (of_nat (length mem) :: int32)" using assms(2) by (subst sint_small32) simp_all
  then have "mem_wf ?s" using assms u by (simp add: mem_wf_def xdrmem_create_def mem_off_def)
  then show "good (xdrmem_create addr mem (of_nat (length mem)) op k f)" "left (xdrmem_create addr mem (of_nat (length mem)) op k f) = mem"
    "mem_behind ?s = []"
    by (simp_all add: good_def left_def xdrmem_create_def mem_behind_def mem_ahead_def mem_off_def)
qed

lemma create_op [simp]: "x_op (xdrmem_create addr mem sz op k f) = op" "x_kmem (xdrmem_create addr mem sz op k f) = k"
  by (simp_all add: xdrmem_create_def)

lemma moved_mem:
  assumes "good xs" "mem_behind (x_stream xs) = []" "moved xs bs xs'"
  shows "x_mem (x_stream xs') = bs @ drop (length bs) (left xs)" "xdrmem_getpos (x_stream xs') = of_nat (length bs)"
proof -
  let ?s = "x_stream xs'"
  have m: "mem_wf ?s" "mem_behind ?s = bs" "mem_ahead ?s = drop (length bs) (left xs)"
    using assms by (simp_all add: moved_def left_def)
  then show "x_mem ?s = bs @ drop (length bs) (left xs)" using mem_split [OF m(1), of 0] by simp
  have "length (mem_behind ?s) = mem_off ?s" using m(1) by (simp add: mem_behind_def mem_wf_def)
  then show "xdrmem_getpos ?s = of_nat (length bs)" using m(2) by (simp add: mem_off_def xdrmem_getpos_def)
qed

end

text \<open>
  What one memory stream encodes another one decodes: the value is written as its bytes at the start
  of the buffer, and reading the buffer gives the value back and consumes just those bytes.
\<close>

definition carries :: "(mem_stream, 'b) xdrproc \<Rightarrow> ('b \<Rightarrow> byte list) \<Rightarrow> 'b \<Rightarrow> 'b \<Rightarrow> bool" where
  "carries proc enc v d \<longleftrightarrow>
    (\<forall>addr mem k f. aligned addr \<longrightarrow> length (enc v) \<le> length mem \<longrightarrow> length mem < 2147483648 \<longrightarrow>
      (\<exists>xs1 xs2. proc (xdrmem_create addr mem (of_nat (length mem)) XDR_ENCODE k f) v = Ret (True, v, xs1) \<and>
        x_mem (x_stream xs1) = enc v @ drop (length (enc v)) mem \<and>
        proc (xdrmem_create addr (x_mem (x_stream xs1)) (of_nat (length mem)) XDR_DECODE k f) d = Ret (True, v, xs2) \<and>
        xdrmem_getpos (x_stream xs2) = of_nat (length (enc v))))"

context mem_codec
begin

lemma round_trip:
  assumes "ok v" "ini d"
  shows "carries proc enc v d"
  unfolding carries_def
proof (intro allI impI)
  fix addr and mem :: "byte list" and k f
  assume a: "aligned addr" "length (enc v) \<le> length mem" "length mem < 2147483648"
  let ?xs = "xdrmem_create addr mem (of_nat (length mem)) XDR_ENCODE k f"
  note c = create_good [OF a(1,3), of XDR_ENCODE k f]
  obtain xs1 where 1: "proc ?xs v = Ret (True, v, xs1)" "moved ?xs (enc v) xs1"
    using encode [OF c(1) _ assms(1)] c(2) a(2) by auto
  define mem' where "mem' = enc v @ drop (length (enc v)) mem"
  have m: "x_mem (x_stream xs1) = mem'" using moved_mem(1) [OF c(1,3) 1(2)] c(2) by (simp add: mem'_def)
  have l: "length mem' = length mem" using a(2) by (simp add: mem'_def)
  let ?ys = "xdrmem_create addr mem' (of_nat (length mem)) XDR_DECODE k f"
  note c' = create_good [OF a(1), of mem' XDR_DECODE k f, unfolded l, OF a(3)]
  have left: "left ?ys = enc v @ drop (length (enc v)) mem" using c'(2) unfolding mem'_def .
  obtain xs2 where 2: "proc ?ys d = Ret (True, v, xs2)" "moved ?ys (enc v) xs2"
    using decode [OF c'(1) _ assms left] by auto
  have "xdrmem_getpos (x_stream xs2) = of_nat (length (enc v))" by (rule moved_mem(2) [OF c'(1,3) 2(2)])
  then show "\<exists>xs1 xs2. proc ?xs v = Ret (True, v, xs1) \<and> x_mem (x_stream xs1) = enc v @ drop (length (enc v)) mem \<and>
        proc (xdrmem_create addr (x_mem (x_stream xs1)) (of_nat (length mem)) XDR_DECODE k f) d = Ret (True, v, xs2) \<and>
        xdrmem_getpos (x_stream xs2) = of_nat (length (enc v))"
    using 1(1) 2(1) m mem'_def by blast
qed

lemma any_input:
  assumes "ini d" "aligned addr" "length mem < 2147483648"
  shows "\<exists>b v xs' v' xs''. proc (xdrmem_create addr mem (of_nat (length mem)) XDR_DECODE k f) d = Ret (b, v, xs') \<and>
    (b \<longrightarrow> ok v) \<and> xdr_free proc xs' v = Ret (True, v', xs'') \<and> x_kmem xs'' = k"
proof -
  let ?xs = "xdrmem_create addr mem (of_nat (length mem)) XDR_DECODE k f"
  note c = create_good [OF assms(2,3), of XDR_DECODE k f]
  obtain b v xs' v' xs'' where "proc ?xs d = Ret (b, v, xs')" "xdr_free proc xs' v = Ret (True, v', xs'')" "x_kmem xs'' = k"
    using decode_free [OF c(1) _ assms(1)] by auto
  moreover from this have "b \<longrightarrow> ok v" using decode_any [OF c(1) _ assms(1)] by auto
  ultimately show ?thesis by blast
qed

end

interpretation m_long: mem_codec xdr_long enc32 "\<lambda>_. True" "\<lambda>_. True" "\<lambda>_. Some 0"
  by (rule mem_codec.intro [OF xm.long_codec])

interpretation m_u_long: mem_codec xdr_u_long enc32 "\<lambda>_. True" "\<lambda>_. True" "\<lambda>_. Some 0"
  by (rule mem_codec.intro [OF xm.u_long_codec])

interpretation m_longlong: mem_codec xdr_longlong_t enc64 "\<lambda>_. True" "\<lambda>_. True" "\<lambda>_. Some 0"
  by (rule mem_codec.intro [OF xm.longlong_codec])

interpretation m_u_longlong: mem_codec xdr_u_longlong_t enc64 "\<lambda>_. True" "\<lambda>_. True" "\<lambda>_. Some 0"
  by (rule mem_codec.intro [OF xm.u_longlong_codec])

interpretation m_short: mem_codec xdr_short "\<lambda>v. enc32 (scast v)" "\<lambda>_. True" "\<lambda>_. True" "\<lambda>_. Some 0"
  by (rule mem_codec.intro [OF xm.short_codec])

interpretation m_u_short: mem_codec xdr_u_short "\<lambda>v. enc32 (ucast v)" "\<lambda>_. True" "\<lambda>_. True" "\<lambda>_. Some 0"
  by (rule mem_codec.intro [OF xm.u_short_codec])

interpretation m_char: mem_codec xdr_char "\<lambda>v. enc32 (scast v)" "\<lambda>_. True" "\<lambda>_. True" "\<lambda>_. Some 0"
  by (rule mem_codec.intro [OF xm.char_codec])

interpretation m_bool: mem_codec xdr_bool "\<lambda>v. enc32 (if v \<noteq> 0 then XDR_TRUE else XDR_FALSE)" "\<lambda>v. v = 0 \<or> v = 1" "\<lambda>_. True" "\<lambda>_. Some 0"
  by (rule mem_codec.intro [OF xm.bool_codec])

lemma bytes_mem: "unat mx < 2147483648 \<Longrightarrow> mem_codec (xdr_bytes mx) enc_bytes (ok_bytes mx) ini_bytes held_bytes"
  by (rule mem_codec.intro [OF xm.bytes_codec])

lemma strings_mem:
  assumes "unat mx * 4 < 4294967296" "unat len < 2147483648"
  shows "mem_codec (xdr_array mx 4 NullP (\<lambda>_. xdr_string len)) (enc_array enc_string) (ok_array mx (ok_string len)) ini_array
    (held_array mx 4 (held_string len))"
proof (rule mem_codec.intro)
  show "xdr_codec xdrmem_ops mem_wf mem_behind mem_ahead (xdr_array mx 4 NullP (\<lambda>_. xdr_string len)) (enc_array enc_string)
      (ok_array mx (ok_string len)) ini_array (held_array mx 4 (held_string len))"
    by (rule xdr_codec.array_codec [OF xm.string_codec [OF assms(2)]]) (use assms(1) in simp_all)
qed

lemma pointer_mem:
  assumes "unat mx < 2147483648"
  shows "mem_codec (xdr_pointer sz (NullP, 0) (\<lambda>_. xdr_bytes mx)) (enc_pointer enc_bytes) (\<lambda>p. \<forall>v\<in>set_option p. ok_bytes mx v) (\<lambda>p. p = None)
    (held_pointer sz held_bytes)"
proof (rule mem_codec.intro)
  show "xdr_codec xdrmem_ops mem_wf mem_behind mem_ahead (xdr_pointer sz (NullP, 0) (\<lambda>_. xdr_bytes mx)) (enc_pointer enc_bytes)
      (\<lambda>p. \<forall>v\<in>set_option p. ok_bytes mx v) (\<lambda>p. p = None) (held_pointer sz held_bytes)"
    by (rule xdr_codec.pointer_codec [OF xm.bytes_codec [OF assms]]) simp
qed

section \<open>Claims\<close>

text \<open>
  Integers of every width, signed and unsigned, characters and booleans
  are decoded to the value that was encoded, from exactly the bytes that were written, big-endian
  and one or two units long.
\<close>

lemma xdr_integers_roundtrip:
  assumes "b = 0 \<or> b = 1"
  shows "carries xdr_long enc32 l d1 \<and> carries xdr_u_long enc32 ul d2 \<and>
    carries xdr_longlong_t enc64 ll d3 \<and> carries xdr_u_longlong_t enc64 ull d4 \<and>
    carries xdr_short (\<lambda>v. enc32 (scast v)) s d5 \<and> carries xdr_u_short (\<lambda>v. enc32 (ucast v)) us d6 \<and>
    carries xdr_char (\<lambda>v. enc32 (scast v)) c d7 \<and> carries xdr_bool (\<lambda>v. enc32 (if v \<noteq> 0 then XDR_TRUE else XDR_FALSE)) b d8"
  using m_long.round_trip m_u_long.round_trip m_longlong.round_trip m_u_longlong.round_trip m_short.round_trip m_u_short.round_trip
    m_char.round_trip m_bool.round_trip [OF assms] by simp

lemma xdr_integers_roundtrip_witness:
  "carries xdr_short (\<lambda>v. enc32 (scast v)) (- 2) 0 \<and> enc32 (scast (- 2 :: short)) = [255, 255, 255, 254]"
  using xdr_integers_roundtrip [of 0 0 0 0 0 0 0 0 0 "- 2" 0 0 0 0 0 0] by (simp add: enc32_def)

text \<open>
  C22 (xdr_composite_roundtrip). A counted array of strings, and a pointer to counted bytes, null or
  not, are decoded to what was encoded, for any limits that keep the sizes of the blocks below
  $2^{32}$ and the lengths below $2^{31}$. The filters of the elements are wrappers with a limit of
  their own: they ignore the third argument with which \<open>xdr_array\<close> and \<open>xdr_pointer\<close> call them.
\<close>

theorem xdr_composite_roundtrip:
  assumes "unat mx * 4 < 4294967296" "unat len < 2147483648" "ok_array mx (ok_string len) strs" "\<forall>v\<in>set_option p. ok_bytes len v"
  shows "carries (xdr_array mx 4 NullP (\<lambda>_. xdr_string len)) (enc_array enc_string) strs (None, d) \<and>
    carries (xdr_pointer sz (NullP, 0) (\<lambda>_. xdr_bytes len)) (enc_pointer enc_bytes) p None"
  using mem_codec.round_trip [OF strings_mem [OF assms(1,2)] assms(3), of "(None, d)"]
    mem_codec.round_trip [OF pointer_mem [OF assms(2)], of p None] assms(4) by simp

theorem xdr_composite_roundtrip_witness:
  "carries (xdr_array 10 4 NullP (\<lambda>_. xdr_string 16)) (enc_array enc_string) (Some [Mem [104, 105, 0]], 1) (None, 0) \<and>
   enc_array enc_string (Some [Mem [104, 105, 0]], 1) = [0, 0, 0, 1, 0, 0, 0, 2, 104, 105, 0, 0]"
proof -
  have "is_str 16 [104, 105]" by (simp add: is_str_def)
  then have "ok_string 16 (Mem [104, 105, 0])" unfolding ok_string_def by (metis append.simps)
  then have "ok_array 10 (ok_string 16) (Some [Mem [104, 105, 0]], 1)" by (simp add: ok_array_def)
  moreover have "enc_array enc_string (Some [Mem [104, 105, 0]], 1) = [0, 0, 0, 1, 0, 0, 0, 2, 104, 105, 0, 0]" by code_simp
  ultimately show ?thesis using xdr_composite_roundtrip [of 10 16 "(Some [Mem [104, 105, 0]], 1)" None 0] by simp
qed

text \<open>
  C23 (xdr_decode_robust). Any bytes at all can be handed to the decoder of an array of strings with
  limits: a limit below $2^{30}$ on the number of strings, and an element filter that is a wrapper
  around \<open>xdr_string\<close> with a limit below $2^{31}$ of its own. The decoder never reads outside the
  buffer or writes outside the memory it allocated, it yields a proper value or fails, and in both
  cases \<open>xdr_free\<close> then gives back all the memory it took, each piece with the size it was allocated
  with. Without the limits this is false: \<open>xdr_string\<close> itself as the element filter is called with the
  limit \<open>LASTUNSIGNED\<close> and copies by a negative length, and a larger number of strings wraps the
  size of the block around.
\<close>

theorem xdr_decode_robust:
  assumes "unat mx * 4 < 4294967296" "unat len < 2147483648" "aligned addr" "length mem < 2147483648"
  shows "\<exists>b v xs' v' xs''. xdr_array mx 4 NullP (\<lambda>_. xdr_string len) (xdrmem_create addr mem (of_nat (length mem)) XDR_DECODE k f) (None, d) =
      Ret (b, v, xs') \<and> (b \<longrightarrow> ok_array mx (ok_string len) v) \<and>
    xdr_free (xdr_array mx 4 NullP (\<lambda>_. xdr_string len)) xs' v = Ret (True, v', xs'') \<and> x_kmem xs'' = k"
  using mem_codec.any_input [OF strings_mem [OF assms(1,2)] _ assms(3,4), of "(None, d)"] by simp

theorem xdr_decode_robust_witness:
  "\<exists>b v xs'. xdr_array 10 4 NullP (\<lambda>_. xdr_string 16) (xdrmem_create 4096 [0, 0, 0, 1, 255] 5 XDR_DECODE 7 (\<lambda>_. 0)) (None, 0) = Ret (b, v, xs')"
proof -
  have "aligned 4096" by (simp add: aligned_def)
  then show ?thesis using xdr_decode_robust [of 10 16 4096 "[0, 0, 0, 1, 255]" 7 "\<lambda>_. 0" 0] by auto
qed

text \<open>
  C24 (xdr_array_overflow). A limit that lets $2^{30}$ or more elements of 4 bytes through, such as
  \<open>LASTUNSIGNED\<close>, does not protect \<open>xdr_array\<close>: the size of the block, the count times 4, wraps
  around, the block has room for the count modulo $2^{30}$ elements only, and as soon as the message
  carries one element more than that, decoding it accesses memory behind the block. The loop by
  itself does not stop there: on a block with room for all elements it stores every element
  of the message, those at the indices from the wrapped count on included.
\<close>

theorem xdr_array_overflow:
  assumes "aligned addr" "length mem < 2147483648" "mem = enc32 c @ concat (map enc32 vs) @ rest"
    and "c \<le> mx" "unat c \<ge> 1073741824" "unat c mod 1073741824 < length vs"
  shows "\<exists>xs. xdr_u_int (xdrmem_create addr mem (of_nat (length mem)) XDR_DECODE k f) d = Ret (True, c, xs) \<and>
    unat (c * 4) = 4 * (unat c mod 1073741824) \<and>
    xdr_array mx 4 0 (\<lambda>_. xdr_u_long) (xdrmem_create addr mem (of_nat (length mem)) XDR_DECODE k f) (None, d) = Fault \<and>
    (\<exists>b es xs'. xdr_array_loop (\<lambda>_. xdr_u_long) c 0 xs (replicate (unat c) 0) = Ret (b, vs @ es, xs'))"
proof -
  let ?xs = "xdrmem_create addr mem (of_nat (length mem)) XDR_DECODE k f"
  note g = m_u_long.create_good [OF assms(1,2), of XDR_DECODE k f]
  have size: "unat (c * 4) = 4 * (unat c mod 1073741824)"
  proof -
    have "unat (c * 4) = unat c * 4 mod 4294967296" by (simp add: unat_word_ariths)
    then show ?thesis using mult_mod_right [of 4 "unat c" 1073741824] by (simp add: mult.commute)
  qed
  have "length (concat (map enc32 vs)) = 4 * length vs" by (induction vs) simp_all
  then have "length vs \<le> unat c" using assms(2,3,5) by simp
  moreover have "xm.left ?xs = enc32 c @ concat (map enc32 vs) @ rest" using g(2) unfolding assms(3) [symmetric] .
  ultimately show ?thesis
    using m_u_long.array_overrun [OF g(1) _ _ _ _ assms(4), where elsize = 4 and s = d and zero = 0 and es = vs and r = rest] assms(6) size by simp
qed

theorem xdr_array_overflow_witness:
  "unat ((1073741825 :: ulong) * 4) = 4 \<and>
   xdr_array LASTUNSIGNED 4 0 (\<lambda>_. xdr_u_long) (xdrmem_create 4096 [64, 0, 0, 1, 0, 0, 0, 7, 0, 0, 0, 8] 12 XDR_DECODE 0 (\<lambda>_. 0)) (None, 0) = Fault"
proof -
  have "aligned 4096" "[64, 0, 0, 1, 0, 0, 0, 7, 0, 0, 0, 8] = enc32 1073741825 @ concat (map enc32 [7, 8]) @ []"
    "(1073741825 :: ulong) \<le> LASTUNSIGNED"
    by (simp_all add: aligned_def enc32_def LASTUNSIGNED_def)
  then show ?thesis
    using xdr_array_overflow [of 4096 "[64, 0, 0, 1, 0, 0, 0, 7, 0, 0, 0, 8]" 1073741825 "[7, 8]" "[]" LASTUNSIGNED 0 "\<lambda>_. 0" 0] by auto
qed

end
