(* ===== verification/Rpc_Msg.thy ===== *)
theory Rpc_Msg
  imports Xdr
begin

text \<open>
  The messages of the remote procedure call protocol, \<open>rpc/rpc_prot.c\<close> and \<open>rpc/rpc_calmsg.c\<close>. The
  filters of call and reply messages have a fast path, which reserves room in the buffer of the
  stream with \<open>XDR_INLINE\<close> and loads or stores there directly, and fall back on the filters of
  \<open>xdr.c\<close> when the stream gives no such room. Enumeration values come from the network, so they are
  integers. The union in \<open>rpc_err\<close> is two words that all its arms share. In messages the arms of a
  union are kept as fields of their own: the code that decodes a message and looks at it uses the arm
  that the status in front of it selects. One overlap is followed, the versions of an accepted reply
  that are decoded over the pointer to the filter of the results. \<open>xdr_replymsg_body\<close> alone reads the
  results whatever the status is, so its model is right for messages in which the results are the arm
  in use.
\<close>

section \<open>Data\<close>

definition RPC_MSG_VERSION :: ulong where "RPC_MSG_VERSION = 2"
definition MAX_AUTH_BYTES :: ulong where "MAX_AUTH_BYTES = 400"
definition CALL :: int32 where "CALL = 0"
definition REPLY :: int32 where "REPLY = 1"
definition MSG_ACCEPTED :: int32 where "MSG_ACCEPTED = 0"
definition MSG_DENIED :: int32 where "MSG_DENIED = 1"
definition SUCCESS :: int32 where "SUCCESS = 0"
definition PROG_UNAVAIL :: int32 where "PROG_UNAVAIL = 1"
definition PROG_MISMATCH :: int32 where "PROG_MISMATCH = 2"
definition PROC_UNAVAIL :: int32 where "PROC_UNAVAIL = 3"
definition GARBAGE_ARGS :: int32 where "GARBAGE_ARGS = 4"
definition SYSTEM_ERR :: int32 where "SYSTEM_ERR = 5"
definition RPC_MISMATCH :: int32 where "RPC_MISMATCH = 0"
definition AUTH_ERROR :: int32 where "AUTH_ERROR = 1"
definition RPC_SUCCESS :: int32 where "RPC_SUCCESS = 0"
definition RPC_VERSMISMATCH :: int32 where "RPC_VERSMISMATCH = 6"
definition RPC_AUTHERROR :: int32 where "RPC_AUTHERROR = 7"
definition RPC_PROGUNAVAIL :: int32 where "RPC_PROGUNAVAIL = 8"
definition RPC_PROGVERSMISMATCH :: int32 where "RPC_PROGVERSMISMATCH = 9"
definition RPC_PROCUNAVAIL :: int32 where "RPC_PROCUNAVAIL = 10"
definition RPC_CANTDECODEARGS :: int32 where "RPC_CANTDECODEARGS = 11"
definition RPC_SYSTEMERROR :: int32 where "RPC_SYSTEMERROR = 12"
definition RPC_FAILED :: int32 where "RPC_FAILED = 16"

record opaque_auth =
  oa_flavor :: int32
  oa_base :: cptr
  oa_length :: ulong

record call_body =
  cb_rpcvers :: ulong
  cb_prog :: ulong
  cb_vers :: ulong
  cb_proc :: ulong
  cb_cred :: opaque_auth
  cb_verf :: opaque_auth

record versions =
  low :: ulong
  high :: ulong

text \<open>
  The results of a call are an object and the filter for it. \<open>None\<close> stands for a null pointer in the
  place of the filter, and for a word there that is no filter at all: the versions share the storage
  of the two pointers.
\<close>

record ('s, 'a) accepted_reply =
  ar_verf :: opaque_auth
  ar_stat :: int32
  ar_vers :: versions
  ar_where :: 'a
  ar_proc :: "('s, 'a) xdrproc option"

record rejected_reply =
  rj_stat :: int32
  rj_vers :: versions
  rj_why :: int32

record ('s, 'a) reply_body =
  rp_stat :: int32
  rp_acpt :: "('s, 'a) accepted_reply"
  rp_rjct :: rejected_reply

record ('s, 'a) rpc_msg =
  rm_xid :: ulong
  rm_direction :: int32
  rm_call :: call_body
  rm_reply :: "('s, 'a) reply_body"

text \<open>
  Error information: a status and a union of two words. The first word is \<open>re_errno\<close>, \<open>re_why\<close>,
  \<open>re_vers.low\<close> and \<open>re_lb.s1\<close>, the second \<open>re_terrno\<close>, \<open>re_vers.high\<close> and \<open>re_lb.s2\<close>.
\<close>

record rpc_err =
  re_status :: int32
  re_ru0 :: "32 word"
  re_ru1 :: "32 word"

definition re_why :: "rpc_err \<Rightarrow> int32" where
  "re_why e = re_ru0 e"

definition re_vers :: "rpc_err \<Rightarrow> versions" where
  "re_vers e = \<lparr>low = re_ru0 e, high = re_ru1 e\<rparr>"

definition put_why :: "int32 \<Rightarrow> rpc_err \<Rightarrow> rpc_err" where
  "put_why w e = e\<lparr>re_ru0 := w\<rparr>"

definition put_vers :: "versions \<Rightarrow> rpc_err \<Rightarrow> rpc_err" where
  "put_vers v e = e\<lparr>re_ru0 := low v, re_ru1 := high v\<rparr>"

definition put_s1 :: "int32 \<Rightarrow> rpc_err \<Rightarrow> rpc_err" where
  "put_s1 w e = e\<lparr>re_ru0 := w\<rparr>"

definition put_s2 :: "int32 \<Rightarrow> rpc_err \<Rightarrow> rpc_err" where
  "put_s2 w e = e\<lparr>re_ru1 := w\<rparr>"

section \<open>Filters for parts of an object\<close>

text \<open>A filter applied to a field of an object, and filters joined by \<open>&&\<close>.\<close>

definition xfield :: "('r \<Rightarrow> 'a) \<Rightarrow> ('a \<Rightarrow> 'r \<Rightarrow> 'r) \<Rightarrow> ('s, 'a) xdrproc \<Rightarrow> ('s, 'r) xdrproc" where
  "xfield get put proc xs r = kbind (proc xs (get r)) (\<lambda>(b, v, xs). Ret (b, put v r, xs))"

definition xtest :: "('r \<Rightarrow> bool) \<Rightarrow> ('s, 'r) xdrproc" where
  "xtest P xs r = Ret (P r, r, xs)"

fun xall :: "('s, 'r) xdrproc list \<Rightarrow> ('s, 'r) xdrproc" where
  "xall [] xs r = Ret (True, r, xs)"
| "xall (p # ps) xs r = kbind (p xs r) (\<lambda>(b, r, xs). if b then xall ps xs r else Ret (False, r, xs))"

text \<open>Loads and stores in the room that \<open>XDR_INLINE\<close> gave, at an address that is then advanced.\<close>

definition IXDR_PUT_LONG :: "'s XDR \<Rightarrow> ulong \<Rightarrow> int32 \<Rightarrow> (ulong \<times> 's XDR) kres" where
  "IXDR_PUT_LONG xs buf v =
    (if \<not> aligned buf then Fault
     else kbind (x_store (x_ops xs) (x_stream xs) buf (enc32 v)) (\<lambda>s. Ret (buf + 4, xs\<lparr>x_stream := s\<rparr>)))"

definition IXDR_GET_LONG :: "'s XDR \<Rightarrow> ulong \<Rightarrow> (int32 \<times> ulong) kres" where
  "IXDR_GET_LONG xs buf =
    (if \<not> aligned buf then Fault
     else kbind (x_load (x_ops xs) (x_stream xs) buf 4) (\<lambda>bs. Ret (dec32 bs, buf + 4)))"

section \<open>Authentication\<close>

definition xdr_opaque_auth :: "('s, opaque_auth) xdrproc" where
  "xdr_opaque_auth = xall
    [xfield oa_flavor (\<lambda>v a. a\<lparr>oa_flavor := v\<rparr>) xdr_enum,
     xfield (\<lambda>a. (oa_base a, oa_length a)) (\<lambda>(p, n) a. a\<lparr>oa_base := p, oa_length := n\<rparr>) (xdr_bytes MAX_AUTH_BYTES)]"

text \<open>A key is eight bytes.\<close>

definition xdr_des_block :: "('s, cptr) xdrproc" where
  "xdr_des_block xs blkp = xdr_opaque 8 xs blkp"

section \<open>Replies\<close>

text \<open>
  What follows the status of an accepted reply. Versions that are decoded lie over the pointers to
  the results.
\<close>

definition xdr_versions :: "('s, versions) xdrproc" where
  "xdr_versions = xall [xfield low (\<lambda>v r. r\<lparr>low := v\<rparr>) xdr_u_long, xfield high (\<lambda>v r. r\<lparr>high := v\<rparr>) xdr_u_long]"

definition accepted_rest :: "('s, ('s, 'a) accepted_reply) xdrproc" where
  "accepted_rest xs ar =
    (if ar_stat ar = SUCCESS then
       (case ar_proc ar of None \<Rightarrow> Fault | Some proc \<Rightarrow> xfield ar_where (\<lambda>v r. r\<lparr>ar_where := v\<rparr>) proc xs ar)
     else if ar_stat ar = PROG_MISMATCH then
       xfield ar_vers (\<lambda>v r. if x_op xs = XDR_DECODE then r\<lparr>ar_vers := v, ar_proc := None\<rparr> else r) xdr_versions xs ar
     else Ret (True, ar, xs))"

definition xdr_accepted_reply :: "('s, ('s, 'a) accepted_reply) xdrproc" where
  "xdr_accepted_reply = xall
    [xfield ar_verf (\<lambda>v r. r\<lparr>ar_verf := v\<rparr>) xdr_opaque_auth, xfield ar_stat (\<lambda>v r. r\<lparr>ar_stat := v\<rparr>) xdr_enum, accepted_rest]"

definition rejected_rest :: "('s, rejected_reply) xdrproc" where
  "rejected_rest xs rr =
    (if rj_stat rr = RPC_MISMATCH then xfield rj_vers (\<lambda>v r. r\<lparr>rj_vers := v\<rparr>) xdr_versions xs rr
     else if rj_stat rr = AUTH_ERROR then xfield rj_why (\<lambda>v r. r\<lparr>rj_why := v\<rparr>) xdr_enum xs rr
     else Ret (False, rr, xs))"

definition xdr_rejected_reply :: "('s, rejected_reply) xdrproc" where
  "xdr_rejected_reply = xall [xfield rj_stat (\<lambda>v r. r\<lparr>rj_stat := v\<rparr>) xdr_enum, rejected_rest]"

definition reply_dscrm :: "(int32 \<times> ('s, ('s, 'a) accepted_reply \<times> rejected_reply) xdrproc_t option) list" where
  "reply_dscrm =
    [(MSG_ACCEPTED, Some (\<lambda>_. xfield fst (\<lambda>v u. (v, snd u)) xdr_accepted_reply)),
     (MSG_DENIED, Some (\<lambda>_. xfield snd (\<lambda>v u. (fst u, v)) xdr_rejected_reply)),
     (- 1, None)]"

text \<open>
  The fast path for encoding the header of an accepted reply. The room is \<open>oa_length\<close> bytes for the
  verifier, although whole units are written.
\<close>

definition reply_room :: "('s, 'a) rpc_msg \<Rightarrow> int32" where
  "reply_room rmsg = 6 * BYTES_PER_XDR_UNIT + oa_length (ar_verf (rp_acpt (rm_reply rmsg)))"

definition reply_put :: "'s XDR \<Rightarrow> ulong \<Rightarrow> ('s, 'a) rpc_msg \<Rightarrow> 's XDR kres" where
  "reply_put xs buf rmsg =
    (let ar = rp_acpt (rm_reply rmsg); oa = ar_verf ar in
     kbind (IXDR_PUT_LONG xs buf (rm_xid rmsg)) (\<lambda>(buf, xs).
     kbind (IXDR_PUT_LONG xs buf (rm_direction rmsg)) (\<lambda>(buf, xs).
     kbind (IXDR_PUT_LONG xs buf (rp_stat (rm_reply rmsg))) (\<lambda>(buf, xs).
     kbind (IXDR_PUT_LONG xs buf (oa_flavor oa)) (\<lambda>(buf, xs).
     kbind (IXDR_PUT_LONG xs buf (oa_length oa)) (\<lambda>(buf, xs).
     kbind (if oa_length oa \<noteq> 0 then
              kbind (bcopy_from (oa_base oa) (unat (oa_length oa))) (\<lambda>bs.
              kbind (x_store (x_ops xs) (x_stream xs) buf bs) (\<lambda>s.
                Ret (buf + (oa_length oa + BYTES_PER_XDR_UNIT - 1) div 4 * 4, xs\<lparr>x_stream := s\<rparr>)))
            else Ret (buf, xs)) (\<lambda>(buf, xs).
     kbind (IXDR_PUT_LONG xs buf (ar_stat ar)) (\<lambda>(buf, xs). Ret xs))))))))"

text \<open>The first two words of an authentication structure, inline or not.\<close>

definition auth_hdr :: "('s, opaque_auth) xdrproc" where
  "auth_hdr xs oa =
    (case XDR_INLINE xs (2 * BYTES_PER_XDR_UNIT) of
       (None, xs) \<Rightarrow> xall [xfield oa_flavor (\<lambda>v a. a\<lparr>oa_flavor := v\<rparr>) xdr_enum, xfield oa_length (\<lambda>v a. a\<lparr>oa_length := v\<rparr>) xdr_u_int] xs oa
     | (Some buf, xs) \<Rightarrow>
         kbind (IXDR_GET_LONG xs buf) (\<lambda>(f, buf). kbind (IXDR_GET_LONG xs buf) (\<lambda>(n, buf).
           Ret (True, oa\<lparr>oa_flavor := f, oa_length := n\<rparr>, xs))))"

text \<open>The body of the verifier of a reply is copied into memory of its own.\<close>

definition reply_verf :: "('s, opaque_auth) xdrproc" where
  "reply_verf xs oa =
    (if oa_length oa = 0 then Ret (True, oa, xs)
     else if oa_length oa > MAX_AUTH_BYTES then Ret (False, oa, xs)
     else
       let (p, xs) = (if oa_base oa = NullP then (case mem_alloc xs (oa_length oa) of (m, xs) \<Rightarrow> (Mem m, xs)) else (oa_base oa, xs))
       in case XDR_INLINE xs (RNDUP (oa_length oa)) of
            (None, xs) \<Rightarrow> kbind (xdr_opaque (oa_length oa) xs p) (\<lambda>(b, p, xs). Ret (b, oa\<lparr>oa_base := p\<rparr>, xs))
          | (Some buf, xs) \<Rightarrow>
              kbind (x_load (x_ops xs) (x_stream xs) buf (unat (oa_length oa))) (\<lambda>bs.
              kbind (bcopy_to p bs) (\<lambda>p. Ret (True, oa\<lparr>oa_base := p\<rparr>, xs))))"

definition reply_get :: "ulong \<Rightarrow> ('s, ('s, 'a) rpc_msg) xdrproc" where
  "reply_get buf xs rmsg =
    kbind (IXDR_GET_LONG xs buf) (\<lambda>(v, buf).
    let rmsg = rmsg\<lparr>rm_xid := v\<rparr> in
    kbind (IXDR_GET_LONG xs buf) (\<lambda>(v, buf).
    let rmsg = rmsg\<lparr>rm_direction := v\<rparr> in
    if rm_direction rmsg \<noteq> REPLY then Ret (False, rmsg, xs)
    else kbind (IXDR_GET_LONG xs buf) (\<lambda>(v, buf).
    let rmsg = rmsg\<lparr>rm_reply := (rm_reply rmsg)\<lparr>rp_stat := v\<rparr>\<rparr> in
    if rp_stat (rm_reply rmsg) \<noteq> MSG_ACCEPTED then
      (if rp_stat (rm_reply rmsg) = MSG_DENIED
       then xfield (\<lambda>m. rp_rjct (rm_reply m)) (\<lambda>v m. m\<lparr>rm_reply := (rm_reply m)\<lparr>rp_rjct := v\<rparr>\<rparr>) xdr_rejected_reply xs rmsg
       else Ret (False, rmsg, xs))
    else
      xfield (\<lambda>m. rp_acpt (rm_reply m)) (\<lambda>v m. m\<lparr>rm_reply := (rm_reply m)\<lparr>rp_acpt := v\<rparr>\<rparr>)
        (xall [xfield ar_verf (\<lambda>v r. r\<lparr>ar_verf := v\<rparr>) (xall [auth_hdr, reply_verf]),
               xfield ar_stat (\<lambda>v r. r\<lparr>ar_stat := v\<rparr>) xdr_enum, accepted_rest]) xs rmsg)))"

definition reply_generic :: "('s, ('s, 'a) rpc_msg) xdrproc" where
  "reply_generic = xall
    [xfield rm_xid (\<lambda>v m. m\<lparr>rm_xid := v\<rparr>) xdr_u_long,
     xfield rm_direction (\<lambda>v m. m\<lparr>rm_direction := v\<rparr>) xdr_enum,
     xtest (\<lambda>m. rm_direction m = REPLY),
     xfield (\<lambda>m. (rp_stat (rm_reply m), rp_acpt (rm_reply m), rp_rjct (rm_reply m)))
       (\<lambda>(v, a, r) m. m\<lparr>rm_reply := \<lparr>rp_stat = v, rp_acpt = a, rp_rjct = r\<rparr>\<rparr>) (xdr_union reply_dscrm None)]"

definition xdr_replymsg :: "('s, ('s, 'a) rpc_msg) xdrproc" where
  "xdr_replymsg xs rmsg =
    (case (if x_op xs = XDR_ENCODE \<and> rp_stat (rm_reply rmsg) = MSG_ACCEPTED \<and> rm_direction rmsg = REPLY
           then XDR_INLINE xs (reply_room rmsg) else (None, xs)) of
       (Some buf, xs) \<Rightarrow> kbind (reply_put xs buf rmsg) (\<lambda>xs.
         xfield (\<lambda>m. rp_acpt (rm_reply m)) (\<lambda>v m. m\<lparr>rm_reply := (rm_reply m)\<lparr>rp_acpt := v\<rparr>\<rparr>) accepted_rest xs rmsg)
     | (None, xs) \<Rightarrow>
         (case (if x_op xs = XDR_DECODE then XDR_INLINE xs (3 * BYTES_PER_XDR_UNIT) else (None, xs)) of
            (Some buf, xs) \<Rightarrow> reply_get buf xs rmsg
          | (None, xs) \<Rightarrow> reply_generic xs rmsg))"

definition xdr_replymsg_hdr :: "('s, ('s, 'a) rpc_msg) xdrproc" where
  "xdr_replymsg_hdr xs rmsg =
    (if x_op xs \<noteq> XDR_ENCODE \<or> rp_stat (rm_reply rmsg) \<noteq> MSG_ACCEPTED \<or> rm_direction rmsg \<noteq> REPLY then Ret (False, rmsg, xs)
     else case XDR_INLINE xs (reply_room rmsg) of
       (Some buf, xs) \<Rightarrow> kbind (reply_put xs buf rmsg) (\<lambda>xs. Ret (True, rmsg, xs))
     | (None, xs) \<Rightarrow> xall
         [xfield rm_xid (\<lambda>v m. m\<lparr>rm_xid := v\<rparr>) xdr_u_long,
          xfield rm_direction (\<lambda>v m. m\<lparr>rm_direction := v\<rparr>) xdr_enum,
          xfield (\<lambda>m. rp_stat (rm_reply m)) (\<lambda>v m. m\<lparr>rm_reply := (rm_reply m)\<lparr>rp_stat := v\<rparr>\<rparr>) xdr_enum,
          xfield (\<lambda>m. rp_acpt (rm_reply m)) (\<lambda>v m. m\<lparr>rm_reply := (rm_reply m)\<lparr>rp_acpt := v\<rparr>\<rparr>)
            (xall [xfield ar_verf (\<lambda>v r. r\<lparr>ar_verf := v\<rparr>) xdr_opaque_auth, xfield ar_stat (\<lambda>v r. r\<lparr>ar_stat := v\<rparr>) xdr_enum])] xs rmsg)"

definition xdr_replymsg_body :: "('s, ('s, 'a) rpc_msg) xdrproc" where
  "xdr_replymsg_body xs rmsg =
    (if x_op xs \<noteq> XDR_ENCODE then Ret (False, rmsg, xs)
     else case ar_proc (rp_acpt (rm_reply rmsg)) of
       None \<Rightarrow> Ret (True, rmsg, xs)
     | Some proc \<Rightarrow> xfield (\<lambda>m. ar_where (rp_acpt (rm_reply m)))
         (\<lambda>v m. m\<lparr>rm_reply := (rm_reply m)\<lparr>rp_acpt := (rp_acpt (rm_reply m))\<lparr>ar_where := v\<rparr>\<rparr>\<rparr>) proc xs rmsg)"

section \<open>Calls\<close>

definition in_call :: "('s, call_body) xdrproc \<Rightarrow> ('s, ('s, 'a) rpc_msg) xdrproc" where
  "in_call = xfield rm_call (\<lambda>v m. m\<lparr>rm_call := v\<rparr>)"

definition xdr_callhdr :: "('s, ('s, 'a) rpc_msg) xdrproc" where
  "xdr_callhdr xs cmsg =
    (let cmsg = cmsg\<lparr>rm_direction := CALL, rm_call := (rm_call cmsg)\<lparr>cb_rpcvers := RPC_MSG_VERSION\<rparr>\<rparr> in
     if x_op xs \<noteq> XDR_ENCODE then Ret (False, cmsg, xs)
     else xall
       [xfield rm_xid (\<lambda>v m. m\<lparr>rm_xid := v\<rparr>) xdr_u_long,
        xfield rm_direction (\<lambda>v m. m\<lparr>rm_direction := v\<rparr>) xdr_enum,
        in_call (xfield cb_rpcvers (\<lambda>v c. c\<lparr>cb_rpcvers := v\<rparr>) xdr_u_long),
        in_call (xfield cb_prog (\<lambda>v c. c\<lparr>cb_prog := v\<rparr>) xdr_u_long),
        in_call (xfield cb_vers (\<lambda>v c. c\<lparr>cb_vers := v\<rparr>) xdr_u_long)] xs cmsg)"

definition call_put_auth :: "'s XDR \<Rightarrow> ulong \<Rightarrow> opaque_auth \<Rightarrow> (ulong \<times> 's XDR) kres" where
  "call_put_auth xs buf oa =
    kbind (IXDR_PUT_LONG xs buf (oa_flavor oa)) (\<lambda>(buf, xs).
    kbind (IXDR_PUT_LONG xs buf (oa_length oa)) (\<lambda>(buf, xs).
    if oa_length oa \<noteq> 0 then
      kbind (bcopy_from (oa_base oa) (unat (oa_length oa))) (\<lambda>bs.
      kbind (x_store (x_ops xs) (x_stream xs) buf bs) (\<lambda>s.
        Ret (buf + RNDUP (oa_length oa) div 4 * 4, xs\<lparr>x_stream := s\<rparr>)))
    else Ret (buf, xs)))"

definition call_put :: "ulong \<Rightarrow> ('s, ('s, 'a) rpc_msg) xdrproc" where
  "call_put buf xs cmsg =
    (let c = rm_call cmsg in
     kbind (IXDR_PUT_LONG xs buf (rm_xid cmsg)) (\<lambda>(buf, xs).
     kbind (IXDR_PUT_LONG xs buf (rm_direction cmsg)) (\<lambda>(buf, xs).
     if rm_direction cmsg \<noteq> CALL then Ret (False, cmsg, xs)
     else kbind (IXDR_PUT_LONG xs buf (cb_rpcvers c)) (\<lambda>(buf, xs).
     if cb_rpcvers c \<noteq> RPC_MSG_VERSION then Ret (False, cmsg, xs)
     else kbind (IXDR_PUT_LONG xs buf (cb_prog c)) (\<lambda>(buf, xs).
     kbind (IXDR_PUT_LONG xs buf (cb_vers c)) (\<lambda>(buf, xs).
     kbind (IXDR_PUT_LONG xs buf (cb_proc c)) (\<lambda>(buf, xs).
     kbind (call_put_auth xs buf (cb_cred c)) (\<lambda>(buf, xs).
     kbind (call_put_auth xs buf (cb_verf c)) (\<lambda>(buf, xs). Ret (True, cmsg, xs))))))))))"

definition call_room :: "('s, 'a) rpc_msg \<Rightarrow> int32" where
  "call_room cmsg = 8 * BYTES_PER_XDR_UNIT + RNDUP (oa_length (cb_cred (rm_call cmsg))) + 2 * BYTES_PER_XDR_UNIT +
     RNDUP (oa_length (cb_verf (rm_call cmsg)))"

text \<open>The body of an authentication structure is left in the buffer of the stream when it can be.\<close>

definition call_auth :: "('s, opaque_auth) xdrproc" where
  "call_auth xs oa =
    (if oa_length oa = 0 then Ret (True, oa, xs)
     else if oa_length oa > MAX_AUTH_BYTES then Ret (False, oa, xs)
     else case XDR_INLINE xs (RNDUP (oa_length oa)) of
       (None, xs) \<Rightarrow>
         let (p, xs) = (if oa_base oa = NullP then (case mem_alloc xs (oa_length oa) of (m, xs) \<Rightarrow> (Mem m, xs)) else (oa_base oa, xs))
         in kbind (xdr_opaque (oa_length oa) xs p) (\<lambda>(b, p, xs). Ret (b, oa\<lparr>oa_base := p\<rparr>, xs))
     | (Some buf, xs) \<Rightarrow>
         kbind (x_load (x_ops xs) (x_stream xs) buf (unat (RNDUP (oa_length oa)))) (\<lambda>bs. Ret (True, oa\<lparr>oa_base := Buf bs\<rparr>, xs)))"

definition call_get :: "ulong \<Rightarrow> ('s, ('s, 'a) rpc_msg) xdrproc" where
  "call_get buf xs cmsg =
    kbind (IXDR_GET_LONG xs buf) (\<lambda>(v, buf).
    let cmsg = cmsg\<lparr>rm_xid := v\<rparr> in
    kbind (IXDR_GET_LONG xs buf) (\<lambda>(v, buf).
    let cmsg = cmsg\<lparr>rm_direction := v\<rparr> in
    if rm_direction cmsg \<noteq> CALL then Ret (False, cmsg, xs)
    else kbind (IXDR_GET_LONG xs buf) (\<lambda>(v, buf).
    let cmsg = cmsg\<lparr>rm_call := (rm_call cmsg)\<lparr>cb_rpcvers := v\<rparr>\<rparr> in
    if cb_rpcvers (rm_call cmsg) \<noteq> RPC_MSG_VERSION then Ret (False, cmsg, xs)
    else kbind (IXDR_GET_LONG xs buf) (\<lambda>(prog, buf).
    kbind (IXDR_GET_LONG xs buf) (\<lambda>(vers, buf).
    kbind (IXDR_GET_LONG xs buf) (\<lambda>(pr, buf).
    kbind (IXDR_GET_LONG xs buf) (\<lambda>(f, buf).
    kbind (IXDR_GET_LONG xs buf) (\<lambda>(n, buf).
    let c = rm_call cmsg;
        cmsg = cmsg\<lparr>rm_call := c\<lparr>cb_prog := prog, cb_vers := vers, cb_proc := pr, cb_cred := (cb_cred c)\<lparr>oa_flavor := f, oa_length := n\<rparr>\<rparr>\<rparr>
    in in_call (xall
        [xfield cb_cred (\<lambda>v c. c\<lparr>cb_cred := v\<rparr>) call_auth,
         xfield cb_verf (\<lambda>v c. c\<lparr>cb_verf := v\<rparr>) (xall [auth_hdr, call_auth])]) xs cmsg))))))))"

definition call_generic :: "('s, ('s, 'a) rpc_msg) xdrproc" where
  "call_generic = xall
    [xfield rm_xid (\<lambda>v m. m\<lparr>rm_xid := v\<rparr>) xdr_u_long,
     xfield rm_direction (\<lambda>v m. m\<lparr>rm_direction := v\<rparr>) xdr_enum,
     xtest (\<lambda>m. rm_direction m = CALL),
     in_call (xall
       [xfield cb_rpcvers (\<lambda>v c. c\<lparr>cb_rpcvers := v\<rparr>) xdr_u_long,
        xtest (\<lambda>c. cb_rpcvers c = RPC_MSG_VERSION),
        xfield cb_prog (\<lambda>v c. c\<lparr>cb_prog := v\<rparr>) xdr_u_long,
        xfield cb_vers (\<lambda>v c. c\<lparr>cb_vers := v\<rparr>) xdr_u_long,
        xfield cb_proc (\<lambda>v c. c\<lparr>cb_proc := v\<rparr>) xdr_u_long,
        xfield cb_cred (\<lambda>v c. c\<lparr>cb_cred := v\<rparr>) xdr_opaque_auth,
        xfield cb_verf (\<lambda>v c. c\<lparr>cb_verf := v\<rparr>) xdr_opaque_auth])]"

definition xdr_callmsg :: "('s, ('s, 'a) rpc_msg) xdrproc" where
  "xdr_callmsg xs cmsg =
    (if x_op xs = XDR_ENCODE \<and> oa_length (cb_cred (rm_call cmsg)) > MAX_AUTH_BYTES then Ret (False, cmsg, xs)
     else if x_op xs = XDR_ENCODE \<and> oa_length (cb_verf (rm_call cmsg)) > MAX_AUTH_BYTES then Ret (False, cmsg, xs)
     else case (if x_op xs = XDR_ENCODE then XDR_INLINE xs (call_room cmsg) else (None, xs)) of
       (Some buf, xs) \<Rightarrow> call_put buf xs cmsg
     | (None, xs) \<Rightarrow>
         (case (if x_op xs = XDR_DECODE then XDR_INLINE xs (8 * BYTES_PER_XDR_UNIT) else (None, xs)) of
            (Some buf, xs) \<Rightarrow> call_get buf xs cmsg
          | (None, xs) \<Rightarrow> call_generic xs cmsg))"

section \<open>The result of a call\<close>

definition accepted :: "int32 \<Rightarrow> rpc_err \<Rightarrow> rpc_err" where
  "accepted acpt_stat e =
    (if acpt_stat = PROG_UNAVAIL then e\<lparr>re_status := RPC_PROGUNAVAIL\<rparr>
     else if acpt_stat = PROG_MISMATCH then e\<lparr>re_status := RPC_PROGVERSMISMATCH\<rparr>
     else if acpt_stat = PROC_UNAVAIL then e\<lparr>re_status := RPC_PROCUNAVAIL\<rparr>
     else if acpt_stat = GARBAGE_ARGS then e\<lparr>re_status := RPC_CANTDECODEARGS\<rparr>
     else if acpt_stat = SYSTEM_ERR then e\<lparr>re_status := RPC_SYSTEMERROR\<rparr>
     else if acpt_stat = SUCCESS then e\<lparr>re_status := RPC_SUCCESS\<rparr>
     else put_s2 acpt_stat (put_s1 MSG_ACCEPTED (e\<lparr>re_status := RPC_FAILED\<rparr>)))"

text \<open>The first case is a value of \<open>clnt_stat\<close> and not of \<open>reject_stat\<close>.\<close>

definition rejected :: "int32 \<Rightarrow> rpc_err \<Rightarrow> rpc_err" where
  "rejected rjct_stat e =
    (if rjct_stat = RPC_VERSMISMATCH then e\<lparr>re_status := RPC_VERSMISMATCH\<rparr>
     else if rjct_stat = AUTH_ERROR then e\<lparr>re_status := RPC_AUTHERROR\<rparr>
     else put_s2 rjct_stat (put_s1 MSG_DENIED (e\<lparr>re_status := RPC_FAILED\<rparr>)))"

definition reply_status :: "('s, 'a) rpc_msg \<Rightarrow> rpc_err \<Rightarrow> rpc_err" where
  "reply_status m e =
    (if rp_stat (rm_reply m) = MSG_ACCEPTED then accepted (ar_stat (rp_acpt (rm_reply m))) e
     else if rp_stat (rm_reply m) = MSG_DENIED then rejected (rj_stat (rp_rjct (rm_reply m))) e
     else put_s1 (rp_stat (rm_reply m)) (e\<lparr>re_status := RPC_FAILED\<rparr>))"

text \<open>A successful reply returns at once.\<close>

definition seterr_reply :: "('s, 'a) rpc_msg \<Rightarrow> rpc_err \<Rightarrow> rpc_err" where
  "seterr_reply m e =
    (if rp_stat (rm_reply m) = MSG_ACCEPTED \<and> ar_stat (rp_acpt (rm_reply m)) = SUCCESS then e\<lparr>re_status := RPC_SUCCESS\<rparr>
     else
       let e = reply_status m e in
       if re_status e = RPC_VERSMISMATCH then put_vers (rj_vers (rp_rjct (rm_reply m))) e
       else if re_status e = RPC_AUTHERROR then put_why (rj_why (rp_rjct (rm_reply m))) e
       else if re_status e = RPC_PROGVERSMISMATCH then put_vers (ar_vers (rp_acpt (rm_reply m))) e
       else e)"

definition xdr_rpc_free_verifier :: "('s, ('s, 'a) rpc_msg) xdrproc" where
  "xdr_rpc_free_verifier xs m =
    (if rm_direction m = REPLY \<and> rp_stat (rm_reply m) = MSG_ACCEPTED \<and> ar_stat (rp_acpt (rm_reply m)) = SUCCESS \<and>
        oa_base (ar_verf (rp_acpt (rm_reply m))) \<noteq> NullP
     then xfield (\<lambda>m. ar_verf (rp_acpt (rm_reply m)))
            (\<lambda>v m. m\<lparr>rm_reply := (rm_reply m)\<lparr>rp_acpt := (rp_acpt (rm_reply m))\<lparr>ar_verf := v\<rparr>\<rparr>\<rparr>)
            xdr_opaque_auth (xs\<lparr>x_op := XDR_FREE\<rparr>) m
     else Ret (True, m, xs))"

end
