(* ===== verification/Rpc_Codec.thy ===== *)
theory Rpc_Codec
  imports Rpc_Msg Xdr_Filters "HOL-Library.Monad_Syntax"
begin

text \<open>
  What call and reply messages look like as bytes, as parsers on byte lists, and the proof that the
  decoders follow the parsers on every stream that keeps the contract of \<open>xdr_inline_stream\<close>,
  whichever of their two paths they take.
\<close>

section \<open>Streams with room to work in directly\<close>

text \<open>
  \<open>pos s p\<close> is the distance of an address from the start of the stream. A stream may refuse to give
  room; when it gives some, it has moved over it, and loads and stores behind the position reach it.
\<close>

locale xdr_inline_stream = xdr_stream +
  fixes pos :: "'a \<Rightarrow> ulong \<Rightarrow> nat"
  assumes inline: "wf s \<Longrightarrow> unat n < 2147483648 \<Longrightarrow>
      x_inline ops s n = (None, s) \<or> (\<exists>p s'. x_inline ops s n = (Some p, s') \<and> unat n \<le> length (ahead s) \<and> wf s' \<and>
        behind s' = behind s @ take (unat n) (ahead s) \<and> ahead s' = drop (unat n) (ahead s) \<and> pos s' p = length (behind s))"
    and pos_add: "wf s \<Longrightarrow> pos s p + unat i \<le> length (behind s) \<Longrightarrow> pos s (p + i) = pos s p + unat i"
    and pos_aligned: "wf s \<Longrightarrow> 4 dvd pos s p \<Longrightarrow> aligned p"
    and load: "wf s \<Longrightarrow> pos s p + k \<le> length (behind s) \<Longrightarrow> x_load ops s p k = Ret (take k (drop (pos s p) (behind s)))"
    and store: "wf s \<Longrightarrow> pos s p + length bs \<le> length (behind s) \<Longrightarrow>
      \<exists>s'. x_store ops s p bs = Ret s' \<and> wf s' \<and> ahead s' = ahead s \<and> pos s' = pos s \<and>
        behind s' = take (pos s p) (behind s) @ bs @ drop (pos s p + length bs) (behind s)"
begin

text \<open>
  \<open>room xs0 bs xs p rest\<close>: room was taken from the handle \<open>xs0\<close> on, the bytes \<open>bs\<close> of it are done,
  and \<open>p\<close> points to the others, which read \<open>rest\<close>.
\<close>

definition room :: "'a XDR \<Rightarrow> byte list \<Rightarrow> 'a XDR \<Rightarrow> ulong \<Rightarrow> byte list \<Rightarrow> bool" where
  "room xs0 bs xs p rest \<longleftrightarrow> good xs0 \<and> moved xs0 (bs @ rest) xs \<and> x_kmem xs = x_kmem xs0 \<and>
     pos (x_stream xs) p = length (behind (x_stream xs0)) + length bs \<and> whole bs"

lemma INLINE:
  assumes "good xs" "unat n < 2147483648"
  obtains "XDR_INLINE xs n = (None, xs)"
    | p xs' where "XDR_INLINE xs n = (Some p, xs')" "unat n \<le> length (left xs)" "room xs [] xs' p (take (unat n) (left xs))"
proof -
  have "wf (x_stream xs)" "x_ops xs = ops" using assms(1) by (simp_all add: good_def)
  from inline [OF this(1) assms(2)] show ?thesis
  proof (elim disjE exE conjE)
    assume "x_inline ops (x_stream xs) n = (None, x_stream xs)"
    then have "XDR_INLINE xs n = (None, xs)" by (simp add: XDR_INLINE_def \<open>x_ops xs = ops\<close>)
    then show ?thesis by (rule that(1))
  next
    fix p s'
    assume "x_inline ops (x_stream xs) n = (Some p, s')" "unat n \<le> length (ahead (x_stream xs))" "wf s'"
      "behind s' = behind (x_stream xs) @ take (unat n) (ahead (x_stream xs))" "ahead s' = drop (unat n) (ahead (x_stream xs))"
      "pos s' p = length (behind (x_stream xs))"
    then show ?thesis
      using assms(1) by (intro that(2) [of p "xs\<lparr>x_stream := s'\<rparr>"]) (simp_all add: XDR_INLINE_def \<open>x_ops xs = ops\<close> left_def room_def moved_def)
  qed
qed

lemma room_facts:
  assumes "room xs0 bs xs p rest"
  shows "x_ops xs = ops" "wf (x_stream xs)" "behind (x_stream xs) = behind (x_stream xs0) @ bs @ rest" "x_op xs = x_op xs0"
    "aligned p"
proof -
  show f: "x_ops xs = ops" "wf (x_stream xs)" "behind (x_stream xs) = behind (x_stream xs0) @ bs @ rest" "x_op xs = x_op xs0"
    using assms by (simp_all add: room_def moved_def good_def)
  have "4 dvd pos (x_stream xs) p" using assms by (simp add: room_def good_def whole_def dvd_add)
  then show "aligned p" by (rule pos_aligned [OF f(2)])
qed

lemma room_step:
  assumes "room xs0 bs xs p rest" "unat n \<le> length rest" "4 dvd unat n"
  shows "room xs0 (bs @ take (unat n) rest) xs (p + n) (drop (unat n) rest)"
proof -
  note f = room_facts [OF assms(1)]
  have "pos (x_stream xs) (p + n) = pos (x_stream xs) p + unat n"
    using assms(1,2) f(3) by (intro pos_add [OF f(2)]) (simp add: room_def)
  moreover have "whole (take (unat n) rest)" using assms(2,3) by (simp add: whole_def min_absorb2)
  ultimately show ?thesis using assms by (auto simp: room_def whole_append)
qed

lemma room_load:
  assumes "room xs0 bs xs p rest" "n \<le> length rest"
  shows "x_load (x_ops xs) (x_stream xs) p n = Ret (take n rest)"
proof -
  note f = room_facts [OF assms(1)]
  have p: "pos (x_stream xs) p = length (behind (x_stream xs0) @ bs)" using assms(1) by (simp add: room_def)
  have "take n (drop (pos (x_stream xs) p) (behind (x_stream xs))) = take n rest"
    unfolding p f(3) append_assoc [symmetric] by simp
  then show ?thesis using load [OF f(2), of p n] assms(2) p f(1,3) by simp
qed

lemma room_store:
  assumes "room xs0 bs xs p rest" "length w \<le> length rest"
  shows "\<exists>s. x_store (x_ops xs) (x_stream xs) p w = Ret s \<and> room xs0 bs (xs\<lparr>x_stream := s\<rparr>) p (w @ drop (length w) rest)"
proof -
  note f = room_facts [OF assms(1)]
  have p: "pos (x_stream xs) p = length (behind (x_stream xs0) @ bs)" using assms(1) by (simp add: room_def)
  have le: "pos (x_stream xs) p + length w \<le> length (behind (x_stream xs))" using assms(2) p f(3) by simp
  have d: "drop (pos (x_stream xs) p + length w) (behind (x_stream xs)) = drop (length w) rest"
    "take (pos (x_stream xs) p) (behind (x_stream xs)) = behind (x_stream xs0) @ bs"
    unfolding p f(3) append_assoc [symmetric] by simp_all
  obtain s where s: "x_store ops (x_stream xs) p w = Ret s" "wf s" "ahead s = ahead (x_stream xs)" "pos s = pos (x_stream xs)"
    "behind s = behind (x_stream xs0) @ bs @ w @ drop (length w) rest"
    using store [OF f(2) le] unfolding d by auto
  have "room xs0 bs (xs\<lparr>x_stream := s\<rparr>) p (w @ drop (length w) rest)"
    using assms s(2-5) by (simp add: room_def moved_def left_def)
  then show ?thesis using s(1) f(1) by auto
qed

lemma room_put:
  assumes "room xs0 bs xs p rest" "4 \<le> length rest"
  shows "\<exists>xs'. IXDR_PUT_LONG xs p v = Ret (p + 4, xs') \<and> room xs0 (bs @ enc32 v) xs' (p + 4) (drop 4 rest)"
proof -
  obtain s where s: "x_store (x_ops xs) (x_stream xs) p (enc32 v) = Ret s"
    "room xs0 bs (xs\<lparr>x_stream := s\<rparr>) p (enc32 v @ drop 4 rest)" using room_store [OF assms(1), of "enc32 v"] assms(2) by auto
  then show ?thesis using room_step [OF s(2), of 4] room_facts(5) [OF assms(1)] by (simp add: IXDR_PUT_LONG_def)
qed

lemma room_get:
  assumes "room xs0 bs xs p rest" "4 \<le> length rest"
  shows "IXDR_GET_LONG xs p = Ret (dec32 rest, p + 4)" "room xs0 (bs @ take 4 rest) xs (p + 4) (drop 4 rest)"
  using room_load [OF assms] room_facts(5) [OF assms(1)] room_step [OF assms(1), of 4] assms(2) by (simp_all add: IXDR_GET_LONG_def)

lemma room_moved: "room xs0 bs xs p rest \<Longrightarrow> moved xs0 (bs @ rest) xs" "room xs0 bs xs p rest \<Longrightarrow> x_kmem xs = x_kmem xs0"
  by (simp_all add: room_def)

lemma room_done:
  assumes "room xs0 bs xs p rest" "whole rest"
  shows "good xs"
  using assms moved_good [of xs0 "bs @ rest" xs] by (simp add: room_def whole_append)

end

section \<open>Parsers\<close>

definition parse_long :: "byte list \<Rightarrow> (int32 \<times> byte list) option" where
  "parse_long bs = (if 4 \<le> length bs then Some (dec32 bs, drop 4 bs) else None)"

definition parse_opaque :: "nat \<Rightarrow> byte list \<Rightarrow> (byte list \<times> byte list) option" where
  "parse_opaque n bs = (if n + pad n \<le> length bs then Some (take n bs, drop (n + pad n) bs) else None)"

text \<open>The body of an authentication structure of a given flavor and length, and the whole.\<close>

definition parse_body :: "int32 \<Rightarrow> ulong \<Rightarrow> byte list \<Rightarrow> ((int32 \<times> byte list) \<times> byte list) option" where
  "parse_body f n bs =
    (if n > MAX_AUTH_BYTES then None else do { (body, bs) \<leftarrow> parse_opaque (unat n) bs; Some ((f, body), bs) })"

definition parse_auth :: "byte list \<Rightarrow> ((int32 \<times> byte list) \<times> byte list) option" where
  "parse_auth bs = do { (f, bs) \<leftarrow> parse_long bs; (n, bs) \<leftarrow> parse_long bs; parse_body f n bs }"

record call_view =
  v_xid :: ulong
  v_prog :: ulong
  v_vers :: ulong
  v_proc :: ulong
  v_cred :: "int32 \<times> byte list"
  v_verf :: "int32 \<times> byte list"

definition parse_call :: "byte list \<Rightarrow> (call_view \<times> byte list) option" where
  "parse_call bs = do {
     (xid, bs) \<leftarrow> parse_long bs;
     (dir, bs) \<leftarrow> parse_long bs;
     if dir \<noteq> CALL then None else do {
       (rpcvers, bs) \<leftarrow> parse_long bs;
       if rpcvers \<noteq> RPC_MSG_VERSION then None else do {
         (prog, bs) \<leftarrow> parse_long bs;
         (vers, bs) \<leftarrow> parse_long bs;
         (pr, bs) \<leftarrow> parse_long bs;
         (cred, bs) \<leftarrow> parse_auth bs;
         (verf, bs) \<leftarrow> parse_auth bs;
         Some (\<lparr>v_xid = xid, v_prog = prog, v_vers = vers, v_proc = pr, v_cred = cred, v_verf = verf\<rparr>, bs) } } }"

lemma parse_long_enc [simp]: "parse_long (enc32 v @ bs) = Some (v, bs)"
  by (simp add: parse_long_def dec_enc32)

definition auth_is :: "opaque_auth \<Rightarrow> int32 \<times> byte list \<Rightarrow> bool" where
  "auth_is oa v \<longleftrightarrow> oa_flavor oa = fst v \<and> unat (oa_length oa) = length (snd v) \<and> take (length (snd v)) (cbytes (oa_base oa)) = snd v"

definition call_is :: "('s, 'a) rpc_msg \<Rightarrow> call_view \<Rightarrow> bool" where
  "call_is m v \<longleftrightarrow> rm_xid m = v_xid v \<and> rm_direction m = CALL \<and> cb_rpcvers (rm_call m) = RPC_MSG_VERSION \<and> cb_prog (rm_call m) = v_prog v \<and>
     cb_vers (rm_call m) = v_vers v \<and> cb_proc (rm_call m) = v_proc v \<and> auth_is (cb_cred (rm_call m)) (v_cred v) \<and> auth_is (cb_verf (rm_call m)) (v_verf v)"

text \<open>Memory to decode into is either none or large enough for the longest body.\<close>

definition ini_base :: "cptr \<Rightarrow> bool" where
  "ini_base p \<longleftrightarrow> p = NullP \<or> (\<exists>m. p = Mem m \<and> unat MAX_AUTH_BYTES \<le> length m)"

section \<open>Decoders that follow a parser\<close>

context xdr_stream
begin

text \<open>
  Either the parser accepts and the decoder returns an object for the value, at the place where the
  parser stops, or it does not and the decoder fails. In no case does the decoder fault.
\<close>

definition follows :: "('v \<times> byte list) option \<Rightarrow> ('r \<Rightarrow> 'v \<Rightarrow> 's XDR \<Rightarrow> bool) \<Rightarrow> (bool \<times> 'r \<times> 's XDR) kres \<Rightarrow> bool" where
  "follows pr V res \<longleftrightarrow>
    (case pr of
       None \<Rightarrow> \<exists>r xs. res = Ret (False, r, xs)
     | Some (v, rest) \<Rightarrow> \<exists>r xs. res = Ret (True, r, xs) \<and> good xs \<and> x_op xs = XDR_DECODE \<and> left xs = rest \<and> V r v xs)"

lemma follows_None: "follows None V (Ret (False, r, xs))"
  by (simp add: follows_def)

lemma follows_Some: "good xs \<Longrightarrow> x_op xs = XDR_DECODE \<Longrightarrow> V r v xs \<Longrightarrow> left xs = rest \<Longrightarrow> follows (Some (v, rest)) V (Ret (True, r, xs))"
  by (simp add: follows_def)

lemma follows_mono: "follows pr V res \<Longrightarrow> (\<And>r v xs. V r v xs \<Longrightarrow> W r v xs) \<Longrightarrow> follows pr W res"
  by (auto simp: follows_def split: option.splits)

lemma follows_value:
  assumes "follows pr V res" "\<And>r v xs. V r v xs \<Longrightarrow> W r (h v) xs"
  shows "follows (pr \<bind> (\<lambda>(v, bs). Some (h v, bs))) W res"
  using assms by (auto simp: follows_def split: option.splits)

lemma follows_map:
  assumes "follows pr V res" "\<And>r v xs. V r v xs \<Longrightarrow> W (g r) (h v) xs"
  shows "follows (pr \<bind> (\<lambda>(v, bs). Some (h v, bs))) W (kbind res (\<lambda>(b, r, xs). Ret (b, g r, xs)))"
proof (cases pr)
  case None
  then obtain r xs where "res = Ret (False, r, xs)" using assms(1) by (auto simp: follows_def)
  then show ?thesis using None by (simp add: follows_None)
next
  case (Some a)
  then obtain r xs where "res = Ret (True, r, xs)" "good xs" "x_op xs = XDR_DECODE" "left xs = snd a" "V r (fst a) xs"
    using assms(1) by (auto simp: follows_def split: prod.splits)
  then show ?thesis using assms(2) [of r "fst a" xs] Some by (cases a) (simp add: follows_Some)
qed

lemma follows_field:
  assumes "follows pr V (p xs (get d))" "\<And>r v xs. V r v xs \<Longrightarrow> W (put r d) v xs"
  shows "follows pr W (xfield get put p xs d)"
  using follows_map [OF assms(1), where h = "\<lambda>v. v" and g = "\<lambda>v. put v d" and W = W] assms(2) by (simp add: xfield_def)

lemma follows_all:
  assumes "follows pr V (p xs d)"
    and "\<And>r v xs. V r v xs \<Longrightarrow> good xs \<Longrightarrow> x_op xs = XDR_DECODE \<Longrightarrow> follows (pr' (v, left xs)) W (xall ps xs r)"
  shows "follows (pr \<bind> pr') W (xall (p # ps) xs d)"
proof (cases pr)
  case None
  then obtain r xs' where "p xs d = Ret (False, r, xs')" using assms(1) by (auto simp: follows_def)
  then show ?thesis using None by (simp add: follows_None)
next
  case (Some a)
  then obtain r xs' where "p xs d = Ret (True, r, xs')" "good xs'" "x_op xs' = XDR_DECODE" "left xs' = snd a" "V r (fst a) xs'"
    using assms(1) by (auto simp: follows_def split: prod.splits)
  then show ?thesis using assms(2) [of r "fst a" xs'] Some by simp
qed

lemma follows_last:
  assumes "follows pr W (p xs d)"
  shows "follows pr W (xall [p] xs d)"
  using follows_all [of pr W p xs d Some W "[]"] assms by (simp add: follows_Some)

lemma follows_test:
  assumes "Q \<longleftrightarrow> \<not> P d" "\<not> Q \<Longrightarrow> follows pr W (xall ps xs d)"
  shows "follows (if Q then None else pr) W (xall (xtest P # ps) xs d)"
  using assms by (auto simp: xtest_def follows_None)

lemma follows_long:
  assumes "good xs" "x_op xs = XDR_DECODE"
  shows "follows (parse_long (left xs)) (\<lambda>r v xs'. r = v \<and> x_kmem xs' = x_kmem xs) (xdr_u_long xs d)"
    "follows (parse_long (left xs)) (\<lambda>r v xs'. r = v \<and> x_kmem xs' = x_kmem xs) (xdr_enum xs d)"
    "follows (parse_long (left xs)) (\<lambda>r v xs'. r = v \<and> x_kmem xs' = x_kmem xs) (xdr_u_int xs d)"
proof -
  have eq: "xdr_u_long xs d = xdr_u_int xs d" "xdr_enum xs d = xdr_u_int xs d"
    using assms(2) by (simp_all add: xdr_enum_def xdr_long_def xdr_u_int_def xdr_u_long_def)
  show u: "follows (parse_long (left xs)) (\<lambda>r v xs'. r = v \<and> x_kmem xs' = x_kmem xs) (xdr_u_int xs d)"
  proof (cases "4 \<le> length (left xs)")
    case True
    then obtain xs' where "xdr_u_int xs d = Ret (True, dec32 (left xs), xs')" "moved xs (take 4 (left xs)) xs'" "x_kmem xs' = x_kmem xs"
      using u_int_decode [OF assms, of d] by auto
    then show ?thesis using True moved_good [OF assms(1) _ whole_take4 [OF True]] moved_op moved_left assms(2)
      by (simp add: parse_long_def follows_def)
  next
    case False
    then show ?thesis using u_int_decode [OF assms, of d] by (auto simp: parse_long_def follows_def)
  qed
  then show "follows (parse_long (left xs)) (\<lambda>r v xs'. r = v \<and> x_kmem xs' = x_kmem xs) (xdr_u_long xs d)"
    "follows (parse_long (left xs)) (\<lambda>r v xs'. r = v \<and> x_kmem xs' = x_kmem xs) (xdr_enum xs d)"
    unfolding eq by assumption+
qed

lemma follows_opaque:
  assumes "good xs" "x_op xs = XDR_DECODE" "unat n < 2147483648" "unat n \<le> length m"
  shows "follows (parse_opaque (unat n) (left xs)) (\<lambda>r v xs'. length v = unat n \<and> r = Mem (v @ drop (unat n) m) \<and> x_kmem xs' = x_kmem xs)
    (xdr_opaque n xs (Mem m))"
proof (cases "unat n + pad (unat n) \<le> length (left xs)")
  case True
  then obtain xs' where o: "xdr_opaque n xs (Mem m) = Ret (True, Mem (take (unat n) (left xs) @ drop (unat n) m), xs')"
    "moved xs (take (unat n + pad (unat n)) (left xs)) xs'" "x_kmem xs' = x_kmem xs" using opaque_decode [OF assms] by auto
  have "whole (take (unat n + pad (unat n)) (left xs))" using True pad_unit(1) by (simp add: whole_def min_absorb2)
  then have "good xs'" by (rule moved_good [OF assms(1) o(2)])
  then show ?thesis using True o moved_op [OF o(2)] moved_left [OF o(2)] assms(2)
    by (auto simp: parse_opaque_def follows_def min_absorb2)
next
  case False
  then show ?thesis using opaque_decode [OF assms] by (auto simp: parse_opaque_def follows_def)
qed

text \<open>The memory for a body: the memory given, or new memory of its length.\<close>

lemma auth_memory:
  assumes "ini_base sp" "n \<le> MAX_AUTH_BYTES"
  obtains m k where "(if sp = NullP then (case mem_alloc xs n of (m, xs) \<Rightarrow> (Mem m, xs)) else (sp, xs)) = (Mem m, xs\<lparr>x_kmem := k\<rparr>)"
    "unat n \<le> length m" "sp = NullP \<Longrightarrow> length m = unat n \<and> k = x_kmem xs + unat n"
proof (cases "sp = NullP")
  case True
  then show ?thesis by (intro that [of "map (x_fresh xs) [0..<unat n]" "x_kmem xs + unat n"]) (simp_all add: mem_alloc_def)
next
  case False
  then obtain m where "sp = Mem m" "unat n \<le> length m"
    using assms by (auto simp: ini_base_def word_le_nat_alt)
  then show ?thesis by (intro that [of m "x_kmem xs"]) simp_all
qed

lemma auth_small: "n \<le> MAX_AUTH_BYTES \<Longrightarrow> unat n \<le> 400"
  by (simp add: MAX_AUTH_BYTES_def word_le_nat_alt)

text \<open>What the decoders of a body leave: with no memory given, memory of exactly the length.\<close>

definition body_is :: "cptr \<Rightarrow> nat \<Rightarrow> opaque_auth \<Rightarrow> int32 \<times> byte list \<Rightarrow> 's XDR \<Rightarrow> bool" where
  "body_is sp k oa v xs \<longleftrightarrow> auth_is oa v \<and>
    (sp = NullP \<longrightarrow> oa_base oa = (if snd v = [] then NullP else Mem (snd v)) \<and> x_kmem xs = k + length (snd v))"

lemma body_opaque:
  assumes "good xs" "x_op xs = XDR_DECODE" "ini_base sp" "n \<le> MAX_AUTH_BYTES" "n \<noteq> 0"
  shows "follows (parse_body f n (left xs)) (body_is sp (x_kmem xs))
    (let (p, xs) = (if sp = NullP then (case mem_alloc xs n of (m, xs) \<Rightarrow> (Mem m, xs)) else (sp, xs))
     in kbind (xdr_opaque n xs p) (\<lambda>(b, p, xs). Ret (b, \<lparr>oa_flavor = f, oa_base = p, oa_length = n\<rparr>, xs)))"
proof -
  obtain m k where m: "(if sp = NullP then (case mem_alloc xs n of (m, xs) \<Rightarrow> (Mem m, xs)) else (sp, xs)) = (Mem m, xs\<lparr>x_kmem := k\<rparr>)"
    "unat n \<le> length m" "sp = NullP \<Longrightarrow> length m = unat n \<and> k = x_kmem xs + unat n" using auth_memory [OF assms(3,4)] by metis
  have "unat n < 2147483648" using auth_small [OF assms(4)] by simp
  then have "follows (parse_opaque (unat n) (left xs)) (\<lambda>r v xs'. length v = unat n \<and> r = Mem (v @ drop (unat n) m) \<and> x_kmem xs' = k)
      (xdr_opaque n (xs\<lparr>x_kmem := k\<rparr>) (Mem m))"
    using follows_opaque [of "xs\<lparr>x_kmem := k\<rparr>" n m] assms m(2) by simp
  moreover have "unat n \<noteq> 0" using assms(5) by (simp add: unat_eq_zero)
  ultimately have "follows (parse_opaque (unat n) (left xs) \<bind> (\<lambda>(v, bs). Some ((f, v), bs))) (body_is sp (x_kmem xs))
      (kbind (xdr_opaque n (xs\<lparr>x_kmem := k\<rparr>) (Mem m)) (\<lambda>(b, p, xs). Ret (b, \<lparr>oa_flavor = f, oa_base = p, oa_length = n\<rparr>, xs)))"
    using m(3) by (elim follows_map) (auto simp: body_is_def auth_is_def)
  then show ?thesis unfolding m(1) using assms(4) by (simp add: parse_body_def not_less [symmetric])
qed

lemma body_empty:
  assumes "good xs" "x_op xs = XDR_DECODE"
  shows "follows (parse_body f 0 (left xs)) (body_is sp (x_kmem xs)) (Ret (True, \<lparr>oa_flavor = f, oa_base = sp, oa_length = 0\<rparr>, xs))"
  using assms by (auto simp: parse_body_def parse_opaque_def follows_def body_is_def auth_is_def MAX_AUTH_BYTES_def)

lemma follows_auth:
  assumes "good xs" "x_op xs = XDR_DECODE" "ini_base (oa_base d)"
  shows "follows (parse_auth (left xs)) (body_is (oa_base d) (x_kmem xs)) (xdr_opaque_auth xs d)"
  unfolding xdr_opaque_auth_def parse_auth_def
proof (rule follows_all)
  show "follows (parse_long (left xs)) (\<lambda>r v xs'. r = d\<lparr>oa_flavor := v\<rparr> \<and> x_kmem xs' = x_kmem xs)
      (xfield oa_flavor (\<lambda>v a. a\<lparr>oa_flavor := v\<rparr>) xdr_enum xs d)"
    by (rule follows_field, rule follows_long [OF assms(1,2)]) simp
next
  fix r :: opaque_auth and f xs'
  assume "r = d\<lparr>oa_flavor := f\<rparr> \<and> x_kmem xs' = x_kmem xs" and g: "good xs'" "x_op xs' = XDR_DECODE"
  moreover obtain n0 where "d\<lparr>oa_flavor := f\<rparr> = \<lparr>oa_flavor = f, oa_base = oa_base d, oa_length = n0\<rparr>" by (cases d) simp
  ultimately have r: "r = \<lparr>oa_flavor = f, oa_base = oa_base d, oa_length = n0\<rparr>" "x_kmem xs' = x_kmem xs" by simp_all
  let ?p = "xfield (\<lambda>a. (oa_base a, oa_length a)) (\<lambda>(p, n) a. a\<lparr>oa_base := p, oa_length := n\<rparr>) (xdr_bytes MAX_AUTH_BYTES)"
  have "follows (parse_long (left xs') \<bind> (\<lambda>(n, bs). parse_body f n bs)) (body_is (oa_base d) (x_kmem xs)) (?p xs' r)"
  proof (cases "4 \<le> length (left xs')")
    case False
    then obtain xs1 where "xdr_u_int xs' (oa_length r) = Ret (False, oa_length r, xs1)" using u_int_decode [OF g, of "oa_length r"] by auto
    then show ?thesis using False by (auto simp: parse_long_def follows_def xfield_def xdr_bytes_def)
  next
    case True
    define n where "n = dec32 (left xs')"
    obtain xs1 where 1: "xdr_u_int xs' (oa_length r) = Ret (True, n, xs1)" "moved xs' (take 4 (left xs')) xs1" "x_kmem xs1 = x_kmem xs'"
      using u_int_decode [OF g, of "oa_length r"] True by (auto simp: n_def)
    have g1: "good xs1" "x_op xs1 = XDR_DECODE" using moved_good [OF g(1) 1(2) whole_take4 [OF True]] moved_op [OF 1(2)] g(2) by simp_all
    have pr: "(parse_long (left xs') \<bind> (\<lambda>(n, bs). parse_body f n bs)) = parse_body f n (left xs1)"
      using True moved_left [OF 1(2)] by (simp add: parse_long_def n_def)
    consider "n > MAX_AUTH_BYTES" | "n = 0" | "\<not> n > MAX_AUTH_BYTES" "n \<noteq> 0" by blast
    then show ?thesis
    proof cases
      case 1
      then show ?thesis using \<open>xdr_u_int xs' _ = _\<close> g1 unfolding pr
        by (simp add: parse_body_def follows_def xfield_def xdr_bytes_def)
    next
      case 2
      then show ?thesis using \<open>xdr_u_int xs' _ = _\<close> g1 body_empty [OF g1, of f "oa_base d"] r \<open>x_kmem xs1 = _\<close> unfolding pr
        by (simp add: xfield_def xdr_bytes_def MAX_AUTH_BYTES_def)
    next
      case 3
      let ?m = "if oa_base d = NullP then (case mem_alloc xs1 n of (m, xs) \<Rightarrow> (Mem m, xs)) else (oa_base d, xs1)"
      have "?p xs' r = (let (p, xs) = ?m in kbind (xdr_opaque n xs p) (\<lambda>(b, p, xs). Ret (b, \<lparr>oa_flavor = f, oa_base = p, oa_length = n\<rparr>, xs)))"
        using \<open>xdr_u_int xs' _ = _\<close> g1 r(1) 3 by (simp add: xfield_def xdr_bytes_def mem_alloc_def kbind_assoc case_prod_beta')
      then show ?thesis using body_opaque [OF g1 assms(3), of n f] 3 r(2) \<open>x_kmem xs1 = _\<close> unfolding pr by (simp add: not_less)
    qed
  qed
  then show "follows (case (f, left xs') of (f, bs) \<Rightarrow> parse_long bs \<bind> (\<lambda>(n, bs). parse_body f n bs)) (body_is (oa_base d) (x_kmem xs)) (xall [?p] xs' r)"
    unfolding prod.case by (rule follows_last)
qed

end

end
