(* ===== verification/Rpc_Call.thy ===== *)
theory Rpc_Call
  imports Rpc_Codec
begin

text \<open>
  Call messages: decoding follows \<open>parse_call\<close> on both paths, and encoding produces bytes that
  \<open>parse_call\<close> accepts, also on both.
\<close>

lemma unat_RNDUP: "unat n < 2147483648 \<Longrightarrow> unat (RNDUP n) = unat n + pad (unat n)"
proof -
  assume n: "unat n < 2147483648"
  have "unat (n + 4 - 1) = unat n + 3" using n by (simp add: unat_add_nowrap)
  then have q: "unat ((n + 4 - 1) div 4) = (unat n + 3) div 4" by (simp add: unat_div)
  have "(unat n + 3) div 4 * 4 < 4294967296" using n by simp
  then have "unat (RNDUP n) = (unat n + 3) div 4 * 4"
    using q by (simp add: RNDUP_def BYTES_PER_XDR_UNIT_def unat_mult_nowrap)
  moreover have "(k + 3) div 4 * 4 = k + pad k" for k :: nat
  proof -
    obtain q r where "k = 4 * q + r" "r < 4" using mult_div_mod_eq [of 4 k] by (metis mod_less_divisor zero_less_numeral)
    moreover have "r = 0 \<or> r = 1 \<or> r = 2 \<or> r = 3" using \<open>r < 4\<close> by linarith
    ultimately show ?thesis by (auto simp: pad_def)
  qed
  ultimately show ?thesis by simp
qed

section \<open>Decoding\<close>

context xdr_inline_stream
begin

lemma follows_get:
  assumes "room xs0 bs xs p rest" "4 \<le> length rest"
    and "room xs0 (bs @ take 4 rest) xs (p + 4) (drop 4 rest) \<Longrightarrow> follows (pr (dec32 rest, drop 4 rest @ left xs)) V (k (dec32 rest, p + 4))"
  shows "follows (parse_long (rest @ left xs) \<bind> pr) V (kbind (IXDR_GET_LONG xs p) k)"
proof -
  have "dec32 (rest @ left xs) = dec32 rest"
    using dec_take4 [of "rest @ left xs"] dec_take4 [OF assms(2)] assms(2) by simp
  then show ?thesis using room_get [OF assms(1,2)] assms(2,3) by (simp add: parse_long_def)
qed

lemma follows_if:
  assumes "P \<longleftrightarrow> Q" "\<not> P \<Longrightarrow> follows pr V res"
  shows "follows (if P then None else pr) V (if Q then Ret (False, r, xs) else res)"
  using assms by (auto simp: follows_None)

text \<open>Room for the rest of the parser: the window it stands in, and what is left behind it.\<close>

lemma room_left: "room xs0 [] xs p (take n (left xs0)) \<Longrightarrow> take n (left xs0) @ left xs = left xs0"
  using room_moved(1) [of xs0 "[]" xs p "take n (left xs0)"] moved_left [of xs0 "take n (left xs0)" xs] by (auto simp: min_def)

lemma follows_hdr:
  assumes "good xs" "x_op xs = XDR_DECODE"
  shows "follows (parse_long (left xs) \<bind> (\<lambda>(f, bs). parse_long bs \<bind> (\<lambda>(n, bs). Some ((f, n), bs))))
    (\<lambda>r v xs'. r = d\<lparr>oa_flavor := fst v, oa_length := snd v\<rparr> \<and> x_kmem xs' = x_kmem xs) (auth_hdr xs d)"
proof (rule INLINE [OF assms(1), of "2 * BYTES_PER_XDR_UNIT"])
  show "unat (2 * BYTES_PER_XDR_UNIT) < 2147483648" by (simp add: BYTES_PER_XDR_UNIT_def)
next
  assume n: "XDR_INLINE xs (2 * BYTES_PER_XDR_UNIT) = (None, xs)"
  show ?thesis unfolding auth_hdr_def n prod.case option.case
  proof (rule follows_all)
    show "follows (parse_long (left xs)) (\<lambda>r v xs'. r = d\<lparr>oa_flavor := v\<rparr> \<and> x_kmem xs' = x_kmem xs)
        (xfield oa_flavor (\<lambda>v a. a\<lparr>oa_flavor := v\<rparr>) xdr_enum xs d)"
      by (rule follows_field, rule follows_long [OF assms]) simp
    fix r :: opaque_auth and f xs'
    assume r: "r = d\<lparr>oa_flavor := f\<rparr> \<and> x_kmem xs' = x_kmem xs" and g: "good xs'" "x_op xs' = XDR_DECODE"
    have "follows (parse_long (left xs') \<bind> (\<lambda>(n, bs). Some ((f, n), bs)))
        (\<lambda>r v xs'. r = d\<lparr>oa_flavor := fst v, oa_length := snd v\<rparr> \<and> x_kmem xs' = x_kmem xs)
        (xfield oa_length (\<lambda>v a. a\<lparr>oa_length := v\<rparr>) xdr_u_int xs' r)"
      unfolding xfield_def by (rule follows_map [OF follows_long(3) [OF g]]) (use r in simp)
    then show "follows (case (f, left xs') of (f, bs) \<Rightarrow> parse_long bs \<bind> (\<lambda>(n, bs). Some ((f, n), bs)))
        (\<lambda>r v xs'. r = d\<lparr>oa_flavor := fst v, oa_length := snd v\<rparr> \<and> x_kmem xs' = x_kmem xs)
        (xall [xfield oa_length (\<lambda>v a. a\<lparr>oa_length := v\<rparr>) xdr_u_int] xs' r)"
      unfolding prod.case by (rule follows_last)
  qed
next
  fix p xs'
  assume i: "XDR_INLINE xs (2 * BYTES_PER_XDR_UNIT) = (Some p, xs')" "unat (2 * BYTES_PER_XDR_UNIT) \<le> length (left xs)"
    "room xs [] xs' p (take (unat (2 * BYTES_PER_XDR_UNIT)) (left xs))"
  have e: "unat (2 * BYTES_PER_XDR_UNIT) = 8" by (simp add: BYTES_PER_XDR_UNIT_def)
  define rest where "rest = take 8 (left xs)"
  have rm: "room xs [] xs' p rest" "length rest = 8" using i(2,3) unfolding e rest_def by simp_all
  have l: "left xs = rest @ left xs'" using room_left i(3) unfolding e rest_def by simp
  have g: "good xs'" using room_done [OF rm(1)] rm(2) by (simp add: whole_def)
  have o: "x_op xs' = XDR_DECODE" using room_facts(4) [OF rm(1)] assms(2) by simp
  show ?thesis unfolding auth_hdr_def i(1) prod.case option.case l
    apply (rule follows_get [OF rm(1)], simp add: rm(2), simp only: prod.case)
    apply (rule follows_get, assumption, simp add: rm(2), simp only: prod.case)
    apply (rule follows_Some [OF g o])
    using rm room_moved(2) [OF rm(1)] by simp_all
qed

text \<open>The body of a credential or verifier, in the buffer of the stream or in memory.\<close>

lemma follows_call_auth:
  assumes "good xs" "x_op xs = XDR_DECODE" "ini_base (oa_base oa)"
  shows "follows (parse_body (oa_flavor oa) (oa_length oa) (left xs)) (\<lambda>r v xs. auth_is r v) (call_auth xs oa)"
proof -
  obtain f sp n where oa: "oa = \<lparr>oa_flavor = f, oa_base = sp, oa_length = n\<rparr>" by (cases oa) simp
  have b: "\<And>r v xs'. body_is sp (x_kmem xs) r v xs' \<Longrightarrow> auth_is r v" by (simp add: body_is_def)
  consider "n = 0" | "n > MAX_AUTH_BYTES" | "n \<noteq> 0" "n \<le> MAX_AUTH_BYTES" by (metis not_less)
  then show ?thesis
  proof cases
    case 1
    then show ?thesis using follows_mono [OF body_empty [OF assms(1,2), of f sp] b] by (simp add: oa call_auth_def)
  next
    case 2
    then show ?thesis by (auto simp: oa call_auth_def parse_body_def follows_None)
  next
    case 3
    have n: "unat n < 2147483648" "unat (RNDUP n) = unat n + pad (unat n)"
      using auth_small [OF 3(2)] unat_RNDUP [of n] by simp_all
    have s: "unat (RNDUP n) < 2147483648" using n(2) auth_small [OF 3(2)] pad_unit(2) [of "unat n"] by linarith
    from INLINE [OF assms(1) s] show ?thesis
    proof cases
      case 1
      have "ini_base sp" using assms(3) by (simp add: oa)
      from follows_mono [OF body_opaque [OF assms(1,2) this 3(2,1), of f], where W = "\<lambda>r v xs. auth_is r v"] b 1 3
      show ?thesis by (cases "sp = NullP") (simp_all add: oa call_auth_def mem_alloc_def not_less [symmetric])
    next
      case (2 p xs')
      define rest where "rest = take (unat n + pad (unat n)) (left xs)"
      have rm: "room xs [] xs' p rest" "length rest = unat n + pad (unat n)" using 2(2,3) unfolding n(2) rest_def by simp_all
      have g: "good xs'" using room_done [OF rm(1)] rm(2) pad_unit(1) by (simp add: whole_def)
      have l: "left xs' = drop (unat n + pad (unat n)) (left xs)" "take (unat n) rest = take (unat n) (left xs)"
        using moved_left [OF room_moved(1) [OF rm(1)]] rm(2) by (simp_all add: rest_def)
      have "auth_is \<lparr>oa_flavor = f, oa_base = Buf rest, oa_length = n\<rparr> (f, take (unat n) rest)" using rm(2) by (simp add: auth_is_def)
      moreover have "x_op xs' = XDR_DECODE" using room_facts(4) [OF rm(1)] assms(2) by simp
      ultimately show ?thesis using 2(1,2) 3 rm(2) room_load [OF rm(1), of "unat n + pad (unat n)"] g l
        by (simp add: oa call_auth_def parse_body_def parse_opaque_def n(2) follows_Some not_less [symmetric])
    qed
  qed
qed

text \<open>The tail of both paths: the verifier after the credentials.\<close>

definition tail_is :: "call_body \<Rightarrow> (int32 \<times> byte list) \<times> (int32 \<times> byte list) \<Rightarrow> call_body \<Rightarrow> bool" where
  "tail_is c v c' \<longleftrightarrow> auth_is (cb_cred c') (fst v) \<and> auth_is (cb_verf c') (snd v) \<and> cb_rpcvers c' = cb_rpcvers c \<and> cb_prog c' = cb_prog c \<and>
     cb_vers c' = cb_vers c \<and> cb_proc c' = cb_proc c"

lemma parse_auth_bind:
  "parse_auth bs \<bind> g = parse_long bs \<bind> (\<lambda>(f, bs). parse_long bs \<bind> (\<lambda>(n, bs). parse_body f n bs \<bind> g))"
  by (auto simp: parse_auth_def split: bind_splits prod.splits)

lemma parse_auth_hdr:
  "parse_auth bs = (parse_long bs \<bind> (\<lambda>(f, bs). parse_long bs \<bind> (\<lambda>(n, bs). Some ((f, n), bs)))) \<bind> (\<lambda>(v, bs). parse_body (fst v) (snd v) bs)"
  by (auto simp: parse_auth_def split: bind_splits prod.splits)

lemma follows_verf:
  assumes "good xs" "x_op xs = XDR_DECODE" "ini_base (oa_base oa)"
  shows "follows (parse_auth (left xs)) (\<lambda>r v xs. auth_is r v) (xall [auth_hdr, call_auth] xs oa)"
  unfolding parse_auth_hdr
proof (rule follows_all, rule follows_hdr [OF assms(1,2)])
  fix r :: opaque_auth and v :: "int32 \<times> ulong" and xs'
  assume "r = oa\<lparr>oa_flavor := fst v, oa_length := snd v\<rparr> \<and> x_kmem xs' = x_kmem xs" and g: "good xs'" "x_op xs' = XDR_DECODE"
  then show "follows (case (v, left xs') of (v, bs) \<Rightarrow> parse_body (fst v) (snd v) bs) (\<lambda>r v xs. auth_is r v) (xall [call_auth] xs' r)"
    using follows_call_auth [OF g, of r] assms(3) by (intro follows_last) simp
qed

text \<open>Both fields, with the first two words of the credentials read already or with the filters of \<open>xdr.c\<close>.\<close>

lemma follows_tail:
  assumes "good xs" "x_op xs = XDR_DECODE" "ini_base (oa_base (cb_verf c))"
    and cred: "follows pr (\<lambda>r v xs. auth_is r v) (cp xs (cb_cred c))"
    and verf: "\<And>xs oa. good xs \<Longrightarrow> x_op xs = XDR_DECODE \<Longrightarrow> ini_base (oa_base oa) \<Longrightarrow> follows (parse_auth (left xs)) (\<lambda>r v xs. auth_is r v) (vp xs oa)"
  shows "follows (pr \<bind> (\<lambda>(cred, bs). parse_auth bs \<bind> (\<lambda>(verf, bs). Some ((cred, verf), bs)))) (\<lambda>r v xs. tail_is c v r)
    (xall [xfield cb_cred (\<lambda>v c. c\<lparr>cb_cred := v\<rparr>) cp, xfield cb_verf (\<lambda>v c. c\<lparr>cb_verf := v\<rparr>) vp] xs c)"
proof (rule follows_all)
  show "follows pr (\<lambda>r v xs. auth_is (cb_cred r) v \<and> (\<exists>a. r = c\<lparr>cb_cred := a\<rparr>)) (xfield cb_cred (\<lambda>v c. c\<lparr>cb_cred := v\<rparr>) cp xs c)"
    by (rule follows_field, rule cred) auto
  fix r :: call_body and v xs'
  assume r: "auth_is (cb_cred r) v \<and> (\<exists>a. r = c\<lparr>cb_cred := a\<rparr>)" and g: "good xs'" "x_op xs' = XDR_DECODE"
  have "follows (parse_auth (left xs')) (\<lambda>r v xs. auth_is r v) (vp xs' (cb_verf r))" using verf [OF g] assms(3) r by auto
  then have "follows (parse_auth (left xs') \<bind> (\<lambda>(verf, bs). Some ((v, verf), bs))) (\<lambda>r v xs. tail_is c v r)
      (xfield cb_verf (\<lambda>v c. c\<lparr>cb_verf := v\<rparr>) vp xs' r)"
    unfolding xfield_def by (rule follows_map) (use r in \<open>auto simp: tail_is_def\<close>)
  then show "follows (case (v, left xs') of (cred, bs) \<Rightarrow> parse_auth bs \<bind> (\<lambda>(verf, bs). Some ((cred, verf), bs))) (\<lambda>r v xs. tail_is c v r)
      (xall [xfield cb_verf (\<lambda>v c. c\<lparr>cb_verf := v\<rparr>) vp] xs' r)"
    unfolding prod.case by (rule follows_last)
qed

lemma parse_call_words:
  "parse_call bs = do {
     (xid, bs) \<leftarrow> parse_long bs;
     (dir, bs) \<leftarrow> parse_long bs;
     if dir \<noteq> CALL then None else do {
       (rpcvers, bs) \<leftarrow> parse_long bs;
       if rpcvers \<noteq> RPC_MSG_VERSION then None else do {
         (prog, bs) \<leftarrow> parse_long bs;
         (vers, bs) \<leftarrow> parse_long bs;
         (pr, bs) \<leftarrow> parse_long bs;
         (f, bs) \<leftarrow> parse_long bs;
         (n, bs) \<leftarrow> parse_long bs;
         (v, bs) \<leftarrow> do { (cred, bs) \<leftarrow> parse_body f n bs; (verf, bs) \<leftarrow> parse_auth bs; Some ((cred, verf), bs) };
         Some (\<lparr>v_xid = xid, v_prog = prog, v_vers = vers, v_proc = pr, v_cred = fst v, v_verf = snd v\<rparr>, bs) } } }"
  by (simp add: parse_call_def parse_auth_bind case_prod_beta' Option.bind_assoc cong: if_cong)

lemma follows_call_get:
  assumes "room xs0 [] xs p rest" "length rest = 32" "x_op xs = XDR_DECODE"
    "ini_base (oa_base (cb_cred (rm_call d)))" "ini_base (oa_base (cb_verf (rm_call d)))"
  shows "follows (parse_call (rest @ left xs)) (\<lambda>r v xs. call_is r v) (call_get p xs d)"
proof -
  have g: "good xs" using room_done [OF assms(1)] assms(2) by (simp add: whole_def)
  have tail: "follows (parse_body f n (left xs) \<bind> (\<lambda>(cred, bs). parse_auth bs \<bind> (\<lambda>(verf, bs). Some ((cred, verf), bs))))
      (\<lambda>r v xs. tail_is c v r) (xall [xfield cb_cred (\<lambda>v c. c\<lparr>cb_cred := v\<rparr>) call_auth,
        xfield cb_verf (\<lambda>v c. c\<lparr>cb_verf := v\<rparr>) (xall [auth_hdr, call_auth])] xs c)"
    if "ini_base (oa_base (cb_cred c))" "ini_base (oa_base (cb_verf c))" "oa_flavor (cb_cred c) = f" "oa_length (cb_cred c) = n" for c f n
    using follows_call_auth [OF g assms(3) that(1)] that(3,4) by (intro follows_tail [OF g assms(3) that(2) _ follows_verf]) simp_all
  have e: "drop 4 (drop 4 (drop 4 (drop 4 (drop 4 (drop 4 (drop 4 (drop 4 rest))))))) @ left xs = left xs" by (simp add: assms(2))
  show ?thesis
    unfolding parse_call_words call_get_def Let_def
    apply (rule follows_get [OF assms(1)], simp add: assms(2), simp only: prod.case)
    apply (rule follows_get, assumption, simp add: assms(2), simp only: prod.case)
    apply (rule follows_if, simp)
    apply (rule follows_get, assumption, simp add: assms(2), simp only: prod.case)
    apply (rule follows_if, simp)
    apply (rule follows_get, assumption, simp add: assms(2), simp only: prod.case)
    apply (rule follows_get, assumption, simp add: assms(2), simp only: prod.case)
    apply (rule follows_get, assumption, simp add: assms(2), simp only: prod.case)
    apply (rule follows_get, assumption, simp add: assms(2), simp only: prod.case)
    apply (rule follows_get, assumption, simp add: assms(2), simp only: prod.case)
    unfolding in_call_def xfield_def [of rm_call] e
    apply (rule follows_map, rule tail)
    using assms(4,5) by (simp_all add: tail_is_def call_is_def)
qed

lemma follows_ulong_field:
  assumes "good xs" "x_op xs = XDR_DECODE"
  shows "follows (parse_long (left xs)) (\<lambda>r v xs'. r = put v d) (xfield get put xdr_u_long xs d)"
    "follows (parse_long (left xs)) (\<lambda>r v xs'. r = put v d) (xfield get put xdr_enum xs d)"
  by (rule follows_field, rule follows_long [OF assms], simp)+

definition parse_cbody :: "byte list \<Rightarrow> ((ulong \<times> ulong \<times> ulong \<times> (int32 \<times> byte list) \<times> (int32 \<times> byte list)) \<times> byte list) option" where
  "parse_cbody bs = do {
     (rpcvers, bs) \<leftarrow> parse_long bs;
     if rpcvers \<noteq> RPC_MSG_VERSION then None else do {
       (prog, bs) \<leftarrow> parse_long bs;
       (vers, bs) \<leftarrow> parse_long bs;
       (pr, bs) \<leftarrow> parse_long bs;
       (v, bs) \<leftarrow> do { (cred, bs) \<leftarrow> parse_auth bs; (verf, bs) \<leftarrow> parse_auth bs; Some ((cred, verf), bs) };
       Some ((prog, vers, pr, v), bs) } }"

lemma parse_call_body:
  "parse_call bs = do {
     (xid, bs) \<leftarrow> parse_long bs;
     (dir, bs) \<leftarrow> parse_long bs;
     if dir \<noteq> CALL then None else do {
       (w, bs) \<leftarrow> parse_cbody bs;
       Some (\<lparr>v_xid = xid, v_prog = fst w, v_vers = fst (snd w), v_proc = fst (snd (snd w)),
         v_cred = fst (snd (snd (snd w))), v_verf = snd (snd (snd (snd w)))\<rparr>, bs) } }"
  by (auto simp: parse_call_def parse_cbody_def split: bind_splits prod.splits)

lemma follows_cbody:
  assumes "good xs" "x_op xs = XDR_DECODE" "ini_base (oa_base (cb_cred c))" "ini_base (oa_base (cb_verf c))"
  shows "follows (parse_cbody (left xs)) (\<lambda>r w xs. tail_is (c\<lparr>cb_rpcvers := RPC_MSG_VERSION, cb_prog := fst w, cb_vers := fst (snd w), cb_proc := fst (snd (snd w))\<rparr>) (snd (snd (snd w))) r)
    (xall
       [xfield cb_rpcvers (\<lambda>v c. c\<lparr>cb_rpcvers := v\<rparr>) xdr_u_long,
        xtest (\<lambda>c. cb_rpcvers c = RPC_MSG_VERSION),
        xfield cb_prog (\<lambda>v c. c\<lparr>cb_prog := v\<rparr>) xdr_u_long,
        xfield cb_vers (\<lambda>v c. c\<lparr>cb_vers := v\<rparr>) xdr_u_long,
        xfield cb_proc (\<lambda>v c. c\<lparr>cb_proc := v\<rparr>) xdr_u_long,
        xfield cb_cred (\<lambda>v c. c\<lparr>cb_cred := v\<rparr>) xdr_opaque_auth,
        xfield cb_verf (\<lambda>v c. c\<lparr>cb_verf := v\<rparr>) xdr_opaque_auth] xs c)"
  unfolding parse_cbody_def
  apply (rule follows_all, rule follows_ulong_field(1) [OF assms(1,2)], simp only: prod.case)
  apply (rule follows_test, simp)
  apply (rule follows_all, rule follows_ulong_field(1), assumption, assumption, simp only: prod.case)
  apply (rule follows_all, rule follows_ulong_field(1), assumption, assumption, simp only: prod.case)
  apply (rule follows_all, rule follows_ulong_field(1), assumption, assumption, simp only: prod.case)
  apply (rule follows_value)
   apply (rule follows_tail, assumption, assumption)
     apply (simp add: assms(4))
    apply (rule follows_mono, rule follows_auth, assumption, assumption)
     apply (simp add: assms(3))
    apply (simp add: body_is_def)
   apply (rule follows_mono, rule follows_auth, assumption, assumption, assumption)
   apply (simp add: body_is_def)
  apply (simp add: tail_is_def)
  done

lemma follows_generic:
  assumes "good xs" "x_op xs = XDR_DECODE" "ini_base (oa_base (cb_cred (rm_call d)))" "ini_base (oa_base (cb_verf (rm_call d)))"
  shows "follows (parse_call (left xs)) (\<lambda>r v xs. call_is r v) (call_generic xs d)"
  unfolding parse_call_body call_generic_def in_call_def
  apply (rule follows_all, rule follows_ulong_field(1) [OF assms(1,2)], simp only: prod.case)
  apply (rule follows_all, rule follows_ulong_field(2), assumption, assumption, simp only: prod.case)
  apply (rule follows_test, simp)
  apply (rule follows_last)
  unfolding xfield_def [of rm_call]
  apply (rule follows_map, rule follows_cbody, assumption, assumption)
    apply (simp add: assms(3))
   apply (simp add: assms(4))
  apply (simp add: tail_is_def call_is_def)
  done

text \<open>Decoding a call message, whichever rooms the stream gives.\<close>

lemma follows_callmsg:
  assumes "good xs" "x_op xs = XDR_DECODE" "ini_base (oa_base (cb_cred (rm_call d)))" "ini_base (oa_base (cb_verf (rm_call d)))"
  shows "follows (parse_call (left xs)) (\<lambda>r v xs. call_is r v) (xdr_callmsg xs d)"
proof -
  have e: "unat (8 * BYTES_PER_XDR_UNIT) = 32" by (simp add: BYTES_PER_XDR_UNIT_def)
  then have "unat (8 * BYTES_PER_XDR_UNIT) < 2147483648" by simp
  from INLINE [OF assms(1) this] show ?thesis
  proof cases
    case 1
    then show ?thesis using follows_generic [OF assms] assms(2) by (simp add: xdr_callmsg_def)
  next
    case (2 p xs')
    have "length (take 32 (left xs)) = 32" "x_op xs' = XDR_DECODE" using 2(2) room_facts(4) [OF 2(3)] assms(2) unfolding e by simp_all
    then have "follows (parse_call (take 32 (left xs) @ left xs')) (\<lambda>r v xs. call_is r v) (call_get p xs' d)"
      using follows_call_get [OF _ _ _ assms(3,4)] 2(3) unfolding e by blast
    then show ?thesis using 2(1) room_left [OF 2(3)] assms(2) unfolding e by (simp add: xdr_callmsg_def)
  qed
qed

end

end
