(* ===== verification/Rpc_Encode.thy ===== *)
theory Rpc_Encode
  imports Rpc_Call
begin

text \<open>
  Encoding of messages: what the encoders write, on both paths, is a sequence of bytes that the
  parsers read back as the same message. The fast path leaves the padding of the authentication
  structures as it finds it in the buffer.
\<close>

section \<open>Bytes\<close>

definition ok_auth :: "opaque_auth \<Rightarrow> bool" where
  "ok_auth oa \<longleftrightarrow> oa_length oa \<le> MAX_AUTH_BYTES \<and> (oa_length oa \<noteq> 0 \<longrightarrow> (\<exists>m. oa_base oa = Mem m \<and> unat (oa_length oa) \<le> length m))"

definition auth_view :: "opaque_auth \<Rightarrow> int32 \<times> byte list" where
  "auth_view oa = (oa_flavor oa, take (unat (oa_length oa)) (cbytes (oa_base oa)))"

definition auth_pad :: "opaque_auth \<Rightarrow> nat" where
  "auth_pad oa = pad (unat (oa_length oa))"

definition auth_bytes :: "opaque_auth \<Rightarrow> byte list \<Rightarrow> byte list" where
  "auth_bytes oa q = enc32 (oa_flavor oa) @ enc32 (oa_length oa) @ snd (auth_view oa) @ q"

definition auth_size :: "opaque_auth \<Rightarrow> nat" where
  "auth_size oa = 8 + unat (oa_length oa) + auth_pad oa"

lemma length_body: "ok_auth oa \<Longrightarrow> length (snd (auth_view oa)) = unat (oa_length oa)"
  by (cases "oa_length oa = 0") (auto simp: ok_auth_def auth_view_def)

lemma length_auth: "ok_auth oa \<Longrightarrow> length q = auth_pad oa \<Longrightarrow> length (auth_bytes oa q) = auth_size oa"
  using length_body [of oa] by (simp add: auth_bytes_def auth_size_def)

lemma whole_auth: "ok_auth oa \<Longrightarrow> length q = auth_pad oa \<Longrightarrow> whole (auth_bytes oa q)"
  using length_auth [of oa q] pad_unit(1) [of "unat (oa_length oa)"] by (simp add: whole_def auth_size_def auth_pad_def add.assoc dvd_add)

lemma parse_auth_bytes:
  assumes "ok_auth oa" "length q = auth_pad oa"
  shows "parse_auth (auth_bytes oa q @ r) = Some (auth_view oa, r)"
proof -
  have l: "length (snd (auth_view oa)) = unat (oa_length oa)" "\<not> oa_length oa > MAX_AUTH_BYTES"
    using length_body [OF assms(1)] assms(1) by (simp_all add: ok_auth_def not_less)
  have "parse_opaque (unat (oa_length oa)) (snd (auth_view oa) @ q @ r) = Some (snd (auth_view oa), r)"
    using l(1) assms(2) by (simp add: parse_opaque_def auth_pad_def)
  then show ?thesis using l(2) by (simp add: parse_auth_def parse_body_def auth_bytes_def auth_view_def)
qed

definition ok_call :: "('s, 'a) rpc_msg \<Rightarrow> bool" where
  "ok_call m \<longleftrightarrow> rm_direction m = CALL \<and> cb_rpcvers (rm_call m) = RPC_MSG_VERSION \<and> ok_auth (cb_cred (rm_call m)) \<and> ok_auth (cb_verf (rm_call m))"

definition call_view_of :: "('s, 'a) rpc_msg \<Rightarrow> call_view" where
  "call_view_of m = \<lparr>v_xid = rm_xid m, v_prog = cb_prog (rm_call m), v_vers = cb_vers (rm_call m), v_proc = cb_proc (rm_call m),
     v_cred = auth_view (cb_cred (rm_call m)), v_verf = auth_view (cb_verf (rm_call m))\<rparr>"

definition call_bytes :: "('s, 'a) rpc_msg \<Rightarrow> byte list \<Rightarrow> byte list \<Rightarrow> byte list" where
  "call_bytes m q1 q2 = enc32 (rm_xid m) @ enc32 (rm_direction m) @ enc32 (cb_rpcvers (rm_call m)) @ enc32 (cb_prog (rm_call m)) @
     enc32 (cb_vers (rm_call m)) @ enc32 (cb_proc (rm_call m)) @ auth_bytes (cb_cred (rm_call m)) q1 @ auth_bytes (cb_verf (rm_call m)) q2"

definition call_size :: "('s, 'a) rpc_msg \<Rightarrow> nat" where
  "call_size m = 24 + auth_size (cb_cred (rm_call m)) + auth_size (cb_verf (rm_call m))"

lemma parse_call_bytes:
  assumes "ok_call m" "length q1 = auth_pad (cb_cred (rm_call m))" "length q2 = auth_pad (cb_verf (rm_call m))"
  shows "parse_call (call_bytes m q1 q2 @ r) = Some (call_view_of m, r)"
  using assms parse_auth_bytes [of "cb_cred (rm_call m)" q1] parse_auth_bytes [of "cb_verf (rm_call m)" q2]
  by (simp add: parse_call_def call_bytes_def ok_call_def call_view_of_def)

section \<open>The filters of \<open>xdr.c\<close>\<close>

context xdr_stream
begin

definition writes :: "'s XDR \<Rightarrow> byte list \<Rightarrow> 'r \<Rightarrow> (bool \<times> 'r \<times> 's XDR) kres \<Rightarrow> bool" where
  "writes xs bs r res \<longleftrightarrow> (\<exists>xs'. res = Ret (True, r, xs') \<and> moved xs bs xs' \<and> x_kmem xs' = x_kmem xs)"

lemma writes_all:
  assumes "writes xs as d (p xs d)" "good xs" "whole as"
    and "\<And>xs'. good xs' \<Longrightarrow> x_op xs' = x_op xs \<Longrightarrow> left xs' = drop (length as) (left xs) \<Longrightarrow> writes xs' bs d (xall ps xs' d)"
  shows "writes xs (as @ bs) d (xall (p # ps) xs d)"
proof -
  obtain xs' where 1: "p xs d = Ret (True, d, xs')" "moved xs as xs'" "x_kmem xs' = x_kmem xs" using assms(1) by (auto simp: writes_def)
  obtain xs'' where "xall ps xs' d = Ret (True, d, xs'')" "moved xs' bs xs''" "x_kmem xs'' = x_kmem xs'"
    using assms(4) [OF moved_good [OF assms(2) 1(2) assms(3)] moved_op [OF 1(2)] moved_left [OF 1(2)]] by (auto simp: writes_def)
  then show ?thesis using 1 moved_trans [OF 1(2)] by (simp add: writes_def)
qed

lemma writes_last:
  assumes "writes xs bs d (p xs d)"
  shows "writes xs bs d (xall [p] xs d)"
  using assms by (auto simp: writes_def)

lemma writes_test: "P d \<Longrightarrow> writes xs bs d (xall ps xs d) \<Longrightarrow> writes xs bs d (xall (xtest P # ps) xs d)"
  by (simp add: xtest_def)

lemma writes_field:
  assumes "writes xs bs (get d) (p xs (get d))" "put (get d) d = d"
  shows "writes xs bs d (xfield get put p xs d)"
  using assms by (auto simp: writes_def xfield_def)

lemma writes_long:
  assumes "good xs" "x_op xs = XDR_ENCODE" "4 \<le> length (left xs)"
  shows "writes xs (enc32 v) v (xdr_u_long xs v)" "writes xs (enc32 v) v (xdr_enum xs v)"
  using PUTLONG [OF assms(1,3), of v] assms(2) by (auto simp: writes_def xdr_u_long_def xdr_enum_def xdr_long_def)

lemma writes_auth:
  assumes "good xs" "x_op xs = XDR_ENCODE" "ok_auth oa" "auth_size oa \<le> length (left xs)"
  shows "writes xs (auth_bytes oa (replicate (auth_pad oa) 0)) oa (xdr_opaque_auth xs oa)"
  unfolding xdr_opaque_auth_def auth_bytes_def
proof (rule writes_all)
  show "writes xs (enc32 (oa_flavor oa)) oa (xfield oa_flavor (\<lambda>v a. a\<lparr>oa_flavor := v\<rparr>) xdr_enum xs oa)"
    using assms(4) by (intro writes_field writes_long assms) (simp_all add: auth_size_def)
  fix xs'
  assume g: "good xs'" "x_op xs' = x_op xs" "left xs' = drop (length (enc32 (oa_flavor oa))) (left xs)"
  have l: "4 \<le> length (left xs')" using assms(4) g(3) by (simp add: auth_size_def)
  obtain xs1 where 1: "xdr_u_int xs' (oa_length oa) = Ret (True, oa_length oa, xs1)" "moved xs' (enc32 (oa_length oa)) xs1" "x_kmem xs1 = x_kmem xs'"
    using u_int_encode [OF g(1), of "oa_length oa"] l g(2) assms(2) by auto
  have g1: "good xs1" "x_op xs1 = XDR_ENCODE" using moved_good [OF g(1) 1(2)] moved_op [OF 1(2)] g(2) assms(2) by simp_all
  have mx: "\<not> oa_length oa > MAX_AUTH_BYTES" "unat (oa_length oa) < 2147483648"
    using assms(3) auth_small [of "oa_length oa"] by (simp_all add: ok_auth_def not_less)
  have "\<exists>xs2. xdr_opaque (oa_length oa) xs1 (oa_base oa) = Ret (True, oa_base oa, xs2) \<and>
      moved xs1 (snd (auth_view oa) @ replicate (auth_pad oa) 0) xs2 \<and> x_kmem xs2 = x_kmem xs1"
  proof (cases "oa_length oa = 0")
    case True
    then show ?thesis using moved_refl [OF g1(1)] by (simp add: xdr_opaque_def auth_view_def auth_pad_def)
  next
    case False
    then obtain m where m: "oa_base oa = Mem m" "unat (oa_length oa) \<le> length m" using assms(3) by (auto simp: ok_auth_def)
    have "unat (oa_length oa) + pad (unat (oa_length oa)) \<le> length (left xs1)"
      using assms(4) g(3) moved_left [OF 1(2)] by (simp add: auth_size_def auth_pad_def)
    then show ?thesis using opaque_encode [OF g1 mx(2) m(2)] m by (auto simp: enc_opaque_def auth_view_def auth_pad_def)
  qed
  then obtain xs2 where 2: "xdr_opaque (oa_length oa) xs1 (oa_base oa) = Ret (True, oa_base oa, xs2)"
      "moved xs1 (snd (auth_view oa) @ replicate (auth_pad oa) 0) xs2" "x_kmem xs2 = x_kmem xs1" by blast
  have "writes xs' (enc32 (oa_length oa) @ snd (auth_view oa) @ replicate (auth_pad oa) 0) oa
      (xfield (\<lambda>a. (oa_base a, oa_length a)) (\<lambda>(p, n) a. a\<lparr>oa_base := p, oa_length := n\<rparr>) (xdr_bytes MAX_AUTH_BYTES) xs' oa)"
    using 1 2 g1 mx moved_trans [OF 1(2) 2(2)] by (simp add: writes_def xfield_def xdr_bytes_def)
  then show "writes xs' (enc32 (oa_length oa) @ snd (auth_view oa) @ replicate (auth_pad oa) 0) oa
      (xall [xfield (\<lambda>a. (oa_base a, oa_length a)) (\<lambda>(p, n) a. a\<lparr>oa_base := p, oa_length := n\<rparr>) (xdr_bytes MAX_AUTH_BYTES)] xs' oa)"
    by (rule writes_last)
qed (simp_all add: assms(1))

lemma writes_word_field:
  assumes "good xs" "x_op xs = XDR_ENCODE" "4 \<le> length (left xs)" "put (get d) d = d"
  shows "writes xs (enc32 (get d)) d (xfield get put xdr_u_long xs d)" "writes xs (enc32 (get d)) d (xfield get put xdr_enum xs d)"
  by (rule writes_field, rule writes_long [OF assms(1-3)], rule assms(4))+

lemma writes_generic:
  assumes "good xs" "x_op xs = XDR_ENCODE" "ok_call m" "call_size m \<le> length (left xs)"
  shows "writes xs (call_bytes m (replicate (auth_pad (cb_cred (rm_call m))) 0) (replicate (auth_pad (cb_verf (rm_call m))) 0)) m (call_generic xs m)"
proof -
  have l: "24 + auth_size (cb_cred (rm_call m)) + auth_size (cb_verf (rm_call m)) \<le> length (left xs)" using assms(4) by (simp add: call_size_def)
  have a: "ok_auth (cb_cred (rm_call m))" "ok_auth (cb_verf (rm_call m))" "rm_direction m = CALL" "cb_rpcvers (rm_call m) = RPC_MSG_VERSION"
    using assms(3) by (simp_all add: ok_call_def)
  show ?thesis
    unfolding call_bytes_def call_generic_def in_call_def
    apply (rule writes_all, rule writes_word_field(1) [OF assms(1,2)], use l in simp, simp, rule assms(1), simp)
    apply (rule writes_all, rule writes_word_field(2), assumption, simp add: assms(2), use l in simp, simp, assumption, simp)
    apply (rule writes_test, rule a(3))
    apply (rule writes_last, rule writes_field)
     apply (rule writes_all, rule writes_word_field(1), assumption, simp add: assms(2), use l in simp, simp, assumption, simp)
     apply (rule writes_test, rule a(4))
     apply (rule writes_all, rule writes_word_field(1), assumption, simp add: assms(2), use l in simp, simp, assumption, simp)
     apply (rule writes_all, rule writes_word_field(1), assumption, simp add: assms(2), use l in simp, simp, assumption, simp)
     apply (rule writes_all, rule writes_word_field(1), assumption, simp add: assms(2), use l in simp, simp, assumption, simp)
     apply (rule writes_all, rule writes_field, rule writes_auth, assumption, simp add: assms(2), rule a(1), use l in simp, simp, assumption,
        simp add: whole_auth [OF a(1)])
     apply (rule writes_last, rule writes_field, rule writes_auth, assumption, simp add: assms(2), rule a(2))
      apply (use l in \<open>simp add: length_auth [OF a(1)]\<close>)
     apply simp_all
    done
qed

end

section \<open>The fast path\<close>

context xdr_inline_stream
begin

lemma put_bind:
  assumes "room xs0 bs xs p rest" "4 \<le> length rest"
    and "\<And>xs'. room xs0 (bs @ enc32 v) xs' (p + 4) (drop 4 rest) \<Longrightarrow> Q (k (p + 4, xs'))"
  shows "Q (kbind (IXDR_PUT_LONG xs p v) k)"
  using room_put [OF assms(1,2), of v] assms(3) by auto

lemma RNDUP_units: "unat n < 2147483648 \<Longrightarrow> RNDUP n div 4 * 4 = RNDUP n"
proof -
  assume n: "unat n < 2147483648"
  have "4 dvd unat (RNDUP n)" using unat_RNDUP [OF n] pad_unit(1) by simp
  then have "unat (RNDUP n) div 4 * 4 = unat (RNDUP n)" by simp
  moreover have "unat (RNDUP n div 4) = unat (RNDUP n) div 4" by (simp add: unat_div)
  moreover have "unat (RNDUP n) < 4294967296" using unat_bound [of "RNDUP n"] by simp
  ultimately have "unat (RNDUP n div 4 * 4) = unat (RNDUP n)" by (subst unat_mult_nowrap) simp_all
  then show ?thesis by (rule unsigned_word_eqI)
qed

text \<open>The body of an authentication structure, copied to whole units of the room.\<close>

lemma room_body:
  assumes rm: "room xs0 bs xs p rest" and ok: "ok_auth oa" "oa_length oa \<noteq> 0" and l: "unat (oa_length oa) + auth_pad oa \<le> length rest"
  shows "\<exists>b s q. bcopy_from (oa_base oa) (unat (oa_length oa)) = Ret b \<and> x_store (x_ops xs) (x_stream xs) p b = Ret s \<and> length q = auth_pad oa \<and>
    room xs0 (bs @ snd (auth_view oa) @ q) (xs\<lparr>x_stream := s\<rparr>) (p + RNDUP (oa_length oa)) (drop (unat (oa_length oa) + auth_pad oa) rest)"
proof -
  let ?n = "unat (oa_length oa)"
  let ?b = "snd (auth_view oa)"
  obtain m where m: "oa_base oa = Mem m" "?n \<le> length m" using ok by (auto simp: ok_auth_def)
  have b: "bcopy_from (oa_base oa) ?n = Ret ?b" "length ?b = ?n" using m by (auto simp: bcopy_from_def auth_view_def)
  obtain s where s: "x_store (x_ops xs) (x_stream xs) p ?b = Ret s" "room xs0 bs (xs\<lparr>x_stream := s\<rparr>) p (?b @ drop ?n rest)"
    using room_store [OF rm, of ?b] b(2) l by auto
  have r: "unat (RNDUP (oa_length oa)) = ?n + auth_pad oa"
    using unat_RNDUP [of "oa_length oa"] auth_small [of "oa_length oa"] ok(1) by (simp add: ok_auth_def auth_pad_def)
  have "4 dvd ?n + auth_pad oa" using pad_unit(1) by (simp add: auth_pad_def)
  then have "room xs0 (bs @ ?b @ take (auth_pad oa) (drop ?n rest)) (xs\<lparr>x_stream := s\<rparr>) (p + RNDUP (oa_length oa)) (drop (?n + auth_pad oa) rest)"
    using room_step [OF s(2), of "RNDUP (oa_length oa)"] r l b(2) by (simp add: add.commute)
  moreover have "length (take (auth_pad oa) (drop ?n rest)) = auth_pad oa" using l by simp
  ultimately show ?thesis using b(1) s(1) by blast
qed

lemma put_auth:
  assumes "room xs0 bs xs p rest" "ok_auth oa" "auth_size oa \<le> length rest"
  shows "\<exists>q p' xs'. length q = auth_pad oa \<and> call_put_auth xs p oa = Ret (p', xs') \<and> room xs0 (bs @ auth_bytes oa q) xs' p' (drop (auth_size oa) rest)"
proof -
  obtain xs1 where 1: "IXDR_PUT_LONG xs p (oa_flavor oa) = Ret (p + 4, xs1)" "room xs0 (bs @ enc32 (oa_flavor oa)) xs1 (p + 4) (drop 4 rest)"
    using room_put [OF assms(1)] assms(3) by (auto simp: auth_size_def)
  have l: "4 \<le> length (drop 4 rest)" using assms(3) by (simp add: auth_size_def)
  obtain xs2 where 2: "IXDR_PUT_LONG xs1 (p + 4) (oa_length oa) = Ret (p + 4 + 4, xs2)"
    "room xs0 ((bs @ enc32 (oa_flavor oa)) @ enc32 (oa_length oa)) xs2 (p + 4 + 4) (drop 4 (drop 4 rest))"
    using room_put [OF 1(2) l] by blast
  show ?thesis
  proof (cases "oa_length oa = 0")
    case True
    then show ?thesis using 1 2 by (simp add: call_put_auth_def auth_pad_def auth_bytes_def auth_size_def auth_view_def)
  next
    case False
    have l2: "unat (oa_length oa) + auth_pad oa \<le> length (drop 4 (drop 4 rest))" using assms(3) by (simp add: auth_size_def)
    have u: "RNDUP (oa_length oa) div 4 * 4 = RNDUP (oa_length oa)"
      using auth_small [of "oa_length oa"] assms(2) by (intro RNDUP_units) (simp add: ok_auth_def)
    obtain b s q where "bcopy_from (oa_base oa) (unat (oa_length oa)) = Ret b" "x_store (x_ops xs2) (x_stream xs2) (p + 4 + 4) b = Ret s" "length q = auth_pad oa"
      "room xs0 (((bs @ enc32 (oa_flavor oa)) @ enc32 (oa_length oa)) @ snd (auth_view oa) @ q) (xs2\<lparr>x_stream := s\<rparr>) (p + 4 + 4 + RNDUP (oa_length oa))
        (drop (unat (oa_length oa) + auth_pad oa) (drop 4 (drop 4 rest)))"
      using room_body [OF 2(2) assms(2) False l2] by blast
    then show ?thesis using 1 2 False u by (auto simp: call_put_auth_def auth_bytes_def auth_size_def add.commute add.left_commute)
  qed
qed

lemma writes_done: "room xs0 bs xs p [] \<Longrightarrow> writes xs0 bs d (Ret (True, d, xs))"
  using room_moved [of xs0 bs xs p "[]"] by (simp add: writes_def)

lemma writes_call_put:
  assumes "room xs0 [] xs p rest" "length rest = call_size m" "ok_call m"
  shows "\<exists>q1 q2. length q1 = auth_pad (cb_cred (rm_call m)) \<and> length q2 = auth_pad (cb_verf (rm_call m)) \<and> writes xs0 (call_bytes m q1 q2) m (call_put p xs m)"
proof -
  let ?c = "rm_call m"
  have l: "length rest = 24 + auth_size (cb_cred ?c) + auth_size (cb_verf ?c)" using assms(2) by (simp add: call_size_def)
  have a: "ok_auth (cb_cred ?c)" "ok_auth (cb_verf ?c)" "rm_direction m = CALL" "cb_rpcvers ?c = RPC_MSG_VERSION"
    using assms(3) by (simp_all add: ok_call_def)
  define hdr where "hdr = enc32 (rm_xid m) @ enc32 (rm_direction m) @ enc32 (cb_rpcvers ?c) @ enc32 (cb_prog ?c) @ enc32 (cb_vers ?c) @ enc32 (cb_proc ?c)"
  define put2 where "put2 = (\<lambda>buf (xs :: 'a XDR). kbind (call_put_auth xs buf (cb_cred ?c)) (\<lambda>(buf, xs).
    kbind (call_put_auth xs buf (cb_verf ?c)) (\<lambda>(buf, xs). Ret (True, m, xs))))"
  have tail: "\<exists>q1 q2. length q1 = auth_pad (cb_cred ?c) \<and> length q2 = auth_pad (cb_verf ?c) \<and> writes xs0 (hdr @ auth_bytes (cb_cred ?c) q1 @ auth_bytes (cb_verf ?c) q2) m (put2 p' xs')"
    if rm: "room xs0 hdr xs' p' (drop 24 rest)" for p' xs'
  proof -
    obtain q1 p1 xs1 where 1: "length q1 = auth_pad (cb_cred ?c)" "call_put_auth xs' p' (cb_cred ?c) = Ret (p1, xs1)"
      "room xs0 (hdr @ auth_bytes (cb_cred ?c) q1) xs1 p1 (drop (auth_size (cb_cred ?c)) (drop 24 rest))"
      using put_auth [OF rm a(1)] l by auto
    have l1: "auth_size (cb_verf ?c) \<le> length (drop (auth_size (cb_cred ?c)) (drop 24 rest))" using l by simp
    obtain q2 p2 xs2 where 2: "length q2 = auth_pad (cb_verf ?c)" "call_put_auth xs1 p1 (cb_verf ?c) = Ret (p2, xs2)"
      "room xs0 ((hdr @ auth_bytes (cb_cred ?c) q1) @ auth_bytes (cb_verf ?c) q2) xs2 p2 (drop (auth_size (cb_verf ?c)) (drop (auth_size (cb_cred ?c)) (drop 24 rest)))"
      using put_auth [OF 1(3) a(2) l1] by blast
    have "drop (auth_size (cb_verf ?c)) (drop (auth_size (cb_cred ?c)) (drop 24 rest)) = []" using l by simp
    then have "writes xs0 (hdr @ auth_bytes (cb_cred ?c) q1 @ auth_bytes (cb_verf ?c) q2) m (Ret (True, m, xs2))"
      using writes_done 2(3) by (metis append_assoc)
    then show ?thesis using 1(1,2) 2(1,2) by (auto simp: put2_def)
  qed
  let ?Q = "\<lambda>res. \<exists>xs' p'. res = put2 p' xs' \<and> room xs0 hdr xs' p' (drop 24 rest)"
  have "\<exists>xs' p'. call_put p xs m = put2 p' xs' \<and> room xs0 hdr xs' p' (drop 24 rest)"
    unfolding call_put_def Let_def put2_def [symmetric]
    apply (rule put_bind [where Q = ?Q], rule assms(1), simp add: l, simp only: prod.case)
    apply (rule put_bind [where Q = ?Q], assumption, simp add: l, simp only: prod.case a(3) not_True_eq_False if_False simp_thms)
    apply (rule put_bind [where Q = ?Q], assumption, simp add: l, simp only: prod.case a(4) not_True_eq_False if_False simp_thms)
    apply (rule put_bind [where Q = ?Q], assumption, simp add: l, simp only: prod.case)
    apply (rule put_bind [where Q = ?Q], assumption, simp add: l, simp only: prod.case)
    apply (rule put_bind [where Q = ?Q], assumption, simp add: l, simp only: prod.case)
    using a(3,4) by (auto simp: hdr_def put2_def)
  then show ?thesis using tail by (auto simp: call_bytes_def hdr_def)
qed

lemma unat_call_room: "ok_call m \<Longrightarrow> unat (call_room m) = call_size m" "ok_call m \<Longrightarrow> call_size m < 2147483648"
proof -
  assume "ok_call m"
  then have a: "ok_auth (cb_cred (rm_call m))" "ok_auth (cb_verf (rm_call m))" by (simp_all add: ok_call_def)
  have r: "unat (RNDUP (oa_length oa)) = unat (oa_length oa) + auth_pad oa" "unat (oa_length oa) + auth_pad oa < 404" if "ok_auth oa" for oa
    using that unat_RNDUP [of "oa_length oa"] auth_small [of "oa_length oa"] pad_unit(2) [of "unat (oa_length oa)"]
    by (auto simp: ok_auth_def auth_pad_def)
  show "unat (call_room m) = call_size m" "call_size m < 2147483648"
    using r [OF a(1)] r [OF a(2)]
    by (simp_all add: call_room_def call_size_def auth_size_def BYTES_PER_XDR_UNIT_def unat_add_nowrap)
qed

text \<open>Encoding a call message, whether the stream gives room or not.\<close>

lemma writes_callmsg:
  assumes "good xs" "x_op xs = XDR_ENCODE" "ok_call m" "call_size m \<le> length (left xs)"
  shows "\<exists>q1 q2. length q1 = auth_pad (cb_cred (rm_call m)) \<and> length q2 = auth_pad (cb_verf (rm_call m)) \<and> writes xs (call_bytes m q1 q2) m (xdr_callmsg xs m)"
proof -
  note u = unat_call_room [OF assms(3)]
  have mx: "\<not> oa_length (cb_cred (rm_call m)) > MAX_AUTH_BYTES" "\<not> oa_length (cb_verf (rm_call m)) > MAX_AUTH_BYTES"
    using assms(3) by (simp_all add: ok_call_def ok_auth_def not_less)
  from u have "unat (call_room m) < 2147483648" by simp
  from INLINE [OF assms(1) this] show ?thesis
  proof cases
    case 1
    then have "xdr_callmsg xs m = call_generic xs m" using mx assms(2) by (simp add: xdr_callmsg_def)
    then show ?thesis using writes_generic [OF assms] by (metis length_replicate)
  next
    case (2 p xs')
    then have "length (take (unat (call_room m)) (left xs)) = call_size m" using u(1) by simp
    then show ?thesis using writes_call_put [OF 2(3) _ assms(3)] 2(1) mx assms(2) by (simp add: xdr_callmsg_def)
  qed
qed

end

end
