(* ===== verification/Rpc_Reply.thy ===== *)
theory Rpc_Reply
  imports Rpc_Encode
begin

text \<open>
  Reply messages: what the encoder writes, on both paths, the decoder reads back, on both paths,
  for any filter of the results that keeps the contract of \<open>Xdr_Codec\<close>. The fast path of the encoder
  reserves room for the length of the verifier without rounding it up, so this holds for
  verifiers of whole units only.
\<close>

section \<open>Bytes\<close>

definition vers_bytes :: "versions \<Rightarrow> byte list" where
  "vers_bytes v = enc32 (low v) @ enc32 (high v)"

text \<open>What follows the status, with \<open>wb\<close> the bytes of the results.\<close>

definition acc_bytes :: "byte list \<Rightarrow> ('s, 'a) accepted_reply \<Rightarrow> byte list" where
  "acc_bytes wb ar = (if ar_stat ar = SUCCESS then wb else if ar_stat ar = PROG_MISMATCH then vers_bytes (ar_vers ar) else [])"

definition rej_bytes :: "rejected_reply \<Rightarrow> byte list" where
  "rej_bytes rr = enc32 (rj_stat rr) @ (if rj_stat rr = RPC_MISMATCH then vers_bytes (rj_vers rr) else enc32 (rj_why rr))"

definition reply_bytes :: "byte list \<Rightarrow> ('s, 'a) rpc_msg \<Rightarrow> byte list" where
  "reply_bytes wb m = enc32 (rm_xid m) @ enc32 (rm_direction m) @ enc32 (rp_stat (rm_reply m)) @
     (if rp_stat (rm_reply m) = MSG_ACCEPTED
      then auth_bytes (ar_verf (rp_acpt (rm_reply m))) [] @ enc32 (ar_stat (rp_acpt (rm_reply m))) @ acc_bytes wb (rp_acpt (rm_reply m))
      else rej_bytes (rp_rjct (rm_reply m)))"

definition ok_verf :: "opaque_auth \<Rightarrow> bool" where
  "ok_verf oa \<longleftrightarrow> ok_auth oa \<and> 4 dvd unat (oa_length oa)"

definition ok_reply :: "('s, 'a) rpc_msg \<Rightarrow> bool" where
  "ok_reply m \<longleftrightarrow> rm_direction m = REPLY \<and>
     (rp_stat (rm_reply m) = MSG_ACCEPTED \<and> ok_verf (ar_verf (rp_acpt (rm_reply m))) \<or>
      rp_stat (rm_reply m) = MSG_DENIED \<and> rj_stat (rp_rjct (rm_reply m)) \<in> {RPC_MISMATCH, AUTH_ERROR})"

text \<open>The results are used when the call was accepted and successful.\<close>

definition has_results :: "('s, 'a) rpc_msg \<Rightarrow> bool" where
  "has_results m \<longleftrightarrow> rp_stat (rm_reply m) = MSG_ACCEPTED \<and> ar_stat (rp_acpt (rm_reply m)) = SUCCESS"

definition acc_same :: "('s, 'a) accepted_reply \<Rightarrow> ('t, 'a) accepted_reply \<Rightarrow> bool" where
  "acc_same a b \<longleftrightarrow> ar_stat b = ar_stat a \<and>
     (ar_stat a = SUCCESS \<longrightarrow> ar_where b = ar_where a) \<and> (ar_stat a = PROG_MISMATCH \<longrightarrow> ar_vers b = ar_vers a)"

definition rej_same :: "rejected_reply \<Rightarrow> rejected_reply \<Rightarrow> bool" where
  "rej_same a b \<longleftrightarrow> rj_stat b = rj_stat a \<and> (rj_stat a = RPC_MISMATCH \<longrightarrow> rj_vers b = rj_vers a) \<and> (rj_stat a = AUTH_ERROR \<longrightarrow> rj_why b = rj_why a)"

definition reply_same :: "('s, 'a) rpc_msg \<Rightarrow> ('t, 'a) rpc_msg \<Rightarrow> bool" where
  "reply_same m m' \<longleftrightarrow> rm_xid m' = rm_xid m \<and> rm_direction m' = rm_direction m \<and> rp_stat (rm_reply m') = rp_stat (rm_reply m) \<and>
     (rp_stat (rm_reply m) = MSG_ACCEPTED \<longrightarrow> acc_same (rp_acpt (rm_reply m)) (rp_acpt (rm_reply m')) \<and>
        auth_is (ar_verf (rp_acpt (rm_reply m'))) (auth_view (ar_verf (rp_acpt (rm_reply m))))) \<and>
     (rp_stat (rm_reply m) = MSG_DENIED \<longrightarrow> rej_same (rp_rjct (rm_reply m)) (rp_rjct (rm_reply m')))"

lemma enums_distinct [simp]: "SUCCESS \<noteq> PROG_MISMATCH" "PROG_MISMATCH \<noteq> SUCCESS" "MSG_ACCEPTED \<noteq> MSG_DENIED" "MSG_DENIED \<noteq> MSG_ACCEPTED"
  "RPC_MISMATCH \<noteq> AUTH_ERROR" "AUTH_ERROR \<noteq> RPC_MISMATCH"
  by (simp_all add: SUCCESS_def PROG_MISMATCH_def MSG_ACCEPTED_def MSG_DENIED_def RPC_MISMATCH_def AUTH_ERROR_def)

lemma ok_verf_pad: "ok_verf oa \<Longrightarrow> auth_pad oa = 0" "ok_verf oa \<Longrightarrow> ok_auth oa"
  by (simp_all add: ok_verf_def auth_pad_def pad_def)

section \<open>Encoding\<close>

context xdr_stream
begin

text \<open>The results: their bytes, and that their filter writes them where there is room.\<close>

definition result_writer :: "('s, 'b) rpc_msg \<Rightarrow> byte list \<Rightarrow> bool" where
  "result_writer m wb \<longleftrightarrow> (has_results m \<longrightarrow> (\<exists>proc. ar_proc (rp_acpt (rm_reply m)) = Some proc \<and>
     (\<forall>xs. good xs \<longrightarrow> x_op xs = XDR_ENCODE \<longrightarrow> length wb \<le> length (left xs) \<longrightarrow>
        writes xs wb (ar_where (rp_acpt (rm_reply m))) (proc xs (ar_where (rp_acpt (rm_reply m)))))))"

lemma writes_versions:
  assumes "good xs" "x_op xs = XDR_ENCODE" "8 \<le> length (left xs)"
  shows "writes xs (vers_bytes v) v (xdr_versions xs v)"
  unfolding vers_bytes_def xdr_versions_def
  by (rule writes_all, rule writes_word_field(1) [OF assms(1,2)], use assms(3) in simp, simp, rule assms(1), simp,
      rule writes_last, rule writes_word_field(1)) (use assms in simp_all)

lemma writes_nothing: "good xs \<Longrightarrow> writes xs [] d (Ret (True, d, xs))"
  by (simp add: writes_def moved_refl)

lemma writes_accepted_rest:
  assumes "good xs" "x_op xs = XDR_ENCODE" "length (acc_bytes wb ar) \<le> length (left xs)"
    and "ar_stat ar = SUCCESS \<Longrightarrow> \<exists>proc. ar_proc ar = Some proc \<and> (\<forall>xs. good xs \<longrightarrow> x_op xs = XDR_ENCODE \<longrightarrow> length wb \<le> length (left xs) \<longrightarrow>
        writes xs wb (ar_where ar) (proc xs (ar_where ar)))"
  shows "writes xs (acc_bytes wb ar) ar (accepted_rest xs ar)"
proof -
  consider "ar_stat ar = SUCCESS" | "ar_stat ar \<noteq> SUCCESS" "ar_stat ar = PROG_MISMATCH" | "ar_stat ar \<noteq> SUCCESS" "ar_stat ar \<noteq> PROG_MISMATCH" by blast
  then show ?thesis
  proof cases
    case 1
    then show ?thesis using assms by (auto simp: accepted_rest_def acc_bytes_def intro!: writes_field)
  next
    case 2
    then show ?thesis using assms(1-3) by (auto simp: accepted_rest_def acc_bytes_def vers_bytes_def [of "ar_vers ar"]
        intro!: writes_field writes_versions [unfolded vers_bytes_def])
  next
    case 3
    then show ?thesis using writes_nothing [OF assms(1)] by (simp add: accepted_rest_def acc_bytes_def)
  qed
qed

lemma writes_rejected:
  assumes "good xs" "x_op xs = XDR_ENCODE" "length (rej_bytes rr) \<le> length (left xs)" "rj_stat rr \<in> {RPC_MISMATCH, AUTH_ERROR}"
  shows "writes xs (rej_bytes rr) rr (xdr_rejected_reply xs rr)"
  unfolding rej_bytes_def xdr_rejected_reply_def
proof (rule writes_all)
  show "writes xs (enc32 (rj_stat rr)) rr (xfield rj_stat (\<lambda>v r. r\<lparr>rj_stat := v\<rparr>) xdr_enum xs rr)"
    using assms(3) by (intro writes_word_field assms(1,2)) (simp_all add: rej_bytes_def)
  fix xs'
  assume g: "good xs'" "x_op xs' = x_op xs" "left xs' = drop (length (enc32 (rj_stat rr))) (left xs)"
  have "writes xs' (if rj_stat rr = RPC_MISMATCH then vers_bytes (rj_vers rr) else enc32 (rj_why rr)) rr (rejected_rest xs' rr)"
    using assms(2-4) g by (auto simp: rejected_rest_def rej_bytes_def vers_bytes_def [of "rj_vers rr"]
        intro!: writes_field writes_versions [unfolded vers_bytes_def] writes_long)
  then show "writes xs' (if rj_stat rr = RPC_MISMATCH then vers_bytes (rj_vers rr) else enc32 (rj_why rr)) rr (xall [rejected_rest] xs' rr)"
    by (rule writes_last)
qed (simp_all add: assms(1))

lemma writes_accepted:
  assumes "good xs" "x_op xs = XDR_ENCODE" "ok_verf (ar_verf ar)" "auth_size (ar_verf ar) + 4 + length (acc_bytes wb ar) \<le> length (left xs)"
    and r: "ar_stat ar = SUCCESS \<Longrightarrow> \<exists>proc. ar_proc ar = Some proc \<and> (\<forall>xs. good xs \<longrightarrow> x_op xs = XDR_ENCODE \<longrightarrow> length wb \<le> length (left xs) \<longrightarrow>
        writes xs wb (ar_where ar) (proc xs (ar_where ar)))"
  shows "writes xs (auth_bytes (ar_verf ar) [] @ enc32 (ar_stat ar) @ acc_bytes wb ar) ar (xdr_accepted_reply xs ar)"
proof -
  note v = ok_verf_pad [OF assms(3)]
  have l: "length (auth_bytes (ar_verf ar) []) = auth_size (ar_verf ar)" "whole (auth_bytes (ar_verf ar) [])"
    using length_auth [OF v(2), of "[]"] whole_auth [OF v(2), of "[]"] v(1) by simp_all
  have w: "writes xs (auth_bytes (ar_verf ar) []) (ar_verf ar) (xdr_opaque_auth xs (ar_verf ar))"
    using writes_auth [OF assms(1,2) v(2)] assms(4) v(1) by simp
  show ?thesis unfolding xdr_accepted_reply_def
    apply (rule writes_all, rule writes_field, rule w, simp, rule assms(1), rule l(2))
    apply (rule writes_all, rule writes_word_field(2), assumption, simp add: assms(2), use assms(4) l(1) in simp, simp, assumption, simp)
    apply (rule writes_last, rule writes_accepted_rest, assumption, simp add: assms(2), use assms(4) l(1) in simp)
    using r by blast
qed

text \<open>The arms of the union, and the whole message without room.\<close>

lemma writes_arm:
  assumes "good xs" "x_op xs = XDR_ENCODE" "4 + length bs \<le> length (left xs)"
    and "\<And>xs. good xs \<Longrightarrow> x_op xs = XDR_ENCODE \<Longrightarrow> length bs \<le> length (left xs) \<Longrightarrow> writes xs bs u (xdr_union_arm cs None st xs u)"
  shows "writes xs (enc32 st @ bs) (st, u) (xdr_union cs None xs (st, u))"
proof -
  obtain xs1 where 1: "xdr_enum xs st = Ret (True, st, xs1)" "moved xs (enc32 st) xs1" "x_kmem xs1 = x_kmem xs"
    using writes_long(2) [OF assms(1,2), of st] assms(3) by (auto simp: writes_def)
  have "writes xs1 bs u (xdr_union_arm cs None st xs1 u)"
    using moved_good [OF assms(1) 1(2)] moved_op [OF 1(2)] moved_left [OF 1(2)] assms(2,3) by (intro assms(4)) simp_all
  then obtain xs2 where "xdr_union_arm cs None st xs1 u = Ret (True, u, xs2)" "moved xs1 bs xs2" "x_kmem xs2 = x_kmem xs1" by (auto simp: writes_def)
  then show ?thesis using 1 moved_trans [OF 1(2)] by (simp add: writes_def xdr_union_def)
qed

lemma writes_reply_generic:
  assumes "good xs" "x_op xs = XDR_ENCODE" "ok_reply m" "length (reply_bytes wb m) \<le> length (left xs)" "result_writer m wb"
  shows "writes xs (reply_bytes wb m) m (reply_generic xs m)"
proof -
  let ?r = "rm_reply m"
  define bs where "bs = (if rp_stat ?r = MSG_ACCEPTED then auth_bytes (ar_verf (rp_acpt ?r)) [] @ enc32 (ar_stat (rp_acpt ?r)) @ acc_bytes wb (rp_acpt ?r)
    else rej_bytes (rp_rjct ?r))"
  have l: "12 + length bs \<le> length (left xs)" "rm_direction m = REPLY" using assms(3,4) by (auto simp: reply_bytes_def bs_def ok_reply_def)
  have arm: "writes xs bs (rp_acpt ?r, rp_rjct ?r) (xdr_union_arm reply_dscrm None (rp_stat ?r) xs (rp_acpt ?r, rp_rjct ?r))"
    if g: "good xs" "x_op xs = XDR_ENCODE" "length bs \<le> length (left xs)" for xs
  proof (cases "rp_stat ?r = MSG_ACCEPTED")
    case True
    then have v: "ok_verf (ar_verf (rp_acpt ?r))" using assms(3) by (auto simp: ok_reply_def)
    have "auth_size (ar_verf (rp_acpt ?r)) + 4 + length (acc_bytes wb (rp_acpt ?r)) \<le> length (left xs)"
      using g(3) True length_auth [OF ok_verf_pad(2) [OF v], of "[]"] ok_verf_pad(1) [OF v] by (simp add: bs_def)
    then have "writes xs bs (rp_acpt ?r) (xdr_accepted_reply xs (rp_acpt ?r))"
      using writes_accepted [OF g(1,2) v] assms(5) True by (simp add: bs_def result_writer_def has_results_def)
    then show ?thesis using True by (simp add: reply_dscrm_def writes_field)
  next
    case False
    then have d: "rp_stat ?r = MSG_DENIED" "rj_stat (rp_rjct ?r) \<in> {RPC_MISMATCH, AUTH_ERROR}" using assms(3) by (auto simp: ok_reply_def)
    then have "writes xs bs (rp_rjct ?r) (xdr_rejected_reply xs (rp_rjct ?r))"
      using writes_rejected [OF g(1,2)] g(3) False by (simp add: bs_def)
    then show ?thesis using d(1) by (simp add: reply_dscrm_def writes_field)
  qed
  show ?thesis
    unfolding reply_bytes_def reply_generic_def bs_def [symmetric]
    apply (rule writes_all, rule writes_word_field(1) [OF assms(1,2)], use l in simp, simp, rule assms(1), simp)
    apply (rule writes_all, rule writes_word_field(2), assumption, simp add: assms(2), use l in simp, simp, assumption, simp)
    apply (rule writes_test, rule l(2))
    apply (rule writes_last, rule writes_field, rule writes_arm, assumption, simp add: assms(2))
      apply (use l in simp)
     apply (rule arm, assumption, assumption, assumption)
    apply simp
    done
qed

end

context xdr_inline_stream
begin

lemma room_reply_put:
  assumes "room xs0 [] xs p rest" "ok_verf (ar_verf (rp_acpt (rm_reply m)))" "length rest = 16 + auth_size (ar_verf (rp_acpt (rm_reply m)))"
  shows "\<exists>p' xs'. reply_put xs p m = Ret xs' \<and> room xs0 (enc32 (rm_xid m) @ enc32 (rm_direction m) @ enc32 (rp_stat (rm_reply m)) @
    auth_bytes (ar_verf (rp_acpt (rm_reply m))) [] @ enc32 (ar_stat (rp_acpt (rm_reply m)))) xs' p' []"
proof -
  let ?oa = "ar_verf (rp_acpt (rm_reply m))"
  let ?st = "ar_stat (rp_acpt (rm_reply m))"
  let ?n = "oa_length ?oa"
  note v = ok_verf_pad [OF assms(2)]
  have l: "length rest = 24 + unat ?n" using assms(3) v(1) by (simp add: auth_size_def)
  define fin where "fin = enc32 (rm_xid m) @ enc32 (rm_direction m) @ enc32 (rp_stat (rm_reply m)) @ auth_bytes ?oa [] @ enc32 ?st"
  let ?Q = "\<lambda>res. \<exists>p' xs'. res = Ret xs' \<and> room xs0 fin xs' p' []"
  have u: "(?n + BYTES_PER_XDR_UNIT - 1) div 4 * 4 = RNDUP ?n" by (simp add: RNDUP_def BYTES_PER_XDR_UNIT_def)
  have tail: "?Q (kbind (if ?n \<noteq> 0 then kbind (bcopy_from (oa_base ?oa) (unat ?n)) (\<lambda>bs. kbind (x_store (x_ops xs) (x_stream xs) buf bs) (\<lambda>s.
          Ret (buf + (?n + BYTES_PER_XDR_UNIT - 1) div 4 * 4, xs\<lparr>x_stream := s\<rparr>))) else Ret (buf, xs)) (\<lambda>(buf, xs).
        kbind (IXDR_PUT_LONG xs buf ?st) (\<lambda>(buf, xs). Ret xs)))"
    if rm: "room xs0 (enc32 (rm_xid m) @ enc32 (rm_direction m) @ enc32 (rp_stat (rm_reply m)) @ enc32 (oa_flavor ?oa) @ enc32 ?n) xs buf (drop 20 rest)" for xs buf
  proof (cases "?n = 0")
    case True
    then show ?thesis using room_put [OF rm, of ?st] l by (auto simp: fin_def auth_bytes_def auth_view_def)
  next
    case False
    obtain b s q where b: "bcopy_from (oa_base ?oa) (unat ?n) = Ret b" "x_store (x_ops xs) (x_stream xs) buf b = Ret s" "length q = auth_pad ?oa"
      "room xs0 ((enc32 (rm_xid m) @ enc32 (rm_direction m) @ enc32 (rp_stat (rm_reply m)) @ enc32 (oa_flavor ?oa) @ enc32 ?n) @ snd (auth_view ?oa) @ q)
        (xs\<lparr>x_stream := s\<rparr>) (buf + RNDUP ?n) (drop (unat ?n + auth_pad ?oa) (drop 20 rest))"
      using room_body [OF rm v(2) False] l v(1) by auto
    then show ?thesis using room_put [OF b(4), of ?st] l v(1) False u by (auto simp: fin_def auth_bytes_def)
  qed
  have "?Q (reply_put xs p m)"
    unfolding reply_put_def Let_def
    apply (rule put_bind [where Q = ?Q], rule assms(1), simp add: l, simp only: prod.case)
    apply (rule put_bind [where Q = ?Q], assumption, simp add: l, simp only: prod.case)
    apply (rule put_bind [where Q = ?Q], assumption, simp add: l, simp only: prod.case)
    apply (rule put_bind [where Q = ?Q], assumption, simp add: l, simp only: prod.case)
    apply (rule put_bind [where Q = ?Q], assumption, simp add: l, simp only: prod.case)
    by (rule tail) simp
  then show ?thesis unfolding fin_def .
qed

lemma unat_reply_room:
  assumes "ok_verf (ar_verf (rp_acpt (rm_reply m)))"
  shows "unat (reply_room m) = 16 + auth_size (ar_verf (rp_acpt (rm_reply m)))" "unat (reply_room m) < 2147483648"
proof -
  note v = ok_verf_pad [OF assms]
  have "unat (oa_length (ar_verf (rp_acpt (rm_reply m)))) \<le> 400" using v(2) auth_small by (simp add: ok_auth_def)
  then show "unat (reply_room m) = 16 + auth_size (ar_verf (rp_acpt (rm_reply m)))" "unat (reply_room m) < 2147483648"
    using v(1) by (simp_all add: reply_room_def auth_size_def BYTES_PER_XDR_UNIT_def unat_add_nowrap)
qed

lemma writes_replymsg:
  assumes "good xs" "x_op xs = XDR_ENCODE" "ok_reply m" "length (reply_bytes wb m) \<le> length (left xs)" "result_writer m wb"
  shows "writes xs (reply_bytes wb m) m (xdr_replymsg xs m)"
proof (cases "rp_stat (rm_reply m) = MSG_ACCEPTED")
  case False
  then show ?thesis using writes_reply_generic [OF assms] assms(2) by (simp add: xdr_replymsg_def)
next
  case True
  let ?ar = "rp_acpt (rm_reply m)"
  have v: "ok_verf (ar_verf ?ar)" "rm_direction m = REPLY" using assms(3) True by (auto simp: ok_reply_def)
  from INLINE [OF assms(1) unat_reply_room(2) [OF v(1)]] show ?thesis
  proof cases
    case 1
    then show ?thesis using writes_reply_generic [OF assms] assms(2) by (simp add: xdr_replymsg_def)
  next
    case (2 p xs')
    define hd where "hd = enc32 (rm_xid m) @ enc32 (rm_direction m) @ enc32 (rp_stat (rm_reply m)) @ auth_bytes (ar_verf ?ar) [] @ enc32 (ar_stat ?ar)"
    have "length (take (unat (reply_room m)) (left xs)) = 16 + auth_size (ar_verf ?ar)" using 2(2) unat_reply_room(1) [OF v(1)] by simp
    then obtain p' xs1 where 3: "reply_put xs' p m = Ret xs1" "room xs hd xs1 p' []"
      using room_reply_put [OF 2(3) v(1)] by (auto simp: hd_def)
    have m: "moved xs hd xs1" "x_kmem xs1 = x_kmem xs" "good xs1" using room_moved [OF 3(2)] room_done [OF 3(2)] by simp_all
    have "length (acc_bytes wb ?ar) \<le> length (left xs1)" using moved_left [OF m(1)] assms(4) True by (simp add: reply_bytes_def hd_def)
    then have "writes xs1 (acc_bytes wb ?ar) ?ar (accepted_rest xs1 ?ar)"
      using assms(2,5) moved_op [OF m(1)] True by (intro writes_accepted_rest m(3)) (auto simp: result_writer_def has_results_def)
    then obtain xs2 where 4: "accepted_rest xs1 ?ar = Ret (True, ?ar, xs2)" "moved xs1 (acc_bytes wb ?ar) xs2" "x_kmem xs2 = x_kmem xs1"
      by (auto simp: writes_def)
    have "writes xs (reply_bytes wb m) m (Ret (True, m, xs2))"
      using moved_trans [OF m(1) 4(2)] 4(3) m(2) True by (simp add: writes_def reply_bytes_def hd_def)
    then show ?thesis using 2(1) 3(1) 4(1) assms(2) True v(2) by (simp add: xdr_replymsg_def xfield_def)
  qed
qed

end

section \<open>Decoding\<close>

context xdr_stream
begin

lemma reads_all:
  assumes "follows (Some (v, r1)) V (p xs d)"
    and "\<And>r xs. V r v xs \<Longrightarrow> good xs \<Longrightarrow> x_op xs = XDR_DECODE \<Longrightarrow> left xs = r1 \<Longrightarrow> follows pr W (xall ps xs r)"
  shows "follows pr W (xall (p # ps) xs d)"
proof -
  obtain r xs' where "p xs d = Ret (True, r, xs')" "V r v xs'" "good xs'" "x_op xs' = XDR_DECODE" "left xs' = r1"
    using assms(1) by (auto simp: follows_def)
  then show ?thesis using assms(2) by simp
qed

lemma reads_as:
  assumes "follows (Some (v, rest)) V res" "\<And>r xs. V r v xs \<Longrightarrow> W r w xs"
  shows "follows (Some (w, rest)) W res"
  using assms by (auto simp: follows_def)

lemma reads_test: "P d \<Longrightarrow> follows pr W (xall ps xs d) \<Longrightarrow> follows pr W (xall (xtest P # ps) xs d)"
  by (simp add: xtest_def)

lemma reads_word:
  assumes "good xs" "x_op xs = XDR_DECODE" "left xs = enc32 v @ r1"
  shows "follows (Some (v, r1)) (\<lambda>r v xs'. r = put v d \<and> x_kmem xs' = x_kmem xs) (xfield get put xdr_u_long xs d)"
    "follows (Some (v, r1)) (\<lambda>r v xs'. r = put v d \<and> x_kmem xs' = x_kmem xs) (xfield get put xdr_enum xs d)"
  using follows_long [OF assms(1,2), unfolded assms(3)] by (auto intro!: follows_field)

lemma reads_versions:
  assumes "good xs" "x_op xs = XDR_DECODE" "left xs = vers_bytes v @ rest"
  shows "follows (Some (v, rest)) (\<lambda>r v xs'. r = v \<and> x_kmem xs' = x_kmem xs) (xdr_versions xs d)"
  unfolding xdr_versions_def
  apply (rule reads_all, rule reads_word(1) [OF assms(1,2)], simp add: assms(3) vers_bytes_def)
  apply (rule follows_last, rule reads_as, rule reads_word(1), assumption, assumption, assumption)
  apply simp
  done

text \<open>The results: their filter turns the bytes into the value and takes \<open>h\<close> bytes of kernel memory for it.\<close>

definition result_reader :: "('s, 'b) accepted_reply \<Rightarrow> byte list \<Rightarrow> 'b \<Rightarrow> nat \<Rightarrow> bool" where
  "result_reader ar wb w h \<longleftrightarrow> (\<exists>proc. ar_proc ar = Some proc \<and> (\<forall>xs rest. good xs \<longrightarrow> x_op xs = XDR_DECODE \<longrightarrow> left xs = wb @ rest \<longrightarrow>
     follows (Some (w, rest)) (\<lambda>r v xs'. r = v \<and> x_kmem xs' = x_kmem xs + h) (proc xs (ar_where ar))))"

lemma reads_accepted_rest:
  assumes "good xs" "x_op xs = XDR_DECODE" "left xs = acc_bytes wb a @ rest" "ar_stat d = ar_stat a"
    and "ar_stat a = SUCCESS \<Longrightarrow> result_reader d wb (ar_where a) h"
  shows "follows (Some (u, rest)) (\<lambda>r v xs'. acc_same a r \<and> ar_verf r = ar_verf d \<and> x_kmem xs' = x_kmem xs + (if ar_stat a = SUCCESS then h else 0))
    (accepted_rest xs d)"
proof -
  consider "ar_stat a = SUCCESS" | "ar_stat a \<noteq> SUCCESS" "ar_stat a = PROG_MISMATCH" | "ar_stat a \<noteq> SUCCESS" "ar_stat a \<noteq> PROG_MISMATCH" by blast
  then show ?thesis
  proof cases
    case 1
    then obtain proc where p: "ar_proc d = Some proc"
      "follows (Some (ar_where a, rest)) (\<lambda>r v xs'. r = v \<and> x_kmem xs' = x_kmem xs + h) (proc xs (ar_where d))"
      using assms by (auto simp: result_reader_def acc_bytes_def)
    have "follows (Some (ar_where a, rest)) (\<lambda>r v xs'. r = d\<lparr>ar_where := v\<rparr> \<and> x_kmem xs' = x_kmem xs + h)
        (xfield ar_where (\<lambda>v r. r\<lparr>ar_where := v\<rparr>) proc xs d)"
      by (rule follows_field, rule p(2)) simp
    then show ?thesis using 1 p(1) assms(4) by (auto simp: accepted_rest_def acc_same_def elim!: reads_as)
  next
    case 2
    have "follows (Some (ar_vers a, rest)) (\<lambda>r v xs'. r = d\<lparr>ar_vers := v, ar_proc := None\<rparr> \<and> x_kmem xs' = x_kmem xs)
        (xfield ar_vers (\<lambda>v r. if x_op xs = XDR_DECODE then r\<lparr>ar_vers := v, ar_proc := None\<rparr> else r) xdr_versions xs d)"
      by (rule follows_field, rule reads_versions [OF assms(1,2)]) (use 2 assms(2,3) in \<open>simp_all add: acc_bytes_def\<close>)
    then show ?thesis using 2 assms(4) by (auto simp: accepted_rest_def acc_same_def elim!: reads_as)
  next
    case 3
    then show ?thesis using assms(1-4) by (simp add: accepted_rest_def acc_same_def acc_bytes_def follows_Some)
  qed
qed

lemma reads_rejected:
  assumes "good xs" "x_op xs = XDR_DECODE" "left xs = rej_bytes a @ rest" "rj_stat a \<in> {RPC_MISMATCH, AUTH_ERROR}"
  shows "follows (Some (u, rest)) (\<lambda>r v xs'. rej_same a r \<and> x_kmem xs' = x_kmem xs) (xdr_rejected_reply xs d)"
  unfolding xdr_rejected_reply_def
proof (rule reads_all)
  show "follows (Some (rj_stat a, (if rj_stat a = RPC_MISMATCH then vers_bytes (rj_vers a) else enc32 (rj_why a)) @ rest))
      (\<lambda>r v xs'. r = d\<lparr>rj_stat := v\<rparr> \<and> x_kmem xs' = x_kmem xs) (xfield rj_stat (\<lambda>v r. r\<lparr>rj_stat := v\<rparr>) xdr_enum xs d)"
    using assms by (intro reads_word) (simp_all add: rej_bytes_def)
  fix r :: rejected_reply and xs'
  assume r: "r = d\<lparr>rj_stat := rj_stat a\<rparr> \<and> x_kmem xs' = x_kmem xs"
    and g: "good xs'" "x_op xs' = XDR_DECODE" "left xs' = (if rj_stat a = RPC_MISMATCH then vers_bytes (rj_vers a) else enc32 (rj_why a)) @ rest"
  have "follows (Some (u, rest)) (\<lambda>r v xs'. rej_same a r \<and> x_kmem xs' = x_kmem xs) (rejected_rest xs' r)"
  proof (cases "rj_stat a = RPC_MISMATCH")
    case True
    have "follows (Some (rj_vers a, rest)) (\<lambda>x v xs''. x = r\<lparr>rj_vers := v\<rparr> \<and> x_kmem xs'' = x_kmem xs')
        (xfield rj_vers (\<lambda>v r. r\<lparr>rj_vers := v\<rparr>) xdr_versions xs' r)"
      by (rule follows_field, rule reads_versions [OF g(1,2)]) (use True g(3) in simp_all)
    then show ?thesis using True r by (auto simp: rejected_rest_def rej_same_def elim!: reads_as)
  next
    case False
    have "follows (Some (rj_why a, rest)) (\<lambda>x v xs''. x = r\<lparr>rj_why := v\<rparr> \<and> x_kmem xs'' = x_kmem xs')
        (xfield rj_why (\<lambda>v r. r\<lparr>rj_why := v\<rparr>) xdr_enum xs' r)"
      using False g by (intro reads_word) simp_all
    then show ?thesis using False r assms(4) by (auto simp: rejected_rest_def rej_same_def elim!: reads_as)
  qed
  then show "follows (Some (u, rest)) (\<lambda>r v xs'. rej_same a r \<and> x_kmem xs' = x_kmem xs) (xall [rejected_rest] xs' r)" by (rule follows_last)
qed

text \<open>
  An accepted reply \<open>a\<close> read into \<open>d\<close>: with no memory given for the verifier, the kernel memory taken
  is that of the verifier and of the results.
\<close>

definition acc_read :: "('t, 'b) accepted_reply \<Rightarrow> ('s, 'b) accepted_reply \<Rightarrow> nat \<Rightarrow> nat \<Rightarrow> ('s, 'b) accepted_reply \<Rightarrow> 's XDR \<Rightarrow> bool" where
  "acc_read a d h k r xs \<longleftrightarrow> acc_same a r \<and> auth_is (ar_verf r) (auth_view (ar_verf a)) \<and>
    (oa_base (ar_verf d) = NullP \<longrightarrow>
       oa_base (ar_verf r) = (if snd (auth_view (ar_verf a)) = [] then NullP else Mem (snd (auth_view (ar_verf a)))) \<and>
       x_kmem xs = k + length (snd (auth_view (ar_verf a))) + (if ar_stat a = SUCCESS then h else 0))"

lemma reads_accepted:
  assumes "good xs" "x_op xs = XDR_DECODE" "left xs = auth_bytes (ar_verf a) [] @ enc32 (ar_stat a) @ acc_bytes wb a @ rest"
    "ok_verf (ar_verf a)" "ini_base (oa_base (ar_verf d))"
    and res: "ar_stat a = SUCCESS \<Longrightarrow> result_reader d wb (ar_where a) h"
    and vp: "\<And>xs oa. good xs \<Longrightarrow> x_op xs = XDR_DECODE \<Longrightarrow> ini_base (oa_base oa) \<Longrightarrow> follows (parse_auth (left xs)) (body_is (oa_base oa) (x_kmem xs)) (vp xs oa)"
  shows "follows (Some (u, rest)) (\<lambda>r v xs'. acc_read a d h (x_kmem xs) r xs')
    (xall [xfield ar_verf (\<lambda>v r. r\<lparr>ar_verf := v\<rparr>) vp, xfield ar_stat (\<lambda>v r. r\<lparr>ar_stat := v\<rparr>) xdr_enum, accepted_rest] xs d)"
proof (rule reads_all)
  have "follows (Some (auth_view (ar_verf a), enc32 (ar_stat a) @ acc_bytes wb a @ rest)) (body_is (oa_base (ar_verf d)) (x_kmem xs)) (vp xs (ar_verf d))"
    using vp [OF assms(1,2,5)] parse_auth_bytes [of "ar_verf a" "[]"] ok_verf_pad [OF assms(4)] by (simp add: assms(3))
  then show "follows (Some (auth_view (ar_verf a), enc32 (ar_stat a) @ acc_bytes wb a @ rest))
      (\<lambda>r v xs'. \<exists>oa. r = d\<lparr>ar_verf := oa\<rparr> \<and> body_is (oa_base (ar_verf d)) (x_kmem xs) oa v xs') (xfield ar_verf (\<lambda>v r. r\<lparr>ar_verf := v\<rparr>) vp xs d)"
    by (rule follows_field) auto
  fix r :: "('s, 'b) accepted_reply" and xs1
  assume r: "\<exists>oa. r = d\<lparr>ar_verf := oa\<rparr> \<and> body_is (oa_base (ar_verf d)) (x_kmem xs) oa (auth_view (ar_verf a)) xs1"
    and g: "good xs1" "x_op xs1 = XDR_DECODE" "left xs1 = enc32 (ar_stat a) @ acc_bytes wb a @ rest"
  show "follows (Some (u, rest)) (\<lambda>r v xs'. acc_read a d h (x_kmem xs) r xs') (xall [xfield ar_stat (\<lambda>v r. r\<lparr>ar_stat := v\<rparr>) xdr_enum, accepted_rest] xs1 r)"
  proof (rule reads_all, rule reads_word(2) [OF g])
    fix r2 :: "('s, 'b) accepted_reply" and xs2
    assume r2: "r2 = r\<lparr>ar_stat := ar_stat a\<rparr> \<and> x_kmem xs2 = x_kmem xs1"
      and g2: "good xs2" "x_op xs2 = XDR_DECODE" "left xs2 = acc_bytes wb a @ rest"
    have "ar_stat a = SUCCESS \<Longrightarrow> result_reader r2 wb (ar_where a) h" using res r r2 by (auto simp: result_reader_def)
    from reads_accepted_rest [OF g2 _ this, of u] r2
    have "follows (Some (u, rest)) (\<lambda>r v xs'. acc_same a r \<and> ar_verf r = ar_verf r2 \<and> x_kmem xs' = x_kmem xs2 + (if ar_stat a = SUCCESS then h else 0))
        (accepted_rest xs2 r2)" by simp
    then have "follows (Some (u, rest)) (\<lambda>r v xs'. acc_read a d h (x_kmem xs) r xs') (accepted_rest xs2 r2)"
      by (rule reads_as) (use r r2 in \<open>auto simp: acc_read_def body_is_def\<close>)
    then show "follows (Some (u, rest)) (\<lambda>r v xs'. acc_read a d h (x_kmem xs) r xs') (xall [accepted_rest] xs2 r2)" by (rule follows_last)
  qed
qed

text \<open>The whole message, and its parts in the object that is filled in.\<close>

definition reply_read :: "('t, 'b) rpc_msg \<Rightarrow> ('s, 'b) rpc_msg \<Rightarrow> nat \<Rightarrow> nat \<Rightarrow> ('s, 'b) rpc_msg \<Rightarrow> 's XDR \<Rightarrow> bool" where
  "reply_read m d h k r xs \<longleftrightarrow> rm_xid r = rm_xid m \<and> rm_direction r = REPLY \<and> rp_stat (rm_reply r) = rp_stat (rm_reply m) \<and>
    (if rp_stat (rm_reply m) = MSG_ACCEPTED then acc_read (rp_acpt (rm_reply m)) (rp_acpt (rm_reply d)) h k (rp_acpt (rm_reply r)) xs
     else rej_same (rp_rjct (rm_reply m)) (rp_rjct (rm_reply r)) \<and> x_kmem xs = k)"

definition ini_reply :: "('t, 'b) rpc_msg \<Rightarrow> ('s, 'b) rpc_msg \<Rightarrow> byte list \<Rightarrow> nat \<Rightarrow> bool" where
  "ini_reply m d wb h \<longleftrightarrow> ini_base (oa_base (ar_verf (rp_acpt (rm_reply d)))) \<and>
    (has_results m \<longrightarrow> result_reader (rp_acpt (rm_reply d)) wb (ar_where (rp_acpt (rm_reply m))) h)"

definition reply_tail :: "byte list \<Rightarrow> ('t, 'b) rpc_msg \<Rightarrow> byte list" where
  "reply_tail wb m = (if rp_stat (rm_reply m) = MSG_ACCEPTED
      then auth_bytes (ar_verf (rp_acpt (rm_reply m))) [] @ enc32 (ar_stat (rp_acpt (rm_reply m))) @ acc_bytes wb (rp_acpt (rm_reply m))
      else rej_bytes (rp_rjct (rm_reply m)))"

lemma reply_bytes_tail: "reply_bytes wb m = enc32 (rm_xid m) @ enc32 (rm_direction m) @ enc32 (rp_stat (rm_reply m)) @ reply_tail wb m"
  by (simp add: reply_bytes_def reply_tail_def)

lemma reads_union:
  assumes "good xs" "x_op xs = XDR_DECODE" "left xs = enc32 (rp_stat (rm_reply m)) @ reply_tail wb m @ rest" "ok_reply m"
    "ini_reply m d wb h"
  shows "follows (Some ((), rest)) (\<lambda>(v, a, r) u xs'. v = rp_stat (rm_reply m) \<and>
      (if rp_stat (rm_reply m) = MSG_ACCEPTED then acc_read (rp_acpt (rm_reply m)) (rp_acpt (rm_reply d)) h (x_kmem xs) a xs'
       else rej_same (rp_rjct (rm_reply m)) r \<and> x_kmem xs' = x_kmem xs))
    (xdr_union reply_dscrm None xs (st, rp_acpt (rm_reply d), rp_rjct (rm_reply d)))"
proof -
  let ?st = "rp_stat (rm_reply m)"
  have "follows (Some (?st, reply_tail wb m @ rest)) (\<lambda>r v xs'. r = v \<and> x_kmem xs' = x_kmem xs) (xdr_enum xs st)"
    using follows_long(2) [OF assms(1,2), of st] by (simp add: assms(3))
  then obtain xs1 where 1: "xdr_enum xs st = Ret (True, ?st, xs1)" "x_kmem xs1 = x_kmem xs" "good xs1" "x_op xs1 = XDR_DECODE"
    "left xs1 = reply_tail wb m @ rest" by (auto simp: follows_def)
  show ?thesis
  proof (cases "?st = MSG_ACCEPTED")
    case True
    then have v: "ok_verf (ar_verf (rp_acpt (rm_reply m)))" using assms(4) by (auto simp: ok_reply_def)
    have "follows (Some ((), rest)) (\<lambda>r v xs'. acc_read (rp_acpt (rm_reply m)) (rp_acpt (rm_reply d)) h (x_kmem xs1) r xs')
        (xdr_accepted_reply xs1 (rp_acpt (rm_reply d)))" unfolding xdr_accepted_reply_def
      apply (rule reads_accepted [where wb = wb, OF 1(3,4) _ v])
      subgoal using 1(5) True by (simp add: reply_tail_def)
      subgoal using assms(5) by (simp add: ini_reply_def)
      subgoal using assms(5) True by (simp add: ini_reply_def has_results_def)
      subgoal by (rule follows_auth)
      done
    then show ?thesis using 1 True by (auto simp: follows_def xdr_union_def reply_dscrm_def xfield_def)
  next
    case False
    then have d: "?st = MSG_DENIED" "rj_stat (rp_rjct (rm_reply m)) \<in> {RPC_MISMATCH, AUTH_ERROR}" using assms(4) by (auto simp: ok_reply_def)
    have "follows (Some ((), rest)) (\<lambda>r v xs'. rej_same (rp_rjct (rm_reply m)) r \<and> x_kmem xs' = x_kmem xs1) (xdr_rejected_reply xs1 (rp_rjct (rm_reply d)))"
      using 1(5) False by (intro reads_rejected [OF 1(3,4) _ d(2)]) (simp add: reply_tail_def)
    then show ?thesis using 1 d(1) by (auto simp: follows_def xdr_union_def reply_dscrm_def xfield_def)
  qed
qed

lemma reads_reply_generic:
  assumes "good xs" "x_op xs = XDR_DECODE" "left xs = reply_bytes wb m @ rest" "ok_reply m" "ini_reply m d wb h"
  shows "follows (Some ((), rest)) (\<lambda>r v xs'. reply_read m d h (x_kmem xs) r xs') (reply_generic xs d)"
proof -
  have dir: "rm_direction m = REPLY" using assms(4) by (simp add: ok_reply_def)
  show ?thesis unfolding reply_generic_def
    apply (rule reads_all, rule reads_word(1) [OF assms(1,2)], simp add: assms(3) reply_bytes_tail)
    apply (rule reads_all, rule reads_word(2), assumption, assumption, assumption)
    apply (rule reads_test, simp add: dir)
    apply (rule follows_last, rule follows_field, simp)
     apply (rule reads_union [OF _ _ _ assms(4,5)], assumption, assumption, assumption)
    apply (auto simp: reply_read_def dir)
    done
qed

end

context xdr_inline_stream
begin

lemma follows_reply_body:
  assumes "good xs" "x_op xs = XDR_DECODE" "ini_base (oa_base oa)"
  shows "follows (parse_body (oa_flavor oa) (oa_length oa) (left xs)) (body_is (oa_base oa) (x_kmem xs)) (reply_verf xs oa)"
proof -
  obtain f sp n where oa: "oa = \<lparr>oa_flavor = f, oa_base = sp, oa_length = n\<rparr>" by (cases oa) simp
  consider "n = 0" | "n > MAX_AUTH_BYTES" | "n \<noteq> 0" "n \<le> MAX_AUTH_BYTES" by (metis not_less)
  then show ?thesis
  proof cases
    case 1
    then show ?thesis using body_empty [OF assms(1,2), of f sp] by (simp add: oa reply_verf_def)
  next
    case 2
    then show ?thesis by (auto simp: oa reply_verf_def parse_body_def follows_None)
  next
    case 3
    have "ini_base sp" using assms(3) by (simp add: oa)
    note b = body_opaque [OF assms(1,2) this 3(2,1), of f]
    obtain m k where m: "(if sp = NullP then (case mem_alloc xs n of (m, xs) \<Rightarrow> (Mem m, xs)) else (sp, xs)) = (Mem m, xs\<lparr>x_kmem := k\<rparr>)"
      "unat n \<le> length m" "sp = NullP \<Longrightarrow> length m = unat n \<and> k = x_kmem xs + unat n" using auth_memory [OF \<open>ini_base sp\<close> 3(2)] by metis
    have g: "good (xs\<lparr>x_kmem := k\<rparr>)" using assms(1) by simp
    have n: "unat (RNDUP n) = unat n + pad (unat n)" using auth_small [OF 3(2)] unat_RNDUP [of n] by simp
    then have "unat (RNDUP n) < 2147483648" using auth_small [OF 3(2)] pad_unit(2) [of "unat n"] by linarith
    have rv: "reply_verf xs oa = (case XDR_INLINE (xs\<lparr>x_kmem := k\<rparr>) (RNDUP n) of
          (None, xs) \<Rightarrow> kbind (xdr_opaque n xs (Mem m)) (\<lambda>(b, p, xs). Ret (b, \<lparr>oa_flavor = f, oa_base = p, oa_length = n\<rparr>, xs))
        | (Some buf, xs) \<Rightarrow> kbind (x_load (x_ops xs) (x_stream xs) buf (unat n)) (\<lambda>bs. kbind (bcopy_to (Mem m) bs)
            (\<lambda>p. Ret (True, \<lparr>oa_flavor = f, oa_base = p, oa_length = n\<rparr>, xs))))"
      unfolding reply_verf_def oa opaque_auth.simps m(1) Let_def prod.case using 3 by (simp add: not_less [symmetric])
    from INLINE [OF g \<open>unat (RNDUP n) < 2147483648\<close>] show ?thesis
    proof cases
      case 1
      then show ?thesis using b unfolding m(1) rv by (simp add: oa)
    next
      case (2 p xs')
      define rest where "rest = take (unat n + pad (unat n)) (left xs)"
      have rm: "room (xs\<lparr>x_kmem := k\<rparr>) [] xs' p rest" "length rest = unat n + pad (unat n)" using 2(2,3) unfolding n rest_def by simp_all
      have g': "good xs'" "x_op xs' = XDR_DECODE" "x_kmem xs' = k"
        using room_done [OF rm(1)] rm(2) pad_unit(1) room_facts(4) [OF rm(1)] room_moved(2) [OF rm(1)] assms(2) by (simp_all add: whole_def)
      have l: "left xs' = drop (unat n + pad (unat n)) (left xs)" "take (unat n) rest = take (unat n) (left xs)"
        using moved_left [OF room_moved(1) [OF rm(1)]] rm(2) by (simp_all add: rest_def)
      have ld: "x_load (x_ops xs') (x_stream xs') p (unat n) = Ret (take (unat n) rest)" "length (take (unat n) rest) = unat n"
        using room_load [OF rm(1), of "unat n"] rm(2) by simp_all
      have "unat n \<noteq> 0" using 3(1) by (simp add: unat_eq_zero)
      then have "take (unat n) rest \<noteq> []" using ld(2) by auto
      then have "body_is sp (x_kmem xs) \<lparr>oa_flavor = f, oa_base = Mem (take (unat n) rest @ drop (unat n) m), oa_length = n\<rparr> (f, take (unat n) rest) xs'"
        using ld(2) m(3) g'(3) by (simp add: body_is_def auth_is_def)
      moreover have "reply_verf xs oa = Ret (True, \<lparr>oa_flavor = f, oa_base = Mem (take (unat n) rest @ drop (unat n) m), oa_length = n\<rparr>, xs')"
        using 2(1) ld m(2) by (simp add: rv)
      ultimately show ?thesis using 2(2) 3(2) g'(1,2) l n
        by (simp add: oa parse_body_def parse_opaque_def follows_Some not_less [symmetric])
    qed
  qed
qed

lemma follows_reply_verf:
  assumes "good xs" "x_op xs = XDR_DECODE" "ini_base (oa_base oa)"
  shows "follows (parse_auth (left xs)) (body_is (oa_base oa) (x_kmem xs)) (xall [auth_hdr, reply_verf] xs oa)"
  unfolding parse_auth_hdr
proof (rule follows_all, rule follows_hdr [OF assms(1,2)])
  fix r :: opaque_auth and v :: "int32 \<times> ulong" and xs'
  assume "r = oa\<lparr>oa_flavor := fst v, oa_length := snd v\<rparr> \<and> x_kmem xs' = x_kmem xs" and g: "good xs'" "x_op xs' = XDR_DECODE"
  then show "follows (case (v, left xs') of (v, bs) \<Rightarrow> parse_body (fst v) (snd v) bs) (body_is (oa_base oa) (x_kmem xs)) (xall [reply_verf] xs' r)"
    using follows_reply_body [OF g, of r] assms(3) by (intro follows_last) simp
qed

lemma get_bind:
  assumes "room xs0 bs xs p (enc32 v @ rest)"
    and "room xs0 (bs @ enc32 v) xs (p + 4) rest \<Longrightarrow> Q (k (v, p + 4))"
  shows "Q (kbind (IXDR_GET_LONG xs p) k)"
  using room_get [OF assms(1)] assms(2) by (simp add: dec_enc32)

lemma reads_reply_get:
  assumes "room xs0 [] xs p (enc32 (rm_xid m) @ enc32 (rm_direction m) @ enc32 (rp_stat (rm_reply m)))" "x_op xs = XDR_DECODE"
    "left xs = reply_tail wb m @ rest" "ok_reply m" "ini_reply m d wb h"
  shows "follows (Some ((), rest)) (\<lambda>r v xs'. reply_read m d h (x_kmem xs) r xs') (reply_get p xs d)"
proof -
  let ?Q = "follows (Some ((), rest)) (\<lambda>r v xs'. reply_read m d h (x_kmem xs) r xs')"
  have g: "good xs" using room_done [OF assms(1)] by (simp add: whole_def)
  have dir: "rm_direction m = REPLY" using assms(4) by (simp add: ok_reply_def)
  show ?thesis
  proof (cases "rp_stat (rm_reply m) = MSG_ACCEPTED")
    case True
    then have v: "ok_verf (ar_verf (rp_acpt (rm_reply m)))" using assms(4) by (auto simp: ok_reply_def)
    have "follows (Some ((), rest)) (\<lambda>r v xs'. acc_read (rp_acpt (rm_reply m)) (rp_acpt (rm_reply d)) h (x_kmem xs) r xs')
        (xall [xfield ar_verf (\<lambda>v r. r\<lparr>ar_verf := v\<rparr>) (xall [auth_hdr, reply_verf]), xfield ar_stat (\<lambda>v r. r\<lparr>ar_stat := v\<rparr>) xdr_enum, accepted_rest]
          xs (rp_acpt (rm_reply d)))"
      apply (rule reads_accepted [where wb = wb, OF g assms(2) _ v])
      subgoal using assms(3) True by (simp add: reply_tail_def)
      subgoal using assms(5) by (simp add: ini_reply_def)
      subgoal using assms(5) True by (simp add: ini_reply_def has_results_def)
      subgoal by (rule follows_reply_verf)
      done
    then have "?Q (xfield (\<lambda>m. rp_acpt (rm_reply m)) (\<lambda>v m. m\<lparr>rm_reply := (rm_reply m)\<lparr>rp_acpt := v\<rparr>\<rparr>)
        (xall [xfield ar_verf (\<lambda>v r. r\<lparr>ar_verf := v\<rparr>) (xall [auth_hdr, reply_verf]), xfield ar_stat (\<lambda>v r. r\<lparr>ar_stat := v\<rparr>) xdr_enum, accepted_rest])
        xs (d\<lparr>rm_xid := rm_xid m, rm_direction := REPLY, rm_reply := (rm_reply d)\<lparr>rp_stat := rp_stat (rm_reply m)\<rparr>\<rparr>))"
      using True by (intro follows_field) (simp_all add: reply_read_def)
    then show ?thesis unfolding reply_get_def Let_def
      apply (intro get_bind [where Q = ?Q, OF assms(1)], simp only: prod.case)
      apply (rule get_bind [where Q = ?Q], assumption, simp add: dir)
      apply (rule get_bind [where Q = ?Q and rest = "[]"], simp)
      using True by simp
  next
    case False
    then have st: "rp_stat (rm_reply m) = MSG_DENIED" "rj_stat (rp_rjct (rm_reply m)) \<in> {RPC_MISMATCH, AUTH_ERROR}" using assms(4) by (auto simp: ok_reply_def)
    have "follows (Some ((), rest)) (\<lambda>r v xs'. rej_same (rp_rjct (rm_reply m)) r \<and> x_kmem xs' = x_kmem xs) (xdr_rejected_reply xs (rp_rjct (rm_reply d)))"
      using assms(3) False by (intro reads_rejected [OF g assms(2) _ st(2)]) (simp add: reply_tail_def)
    then have "?Q (xfield (\<lambda>m. rp_rjct (rm_reply m)) (\<lambda>v m. m\<lparr>rm_reply := (rm_reply m)\<lparr>rp_rjct := v\<rparr>\<rparr>) xdr_rejected_reply
        xs (d\<lparr>rm_xid := rm_xid m, rm_direction := REPLY, rm_reply := (rm_reply d)\<lparr>rp_stat := rp_stat (rm_reply m)\<rparr>\<rparr>))"
      using st(1) by (intro follows_field) (simp_all add: reply_read_def)
    then show ?thesis unfolding reply_get_def Let_def
      apply (intro get_bind [where Q = ?Q, OF assms(1)], simp only: prod.case)
      apply (rule get_bind [where Q = ?Q], assumption, simp add: dir)
      apply (rule get_bind [where Q = ?Q and rest = "[]"], simp)
      using st(1) by simp
  qed
qed

text \<open>Decoding a reply message, whichever rooms the stream gives.\<close>

lemma reads_replymsg:
  assumes "good xs" "x_op xs = XDR_DECODE" "left xs = reply_bytes wb m @ rest" "ok_reply m" "ini_reply m d wb h"
  shows "follows (Some ((), rest)) (\<lambda>r v xs'. reply_read m d h (x_kmem xs) r xs') (xdr_replymsg xs d)"
proof -
  have e: "unat (3 * BYTES_PER_XDR_UNIT) = 12" by (simp add: BYTES_PER_XDR_UNIT_def)
  then have "unat (3 * BYTES_PER_XDR_UNIT) < 2147483648" by simp
  from INLINE [OF assms(1) this] show ?thesis
  proof cases
    case 1
    then show ?thesis using reads_reply_generic [OF assms] assms(2) by (simp add: xdr_replymsg_def)
  next
    case (2 p xs')
    define hd where "hd = enc32 (rm_xid m) @ enc32 (rm_direction m) @ enc32 (rp_stat (rm_reply m))"
    have l: "take (unat (3 * BYTES_PER_XDR_UNIT)) (left xs) = hd" by (simp add: e assms(3) reply_bytes_tail hd_def)
    have rm: "room xs [] xs' p hd" using 2(3) unfolding l .
    have "left xs' = reply_tail wb m @ rest" using moved_left [OF room_moved(1) [OF rm]] by (simp add: assms(3) reply_bytes_tail hd_def)
    then have "follows (Some ((), rest)) (\<lambda>r v xs'. reply_read m d h (x_kmem xs) r xs') (reply_get p xs' d)"
      using reads_reply_get [OF rm [unfolded hd_def] _ _ assms(4,5)] room_facts(4) [OF rm] room_moved(2) [OF rm] assms(2) by simp
    then show ?thesis using 2(1) assms(2) by (simp add: xdr_replymsg_def)
  qed
qed

end

end
