(* ===== verification/Rpc_Props.thy ===== *)
theory Rpc_Props
  imports Rpc_Reply Xdr_Props
begin

text \<open>
  Messages on memory streams, with the choice left open when a stream gives room for direct loads
  and stores and when it makes the filters go through its operations, and the claims on the
  messages.
\<close>

section \<open>Memory streams that may refuse to give room\<close>

definition xdrmem_when :: "(mem_stream \<Rightarrow> int32 \<Rightarrow> bool) \<Rightarrow> mem_stream xdr_ops" where
  "xdrmem_when c = xdrmem_ops\<lparr>x_inline := \<lambda>s n. if c s n then xdrmem_inline s n else (None, s)\<rparr>"

definition mem_pos :: "mem_stream \<Rightarrow> ulong \<Rightarrow> nat" where
  "mem_pos s p = unat (p - x_base s)"

lemma xdrmem_when_always: "xdrmem_when (\<lambda>s n. True) = xdrmem_ops"
  by (simp add: xdrmem_when_def xdrmem_ops_def)

lemma mem_inline:
  assumes wf: "mem_wf s" and n: "unat n < 2147483648"
  shows "xdrmem_inline s n = (None, s) \<or> (\<exists>p s'. xdrmem_inline s n = (Some p, s') \<and> unat n \<le> length (mem_ahead s) \<and> mem_wf s' \<and>
    mem_behind s' = mem_behind s @ take (unat n) (mem_ahead s) \<and> mem_ahead s' = drop (unat n) (mem_ahead s) \<and> mem_pos s' p = length (mem_behind s))"
proof (cases "sint (x_handy s) \<ge> sint n")
  case False
  then show ?thesis by (simp add: xdrmem_inline_def)
next
  case True
  have h: "unat (x_handy s) = length (mem_ahead s)" "unat (x_handy s) < 2147483648" using wf by (auto simp: mem_wf_def mem_ahead_def)
  have l: "unat n \<le> length (mem_ahead s)" using True h(1) unfolding sint_small32 [OF h(2)] sint_small32 [OF n] by linarith
  let ?s = "s\<lparr>x_handy := x_handy s - n, x_private := x_private s + n\<rparr>"
  have "?s = s\<lparr>x_handy := x_handy s - n, x_private := x_private s + n, x_mem := mem_behind s @ take (unat n) (mem_ahead s) @ drop (unat n) (mem_ahead s)\<rparr>"
    using mem_split [OF wf, of "unat n"] by simp
  note mv = mem_moved [OF wf n l _ this]
  have "length (mem_behind s) = mem_off s" using wf by (simp add: mem_behind_def mem_wf_def)
  then show ?thesis using mv l True by (simp add: xdrmem_inline_def mem_pos_def mem_off_def)
qed

lemma write_take:
  assumes "i + length bs \<le> n" "n \<le> length xs"
  shows "take n (take i xs @ bs @ drop (i + length bs) xs) = take i (take n xs) @ bs @ drop (i + length bs) (take n xs)"
    "drop n (take i xs @ bs @ drop (i + length bs) xs) = drop n xs"
proof -
  have l: "length (take i xs) = i" "min i n = i" "min n i = i" "i \<le> n" using assms by simp_all
  have d: "length bs \<le> n - i" "n - i - length bs + (i + length bs) = n" using assms by linarith+
  show "take n (take i xs @ bs @ drop (i + length bs) xs) = take i (take n xs) @ bs @ drop (i + length bs) (take n xs)"
    using l d by (simp add: drop_take)
  show "drop n (take i xs @ bs @ drop (i + length bs) xs) = drop n xs" using l d by simp
qed

interpretation xw: xdr_inline_stream "xdrmem_when c" mem_wf mem_behind mem_ahead mem_pos for c
proof -
  have s: "xdr_stream (xdrmem_when c) mem_wf mem_behind mem_ahead"
    using xm.xdr_stream_axioms by (simp add: xdr_stream_def xdrmem_when_def)
  show "xdr_inline_stream (xdrmem_when c) mem_wf mem_behind mem_ahead mem_pos"
  proof (rule xdr_inline_stream.intro [OF s], unfold_locales)
    fix s :: mem_stream and n :: int32
    assume "mem_wf s" "unat n < 2147483648"
    then show "x_inline (xdrmem_when c) s n = (None, s) \<or> (\<exists>p s'. x_inline (xdrmem_when c) s n = (Some p, s') \<and> unat n \<le> length (mem_ahead s) \<and> mem_wf s' \<and>
        mem_behind s' = mem_behind s @ take (unat n) (mem_ahead s) \<and> mem_ahead s' = drop (unat n) (mem_ahead s) \<and> mem_pos s' p = length (mem_behind s))"
      using mem_inline [of s n] by (simp add: xdrmem_when_def)
  next
    fix s :: mem_stream and p i :: ulong
    assume "mem_wf s" "mem_pos s p + unat i \<le> length (mem_behind s)"
    then have "unat (p - x_base s) + unat i < 4294967296" by (simp add: mem_pos_def mem_behind_def mem_wf_def)
    then have "unat ((p - x_base s) + i) = unat (p - x_base s) + unat i" by (simp add: unat_add_nowrap)
    moreover have "p + i - x_base s = (p - x_base s) + i" by simp
    ultimately show "mem_pos s (p + i) = mem_pos s p + unat i" by (simp only: mem_pos_def)
  next
    fix s :: mem_stream and p :: ulong
    assume a: "mem_wf s" "4 dvd mem_pos s p"
    then have "aligned (p - x_base s)" "aligned (x_base s)" by (simp_all add: aligned_iff mem_pos_def mem_wf_def)
    then show "aligned p" using aligned_add [of "p - x_base s" "x_base s"] by simp
  next
    fix s :: mem_stream and p :: ulong and k :: nat
    assume a: "mem_wf s" "mem_pos s p + k \<le> length (mem_behind s)"
    have "length (mem_behind s) = mem_off s" using a(1) by (simp add: mem_behind_def mem_wf_def)
    then have "k \<le> mem_off s - mem_pos s p" using a(2) by linarith
    then have "take k (drop (mem_pos s p) (mem_behind s)) = take k (drop (mem_pos s p) (x_mem s))"
      by (simp add: mem_behind_def drop_take min_absorb1)
    then show "x_load (xdrmem_when c) s p k = Ret (take k (drop (mem_pos s p) (mem_behind s)))"
      using a by (simp add: xdrmem_when_def xdrmem_ops_def mem_read_def mem_pos_def mem_behind_def Let_def)
  next
    fix s :: mem_stream and p :: ulong and bs :: "byte list"
    assume a: "mem_wf s" "mem_pos s p + length bs \<le> length (mem_behind s)"
    let ?o = "mem_pos s p"
    let ?s = "s\<lparr>x_mem := take ?o (x_mem s) @ bs @ drop (?o + length bs) (x_mem s)\<rparr>"
    have o: "mem_off ?s = mem_off s" "?o + length bs \<le> mem_off s" "mem_off s \<le> length (x_mem s)" "mem_pos ?s = mem_pos s"
      using a by (auto simp: mem_off_def mem_behind_def mem_wf_def mem_pos_def)
    have "mem_behind ?s = take ?o (mem_behind s) @ bs @ drop (?o + length bs) (mem_behind s)" "mem_ahead ?s = mem_ahead s"
      unfolding mem_behind_def mem_ahead_def o(1) using o(2,3) by (simp_all add: write_take drop_take)
    moreover have "mem_wf ?s" using a(1) o by (simp add: mem_wf_def)
    moreover have "x_store (xdrmem_when c) s p bs = Ret ?s"
      using o by (simp add: xdrmem_when_def xdrmem_ops_def mem_write_def mem_pos_def Let_def)
    ultimately show "\<exists>s'. x_store (xdrmem_when c) s p bs = Ret s' \<and> mem_wf s' \<and> mem_ahead s' = mem_ahead s \<and> mem_pos s' = mem_pos s \<and>
        mem_behind s' = take ?o (mem_behind s) @ bs @ drop (?o + length bs) (mem_behind s)" using o(4) by auto
  qed
qed


text \<open>A stream on a buffer that decides by \<open>c\<close> when to give room.\<close>

definition xdrmem_open :: "(mem_stream \<Rightarrow> int32 \<Rightarrow> bool) \<Rightarrow> ulong \<Rightarrow> byte list \<Rightarrow> xdr_op \<Rightarrow> nat \<Rightarrow> (nat \<Rightarrow> byte) \<Rightarrow> mem_stream XDR" where
  "xdrmem_open c addr mem op k f = (xdrmem_create addr mem (of_nat (length mem)) op k f)\<lparr>x_ops := xdrmem_when c\<rparr>"

lemma open_good:
  assumes "aligned addr" "length mem < 2147483648"
  shows "xw.good c (xdrmem_open c addr mem op k f)" "xw.left (xdrmem_open c addr mem op k f) = mem"
    "x_op (xdrmem_open c addr mem op k f) = op" "x_kmem (xdrmem_open c addr mem op k f) = k"
    "mem_behind (x_stream (xdrmem_open c addr mem op k f)) = []"
  using m_long.create_good [OF assms, of op k f]
  by (simp_all add: xdrmem_open_def xw.good_def xw.left_def xm.good_def xm.left_def xdrmem_create_def)

lemma open_moved:
  assumes "aligned addr" "length mem < 2147483648" "xw.moved (xdrmem_open c addr mem op k f) bs xs'"
  shows "x_mem (x_stream xs') = bs @ drop (length bs) mem"
proof -
  note o = open_good [OF assms(1,2), of c op k f]
  have m: "mem_wf (x_stream xs')" "mem_behind (x_stream xs') = bs" "mem_ahead (x_stream xs') = drop (length bs) mem"
    using assms(3) o by (simp_all add: xw.moved_def xw.left_def)
  then show ?thesis using mem_split [OF m(1), of 0] by simp
qed

section \<open>Example messages\<close>

definition ex_null :: opaque_auth where
  "ex_null = \<lparr>oa_flavor = 0, oa_base = NullP, oa_length = 0\<rparr>"

definition ex_auth :: opaque_auth where
  "ex_auth = \<lparr>oa_flavor = 1, oa_base = Mem [1, 2, 3, 4, 5], oa_length = 5\<rparr>"

definition ex_verf :: opaque_auth where
  "ex_verf = \<lparr>oa_flavor = 1, oa_base = Mem [1, 2, 3, 4], oa_length = 4\<rparr>"

definition ex_call :: "opaque_auth \<Rightarrow> call_body" where
  "ex_call cred = \<lparr>cb_rpcvers = 2, cb_prog = 100003, cb_vers = 2, cb_proc = 1, cb_cred = cred, cb_verf = ex_null\<rparr>"

definition ex_msg :: "int32 \<Rightarrow> opaque_auth \<Rightarrow> int32 \<Rightarrow> int32 \<Rightarrow> (mem_stream, ulong) xdrproc option \<Rightarrow> (mem_stream, ulong) rpc_msg" where
  "ex_msg dir oa st ast p = \<lparr>rm_xid = 7, rm_direction = dir, rm_call = ex_call oa,
     rm_reply = \<lparr>rp_stat = st, rp_acpt = \<lparr>ar_verf = oa, ar_stat = ast, ar_vers = \<lparr>low = 2, high = 3\<rparr>, ar_where = 42, ar_proc = p\<rparr>,
       rp_rjct = \<lparr>rj_stat = RPC_MISMATCH, rj_vers = \<lparr>low = 2, high = 2\<rparr>, rj_why = 0\<rparr>\<rparr>\<rparr>"

lemma ex_auth_ok: "ok_auth ex_auth" "ok_auth ex_null" "auth_size ex_auth = 16" "auth_size ex_null = 8" "ini_base (oa_base ex_null)" "ok_verf ex_null"
    "ok_verf ex_verf"
  by (simp_all add: ok_auth_def ok_verf_def ex_verf_def ex_auth_def ex_null_def auth_size_def auth_pad_def pad_def MAX_AUTH_BYTES_def ini_base_def)

lemma aligned_4096: "aligned 4096"
  by (simp add: aligned_def)

text \<open>
  The verifier of an accepted reply that is not a whole number of units: the fast path of
  \<open>xdr_replymsg\<close> reserves less than it writes, and the next long is stored at an address that is no
  multiple of four.
\<close>

lemma reply_verf_not_rounded:
  "xdr_replymsg (xdrmem_create 4096 (replicate 100 0) 100 XDR_ENCODE 0 (\<lambda>_. 0)) (ex_msg REPLY ex_auth MSG_ACCEPTED PROG_MISMATCH None) = Fault"
proof -
  have "case xdr_replymsg (xdrmem_create 4096 (replicate 100 0) 100 XDR_ENCODE 0 (\<lambda>_. 0)) (ex_msg REPLY ex_auth MSG_ACCEPTED PROG_MISMATCH None) of
      Fault \<Rightarrow> True | _ \<Rightarrow> False" by code_simp
  then show ?thesis by (simp split: kres.splits)
qed

section \<open>Claims\<close>

text \<open>
  C25 (rpc_call_parse). Decoding a call message from any bytes at all, \<open>xdr_callmsg\<close> does what the
  parser \<open>parse_call\<close> says: it accepts exactly the messages of the right direction and version with
  authentication structures of at most 400 bytes that are complete, it leaves the stream behind the
  message and fills in its parts, and in no case does it read outside the buffer or write outside
  the memory for the authentication structures. This is so whichever of its loads the stream lets it
  do directly in the buffer.
\<close>

theorem rpc_call_parse:
  assumes "aligned addr" "length mem < 2147483648"
    "ini_base (oa_base (cb_cred (rm_call d)))" "ini_base (oa_base (cb_verf (rm_call d)))"
  shows "case parse_call mem of
      None \<Rightarrow> \<exists>m xs. xdr_callmsg (xdrmem_open c addr mem XDR_DECODE k f) d = Ret (False, m, xs)
    | Some (v, rest) \<Rightarrow> \<exists>m xs. xdr_callmsg (xdrmem_open c addr mem XDR_DECODE k f) d = Ret (True, m, xs) \<and> call_is m v \<and> mem_ahead (x_stream xs) = rest"
proof -
  note o = open_good [OF assms(1,2), of c XDR_DECODE k f]
  from xw.follows_callmsg [OF o(1,3) assms(3,4)] show ?thesis
    unfolding o(2) by (auto simp: xw.follows_def xw.left_def split: option.splits)
qed

theorem rpc_call_parse_witness:
  "\<exists>m xs. xdr_callmsg (xdrmem_open (\<lambda>s n. n = 32) 4096
      [0, 0, 0, 7, 0, 0, 0, 0, 0, 0, 0, 2, 0, 1, 134, 163, 0, 0, 0, 2, 0, 0, 0, 1, 0, 0, 0, 1, 0, 0, 0, 3, 9, 8, 7, 255, 0, 0, 0, 0, 0, 0, 0, 0, 66] XDR_DECODE 0 (\<lambda>_. 0))
      (ex_msg CALL ex_null 0 0 None) = Ret (True, m, xs) \<and>
    call_is m \<lparr>v_xid = 7, v_prog = 100003, v_vers = 2, v_proc = 1, v_cred = (1, [9, 8, 7]), v_verf = (0, [])\<rparr> \<and> mem_ahead (x_stream xs) = [66]"
proof -
  have p: "parse_call [0, 0, 0, 7, 0, 0, 0, 0, 0, 0, 0, 2, 0, 1, 134, 163, 0, 0, 0, 2, 0, 0, 0, 1, 0, 0, 0, 1, 0, 0, 0, 3, 9, 8, 7, 255, 0, 0, 0, 0, 0, 0, 0, 0, 66] =
      Some (\<lparr>v_xid = 7, v_prog = 100003, v_vers = 2, v_proc = 1, v_cred = (1, [9, 8, 7]), v_verf = (0, [])\<rparr>, [66])" by code_simp
  have "ini_base (oa_base (cb_cred (rm_call (ex_msg CALL ex_null 0 0 None))))" "ini_base (oa_base (cb_verf (rm_call (ex_msg CALL ex_null 0 0 None))))"
    using ex_auth_ok(5) by (simp_all add: ex_msg_def ex_call_def)
  from rpc_call_parse [OF aligned_4096 _ this, of _ "\<lambda>s n. n = 32" 0 "\<lambda>_. 0", where mem = "[0, 0, 0, 7, 0, 0, 0, 0, 0, 0, 0, 2, 0, 1, 134, 163, 0, 0, 0, 2, 0, 0, 0, 1, 0, 0, 0, 1, 0, 0, 0, 3, 9, 8, 7, 255, 0, 0, 0, 0, 0, 0, 0, 0, 66]"]
  show ?thesis unfolding p by simp
qed

text \<open>
  C26 (rpc_call_roundtrip). A call message that \<open>xdr_callmsg\<close> encodes is decoded by it to a message with
  the same identifier, program, version, procedure, credentials and verifier, whichever of the two
  sides works directly in the buffer, and exactly its bytes are written and read.
\<close>

theorem rpc_call_roundtrip:
  assumes "aligned addr" "length mem < 2147483648" "ok_call m" "call_size m \<le> length mem"
    "ini_base (oa_base (cb_cred (rm_call d)))" "ini_base (oa_base (cb_verf (rm_call d)))"
  shows "\<exists>xs m' xs'. xdr_callmsg (xdrmem_open c addr mem XDR_ENCODE k f) m = Ret (True, m, xs) \<and>
    mem_ahead (x_stream xs) = drop (call_size m) mem \<and>
    xdr_callmsg (xdrmem_open c' addr (x_mem (x_stream xs)) XDR_DECODE k f) d = Ret (True, m', xs') \<and>
    call_is m' (call_view_of m) \<and> mem_ahead (x_stream xs') = drop (call_size m) mem"
proof -
  note o = open_good [OF assms(1,2), of c XDR_ENCODE k f]
  obtain q1 q2 where q: "length q1 = auth_pad (cb_cred (rm_call m))" "length q2 = auth_pad (cb_verf (rm_call m))"
    "xw.writes (xdrmem_open c addr mem XDR_ENCODE k f) (call_bytes m q1 q2) m (xdr_callmsg (xdrmem_open c addr mem XDR_ENCODE k f) m)"
    using xw.writes_callmsg [OF o(1,3) assms(3)] assms(4) o(2) by auto
  then obtain xs where 1: "xdr_callmsg (xdrmem_open c addr mem XDR_ENCODE k f) m = Ret (True, m, xs)"
    "xw.moved (xdrmem_open c addr mem XDR_ENCODE k f) (call_bytes m q1 q2) xs" by (auto simp: xw.writes_def)
  have l: "length (call_bytes m q1 q2) = call_size m"
    using assms(3) length_auth [OF _ q(1)] length_auth [OF _ q(2)] by (simp add: call_bytes_def call_size_def ok_call_def)
  have mem: "x_mem (x_stream xs) = call_bytes m q1 q2 @ drop (call_size m) mem" using open_moved [OF assms(1,2) 1(2)] l by simp
  then have "length (x_mem (x_stream xs)) < 2147483648" using l assms(2,4) by simp
  note o' = open_good [OF assms(1) this, of c' XDR_DECODE k f]
  have lf: "xw.left (xdrmem_open c' addr (x_mem (x_stream xs)) XDR_DECODE k f) = call_bytes m q1 q2 @ drop (call_size m) mem"
    by (rule trans [OF o'(2) mem])
  have pr: "parse_call (xw.left (xdrmem_open c' addr (x_mem (x_stream xs)) XDR_DECODE k f)) = Some (call_view_of m, drop (call_size m) mem)"
    unfolding lf by (rule parse_call_bytes [OF assms(3) q(1,2)])
  from xw.follows_callmsg [OF o'(1,3) assms(5,6)] obtain m' xs'
    where "xdr_callmsg (xdrmem_open c' addr (x_mem (x_stream xs)) XDR_DECODE k f) d = Ret (True, m', xs')"
      "call_is m' (call_view_of m)" "mem_ahead (x_stream xs') = drop (call_size m) mem"
    unfolding pr by (auto simp: xw.follows_def xw.left_def)
  moreover have "mem_ahead (x_stream xs) = drop (call_size m) mem"
    using xw.moved_left [OF 1(2)] l o(2) by (simp add: xw.left_def)
  ultimately show ?thesis using 1(1) by blast
qed

theorem rpc_call_roundtrip_witness:
  "\<exists>xs m' xs'. xdr_callmsg (xdrmem_open (\<lambda>s n. True) 4096 (replicate 60 255) XDR_ENCODE 0 (\<lambda>_. 0)) (ex_msg CALL ex_auth 0 0 None) =
      Ret (True, ex_msg CALL ex_auth 0 0 None, xs) \<and>
    xdr_callmsg (xdrmem_open (\<lambda>s n. False) 4096 (x_mem (x_stream xs)) XDR_DECODE 0 (\<lambda>_. 0)) (ex_msg CALL ex_null 0 0 None) = Ret (True, m', xs') \<and>
    call_is m' (call_view_of (ex_msg CALL ex_auth 0 0 None))"
proof -
  have "ok_call (ex_msg CALL ex_auth 0 0 None)" "call_size (ex_msg CALL ex_auth 0 0 None) \<le> length (replicate 60 (255 :: byte))"
    using ex_auth_ok by (simp_all add: ok_call_def call_size_def ex_msg_def ex_call_def RPC_MSG_VERSION_def)
  moreover have "ini_base (oa_base (cb_cred (rm_call (ex_msg CALL ex_null 0 0 None))))" "ini_base (oa_base (cb_verf (rm_call (ex_msg CALL ex_null 0 0 None))))"
    using ex_auth_ok(5) by (simp_all add: ex_msg_def ex_call_def)
  ultimately show ?thesis using rpc_call_roundtrip [OF aligned_4096 _ _ _ , of "replicate 60 255" "ex_msg CALL ex_auth 0 0 None"
      "ex_msg CALL ex_null 0 0 None" "\<lambda>s n. True" 0 "\<lambda>_. 0" "\<lambda>s n. False"] by auto
qed


text \<open>The results on a stream: a filter that keeps the contract writes and reads them.\<close>

context xdr_codec
begin

lemma codec_writer:
  assumes "has_results m \<longrightarrow> ar_proc (rp_acpt (rm_reply m)) = Some proc \<and> ok (ar_where (rp_acpt (rm_reply m)))"
  shows "result_writer m (enc (ar_where (rp_acpt (rm_reply m))))"
  using assms encode by (fastforce simp: result_writer_def writes_def)

lemma codec_reader:
  assumes "ar_proc d = Some proc" "ini (ar_where d)" "ok w"
  shows "result_reader d (enc w) w (the (held w))"
proof -
  have "follows (Some (w, rest)) (\<lambda>r v xs'. r = v \<and> x_kmem xs' = x_kmem xs + the (held w)) (proc xs (ar_where d))"
    if g: "good xs" "x_op xs = XDR_DECODE" "left xs = enc w @ rest" for xs rest
  proof -
    obtain xs' where x: "proc xs (ar_where d) = Ret (True, w, xs')" "moved xs (enc w) xs'" "held w = Some (x_kmem xs' - x_kmem xs)" "x_kmem xs \<le> x_kmem xs'"
      using decode [OF g(1,2) assms(3,2) g(3)] by blast
    then show ?thesis using moved_good [OF g(1) x(2) unit [OF assms(3)]] moved_op [OF x(2)] moved_left [OF x(2)] g(2,3)
      by (simp add: follows_def)
  qed
  then show ?thesis using assms(1) by (auto simp: result_reader_def)
qed

end

context xdr_stream
begin

lemma read_same: "ok_reply m \<Longrightarrow> reply_read m d h k r xs \<Longrightarrow> reply_same m r"
  by (auto simp: reply_read_def reply_same_def acc_read_def ok_reply_def)

text \<open>
  Freeing the verifier of a successful reply leaves the memory of the results only. Of any other
  accepted reply the verifier is not freed.
\<close>

lemma read_free:
  assumes "reply_read m d h k r xs" "has_results m" "oa_base (ar_verf (rp_acpt (rm_reply d))) = NullP"
  shows "\<exists>r' xs'. xdr_rpc_free_verifier xs r = Ret (True, r', xs') \<and> x_kmem xs' = k + h"
proof -
  let ?b = "snd (auth_view (ar_verf (rp_acpt (rm_reply m))))"
  let ?oa = "ar_verf (rp_acpt (rm_reply r))"
  have a: "rm_direction r = REPLY" "rp_stat (rm_reply r) = MSG_ACCEPTED" "ar_stat (rp_acpt (rm_reply r)) = SUCCESS"
    "oa_base ?oa = (if ?b = [] then NullP else Mem ?b)" "x_kmem xs = k + length ?b + h" "unat (oa_length ?oa) = length ?b"
    using assms by (auto simp: reply_read_def has_results_def acc_read_def acc_same_def auth_is_def)
  show ?thesis
  proof (cases "?b = []")
    case True
    then show ?thesis using a by (simp add: xdr_rpc_free_verifier_def)
  next
    case False
    then show ?thesis using a
      by (simp add: xdr_rpc_free_verifier_def xfield_def xdr_opaque_auth_def xdr_enum_def xdr_long_def xdr_bytes_def xdr_u_int_def xdr_u_long_def kmem_free_def)
  qed
qed

lemma read_kept:
  assumes "reply_read m d h k r xs" "\<not> has_results m" "oa_base (ar_verf (rp_acpt (rm_reply d))) = NullP"
  shows "xdr_rpc_free_verifier xs r = Ret (True, r, xs)"
    "x_kmem xs = k + (if rp_stat (rm_reply m) = MSG_ACCEPTED then length (snd (auth_view (ar_verf (rp_acpt (rm_reply m))))) else 0)"
  using assms by (auto simp: reply_read_def has_results_def acc_read_def acc_same_def xdr_rpc_free_verifier_def split: if_splits)

end

lemmas status_values = RPC_VERSMISMATCH_def RPC_AUTHERROR_def RPC_PROGVERSMISMATCH_def RPC_SUCCESS_def RPC_PROGUNAVAIL_def RPC_PROCUNAVAIL_def
  RPC_CANTDECODEARGS_def RPC_SYSTEMERROR_def RPC_FAILED_def MSG_ACCEPTED_def MSG_DENIED_def RPC_MISMATCH_def AUTH_ERROR_def

text \<open>The error information depends on the parts of a reply that are carried.\<close>

lemma same_status: "ok_reply m \<Longrightarrow> reply_same m m' \<Longrightarrow> seterr_reply m' e = seterr_reply m e"
  by (auto simp: put_vers_def put_why_def put_s1_def put_s2_def ok_reply_def reply_same_def acc_same_def rej_same_def seterr_reply_def reply_status_def accepted_def rejected_def Let_def status_values)


text \<open>
  C27 (rpc_reply_roundtrip). A reply that \<open>xdr_replymsg\<close> encodes, accepted with a verifier of whole
  units or rejected, is decoded by it to a reply with the same identifier, statuses, verifier,
  versions and results, for any filter of the results that keeps the contract of a codec and
  whichever of the two sides works directly in the buffer; the client draws the same error
  information from it. When the client gave no memory for the verifier, memory is allocated for it.
  \<open>xdr_rpc_free_verifier\<close> gives that memory back if the reply is a successful one, and only the memory
  of the results stays allocated. For every other accepted reply it does nothing, so the memory of
  the verifier stays allocated; for a rejected reply there is none.
\<close>

theorem rpc_reply_roundtrip:
  fixes proc :: "(mem_stream, 'a) xdrproc" and m d :: "(mem_stream, 'a) rpc_msg"
  assumes "aligned addr" "length mem < 2147483648" "ok_reply m"
    and codec: "\<forall>c. xdr_codec (xdrmem_when c) mem_wf mem_behind mem_ahead proc enc ok ini held"
    and res: "has_results m \<longrightarrow> ar_proc (rp_acpt (rm_reply m)) = Some proc \<and> ok (ar_where (rp_acpt (rm_reply m))) \<and>
      ar_proc (rp_acpt (rm_reply d)) = Some proc \<and> ini (ar_where (rp_acpt (rm_reply d)))"
    and l: "length (reply_bytes (enc (ar_where (rp_acpt (rm_reply m)))) m) \<le> length mem"
    and d: "ini_base (oa_base (ar_verf (rp_acpt (rm_reply d))))"
  shows "\<exists>xs m' xs'. xdr_replymsg (xdrmem_open c addr mem XDR_ENCODE k f) m = Ret (True, m, xs) \<and>
    xdr_replymsg (xdrmem_open c' addr (x_mem (x_stream xs)) XDR_DECODE k f) d = Ret (True, m', xs') \<and>
    reply_same m m' \<and> (\<forall>e. seterr_reply m' e = seterr_reply m e) \<and>
    (oa_base (ar_verf (rp_acpt (rm_reply d))) = NullP \<longrightarrow>
      (\<exists>m'' xs''. xdr_rpc_free_verifier xs' m' = Ret (True, m'', xs'') \<and>
        x_kmem xs'' = k + (if has_results m then the (held (ar_where (rp_acpt (rm_reply m))))
          else if rp_stat (rm_reply m) = MSG_ACCEPTED then length (snd (auth_view (ar_verf (rp_acpt (rm_reply m)))))
          else 0)))"
proof -
  let ?w = "ar_where (rp_acpt (rm_reply m))"
  let ?bs = "reply_bytes (enc ?w) m"
  let ?xs = "xdrmem_open c addr mem XDR_ENCODE k f"
  note o = open_good [OF assms(1,2), of c XDR_ENCODE k f]
  have "xw.writes ?xs ?bs m (xdr_replymsg ?xs m)"
    using xdr_codec.codec_writer [OF codec [rule_format, of c], of m] res l o(2) by (intro xw.writes_replymsg [OF o(1,3) assms(3)]) auto
  then obtain xs where 1: "xdr_replymsg ?xs m = Ret (True, m, xs)" "xw.moved ?xs ?bs xs" by (auto simp: xw.writes_def)
  have mem: "x_mem (x_stream xs) = ?bs @ drop (length ?bs) mem" by (rule open_moved [OF assms(1,2) 1(2)])
  then have "length (x_mem (x_stream xs)) < 2147483648" using l assms(2) by simp
  note o' = open_good [OF assms(1) this, of c' XDR_DECODE k f]
  let ?ys = "xdrmem_open c' addr (x_mem (x_stream xs)) XDR_DECODE k f"
  have lf: "xw.left ?ys = ?bs @ drop (length ?bs) mem" by (rule trans [OF o'(2) mem])
  have "xw.ini_reply c' m d (enc ?w) (the (held ?w))"
    using xdr_codec.codec_reader [OF codec [rule_format, of c'], of "rp_acpt (rm_reply d)" ?w] res d by (auto simp: xw.ini_reply_def)
  from xw.reads_replymsg [OF o'(1,3) lf assms(3) this] obtain m' xs'
    where 2: "xdr_replymsg ?ys d = Ret (True, m', xs')" "xw.reply_read m d (the (held ?w)) k m' xs'"
    by (auto simp: xw.follows_def o'(4))
  note s = xw.read_same [OF assms(3) 2(2)]
  have "\<exists>m'' xs''. xdr_rpc_free_verifier xs' m' = Ret (True, m'', xs'') \<and>
        x_kmem xs'' = k + (if has_results m then the (held ?w)
          else if rp_stat (rm_reply m) = MSG_ACCEPTED then length (snd (auth_view (ar_verf (rp_acpt (rm_reply m))))) else 0)"
    if "oa_base (ar_verf (rp_acpt (rm_reply d))) = NullP"
    using xw.read_free [OF 2(2) _ that] xw.read_kept [OF 2(2) _ that] by (cases "has_results m") auto
  then show ?thesis using 1(1) 2(1) s same_status [OF assms(3) s] by blast
qed

definition ex_reply :: "int32 \<Rightarrow> nat \<Rightarrow> bool" where
  "ex_reply ast n \<longleftrightarrow> (\<exists>xs m' xs' m'' xs''.
    xdr_replymsg (xdrmem_open (\<lambda>s n. True) 4096 (replicate 60 255) XDR_ENCODE 0 (\<lambda>_. 0)) (ex_msg REPLY ex_verf MSG_ACCEPTED ast (Some xdr_u_long)) =
      Ret (True, ex_msg REPLY ex_verf MSG_ACCEPTED ast (Some xdr_u_long), xs) \<and>
    xdr_replymsg (xdrmem_open (\<lambda>s n. False) 4096 (x_mem (x_stream xs)) XDR_DECODE 0 (\<lambda>_. 0)) (ex_msg CALL ex_null 0 5 (Some xdr_u_long)) = Ret (True, m', xs') \<and>
    reply_same (ex_msg REPLY ex_verf MSG_ACCEPTED ast (Some xdr_u_long)) m' \<and>
    xdr_rpc_free_verifier xs' m' = Ret (True, m'', xs'') \<and> x_kmem xs'' = n)"

theorem rpc_reply_roundtrip_witness: "ex_reply SUCCESS 0 \<and> ex_reply PROG_MISMATCH 4"
proof -
  have "ex_reply ast (if ast = SUCCESS then 0 else 4)" if "ast = SUCCESS \<or> ast = PROG_MISMATCH" for ast
  proof -
    let ?m = "ex_msg REPLY ex_verf MSG_ACCEPTED ast (Some xdr_u_long)" and ?d = "ex_msg CALL ex_null 0 5 (Some xdr_u_long)"
    have "ok_reply ?m" using ex_auth_ok by (simp add: ok_reply_def ex_msg_def)
    moreover have "\<forall>c. xdr_codec (xdrmem_when c) mem_wf mem_behind mem_ahead xdr_u_long enc32 (\<lambda>_. True) (\<lambda>_. True) (\<lambda>_. Some 0)"
      using xw.u_long_codec by blast
    moreover have "length (reply_bytes (enc32 (ar_where (rp_acpt (rm_reply ?m)))) ?m) \<le> length (replicate 60 (255 :: byte))"
      by (simp add: reply_bytes_def acc_bytes_def vers_bytes_def ex_msg_def auth_bytes_def auth_view_def ex_verf_def)
    moreover have "has_results ?m \<longrightarrow> ar_proc (rp_acpt (rm_reply ?m)) = Some xdr_u_long \<and> True \<and>
        ar_proc (rp_acpt (rm_reply ?d)) = Some xdr_u_long \<and> True" by (simp add: ex_msg_def)
    moreover have d: "ini_base (oa_base (ar_verf (rp_acpt (rm_reply ?d))))" "oa_base (ar_verf (rp_acpt (rm_reply ?d))) = NullP"
      using ex_auth_ok(5) by (simp_all add: ex_msg_def ex_null_def)
    moreover have "has_results ?m \<longleftrightarrow> ast = SUCCESS" "rp_stat (rm_reply ?m) = MSG_ACCEPTED"
      "length (snd (auth_view (ar_verf (rp_acpt (rm_reply ?m))))) = 4"
      by (simp_all add: has_results_def ex_msg_def ex_verf_def auth_view_def)
    ultimately show ?thesis unfolding ex_reply_def
      using rpc_reply_roundtrip [OF aligned_4096, of "replicate 60 255" ?m xdr_u_long enc32 "\<lambda>_. True" "\<lambda>_. True" "\<lambda>_. Some 0"
        ?d "\<lambda>s n. True" 0 "\<lambda>_. 0" "\<lambda>s n. False"] by fastforce
  qed
  from this [of SUCCESS] this [of PROG_MISMATCH] show ?thesis by simp
qed

lemma xfield_True: "xfield get put p xs d = Ret (True, r, xs') \<longleftrightarrow> (\<exists>v. p xs (get d) = Ret (True, v, xs') \<and> r = put v d)"
  by (auto simp: xfield_def)

lemma rejected_stat: "xdr_rejected_reply xs d = Ret (True, r, xs') \<Longrightarrow> rj_stat r \<in> {RPC_MISMATCH, AUTH_ERROR}"
  by (auto simp: xdr_rejected_reply_def rejected_rest_def xfield_True split: if_splits)

definition stat_known :: "('s, 'a) rpc_msg \<Rightarrow> bool" where
  "stat_known r \<longleftrightarrow> rp_stat (rm_reply r) = MSG_ACCEPTED \<or>
    rp_stat (rm_reply r) = MSG_DENIED \<and> rj_stat (rp_rjct (rm_reply r)) \<in> {RPC_MISMATCH, AUTH_ERROR}"

lemma reply_get_stat: "reply_get buf xs d = Ret (True, r, xs') \<Longrightarrow> stat_known r"
  by (auto simp: reply_get_def Let_def xfield_True stat_known_def split: if_splits dest: rejected_stat)

lemma union_stat: "xdr_union reply_dscrm None xs (st, u) = Ret (True, (v, a, r), xs') \<Longrightarrow>
    v = MSG_ACCEPTED \<or> v = MSG_DENIED \<and> rj_stat r \<in> {RPC_MISMATCH, AUTH_ERROR}"
  by (auto simp: xdr_union_def reply_dscrm_def xfield_True split: if_splits dest: rejected_stat)

lemma reply_generic_stat: "reply_generic xs d = Ret (True, r, xs') \<Longrightarrow> stat_known r"
  by (auto simp: reply_generic_def xfield_True xtest_def stat_known_def split: if_splits dest: union_stat)

lemma reply_stat:
  assumes "xdr_replymsg xs d = Ret (True, r, xs')"
  shows "stat_known r"
proof -
  consider "stat_known r" | buf ys where "reply_get buf ys d = Ret (True, r, xs')" | ys where "reply_generic ys d = Ret (True, r, xs')"
    using assms by (auto simp: xdr_replymsg_def xfield_True stat_known_def split: if_splits prod.splits option.splits)
  then show ?thesis by cases (auto dest: reply_get_stat reply_generic_stat)
qed

text \<open>
  C28 (rpc_versmismatch_unreported). No reply that \<open>xdr_replymsg\<close> accepts makes the client report
  \<open>RPC_VERSMISMATCH\<close>. A server that rejects the version of the protocol sends \<open>RPC_MISMATCH\<close>, which
  \<open>rejected\<close> does not look for: the client reports \<open>RPC_FAILED\<close>, and what stands in the place of the
  versions in the error information is the two statuses of the reply, \<open>MSG_DENIED\<close> and \<open>RPC_MISMATCH\<close>,
  that is a lowest version 1 and a highest version 0, whatever versions the server named and whatever
  was there before.
\<close>

theorem rpc_versmismatch_unreported:
  assumes "xdr_replymsg xs d = Ret (True, m, xs')"
  shows "re_status (seterr_reply m e) \<noteq> RPC_VERSMISMATCH \<and>
    (rp_stat (rm_reply m) = MSG_DENIED \<and> rj_stat (rp_rjct (rm_reply m)) = RPC_MISMATCH \<longrightarrow>
      re_status (seterr_reply m e) = RPC_FAILED \<and> re_vers (seterr_reply m e) = \<lparr>low = 1, high = 0\<rparr>)"
  using reply_stat [OF assms]
  by (auto simp: stat_known_def seterr_reply_def reply_status_def accepted_def rejected_def Let_def status_values
      re_vers_def put_vers_def put_why_def put_s1_def put_s2_def)

theorem rpc_versmismatch_unreported_witness:
  "\<exists>m xs'. xdr_replymsg (xdrmem_create 4096 [0, 0, 0, 7, 0, 0, 0, 1, 0, 0, 0, 1, 0, 0, 0, 0, 0, 0, 0, 3, 0, 0, 0, 4] 24 XDR_DECODE 0 (\<lambda>_. 0))
      (ex_msg CALL ex_null 0 0 None) = Ret (True, m, xs') \<and> rj_vers (rp_rjct (rm_reply m)) = \<lparr>low = 3, high = 4\<rparr> \<and>
    (\<forall>e. re_status (seterr_reply m e) = RPC_FAILED \<and> re_vers (seterr_reply m e) = \<lparr>low = 1, high = 0\<rparr>)"
proof -
  let ?r = "xdr_replymsg (xdrmem_create 4096 [0, 0, 0, 7, 0, 0, 0, 1, 0, 0, 0, 1, 0, 0, 0, 0, 0, 0, 0, 3, 0, 0, 0, 4] 24 XDR_DECODE 0 (\<lambda>_. 0))
    (ex_msg CALL ex_null 0 0 None)"
  have "case ?r of Ret (b, m, xs) \<Rightarrow> b \<and> rp_stat (rm_reply m) = MSG_DENIED \<and> rj_stat (rp_rjct (rm_reply m)) = RPC_MISMATCH \<and>
      rj_vers (rp_rjct (rm_reply m)) = \<lparr>low = 3, high = 4\<rparr> | _ \<Rightarrow> False" by code_simp
  then obtain m xs' where "?r = Ret (True, m, xs')" "rp_stat (rm_reply m) = MSG_DENIED" "rj_stat (rp_rjct (rm_reply m)) = RPC_MISMATCH"
    "rj_vers (rp_rjct (rm_reply m)) = \<lparr>low = 3, high = 4\<rparr>" by (auto split: kres.splits)
  then show ?thesis using rpc_versmismatch_unreported [of _ "ex_msg CALL ex_null 0 0 None" m xs'] by metis
qed

end
