(* ===== verification/Sleep.thy ===== *)
theory Sleep
  imports Condvar
begin

text \<open>
  The waits of \<open>sparc/os/condvar.c\<close> and \<open>os/slp.c\<close>. Each has two parts: up to the switch to another
  thread, and from when the thread runs again. Between them others work on the queues. Mutexes are
  given up and taken again around the switch; \<open>lwp\<close> tells whether the thread belongs to a process.
\<close>

section \<open>Waits on condition variables\<close>

text \<open>
  How the first part ends: with a value, at once; with the switch, and the second part follows
  (\<open>Switched\<close>) or nothing does (\<open>Switched_plain\<close>); or without a switch, and the second part follows.
\<close>

datatype wait_out = Returned int32 | Switched | Switched_plain | Goes_on

definition cv_wait :: "bool \<Rightarrow> sq_state \<Rightarrow> nat \<Rightarrow> int \<Rightarrow> ulong \<Rightarrow> wait_out \<times> sq_state" where
  "cv_wait panicstr st t kpri cvp = (if panicstr then (Returned 0, st) else (Switched_plain, cv_block st t kpri cvp))"

text \<open>
  The wait that a signal can end. \<open>sigwaiting_check\<close> may have dropped the mutex, then the thread does
  not sleep (\<open>dropped\<close>). The thread is made to run again at once when a signal is already pending
  (\<open>ISSIG\<close>, \<open>ISHOLD\<close>: \<open>sig0\<close>). When it runs again the value is 0 if a signal is to be delivered
  (\<open>issig(FORREAL)\<close>: \<open>sig1\<close>), the call was aborted or the process is held, whoever woke it;
  otherwise 1.
\<close>

definition cv_wait_sig :: "bool \<Rightarrow> bool \<Rightarrow> bool \<Rightarrow> bool \<Rightarrow> sq_state \<Rightarrow> nat \<Rightarrow> int \<Rightarrow> ulong \<Rightarrow> (wait_out \<times> sq_state) kres" where
  "cv_wait_sig panicstr lwp dropped sig0 st t kpri cvp =
    (if panicstr then Ret (Returned 1, st)
     else if \<not> lwp then Ret (cv_wait panicstr st t kpri cvp)
     else if dropped then Ret (Goes_on, st)
     else let st1 = cv_block_sig st t kpri cvp
          in kbind (if sig0 then setrun st1 t else Ret st1) (\<lambda>st2. Ret (Switched, st2)))"

definition cv_wait_sig_value :: "bool \<Rightarrow> bool \<Rightarrow> bool \<Rightarrow> int32" where
  "cv_wait_sig_value sig1 sysabort hold =
    (let rval = (if sig1 then 0 else 1) in if sysabort \<or> hold then 0 else rval)"

fun wait_done :: "wait_out \<Rightarrow> bool \<Rightarrow> bool \<Rightarrow> bool \<Rightarrow> sq_state \<Rightarrow> nat \<Rightarrow> int32 \<times> sq_state" where
  "wait_done (Returned v) sig1 sysabort hold st t = (v, st)"
| "wait_done Switched_plain sig1 sysabort hold st t = (1, st)"
| "wait_done Switched sig1 sysabort hold st t = (cv_wait_sig_value sig1 sysabort hold, set_wakeable False st t)"
| "wait_done Goes_on sig1 sysabort hold st t = (cv_wait_sig_value sig1 sysabort hold, st)"

text \<open>The same for a thread that may be swapped out while it waits.\<close>

definition cv_wait_sig_swap :: "bool \<Rightarrow> bool \<Rightarrow> bool \<Rightarrow> bool \<Rightarrow> sq_state \<Rightarrow> nat \<Rightarrow> int \<Rightarrow> ulong \<Rightarrow> (wait_out \<times> sq_state) kres" where
  "cv_wait_sig_swap panicstr lwp dropped sig0 st t kpri cvp =
    (if panicstr then Ret (Returned 1, st)
     else if \<not> lwp then Ret (cv_wait panicstr st t kpri cvp)
     else if dropped then Ret (Goes_on, st)
     else let st0 = st\<lparr>threads := (threads st)(t := (threads st t)\<lparr>t_kpri_req := 0\<rparr>)\<rparr>;
              st1 = cv_block_sig st0 t kpri cvp;
              st2 = st1\<lparr>threads := (threads st1)(t := (threads st1 t)\<lparr>t_schedflag := t_schedflag (threads st1 t) AND NOT TS_DONT_SWAP\<rparr>)\<rparr>
          in kbind (if sig0 then setrun st2 t else Ret st2) (\<lambda>st3. Ret (Switched, st3)))"

section \<open>Sleep and wakeup\<close>

definition slp_cv_wait :: "sq_state \<Rightarrow> nat \<Rightarrow> int \<Rightarrow> ulong \<Rightarrow> wait_out \<times> sq_state" where
  "slp_cv_wait st t kpri chan = (Switched_plain, t_block_chan st t kpri chan)"

definition slp_cv_wait_sig :: "bool \<Rightarrow> bool \<Rightarrow> bool \<Rightarrow> sq_state \<Rightarrow> nat \<Rightarrow> int \<Rightarrow> ulong \<Rightarrow> (wait_out \<times> sq_state) kres" where
  "slp_cv_wait_sig lwp dropped sig0 st t kpri chan =
    (if \<not> lwp then Ret (slp_cv_wait st t kpri chan)
     else if dropped then Ret (Goes_on, st)
     else let st1 = t_block_sig_chan st t kpri chan
          in kbind (if sig0 then setrun st1 t else Ret st1) (\<lambda>st2. Ret (Switched, st2)))"

definition PMASK :: int32 where "PMASK = 127"
definition PCATCH :: int32 where "PCATCH = 256"
definition PZERO :: int32 where "PZERO = 25"

definition interruptible :: "int32 \<Rightarrow> bool" where
  "interruptible disp \<longleftrightarrow> sint (disp AND PMASK) > sint PZERO \<or> disp AND PCATCH \<noteq> 0"

text \<open>\<open>unsafe\<close> tells that the lock of the drivers that are not multi-threaded is held.\<close>

definition sleep :: "bool \<Rightarrow> bool \<Rightarrow> bool \<Rightarrow> bool \<Rightarrow> bool \<Rightarrow> sq_state \<Rightarrow> nat \<Rightarrow> int \<Rightarrow> ulong \<Rightarrow> int32 \<Rightarrow> (wait_out \<times> sq_state) kres" where
  "sleep panicstr unsafe lwp dropped sig0 st t kpri chan disp =
    (if panicstr then Ret (Returned 0, st)
     else if \<not> unsafe then Panic ''sleep() called from an MT-safe driver''
     else if interruptible disp then slp_cv_wait_sig lwp dropped sig0 st t kpri chan
     else Ret (slp_cv_wait st t kpri chan))"

text \<open>The end of \<open>sleep\<close>: it returns, or jumps back to the wrapper of the driver.\<close>

datatype sleep_result = Value int32 | Longjmp

definition sleep_done :: "wait_out \<Rightarrow> bool \<Rightarrow> bool \<Rightarrow> bool \<Rightarrow> sq_state \<Rightarrow> nat \<Rightarrow> int32 \<Rightarrow> sleep_result \<times> sq_state" where
  "sleep_done out sig1 sysabort hold st t disp =
    (case out of Returned v \<Rightarrow> (Value v, st)
     | _ \<Rightarrow> (case wait_done out sig1 sysabort hold st t of (rval, st') \<Rightarrow>
         (if interruptible disp \<and> rval = 0 then if disp AND PCATCH \<noteq> 0 then Value 1 else Longjmp else Value 0, st')))"

definition wakeup :: "sq_state \<Rightarrow> ulong \<Rightarrow> sq_state" where
  "wakeup st chan = t_release_all_chan st chan"

section \<open>Results\<close>

text \<open>Changes of the other fields of a thread do not matter to the queues.\<close>

definition same_sleep :: "kthread \<Rightarrow> kthread \<Rightarrow> bool" where
  "same_sleep k k' \<longleftrightarrow> t_wchan k' = t_wchan k \<and> t_state k' = t_state k \<and> t_wchan0 k' = t_wchan0 k \<and> DISP_PRIO k' = DISP_PRIO k \<and>
     t_sobj_ops k' = t_sobj_ops k"

lemma upd_thread:
  assumes "same_sleep (threads st t) k"
  shows "sq_wf ch (st\<lparr>threads := (threads st)(t := k)\<rparr>) = sq_wf ch st" "waiters (st\<lparr>threads := (threads st)(t := k)\<rparr>) c = waiters st c"
proof -
  let ?st = "st\<lparr>threads := (threads st)(t := k)\<rparr>"
  have th: "t_wchan (threads ?st x) = t_wchan (threads st x)" "sq_prio ?st x = sq_prio st x" "t_wchan0 (threads ?st x) = t_wchan0 (threads st x)"
      "t_sobj_ops (threads ?st x) = t_sobj_ops (threads st x)" "sleepq_head ?st = sleepq_head st" "cv_waiters ?st = cv_waiters st"
      "t_state (threads ?st x) = t_state (threads st x)" for x
    using assms by (simp_all add: same_sleep_def)
  show wq: "waiters ?st c = waiters st c" for c unfolding waiters_def th by (rule refl)
  show "sq_wf ch ?st = sq_wf ch st" unfolding sq_wf_def th wq by (rule refl)
qed

lemma same_sleep_simps [simp]:
  "same_sleep k (k\<lparr>t_wakeable := f\<rparr>)" "same_sleep k (k\<lparr>t_kpri_req := r\<rparr>)" "same_sleep k (k\<lparr>t_schedflag := s\<rparr>)"
  by (simp_all add: same_sleep_def DISP_PRIO_def)

lemma set_wakeable_wf [simp]:
  "sq_wf ch (set_wakeable f st t) = sq_wf ch st" "waiters (set_wakeable f st t) c = waiters st c"
  "t_state (threads (set_wakeable f st t) x) = t_state (threads st x)" "t_wakeable (threads (set_wakeable f st t) t) = f"
  by (simp_all add: set_wakeable_def upd_thread)

lemma remove_inserted: "t \<notin> set q \<Longrightarrow> remove1 t (sleepq_insert pri q t) = q"
  by (induction q) auto

lemma awake_no_waiter:
  assumes "sq_wf ch st" "t_state (threads st t) \<noteq> TS_SLEEP" "c \<noteq> 0"
  shows "t \<notin> set (waiters st c)"
  using waiters_iff [OF assms(1,3)] sq_wfD(4) [OF assms(1)] assms(2,3) by auto

text \<open>A thread that is made to run behind the block finds the queues as they were.\<close>

lemma block_setrun:
  assumes wf: "sq_wf ch st" and t: "t_state (threads st t) \<noteq> TS_SLEEP" and c: "c0 \<noteq> 0"
    and b: "sq_wf ch st1" "t_state (threads st1 t) = TS_SLEEP" "waiters st1 c0 = sleepq_insert pri (waiters st c0) t"
      "\<And>c. c \<noteq> c0 \<Longrightarrow> waiters st1 c = waiters st c"
  shows "\<exists>st2. setrun st1 t = Ret st2 \<and> sq_wf ch st2 \<and> (\<forall>c. c \<noteq> 0 \<longrightarrow> waiters st2 c = waiters st c) \<and> t_state (threads st2 t) = TS_RUN"
proof -
  obtain st2 where s: "setrun st1 t = Ret st2" "sq_wf ch st2" "\<And>c. c \<noteq> 0 \<Longrightarrow> waiters st2 c = remove1 t (waiters st1 c)"
      "t_state (threads st2 t) = TS_RUN"
    using setrun_refines [OF b(1), of t] b(2) by auto
  have "waiters st2 c = waiters st c" if "c \<noteq> 0" for c
    using s(3) [OF that] b(3,4) remove_inserted awake_no_waiter [OF wf t that] by (cases "c = c0") (simp_all add: remove1_idem)
  then show ?thesis using s by blast
qed

text \<open>
  A thread that goes to sleep on a condition variable while a signal is already pending is taken off
  the queue again at once: the queues and the counts are what they were, and the thread is runnable.
\<close>

lemma cv_wait_sig_interrupted:
  assumes "sq_wf ch st" "cvp \<noteq> 0" "\<not> ch cvp" "t_state (threads st t) \<noteq> TS_SLEEP" "length (waiters st cvp) < 65535"
    and f: "f = cv_wait_sig \<or> f = cv_wait_sig_swap"
  shows "\<exists>st'. f False True False True st t kpri cvp = Ret (Switched, st') \<and> sq_wf ch st' \<and>
    (\<forall>c. c \<noteq> 0 \<longrightarrow> waiters st' c = waiters st c) \<and> t_state (threads st' t) = TS_RUN"
proof -
  define s0 where "s0 = (if f = cv_wait_sig then st else st\<lparr>threads := (threads st)(t := (threads st t)\<lparr>t_kpri_req := 0\<rparr>)\<rparr>)"
  define s1 where "s1 = cv_block_sig s0 t kpri cvp"
  define s2 where "s2 = (if f = cv_wait_sig then s1 else
    s1\<lparr>threads := (threads s1)(t := (threads s1 t)\<lparr>t_schedflag := t_schedflag (threads s1 t) AND NOT TS_DONT_SWAP\<rparr>)\<rparr>)"
  have f': "f False True False True st t kpri cvp = kbind (setrun s2 t) (\<lambda>st3. Ret (Switched, st3))"
  proof (cases "f = cv_wait_sig")
    case True
    then show ?thesis by (simp add: cv_wait_sig_def s0_def s1_def s2_def Let_def)
  next
    case False
    then show ?thesis using f by (simp add: cv_wait_sig_swap_def s0_def s1_def s2_def Let_def)
  qed
  have "sq_wf ch s0" "\<And>c. waiters s0 c = waiters st c" "t_state (threads s0 t) \<noteq> TS_SLEEP"
    using assms(1,4) upd_thread [of st t] by (simp_all add: s0_def)
  note k = this cv_block_refines [where st = "set_wakeable True s0 t" and t = t and kpri = kpri and cvp = cvp and ch = ch, folded cv_block_sig_def s1_def]
  have b: "sq_wf ch s1" "waiters s1 cvp = sleepq_insert (sq_prio s1) (waiters st cvp) t" "\<And>c. c \<noteq> cvp \<Longrightarrow> waiters s1 c = waiters st c"
    using k assms(2-5) by simp_all
  have "t_state (threads s1 t) = TS_SLEEP" by (simp add: s1_def cv_block_sig_def cv_block_def Let_def)
  then have "t_state (threads s2 t) = TS_SLEEP" "sq_wf ch s2" "\<And>c. waiters s2 c = waiters s1 c"
    using b(1) upd_thread [of s1 t] by (simp_all add: s2_def)
  then show ?thesis using block_setrun [OF assms(1,4,2), of s2] b f' by auto
qed

lemma block_sig_chan:
  assumes "sq_wf ch st" "chan \<noteq> 0" "ch chan" "t_state (threads st t) \<noteq> TS_SLEEP"
  shows "sq_wf ch (t_block_sig_chan st t kpri chan)"
    and "waiters (t_block_sig_chan st t kpri chan) chan = sleepq_insert (sq_prio (t_block_sig_chan st t kpri chan)) (waiters st chan) t"
    and "c \<noteq> chan \<Longrightarrow> waiters (t_block_sig_chan st t kpri chan) c = waiters st c"
  using t_block_chan_refines [of ch "set_wakeable True st t" chan t] assms by (simp_all add: t_block_sig_chan_def)

text \<open>
  C37 (sleep_wakeup). A thread that sleeps on a channel enters the queue of that channel behind those
  of the same or a higher priority, and no other queue changes. A wakeup of the channel then makes exactly
  the sleepers of the channel run, this thread among them; the channel is empty, every other thread is
  what it was, and the sleep returns 0 if no signal came.
\<close>

theorem sleep_wakeup:
  assumes "sq_wf ch st" "chan \<noteq> 0" "ch chan" "t_state (threads st t) \<noteq> TS_SLEEP"
  shows "\<exists>out st1 st2. sleep False True lwp False False st t kpri chan disp = Ret (out, st1) \<and> wakeup st1 chan = st2 \<and>
    sq_wf ch st1 \<and> waiters st1 chan = sleepq_insert (sq_prio st1) (waiters st chan) t \<and> (\<forall>c. c \<noteq> chan \<longrightarrow> waiters st1 c = waiters st c) \<and>
    sq_wf ch st2 \<and> t_waitqempty_chan st2 chan = 1 \<and> (\<forall>c. c \<noteq> chan \<longrightarrow> c \<noteq> 0 \<longrightarrow> waiters st2 c = waiters st c) \<and>
    (\<forall>x. if x = t \<or> x \<in> set (waiters st chan) then t_state (threads st2 x) = TS_RUN else threads st2 x = threads st x) \<and>
    fst (sleep_done out False False False st2 t disp) = Value 0"
proof -
  let ?sig = "interruptible disp \<and> lwp"
  define st1 where "st1 = (if ?sig then t_block_sig_chan st t kpri chan else t_block_chan st t kpri chan)"
  define out where "out = (if ?sig then Switched else Switched_plain)"
  have s: "sleep False True lwp False False st t kpri chan disp = Ret (out, st1)"
    by (simp add: sleep_def slp_cv_wait_sig_def slp_cv_wait_def out_def st1_def)
  have b: "sq_wf ch st1" "waiters st1 chan = sleepq_insert (sq_prio st1) (waiters st chan) t" "\<And>c. c \<noteq> chan \<Longrightarrow> waiters st1 c = waiters st c"
    using block_sig_chan [OF assms] t_block_chan_refines [OF assms] by (simp_all add: st1_def)
  have o: "x \<noteq> t \<Longrightarrow> threads st1 x = threads st x" for x
    by (simp add: st1_def t_block_sig_chan_def t_block_chan_def set_wakeable_def Let_def)
  note r = t_release_all_chan_refines [OF b(1) assms(2,3), folded wakeup_def]
  have "t_waitqempty_chan (wakeup st1 chan) chan = 1" using waitqempty_iff [OF r(1)] r(2) by simp
  moreover have "fst (sleep_done out False False False (wakeup st1 chan) t disp) = Value 0"
    by (simp add: out_def sleep_done_def cv_wait_sig_value_def)
  moreover have "if x = t \<or> x \<in> set (waiters st chan) then t_state (threads (wakeup st1 chan) x) = TS_RUN else threads (wakeup st1 chan) x = threads st x" for x
    unfolding r(4) b(2) using o [of x] by simp
  ultimately show ?thesis using s b r(1,3) by (intro exI [of _ out] exI [of _ st1] exI [of _ "wakeup st1 chan"]) auto
qed

theorem sleep_wakeup_witness:
  "\<exists>out st1. sleep False True True False False two_asleep 3 7 128 30 = Ret (out, st1) \<and> waiters st1 128 = [3] \<and>
     waiters (wakeup st1 128) 64 = [2, 1] \<and> t_state (threads (wakeup st1 128) 3) = TS_RUN"
proof -
  have h: "t_state (threads two_asleep 3) \<noteq> TS_SLEEP" "waiters two_asleep 128 = []"
    by (simp_all add: two_asleep_def waiters_def cv_block_def all_awake_def Let_def)
  show ?thesis using sleep_wakeup [OF two_asleep(1), of 128 3 True 7 30] h two_asleep(2) by auto
qed

text \<open>
  C38 (sleep_interrupted). A thread of a process whose sleep can be interrupted and which has a signal
  pending leaves every queue as it was and is runnable; if the signal is still there when it runs,
  the sleep returns 1 when the caller asked to catch signals, and otherwise jumps back to the wrapper of the
  driver. In both cases the thread is no longer marked as one that a signal may wake. A call without the
  lock of the unsafe drivers is a panic.
\<close>

theorem sleep_interrupted:
  assumes "sq_wf ch st" "chan \<noteq> 0" "ch chan" "t_state (threads st t) \<noteq> TS_SLEEP" "interruptible disp" "sig1 \<or> sysabort \<or> hold"
  shows "(\<exists>st1 st2. sleep False True True False True st t kpri chan disp = Ret (Switched, st1) \<and> sq_wf ch st1 \<and>
      (\<forall>c. c \<noteq> 0 \<longrightarrow> waiters st1 c = waiters st c) \<and> t_state (threads st1 t) = TS_RUN \<and>
      sleep_done Switched sig1 sysabort hold st1 t disp = (if disp AND PCATCH \<noteq> 0 then Value 1 else Longjmp, st2) \<and>
      sq_wf ch st2 \<and> \<not> t_wakeable (threads st2 t)) \<and>
    sleep False False True False True st t kpri chan disp = Panic ''sleep() called from an MT-safe driver''"
proof -
  let ?st = "t_block_sig_chan st t kpri chan"
  have "t_state (threads ?st t) = TS_SLEEP" by (simp add: t_block_sig_chan_def t_block_chan_def Let_def)
  from block_setrun [OF assms(1,4,2) block_sig_chan(1) [OF assms(1-4)] this block_sig_chan(2,3) [OF assms(1-4)]]
  obtain st1 where s: "setrun ?st t = Ret st1" "sq_wf ch st1" "\<forall>c. c \<noteq> 0 \<longrightarrow> waiters st1 c = waiters st c" "t_state (threads st1 t) = TS_RUN"
    by auto
  then have "sleep False True True False True st t kpri chan disp = Ret (Switched, st1)"
    using assms(5) by (simp add: sleep_def slp_cv_wait_sig_def)
  moreover have "sleep_done Switched sig1 sysabort hold st1 t disp = (if disp AND PCATCH \<noteq> 0 then Value 1 else Longjmp, set_wakeable False st1 t)"
    using assms(5,6) by (auto simp: sleep_done_def cv_wait_sig_value_def)
  moreover have "sleep False False True False True st t kpri chan disp = Panic ''sleep() called from an MT-safe driver''" by (simp add: sleep_def)
  ultimately show ?thesis using s by auto
qed

theorem sleep_interrupted_witness:
  "\<exists>st1. sleep False True True False True two_asleep 3 7 128 30 = Ret (Switched, st1) \<and> waiters st1 64 = [2, 1] \<and>
     fst (sleep_done Switched True False False st1 3 30) = Longjmp"
proof -
  have h: "t_state (threads two_asleep 3) \<noteq> TS_SLEEP" by (simp add: two_asleep_def cv_block_def all_awake_def Let_def)
  have d: "interruptible 30" "\<not> (30 :: int32) AND PCATCH \<noteq> 0" by (simp_all add: interruptible_def PMASK_def PZERO_def PCATCH_def)
  show ?thesis using sleep_interrupted [OF two_asleep(1), of 128 3 30 True False False 7] h d two_asleep(2) by auto
qed

end
