(* ===== verification/Callout.thy ===== *)
theory Callout
  imports Kernel_Prelude
begin

text \<open>
  The callout table, \<open>os/callout.c\<close>: functions to be called after a number of clock ticks. Callouts are
  kept in 256 buckets by their run time. The clock calls \<open>callout_schedule\<close> on each tick, callout threads
  run \<open>callout_execute\<close>, which gives up the lock of the table while it calls a function; the model
  returns at this point and \<open>callout_return\<close> continues behind the call.

  A callout structure is known by its number, in the order of allocation. The circular list of a
  bucket is the list of the structures in it, and so is the list of free structures. A condition
  variable is the list of the threads that sleep on it.
\<close>

section \<open>Data\<close>

definition CALLOUT_EXECUTING :: int32 where "CALLOUT_EXECUTING = 0x80000000"
definition CALLOUT_UNSAFE_DRIVER :: int32 where "CALLOUT_UNSAFE_DRIVER = 0x40000000"
definition CALLOUT_REALTIME :: int32 where "CALLOUT_REALTIME = 0x20000000"
definition CALLOUT_NORMAL :: int32 where "CALLOUT_NORMAL = 0x10000000"
definition CALLOUT_LONGTERM :: int32 where "CALLOUT_LONGTERM = 0x08000000"
definition CALLOUT_TABLE_ID_MASK :: int32 where "CALLOUT_TABLE_ID_MASK = CALLOUT_REALTIME OR CALLOUT_NORMAL"
definition CALLOUT_AUX_ID_MASK :: int32 where "CALLOUT_AUX_ID_MASK = CALLOUT_TABLE_ID_MASK OR CALLOUT_LONGTERM"
definition CALLOUT_BUCKET_ID_MASK :: int32 where "CALLOUT_BUCKET_ID_MASK = CALLOUT_LONGTERM - 1"
definition CALLOUT_ID_MASK :: int32 where "CALLOUT_ID_MASK = CALLOUT_AUX_ID_MASK OR CALLOUT_BUCKET_ID_MASK"
definition CALLOUT_LONGTERM_TICKS :: int32 where "CALLOUT_LONGTERM_TICKS = 0x4000"
definition CALLOUT_BUCKETS :: int32 where "CALLOUT_BUCKETS = 256"
definition CALLOUT_BUCKET_MASK :: int32 where "CALLOUT_BUCKET_MASK = CALLOUT_BUCKETS - 1"
definition INT_MAX :: int32 where "INT_MAX = 0x7FFFFFFF"

text \<open>Functions and arguments are numbers.\<close>

record callout =
  c_xid :: int32
  c_runtime :: int32
  c_func :: nat
  c_arg :: ulong
  c_executor :: nat
  c_done :: "nat list"

record callout_bucket =
  b_list :: "nat list"
  b_short_id :: int32
  b_long_id :: int32

text \<open>\<open>cs_tab\<close> is the memory of the callout structures.\<close>

record callout_state =
  cs_freelist :: "nat list"
  cs_curtime :: int32
  cs_runtime :: int32
  cs_threadpool :: "nat list"
  cs_ncallout :: int32
  cs_busyticks :: int32
  cs_bucket :: "callout_bucket list"
  cs_tab :: "nat \<Rightarrow> callout"

definition bucket_of :: "int32 \<Rightarrow> nat" where
  "bucket_of t = unat (t AND CALLOUT_BUCKET_MASK)"

definition upd_bucket :: "callout_state \<Rightarrow> nat \<Rightarrow> (callout_bucket \<Rightarrow> callout_bucket) \<Rightarrow> callout_state" where
  "upd_bucket cs i f = cs\<lparr>cs_bucket := (cs_bucket cs)[i := f (cs_bucket cs ! i)]\<rparr>"

definition upd_callout :: "callout_state \<Rightarrow> nat \<Rightarrow> (callout \<Rightarrow> callout) \<Rightarrow> callout_state" where
  "upd_callout cs cp f = cs\<lparr>cs_tab := (cs_tab cs)(cp := f (cs_tab cs cp))\<rparr>"

section \<open>Setting up a table\<close>

definition callout_setup :: "callout_state \<Rightarrow> int32 \<Rightarrow> callout_state" where
  "callout_setup cs table_id = cs\<lparr>cs_bucket := map (\<lambda>i. \<lparr>b_list = [], b_short_id = of_nat i OR table_id,
     b_long_id = (of_nat i OR table_id) OR CALLOUT_LONGTERM\<rparr>) [0..<unat CALLOUT_BUCKETS]\<rparr>"

text \<open>The tables are static variables, which are zero at the start.\<close>

definition zero_callout :: callout where
  "zero_callout = \<lparr>c_xid = 0, c_runtime = 0, c_func = 0, c_arg = 0, c_executor = 0, c_done = []\<rparr>"

definition zero_state :: callout_state where
  "zero_state = \<lparr>cs_freelist = [], cs_curtime = 0, cs_runtime = 0, cs_threadpool = [], cs_ncallout = 0, cs_busyticks = 0,
     cs_bucket = [], cs_tab = (\<lambda>_. zero_callout)\<rparr>"

text \<open>Both tables; the two callout threads are started in addition.\<close>

definition callout_init :: "callout_state \<times> callout_state" where
  "callout_init = (callout_setup zero_state CALLOUT_NORMAL, callout_setup zero_state CALLOUT_REALTIME)"

section \<open>Insertion\<close>

text \<open>\<open>mem\<close> says whether there is memory for a structure.\<close>

definition callout_alloc :: "callout_state \<Rightarrow> bool \<Rightarrow> (nat \<times> callout_state) kres" where
  "callout_alloc cs mem =
    (if \<not> mem then Panic ''Timeout table overflow''
     else let cp = unat (cs_ncallout cs) in
       Ret (cp, (upd_callout cs cp (\<lambda>_. zero_callout))\<lparr>cs_ncallout := cs_ncallout cs + 1\<rparr>))"

definition callout_runtime :: "int32 \<Rightarrow> int32 \<Rightarrow> int32 \<Rightarrow> int32" where
  "callout_runtime lbolt curtime delta =
    (let runtime = lbolt + delta in
     if sint runtime \<le> sint curtime then (if sint delta \<le> 0 then curtime + 1 else INT_MAX) else runtime)"

definition next_long_id :: "int32 \<Rightarrow> int32" where
  "next_long_id b = (b - CALLOUT_LONGTERM + CALLOUT_BUCKETS) OR CALLOUT_LONGTERM"

definition next_short_id :: "int32 \<Rightarrow> int32" where
  "next_short_id b = (b + CALLOUT_BUCKETS) AND NOT CALLOUT_LONGTERM"

text \<open>\<open>unsafe\<close> is \<open>UNSAFE_DRIVER_LOCK_HELD()\<close>.\<close>

definition callout_insert :: "callout_state \<Rightarrow> int32 \<Rightarrow> bool \<Rightarrow> bool \<Rightarrow> nat \<Rightarrow> ulong \<Rightarrow> int32 \<Rightarrow> (int32 \<times> callout_state) kres" where
  "callout_insert cs lbolt unsafe mem func arg delta =
    kbind (case cs_freelist cs of [] \<Rightarrow> callout_alloc cs mem | cp # fl \<Rightarrow> Ret (cp, cs\<lparr>cs_freelist := fl\<rparr>)) (\<lambda>(cp, cs).
      let runtime = callout_runtime lbolt (cs_curtime cs) delta;
          i = bucket_of runtime;
          long = sint (runtime - cs_curtime cs) > sint CALLOUT_LONGTERM_TICKS;
          cid = (if long then next_long_id (b_long_id (cs_bucket cs ! i)) else next_short_id (b_short_id (cs_bucket cs ! i)));
          cs1 = upd_callout cs cp (\<lambda>c. c\<lparr>c_func := func, c_arg := arg, c_runtime := runtime,
                  c_xid := if unsafe then cid OR CALLOUT_UNSAFE_DRIVER else cid\<rparr>);
          cs2 = upd_bucket cs1 i (\<lambda>b. (if long then b\<lparr>b_long_id := cid\<rparr> else b\<lparr>b_short_id := cid\<rparr>)\<lparr>b_list := cp # b_list b\<rparr>)
      in Ret (cid, cs2))"

section \<open>Deletion\<close>

text \<open>The structures before the first one with the identifier, this one, and those behind it.\<close>

fun find_id :: "(nat \<Rightarrow> callout) \<Rightarrow> int32 \<Rightarrow> nat list \<Rightarrow> (nat list \<times> nat \<times> nat list) option" where
  "find_id tab cid [] = None"
| "find_id tab cid (cp # cps) =
    (if c_xid (tab cp) AND CALLOUT_ID_MASK \<noteq> cid then map_option (\<lambda>(pre, x, post). (cp # pre, x, post)) (find_id tab cid cps)
     else Some ([], cp, cps))"

text \<open>
  The outcomes: the ticks that were left, the result -1, or a wait for the end of the running
  function, on the structure and with the identifier given. If the identifier has the flag
  \<open>CALLOUT_UNSAFE_DRIVER\<close>, the lock \<open>unsafe_driver\<close> is given up for the wait, and \<open>Relock\<close> is the
  point behind the wait at which the caller takes it again, with the lock of the table given up for
  the time being. The lock \<open>unsafe_driver\<close> itself is not part of the state.
\<close>

datatype del_out = Time_left int32 | Bogus | Wait_done nat int32 | Relock

definition drops_driver :: "int32 \<Rightarrow> bool" where
  "drops_driver xid \<longleftrightarrow> xid AND CALLOUT_UNSAFE_DRIVER \<noteq> 0"

definition callout_delete :: "callout_state \<Rightarrow> int32 \<Rightarrow> nat \<Rightarrow> del_out \<times> callout_state" where
  "callout_delete cs cid self =
    (let i = bucket_of cid in
     case find_id (cs_tab cs) cid (b_list (cs_bucket cs ! i)) of
       None \<Rightarrow> (Bogus, cs)
     | Some (pre, cp, post) \<Rightarrow>
         let xid = c_xid (cs_tab cs cp) in
         if xid AND CALLOUT_EXECUTING \<noteq> 0 then
           (if c_executor (cs_tab cs cp) = self then (Bogus, cs)
            else (Wait_done cp xid, upd_callout cs cp (\<lambda>c. c\<lparr>c_done := c_done c @ [self]\<rparr>)))
         else
           let time_left = c_runtime (cs_tab cs cp) - cs_curtime cs in
           (Time_left (if sint time_left < 0 then 0 else time_left),
            (upd_bucket cs i (\<lambda>b. b\<lparr>b_list := pre @ post\<rparr>))\<lparr>cs_freelist := cp # cs_freelist cs\<rparr>))"

text \<open>A thread that waited wakes up, and one that took \<open>unsafe_driver\<close> and the lock of the table again goes on.\<close>

definition callout_delete_again :: "callout_state \<Rightarrow> nat \<Rightarrow> int32 \<Rightarrow> nat \<Rightarrow> del_out \<times> callout_state" where
  "callout_delete_again cs cp xid self =
    (if c_xid (cs_tab cs cp) = xid then (Wait_done cp xid, upd_callout cs cp (\<lambda>c. c\<lparr>c_done := c_done c @ [self]\<rparr>))
     else if drops_driver xid then (Relock, cs)
     else (Bogus, cs))"

definition callout_delete_relocked :: "callout_state \<Rightarrow> del_out \<times> callout_state" where
  "callout_delete_relocked cs = (Bogus, cs)"

section \<open>The clock\<close>

definition due_now :: "(nat \<Rightarrow> callout) \<Rightarrow> int32 \<Rightarrow> nat \<Rightarrow> bool" where
  "due_now tab r cp \<longleftrightarrow> c_runtime (tab cp) = r \<and> c_xid (tab cp) AND CALLOUT_EXECUTING = 0"

datatype sched_out = Quiet | Softcall | Signal

definition sched_found :: "callout_state \<Rightarrow> nat \<Rightarrow> sched_out \<times> callout_state" where
  "sched_found cs cp =
    (let cs1 = cs\<lparr>cs_busyticks := cs_busyticks cs + 1\<rparr> in
     if c_xid (cs_tab cs cp) AND CALLOUT_REALTIME \<noteq> 0 then (Softcall, cs1)
     else (Signal, cs1\<lparr>cs_threadpool := tl (cs_threadpool cs)\<rparr>))"

text \<open>\<open>None\<close> is a loop without end.\<close>

partial_function (option) sched_loop :: "callout_state \<Rightarrow> (sched_out \<times> callout_state) option" where
  "sched_loop cs =
    (let runtime = cs_runtime cs in
     if sint runtime \<le> sint (cs_curtime cs) then
       (case find (due_now (cs_tab cs) runtime) (b_list (cs_bucket cs ! bucket_of runtime)) of
          Some cp \<Rightarrow> Some (sched_found cs cp)
        | None \<Rightarrow> sched_loop (cs\<lparr>cs_runtime := runtime + 1\<rparr>))
     else Some (Quiet, cs))"

definition callout_schedule :: "callout_state \<Rightarrow> int32 \<Rightarrow> (sched_out \<times> callout_state) option" where
  "callout_schedule cs lbolt = sched_loop (cs\<lparr>cs_curtime := lbolt\<rparr>)"

section \<open>Execution\<close>

text \<open>The next callout of the list to run at time \<open>r\<close>, marked as being executed by thread \<open>th\<close>.\<close>

fun exec_scan :: "callout_state \<Rightarrow> nat \<Rightarrow> int32 \<Rightarrow> nat list \<Rightarrow> (nat \<times> callout_state) option" where
  "exec_scan cs th r [] = None"
| "exec_scan cs th r (cp # cps) =
    (if c_runtime (cs_tab cs cp) \<noteq> r \<or> c_xid (cs_tab cs cp) AND CALLOUT_EXECUTING \<noteq> 0 then exec_scan cs th r cps
     else Some (cp, upd_callout cs cp (\<lambda>c. c\<lparr>c_executor := th, c_xid := c_xid c OR CALLOUT_EXECUTING\<rparr>)))"

definition exec_advance :: "callout_state \<Rightarrow> int32 \<Rightarrow> callout_state" where
  "exec_advance cs r = (if cs_runtime cs = r then cs\<lparr>cs_runtime := r + 1\<rparr> else cs)"

text \<open>\<open>Run cp r\<close>: the function of \<open>cp\<close> is called, without the lock, for the time \<open>r\<close>.\<close>

datatype exec_out = Run nat int32 | Finished

partial_function (option) callout_execute :: "callout_state \<Rightarrow> nat \<Rightarrow> (exec_out \<times> callout_state) option" where
  "callout_execute cs th =
    (let r = cs_runtime cs in
     if sint r \<le> sint (cs_curtime cs) then
       (case exec_scan cs th r (b_list (cs_bucket cs ! bucket_of r)) of
          Some (cp, cs') \<Rightarrow> Some (Run cp r, cs')
        | None \<Rightarrow> callout_execute (exec_advance cs r) th)
     else Some (Finished, cs))"

text \<open>The structures before and behind one in a list; without it the search goes round for ever.\<close>

fun unlink :: "nat \<Rightarrow> nat list \<Rightarrow> (nat list \<times> nat list) option" where
  "unlink cp [] = None"
| "unlink cp (x # xs) = (if x = cp then Some ([], xs) else map_option (\<lambda>(pre, post). (x # pre, post)) (unlink cp xs))"

text \<open>Behind the call: the structure is freed, those who wait are woken, and the search goes on.\<close>

definition callout_free :: "callout_state \<Rightarrow> nat \<Rightarrow> nat \<Rightarrow> nat list \<Rightarrow> callout_state" where
  "callout_free cs i cp rest =
    (upd_callout (upd_bucket cs i (\<lambda>b. b\<lparr>b_list := rest\<rparr>)) cp (\<lambda>c. c\<lparr>c_xid := 0, c_done := []\<rparr>))\<lparr>cs_freelist := cp # cs_freelist cs\<rparr>"

definition callout_return :: "callout_state \<Rightarrow> nat \<Rightarrow> nat \<Rightarrow> int32 \<Rightarrow> (exec_out \<times> callout_state) option" where
  "callout_return cs th cp r =
    (case unlink cp (b_list (cs_bucket cs ! bucket_of r)) of
       None \<Rightarrow> None
     | Some (pre, post) \<Rightarrow>
         let cs1 = callout_free cs (bucket_of r) cp (pre @ post) in
         (case exec_scan cs1 th r post of
            Some (cp', cs') \<Rightarrow> Some (Run cp' r, cs')
          | None \<Rightarrow> callout_execute (exec_advance cs1 r) th))"

section \<open>Interfaces\<close>

record callout_tables =
  callout_normal :: callout_state
  rt_callout :: callout_state

definition timeout :: "callout_tables \<Rightarrow> int32 \<Rightarrow> bool \<Rightarrow> bool \<Rightarrow> nat \<Rightarrow> ulong \<Rightarrow> int32 \<Rightarrow> (int32 \<times> callout_tables) kres" where
  "timeout t lbolt unsafe mem func arg delta =
    kbind (callout_insert (callout_normal t) lbolt unsafe mem func arg delta) (\<lambda>(cid, cs). Ret (cid, t\<lparr>callout_normal := cs\<rparr>))"

definition realtime_timeout :: "callout_tables \<Rightarrow> int32 \<Rightarrow> bool \<Rightarrow> bool \<Rightarrow> nat \<Rightarrow> ulong \<Rightarrow> int32 \<Rightarrow> (int32 \<times> callout_tables) kres" where
  "realtime_timeout t lbolt unsafe mem func arg delta =
    kbind (callout_insert (rt_callout t) lbolt unsafe mem func arg delta) (\<lambda>(cid, cs). Ret (cid, t\<lparr>rt_callout := cs\<rparr>))"

definition untimeout :: "callout_tables \<Rightarrow> int32 \<Rightarrow> nat \<Rightarrow> del_out \<times> callout_tables" where
  "untimeout t cid self =
    (if cid AND CALLOUT_REALTIME \<noteq> 0
     then (case callout_delete (rt_callout t) cid self of (r, cs) \<Rightarrow> (r, t\<lparr>rt_callout := cs\<rparr>))
     else (case callout_delete (callout_normal t) cid self of (r, cs) \<Rightarrow> (r, t\<lparr>callout_normal := cs\<rparr>)))"

text \<open>A callout thread goes to sleep, at its start and after each run.\<close>

definition callout_thread_wait :: "callout_state \<Rightarrow> nat \<Rightarrow> callout_state" where
  "callout_thread_wait cs th = cs\<lparr>cs_threadpool := cs_threadpool cs @ [th]\<rparr>"

text \<open>The soft interrupt of the realtime table.\<close>

definition realtime_timein :: "callout_tables \<Rightarrow> nat \<Rightarrow> (exec_out \<times> callout_tables) option" where
  "realtime_timein t th = map_option (\<lambda>(out, cs). (out, t\<lparr>rt_callout := cs\<rparr>)) (callout_execute (rt_callout t) th)"

section \<open>Checkpoint and resume\<close>

text \<open>The copy of the table that is kept, and the table that is left.\<close>

definition callout_save :: "callout_state \<Rightarrow> callout_state \<times> callout_state" where
  "callout_save cs = (cs, cs\<lparr>cs_busyticks := 0, cs_bucket := map (\<lambda>b. b\<lparr>b_list := []\<rparr>) (cs_bucket cs), cs_threadpool := tl (cs_threadpool cs)\<rparr>)"

text \<open>The callouts of a bucket are moved to the front of the old one, which is then copied back whole.\<close>

fun move_all :: "nat list \<Rightarrow> nat list \<Rightarrow> nat list" where
  "move_all [] ob = ob"
| "move_all (cp # cps) ob = move_all cps (cp # ob)"

definition callout_restore :: "callout_state \<Rightarrow> callout_state \<Rightarrow> callout_state" where
  "callout_restore cs ocs = cs\<lparr>
     cs_bucket := map2 (\<lambda>b ob. ob\<lparr>b_list := move_all (b_list b) (b_list ob)\<rparr>) (cs_bucket cs) (cs_bucket ocs),
     cs_busyticks := cs_busyticks cs + cs_busyticks ocs,
     cs_runtime := cs_runtime ocs\<rparr>"


text \<open>
  The callback with the saved copies of both tables, which exist between checkpoint and resume. Other
  codes are ignored.
\<close>

definition CB_CODE_CPR_CHKPT :: int32 where "CB_CODE_CPR_CHKPT = 0"
definition CB_CODE_CPR_RESUME :: int32 where "CB_CODE_CPR_RESUME = 1"

definition callout_cpr_callb :: "callout_tables \<Rightarrow> (callout_state \<times> callout_state) option \<Rightarrow> int32 \<Rightarrow>
    (callout_tables \<times> (callout_state \<times> callout_state) option) kres" where
  "callout_cpr_callb t old code =
    (if code = CB_CODE_CPR_CHKPT then
       (case (callout_save (callout_normal t), callout_save (rt_callout t)) of
          ((ocs, cs), (ort, rt)) \<Rightarrow> Ret (\<lparr>callout_normal = cs, rt_callout = rt\<rparr>, Some (ocs, ort)))
     else if code = CB_CODE_CPR_RESUME then
       kbind (of_ptr old) (\<lambda>(ocs, ort).
         Ret (\<lparr>callout_normal = callout_restore (callout_normal t) ocs, rt_callout = callout_restore (rt_callout t) ort\<rparr>, None))
     else Ret (t, old))"

end
