(* ===== verification/Callout_Inv.thy ===== *)
theory Callout_Inv
  imports Callout
begin

section \<open>Bits of identifiers and times\<close>

lemma bit_unat: "bit x n \<longleftrightarrow> bit (unat x) n" for x :: "32 word"
  by (auto simp: bit_unsigned_iff dest: bit_imp_le_length)

lemma bit_div: "bit x n \<longleftrightarrow> odd (unat x div 2 ^ n)" for x :: "32 word"
  unfolding bit_unat by (rule bit_iff_odd)

lemma unat_and_mask: "unat (x AND mask n) = unat x mod 2 ^ n" for x :: "32 word"
proof -
  have "unat (x AND mask n) = take_bit n (unat x)"
    unfolding take_bit_eq_mask [symmetric] by (rule unsigned_take_bit_eq)
  then show ?thesis by (simp add: take_bit_eq_mod)
qed

lemma unat_power2: "unat (2 ^ n :: 32 word) = 2 ^ n" if "n < 32"
proof -
  have "(2 :: nat) ^ n < 2 ^ 32" using that by (rule power_strict_increasing) simp
  then show ?thesis using unat_of_nat_small [of "2 ^ n", where 'a = 32] by simp
qed

lemma unat_or_power: "unat (x OR push_bit n 1) = unat x + (if bit x n then 0 else 2 ^ n)" if "n < 32" for x :: "32 word"
proof -
  have p: "unat (push_bit n (1 :: 32 word)) = push_bit n 1"
    using that by (simp add: push_bit_eq_mult unat_power2)
  have "unat (x OR push_bit n 1) = set_bit n (unat x)"
    by (simp only: unsigned_or_eq p set_bit_eq_or)
  then show ?thesis by (simp add: set_bit_eq bit_unat)
qed

lemma bit_le_unat: "bit x n \<Longrightarrow> 2 ^ n \<le> unat x" for x :: "32 word"
  by (simp add: bit_div) (metis bit_0 bit_iff_odd div_less even_zero linorder_not_less)

lemma unat_and_not_power: "unat (x AND NOT (push_bit n 1)) = unat x - (if bit x n then 2 ^ n else 0)" if "n < 32" for x :: "32 word"
proof -
  have e: "x AND NOT (push_bit n 1) = x - of_bool (bit x n) * 2 ^ n"
    by (simp only: unset_bit_eq_and_not [symmetric] unset_bit_eq)
  show ?thesis
  proof (cases "bit x n")
    case True
    then have "unat (x - 2 ^ n) = unat x - 2 ^ n" using bit_le_unat [OF True] unat_power2 [OF that] by (simp add: nowrap)
    then show ?thesis using e True by simp
  qed (use e in simp)
qed

lemma and_power_iff: "x AND push_bit n 1 \<noteq> 0 \<longleftrightarrow> bit x n" if "n < 32" for x :: "32 word"
proof -
  have "bit (x AND push_bit n 1) m \<longleftrightarrow> bit x n \<and> m = n" for m
    using that by (auto simp: bit_simps)
  then show ?thesis by (metis bit_0_eq bit_eqI bot_apply bot_bool_def)
qed

lemma flag_powers: "CALLOUT_EXECUTING = push_bit 31 1" "CALLOUT_UNSAFE_DRIVER = push_bit 30 1" 
  "CALLOUT_REALTIME = push_bit 29 1" "CALLOUT_NORMAL = push_bit 28 1" "CALLOUT_LONGTERM = push_bit 27 1"
  by (simp_all add: push_bit_eq_mult CALLOUT_EXECUTING_def CALLOUT_UNSAFE_DRIVER_def CALLOUT_REALTIME_def CALLOUT_NORMAL_def CALLOUT_LONGTERM_def)

lemma field_masks: "CALLOUT_BUCKET_MASK = mask 8" "CALLOUT_ID_MASK = mask 30"
  by (simp_all add: mask_eq_exp_minus_1 CALLOUT_BUCKET_MASK_def CALLOUT_BUCKETS_def CALLOUT_ID_MASK_def CALLOUT_AUX_ID_MASK_def
    CALLOUT_TABLE_ID_MASK_def CALLOUT_BUCKET_ID_MASK_def CALLOUT_REALTIME_def CALLOUT_NORMAL_def CALLOUT_LONGTERM_def)

lemma bucket_of_mod: "bucket_of t = unat t mod 256"
  by (simp add: bucket_of_def field_masks unat_and_mask)

lemma bucket_of_less [simp]: "bucket_of t < 256"
  by (simp add: bucket_of_mod)

lemma sint32_wrap: "sint (word_of_int k :: int32) = (k + 2147483648) mod 4294967296 - 2147483648"
proof -
  have "sint (word_of_int k :: int32) = signed_take_bit (LENGTH(32) - 1) k" by (simp only: sint_sbintrunc')
  then show ?thesis by (simp add: signed_take_bit_eq_take_bit_shift take_bit_eq_mod)
qed

lemma sint32_add: "sint (a + b :: int32) = (sint a + sint b + 2147483648) mod 4294967296 - 2147483648"
  using sint32_wrap [of "sint a + sint b"] by simp

lemma sint32_sub: "sint (a - b :: int32) = (sint a - sint b + 2147483648) mod 4294967296 - 2147483648"
  using sint32_wrap [of "sint a - sint b"] by simp

text \<open>The parts of an identifier: table and term in the upper bits, the bucket in the lower.\<close>

definition id_ok :: "nat \<Rightarrow> nat \<Rightarrow> int32 \<Rightarrow> bool" where
  "id_ok q i b \<longleftrightarrow> unat b div 134217728 = q \<and> unat b mod 256 = i"

lemma id_ok_bit27: "id_ok q i b \<Longrightarrow> bit b 27 \<longleftrightarrow> odd q"
  by (auto simp: id_ok_def bit_div)

lemma div_mod_range: "n div 134217728 = q \<longleftrightarrow> q * 134217728 \<le> n \<and> n < (q + 1) * 134217728" for n :: nat
  by auto

lemma mod_256_down: "134217728 \<le> n \<Longrightarrow> (n - 134217728) mod 256 = n mod 256" for n :: nat
proof -
  assume "134217728 \<le> n"
  then obtain m where "n = m + 134217728" using le_Suc_ex [of 134217728 n] by (auto simp: add.commute)
  moreover have "(m + 524288 * 256) mod 256 = m mod 256" by (rule mod_mult_self1)
  ultimately show ?thesis by simp
qed

lemma next_short_ok:
  assumes "id_ok q i b" "even q" "q < 8"
  shows "id_ok q i (next_short_id b)"
proof -
  have r: "q * 134217728 \<le> unat b" "unat b < (q + 1) * 134217728" and m: "unat b mod 256 = i"
    using assms(1) by (auto simp: id_ok_def div_mod_range)
  have s: "unat (b + 256) = unat b + 256" using r assms(3) by (simp add: nowrap)
  have b: "bit (b + 256) 27 \<longleftrightarrow> odd ((unat b + 256) div 134217728)" by (simp add: bit_div s)
  have n: "unat (next_short_id b) = unat b + 256 - (if bit (b + 256) 27 then 134217728 else 0)"
    using unat_and_not_power [of 27 "b + 256"] by (simp add: next_short_id_def CALLOUT_LONGTERM_def CALLOUT_BUCKETS_def s)
  show ?thesis
  proof (cases "unat b + 256 < (q + 1) * 134217728")
    case True
    then have "(unat b + 256) div 134217728 = q" using r by (simp add: div_mod_range)
    then have "unat (next_short_id b) = unat b + 256" using n b assms(2) by simp
    then show ?thesis using True r m by (auto simp: id_ok_def div_mod_range)
  next
    case False
    then have "(unat b + 256) div 134217728 = Suc q" using r by (simp add: div_mod_range)
    then have "unat (next_short_id b) = unat b + 256 - 134217728" using n b assms(2) by simp
    moreover have "(unat b + 256 - 134217728) mod 256 = i"
      using False r m mod_256_down [of "unat b + 256"] by simp
    ultimately show ?thesis using False r by (auto simp: id_ok_def div_mod_range)
  qed
qed

lemma next_long_ok:
  assumes "id_ok q i b" "odd q" "q < 8"
  shows "id_ok q i (next_long_id b)"
proof -
  have r: "q * 134217728 \<le> unat b" "unat b < (q + 1) * 134217728" and m: "unat b mod 256 = i"
    using assms(1) by (auto simp: id_ok_def div_mod_range)
  obtain p where q: "q = Suc p" "even p" using assms(2) by (cases q) auto
  define c where "c = unat b - 134217728 + 256"
  have d: "unat (b - 134217728) = unat b - 134217728" using r q by (simp add: nowrap)
  have s: "unat (b - 134217728 + 256) = c" using r q assms(3) d by (simp add: nowrap c_def)
  have cm: "c mod 256 = i" using r q m mod_256_down [of "unat b"] unfolding c_def by (simp only: mod_add_self2) simp
  define e where "e = b - 134217728 + 256"
  have b: "bit e 27 \<longleftrightarrow> odd (c div 134217728)" using s by (simp only: bit_div e_def) simp
  have "next_long_id b = e OR push_bit 27 1"
    by (simp add: next_long_id_def e_def CALLOUT_LONGTERM_def CALLOUT_BUCKETS_def)
  then have n: "unat (next_long_id b) = c + (if bit e 27 then 0 else 134217728)"
    using unat_or_power [of 27 e] s by (simp only: e_def) simp
  show ?thesis
  proof (cases "c < q * 134217728")
    case True
    then have "c div 134217728 = p" using r q by (simp add: div_mod_range c_def)
    then have "unat (next_long_id b) = c + 134217728" using n b q by simp
    moreover have "(c + 134217728) mod 256 = i" using cm by (simp add: mod_add_eq [symmetric])
    ultimately show ?thesis using True r q by (auto simp: id_ok_def div_mod_range c_def)
  next
    case False
    then have "c div 134217728 = q" using r q by (simp add: div_mod_range c_def)
    then have "unat (next_long_id b) = c" using n b q by simp
    then show ?thesis using False r q cm by (auto simp: id_ok_def div_mod_range c_def)
  qed
qed


text \<open>The identifier in an extended identifier, and its flags.\<close>

definition executing :: "callout \<Rightarrow> bool" where
  "executing c \<longleftrightarrow> c_xid c AND CALLOUT_EXECUTING \<noteq> 0"

definition call_id :: "callout \<Rightarrow> int32" where
  "call_id c = c_xid c AND CALLOUT_ID_MASK"

lemma executing_bit: "executing c \<longleftrightarrow> bit (c_xid c) 31"
  unfolding executing_def flag_powers by (rule and_power_iff) simp

lemma call_id_mod: "unat (call_id c) = unat (c_xid c) mod 1073741824"
  by (simp add: call_id_def field_masks unat_and_mask)

lemma call_id_bit: "n < 30 \<Longrightarrow> bit (call_id c) n \<longleftrightarrow> bit (c_xid c) n"
  by (simp add: call_id_def field_masks bit_and_iff bit_mask_iff)

lemma not_bit_id: "id_ok q i b \<Longrightarrow> q < 8 \<Longrightarrow> n = 30 \<or> n = 31 \<Longrightarrow> \<not> bit b n"
  using bit_le_unat [of b n] by (auto simp: id_ok_def div_mod_range)

lemma id_ok_call_id:
  assumes "id_ok q i b" "q < 8"
  shows "call_id (c\<lparr>c_xid := b\<rparr>) = b" "call_id (c\<lparr>c_xid := b OR CALLOUT_UNSAFE_DRIVER\<rparr>) = b"
    "\<not> executing (c\<lparr>c_xid := b\<rparr>)" "\<not> executing (c\<lparr>c_xid := b OR CALLOUT_UNSAFE_DRIVER\<rparr>)"
proof -
  have u: "unat b < 1073741824" using assms by (auto simp: id_ok_def div_mod_range)
  have o: "unat (b OR CALLOUT_UNSAFE_DRIVER) = unat b + 1073741824"
    using unat_or_power [of 30 b] not_bit_id [OF assms, of 30] by (simp add: flag_powers)
  show "call_id (c\<lparr>c_xid := b\<rparr>) = b" "call_id (c\<lparr>c_xid := b OR CALLOUT_UNSAFE_DRIVER\<rparr>) = b"
    using u o by (simp_all add: word_unat_eq_iff call_id_mod)
  show "\<not> executing (c\<lparr>c_xid := b\<rparr>)" using not_bit_id [OF assms, of 31] by (simp add: executing_bit)
  show "\<not> executing (c\<lparr>c_xid := b OR CALLOUT_UNSAFE_DRIVER\<rparr>)"
    using bit_le_unat [of "b OR CALLOUT_UNSAFE_DRIVER" 31] u o by (auto simp: executing_bit)
qed

lemma mark_call_id:
  "call_id (c\<lparr>c_executor := th, c_xid := c_xid c OR CALLOUT_EXECUTING\<rparr>) = call_id c"
  "executing (c\<lparr>c_executor := th, c_xid := c_xid c OR CALLOUT_EXECUTING\<rparr>)"
proof -
  have "CALLOUT_EXECUTING AND mask 30 = 0" by (simp add: CALLOUT_EXECUTING_def mask_eq_exp_minus_1)
  then show "call_id (c\<lparr>c_executor := th, c_xid := c_xid c OR CALLOUT_EXECUTING\<rparr>) = call_id c"
    by (simp add: call_id_def field_masks bit.conj_disj_distrib2)
  show "executing (c\<lparr>c_executor := th, c_xid := c_xid c OR CALLOUT_EXECUTING\<rparr>)"
    unfolding executing_bit flag_powers by (simp add: bit_or_iff bit_push_bit_iff)
qed

section \<open>The invariant\<close>

text \<open>
  \<open>t\<close> is 1 for the normal table and 2 for the realtime one, bits 28 and 29 of the identifiers. A
  structure is queued if it is in the bucket of its run time, and pending as long as no thread runs it.
\<close>

definition b_elems :: "callout_state \<Rightarrow> nat \<Rightarrow> nat list" where
  "b_elems cs i = b_list (cs_bucket cs ! i)"

definition queued :: "callout_state \<Rightarrow> nat \<Rightarrow> bool" where
  "queued cs cp \<longleftrightarrow> cp \<in> set (b_elems cs (bucket_of (c_runtime (cs_tab cs cp))))"

definition xid_ok :: "nat \<Rightarrow> callout \<Rightarrow> bool" where
  "xid_ok t c \<longleftrightarrow> unat (call_id c) div 268435456 = t \<and> unat (call_id c) mod 256 = bucket_of (c_runtime c)"

definition lists_ok :: "nat \<Rightarrow> callout_state \<Rightarrow> bool" where
  "lists_ok t cs \<longleftrightarrow> (t = 1 \<or> t = 2) \<and> length (cs_bucket cs) = 256 \<and>
    (\<forall>i<256. distinct (b_elems cs i) \<and> id_ok (2 * t) i (b_short_id (cs_bucket cs ! i)) \<and> id_ok (2 * t + 1) i (b_long_id (cs_bucket cs ! i)) \<and>
      (\<forall>cp\<in>set (b_elems cs i). bucket_of (c_runtime (cs_tab cs cp)) = i)) \<and>
    (\<forall>cp. queued cs cp \<longrightarrow> xid_ok t (cs_tab cs cp) \<and> cp < unat (cs_ncallout cs)) \<and>
    distinct (cs_freelist cs) \<and> (\<forall>cp\<in>set (cs_freelist cs). cp < unat (cs_ncallout cs) \<and> \<not> queued cs cp)"

definition times_ok :: "callout_state \<Rightarrow> bool" where
  "times_ok cs \<longleftrightarrow> 0 \<le> sint (cs_curtime cs) \<and> 0 \<le> sint (cs_runtime cs) \<and> sint (cs_curtime cs) < 2147483647 \<and> sint (cs_runtime cs) \<le> sint (cs_curtime cs) + 1 \<and>
    (\<forall>cp. queued cs cp \<longrightarrow> (if executing (cs_tab cs cp)
       then sint (c_runtime (cs_tab cs cp)) \<le> sint (cs_runtime cs) \<and> sint (c_runtime (cs_tab cs cp)) \<le> sint (cs_curtime cs)
       else sint (cs_runtime cs) \<le> sint (c_runtime (cs_tab cs cp))))"

definition co_wf :: "nat \<Rightarrow> callout_state \<Rightarrow> bool" where
  "co_wf t cs \<longleftrightarrow> lists_ok t cs \<and> times_ok cs"

text \<open>The pending callouts: identifier, function, argument and run time of each.\<close>

definition pend :: "callout_state \<Rightarrow> nat \<Rightarrow> (int32 \<times> nat \<times> ulong \<times> int32) option" where
  "pend cs cp = (let c = cs_tab cs cp in
     if queued cs cp \<and> \<not> executing c then Some (call_id c, c_func c, c_arg c, c_runtime c) else None)"

lemma pend_eq_Some: "pend cs cp = Some e \<longleftrightarrow> queued cs cp \<and> \<not> executing (cs_tab cs cp) \<and>
    e = (call_id (cs_tab cs cp), c_func (cs_tab cs cp), c_arg (cs_tab cs cp), c_runtime (cs_tab cs cp))"
  by (auto simp: pend_def Let_def)

lemma due_now_iff: "due_now tab r cp \<longleftrightarrow> c_runtime (tab cp) = r \<and> \<not> executing (tab cp)"
  by (simp add: due_now_def executing_def)

text \<open>In the invariant, the buckets hold the queued structures.\<close>

lemma in_bucket: "lists_ok t cs \<Longrightarrow> i < 256 \<Longrightarrow> cp \<in> set (b_elems cs i) \<longleftrightarrow> queued cs cp \<and> bucket_of (c_runtime (cs_tab cs cp)) = i"
  by (auto simp: lists_ok_def queued_def)


section \<open>Elementary changes\<close>

text \<open>Buckets and structures after an update.\<close>

lemma upd_simps [simp]:
  "b_elems (upd_callout cs cp f) i = b_elems cs i"
  "cs_tab (upd_bucket cs i g) = cs_tab cs"
  "cs_bucket (upd_callout cs cp f) = cs_bucket cs"
  "length (cs_bucket (upd_bucket cs i g)) = length (cs_bucket cs)"
  "cs_tab (upd_callout cs cp f) = (cs_tab cs)(cp := f (cs_tab cs cp))"
  "cs_freelist (upd_callout cs cp f) = cs_freelist cs" "cs_freelist (upd_bucket cs i g) = cs_freelist cs"
  "cs_ncallout (upd_callout cs cp f) = cs_ncallout cs" "cs_ncallout (upd_bucket cs i g) = cs_ncallout cs"
  "cs_curtime (upd_callout cs cp f) = cs_curtime cs" "cs_curtime (upd_bucket cs i g) = cs_curtime cs"
  "cs_runtime (upd_callout cs cp f) = cs_runtime cs" "cs_runtime (upd_bucket cs i g) = cs_runtime cs"
  by (simp_all add: b_elems_def upd_callout_def upd_bucket_def)

lemma upd_bucket_nth: "length (cs_bucket cs) = 256 \<Longrightarrow> i < 256 \<Longrightarrow> j < 256 \<Longrightarrow>
    cs_bucket (upd_bucket cs i g) ! j = (if j = i then g (cs_bucket cs ! i) else cs_bucket cs ! j)"
  by (simp add: upd_bucket_def nth_list_update)

lemma cs_more [simp]:
  "b_elems (cs\<lparr>cs_freelist := a\<rparr>) i = b_elems cs i" "b_elems (cs\<lparr>cs_curtime := b\<rparr>) i = b_elems cs i"
  "b_elems (cs\<lparr>cs_runtime := b\<rparr>) i = b_elems cs i" "b_elems (cs\<lparr>cs_busyticks := b\<rparr>) i = b_elems cs i"
  "b_elems (cs\<lparr>cs_threadpool := a\<rparr>) i = b_elems cs i" "b_elems (cs\<lparr>cs_ncallout := b\<rparr>) i = b_elems cs i"
  by (simp_all add: b_elems_def)

text \<open>A structure leaves its bucket and becomes free.\<close>

definition release :: "callout_state \<Rightarrow> nat \<Rightarrow> (callout \<Rightarrow> callout) \<Rightarrow> callout_state" where
  "release cs cp f = (upd_callout (upd_bucket cs (bucket_of (c_runtime (cs_tab cs cp)))
     (\<lambda>b. b\<lparr>b_list := filter (\<lambda>x. x \<noteq> cp) (b_list b)\<rparr>)) cp f)\<lparr>cs_freelist := cp # cs_freelist cs\<rparr>"

lemma release_fields [simp]:
  "cs_tab (release cs cp f) = (cs_tab cs)(cp := f (cs_tab cs cp))" "cs_freelist (release cs cp f) = cp # cs_freelist cs"
  "cs_ncallout (release cs cp f) = cs_ncallout cs" "cs_curtime (release cs cp f) = cs_curtime cs" "cs_runtime (release cs cp f) = cs_runtime cs"
  "length (cs_bucket (release cs cp f)) = length (cs_bucket cs)"
  by (simp_all add: release_def)

lemma release_bucket:
  assumes "lists_ok t cs" "j < 256"
  shows "b_elems (release cs cp f) j = filter (\<lambda>x. x \<noteq> cp) (b_elems cs j)"
    "b_short_id (cs_bucket (release cs cp f) ! j) = b_short_id (cs_bucket cs ! j)"
    "b_long_id (cs_bucket (release cs cp f) ! j) = b_long_id (cs_bucket cs ! j)"
proof -
  have l: "length (cs_bucket cs) = 256" using assms(1) by (simp add: lists_ok_def)
  have "x \<noteq> cp" if "x \<in> set (b_elems cs j)" "j \<noteq> bucket_of (c_runtime (cs_tab cs cp))" for x
    using that in_bucket [OF assms] by auto
  then show "b_elems (release cs cp f) j = filter (\<lambda>x. x \<noteq> cp) (b_elems cs j)"
    using l assms(2) by (auto simp: release_def b_elems_def upd_bucket_nth intro!: filter_True [symmetric])
  show "b_short_id (cs_bucket (release cs cp f) ! j) = b_short_id (cs_bucket cs ! j)"
    "b_long_id (cs_bucket (release cs cp f) ! j) = b_long_id (cs_bucket cs ! j)"
    using l assms(2) by (simp_all add: release_def upd_bucket_nth)
qed

lemma release_queued:
  assumes "lists_ok t cs"
  shows "queued (release cs cp f) x \<longleftrightarrow> queued cs x \<and> x \<noteq> cp"
  by (auto simp: queued_def release_bucket [OF assms])

lemma release_wf:
  assumes "co_wf t cs" "queued cs cp"
  shows "co_wf t (release cs cp f)"
proof -
  have l: "lists_ok t cs" and m: "times_ok cs" using assms(1) by (simp_all add: co_wf_def)
  note s = release_bucket [OF l] release_queued [OF l]
  have "lists_ok t (release cs cp f)"
    using l assms(2) unfolding lists_ok_def by (auto simp: s)
  moreover have "times_ok (release cs cp f)" using m by (simp add: times_ok_def s)
  ultimately show ?thesis by (simp add: co_wf_def)
qed

lemma release_pend:
  assumes "co_wf t cs"
  shows "pend (release cs cp f) = (pend cs)(cp := None)"
  using assms by (auto simp: pend_def Let_def co_wf_def release_queued fun_eq_iff)


text \<open>A pending structure is given to a thread.\<close>

definition mark :: "callout_state \<Rightarrow> nat \<Rightarrow> nat \<Rightarrow> callout_state" where
  "mark cs th cp = upd_callout cs cp (\<lambda>c. c\<lparr>c_executor := th, c_xid := c_xid c OR CALLOUT_EXECUTING\<rparr>)"

lemma mark_fields [simp]:
  "b_elems (mark cs th cp) i = b_elems cs i" "cs_bucket (mark cs th cp) = cs_bucket cs"
  "cs_freelist (mark cs th cp) = cs_freelist cs" "cs_ncallout (mark cs th cp) = cs_ncallout cs"
  "cs_curtime (mark cs th cp) = cs_curtime cs" "cs_runtime (mark cs th cp) = cs_runtime cs"
  "c_runtime (cs_tab (mark cs th cp) x) = c_runtime (cs_tab cs x)" "call_id (cs_tab (mark cs th cp) x) = call_id (cs_tab cs x)"
  "executing (cs_tab (mark cs th cp) x) \<longleftrightarrow> x = cp \<or> executing (cs_tab cs x)"
  "c_func (cs_tab (mark cs th cp) x) = c_func (cs_tab cs x)" "c_arg (cs_tab (mark cs th cp) x) = c_arg (cs_tab cs x)"
  "c_executor (cs_tab (mark cs th cp) x) = (if x = cp then th else c_executor (cs_tab cs x))"
  by (simp_all add: mark_def mark_call_id)

lemma mark_queued [simp]: "queued (mark cs th cp) x \<longleftrightarrow> queued cs x"
  by (simp add: queued_def)

lemma mark_wf:
  assumes "co_wf t cs" "queued cs cp" "sint (c_runtime (cs_tab cs cp)) \<le> sint (cs_runtime cs)" "sint (c_runtime (cs_tab cs cp)) \<le> sint (cs_curtime cs)"
  shows "co_wf t (mark cs th cp)"
proof -
  have "lists_ok t (mark cs th cp)" using assms(1) by (simp add: co_wf_def lists_ok_def xid_ok_def)
  moreover have "times_ok (mark cs th cp)" using assms by (auto simp: co_wf_def times_ok_def)
  ultimately show ?thesis by (simp add: co_wf_def)
qed

lemma mark_pend: "pend (mark cs th cp) = (pend cs)(cp := None)"
  by (auto simp: pend_def Let_def fun_eq_iff)

text \<open>The times move.\<close>

lemma queued_more [simp]:
  "queued (cs\<lparr>cs_runtime := b\<rparr>) x = queued cs x" "queued (cs\<lparr>cs_curtime := b\<rparr>) x = queued cs x"
  "queued (cs\<lparr>cs_busyticks := b\<rparr>) x = queued cs x" "queued (cs\<lparr>cs_threadpool := a\<rparr>) x = queued cs x"
  by (simp_all add: queued_def)

lemma pend_more [simp]:
  "pend (cs\<lparr>cs_runtime := b\<rparr>) = pend cs" "pend (cs\<lparr>cs_curtime := b\<rparr>) = pend cs"
  "pend (cs\<lparr>cs_busyticks := b\<rparr>) = pend cs" "pend (cs\<lparr>cs_threadpool := a\<rparr>) = pend cs"
  by (simp_all add: pend_def fun_eq_iff)

lemma wf_more [simp]:
  "co_wf t (cs\<lparr>cs_busyticks := b\<rparr>) = co_wf t cs" "co_wf t (cs\<lparr>cs_threadpool := a\<rparr>) = co_wf t cs"
  by (simp_all add: co_wf_def lists_ok_def times_ok_def)

lemma lists_more [simp]: "lists_ok t (cs\<lparr>cs_runtime := b\<rparr>) = lists_ok t cs" "lists_ok t (cs\<lparr>cs_curtime := b\<rparr>) = lists_ok t cs"
  by (simp_all add: lists_ok_def)

lemma sint_Suc32: "sint r < 2147483647 \<Longrightarrow> sint (r + 1) = sint r + 1" for r :: int32
  using sint_in_range [of r] sint32_add [of r 1] by (simp add: signed_1)

text \<open>A time is passed when no callout is pending for it.\<close>

lemma advance_wf:
  assumes wf: "co_wf t cs" and r: "sint (cs_runtime cs) \<le> sint (cs_curtime cs)"
    and none: "\<forall>cp\<in>set (b_elems cs (bucket_of (cs_runtime cs))). \<not> due_now (cs_tab cs) (cs_runtime cs) cp"
  shows "co_wf t (cs\<lparr>cs_runtime := cs_runtime cs + 1\<rparr>)"
proof -
  have l: "lists_ok t cs" and m: "times_ok cs" using wf by (simp_all add: co_wf_def)
  have s: "sint (cs_runtime cs + 1) = sint (cs_runtime cs) + 1"
    using m r by (intro sint_Suc32) (simp add: times_ok_def)
  have gt: "sint (cs_runtime cs) < sint (c_runtime (cs_tab cs cp))" if "queued cs cp" "\<not> executing (cs_tab cs cp)" for cp
  proof -
    have "c_runtime (cs_tab cs cp) \<noteq> cs_runtime cs"
      using none that in_bucket [OF l bucket_of_less] by (auto simp: due_now_iff)
    moreover have "sint (cs_runtime cs) \<le> sint (c_runtime (cs_tab cs cp))" using m that by (simp add: times_ok_def)
    ultimately show ?thesis by (metis order_le_less sint_eq_iff)
  qed
  have "sint (c_runtime (cs_tab cs cp)) \<le> sint (cs_runtime cs) \<and> sint (c_runtime (cs_tab cs cp)) \<le> sint (cs_curtime cs)"
    if "queued cs cp" "executing (cs_tab cs cp)" for cp
    using m that unfolding times_ok_def by meson
  then have "times_ok (cs\<lparr>cs_runtime := cs_runtime cs + 1\<rparr>)"
    using m r gt unfolding times_ok_def by (fastforce simp: s)
  then show ?thesis using l by (simp add: co_wf_def)
qed


lemma curtime_wf:
  assumes "co_wf t cs" "sint (cs_curtime cs) \<le> sint now" "sint now < 2147483647"
  shows "co_wf t (cs\<lparr>cs_curtime := now\<rparr>)"
  using assms by (auto simp: co_wf_def times_ok_def)

section \<open>Run times\<close>

text \<open>
  A callout runs \<open>delta\<close> ticks after \<open>lbolt\<close>, at the next tick that the table has not seen at the earliest,
  and at the last representable time at the latest.
\<close>

definition clamped :: "int \<Rightarrow> int \<Rightarrow> int \<Rightarrow> int" where
  "clamped now cur d = max (cur + 1) (min (now + d) 2147483647)"

lemma runtime_clamped:
  assumes "0 \<le> sint cur" "sint cur \<le> sint lbolt" "sint cur < 2147483647"
  shows "sint (callout_runtime lbolt cur delta) = clamped (sint lbolt) (sint cur) (sint delta)"
proof -
  note b = sint_in_range [of lbolt] sint_in_range [of delta]
  have c: "sint (cur + 1) = sint cur + 1" by (rule sint_Suc32) (rule assms(3))
  have m: "sint INT_MAX = 2147483647" by (simp add: INT_MAX_def)
  show ?thesis
  proof (cases "sint lbolt + sint delta < 2147483648")
    case True
    then have "sint (lbolt + delta) = sint lbolt + sint delta"
      using b assms by (simp add: sint32_add)
    then show ?thesis using True assms b by (auto simp: callout_runtime_def clamped_def c m)
  next
    case False
    have "(sint lbolt + sint delta + 2147483648) mod 4294967296 = sint lbolt + sint delta + 2147483648 - 4294967296"
      using False b mod_add_self2 [of "sint lbolt + sint delta - 2147483648" 4294967296] by (simp add: mod_pos_pos_trivial add.commute)
    then have "sint (lbolt + delta) = sint lbolt + sint delta - 4294967296" by (simp add: sint32_add)
    then show ?thesis using False assms b by (auto simp: callout_runtime_def clamped_def c m)
  qed
qed

lemma runtime_later:
  assumes "sint cur < 2147483647"
  shows "sint cur < sint (callout_runtime lbolt cur delta)"
  using assms sint_Suc32 [OF assms] by (auto simp: callout_runtime_def INT_MAX_def Let_def)

section \<open>Insertion\<close>

text \<open>A structure enters the bucket of its run time, with the next identifier of its term.\<close>

definition enter :: "callout_state \<Rightarrow> nat \<Rightarrow> bool \<Rightarrow> int32 \<Rightarrow> callout \<Rightarrow> callout_state" where
  "enter cs cp long cid c = upd_bucket (upd_callout cs cp (\<lambda>_. c)) (bucket_of (c_runtime c))
     (\<lambda>b. (if long then b\<lparr>b_long_id := cid\<rparr> else b\<lparr>b_short_id := cid\<rparr>)\<lparr>b_list := cp # b_list b\<rparr>)"

lemma enter_fields [simp]:
  "cs_tab (enter cs cp long cid c) = (cs_tab cs)(cp := c)" "cs_freelist (enter cs cp long cid c) = cs_freelist cs"
  "cs_ncallout (enter cs cp long cid c) = cs_ncallout cs" "cs_curtime (enter cs cp long cid c) = cs_curtime cs"
  "cs_runtime (enter cs cp long cid c) = cs_runtime cs" "length (cs_bucket (enter cs cp long cid c)) = length (cs_bucket cs)"
  by (simp_all add: enter_def)

lemma enter_bucket:
  assumes "length (cs_bucket cs) = 256" "j < 256"
  shows "b_elems (enter cs cp long cid c) j = (if j = bucket_of (c_runtime c) then cp # b_elems cs j else b_elems cs j)"
    "b_short_id (cs_bucket (enter cs cp long cid c) ! j) =
      (if j = bucket_of (c_runtime c) \<and> \<not> long then cid else b_short_id (cs_bucket cs ! j))"
    "b_long_id (cs_bucket (enter cs cp long cid c) ! j) =
      (if j = bucket_of (c_runtime c) \<and> long then cid else b_long_id (cs_bucket cs ! j))"
  using assms by (simp_all add: enter_def b_elems_def upd_bucket_nth)

lemma enter_queued:
  assumes "lists_ok t cs" "\<not> queued cs cp"
  shows "queued (enter cs cp long cid c) x \<longleftrightarrow> x = cp \<or> queued cs x"
  using assms by (auto simp: queued_def lists_ok_def enter_bucket)


lemma enter_wf:
  assumes wf: "co_wf t cs" and nq: "\<not> queued cs cp" "cp \<notin> set (cs_freelist cs)" "cp < unat (cs_ncallout cs)"
    and cid: "id_ok (if long then 2 * t + 1 else 2 * t) (bucket_of (c_runtime c)) cid" "call_id c = cid" "\<not> executing c"
    and rt: "sint (cs_curtime cs) < sint (c_runtime c)"
  shows "co_wf t (enter cs cp long cid c)"
proof -
  let ?cs = "enter cs cp long cid c"
  have l: "lists_ok t cs" and m: "times_ok cs" using wf by (simp_all add: co_wf_def)
  have len: "length (cs_bucket cs) = 256" using l by (simp add: lists_ok_def)
  note e = enter_bucket [OF len] and q = enter_queued [OF l nq(1)]
  have "cp \<notin> set (b_elems cs i)" if "i < 256" for i using nq(1) in_bucket [OF l that] by simp
  moreover have "unat cid div 268435456 = t" using cid(1) by (auto simp: id_ok_def div_mult2_eq [symmetric] split: if_splits)
  moreover have "x \<noteq> cp" if "i < 256" "x \<in> set (b_elems cs i)" for i x using that calculation(1) by auto
  ultimately have "lists_ok t ?cs"
    using l nq cid unfolding lists_ok_def by (auto simp: e q xid_ok_def id_ok_def split: if_splits)
  moreover have "times_ok ?cs"
    using m rt cid(3) nq(1) unfolding times_ok_def by (auto simp: q)
  ultimately show ?thesis by (simp add: co_wf_def)
qed

lemma enter_pend:
  assumes "co_wf t cs" "\<not> queued cs cp" "\<not> executing c"
  shows "pend (enter cs cp long cid c) = (pend cs)(cp \<mapsto> (call_id c, c_func c, c_arg c, c_runtime c))"
  using assms by (auto simp: pend_def Let_def co_wf_def enter_queued fun_eq_iff)

text \<open>The structure for a new callout.\<close>

definition get_struct :: "callout_state \<Rightarrow> bool \<Rightarrow> (nat \<times> callout_state) kres" where
  "get_struct cs mem = (case cs_freelist cs of [] \<Rightarrow> callout_alloc cs mem | cp # fl \<Rightarrow> Ret (cp, cs\<lparr>cs_freelist := fl\<rparr>))"

definition same_queue :: "callout_state \<Rightarrow> callout_state \<Rightarrow> bool" where
  "same_queue cs cs0 \<longleftrightarrow> cs_bucket cs0 = cs_bucket cs \<and> cs_curtime cs0 = cs_curtime cs \<and> cs_runtime cs0 = cs_runtime cs \<and>
     (\<forall>x. queued cs x \<longrightarrow> cs_tab cs0 x = cs_tab cs x) \<and> (\<forall>x. queued cs0 x \<longleftrightarrow> queued cs x)"

lemma same_queue_pend: "same_queue cs cs0 \<Longrightarrow> pend cs0 = pend cs"
  by (auto simp: same_queue_def pend_def Let_def fun_eq_iff)

lemma get_struct_ok:
  assumes wf: "co_wf t cs" and room: "cs_freelist cs = [] \<longrightarrow> mem \<and> cs_ncallout cs + 1 \<noteq> 0"
  obtains cp cs0 where "get_struct cs mem = Ret (cp, cs0)" "co_wf t cs0" "same_queue cs cs0"
    "\<not> queued cs0 cp" "cp \<notin> set (cs_freelist cs0)" "cp < unat (cs_ncallout cs0)"
proof (cases "cs_freelist cs")
  case Nil
  let ?cp = "unat (cs_ncallout cs)"
  let ?cs0 = "(upd_callout cs ?cp (\<lambda>_. zero_callout))\<lparr>cs_ncallout := cs_ncallout cs + 1\<rparr>"
  have l: "lists_ok t cs" and m: "times_ok cs" using wf by (simp_all add: co_wf_def)
  have n: "unat (cs_ncallout cs + 1) = Suc ?cp" using room Nil by (simp add: unatSuc add.commute)
  have nq: "\<not> queued cs ?cp" using l by (auto simp: lists_ok_def)
  have new: "?cp \<notin> set (b_elems cs i)" if "i < 256" for i using nq in_bucket [OF l that] by simp
  have q: "queued ?cs0 x \<longleftrightarrow> queued cs x" for x
    using new nq by (auto simp: queued_def)
  have ne: "x \<noteq> ?cp" if "queued cs x" for x using that nq by auto
  have "lists_ok t ?cs0"
    using l Nil new ne unfolding lists_ok_def q by (auto simp: n less_Suc_eq)
  moreover have "times_ok ?cs0" using m ne unfolding times_ok_def q by auto
  moreover have "same_queue cs ?cs0" using q ne by (auto simp: same_queue_def)
  ultimately show ?thesis
    using that [of ?cp ?cs0] Nil room nq q n by (simp add: get_struct_def callout_alloc_def co_wf_def Let_def)
next
  case (Cons cp fl)
  let ?cs0 = "cs\<lparr>cs_freelist := fl\<rparr>"
  have q: "queued ?cs0 x \<longleftrightarrow> queued cs x" for x by (simp add: queued_def)
  have "co_wf t ?cs0" using wf Cons by (auto simp: co_wf_def lists_ok_def times_ok_def q)
  moreover have "same_queue cs ?cs0" by (simp add: same_queue_def q)
  ultimately show ?thesis
    using that [of cp ?cs0] Cons wf by (auto simp: get_struct_def co_wf_def lists_ok_def q)
qed


definition new_id :: "callout_state \<Rightarrow> int32 \<Rightarrow> int32" where
  "new_id cs rt = (let b = cs_bucket cs ! bucket_of rt in
     if sint (rt - cs_curtime cs) > sint CALLOUT_LONGTERM_TICKS then next_long_id (b_long_id b) else next_short_id (b_short_id b))"

definition new_callout :: "bool \<Rightarrow> nat \<Rightarrow> ulong \<Rightarrow> int32 \<Rightarrow> int32 \<Rightarrow> callout \<Rightarrow> callout" where
  "new_callout unsafe func arg rt cid c = c\<lparr>c_func := func, c_arg := arg, c_runtime := rt,
     c_xid := if unsafe then cid OR CALLOUT_UNSAFE_DRIVER else cid\<rparr>"

lemma insert_enter:
  assumes "get_struct cs mem = Ret (cp, cs0)"
  shows "callout_insert cs lbolt unsafe mem func arg delta =
    (let rt = callout_runtime lbolt (cs_curtime cs0) delta; cid = new_id cs0 rt
     in Ret (cid, enter cs0 cp (sint (rt - cs_curtime cs0) > sint CALLOUT_LONGTERM_TICKS) cid (new_callout unsafe func arg rt cid (cs_tab cs0 cp))))"
  using assms unfolding callout_insert_def get_struct_def [symmetric]
  by (simp add: Let_def enter_def new_callout_def new_id_def upd_callout_def)

lemma new_id_ok:
  assumes "lists_ok t cs"
  shows "id_ok (if sint (rt - cs_curtime cs) > sint CALLOUT_LONGTERM_TICKS then 2 * t + 1 else 2 * t) (bucket_of rt) (new_id cs rt)"
proof -
  have "id_ok (2 * t) (bucket_of rt) (b_short_id (cs_bucket cs ! bucket_of rt))"
    "id_ok (2 * t + 1) (bucket_of rt) (b_long_id (cs_bucket cs ! bucket_of rt))" "t = 1 \<or> t = 2"
    using assms by (auto simp: lists_ok_def)
  then show ?thesis using next_short_ok [of "2 * t"] next_long_ok [of "2 * t + 1"] by (auto simp: new_id_def Let_def)
qed

text \<open>What an insertion does, in one fact.\<close>

lemma insert_effect:
  assumes wf: "co_wf t cs" and room: "cs_freelist cs = [] \<longrightarrow> mem \<and> cs_ncallout cs + 1 \<noteq> 0"
  obtains cp cs0 long c cid rt where "get_struct cs mem = Ret (cp, cs0)" "callout_insert cs lbolt unsafe mem func arg delta = Ret (cid, enter cs0 cp long cid c)"
    "rt = callout_runtime lbolt (cs_curtime cs) delta" "cid = new_id cs rt" "c_runtime c = rt" "\<not> executing c" "call_id c = cid" "c_func c = func" "c_arg c = arg"
    "co_wf t cs0" "same_queue cs cs0" "\<not> queued cs0 cp" "co_wf t (enter cs0 cp long cid c)"
proof -
  obtain cp cs0 where g: "get_struct cs mem = Ret (cp, cs0)" "co_wf t cs0" "same_queue cs cs0"
    "\<not> queued cs0 cp" "cp \<notin> set (cs_freelist cs0)" "cp < unat (cs_ncallout cs0)"
    using get_struct_ok [OF wf room] by blast
  define rt where "rt = callout_runtime lbolt (cs_curtime cs0) delta"
  define cid where "cid = new_id cs0 rt"
  define long where "long \<longleftrightarrow> sint (rt - cs_curtime cs0) > sint CALLOUT_LONGTERM_TICKS"
  define c where "c = new_callout unsafe func arg rt cid (cs_tab cs0 cp)"
  have l: "lists_ok t cs0" and m: "times_ok cs0" using g(2) by (simp_all add: co_wf_def)
  have i: "id_ok (if long then 2 * t + 1 else 2 * t) (bucket_of rt) cid"
    using new_id_ok [OF l] by (simp add: cid_def long_def)
  have "(if long then 2 * t + 1 else 2 * t) < 8" using l by (auto simp: lists_ok_def)
  note x = id_ok_call_id [OF i this]
  have c: "c_runtime c = rt" "\<not> executing c" "call_id c = cid" "c_func c = func" "c_arg c = arg"
    using x by (auto simp: c_def new_callout_def)
  have later: "sint (cs_curtime cs0) < sint rt" using m runtime_later by (simp add: rt_def times_ok_def)
  have "co_wf t (enter cs0 cp long cid c)" using g(2,4-6) i c later by (intro enter_wf) simp_all
  moreover have "rt = callout_runtime lbolt (cs_curtime cs) delta" "cid = new_id cs rt"
    using g(3) by (simp_all add: same_queue_def rt_def cid_def new_id_def)
  moreover have "callout_insert cs lbolt unsafe mem func arg delta = Ret (cid, enter cs0 cp long cid c)"
    by (simp add: insert_enter [OF g(1)] Let_def rt_def cid_def long_def c_def)
  ultimately show ?thesis using that c g(1-4) by blast
qed

end
