(* ===== verification/Callout_Run.thy ===== *)
theory Callout_Run
  imports Callout_Inv
begin

text \<open>
  The effect of deletion, of the clock and of execution on the pending callouts, and the execution of
  callouts by several threads that give up the lock while they call a function.
\<close>

section \<open>Deletion\<close>

lemma find_id_None: "find_id tab cid xs = None \<longleftrightarrow> (\<forall>x\<in>set xs. call_id (tab x) \<noteq> cid)"
  by (induction xs) (auto simp: call_id_def)

lemma find_id_Some:
  "find_id tab cid xs = Some (pre, cp, post) \<Longrightarrow> xs = pre @ cp # post \<and> call_id (tab cp) = cid \<and> (\<forall>x\<in>set pre. call_id (tab x) \<noteq> cid)"
  by (induction xs arbitrary: pre) (auto simp: call_id_def split: if_splits)

lemma filter_split: "distinct (pre @ cp # post) \<Longrightarrow> filter (\<lambda>x. x \<noteq> cp) (pre @ cp # post) = pre @ post"
  by (induction pre) (auto intro: filter_True)

lemma upd_callout_id: "upd_callout cs cp (\<lambda>c. c) = cs"
  by (simp add: upd_callout_def)

text \<open>The outcomes of a deletion.\<close>

definition delete_post :: "callout_state \<Rightarrow> int32 \<Rightarrow> nat \<Rightarrow> del_out \<Rightarrow> callout_state \<Rightarrow> bool" where
  "delete_post cs cid self out cs' \<longleftrightarrow> (case out of
     Time_left l \<Rightarrow> (\<exists>cp f a rt. pend cs cp = Some (cid, f, a, rt) \<and> sint l = max 0 (sint rt - sint (cs_curtime cs)) \<and> cs' = release cs cp (\<lambda>c. c))
   | Bogus \<Rightarrow> cs' = cs \<and> ((\<forall>cp. queued cs cp \<longrightarrow> call_id (cs_tab cs cp) \<noteq> cid) \<or>
       (\<exists>cp. queued cs cp \<and> executing (cs_tab cs cp) \<and> call_id (cs_tab cs cp) = cid \<and> c_executor (cs_tab cs cp) = self))
   | Wait_done cp xid \<Rightarrow> queued cs cp \<and> executing (cs_tab cs cp) \<and> call_id (cs_tab cs cp) = cid \<and> c_executor (cs_tab cs cp) \<noteq> self \<and>
       xid = c_xid (cs_tab cs cp) \<and> cs' = upd_callout cs cp (\<lambda>c. c\<lparr>c_done := c_done c @ [self]\<rparr>)
   | Relock \<Rightarrow> False)"

lemma delete_effect:
  assumes wf: "co_wf t cs" and d: "callout_delete cs cid self = (out, cs')"
  shows "delete_post cs cid self out cs'"
proof -
  let ?i = "bucket_of cid"
  have l: "lists_ok t cs" and m: "times_ok cs" using wf by (simp_all add: co_wf_def)
  note ib = in_bucket [OF l bucket_of_less]
  show ?thesis
  proof (cases "find_id (cs_tab cs) cid (b_list (cs_bucket cs ! ?i))")
    case None
    have "call_id (cs_tab cs cp) \<noteq> cid" if "queued cs cp" for cp
    proof
      assume c: "call_id (cs_tab cs cp) = cid"
      have "bucket_of (c_runtime (cs_tab cs cp)) = ?i"
        using l that c by (auto simp: lists_ok_def xid_ok_def bucket_of_mod)
      then have "cp \<in> set (b_elems cs ?i)" using that by (simp add: ib)
      then show False using None c by (simp add: find_id_None b_elems_def)
    qed
    then show ?thesis using d None by (auto simp: callout_delete_def delete_post_def)
  next
    case (Some p)
    then obtain pre cp post where f: "find_id (cs_tab cs) cid (b_list (cs_bucket cs ! ?i)) = Some (pre, cp, post)"
      by (cases p) auto
    have s: "b_elems cs ?i = pre @ cp # post" "call_id (cs_tab cs cp) = cid"
      using find_id_Some [OF f] by (simp_all add: b_elems_def)
    have q: "queued cs cp" "bucket_of (c_runtime (cs_tab cs cp)) = ?i" using s(1) ib [of cp cid] by auto
    show ?thesis
    proof (cases "executing (cs_tab cs cp)")
      case True
      then show ?thesis using d f s q by (auto simp: callout_delete_def delete_post_def executing_def split: if_splits)
    next
      case False
      let ?rt = "c_runtime (cs_tab cs cp)"
      have "distinct (b_elems cs ?i)" using l by (simp add: lists_ok_def)
      then have "filter (\<lambda>x. x \<noteq> cp) (b_elems cs ?i) = pre @ post" unfolding s(1) by (rule filter_split)
      then have r: "(upd_bucket cs ?i (\<lambda>b. b\<lparr>b_list := pre @ post\<rparr>))\<lparr>cs_freelist := cp # cs_freelist cs\<rparr> = release cs cp (\<lambda>c. c)"
        by (simp add: release_def upd_callout_id q(2) upd_bucket_def b_elems_def)
      have "sint (cs_runtime cs) \<le> sint ?rt" using m q(1) False by (simp add: times_ok_def)
      then have "sint (?rt - cs_curtime cs) = sint ?rt - sint (cs_curtime cs)"
        using m sint_in_range [of ?rt] by (simp add: sint32_sub times_ok_def)
      moreover have "pend cs cp = Some (cid, c_func (cs_tab cs cp), c_arg (cs_tab cs cp), ?rt)"
        using q(1) False s(2) by (simp add: pend_eq_Some)
      moreover have "out = Time_left (if sint (?rt - cs_curtime cs) < 0 then 0 else ?rt - cs_curtime cs)" "cs' = release cs cp (\<lambda>c. c)"
        using d f False r by (simp_all add: callout_delete_def executing_def Let_def)
      ultimately show ?thesis unfolding delete_post_def
        by (simp only: del_out.case, intro exI [of _ cp] exI [of _ "c_func (cs_tab cs cp)"] exI [of _ "c_arg (cs_tab cs cp)"] exI [of _ ?rt]) simp
    qed
  qed
qed


text \<open>Waiting only touches the list of those who wait.\<close>

lemma wait_fields [simp]:
  assumes "cs' = upd_callout cs cp (\<lambda>c. c\<lparr>c_done := d c\<rparr>)"
  shows "c_runtime (cs_tab cs' x) = c_runtime (cs_tab cs x)" "c_xid (cs_tab cs' x) = c_xid (cs_tab cs x)"
    "c_func (cs_tab cs' x) = c_func (cs_tab cs x)" "c_arg (cs_tab cs' x) = c_arg (cs_tab cs x)"
    "c_executor (cs_tab cs' x) = c_executor (cs_tab cs x)"
  using assms by simp_all

section \<open>The search for due callouts\<close>

lemma exec_scan_None: "exec_scan cs th r xs = None \<longleftrightarrow> (\<forall>x\<in>set xs. \<not> due_now (cs_tab cs) r x)"
  by (induction xs) (auto simp: due_now_def)

lemma exec_scan_Some:
  "exec_scan cs th r xs = Some (cp, cs') \<Longrightarrow> due_now (cs_tab cs) r cp \<and> cp \<in> set xs \<and> cs' = mark cs th cp \<and>
     (\<forall>x\<in>set (takeWhile (\<lambda>x. x \<noteq> cp) xs). \<not> due_now (cs_tab cs) r x)"
  by (induction xs) (auto simp: due_now_def mark_def split: if_splits)

text \<open>A thread runs a callout: those before it in the bucket are not due.\<close>

definition none_before :: "callout_state \<Rightarrow> int32 \<Rightarrow> nat \<Rightarrow> bool" where
  "none_before cs r cp \<longleftrightarrow> (\<forall>x\<in>set (takeWhile (\<lambda>x. x \<noteq> cp) (b_elems cs (bucket_of r))). \<not> due_now (cs_tab cs) r x)"

text \<open>
  The outcome of a search that starts in \<open>cs\<close>: the first callout of the earliest time that has one is
  marked, or no callout is due any more.
\<close>

definition exec_post :: "nat \<Rightarrow> callout_state \<Rightarrow> nat \<Rightarrow> exec_out \<Rightarrow> callout_state \<Rightarrow> bool" where
  "exec_post t cs th out cs' \<longleftrightarrow> (case out of
     Run cp r \<Rightarrow> sint r \<le> sint (cs_curtime cs) \<and> queued cs cp \<and> due_now (cs_tab cs) r cp \<and> none_before cs r cp \<and>
       co_wf t (cs\<lparr>cs_runtime := r\<rparr>) \<and> cs' = mark (cs\<lparr>cs_runtime := r\<rparr>) th cp
   | Finished \<Rightarrow> (\<exists>r. sint (cs_curtime cs) < sint r \<and> cs' = cs\<lparr>cs_runtime := r\<rparr>) \<and> co_wf t cs')"

lemma none_before_more [simp]: "none_before (cs\<lparr>cs_runtime := b\<rparr>) r cp = none_before cs r cp"
  by (simp add: none_before_def)

lemma exec_post_advance: "exec_post t (cs\<lparr>cs_runtime := b\<rparr>) th out cs' = exec_post t cs th out cs'"
  by (auto simp: exec_post_def split: exec_out.splits)

lemma exec_found:
  assumes "exec_scan cs th r xs = Some (cp, cs')" "xs = b_elems cs (bucket_of r)" "cs_runtime cs = r" "co_wf t cs" "sint r \<le> sint (cs_curtime cs)"
  shows "exec_post t cs th (Run cp r) cs'"
proof -
  have e: "cs\<lparr>cs_runtime := r\<rparr> = cs" using assms(3) by simp
  note s = exec_scan_Some [OF assms(1)]
  have "c_runtime (cs_tab cs cp) = r" using s by (simp add: due_now_iff)
  then have "queued cs cp" using s assms(2) by (simp add: queued_def)
  then show ?thesis using s assms by (simp add: exec_post_def e none_before_def)
qed

lemma execute_total:
  assumes "co_wf t cs"
  shows "\<exists>out cs'. callout_execute cs th = Some (out, cs') \<and> exec_post t cs th out cs'"
  using assms
proof (induction "nat (sint (cs_curtime cs) + 1 - sint (cs_runtime cs))" arbitrary: cs rule: less_induct)
  case less
  let ?r = "cs_runtime cs"
  let ?l = "b_list (cs_bucket cs ! bucket_of ?r)"
  have l: "?l = b_elems cs (bucket_of ?r)" by (simp add: b_elems_def)
  show ?case
  proof (cases "sint ?r \<le> sint (cs_curtime cs)")
    case False
    then have "callout_execute cs th = Some (Finished, cs)" by (subst callout_execute.simps) simp
    moreover have "exec_post t cs th Finished cs"
      using False less.prems by (auto simp: exec_post_def intro: exI [of _ ?r])
    ultimately show ?thesis by blast
  next
    case True
    show ?thesis
    proof (cases "exec_scan cs th ?r ?l")
      case None
      let ?cs = "cs\<lparr>cs_runtime := ?r + 1\<rparr>"
      have s: "sint (?r + 1) = sint ?r + 1"
        using True less.prems by (intro sint_Suc32) (auto simp: co_wf_def times_ok_def)
      have w: "co_wf t ?cs"
        using less.prems True None by (intro advance_wf) (simp_all add: exec_scan_None l)
      obtain out cs' where "callout_execute ?cs th = Some (out, cs')" "exec_post t ?cs th out cs'"
        using less.hyps [OF _ w] True s by auto
      moreover have "callout_execute cs th = callout_execute ?cs th"
        using True None by (subst callout_execute.simps) (simp add: exec_advance_def)
      ultimately show ?thesis by (auto simp: exec_post_advance)
    next
      case (Some p)
      then obtain cp cs' where p: "exec_scan cs th ?r ?l = Some (cp, cs')" by (cases p) auto
      then have "callout_execute cs th = Some (Run cp ?r, cs')"
        using True by (subst callout_execute.simps) simp
      then show ?thesis using exec_found [OF p l refl less.prems True] by blast
    qed
  qed
qed


lemma exec_post_effect:
  assumes "exec_post t cs th out cs'"
  shows "co_wf t cs'" "out = Finished \<Longrightarrow> pend cs' = pend cs"
    "out = Run cp r \<Longrightarrow> pend cs' = (pend cs)(cp := None)"
    "cs_curtime cs' = cs_curtime cs"
  using assms by (auto simp: exec_post_def mark_pend due_now_iff intro: mark_wf split: exec_out.splits)

lemma pend_runtime: "co_wf t cs \<Longrightarrow> pend cs cp = Some (i, f, a, rt) \<Longrightarrow> sint (cs_runtime cs) \<le> sint rt"
  by (auto simp: pend_eq_Some co_wf_def times_ok_def)

lemma finished_none:
  assumes "exec_post t cs th Finished cs'" "pend cs cp = Some (i, f, a, rt)"
  shows "sint (cs_curtime cs) < sint rt"
proof -
  obtain r where r: "sint (cs_curtime cs) < sint r" "cs' = cs\<lparr>cs_runtime := r\<rparr>" "co_wf t cs'" using assms(1) by (auto simp: exec_post_def)
  then have "sint r \<le> sint rt" using pend_runtime [OF r(3)] assms(2) by simp
  then show ?thesis using r(1) by simp
qed

section \<open>Behind the call of a function\<close>

definition run_ok :: "callout_state \<Rightarrow> nat \<Rightarrow> nat \<Rightarrow> int32 \<Rightarrow> bool" where
  "run_ok cs th cp r \<longleftrightarrow> queued cs cp \<and> executing (cs_tab cs cp) \<and> c_runtime (cs_tab cs cp) = r \<and> c_executor (cs_tab cs cp) = th \<and> none_before cs r cp"

lemma unlink_None: "unlink cp xs = None \<longleftrightarrow> cp \<notin> set xs"
  by (induction xs) auto

lemma unlink_Some: "unlink cp xs = Some (pre, post) \<Longrightarrow> xs = pre @ cp # post \<and> cp \<notin> set pre"
  by (induction xs arbitrary: pre) (auto split: if_splits)

abbreviation done_with :: "callout \<Rightarrow> callout" where
  "done_with \<equiv> \<lambda>c. c\<lparr>c_xid := 0, c_done := []\<rparr>"

lemma takeWhile_split: "cp \<notin> set pre \<Longrightarrow> takeWhile (\<lambda>x. x \<noteq> cp) (pre @ cp # post) = pre"
  by (induction pre) auto

lemma return_total:
  assumes wf: "co_wf t cs" and run: "run_ok cs th cp r"
  shows "\<exists>out cs'. callout_return cs th cp r = Some (out, cs') \<and> exec_post t (release cs cp done_with) th out cs'"
proof -
  let ?i = "bucket_of r" and ?cs = "release cs cp done_with"
  have l: "lists_ok t cs" and m: "times_ok cs" using wf by (simp_all add: co_wf_def)
  have q: "queued cs cp" "executing (cs_tab cs cp)" "c_runtime (cs_tab cs cp) = r" and nb: "none_before cs r cp"
    using run by (simp_all add: run_ok_def)
  have "cp \<in> set (b_elems cs ?i)" using q by (simp add: queued_def)
  then obtain pre post where u: "unlink cp (b_elems cs ?i) = Some (pre, post)" using unlink_None by fastforce
  then have s: "b_elems cs ?i = pre @ cp # post" "cp \<notin> set pre" using unlink_Some [OF u] by simp_all
  have "distinct (b_elems cs ?i)" using l by (simp add: lists_ok_def)
  then have d: "distinct (pre @ cp # post)" by (simp only: s(1))
  then have f: "filter (\<lambda>x. x \<noteq> cp) (b_elems cs ?i) = pre @ post" unfolding s(1) by (rule filter_split)
  have free: "callout_free cs ?i cp (pre @ post) = ?cs"
    using f q(3) by (simp add: callout_free_def release_def upd_bucket_def b_elems_def)
  have w: "co_wf t ?cs" by (rule release_wf [OF wf q(1)])
  have e: "b_elems ?cs ?i = pre @ post" using f by (simp add: release_bucket [OF l])
  have pre: "\<not> due_now (cs_tab ?cs) r x" if "x \<in> set pre" for x
    using nb that s by (auto simp: none_before_def takeWhile_split due_now_def)
  have rt: "sint r \<le> sint (cs_runtime cs)" "sint r \<le> sint (cs_curtime cs)" using m q by (auto simp: times_ok_def)
  show ?thesis
  proof (cases "exec_scan ?cs th r post")
    case None
    have none: "\<forall>x\<in>set (b_elems ?cs ?i). \<not> due_now (cs_tab ?cs) r x"
      using pre None e by (auto simp: exec_scan_None)
    have "co_wf t (exec_advance ?cs r)"
      using w rt none advance_wf [OF w] by (auto simp: exec_advance_def)
    from execute_total [OF this, of th] obtain out cs' where
      "callout_execute (exec_advance ?cs r) th = Some (out, cs')" "exec_post t (exec_advance ?cs r) th out cs'" by blast
    then show ?thesis
      using u None free by (auto simp: callout_return_def b_elems_def exec_advance_def exec_post_advance split: if_splits)
  next
    case (Some p)
    then obtain cp' cs' where p: "exec_scan ?cs th r post = Some (cp', cs')" by (cases p) auto
    note x = exec_scan_Some [OF p]
    have ne: "cp' \<notin> set pre" using x d by auto
    have due: "c_runtime (cs_tab ?cs cp') = r" "\<not> executing (cs_tab ?cs cp')" using x by (simp_all add: due_now_iff)
    have q': "queued ?cs cp'" using x e due by (simp add: queued_def)
    have "sint (cs_runtime cs) \<le> sint r" using w q' due by (auto simp: co_wf_def times_ok_def)
    then have "cs_runtime ?cs = r" using rt by (simp flip: sint_eq_iff)
    then have same: "?cs\<lparr>cs_runtime := r\<rparr> = ?cs" by simp
    have "none_before ?cs r cp'"
      using x pre ne by (auto simp: none_before_def e takeWhile_append)
    then have "exec_post t ?cs th (Run cp' r) cs'"
      using x w q' rt same by (simp add: exec_post_def)
    moreover have "callout_return cs th cp r = Some (Run cp' r, cs')"
      using u p free by (simp add: callout_return_def b_elems_def)
    ultimately show ?thesis by blast
  qed
qed

section \<open>The clock\<close>

definition sched_post :: "nat \<Rightarrow> callout_state \<Rightarrow> sched_out \<Rightarrow> callout_state \<Rightarrow> bool" where
  "sched_post t cs out cs' \<longleftrightarrow> co_wf t cs' \<and> cs_curtime cs' = cs_curtime cs \<and> pend cs' = pend cs \<and> cs_tab cs' = cs_tab cs \<and> cs_bucket cs' = cs_bucket cs \<and>
    (if out = Quiet then (\<forall>cp i f a rt. pend cs cp = Some (i, f, a, rt) \<longrightarrow> sint (cs_curtime cs) < sint rt)
     else out = (if t = 2 then Softcall else Signal) \<and> (\<exists>cp i f a. pend cs cp = Some (i, f, a, cs_runtime cs')) \<and> sint (cs_runtime cs') \<le> sint (cs_curtime cs))"

lemma realtime_flag:
  assumes "xid_ok t c" "t = 1 \<or> t = 2"
  shows "c_xid c AND CALLOUT_REALTIME \<noteq> 0 \<longleftrightarrow> t = 2"
proof -
  have "c_xid c AND CALLOUT_REALTIME \<noteq> 0 \<longleftrightarrow> bit (call_id c) 29"
    unfolding flag_powers using and_power_iff [of 29 "c_xid c"] call_id_bit [of 29 c] by simp
  also have "\<dots> \<longleftrightarrow> odd (unat (call_id c) div 268435456 div 2)" by (simp add: bit_div div_mult2_eq [symmetric])
  finally show ?thesis using assms by (auto simp: xid_ok_def)
qed


lemma sched_loop_total:
  assumes "co_wf t cs"
  shows "\<exists>out cs'. sched_loop cs = Some (out, cs') \<and> sched_post t cs out cs'"
  using assms
proof (induction "nat (sint (cs_curtime cs) + 1 - sint (cs_runtime cs))" arbitrary: cs rule: less_induct)
  case less
  let ?r = "cs_runtime cs"
  let ?l = "b_list (cs_bucket cs ! bucket_of ?r)"
  have l: "?l = b_elems cs (bucket_of ?r)" by (simp add: b_elems_def)
  have lo: "lists_ok t cs" and m: "times_ok cs" using less.prems by (simp_all add: co_wf_def)
  show ?case
  proof (cases "sint ?r \<le> sint (cs_curtime cs)")
    case False
    then have "sched_loop cs = Some (Quiet, cs)" by (subst sched_loop.simps) simp
    moreover have "sched_post t cs Quiet cs"
      using False less.prems m by (fastforce simp: sched_post_def pend_eq_Some times_ok_def)
    ultimately show ?thesis by blast
  next
    case True
    show ?thesis
    proof (cases "find (due_now (cs_tab cs) ?r) ?l")
      case None
      let ?cs = "cs\<lparr>cs_runtime := ?r + 1\<rparr>"
      have s: "sint (?r + 1) = sint ?r + 1" using True m by (intro sint_Suc32) (auto simp: times_ok_def)
      have w: "co_wf t ?cs"
        using less.prems True None by (intro advance_wf) (simp_all add: find_None_iff l)
      obtain out cs' where "sched_loop ?cs = Some (out, cs')" "sched_post t ?cs out cs'"
        using less.hyps [OF _ w] True s by auto
      moreover have "sched_loop cs = sched_loop ?cs" using True None by (subst sched_loop.simps) simp
      ultimately show ?thesis by (auto simp: sched_post_def)
    next
      case (Some cp)
      have c: "cp \<in> set (b_elems cs (bucket_of ?r))" "due_now (cs_tab cs) ?r cp"
        using Some l by (auto simp: find_Some_iff)
      then have q: "queued cs cp" "c_runtime (cs_tab cs cp) = ?r" "\<not> executing (cs_tab cs cp)"
        by (auto simp: queued_def due_now_iff)
      have "xid_ok t (cs_tab cs cp)" "t = 1 \<or> t = 2" using lo q(1) by (auto simp: lists_ok_def)
      note rt = realtime_flag [OF this]
      have "\<exists>i f a. pend cs cp = Some (i, f, a, ?r)" using q by (auto simp: pend_eq_Some)
      then have "sched_post t cs (fst (sched_found cs cp)) (snd (sched_found cs cp))"
        using rt less.prems True by (auto simp: sched_found_def sched_post_def Let_def)
      moreover have "sched_loop cs = Some (sched_found cs cp)" using True Some by (subst sched_loop.simps) simp
      ultimately show ?thesis by (metis prod.collapse)
    qed
  qed
qed

lemma schedule_total:
  assumes "co_wf t cs" "sint (cs_curtime cs) \<le> sint lbolt" "sint lbolt < 2147483647"
  shows "\<exists>out cs'. callout_schedule cs lbolt = Some (out, cs') \<and> sched_post t (cs\<lparr>cs_curtime := lbolt\<rparr>) out cs'"
  unfolding callout_schedule_def using sched_loop_total [OF curtime_wf [OF assms]] .

section \<open>Threads that run callouts\<close>

text \<open>What a thread relies on survives the steps of the others.\<close>

lemma takeWhile_filter_mem:
  "\<forall>y. P y \<or> Q y \<Longrightarrow> z \<in> set (takeWhile P (filter Q ys)) \<Longrightarrow> z \<in> set (takeWhile P ys) \<and> Q z"
  by (induction ys) (auto split: if_splits)

lemma run_release:
  assumes l: "lists_ok t cs" and "run_ok cs th cp r" "x \<noteq> cp"
  shows "run_ok (release cs x f) th cp r"
proof -
  have nb: "none_before cs r cp" using assms(2) by (simp add: run_ok_def)
  have "\<forall>y. y \<noteq> cp \<or> y \<noteq> x" using assms(3) by blast
  note tw = takeWhile_filter_mem [OF this]
  have "none_before (release cs x f) r cp"
    unfolding none_before_def release_bucket(1) [OF l bucket_of_less]
  proof
    fix y
    assume "y \<in> set (takeWhile (\<lambda>y. y \<noteq> cp) (filter (\<lambda>y. y \<noteq> x) (b_elems cs (bucket_of r))))"
    note y = tw [OF this]
    then have "\<not> due_now (cs_tab cs) r y" using nb unfolding none_before_def by blast
    then show "\<not> due_now (cs_tab (release cs x f)) r y" using conjunct2 [OF y] by (simp add: due_now_def)
  qed
  then show ?thesis using assms(2,3) by (simp add: run_ok_def release_queued [OF l])
qed

lemma run_mark:
  assumes "run_ok cs th cp r" "x \<noteq> cp"
  shows "run_ok (mark cs th' x) th cp r"
  using assms by (auto simp: run_ok_def none_before_def due_now_iff)

lemma run_enter:
  assumes l: "lists_ok t cs" and "run_ok cs th cp r" and new: "\<not> queued cs x" and later: "sint r < sint (c_runtime c)"
  shows "run_ok (enter cs x long cid c) th cp r"
proof -
  have ne: "x \<noteq> cp" using assms by (auto simp: run_ok_def)
  have len: "length (cs_bucket cs) = 256" using l by (simp add: lists_ok_def)
  have "c_runtime c \<noteq> r" using later by auto
  then have dn: "\<not> due_now ((cs_tab cs)(x := c)) r y" if "y = x \<or> \<not> due_now (cs_tab cs) r y" for y using that by (auto simp: due_now_def)
  have "none_before cs r cp" using assms(2) by (simp add: run_ok_def)
  then have "none_before (enter cs x long cid c) r cp"
    using ne dn by (auto simp: none_before_def enter_bucket [OF len])
  then show ?thesis using assms(2) ne by (auto simp: run_ok_def enter_queued [OF l new])
qed

end
