(* ===== verification/Timer_Spec.thy ===== *)
theory Timer_Spec
  imports Kernel_Prelude
begin

text \<open>
  What a timer service promises. Its state is the time and the timers that are armed, its history the
  list of events. The contract of an implementation is that each of its steps is a step of the
  specification; the promises follow for its histories.
\<close>

section \<open>The specification\<close>

text \<open>A timer is armed with an identifier, a function and its argument, a delay and the time it is due.\<close>

datatype event =
    Ticked
  | Armed nat int32 nat ulong int32 int32
  | Fired nat nat ulong int32
  | Cancelled nat int32
  | Silent

record timers =
  now :: int
  armed :: "nat \<Rightarrow> (int32 \<times> nat \<times> ulong \<times> int32) option"

fun concerns :: "nat \<Rightarrow> event \<Rightarrow> bool" where
  "concerns k Ticked = False"
| "concerns k (Armed j i f a d rt) = (j = k)"
| "concerns k (Fired j f a rt) = (j = k)"
| "concerns k (Cancelled j i) = (j = k)"
| "concerns k Silent = False"

definition ticks :: "event list \<Rightarrow> int" where
  "ticks es = int (length (filter (\<lambda>e. e = Ticked) es))"

lemma ticks_simps [simp]: "ticks [] = 0" "ticks (xs @ ys) = ticks xs + ticks ys"
  "ticks (e # es) = (if e = Ticked then 1 else 0) + ticks es"
  by (simp_all add: ticks_def)

inductive tm_step :: "timers \<Rightarrow> event \<Rightarrow> timers \<Rightarrow> bool" where
  Tick: "tm_step s Ticked (s\<lparr>now := now s + 1\<rparr>)"
| Arm: "armed s k = None \<Longrightarrow> min (now s + sint d) 2147483647 \<le> sint rt \<Longrightarrow>
    tm_step s (Armed k i f a d rt) (s\<lparr>armed := (armed s)(k \<mapsto> (i, f, a, rt))\<rparr>)"
| Fire: "armed s k = Some (i, f, a, rt) \<Longrightarrow> sint rt \<le> now s \<Longrightarrow> now s < 2147483647 \<Longrightarrow>
    (\<And>j i' f' a' rt'. armed s j = Some (i', f', a', rt') \<Longrightarrow> sint rt \<le> sint rt') \<Longrightarrow>
    tm_step s (Fired k f a rt) (s\<lparr>armed := (armed s)(k := None)\<rparr>)"
| Cancel: "armed s k = Some (i, f, a, rt) \<Longrightarrow> tm_step s (Cancelled k i) (s\<lparr>armed := (armed s)(k := None)\<rparr>)"
| Skip: "tm_step s Silent s"

inductive_cases tm_step_Fired: "tm_step s (Fired k f a rt) s'"

inductive steps :: "('s \<Rightarrow> event \<Rightarrow> 's \<Rightarrow> bool) \<Rightarrow> 's \<Rightarrow> event list \<Rightarrow> 's \<Rightarrow> bool" for R where
  steps_Nil: "steps R s [] s"
| steps_snoc: "steps R s es s' \<Longrightarrow> R s' e s'' \<Longrightarrow> steps R s (es @ [e]) s''"

section \<open>Histories\<close>

text \<open>The timer \<open>k\<close> was armed in the history and is armed since.\<close>

definition armed_since :: "event list \<Rightarrow> nat \<Rightarrow> nat \<Rightarrow> ulong \<Rightarrow> int32 \<Rightarrow> bool" where
  "armed_since es k f a rt \<longleftrightarrow> (\<exists>pre i d mid. es = pre @ Armed k i f a d rt # mid \<and> (\<forall>e\<in>set mid. \<not> concerns k e) \<and>
     min (ticks pre + sint d) 2147483647 \<le> sint rt)"

lemma armed_since_snoc: "armed_since es k f a rt \<Longrightarrow> \<not> concerns k e \<Longrightarrow> armed_since (es @ [e]) k f a rt"
  unfolding armed_since_def by force

lemma tm_history:
  assumes "steps tm_step s0 es s" "now s0 = 0" "armed s0 = (\<lambda>_. None)"
  shows "now s = ticks es" and "armed s k = Some (i, f, a, rt) \<Longrightarrow> armed_since es k f a rt"
proof -
  have "now s = ticks es \<and> (\<forall>k i f a rt. armed s k = Some (i, f, a, rt) \<longrightarrow> armed_since es k f a rt)"
    using assms
  proof (induction rule: steps.induct)
    case (steps_snoc s es s' e s'')
    then have t: "now s' = ticks es" and o: "\<And>k i f a rt. armed s' k = Some (i, f, a, rt) \<Longrightarrow> armed_since es k f a rt"
      by auto
    show ?case using steps_snoc.hyps(2)
    proof cases
      case (Arm k d rt i f a)
      have "armed_since (es @ [e]) k f a rt"
        unfolding armed_since_def using Arm t by (intro exI [of _ es] exI [of _ i] exI [of _ d] exI [of _ "[]"]) simp
      then show ?thesis using Arm t o by (auto intro: armed_since_snoc)
    qed (use t o in \<open>auto intro: armed_since_snoc split: if_splits\<close>)
  qed simp
  then show "now s = ticks es" "armed s k = Some (i, f, a, rt) \<Longrightarrow> armed_since es k f a rt" by blast+
qed

text \<open>
  A function is called once for each time its timer was armed, with the argument given, not after the
  timer was cancelled, and not before the delay.
\<close>

lemma tm_fired:
  assumes st: "steps tm_step s0 es s" and ini: "now s0 = 0" "armed s0 = (\<lambda>_. None)" and f: "tm_step s (Fired k f a rt) s'"
  shows "\<exists>pre i d mid. es = pre @ Armed k i f a d rt # mid \<and> (\<forall>e\<in>set mid. \<not> concerns k e) \<and> sint d \<le> ticks mid"
proof -
  obtain i where x: "armed s k = Some (i, f, a, rt)" "sint rt \<le> now s" "now s < 2147483647"
    using f by (auto elim: tm_step_Fired)
  obtain pre i d mid where es: "es = pre @ Armed k i f a d rt # mid" "\<forall>e\<in>set mid. \<not> concerns k e"
    "min (ticks pre + sint d) 2147483647 \<le> sint rt"
    using tm_history(2) [OF st ini x(1)] by (auto simp: armed_since_def)
  have "sint d \<le> ticks mid" using es x tm_history(1) [OF st ini] by auto
  then show ?thesis using es by blast
qed

section \<open>The contract of an implementation\<close>

locale timer_service =
  fixes inv :: "'s \<Rightarrow> bool"
    and step :: "'s \<Rightarrow> event \<Rightarrow> 's \<Rightarrow> bool"
    and view :: "'s \<Rightarrow> timers"
  assumes keeps: "inv s \<Longrightarrow> step s e s' \<Longrightarrow> inv s'"
    and refines: "inv s \<Longrightarrow> step s e s' \<Longrightarrow> tm_step (view s) e (view s')"
begin

lemma steps_inv: "steps step s es s' \<Longrightarrow> inv s \<Longrightarrow> inv s'"
  by (induction rule: steps.induct) (auto dest: keeps)

lemma steps_refine: "steps step s es s' \<Longrightarrow> inv s \<Longrightarrow> steps tm_step (view s) es (view s')"
  by (induction rule: steps.induct) (auto intro: steps.intros refines steps_inv)

lemma fired_sound:
  assumes "inv s0" "now (view s0) = 0" "armed (view s0) = (\<lambda>_. None)" "steps step s0 es s" "step s (Fired k f a rt) s'"
  shows "\<exists>pre i d mid. es = pre @ Armed k i f a d rt # mid \<and> (\<forall>e\<in>set mid. \<not> concerns k e) \<and> sint d \<le> ticks mid"
  using tm_fired [OF steps_refine [OF assms(4,1)] assms(2,3) refines [OF steps_inv [OF assms(4,1)] assms(5)]] .

end

end
