(* ===== verification/Callout_Steps.thy ===== *)
theory Callout_Steps
  imports Callout_Run Timer_Spec
begin

text \<open>
  The callout table as a timer service: clock, threads that run callouts and callers of \<open>timeout\<close> and
  \<open>untimeout\<close>, in any order. The lock is held over each step and given up between them.
\<close>

section \<open>Steps\<close>

text \<open>\<open>w_runs\<close> has the threads that have called a function, each with its structure and time.\<close>

record co_world =
  w_cs :: callout_state
  w_lbolt :: int32
  w_runs :: "nat \<Rightarrow> (nat \<times> int32) option"

definition fired_event :: "callout_state \<Rightarrow> nat \<Rightarrow> int32 \<Rightarrow> event" where
  "fired_event cs cp r = Fired cp (c_func (cs_tab cs cp)) (c_arg (cs_tab cs cp)) r"

inductive co_step :: "co_world \<Rightarrow> event \<Rightarrow> co_world \<Rightarrow> bool" where
  Clock: "sint (w_lbolt w) + 1 < 2147483647 \<Longrightarrow> co_step w Ticked (w\<lparr>w_lbolt := w_lbolt w + 1\<rparr>)"
| Schedule: "callout_schedule (w_cs w) (w_lbolt w) = Some (out, cs') \<Longrightarrow> co_step w Silent (w\<lparr>w_cs := cs'\<rparr>)"
| Insert: "get_struct (w_cs w) mem = Ret (cp, cs0) \<Longrightarrow> cs_freelist (w_cs w) = [] \<longrightarrow> cs_ncallout (w_cs w) + 1 \<noteq> 0 \<Longrightarrow>
    callout_insert (w_cs w) (w_lbolt w) unsafe mem func arg delta = Ret (cid, cs') \<Longrightarrow>
    co_step w (Armed cp cid func arg delta (callout_runtime (w_lbolt w) (cs_curtime (w_cs w)) delta)) (w\<lparr>w_cs := cs'\<rparr>)"
| Delete: "callout_delete (w_cs w) cid self = (Time_left l, cs') \<Longrightarrow> co_step w (Cancelled (hd (cs_freelist cs')) cid) (w\<lparr>w_cs := cs'\<rparr>)"
| Delete_not: "callout_delete (w_cs w) cid self = (out, cs') \<Longrightarrow> (\<And>l. out \<noteq> Time_left l) \<Longrightarrow> co_step w Silent (w\<lparr>w_cs := cs'\<rparr>)"
| Delete_again: "callout_delete_again (w_cs w) cp xid self = (out, cs') \<Longrightarrow> co_step w Silent (w\<lparr>w_cs := cs'\<rparr>)"
| Execute: "w_runs w th = None \<Longrightarrow> callout_execute (w_cs w) th = Some (Run cp r, cs') \<Longrightarrow>
    co_step w (fired_event cs' cp r) (w\<lparr>w_cs := cs', w_runs := (w_runs w)(th \<mapsto> (cp, r))\<rparr>)"
| Execute_end: "w_runs w th = None \<Longrightarrow> callout_execute (w_cs w) th = Some (Finished, cs') \<Longrightarrow> co_step w Silent (w\<lparr>w_cs := cs'\<rparr>)"
| Return: "w_runs w th = Some (cp, r) \<Longrightarrow> callout_return (w_cs w) th cp r = Some (Run cp' r', cs') \<Longrightarrow>
    co_step w (fired_event cs' cp' r') (w\<lparr>w_cs := cs', w_runs := (w_runs w)(th \<mapsto> (cp', r'))\<rparr>)"
| Return_end: "w_runs w th = Some (cp, r) \<Longrightarrow> callout_return (w_cs w) th cp r = Some (Finished, cs') \<Longrightarrow>
    co_step w Silent (w\<lparr>w_cs := cs', w_runs := (w_runs w)(th := None)\<rparr>)"
| Sleep: "co_step w Silent (w\<lparr>w_cs := callout_thread_wait (w_cs w) th\<rparr>)"

definition co_view :: "co_world \<Rightarrow> timers" where
  "co_view w = \<lparr>now = sint (w_lbolt w), armed = pend (w_cs w)\<rparr>"

text \<open>Each thread that calls a function relies on its structure, and each structure that is marked has its thread.\<close>

definition runs_ok :: "callout_state \<Rightarrow> (nat \<Rightarrow> (nat \<times> int32) option) \<Rightarrow> bool" where
  "runs_ok cs runs \<longleftrightarrow> (\<forall>th cp r. runs th = Some (cp, r) \<longrightarrow> run_ok cs th cp r) \<and>
    (\<forall>cp. queued cs cp \<and> executing (cs_tab cs cp) \<longrightarrow> runs (c_executor (cs_tab cs cp)) = Some (cp, c_runtime (cs_tab cs cp)))"

definition co_inv :: "nat \<Rightarrow> co_world \<Rightarrow> bool" where
  "co_inv t w \<longleftrightarrow> co_wf t (w_cs w) \<and> sint (cs_curtime (w_cs w)) \<le> sint (w_lbolt w) \<and> sint (w_lbolt w) < 2147483647 \<and> runs_ok (w_cs w) (w_runs w)"

section \<open>What the threads rely on\<close>

lemma run_ok_cong:
  assumes "\<And>i. b_elems cs' i = b_elems cs i" "\<And>x. c_runtime (cs_tab cs' x) = c_runtime (cs_tab cs x)"
    "\<And>x. c_xid (cs_tab cs' x) = c_xid (cs_tab cs x)" "\<And>x. c_executor (cs_tab cs' x) = c_executor (cs_tab cs x)"
  shows "run_ok cs' th cp r = run_ok cs th cp r" "queued cs' cp = queued cs cp"
  using assms by (simp_all add: run_ok_def queued_def none_before_def executing_def due_now_def)

lemma runs_ok_cong:
  assumes "\<And>i. b_elems cs' i = b_elems cs i" "\<And>x. c_runtime (cs_tab cs' x) = c_runtime (cs_tab cs x)"
    "\<And>x. c_xid (cs_tab cs' x) = c_xid (cs_tab cs x)" "\<And>x. c_executor (cs_tab cs' x) = c_executor (cs_tab cs x)"
  shows "runs_ok cs' runs = runs_ok cs runs"
  using assms by (simp add: runs_ok_def run_ok_cong [of cs' cs] executing_def)

lemma runs_same_queue:
  assumes l: "lists_ok t cs" and s: "same_queue cs cs0" and r: "runs_ok cs runs"
  shows "runs_ok cs0 runs"
proof -
  have q: "queued cs0 x = queued cs x" and tab: "queued cs x \<Longrightarrow> cs_tab cs0 x = cs_tab cs x" and b: "b_elems cs0 i = b_elems cs i" for x i
    using s by (auto simp: same_queue_def b_elems_def)
  have "none_before cs0 r' cp" if "none_before cs r' cp" for r' cp
    unfolding none_before_def b
  proof
    fix x
    assume x: "x \<in> set (takeWhile (\<lambda>x. x \<noteq> cp) (b_elems cs (bucket_of r')))"
    then have "queued cs x" using set_takeWhileD in_bucket [OF l bucket_of_less] by metis
    moreover have "\<not> due_now (cs_tab cs) r' x" using that x by (simp add: none_before_def)
    ultimately show "\<not> due_now (cs_tab cs0) r' x" using tab by (simp add: due_now_def)
  qed
  then have "run_ok cs0 th cp r'" if "run_ok cs th cp r'" for th cp r'
    using that tab q by (simp add: run_ok_def)
  then show ?thesis using r q tab by (auto simp: runs_ok_def)
qed

lemma runs_runtime [simp]: "runs_ok (cs\<lparr>cs_runtime := b\<rparr>) runs = runs_ok cs runs"
  by (rule runs_ok_cong) simp_all

lemma runs_release:
  assumes l: "lists_ok t cs" and r: "runs_ok cs runs" and no: "\<And>th r. runs' th \<noteq> Some (cp, r)"
    and same: "\<And>th x r. x \<noteq> cp \<Longrightarrow> runs' th = Some (x, r) \<longleftrightarrow> runs th = Some (x, r)"
  shows "runs_ok (release cs cp f) runs'"
proof -
  have "run_ok (release cs cp f) th x r'" if "runs' th = Some (x, r')" for th x r'
  proof -
    have "x \<noteq> cp" using that no by auto
    then have "run_ok cs th x r'" using that same r by (auto simp: runs_ok_def)
    then show ?thesis using \<open>x \<noteq> cp\<close> by (intro run_release [OF l]) auto
  qed
  moreover have "runs' (c_executor (cs_tab cs x)) = Some (x, c_runtime (cs_tab cs x))"
    if "queued cs x" "x \<noteq> cp" "executing (cs_tab cs x)" for x
    using that r same by (auto simp: runs_ok_def)
  ultimately show ?thesis by (auto simp: runs_ok_def release_queued [OF l])
qed

lemma runs_enter:
  assumes l: "lists_ok t cs" and r: "runs_ok cs runs" and new: "\<not> queued cs x" "\<not> executing c"
    and later: "times_ok cs" "sint (cs_curtime cs) < sint (c_runtime c)"
  shows "runs_ok (enter cs x long cid c) runs"
proof -
  have "run_ok (enter cs x long cid c) th cp r'" if "runs th = Some (cp, r')" for th cp r'
  proof -
    have o: "run_ok cs th cp r'" using that r by (simp add: runs_ok_def)
    then have "sint r' \<le> sint (cs_curtime cs)" using later(1) by (auto simp: run_ok_def times_ok_def)
    then show ?thesis using later(2) by (intro run_enter [OF l o new(1)]) simp
  qed
  moreover have "runs (c_executor (cs_tab cs cp)) = Some (cp, c_runtime (cs_tab cs cp))" "cp \<noteq> x"
    if "queued cs cp" "executing (cs_tab cs cp)" for cp
    using that r new by (auto simp: runs_ok_def)
  ultimately show ?thesis using new by (auto simp: runs_ok_def enter_queued [OF l new(1)])
qed

text \<open>The thread \<open>th\<close> was free, or has just returned from its call.\<close>

lemma runs_post:
  assumes p: "exec_post t cs th out cs'" and r: "runs_ok cs runs" and idle: "runs th = None"
  shows "runs_ok cs' (case out of Run cp r \<Rightarrow> runs(th \<mapsto> (cp, r)) | Finished \<Rightarrow> runs)"
proof (cases out)
  case Finished
  then show ?thesis using p r by (auto simp: exec_post_def)
next
  case (Run cp r)
  let ?c = "cs\<lparr>cs_runtime := r\<rparr>"
  have x: "queued cs cp" "due_now (cs_tab cs) r cp" "none_before cs r cp" and c': "cs' = mark ?c th cp"
    using p Run by (simp_all add: exec_post_def)
  have ro: "runs_ok ?c runs" using r by simp
  have "run_ok cs' th cp r" using x by (auto simp: c' run_ok_def due_now_iff none_before_def)
  moreover have "run_ok cs' th' y r'" if "runs th' = Some (y, r')" for th' y r'
  proof -
    have o: "run_ok ?c th' y r'" using that ro by (simp add: runs_ok_def)
    then have "y \<noteq> cp" using x(2) by (auto simp: run_ok_def due_now_iff)
    then show ?thesis unfolding c' by (intro run_mark o) auto
  qed
  moreover have "runs (c_executor (cs_tab cs y)) = Some (y, c_runtime (cs_tab cs y))" "c_executor (cs_tab cs y) \<noteq> th"
    if "queued cs y" "executing (cs_tab cs y)" for y
    using that r idle by (auto simp: runs_ok_def)
  ultimately show ?thesis using Run x by (simp add: runs_ok_def c' due_now_iff) metis
qed


section \<open>Every step is a step of a timer service\<close>

lemma schedule_step:
  assumes inv: "co_inv t w" and s: "callout_schedule (w_cs w) (w_lbolt w) = Some (out, cs')"
  shows "co_inv t (w\<lparr>w_cs := cs'\<rparr>) \<and> pend cs' = pend (w_cs w)"
proof -
  have "co_wf t (w_cs w)" "sint (cs_curtime (w_cs w)) \<le> sint (w_lbolt w)" "sint (w_lbolt w) < 2147483647" "runs_ok (w_cs w) (w_runs w)"
    using inv by (simp_all add: co_inv_def)
  moreover from schedule_total [OF calculation(1-3)] have p: "sched_post t ((w_cs w)\<lparr>cs_curtime := w_lbolt w\<rparr>) out cs'" using s by auto
  moreover have "runs_ok cs' (w_runs w) = runs_ok (w_cs w) (w_runs w)"
    using p by (intro runs_ok_cong) (simp_all add: sched_post_def b_elems_def)
  ultimately show ?thesis by (simp add: co_inv_def sched_post_def)
qed

lemma insert_step:
  assumes inv: "co_inv t w" and g: "get_struct (w_cs w) mem = Ret (cp, cs0)" and n: "cs_freelist (w_cs w) = [] \<longrightarrow> cs_ncallout (w_cs w) + 1 \<noteq> 0"
    and i: "callout_insert (w_cs w) (w_lbolt w) unsafe mem func arg delta = Ret (cid, cs')"
  defines "rt \<equiv> callout_runtime (w_lbolt w) (cs_curtime (w_cs w)) delta"
  shows "co_inv t (w\<lparr>w_cs := cs'\<rparr>) \<and> pend (w_cs w) cp = None \<and> pend cs' = (pend (w_cs w))(cp \<mapsto> (cid, func, arg, rt))"
proof -
  have wf: "co_wf t (w_cs w)" "sint (cs_curtime (w_cs w)) \<le> sint (w_lbolt w)" "sint (w_lbolt w) < 2147483647" "runs_ok (w_cs w) (w_runs w)"
    using inv by (simp_all add: co_inv_def)
  have room: "cs_freelist (w_cs w) = [] \<longrightarrow> mem \<and> cs_ncallout (w_cs w) + 1 \<noteq> 0"
    using g n by (auto simp: get_struct_def callout_alloc_def split: if_splits)
  obtain cp1 cs1 long c cid' rt' where e0: "get_struct (w_cs w) mem = Ret (cp1, cs1)"
      "callout_insert (w_cs w) (w_lbolt w) unsafe mem func arg delta = Ret (cid', enter cs1 cp1 long cid' c)" "rt' = rt"
      "c_runtime c = rt'" "\<not> executing c" "call_id c = cid'" "c_func c = func" "c_arg c = arg"
      "co_wf t cs1" "same_queue (w_cs w) cs1" "\<not> queued cs1 cp1" "co_wf t (enter cs1 cp1 long cid' c)"
    using insert_effect [OF wf(1) room, of "w_lbolt w" unsafe func arg delta] unfolding rt_def by metis
  then have cp: "cp1 = cp" and e: "cs' = enter cs1 cp long cid c" "c_runtime c = rt" "\<not> executing c" "call_id c = cid" "c_func c = func" "c_arg c = arg"
      "co_wf t cs1" "same_queue (w_cs w) cs1" "\<not> queued cs1 cp" "co_wf t cs'"
    using g i by simp_all
  have l: "lists_ok t cs1" and m: "times_ok cs1" using e(7) by (simp_all add: co_wf_def)
  have later: "sint (cs_curtime cs1) < sint rt" 
    using e(8) m runtime_later by (simp add: rt_def same_queue_def times_ok_def)
  have "runs_ok cs1 (w_runs w)"
    using wf(1,4) e(8) runs_same_queue by (auto simp: co_wf_def)
  then have "runs_ok cs' (w_runs w)" unfolding e(1) using e later by (intro runs_enter [OF l _ _ _ m]) simp_all
  moreover have "pend cs1 = pend (w_cs w)" by (rule same_queue_pend [OF e(8)])
  moreover have "pend (w_cs w) cp = None" using e(8,9) by (simp add: pend_def same_queue_def)
  moreover have "pend cs' = (pend cs1)(cp \<mapsto> (cid, func, arg, rt))"
    unfolding e(1) enter_pend [OF e(7,9,3)] using e(2-6) by simp
  moreover have "cs_curtime cs' = cs_curtime (w_cs w)" using e(1,8) by (simp add: same_queue_def)
  ultimately show ?thesis using e(10) wf by (simp add: co_inv_def)
qed


lemma wait_step:
  assumes "co_inv t w" "cs' = upd_callout (w_cs w) cp (\<lambda>c. c\<lparr>c_done := d c\<rparr>)"
  shows "co_inv t (w\<lparr>w_cs := cs'\<rparr>) \<and> pend cs' = pend (w_cs w)"
proof -
  note f = wait_fields [OF assms(2)]
  have b: "b_elems cs' i = b_elems (w_cs w) i" for i using assms(2) by simp
  have q: "queued cs' x = queued (w_cs w) x" for x by (simp add: queued_def f b)
  have e: "executing (cs_tab cs' x) = executing (cs_tab (w_cs w) x)" "call_id (cs_tab cs' x) = call_id (cs_tab (w_cs w) x)" for x
    by (simp_all add: executing_def call_id_def f)
  have g: "cs_bucket cs' = cs_bucket (w_cs w)" "cs_freelist cs' = cs_freelist (w_cs w)" "cs_ncallout cs' = cs_ncallout (w_cs w)"
    "cs_curtime cs' = cs_curtime (w_cs w)" "cs_runtime cs' = cs_runtime (w_cs w)" using assms(2) by simp_all
  have "co_wf t cs' = co_wf t (w_cs w)"
    by (simp only: co_wf_def lists_ok_def times_ok_def xid_ok_def q b e f g)
  moreover have "runs_ok cs' (w_runs w) = runs_ok (w_cs w) (w_runs w)" by (rule runs_ok_cong) (simp_all add: f b)
  moreover have "pend cs' = pend (w_cs w)" by (simp add: pend_def fun_eq_iff q e f Let_def)
  ultimately show ?thesis using assms by (simp add: co_inv_def)
qed

lemma delete_step:
  assumes inv: "co_inv t w" and d: "callout_delete (w_cs w) cid self = (out, cs')"
  shows "co_inv t (w\<lparr>w_cs := cs'\<rparr>) \<and> (case out of
     Time_left l \<Rightarrow> (let cp = hd (cs_freelist cs') in \<exists>f a rt. pend (w_cs w) cp = Some (cid, f, a, rt) \<and>
       sint l = max 0 (sint rt - sint (cs_curtime (w_cs w))) \<and> pend cs' = (pend (w_cs w))(cp := None))
   | _ \<Rightarrow> pend cs' = pend (w_cs w))"
proof -
  have wf: "co_wf t (w_cs w)" "runs_ok (w_cs w) (w_runs w)" using inv by (simp_all add: co_inv_def)
  have p: "delete_post (w_cs w) cid self out cs'" by (rule delete_effect [OF wf(1) d])
  show ?thesis
  proof (cases out)
    case (Time_left l)
    then obtain cp f a rt where c: "pend (w_cs w) cp = Some (cid, f, a, rt)" "sint l = max 0 (sint rt - sint (cs_curtime (w_cs w)))"
      "cs' = release (w_cs w) cp (\<lambda>c. c)" using p by (auto simp: delete_post_def)
    then have q: "queued (w_cs w) cp" "\<not> executing (cs_tab (w_cs w) cp)" by (simp_all add: pend_eq_Some)
    have no: "w_runs w th \<noteq> Some (cp, r)" for th r using wf(2) q by (auto simp: runs_ok_def run_ok_def)
    have "runs_ok cs' (w_runs w)"
      unfolding c(3) by (rule runs_release [OF _ wf(2)]) (use wf no in \<open>auto simp: co_wf_def\<close>)
    then have "co_inv t (w\<lparr>w_cs := cs'\<rparr>)" using inv release_wf [OF wf(1) q(1)] c(3) by (simp add: co_inv_def)
    then show ?thesis using c release_pend [OF wf(1)] Time_left by simp
  next
    case Bogus
    then show ?thesis using p inv by (simp add: delete_post_def)
  next
    case (Wait_done cp xid)
    then show ?thesis using p wait_step [OF inv] by (simp add: delete_post_def)
  qed (use p in \<open>simp add: delete_post_def\<close>)
qed

text \<open>A search that ends with a call or with no callout due.\<close>

lemma post_step:
  assumes inv: "co_wf t cs" "runs_ok cs runs" "runs th = None" and p: "exec_post t cs th (Run cp r) cs'"
  shows "\<exists>i. pend cs cp = Some (i, c_func (cs_tab cs' cp), c_arg (cs_tab cs' cp), r)" "sint r \<le> sint (cs_curtime cs)"
    "pend cs j = Some (i', f', a', rt') \<Longrightarrow> sint r \<le> sint rt'"
proof -
  have x: "queued cs cp" "due_now (cs_tab cs) r cp" "cs' = mark (cs\<lparr>cs_runtime := r\<rparr>) th cp" "sint r \<le> sint (cs_curtime cs)"
      "times_ok (cs\<lparr>cs_runtime := r\<rparr>)"
    using p by (simp_all add: exec_post_def co_wf_def)
  show "\<exists>i. pend cs cp = Some (i, c_func (cs_tab cs' cp), c_arg (cs_tab cs' cp), r)"
    using x by (auto simp: pend_eq_Some due_now_iff)
  show "sint r \<le> sint (cs_curtime cs)" by (rule x(4))
  show "sint r \<le> sint rt'" if "pend cs j = Some (i', f', a', rt')"
    using that x(5) by (auto simp: pend_eq_Some times_ok_def)
qed

lemma return_runs:
  assumes inv: "co_inv t w" and r: "w_runs w th = Some (cp, r)"
  shows "run_ok (w_cs w) th cp r" "co_wf t (release (w_cs w) cp done_with)" "runs_ok (release (w_cs w) cp done_with) ((w_runs w)(th := None))"
    "pend (release (w_cs w) cp done_with) = pend (w_cs w)"
proof -
  have wf: "co_wf t (w_cs w)" "runs_ok (w_cs w) (w_runs w)" using inv by (simp_all add: co_inv_def)
  show o: "run_ok (w_cs w) th cp r" using wf(2) r by (simp add: runs_ok_def)
  then have q: "queued (w_cs w) cp" "executing (cs_tab (w_cs w) cp)" "c_executor (cs_tab (w_cs w) cp) = th" by (simp_all add: run_ok_def)
  show "co_wf t (release (w_cs w) cp done_with)" by (rule release_wf [OF wf(1) q(1)])
  have "w_runs w th' = Some (cp, r') \<Longrightarrow> th' = th" for th' r'
    using wf(2) q(3) unfolding runs_ok_def run_ok_def by metis
  then have "((w_runs w)(th := None)) th' \<noteq> Some (cp, r')" for th' r' by auto
  moreover have "((w_runs w)(th := None)) th' = Some (x, r') \<longleftrightarrow> w_runs w th' = Some (x, r')" if "x \<noteq> cp" for th' x r'
    using that r by auto
  ultimately show "runs_ok (release (w_cs w) cp done_with) ((w_runs w)(th := None))"
    using wf by (intro runs_release [of t]) (auto simp: co_wf_def)
  have "pend (w_cs w) cp = None" using q by (simp add: pend_def)
  then show "pend (release (w_cs w) cp done_with) = pend (w_cs w)" unfolding release_pend [OF wf(1)] by auto
qed


text \<open>A thread takes the next callout, in a state \<open>cs\<close> in which it runs none.\<close>

lemma run_step:
  assumes inv: "co_inv t w" and cs: "co_wf t cs" "runs_ok cs runs" "runs th = None" "cs_curtime cs = cs_curtime (w_cs w)" "pend cs = pend (w_cs w)"
    and p: "exec_post t cs th (Run cp r) cs'"
  shows "co_inv t (w\<lparr>w_cs := cs', w_runs := runs(th \<mapsto> (cp, r))\<rparr>) \<and>
    tm_step (co_view w) (fired_event cs' cp r) (co_view (w\<lparr>w_cs := cs', w_runs := runs(th \<mapsto> (cp, r))\<rparr>))"
proof
  have wi: "sint (cs_curtime (w_cs w)) \<le> sint (w_lbolt w)" "sint (w_lbolt w) < 2147483647" using inv by (simp_all add: co_inv_def)
  note e = exec_post_effect [OF p] and q = post_step [OF cs(1-3) p]
  have "runs_ok cs' (runs(th \<mapsto> (cp, r)))" using runs_post [OF p cs(2,3)] by simp
  then show "co_inv t (w\<lparr>w_cs := cs', w_runs := runs(th \<mapsto> (cp, r))\<rparr>)"
    using e(1,4) cs(4) wi by (simp add: co_inv_def)
  obtain i where a: "pend (w_cs w) cp = Some (i, c_func (cs_tab cs' cp), c_arg (cs_tab cs' cp), r)" using q(1) cs(5) by auto
  have v: "co_view (w\<lparr>w_cs := cs', w_runs := runs(th \<mapsto> (cp, r))\<rparr>) = (co_view w)\<lparr>armed := (armed (co_view w))(cp := None)\<rparr>"
    using e(3) cs(5) by (simp add: co_view_def)
  show "tm_step (co_view w) (fired_event cs' cp r) (co_view (w\<lparr>w_cs := cs', w_runs := runs(th \<mapsto> (cp, r))\<rparr>))"
    unfolding fired_event_def v
  proof (rule tm_step.Fire)
    show "armed (co_view w) cp = Some (i, c_func (cs_tab cs' cp), c_arg (cs_tab cs' cp), r)" using a by (simp add: co_view_def)
    show "sint r \<le> now (co_view w)" "now (co_view w) < 2147483647" using q(2) cs(4) wi by (simp_all add: co_view_def)
    show "sint r \<le> sint rt'" if "armed (co_view w) j = Some (i', f', a', rt')" for j i' f' a' rt'
      using that q(3) cs(5) by (simp add: co_view_def)
  qed
qed

lemma end_step:
  assumes inv: "co_inv t w" and cs: "runs_ok cs runs" "runs th = None" "cs_curtime cs = cs_curtime (w_cs w)" "pend cs = pend (w_cs w)"
    and p: "exec_post t cs th Finished cs'"
  shows "co_inv t (w\<lparr>w_cs := cs', w_runs := runs\<rparr>) \<and> co_view (w\<lparr>w_cs := cs', w_runs := runs\<rparr>) = co_view w"
  using inv cs exec_post_effect [OF p] runs_post [OF p cs(1,2)] by (simp add: co_inv_def co_view_def)

lemma co_step_sound:
  assumes inv: "co_inv t w" and "co_step w e w'"
  shows "co_inv t w' \<and> tm_step (co_view w) e (co_view w')"
  using assms(2)
proof cases
  case Clock
  have s: "sint (w_lbolt w + 1) = sint (w_lbolt w) + 1" using Clock by (intro sint_Suc32) simp
  have "co_view w' = (co_view w)\<lparr>now := now (co_view w) + 1\<rparr>" using Clock s by (simp add: co_view_def)
  then show ?thesis using Clock inv s by (auto simp: co_inv_def intro: tm_step.Tick)
next
  case (Schedule out cs')
  then show ?thesis using schedule_step [OF inv Schedule(3)] by (simp add: co_view_def tm_step.Skip)
next
  case (Insert mem cp cs0 unsafe func arg delta cid cs')
  let ?rt = "callout_runtime (w_lbolt w) (cs_curtime (w_cs w)) delta"
  note i = insert_step [OF inv Insert(3,4,5)]
  have v: "co_view w' = (co_view w)\<lparr>armed := (armed (co_view w))(cp \<mapsto> (cid, func, arg, ?rt))\<rparr>"
    using i Insert(2) by (simp add: co_view_def)
  have "sint ?rt = clamped (sint (w_lbolt w)) (sint (cs_curtime (w_cs w))) (sint delta)"
    using inv by (intro runtime_clamped) (simp_all add: co_inv_def co_wf_def times_ok_def)
  then have "min (now (co_view w) + sint delta) 2147483647 \<le> sint ?rt" by (simp add: clamped_def co_view_def)
  moreover have "armed (co_view w) cp = None" using i by (simp add: co_view_def)
  ultimately show ?thesis unfolding v Insert(1) using i Insert(2) by (auto intro: tm_step.Arm)
next
  case (Delete cid self l cs')
  note d = delete_step [OF inv Delete(3)]
  let ?cp = "hd (cs_freelist cs')"
  obtain f a rt where a: "pend (w_cs w) ?cp = Some (cid, f, a, rt)" "pend cs' = (pend (w_cs w))(?cp := None)"
    using d by (auto simp: Let_def)
  have v: "co_view w' = (co_view w)\<lparr>armed := (armed (co_view w))(?cp := None)\<rparr>" using a Delete(2) by (simp add: co_view_def)
  have "armed (co_view w) ?cp = Some (cid, f, a, rt)" using a by (simp add: co_view_def)
  then show ?thesis unfolding v Delete(1) using d Delete(2) by (auto intro: tm_step.Cancel)
next
  case (Delete_not cid self out cs')
  have "co_inv t w' \<and> pend cs' = pend (w_cs w)"
    using delete_step [OF inv Delete_not(3)] Delete_not(2) Delete_not(4) by (cases out) auto
  then show ?thesis using Delete_not(1,2) by (simp add: co_view_def tm_step.Skip)
next
  case (Delete_again cp xid self out cs')
  have "co_inv t w' \<and> pend cs' = pend (w_cs w)"
  proof (cases "c_xid (cs_tab (w_cs w) cp) = xid")
    case True
    then have "cs' = upd_callout (w_cs w) cp (\<lambda>c. c\<lparr>c_done := c_done c @ [self]\<rparr>)"
      using Delete_again(3) by (simp add: callout_delete_again_def)
    from wait_step [OF inv this] show ?thesis using Delete_again(2) by simp
  qed (use Delete_again inv in \<open>auto simp: callout_delete_again_def split: if_splits\<close>)
  then show ?thesis using Delete_again(1,2) by (simp add: co_view_def tm_step.Skip)
next
  case (Execute th cp r cs')
  have wf: "co_wf t (w_cs w)" "runs_ok (w_cs w) (w_runs w)" using inv by (simp_all add: co_inv_def)
  have "exec_post t (w_cs w) th (Run cp r) cs'" using execute_total [OF wf(1), of th] Execute(4) by simp
  then show ?thesis unfolding Execute(1,2) using run_step [OF inv wf Execute(3) refl refl] by blast
next
  case (Execute_end th cs')
  have wf: "co_wf t (w_cs w)" "runs_ok (w_cs w) (w_runs w)" using inv by (simp_all add: co_inv_def)
  have "exec_post t (w_cs w) th Finished cs'" using execute_total [OF wf(1), of th] Execute_end(4) by simp
  from end_step [OF inv wf(2) Execute_end(3) refl refl this]
  show ?thesis using Execute_end(1,2) by (simp add: tm_step.Skip co_inv_def co_view_def)
next
  case (Return th cp r cp' r' cs')
  note r = return_runs [OF inv Return(3)]
  have "exec_post t (release (w_cs w) cp done_with) th (Run cp' r') cs'"
    using return_total [OF _ r(1), of t] Return(4) inv by (auto simp: co_inv_def)
  from run_step [OF inv r(2,3) _ _ r(4) this] show ?thesis unfolding Return(1,2) by simp
next
  case (Return_end th cp r cs')
  note r = return_runs [OF inv Return_end(3)]
  have "exec_post t (release (w_cs w) cp done_with) th Finished cs'"
    using return_total [OF _ r(1), of t] Return_end(4) inv by (auto simp: co_inv_def)
  from end_step [OF inv r(3) _ _ r(4) this] show ?thesis unfolding Return_end(1,2) by (simp add: tm_step.Skip)
next
  case (Sleep th)
  have "runs_ok (callout_thread_wait (w_cs w) th) (w_runs w) = runs_ok (w_cs w) (w_runs w)"
    by (rule runs_ok_cong) (simp_all add: callout_thread_wait_def)
  then show ?thesis using Sleep inv by (simp add: co_inv_def co_view_def callout_thread_wait_def tm_step.Skip)
qed

interpretation co: timer_service "co_inv t" co_step co_view for t
  by unfold_locales (use co_step_sound in blast)+


section \<open>The start\<close>

text \<open>Either table after \<open>callout_init\<close>, with the clock at zero.\<close>

definition co_start :: "bool \<Rightarrow> co_world" where
  "co_start realtime = \<lparr>w_cs = (if realtime then snd callout_init else fst callout_init), w_lbolt = 0, w_runs = (\<lambda>_. None)\<rparr>"

definition table_no :: "bool \<Rightarrow> nat" where
  "table_no realtime = (if realtime then 2 else 1)"

lemma table_flag: "unat (if rt then CALLOUT_REALTIME else CALLOUT_NORMAL) = table_no rt * 268435456"
  by (simp add: table_no_def CALLOUT_REALTIME_def CALLOUT_NORMAL_def)

lemma setup_ids:
  fixes rt :: bool and i :: nat
  assumes "i < 256"
  defines "b \<equiv> of_nat i OR (if rt then CALLOUT_REALTIME else CALLOUT_NORMAL)"
  shows "id_ok (2 * table_no rt) i b" "id_ok (2 * table_no rt + 1) i (b OR CALLOUT_LONGTERM)"
proof -
  define n :: nat where "n = (if rt then 29 else 28)"
  have T: "(if rt then CALLOUT_REALTIME else CALLOUT_NORMAL) = push_bit n 1" by (simp add: n_def flag_powers)
  have n: "n < 32" "2 ^ n = table_no rt * 268435456" by (simp_all add: n_def table_no_def)
  have u: "unat (of_nat i :: 32 word) = i" using assms(1) by (intro unat_of_nat_small) simp
  have "\<not> bit (of_nat i :: 32 word) n"
    using assms(1) bit_le_unat [of "of_nat i" n] u by (auto simp: n table_no_def split: if_splits)
  then have s: "unat b = i + table_no rt * 268435456" using unat_or_power [OF n(1), of "of_nat i"] u n(2) by (simp only: b_def T) simp
  then have d: "unat b div 134217728 = 2 * table_no rt" using assms(1) by (simp add: div_mod_range)
  moreover have "unat b mod 256 = i"
    using assms(1) s mod_mult_self1 [of i "table_no rt * 1048576" 256] by (simp add: mult.assoc)
  ultimately show 1: "id_ok (2 * table_no rt) i b" by (simp add: id_ok_def)
  have "unat (b OR CALLOUT_LONGTERM) = unat b + 134217728"
    unfolding flag_powers using unat_or_power [of 27 b] d by (simp add: bit_div)
  then show "id_ok (2 * table_no rt + 1) i (b OR CALLOUT_LONGTERM)"
    using s assms(1) mod_mult_self1 [of i "table_no rt * 1048576 + 524288" 256]
    by (simp add: id_ok_def div_mod_range add_mult_distrib mult.assoc add.assoc)
qed

lemma setup_wf:
  fixes rt :: bool
  defines "cs \<equiv> callout_setup zero_state (if rt then CALLOUT_REALTIME else CALLOUT_NORMAL)"
  shows "co_wf (table_no rt) cs" "pend cs = (\<lambda>_. None)" "\<not> queued cs cp" "cs_curtime cs = 0"
proof -
  let ?b = "\<lambda>i. of_nat i OR (if rt then CALLOUT_REALTIME else CALLOUT_NORMAL)"
  have f: "length (cs_bucket cs) = 256" "cs_freelist cs = []" "cs_runtime cs = 0" and c: "cs_curtime cs = 0"
    by (simp_all add: cs_def callout_setup_def zero_state_def CALLOUT_BUCKETS_def)
  have e: "b_list (cs_bucket cs ! i) = []" "b_short_id (cs_bucket cs ! i) = ?b i" "b_long_id (cs_bucket cs ! i) = ?b i OR CALLOUT_LONGTERM"
    if "i < 256" for i using that by (simp_all add: cs_def callout_setup_def CALLOUT_BUCKETS_def)
  then have b: "b_elems cs i = []" if "i < 256" for i using that by (simp add: b_elems_def)
  have q: "\<not> queued cs x" for x by (simp add: queued_def b)
  then show "pend cs = (\<lambda>_. None)" "\<not> queued cs cp" "cs_curtime cs = 0" by (simp_all add: pend_def fun_eq_iff c)
  have "table_no rt = 1 \<or> table_no rt = 2" by (simp add: table_no_def)
  then have "lists_ok (table_no rt) cs"
    unfolding lists_ok_def using q b setup_ids [where rt = rt] e by (auto simp: f)
  moreover have "times_ok cs" using q by (simp add: times_ok_def f c)
  ultimately show "co_wf (table_no rt) cs" by (simp add: co_wf_def)
qed

lemma co_start_inv: "co_inv (table_no rt) (co_start rt)" "co_view (co_start rt) = \<lparr>now = 0, armed = (\<lambda>_. None)\<rparr>"
proof -
  have "w_cs (co_start rt) = callout_setup zero_state (if rt then CALLOUT_REALTIME else CALLOUT_NORMAL)"
    by (simp add: co_start_def callout_init_def)
  note w = setup_wf [where rt = rt, folded this]
  show "co_inv (table_no rt) (co_start rt)" using w by (simp add: co_inv_def runs_ok_def) (simp add: co_start_def)
  show "co_view (co_start rt) = \<lparr>now = 0, armed = (\<lambda>_. None)\<rparr>" using w by (simp add: co_view_def) (simp add: co_start_def)
qed

end
