(* ===== verification/Callout_Props.thy ===== *)
theory Callout_Props
  imports Callout_Steps
begin

text \<open>
  The claims about the callout table: it refines a timer service under every interleaving of clock,
  threads and callers; its loops end before the clock reaches its largest value and not then; a thread
  that executes callouts runs all that are due, in order; cancelling; suspend and resume.
\<close>

section \<open>Reachable states\<close>

lemma reach_inv: "steps co_step (co_start rt) es w \<Longrightarrow> co_inv (table_no rt) w"
  using co.steps_inv co_start_inv(1) by blast

lemma steps_one: "R s e s' \<Longrightarrow> steps R s [e] s'"
  using steps_snoc [OF steps_Nil] by fastforce

text \<open>A first history: a callout is set for the next tick, the clock ticks, and a thread runs it.\<close>

lemma first_insert:
  "\<exists>cs. callout_insert (w_cs (co_start rt)) 0 False True 7 9 1 = Ret (new_id (w_cs (co_start rt)) 1, cs) \<and>
     co_step (co_start rt) (Armed 0 (new_id (w_cs (co_start rt)) 1) 7 9 1 1) ((co_start rt)\<lparr>w_cs := cs\<rparr>) \<and>
     pend cs = [0 \<mapsto> (new_id (w_cs (co_start rt)) 1, 7, 9, 1)] \<and> cs_curtime cs = 0 \<and> c_xid (cs_tab cs 0) = new_id (w_cs (co_start rt)) 1"
proof -
  let ?w = "co_start rt"
  have f: "cs_freelist (w_cs ?w) = []" "cs_ncallout (w_cs ?w) = 0" "cs_curtime (w_cs ?w) = 0" "w_lbolt ?w = 0"
    by (simp_all add: co_start_def callout_init_def callout_setup_def zero_state_def)
  have rt: "callout_runtime 0 0 1 = 1" by (simp add: callout_runtime_def)
  obtain cs0 where g: "get_struct (w_cs ?w) True = Ret (0, cs0)" "cs_curtime cs0 = 0" "cs_bucket cs0 = cs_bucket (w_cs ?w)"
    using f by (simp add: get_struct_def callout_alloc_def)
  have n: "new_id cs0 1 = new_id (w_cs ?w) 1" using g f by (simp add: new_id_def)
  let ?cs = "enter cs0 0 (sint (1 - cs_curtime cs0) > sint CALLOUT_LONGTERM_TICKS) (new_id (w_cs ?w) 1)
    (new_callout False 7 9 1 (new_id (w_cs ?w) 1) (cs_tab cs0 0))"
  have i: "callout_insert (w_cs ?w) 0 False True 7 9 1 = Ret (new_id (w_cs ?w) 1, ?cs)"
    unfolding insert_enter [OF g(1)] using g(2) rt n by (simp add: Let_def)
  then have i': "callout_insert (w_cs ?w) (w_lbolt ?w) False True 7 9 1 = Ret (new_id (w_cs ?w) 1, ?cs)" using f by simp
  have nn: "cs_freelist (w_cs ?w) = [] \<longrightarrow> cs_ncallout (w_cs ?w) + 1 \<noteq> 0" using f by simp
  note s = co_step.Insert [OF g(1) nn i'] and e = insert_step [OF co_start_inv(1) g(1) nn i']
  have "pend (w_cs ?w) = (\<lambda>_. None)" using co_start_inv(2) [of rt] by (simp add: co_view_def)
  then show ?thesis using i s e f rt g(2) by (intro exI [of _ ?cs]) (simp add: new_callout_def)
qed

lemma first_history:
  "\<exists>w w' cid. steps co_step (co_start rt) [Armed 0 cid 7 9 1 1, Ticked, Silent] w \<and> co_step w (Fired 0 7 9 1) w' \<and>
     w_runs w = (\<lambda>_. None) \<and> pend (w_cs w) = [0 \<mapsto> (cid, 7, 9, 1)] \<and> cs_curtime (w_cs w) = 1 \<and>
     w_runs w' = [0 \<mapsto> (0, 1)] \<and> pend (w_cs w') = (\<lambda>_. None) \<and> call_id (cs_tab (w_cs w') 0) = cid"
proof -
  obtain cs where i: "co_step (co_start rt) (Armed 0 (new_id (w_cs (co_start rt)) 1) 7 9 1 1) ((co_start rt)\<lparr>w_cs := cs\<rparr>)"
    "pend cs = [0 \<mapsto> (new_id (w_cs (co_start rt)) 1, 7, 9, 1)]" "cs_curtime cs = 0"
    using first_insert by blast
  let ?cid = "new_id (w_cs (co_start rt)) 1"
  let ?w1 = "(co_start rt)\<lparr>w_cs := cs\<rparr>" and ?w2 = "(co_start rt)\<lparr>w_cs := cs, w_lbolt := 1\<rparr>"
  have s: "w_lbolt (co_start rt) = 0" "w_runs (co_start rt) = (\<lambda>_. None)" by (simp_all add: co_start_def)
  have c: "co_step ?w1 Ticked ?w2" using co_step.Clock [of ?w1] s by simp
  have st: "steps co_step (co_start rt) [Armed 0 ?cid 7 9 1 1, Ticked] ?w2"
    using steps_snoc [OF steps_one [of co_step, OF i(1)] c] by simp
  have inv: "co_inv (table_no rt) ?w2" by (rule reach_inv [OF st])
  obtain out cs2 where d: "callout_schedule cs 1 = Some (out, cs2)" "sched_post (table_no rt) (cs\<lparr>cs_curtime := 1\<rparr>) out cs2"
    using schedule_total [of "table_no rt" cs 1] inv i(3) by (auto simp: co_inv_def)
  let ?w3 = "(co_start rt)\<lparr>w_lbolt := 1, w_cs := cs2\<rparr>"
  have st3: "steps co_step (co_start rt) [Armed 0 ?cid 7 9 1 1, Ticked, Silent] ?w3"
    using steps_snoc [OF st co_step.Schedule [of ?w2 out cs2]] d(1) by simp
  have wf: "co_wf (table_no rt) cs2" "cs_curtime cs2 = 1" "pend cs2 = pend cs" using d(2) by (simp_all add: sched_post_def)
  obtain out cs3 where x: "callout_execute cs2 0 = Some (out, cs3)" "exec_post (table_no rt) cs2 0 out cs3"
    using execute_total [OF wf(1)] by blast
  have p: "pend cs2 0 = Some (?cid, 7, 9, 1)" using wf i by simp
  show ?thesis
  proof (cases out)
    case Finished
    then have False using finished_none x(2) p wf(2) by fastforce
    then show ?thesis ..
  next
    case (Run cp r)
    have "runs_ok cs2 (\<lambda>_. None)" using reach_inv [OF st3] s by (simp add: co_inv_def)
    from post_step(1) [OF wf(1) this refl x(2) [unfolded Run]]
    obtain i' where "pend cs2 cp = Some (i', c_func (cs_tab cs3 cp), c_arg (cs_tab cs3 cp), r)" by blast
    then have cp: "cp = 0" "c_func (cs_tab cs3 0) = 7" "c_arg (cs_tab cs3 0) = 9" "r = 1" using wf i(2) by (auto split: if_splits)
    have "co_step ?w3 (fired_event cs3 0 1) (?w3\<lparr>w_cs := cs3, w_runs := (w_runs ?w3)(0 \<mapsto> (0, 1))\<rparr>)"
      using x(1) Run cp s by (intro co_step.Execute) simp_all
    moreover have "pend cs3 = (\<lambda>_. None)" using exec_post_effect(3) [OF x(2) Run] wf i(2) cp by (simp add: fun_eq_iff)
    moreover have "call_id (cs_tab cs3 0) = ?cid"
      using x(2) Run cp p by (simp add: exec_post_def pend_eq_Some)
    ultimately show ?thesis
      using st3 cp s wf i(2) by (intro exI [of _ ?w3] exI [of _ "?w3\<lparr>w_cs := cs3, w_runs := (w_runs ?w3)(0 \<mapsto> (0, 1))\<rparr>"] exI [of _ ?cid]) (simp add: fired_event_def)
  qed
qed


section \<open>The timer service\<close>

text \<open>
  C29 (callout_refines). From the start of either table, every interleaving of clock ticks, \<open>callout_schedule\<close>,
  insertions, deletions and any number of threads in \<open>callout_execute\<close> is a history of the timer
  service: a callout that runs was armed and is due, and none that is armed is due earlier; a deletion
  that reports the time left disarms the callout with its identifier; nothing else changes what is
  armed.
\<close>

theorem callout_refines:
  assumes "steps co_step (co_start realtime) es w"
  shows "steps tm_step \<lparr>now = 0, armed = (\<lambda>_. None)\<rparr> es (co_view w)"
  using co.steps_refine [OF assms co_start_inv(1)] by (simp add: co_start_inv(2))

theorem callout_refines_witness:
  "\<exists>es w. es \<noteq> [] \<and> steps co_step (co_start False) es w \<and> steps tm_step \<lparr>now = 0, armed = (\<lambda>_. None)\<rparr> es (co_view w)"
proof -
  obtain w cid where "steps co_step (co_start False) [Armed 0 cid 7 9 1 1, Ticked, Silent] w"
    using first_history by blast
  then show ?thesis using callout_refines by blast
qed

text \<open>
  C30 (callout_fires_once). When the function of a callout is called, the callout was set before with this
  function and argument, it has neither been cancelled nor called since, and at least as many clock
  ticks as asked for have passed since.
\<close>

theorem callout_fires_once:
  assumes "steps co_step (co_start realtime) es w" and "co_step w (Fired cp f a r) w'"
  shows "\<exists>pre cid delta mid. es = pre @ Armed cp cid f a delta r # mid \<and> (\<forall>e\<in>set mid. \<not> concerns cp e) \<and> sint delta \<le> ticks mid"
  using co.fired_sound [OF co_start_inv(1) _ _ assms] by (simp add: co_start_inv(2))

theorem callout_fires_once_witness:
  "\<exists>es w w'. steps co_step (co_start True) es w \<and> co_step w (Fired 0 7 9 1) w' \<and>
     (\<exists>pre cid delta mid. es = pre @ Armed 0 cid 7 9 delta 1 # mid \<and> (\<forall>e\<in>set mid. \<not> concerns 0 e) \<and> sint delta \<le> ticks mid)"
proof -
  obtain w w' cid where s: "steps co_step (co_start True) [Armed 0 cid 7 9 1 1, Ticked, Silent] w" "co_step w (Fired 0 7 9 1) w'"
    using first_history by blast
  show ?thesis by (rule exI, rule exI, rule exI, rule conjI, rule s(1), rule conjI, rule s(2), rule callout_fires_once [OF s])
qed

section \<open>The loops end\<close>

text \<open>
  C32 (callout_loops_end). As long as the clock has not reached its largest value, no call hangs in any
  interleaving: the search of \<open>callout_schedule\<close> ends, and so does \<open>callout_execute\<close>, both when it is
  entered and behind the call of a function, where the structure is still found in its bucket. The
  clock wakes a thread, or posts the soft interrupt in the case of the realtime table, exactly if a
  callout is due.
\<close>

theorem callout_loops_end:
  assumes "steps co_step (co_start realtime) es w"
  shows "(\<exists>out cs'. callout_schedule (w_cs w) (w_lbolt w) = Some (out, cs') \<and>
      out = (if \<exists>cp i f a r. pend (w_cs w) cp = Some (i, f, a, r) \<and> sint r \<le> sint (w_lbolt w)
             then if realtime then Softcall else Signal else Quiet)) \<and>
    callout_execute (w_cs w) th \<noteq> None \<and>
    (\<forall>cp r. w_runs w th = Some (cp, r) \<longrightarrow> callout_return (w_cs w) th cp r \<noteq> None)"
proof (intro conjI allI impI)
  have inv: "co_inv (table_no realtime) w" by (rule reach_inv [OF assms])
  then have wf: "co_wf (table_no realtime) (w_cs w)" and b: "sint (cs_curtime (w_cs w)) \<le> sint (w_lbolt w)" "sint (w_lbolt w) < 2147483647"
    by (simp_all add: co_inv_def)
  obtain out cs' where o: "callout_schedule (w_cs w) (w_lbolt w) = Some (out, cs')"
      "sched_post (table_no realtime) ((w_cs w)\<lparr>cs_curtime := w_lbolt w\<rparr>) out cs'"
    using schedule_total [OF wf b] by blast
  have "out = (if \<exists>cp i f a r. pend (w_cs w) cp = Some (i, f, a, r) \<and> sint r \<le> sint (w_lbolt w)
             then if realtime then Softcall else Signal else Quiet)"
    using o(2) by (fastforce simp: sched_post_def table_no_def split: if_splits)
  then show "\<exists>out cs'. callout_schedule (w_cs w) (w_lbolt w) = Some (out, cs') \<and>
      out = (if \<exists>cp i f a r. pend (w_cs w) cp = Some (i, f, a, r) \<and> sint r \<le> sint (w_lbolt w)
             then if realtime then Softcall else Signal else Quiet)" using o(1) by blast
  show "callout_execute (w_cs w) th \<noteq> None" using execute_total [OF wf, of th] by auto
  show "callout_return (w_cs w) th cp r \<noteq> None" if "w_runs w th = Some (cp, r)" for cp r
    using return_total [OF wf return_runs(1) [OF inv that]] by auto
qed

theorem callout_loops_end_witness:
  "\<exists>es w. steps co_step (co_start False) es w \<and> w_runs w 0 = Some (0, 1) \<and> callout_return (w_cs w) 0 0 1 \<noteq> None"
proof -
  obtain w w' cid where s: "steps co_step (co_start False) [Armed 0 cid 7 9 1 1, Ticked, Silent] w" "co_step w (Fired 0 7 9 1) w'"
    "w_runs w' 0 = Some (0, 1)" using first_history [of False] by auto
  note st = steps_snoc [OF s(1,2)]
  have "callout_return (w_cs w') 0 0 1 \<noteq> None" using callout_loops_end [OF st, of 0] s(3) by simp
  then show ?thesis by (intro exI conjI) (rule st, rule s(3))
qed


text \<open>
  At the largest value of the clock, when no callout is pending, each time is due and the counter of
  times wraps around.
\<close>

definition idle :: "callout_state \<Rightarrow> bool" where
  "idle cs \<longleftrightarrow> (\<forall>i<256. \<forall>cp\<in>set (b_elems cs i). executing (cs_tab cs cp))"

lemma INT_MAX_greatest: "sint (r :: int32) \<le> sint INT_MAX"
  using sint_in_range(2) [of r] by (simp add: INT_MAX_def)

lemma idle_none_due: "idle cs \<Longrightarrow> cp \<in> set (b_list (cs_bucket cs ! bucket_of r)) \<Longrightarrow> \<not> due_now (cs_tab cs) r' cp"
  unfolding idle_def b_elems_def due_now_iff using bucket_of_less [of r] by metis

lemma idle_more [simp]: "idle (cs\<lparr>cs_runtime := r\<rparr>) = idle cs" "idle (cs\<lparr>cs_curtime := r\<rparr>) = idle cs"
  by (simp_all add: idle_def)

lemma sched_loop_endless:
  assumes "sched_loop cs = Some y"
  shows "\<not> (cs_curtime cs = INT_MAX \<and> idle cs)"
proof (rule sched_loop.raw_induct [where P = "\<lambda>cs y. \<not> (cs_curtime cs = INT_MAX \<and> idle cs)", OF _ assms], goal_cases)
  case (1 f cs y)
  show ?case
  proof
    assume i: "cs_curtime cs = INT_MAX \<and> idle cs"
    then have "find (due_now (cs_tab cs) (cs_runtime cs)) (b_list (cs_bucket cs ! bucket_of (cs_runtime cs))) = None"
      using idle_none_due by (auto simp: find_None_iff)
    then have "f (cs\<lparr>cs_runtime := cs_runtime cs + 1\<rparr>) = Some y" using 1(2) i INT_MAX_greatest by (simp add: Let_def)
    from 1(1) [OF this] show False using i by simp
  qed
qed

text \<open>
  C35 (callout_schedule_endless). On the tick at which the clock reaches its largest value, 248 days after
  the start at 100 ticks a second, \<open>callout_schedule\<close> does not return if no callout is pending: the
  counter \<open>cs_runtime\<close> wraps around and never exceeds the clock. The lock of the table is held.
\<close>

theorem callout_schedule_endless:
  assumes "idle cs"
  shows "callout_schedule cs INT_MAX = None"
proof (cases "callout_schedule cs INT_MAX")
  case (Some y)
  then show ?thesis using sched_loop_endless [of "cs\<lparr>cs_curtime := INT_MAX\<rparr>" y] assms by (simp add: callout_schedule_def)
qed simp

theorem callout_schedule_endless_witness: "callout_schedule (fst callout_init) INT_MAX = None"
proof (rule callout_schedule_endless)
  have "b_elems (fst callout_init) i = []" if "i < 256" for i
    using that by (simp add: callout_init_def callout_setup_def CALLOUT_BUCKETS_def b_elems_def)
  then show "idle (fst callout_init)" by (simp add: idle_def)
qed

section \<open>All due callouts run\<close>

text \<open>
  A thread that executes callouts whose functions do not use the table, from an outcome of
  \<open>callout_execute\<close> on: the structures in the order of the calls, and the table at the end. The first
  argument bounds the number of calls.
\<close>

fun drain :: "nat \<Rightarrow> nat \<Rightarrow> (exec_out \<times> callout_state) option \<Rightarrow> (nat list \<times> callout_state) option" where
  "drain n th (Some (Finished, cs)) = Some ([], cs)"
| "drain (Suc n) th (Some (Run cp r, cs)) = map_option (\<lambda>(l, cs'). (cp # l, cs')) (drain n th (callout_return cs th cp r))"
| "drain 0 th (Some (Run cp r, cs)) = None"
| "drain n th None = None"

definition due_set :: "callout_state \<Rightarrow> nat set" where
  "due_set cs = {cp. queued cs cp \<and> \<not> executing (cs_tab cs cp) \<and> sint (c_runtime (cs_tab cs cp)) \<le> sint (cs_curtime cs)}"

lemma due_set_pend: "cp \<in> due_set cs \<longleftrightarrow> (\<exists>i f a r. pend cs cp = Some (i, f, a, r) \<and> sint r \<le> sint (cs_curtime cs))"
  by (auto simp: due_set_def pend_eq_Some)

lemma due_set_finite: "co_wf t cs \<Longrightarrow> finite (due_set cs)"
  by (rule finite_subset [of _ "{..<unat (cs_ncallout cs)}"]) (auto simp: due_set_def co_wf_def lists_ok_def)

definition drained :: "callout_state \<Rightarrow> (nat list \<times> callout_state) option \<Rightarrow> bool" where
  "drained cs res \<longleftrightarrow> (\<exists>l cs'. res = Some (l, cs') \<and> distinct l \<and> set l = due_set cs \<and>
    sorted (map (\<lambda>cp. sint (c_runtime (cs_tab cs cp))) l) \<and> pend cs' = (\<lambda>cp. if cp \<in> due_set cs then None else pend cs cp))"

lemma drained_Nil:
  assumes "exec_post t cs th Finished cs'"
  shows "drained cs (drain n th (Some (Finished, cs')))"
proof -
  have "due_set cs = {}" using finished_none [OF assms] by (fastforce simp: due_set_pend)
  then show ?thesis using exec_post_effect(2) [OF assms refl] by (simp add: drained_def)
qed

lemma drained_Cons:
  assumes "co_wf t cs" "runs_ok cs runs" "runs th = None" and p: "exec_post t cs th (Run cp r) cs'"
  obtains rel out cs2 where "co_wf t rel" "runs_ok rel runs" "callout_return cs' th cp r = Some (out, cs2)" "exec_post t rel th out cs2"
    "cp \<in> due_set cs" "due_set rel = due_set cs - {cp}" "\<And>res. drained rel res \<Longrightarrow> drained cs (map_option (\<lambda>(l, cs'). (cp # l, cs')) res)"
proof -
  let ?old = "\<lparr>w_cs = cs, w_lbolt = cs_curtime cs, w_runs = runs\<rparr>" and ?w = "\<lparr>w_cs = cs', w_lbolt = cs_curtime cs, w_runs = runs(th \<mapsto> (cp, r))\<rparr>"
  let ?rel = "release cs' cp done_with"
  have "co_inv t ?old" using assms by (simp add: co_inv_def co_wf_def times_ok_def)
  from run_step [OF this assms(1-3) _ _ p] have inv: "co_inv t ?w" by simp
  have rw: "w_runs ?w th = Some (cp, r)" by simp
  note rr = return_runs [OF inv rw, simplified]
  have "runs(th := None) = runs" using assms(3) by auto
  then have ro: "runs_ok ?rel runs" using rr(3) by simp
  obtain out cs2 where ret: "callout_return cs' th cp r = Some (out, cs2)" "exec_post t ?rel th out cs2"
    using return_total [OF _ rr(1), of t] inv by (auto simp: co_inv_def)
  obtain i where pc: "pend cs cp = Some (i, c_func (cs_tab cs' cp), c_arg (cs_tab cs' cp), r)" and r: "sint r \<le> sint (cs_curtime cs)"
    using post_step [OF assms(1-3) p] by blast
  have pr: "pend ?rel = (pend cs)(cp := None)" using rr(4) exec_post_effect(3) [OF p refl] by simp
  have cur: "cs_curtime cs' = cs_curtime cs" by (rule exec_post_effect(4) [OF p])
  have due: "cp \<in> due_set cs" "due_set ?rel = due_set cs - {cp}"
    using pc r by (auto simp: due_set_pend pr cur split: if_splits)
  have tab: "c_runtime (cs_tab ?rel x) = c_runtime (cs_tab cs x)" if "x \<noteq> cp" for x
    using that p by (simp add: exec_post_def)
  have rc: "c_runtime (cs_tab cs cp) = r" using pc by (simp add: pend_eq_Some)
  have first: "sint r \<le> sint (c_runtime (cs_tab cs x))" if "x \<in> due_set cs" for x
    using that post_step(3) [OF assms(1-3) p] by (auto simp: due_set_def pend_eq_Some)
  have "drained cs (map_option (\<lambda>(l, cs'). (cp # l, cs')) res)" if d: "drained ?rel res" for res
  proof -
    obtain l cs3 where l: "res = Some (l, cs3)" "distinct l" "set l = due_set cs - {cp}"
      "sorted (map (\<lambda>x. sint (c_runtime (cs_tab ?rel x))) l)" "pend cs3 = (\<lambda>x. if x \<in> due_set cs - {cp} then None else pend ?rel x)"
      using d due(2) by (auto simp: drained_def)
    have "map (\<lambda>x. sint (c_runtime (cs_tab ?rel x))) l = map (\<lambda>x. sint (c_runtime (cs_tab cs x))) l"
      using l(3) tab by (intro map_cong) auto
    then have "sorted (map (\<lambda>x. sint (c_runtime (cs_tab cs x))) l)" using l(4) by (simp only:)
    then have "sorted (map (\<lambda>x. sint (c_runtime (cs_tab cs x))) (cp # l))" using l(3) rc first by auto
    moreover have "pend cs3 = (\<lambda>x. if x \<in> due_set cs then None else pend cs x)" using l(5) pr due(1) by (auto simp: fun_eq_iff)
    moreover have "distinct (cp # l)" "set (cp # l) = due_set cs" using l(2,3) due(1) by auto
    ultimately show ?thesis unfolding drained_def l(1) by auto
  qed
  then show ?thesis using that [OF rr(2) ro ret due] by blast
qed

lemma drain_post:
  assumes "co_wf t cs" "runs_ok cs runs" "runs th = None" "exec_post t cs th out cs'" "card (due_set cs) \<le> n"
  shows "drained cs (drain n th (Some (out, cs')))"
  using assms
proof (induction n arbitrary: cs out cs')
  case 0
  then have e: "due_set cs = {}" using due_set_finite by fastforce
  show ?case
  proof (cases out)
    case (Run cp r)
    then have "cp \<in> due_set cs" using drained_Cons [OF "0.prems"(1-3)] 0(4) by metis
    then show ?thesis using e by simp
  qed (use drained_Nil 0(4) in simp)
next
  case (Suc n)
  show ?case
  proof (cases out)
    case (Run cp r)
    then obtain rel out2 cs2 where d: "co_wf t rel" "runs_ok rel runs" "callout_return cs' th cp r = Some (out2, cs2)" "exec_post t rel th out2 cs2"
      "cp \<in> due_set cs" "due_set rel = due_set cs - {cp}" "\<And>res. drained rel res \<Longrightarrow> drained cs (map_option (\<lambda>(l, cs'). (cp # l, cs')) res)"
      using drained_Cons [OF Suc.prems(1-3)] Suc.prems(4) by metis
    have "card (due_set rel) \<le> n" using d(5,6) Suc.prems(5) due_set_finite [OF Suc.prems(1)] by simp
    from d(7) [OF Suc.IH [OF d(1,2) Suc.prems(3) d(4) this]] show ?thesis using Run d(3) by simp
  qed (use drained_Nil Suc.prems(4) in simp)
qed


text \<open>
  C31 (callout_execute_drains). In any reachable state, a free thread that executes callouts returns after
  as many calls as callouts are due, if the functions do not use the table meanwhile. It has called
  each of them once, in the order of their times, and only the callouts that are not due are still
  pending.
\<close>

theorem callout_execute_drains:
  assumes "steps co_step (co_start realtime) es w" "w_runs w th = None" "card (due_set (w_cs w)) \<le> n"
  shows "\<exists>l cs'. drain n th (callout_execute (w_cs w) th) = Some (l, cs') \<and> distinct l \<and>
    set l = {cp. \<exists>i f a r. pend (w_cs w) cp = Some (i, f, a, r) \<and> sint r \<le> sint (cs_curtime (w_cs w))} \<and>
    sorted (map (\<lambda>cp. sint (c_runtime (cs_tab (w_cs w) cp))) l) \<and>
    (\<forall>cp. pend cs' cp = (if cp \<in> set l then None else pend (w_cs w) cp))"
proof -
  have inv: "co_wf (table_no realtime) (w_cs w)" "runs_ok (w_cs w) (w_runs w)"
    using reach_inv [OF assms(1)] by (simp_all add: co_inv_def)
  obtain out cs' where x: "callout_execute (w_cs w) th = Some (out, cs')" "exec_post (table_no realtime) (w_cs w) th out cs'"
    using execute_total [OF inv(1)] by blast
  have d: "drained (w_cs w) (drain n th (callout_execute (w_cs w) th))"
    using drain_post [OF inv assms(2) x(2) assms(3)] x(1) by simp
  have "due_set (w_cs w) = {cp. \<exists>i f a r. pend (w_cs w) cp = Some (i, f, a, r) \<and> sint r \<le> sint (cs_curtime (w_cs w))}"
    by (auto simp: due_set_pend)
  then show ?thesis using d by (auto simp: drained_def)
qed

theorem callout_execute_drains_witness:
  "\<exists>es w cs'. steps co_step (co_start False) es w \<and> drain 1 5 (callout_execute (w_cs w) 5) = Some ([0], cs')"
proof -
  obtain w w' cid where s: "steps co_step (co_start False) [Armed 0 cid 7 9 1 1, Ticked, Silent] w"
    "w_runs w = (\<lambda>_. None)" "pend (w_cs w) = [0 \<mapsto> (cid, 7, 9, 1)]" "cs_curtime (w_cs w) = 1"
    using first_history [of False] by auto
  then have "due_set (w_cs w) = {0}" by (auto simp: due_set_pend split: if_splits)
  moreover have "w_runs w 5 = None" using s(2) by simp
  ultimately obtain l cs' where "drain 1 5 (callout_execute (w_cs w) 5) = Some (l, cs')" "distinct l" "set l = {0}"
    using callout_execute_drains [OF s(1), of 5 1] s(3,4) by (auto split: if_splits)
  moreover from this have "length l = 1" using distinct_card [of l] by simp
  with calculation(3) have "l = [0]" by (cases l) auto
  ultimately have "drain 1 5 (callout_execute (w_cs w) 5) = Some ([0], cs')" by (simp only:)
  then show ?thesis using s(1) by (intro exI conjI)
qed

section \<open>Cancelling\<close>

text \<open>The interfaces for both tables.\<close>

definition set_timeout :: "bool \<Rightarrow> callout_tables \<Rightarrow> int32 \<Rightarrow> bool \<Rightarrow> bool \<Rightarrow> nat \<Rightarrow> ulong \<Rightarrow> int32 \<Rightarrow> (int32 \<times> callout_tables) kres" where
  "set_timeout realtime = (if realtime then realtime_timeout else timeout)"

definition table_of :: "bool \<Rightarrow> callout_tables \<Rightarrow> callout_state" where
  "table_of realtime tb = (if realtime then rt_callout tb else callout_normal tb)"

lemma id_realtime:
  assumes "id_ok (2 * t) i cid \<or> id_ok (2 * t + 1) i cid" "t = 1 \<or> t = 2"
  shows "cid AND CALLOUT_REALTIME \<noteq> 0 \<longleftrightarrow> t = 2" "bucket_of cid = i" "cid \<noteq> 0"
proof -
  have "unat cid div 268435456 = t" using assms(1) by (auto simp: id_ok_def div_mult2_eq [symmetric])
  moreover have "unat cid div 536870912 = unat cid div 268435456 div 2" by (simp add: div_mult2_eq [symmetric])
  ultimately have "odd (unat cid div 536870912) \<longleftrightarrow> t = 2" "unat cid \<noteq> 0" using assms(2) by auto
  then show "cid AND CALLOUT_REALTIME \<noteq> 0 \<longleftrightarrow> t = 2" "cid \<noteq> 0"
    unfolding flag_powers using and_power_iff [of 29 cid] by (auto simp: bit_div)
  show "bucket_of cid = i" using assms(1) by (auto simp: bucket_of_mod id_ok_def)
qed

lemma id_flag:
  assumes "lists_ok t cs" "queued cs cp"
  shows "call_id (cs_tab cs cp) AND CALLOUT_REALTIME \<noteq> 0 \<longleftrightarrow> t = 2"
proof -
  have t: "t = 1 \<or> t = 2" "unat (call_id (cs_tab cs cp)) div 268435456 = t" using assms by (auto simp: lists_ok_def xid_ok_def)
  moreover have "unat (call_id (cs_tab cs cp)) div 536870912 = unat (call_id (cs_tab cs cp)) div 268435456 div 2" by (simp add: div_mult2_eq [symmetric])
  ultimately have "odd (unat (call_id (cs_tab cs cp)) div 536870912) \<longleftrightarrow> t = 2" by auto
  then show ?thesis unfolding flag_powers using and_power_iff [of 29 "call_id (cs_tab cs cp)"] by (auto simp: bit_div)
qed

text \<open>The steps during which thread \<open>th\<close> stays in the function it has called.\<close>

definition staying :: "nat \<Rightarrow> co_world \<Rightarrow> event \<Rightarrow> co_world \<Rightarrow> bool" where
  "staying th w e w' \<longleftrightarrow> co_step w e w' \<and> w_runs w' th = w_runs w th"

lemma exec_post_xid:
  assumes "exec_post t cs th out cs'" "executing (cs_tab cs cp) \<or> \<not> queued cs cp"
  shows "cs_tab cs' cp = cs_tab cs cp" "out \<noteq> Run cp r"
  using assms by (auto simp: exec_post_def mark_def due_now_def executing_def split: exec_out.splits)

lemma staying_xid:
  assumes inv: "co_inv t w" and s: "staying th w e w'" and r: "w_runs w th = Some (cp, r)"
  shows "c_xid (cs_tab (w_cs w') cp) = c_xid (cs_tab (w_cs w) cp)"
proof -
  have wf: "co_wf t (w_cs w)" "runs_ok (w_cs w) (w_runs w)" using inv by (simp_all add: co_inv_def)
  have q: "queued (w_cs w) cp" "executing (cs_tab (w_cs w) cp)" "c_executor (cs_tab (w_cs w) cp) = th"
    using wf(2) r by (auto simp: runs_ok_def run_ok_def)
  have st: "co_step w e w'" and r': "w_runs w' th = Some (cp, r)" using s r by (simp_all add: staying_def)
  have deleted: "c_xid (cs_tab cs' cp) = c_xid (cs_tab (w_cs w) cp)" if "callout_delete (w_cs w) cid self = (out, cs')" for cid self out cs'
    using delete_effect [OF wf(1) that] by (auto simp: delete_post_def split: del_out.splits)
  have returned: "th' \<noteq> th \<and> cs_tab cs' cp = cs_tab (w_cs w) cp"
    if "w_runs w th' = Some (x, rx)" "callout_return (w_cs w) th' x rx = Some (out, cs')"
      "out = Run x' r2 \<and> w_runs w' = (w_runs w)(th' \<mapsto> (x', r2)) \<or> w_runs w' = (w_runs w)(th' := None)" for th' x rx x' r2 out cs'
  proof -
    have run: "run_ok (w_cs w) th' x rx" using wf(2) that(1) by (simp add: runs_ok_def)
    have p: "exec_post t (release (w_cs w) x done_with) th' out cs'" using return_total [OF wf(1) run] that(2) by auto
    have nq: "\<not> queued (release (w_cs w) x done_with) x" using wf(1) release_queued [of t "w_cs w" x] by (simp add: co_wf_def)
    have "th' \<noteq> th"
    proof
      assume "th' = th"
      then have "x = cp" "out = Run cp r" using that r r' by auto
      then show False using exec_post_xid(2) [OF p, of cp r] nq by simp
    qed
    moreover have "x \<noteq> cp" using run q(3) calculation by (auto simp: run_ok_def)
    ultimately show ?thesis using exec_post_xid(1) [OF p, of cp] q(2) by simp
  qed
  show ?thesis
    using st
  proof cases
    case (Schedule out cs')
    then show ?thesis using schedule_total [of t "w_cs w" "w_lbolt w"] inv by (auto simp: co_inv_def sched_post_def)
  next
    case (Insert mem x cs0 unsafe func arg delta cid cs')
    have room: "cs_freelist (w_cs w) = [] \<longrightarrow> mem \<and> cs_ncallout (w_cs w) + 1 \<noteq> 0"
      using Insert by (auto simp: get_struct_def callout_alloc_def split: if_splits)
    obtain x' cs1 long c cid' where i: "callout_insert (w_cs w) (w_lbolt w) unsafe mem func arg delta = Ret (cid', enter cs1 x' long cid' c)"
      "same_queue (w_cs w) cs1" "\<not> queued cs1 x'" using insert_effect [OF wf(1) room] by metis
    then show ?thesis using Insert q(1) by (auto simp: same_queue_def)
  next
    case (Delete_again x xid self out cs')
    then show ?thesis by (auto simp: callout_delete_again_def split: if_splits)
  next
    case (Execute th' x rx cs')
    then show ?thesis using execute_total [OF wf(1), of th'] exec_post_xid(1) [of t "w_cs w" th' "Run x rx" cs' cp] q(2) by auto
  next
    case (Execute_end th' cs')
    then show ?thesis using execute_total [OF wf(1), of th'] exec_post_xid(1) [of t "w_cs w" th' Finished cs' cp] q(2) by auto
  next
    case (Return th' x rx x' r2 cs')
    then show ?thesis using returned [of th' x rx "Run x' r2" cs' x' r2] by simp
  next
    case (Return_end th' x rx cs')
    then show ?thesis using returned [of th' x rx Finished cs'] by auto
  qed (auto simp: callout_thread_wait_def dest: deleted)
qed

lemma staying_steps:
  assumes "steps (staying th) w es w'" "co_inv t w" "w_runs w th = Some (cp, r)"
  shows "co_inv t w' \<and> w_runs w' th = Some (cp, r) \<and> c_xid (cs_tab (w_cs w') cp) = c_xid (cs_tab (w_cs w) cp)"
  using assms
proof (induction rule: steps.induct)
  case (steps_snoc s es s' e s'')
  then have i: "co_inv t s'" "w_runs s' th = Some (cp, r)" "c_xid (cs_tab (w_cs s') cp) = c_xid (cs_tab (w_cs s) cp)" by blast+
  have "co_inv t s''" using co_step_sound [OF i(1)] steps_snoc.hyps(2) by (auto simp: staying_def)
  then show ?case using staying_xid [OF i(1) steps_snoc.hyps(2) i(2)] i steps_snoc.hyps(2) by (simp add: staying_def)
qed simp

text \<open>The end of the wait: the thread that runs the function takes the callout out of the table and wakes those who wait.\<close>

lemma return_wakes:
  assumes inv: "co_inv t w" and r: "w_runs w th = Some (cp, r)"
  shows "\<exists>out cs''. callout_return (w_cs w) th cp r = Some (out, cs'') \<and> c_done (cs_tab cs'' cp) = [] \<and> c_xid (cs_tab cs'' cp) = 0"
proof -
  have wf: "co_wf t (w_cs w)" and run: "run_ok (w_cs w) th cp r" using inv r by (simp_all add: co_inv_def runs_ok_def)
  let ?rel = "release (w_cs w) cp done_with"
  obtain out cs'' where c: "callout_return (w_cs w) th cp r = Some (out, cs'')" "exec_post t ?rel th out cs''"
    using return_total [OF wf run] by auto
  have "\<not> queued ?rel cp" using wf release_queued [of t "w_cs w" cp] by (simp add: co_wf_def)
  then have "cs_tab cs'' cp = cs_tab ?rel cp" using exec_post_xid(1) [OF c(2)] by blast
  then show ?thesis using c(1) by simp
qed

text \<open>Identifiers come round after $2^{19}$ callouts of a bucket; \<open>sole\<close>: no other callout in the table has that of \<open>cp\<close>.\<close>

definition sole :: "callout_state \<Rightarrow> nat \<Rightarrow> bool" where
  "sole cs cp \<longleftrightarrow> (\<forall>x. queued cs x \<and> call_id (cs_tab cs x) = call_id (cs_tab cs cp) \<longrightarrow> x = cp)"

lemma delete_running:
  assumes inv: "co_inv t w" and r: "w_runs w th = Some (cp, r)" "th \<noteq> self" and u: "sole (w_cs w) cp"
  shows "callout_delete (w_cs w) (call_id (cs_tab (w_cs w) cp)) self =
    (Wait_done cp (c_xid (cs_tab (w_cs w) cp)), upd_callout (w_cs w) cp (\<lambda>c. c\<lparr>c_done := c_done c @ [self]\<rparr>))"
proof -
  have wf: "co_wf t (w_cs w)" and run: "run_ok (w_cs w) th cp r" using inv r by (simp_all add: co_inv_def runs_ok_def)
  then have q: "queued (w_cs w) cp" "executing (cs_tab (w_cs w) cp)" "c_executor (cs_tab (w_cs w) cp) = th" by (simp_all add: run_ok_def)
  have one: "x = cp" if "queued (w_cs w) x" "call_id (cs_tab (w_cs w) x) = call_id (cs_tab (w_cs w) cp)" for x
    using that u by (simp add: sole_def)
  obtain out cs' where d: "callout_delete (w_cs w) (call_id (cs_tab (w_cs w) cp)) self = (out, cs')" by fastforce
  have p: "delete_post (w_cs w) (call_id (cs_tab (w_cs w) cp)) self out cs'" by (rule delete_effect [OF wf d])
  show ?thesis
  proof (cases out)
    case (Time_left l)
    then obtain x where "queued (w_cs w) x" "\<not> executing (cs_tab (w_cs w) x)" "call_id (cs_tab (w_cs w) x) = call_id (cs_tab (w_cs w) cp)"
      using p by (auto simp: delete_post_def pend_eq_Some)
    then show ?thesis using one q(2) by auto
  next
    case Bogus
    then show ?thesis using p q r(2) one by (auto simp: delete_post_def)
  next
    case (Wait_done x xid)
    then show ?thesis using p d one by (auto simp: delete_post_def)
  qed (use p in \<open>simp add: delete_post_def\<close>)
qed

lemma untimeout_running:
  assumes inv: "co_inv (table_no realtime) w" and r: "w_runs w th = Some (cp, r)" "th \<noteq> self" and u: "sole (w_cs w) cp"
    and tb: "table_of realtime tb = w_cs w"
  defines "cs \<equiv> upd_callout (w_cs w) cp (\<lambda>c. c\<lparr>c_done := c_done c @ [self]\<rparr>)"
  shows "untimeout tb (call_id (cs_tab (w_cs w) cp)) self =
    (Wait_done cp (c_xid (cs_tab (w_cs w) cp)), if realtime then tb\<lparr>rt_callout := cs\<rparr> else tb\<lparr>callout_normal := cs\<rparr>)"
proof -
  have q: "queued (w_cs w) cp" "lists_ok (table_no realtime) (w_cs w)"
    using inv r(1) by (auto simp: co_inv_def co_wf_def runs_ok_def run_ok_def)
  have "call_id (cs_tab (w_cs w) cp) AND CALLOUT_REALTIME \<noteq> 0 \<longleftrightarrow> realtime" using id_flag [OF q(2,1)] by (simp add: table_no_def)
  then show ?thesis using delete_running [OF inv r u] tb by (auto simp: untimeout_def table_of_def cs_def split: if_splits)
qed

text \<open>
  C33 (untimeout_waits). While another thread runs the function of a callout, cancelling the callout by
  its identifier does not return, be it the first thread to try or one of several: \<open>untimeout\<close> waits
  on the structure, and however often it is woken while the function runs, whatever else happens to
  the table meanwhile, it waits again. When the function has returned, the thread that ran it takes
  the callout out of the table and wakes all who wait, and the cancelling thread then returns; if
  the callout was set by an unsafe driver it takes the lock of the drivers again first.
\<close>

theorem untimeout_waits:
  assumes st: "steps co_step (co_start realtime) es w" and run: "w_runs w th = Some (cp, r)" "th \<noteq> self"
    and tb: "table_of realtime tb = w_cs w" and xid: "c_xid (cs_tab (w_cs w) cp) = xid" and u: "sole (w_cs w) cp"
  shows "\<exists>tb'. untimeout tb (xid AND CALLOUT_ID_MASK) self = (Wait_done cp xid, tb') \<and>
    self \<in> set (c_done (cs_tab (table_of realtime tb') cp)) \<and>
    (\<forall>es' w'. steps (staying th) (w\<lparr>w_cs := table_of realtime tb'\<rparr>) es' w' \<longrightarrow>
      (\<exists>cs1. callout_delete_again (w_cs w') cp xid self = (Wait_done cp xid, cs1)) \<and>
      (\<exists>out cs''. callout_return (w_cs w') th cp r = Some (out, cs'') \<and> c_done (cs_tab cs'' cp) = [] \<and>
        callout_delete_again cs'' cp xid self = (if drops_driver xid then Relock else Bogus, cs'')))"
proof -
  let ?t = "table_no realtime" and ?cid = "xid AND CALLOUT_ID_MASK"
  let ?cs = "upd_callout (w_cs w) cp (\<lambda>c. c\<lparr>c_done := c_done c @ [self]\<rparr>)"
  let ?tb = "if realtime then tb\<lparr>rt_callout := ?cs\<rparr> else tb\<lparr>callout_normal := ?cs\<rparr>"
  have inv: "co_inv ?t w" by (rule reach_inv [OF st])
  have q: "executing (cs_tab (w_cs w) cp)" using inv run(1) by (auto simp: co_inv_def runs_ok_def run_ok_def)
  have c: "call_id (cs_tab (w_cs w) cp) = ?cid" using xid by (simp add: call_id_def)
  have d: "untimeout tb ?cid self = (Wait_done cp xid, ?tb)" using untimeout_running [OF inv run u tb] unfolding c xid .
  have tab: "table_of realtime ?tb = ?cs" by (simp add: table_of_def)
  have inv': "co_inv ?t (w\<lparr>w_cs := ?cs\<rparr>)" using wait_step [OF inv refl] by simp
  have nz: "xid \<noteq> 0" using q xid by (auto simp: executing_def)
  have "(\<exists>cs1. callout_delete_again (w_cs w') cp xid self = (Wait_done cp xid, cs1)) \<and>
      (\<exists>out cs''. callout_return (w_cs w') th cp r = Some (out, cs'') \<and> c_done (cs_tab cs'' cp) = [] \<and>
        callout_delete_again cs'' cp xid self = (if drops_driver xid then Relock else Bogus, cs''))"
    if "steps (staying th) (w\<lparr>w_cs := ?cs\<rparr>) es' w'" for es' w'
  proof -
    have i: "co_inv ?t w'" "w_runs w' th = Some (cp, r)" "c_xid (cs_tab (w_cs w') cp) = xid"
      using staying_steps [OF that inv'] run(1) xid by simp_all
    obtain out cs'' where o: "callout_return (w_cs w') th cp r = Some (out, cs'')" "c_done (cs_tab cs'' cp) = []" "c_xid (cs_tab cs'' cp) = 0"
      using return_wakes [OF i(1,2)] by blast
    then have "callout_delete_again cs'' cp xid self = (if drops_driver xid then Relock else Bogus, cs'')"
      using nz by (simp add: callout_delete_again_def)
    then show ?thesis using i(3) o by (simp add: callout_delete_again_def)
  qed
  then show ?thesis using d tab by (intro exI [of _ ?tb]) simp
qed

text \<open>Two threads cancel the callout while its function runs, and both wait.\<close>

theorem untimeout_waits_witness:
  "\<exists>es w tb1 tb2 xid. steps co_step (co_start True) es w \<and> w_runs w 0 = Some (0, 1) \<and>
    untimeout \<lparr>callout_normal = fst callout_init, rt_callout = w_cs w\<rparr> (xid AND CALLOUT_ID_MASK) 3 = (Wait_done 0 xid, tb1) \<and>
    untimeout tb1 (xid AND CALLOUT_ID_MASK) 4 = (Wait_done 0 xid, tb2) \<and>
    3 \<in> set (c_done (cs_tab (rt_callout tb2) 0)) \<and> 4 \<in> set (c_done (cs_tab (rt_callout tb2) 0)) \<and>
    (\<exists>out cs''. callout_return (rt_callout tb2) 0 0 1 = Some (out, cs'') \<and> c_done (cs_tab cs'' 0) = [])"
proof -
  obtain w w' cid where s: "steps co_step (co_start True) [Armed 0 cid 7 9 1 1, Ticked, Silent] w" "co_step w (Fired 0 7 9 1) w'"
    "w_runs w' = [0 \<mapsto> (0, 1)]" "pend (w_cs w') = (\<lambda>_. None)"
    using first_history [of True] by blast
  note st = steps_snoc [OF s(1,2)]
  let ?tb = "\<lparr>callout_normal = fst callout_init, rt_callout = w_cs w'\<rparr>" and ?xid = "c_xid (cs_tab (w_cs w') 0)"
  let ?w = "w'\<lparr>w_cs := upd_callout (w_cs w') 0 (\<lambda>c. c\<lparr>c_done := c_done c @ [3]\<rparr>)\<rparr>"
  have inv: "co_inv 2 w'" using reach_inv [OF st] by (simp add: table_no_def)
  have "x = 0" if "queued (w_cs w') x" for x
  proof -
    have "pend (w_cs w') x = None" using s(4) by simp
    then have "executing (cs_tab (w_cs w') x)" using that by (simp add: pend_def Let_def split: if_splits)
    then show ?thesis using that inv s(3) by (auto simp: co_inv_def runs_ok_def split: if_splits)
  qed
  then have u: "sole (w_cs w') 0" by (simp add: sole_def)
  have r: "w_runs w' 0 = Some (0, 1)" "0 \<noteq> (3 :: nat)" "0 \<noteq> (4 :: nat)" using s(3) by simp_all
  have st2: "steps co_step (co_start True) ([Armed 0 cid 7 9 1 1, Ticked, Silent] @ [Fired 0 7 9 1] @ [Silent]) ?w"
    using steps_snoc [OF st co_step.Delete_not [OF delete_running [OF inv r(1,2) u]]] by simp
  have u2: "sole (w_cs ?w) 0" using u by (simp add: sole_def queued_def call_id_def)
  have inv2: "co_inv 2 ?w" using reach_inv [OF st2] by (simp add: table_no_def)
  note e = untimeout_running [of True, unfolded table_no_def, simplified]
  obtain tb1 where 1: "untimeout ?tb (?xid AND CALLOUT_ID_MASK) 3 = (Wait_done 0 ?xid, tb1)"
    using untimeout_waits [OF st r(1,2) _ refl u, of ?tb] by (auto simp: table_of_def)
  have tb1: "table_of True tb1 = w_cs ?w"
    using 1 e [OF inv r(1,2) u, of ?tb] by (simp add: table_of_def call_id_def)
  obtain tb2 where 2: "untimeout tb1 (?xid AND CALLOUT_ID_MASK) 4 = (Wait_done 0 ?xid, tb2)"
    "4 \<in> set (c_done (cs_tab (table_of True tb2) 0))"
    "\<exists>out cs''. callout_return (table_of True tb2) 0 0 1 = Some (out, cs'') \<and> c_done (cs_tab cs'' 0) = []"
    using untimeout_waits [OF st2 _ r(3) tb1 _ u2, of 1 ?xid] r(1) steps_Nil by fastforce
  have "3 \<in> set (c_done (cs_tab (table_of True tb2) 0))"
    using 2(1) e [OF inv2 _ r(3) u2 tb1] r(1) by (auto simp: table_of_def call_id_def)
  then have "3 \<in> set (c_done (cs_tab (rt_callout tb2) 0))" by (simp add: table_of_def)
  moreover have "4 \<in> set (c_done (cs_tab (rt_callout tb2) 0))"
    "\<exists>out cs''. callout_return (rt_callout tb2) 0 0 1 = Some (out, cs'') \<and> c_done (cs_tab cs'' 0) = []"
    using 2(2,3) by (simp_all add: table_of_def)
  ultimately show ?thesis using st 1 2(1) r(1) by blast
qed

lemma insert_delete:
  assumes wf: "co_wf t cs" and n: "cs_freelist cs = [] \<longrightarrow> cs_ncallout cs + 1 \<noteq> 0" and cur: "sint (cs_curtime cs) \<le> sint lbolt"
    and i: "callout_insert cs lbolt unsafe mem func arg delta = Ret (cid, cs')"
  shows "cid AND CALLOUT_REALTIME \<noteq> 0 \<longleftrightarrow> t = 2" "cid \<noteq> 0"
    "\<exists>l cs''. callout_delete cs' cid self = (Time_left l, cs'') \<and> pend cs'' = pend cs \<and>
      sint l = clamped (sint lbolt) (sint (cs_curtime cs)) (sint delta) - sint (cs_curtime cs)"
proof -
  have room: "cs_freelist cs = [] \<longrightarrow> mem \<and> cs_ncallout cs + 1 \<noteq> 0"
    using i n by (auto simp: callout_insert_def callout_alloc_def split: if_splits)
  have t: "t = 1 \<or> t = 2" and l: "lists_ok t cs" and m: "times_ok cs" using wf by (auto simp: co_wf_def lists_ok_def)
  obtain cp cs0 long c cid' rt where e: "callout_insert cs lbolt unsafe mem func arg delta = Ret (cid', enter cs0 cp long cid' c)"
      "rt = callout_runtime lbolt (cs_curtime cs) delta" "cid' = new_id cs rt" "c_runtime c = rt" "\<not> executing c" "call_id c = cid'"
      "co_wf t cs0" "same_queue cs cs0" "\<not> queued cs0 cp" "co_wf t (enter cs0 cp long cid' c)"
    using insert_effect [OF wf room, of lbolt unsafe func arg delta] by metis
  have c: "cid' = cid" "cs' = enter cs0 cp long cid c" using e(1) i by simp_all
  have ok: "id_ok (2 * t) (bucket_of rt) cid \<or> id_ok (2 * t + 1) (bucket_of rt) cid"
    using new_id_ok [OF l, of rt] e(3) c(1) by (simp split: if_splits)
  note r = id_realtime [OF ok t]
  show "cid AND CALLOUT_REALTIME \<noteq> 0 \<longleftrightarrow> t = 2" "cid \<noteq> 0" by (rule r)+
  have len: "length (cs_bucket cs0) = 256" using e(7) by (simp add: co_wf_def lists_ok_def)
  have "b_list (cs_bucket cs' ! bucket_of cid) = cp # b_elems cs0 (bucket_of rt)"
    using enter_bucket(1) [OF len, of "bucket_of rt"] c(2) r(2) e(4) by (simp add: b_elems_def)
  then have "find_id (cs_tab cs') cid (b_list (cs_bucket cs' ! bucket_of cid)) = Some ([], cp, b_elems cs0 (bucket_of rt))"
    using c e(6) by (simp add: call_id_def)
  then obtain tl cs'' where d: "callout_delete cs' cid self = (Time_left tl, cs'')" "hd (cs_freelist cs'') = cp"
    using c e(5) by (simp add: callout_delete_def executing_def Let_def)
  have wf': "co_wf t cs'" using e(10) c by simp
  obtain cp' f a rt' where p: "pend cs' cp' = Some (cid, f, a, rt')" "sint tl = max 0 (sint rt' - sint (cs_curtime cs'))" "cs'' = release cs' cp' (\<lambda>c. c)"
    using delete_effect [OF wf' d(1)] by (auto simp: delete_post_def)
  have cp: "cp' = cp" using p(3) d(2) by simp
  have "pend cs' = (pend cs)(cp \<mapsto> (cid, c_func c, c_arg c, rt))"
    unfolding c(2) enter_pend [OF e(7,9,5)] using e(4,6) c(1) same_queue_pend [OF e(8)] by simp
  moreover have "pend cs cp = None" using e(8,9) by (simp add: pend_def same_queue_def)
  ultimately have "pend cs'' = pend cs" "rt' = rt" using p cp release_pend [OF wf'] by (auto simp: fun_eq_iff)
  moreover have "sint rt = clamped (sint lbolt) (sint (cs_curtime cs)) (sint delta)"
    unfolding e(2) using m cur by (intro runtime_clamped) (simp_all add: times_ok_def)
  moreover have "cs_curtime cs' = cs_curtime cs" using c(2) e(8) by (simp add: same_queue_def)
  ultimately show "\<exists>l cs''. callout_delete cs' cid self = (Time_left l, cs'') \<and> pend cs'' = pend cs \<and>
      sint l = clamped (sint lbolt) (sint (cs_curtime cs)) (sint delta) - sint (cs_curtime cs)"
    using d(1) p(2) by (auto simp: clamped_def)
qed

text \<open>
  C34 (timeout_untimeout). Setting a timeout in either table and cancelling it by its identifier leaves the
  pending callouts of both tables as they were. The identifier is not zero and leads to the right
  table, and the result is the number of ticks that are left: the delay counted from the time the
  table has seen, at least one tick, with the sum of clock and delay cut off at the largest value.
\<close>

theorem timeout_untimeout:
  assumes "co_wf (table_no realtime) (table_of realtime tb)" "sint (cs_curtime (table_of realtime tb)) \<le> sint lbolt"
    "cs_freelist (table_of realtime tb) = [] \<longrightarrow> cs_ncallout (table_of realtime tb) + 1 \<noteq> 0"
    "set_timeout realtime tb lbolt unsafe mem func arg delta = Ret (cid, tb')"
  shows "\<exists>l tb''. untimeout tb' cid self = (Time_left l, tb'') \<and> cid \<noteq> 0 \<and>
    sint l = max (sint (cs_curtime (table_of realtime tb)) + 1) (min (sint lbolt + sint delta) 2147483647) - sint (cs_curtime (table_of realtime tb)) \<and>
    pend (table_of realtime tb'') = pend (table_of realtime tb) \<and> table_of (\<not> realtime) tb'' = table_of (\<not> realtime) tb"
proof -
  obtain cs' where i: "callout_insert (table_of realtime tb) lbolt unsafe mem func arg delta = Ret (cid, cs')"
      "tb' = (if realtime then tb\<lparr>rt_callout := cs'\<rparr> else tb\<lparr>callout_normal := cs'\<rparr>)"
    using assms(4) by (auto simp: set_timeout_def timeout_def realtime_timeout_def table_of_def split: if_splits)
  note d = insert_delete [OF assms(1,3,2) i(1)]
  obtain l cs'' where x: "callout_delete cs' cid self = (Time_left l, cs'')" "pend cs'' = pend (table_of realtime tb)"
      "sint l = clamped (sint lbolt) (sint (cs_curtime (table_of realtime tb))) (sint delta) - sint (cs_curtime (table_of realtime tb))"
    using d(3) by blast
  have "cid AND CALLOUT_REALTIME \<noteq> 0 \<longleftrightarrow> realtime" using d(1) by (simp add: table_no_def)
  then show ?thesis using x i(2) d(2) by (auto simp: untimeout_def table_of_def clamped_def)
qed


theorem timeout_untimeout_witness:
  "\<exists>cid tb' tb''. set_timeout False \<lparr>callout_normal = fst callout_init, rt_callout = snd callout_init\<rparr> 0 False True 7 9 1 = Ret (cid, tb') \<and>
     untimeout tb' cid 3 = (Time_left 1, tb'')"
proof -
  let ?tb = "\<lparr>callout_normal = fst callout_init, rt_callout = snd callout_init\<rparr>"
  have s: "table_of False ?tb = w_cs (co_start False)" by (simp add: table_of_def co_start_def)
  have f: "cs_freelist (w_cs (co_start False)) = []" "cs_ncallout (w_cs (co_start False)) = 0" "cs_curtime (w_cs (co_start False)) = 0"
    by (simp_all add: co_start_def callout_init_def callout_setup_def zero_state_def)
  have w: "co_wf (table_no False) (w_cs (co_start False))" using co_start_inv(1) by (simp add: co_inv_def)
  obtain cid cs where "callout_insert (w_cs (co_start False)) 0 False True 7 9 1 = Ret (cid, cs)" using first_insert by blast
  then have i: "set_timeout False ?tb 0 False True 7 9 1 = Ret (cid, ?tb\<lparr>callout_normal := cs\<rparr>)"
    by (simp add: set_timeout_def timeout_def co_start_def)
  obtain l tb'' where u: "untimeout (?tb\<lparr>callout_normal := cs\<rparr>) cid 3 = (Time_left l, tb'')" "sint l = 1"
    using timeout_untimeout [where self = 3 and tb = ?tb and realtime = False and lbolt = 0 and delta = 1, unfolded s, OF w _ _ i] f by auto
  have "l = 1" using u(2) sint_eq_iff [of l 1] by simp
  then show ?thesis using i u(1) by (intro exI conjI) simp_all
qed

section \<open>Suspend and resume\<close>

lemma move_all_rev: "move_all xs ys = rev xs @ ys"
  by (induction xs arbitrary: ys) auto

lemma save_fields:
  assumes "lists_ok t cs" "callout_save cs = (ocs, cs1)"
  shows "ocs = cs" "cs_tab cs1 = cs_tab cs" "cs_freelist cs1 = cs_freelist cs" "cs_ncallout cs1 = cs_ncallout cs" "cs_curtime cs1 = cs_curtime cs"
    "cs_runtime cs1 = cs_runtime cs" "length (cs_bucket cs1) = 256"
    "i < 256 \<Longrightarrow> b_elems cs1 i = [] \<and> b_short_id (cs_bucket cs1 ! i) = b_short_id (cs_bucket cs ! i) \<and> b_long_id (cs_bucket cs1 ! i) = b_long_id (cs_bucket cs ! i)"
  using assms by (auto simp: callout_save_def lists_ok_def b_elems_def)

lemma save_wf:
  assumes "co_wf t cs" "callout_save cs = (ocs, cs1)"
  shows "co_wf t cs1"
proof -
  have l: "lists_ok t cs" and m: "times_ok cs" using assms(1) by (simp_all add: co_wf_def)
  note f = save_fields [OF l assms(2)]
  have q: "\<not> queued cs1 x" for x using f(8) [OF bucket_of_less] by (simp add: queued_def)
  have "lists_ok t cs1" using l f(8) q unfolding lists_ok_def by (auto simp: f)
  moreover have "times_ok cs1" using m q by (simp add: times_ok_def f)
  ultimately show ?thesis by (simp add: co_wf_def)
qed

lemma get_struct_frame:
  assumes "get_struct cs mem = Ret (cp, cs0)"
  shows "x \<noteq> cp \<Longrightarrow> cs_tab cs0 x = cs_tab cs x" "cp \<in> set (cs_freelist cs) \<or> cp = unat (cs_ncallout cs)"
    "set (cs_freelist cs0) \<subseteq> set (cs_freelist cs)" "cs_ncallout cs + 1 \<noteq> 0 \<Longrightarrow> unat (cs_ncallout cs) \<le> unat (cs_ncallout cs0)"
  using assms by (auto simp: get_struct_def callout_alloc_def Let_def unatSuc add.commute [of _ 1] split: list.splits if_splits)

text \<open>A thread that was calling a function when the table was saved does not find its structure again.\<close>

lemma return_after_save:
  assumes "lists_ok t cs" "callout_save cs = (ocs, cs1)"
  shows "callout_return cs1 th cp r = None"
  using save_fields(8) [OF assms bucket_of_less] by (simp add: callout_return_def b_elems_def)

text \<open>The table after an insertion between suspend and resume.\<close>

lemma restore_wf:
  assumes wf: "co_wf t cs" and n: "cs_ncallout cs + 1 \<noteq> 0" and sv: "callout_save cs = (ocs, cs1)"
    and i: "callout_insert cs1 lbolt unsafe True func arg delta = Ret (cid, cs2)"
  defines "rt \<equiv> callout_runtime lbolt (cs_curtime cs) delta"
  shows "co_wf t (callout_restore cs2 ocs)" "\<exists>cp. pend (callout_restore cs2 ocs) cp = Some (cid, func, arg, rt)"
    "new_id (callout_restore cs2 ocs) rt = cid" "cs_curtime (callout_restore cs2 ocs) = cs_curtime cs"
proof -
  have l: "lists_ok t cs" and m: "times_ok cs" using wf by (simp_all add: co_wf_def)
  note f = save_fields [OF l sv] and wf1 = save_wf [OF wf sv]
  have room: "cs_freelist cs1 = [] \<longrightarrow> True \<and> cs_ncallout cs1 + 1 \<noteq> 0" using n f by simp
  obtain cp cs0 long c cid' rt' where e: "get_struct cs1 True = Ret (cp, cs0)"
      "callout_insert cs1 lbolt unsafe True func arg delta = Ret (cid', enter cs0 cp long cid' c)"
      "rt' = callout_runtime lbolt (cs_curtime cs1) delta" "cid' = new_id cs1 rt'" "c_runtime c = rt'" "\<not> executing c" "call_id c = cid'" "c_func c = func" "c_arg c = arg"
      "co_wf t cs0" "same_queue cs1 cs0" "\<not> queued cs0 cp" "co_wf t (enter cs0 cp long cid' c)"
    using insert_effect [OF wf1 room, of lbolt unsafe func arg delta] by metis
  have c: "cid' = cid" "cs2 = enter cs0 cp long cid c" "rt' = rt" using e(2,3) i f(5) by (simp_all add: rt_def)
  let ?cs = "callout_restore cs2 ocs"
  show "cs_curtime ?cs = cs_curtime cs" using c(2) e(11) f by (simp add: callout_restore_def same_queue_def)
  have len: "length (cs_bucket cs0) = 256" "length (cs_bucket cs) = 256" and b0: "cs_bucket cs0 = cs_bucket cs1"
    using e(10,11) l by (simp_all add: co_wf_def lists_ok_def same_queue_def)
  have b: "b_elems ?cs j = (if j = bucket_of rt then cp # b_elems cs j else b_elems cs j)"
      "b_short_id (cs_bucket ?cs ! j) = b_short_id (cs_bucket cs ! j)" "b_long_id (cs_bucket ?cs ! j) = b_long_id (cs_bucket cs ! j)" if "j < 256" for j
  proof -
    have "b_elems cs0 j = []" using f(8) [OF that] b0 by (simp add: b_elems_def)
    then have "b_elems cs2 j = (if j = bucket_of rt then [cp] else [])" using enter_bucket(1) [OF len(1) that] c e(5) by auto
    moreover have "length (cs_bucket cs2) = 256" using len c(2) by simp
    ultimately have "cs_bucket ?cs ! j = (cs_bucket cs ! j)\<lparr>b_list := (if j = bucket_of rt then [cp] else []) @ b_elems cs j\<rparr>"
      using that len(2) f(1) by (simp add: callout_restore_def move_all_rev b_elems_def split: if_splits)
    then show "b_elems ?cs j = (if j = bucket_of rt then cp # b_elems cs j else b_elems cs j)"
      "b_short_id (cs_bucket ?cs ! j) = b_short_id (cs_bucket cs ! j)" "b_long_id (cs_bucket ?cs ! j) = b_long_id (cs_bucket cs ! j)"
      by (simp_all add: b_elems_def)
  qed
  show "new_id ?cs rt = cid"
    using c e(4) f(5) f(8) [OF bucket_of_less] b(2,3) [OF bucket_of_less] \<open>cs_curtime ?cs = cs_curtime cs\<close>
    by (auto simp: new_id_def Let_def split: if_splits)
  note g = get_struct_frame [OF e(1)]
  have nq: "\<not> queued cs cp" using g(2) l f(3,4) by (auto simp: lists_ok_def)
  have tab: "cs_tab ?cs = (cs_tab cs)(cp := c)" using g(1) c(2) f(2) by (auto simp: callout_restore_def fun_eq_iff)
  have q: "queued ?cs x \<longleftrightarrow> x = cp \<or> queued cs x" for x
    using nq e(5) c(3) by (auto simp: queued_def tab b)
  have o: "cs_freelist ?cs = cs_freelist cs0" "cs_ncallout ?cs = cs_ncallout cs0" "cs_runtime ?cs = cs_runtime cs" "length (cs_bucket ?cs) = 256"
    using c(2) f(1) len by (simp_all add: callout_restore_def)
  show "\<exists>cp. pend ?cs cp = Some (cid, func, arg, rt)"
    using q tab c e(5-9) by (intro exI [of _ cp]) (simp add: pend_eq_Some)
  have len: "lists_ok t (enter cs0 cp long cid c)" "queued (enter cs0 cp long cid c) cp"
    using e(13) enter_queued [OF _ e(12), of t] e(10) c(1) by (simp_all add: co_wf_def)
  then have new: "xid_ok t c" "cp < unat (cs_ncallout cs0)" "cp \<notin> set (cs_freelist cs0)" by (auto simp: lists_ok_def)
  have fl: "distinct (cs_freelist cs0)" "\<And>x. x \<in> set (cs_freelist cs0) \<Longrightarrow> x < unat (cs_ncallout cs0) \<and> \<not> queued cs x"
    using e(10) g(3) l f(3) by (auto simp: co_wf_def lists_ok_def)
  have le: "unat (cs_ncallout cs) \<le> unat (cs_ncallout cs0)" using g(4) n f(4) by simp
  have old: "xid_ok t (cs_tab cs x)" "x < unat (cs_ncallout cs0)" if "queued cs x" for x
    using that l le by (auto simp: lists_ok_def)
  have "cp \<notin> set (b_elems cs j)" if "j < 256" for j using nq in_bucket [OF l that] by simp
  then have "lists_ok t ?cs" unfolding lists_ok_def o q tab using l nq new fl old e(5) c(3) by (auto simp: b lists_ok_def)
  moreover have "sint (cs_curtime cs) < sint rt" unfolding rt_def using m by (intro runtime_later) (simp add: times_ok_def)
  then have "times_ok ?cs"
    using m nq e(5,6) c(3) unfolding times_ok_def o q tab by (auto simp: \<open>cs_curtime ?cs = cs_curtime cs\<close>)
  ultimately show "co_wf t ?cs" by (simp add: co_wf_def)
qed


lemma insert_id:
  assumes wf: "co_wf t cs" and n: "cs_ncallout cs + 1 \<noteq> 0"
    and i: "callout_insert cs lbolt unsafe True func arg delta = Ret (cid, cs')"
  defines "rt \<equiv> callout_runtime lbolt (cs_curtime cs) delta"
  shows "cid = new_id cs rt" "\<exists>cp. pend cs cp = None \<and> pend cs' = (pend cs)(cp \<mapsto> (cid, func, arg, rt))"
proof -
  have room: "cs_freelist cs = [] \<longrightarrow> True \<and> cs_ncallout cs + 1 \<noteq> 0" using n by simp
  obtain cp cs0 long c cid' rt' where e: "callout_insert cs lbolt unsafe True func arg delta = Ret (cid', enter cs0 cp long cid' c)"
      "rt' = callout_runtime lbolt (cs_curtime cs) delta" "cid' = new_id cs rt'" "c_runtime c = rt'" "\<not> executing c" "call_id c = cid'" "c_func c = func" "c_arg c = arg"
      "co_wf t cs0" "same_queue cs cs0" "\<not> queued cs0 cp"
    using insert_effect [OF wf room, of lbolt unsafe func arg delta] by metis
  then show "cid = new_id cs rt" using i by (simp add: rt_def)
  have "pend cs cp = None" using e(10,11) by (simp add: pend_def same_queue_def)
  moreover have "pend cs' = (pend cs)(cp \<mapsto> (cid, func, arg, rt))"
    using enter_pend [OF e(9,11,5)] e i same_queue_pend [OF e(10)] by (simp add: rt_def)
  ultimately show "\<exists>cp. pend cs cp = None \<and> pend cs' = (pend cs)(cp \<mapsto> (cid, func, arg, rt))" by blast
qed

text \<open>
  C36 (callout_restore_reissues). \<open>callout_restore\<close> copies the saved bucket heads back, and with them the
  counters of identifiers from before the suspend. A callout set while the system was suspended is
  kept, but the next one for the same bucket gets its identifier again, so both are pending under it,
  and cancelling the first one by its identifier cancels the second one instead.
\<close>

theorem callout_restore_reissues:
  assumes wf: "co_wf t cs" and n: "cs_ncallout cs + 1 \<noteq> 0" and cur: "sint (cs_curtime cs) \<le> sint lbolt"
    and sv: "callout_save cs = (ocs, cs1)" and i1: "callout_insert cs1 lbolt unsafe True func arg delta = Ret (cid, cs2)"
    and n2: "cs_ncallout cs2 + 1 \<noteq> 0"
    and i2: "callout_insert (callout_restore cs2 ocs) lbolt unsafe' True func' arg' delta = Ret (cid', cs3)"
  shows "cid' = cid \<and> (\<exists>cp cp' rt l cs4. cp \<noteq> cp' \<and> pend cs3 cp = Some (cid, func, arg, rt) \<and> pend cs3 cp' = Some (cid, func', arg', rt) \<and>
    callout_delete cs3 cid self = (Time_left l, cs4) \<and> pend cs4 cp = Some (cid, func, arg, rt) \<and> pend cs4 cp' = None)"
proof -
  let ?cs = "callout_restore cs2 ocs" and ?rt = "callout_runtime lbolt (cs_curtime cs) delta"
  note r = restore_wf [OF wf n sv i1]
  have n3: "cs_ncallout ?cs + 1 \<noteq> 0" using n2 by (simp add: callout_restore_def)
  note d = insert_id [OF r(1) n3 i2]
  have same: "cid' = cid" using d(1) r(3,4) by simp
  obtain cp where cp: "pend ?cs cp = Some (cid, func, arg, ?rt)" using r(2) by blast
  obtain cp' where cp': "pend ?cs cp' = None" "pend cs3 = (pend ?cs)(cp' \<mapsto> (cid, func', arg', ?rt))" using d(2) same r(4) by auto
  have ne: "cp \<noteq> cp'" using cp cp'(1) by auto
  obtain l cs4 where "callout_delete cs3 cid self = (Time_left l, cs4)" "pend cs4 = pend ?cs"
    using insert_delete(3) [OF r(1) _ _ i2, of self] n3 cur r(4) same by auto
  then show ?thesis using same ne cp cp' by (intro conjI exI [of _ cp] exI [of _ cp'] exI [of _ ?rt] exI [of _ l] exI [of _ cs4]) simp_all
qed


theorem callout_restore_reissues_witness:
  "\<exists>cs1 cs2 cs3 cs4 cid l. callout_save (fst callout_init) = (fst callout_init, cs1) \<and> callout_insert cs1 0 False True 7 9 1 = Ret (cid, cs2) \<and>
     callout_insert (callout_restore cs2 (fst callout_init)) 0 False True 8 9 1 = Ret (cid, cs3) \<and> callout_delete cs3 cid 3 = (Time_left l, cs4)"
proof -
  let ?cs = "fst callout_init"
  have st: "?cs = w_cs (co_start False)" by (simp add: co_start_def)
  have wf: "co_wf 1 ?cs" using co_start_inv(1) [of False] by (simp add: st co_inv_def table_no_def)
  have f: "cs_ncallout ?cs = 0" "cs_curtime ?cs = 0" "cs_freelist ?cs = []" by (simp_all add: callout_init_def callout_setup_def zero_state_def)
  obtain cs1 where sv: "callout_save ?cs = (?cs, cs1)" by (simp add: callout_save_def)
  have f1: "cs_ncallout cs1 = 0" "cs_freelist cs1 = []" using save_fields [OF _ sv, of 1] wf f by (simp_all add: co_wf_def)
  obtain cs0 where g: "get_struct cs1 True = Ret (0, cs0)" "cs_ncallout cs0 = 1" using f1 by (simp add: get_struct_def callout_alloc_def)
  obtain cid cs2 where i1: "callout_insert cs1 0 False True 7 9 1 = Ret (cid, cs2)" "cs_ncallout cs2 = 1"
    using insert_enter [OF g(1), of 0 False 7 9 1] g(2) by (simp add: Let_def)
  have wf2: "co_wf 1 (callout_restore cs2 ?cs)" by (rule restore_wf(1) [OF wf _ sv i1(1)]) (simp add: f)
  have room: "cs_freelist (callout_restore cs2 ?cs) = [] \<longrightarrow> True \<and> cs_ncallout (callout_restore cs2 ?cs) + 1 \<noteq> 0"
    using i1(2) by (simp add: callout_restore_def)
  obtain cid' cs3 where i2: "callout_insert (callout_restore cs2 ?cs) 0 False True 8 9 1 = Ret (cid', cs3)"
    using insert_effect [OF wf2 room, of 0 False 8 9 1] by metis
  show ?thesis using callout_restore_reissues [OF wf _ _ sv i1(1) _ i2, of 3] f i1 i2 sv by (auto 0 4)
qed

end
