(* ===== verification/Timedwait.thy ===== *)
theory Timedwait
  imports Sleep Callout_Props
begin

text \<open>
  The timed waits of \<open>sparc/os/condvar.c\<close>, where condition variables and the callout table meet: a
  thread sets a realtime timeout that will make it run, goes to sleep on a condition variable, and
  cancels the timeout when it runs again. The clock ticks and callouts run between any two parts, so
  the timeout may come before the thread sleeps.
\<close>

section \<open>The parts of a timed wait\<close>

text \<open>As the function of a callout \<open>setrun\<close> has the number 1; its argument is the thread.\<close>

definition SETRUN :: nat where "SETRUN = 1"

definition cv_timedwait_set :: "callout_tables \<Rightarrow> int32 \<Rightarrow> bool \<Rightarrow> bool \<Rightarrow> nat \<Rightarrow> int32 \<Rightarrow> (int32 \<times> callout_tables) kres" where
  "cv_timedwait_set tb lbolt unsafe mem t delta = realtime_timeout tb lbolt unsafe mem SETRUN (word_of_nat t) delta"

text \<open>\<open>sig0\<close>: a signal is pending or the process is held, for \<open>cv_timedwait_sig\<close>.\<close>

definition cv_timedwait_check :: "sq_state \<Rightarrow> nat \<Rightarrow> int32 \<Rightarrow> int32 \<Rightarrow> bool \<Rightarrow> sq_state kres" where
  "cv_timedwait_check st t tim lbolt sig0 = (if sig0 \<or> sint tim \<le> sint lbolt then setrun st t else Ret st)"

text \<open>
  The value after \<open>untimeout\<close>: the ticks that are left, or -1 if none are or the timeout has come.
  \<open>None\<close>: the callout is being run by another thread, which is waited for.
\<close>

definition cv_timedwait_left :: "del_out \<Rightarrow> int32 option" where
  "cv_timedwait_left r = (case r of Time_left l \<Rightarrow> Some (if sint l \<le> 0 then - 1 else l) | Bogus \<Rightarrow> Some (- 1) | Wait_done cp xid \<Rightarrow> None | Relock \<Rightarrow> None)"

text \<open>
  How the first part ends, up to the switch to another thread: with a value, or with the number of the
  timeout and the second part to follow, of \<open>cv_timedwait\<close>, or of \<open>cv_timedwait_sig\<close> after a switch or
  without one.
\<close>

datatype tw_out = Tw_returned int32 | Tw_plain int32 | Tw_switched int32 | Tw_goes_on int32

record tw_state =
  tw_sq :: sq_state
  tw_tabs :: callout_tables

text \<open>
  \<open>l0\<close> to \<open>l3\<close> are the values of the clock where it is read: in the test, in the delay, in
  \<open>callout_insert\<close> and in the test behind \<open>cv_block\<close>.
\<close>

definition cv_timedwait :: "bool \<Rightarrow> tw_state \<Rightarrow> nat \<Rightarrow> int \<Rightarrow> ulong \<Rightarrow> int32 \<Rightarrow> int32 \<Rightarrow> int32 \<Rightarrow> int32 \<Rightarrow> int32 \<Rightarrow> bool \<Rightarrow> bool \<Rightarrow> (tw_out \<times> tw_state) kres" where
  "cv_timedwait panicstr w t kpri cvp tim l0 l1 l2 l3 unsafe mem =
    (if panicstr then Ret (Tw_returned 0, w)
     else if sint tim \<le> sint l0 then Ret (Tw_returned (- 1), w)
     else kbind (cv_timedwait_set (tw_tabs w) l2 unsafe mem t (tim - l1)) (\<lambda>(cid, tb).
       kbind (cv_timedwait_check (cv_block (tw_sq w) t kpri cvp) t tim l3 False) (\<lambda>st.
         Ret (Tw_plain cid, \<lparr>tw_sq = st, tw_tabs = tb\<rparr>))))"

text \<open>When the thread runs again.\<close>

definition cv_timedwait_wake :: "tw_state \<Rightarrow> int32 \<Rightarrow> nat \<Rightarrow> int32 option \<times> tw_state" where
  "cv_timedwait_wake w cid self = (case untimeout (tw_tabs w) cid self of (r, tb) \<Rightarrow> (cv_timedwait_left r, w\<lparr>tw_tabs := tb\<rparr>))"

text \<open>
  The variant that signals can end. A time that has passed is only a test for signals. \<open>dropped\<close>,
  \<open>sig1\<close>, \<open>sysabort\<close> and \<open>hold\<close> are as in \<open>cv_wait_sig\<close>.
\<close>

definition cv_timedwait_sig_value :: "int32 \<Rightarrow> bool \<Rightarrow> bool \<Rightarrow> bool \<Rightarrow> int32" where
  "cv_timedwait_sig_value ret_value sig1 sysabort hold =
    (let ret_value = (if sig1 then 0 else ret_value) in if sysabort \<or> hold then 0 else ret_value)"

definition cv_timedwait_sig :: "bool \<Rightarrow> tw_state \<Rightarrow> nat \<Rightarrow> int \<Rightarrow> ulong \<Rightarrow> int32 \<Rightarrow> int32 \<Rightarrow> int32 \<Rightarrow> int32 \<Rightarrow> int32 \<Rightarrow> bool \<Rightarrow> bool \<Rightarrow>
    bool \<Rightarrow> bool \<Rightarrow> bool \<Rightarrow> bool \<Rightarrow> bool \<Rightarrow> bool \<Rightarrow> (tw_out \<times> tw_state) kres" where
  "cv_timedwait_sig panicstr w t kpri cvp tim l0 l1 l2 l3 unsafe mem lwp dropped sig0 sig1 sysabort hold =
    (if panicstr then Ret (Tw_returned 1, w)
     else if \<not> lwp then cv_timedwait panicstr w t kpri cvp tim l0 l1 l2 l3 unsafe mem
     else if sint tim \<le> sint l0 then Ret (Tw_returned (cv_timedwait_sig_value (- 1) sig1 sysabort hold), w)
     else kbind (cv_timedwait_set (tw_tabs w) l2 unsafe mem t (tim - l1)) (\<lambda>(cid, tb).
       if dropped then Ret (Tw_goes_on cid, w\<lparr>tw_tabs := tb\<rparr>)
       else kbind (cv_timedwait_check (cv_block_sig (tw_sq w) t kpri cvp) t tim l3 sig0) (\<lambda>st.
         Ret (Tw_switched cid, \<lparr>tw_sq = st, tw_tabs = tb\<rparr>))))"

fun cv_timedwait_sig_wake :: "tw_out \<Rightarrow> tw_state \<Rightarrow> nat \<Rightarrow> bool \<Rightarrow> bool \<Rightarrow> bool \<Rightarrow> int32 option \<times> tw_state" where
  "cv_timedwait_sig_wake (Tw_returned v) w self sig1 sysabort hold = (Some v, w)"
| "cv_timedwait_sig_wake (Tw_plain cid) w self sig1 sysabort hold = cv_timedwait_wake w cid self"
| "cv_timedwait_sig_wake (Tw_switched cid) w self sig1 sysabort hold =
    (case cv_timedwait_wake (w\<lparr>tw_sq := set_wakeable False (tw_sq w) self\<rparr>) cid self of (r, w') \<Rightarrow>
       (map_option (\<lambda>v. cv_timedwait_sig_value v sig1 sysabort hold) r, w'))"
| "cv_timedwait_sig_wake (Tw_goes_on cid) w self sig1 sysabort hold =
    (case cv_timedwait_wake w cid self of (r, w') \<Rightarrow> (map_option (\<lambda>v. cv_timedwait_sig_value v sig1 sysabort hold) r, w'))"

section \<open>Results\<close>

text \<open>
  The delay is computed from an earlier reading of the clock than the one it is added to, so the
  timeout is set for the time asked for or later.
\<close>

lemma timed_clamped:
  fixes cur l1 l2 tim :: int32
  assumes "0 \<le> sint l1" "sint l1 \<le> sint l2" "0 \<le> sint tim"
  shows "sint (tim - l1) = sint tim - sint l1" "sint tim \<le> clamped (sint l2) (sint cur) (sint tim - sint l1)"
proof -
  have "sint tim < 2147483648" "sint l1 < 2147483648" using sint_in_range(2) [of tim] sint_in_range(2) [of l1] by simp_all
  then show "sint (tim - l1) = sint tim - sint l1" "sint tim \<le> clamped (sint l2) (sint cur) (sint tim - sint l1)"
    using assms by (simp_all add: sint32_sub clamped_def)
qed

text \<open>Cancelling a pending timeout of the realtime table.\<close>

lemma untimeout_pending:
  assumes wf: "co_wf 2 cs" and p: "pend cs cp = Some (cid, f, a, rt)" and u: "sole cs cp" and tb: "rt_callout tb = cs"
  shows "\<exists>l cs'. untimeout tb cid self = (Time_left l, tb\<lparr>rt_callout := cs'\<rparr>) \<and> pend cs' = (pend cs)(cp := None) \<and>
    sint l = max 0 (sint rt - sint (cs_curtime cs))"
proof -
  have q: "queued cs cp" "\<not> executing (cs_tab cs cp)" "call_id (cs_tab cs cp) = cid" using p by (simp_all add: pend_eq_Some)
  have one: "x = cp" if "queued cs x" "call_id (cs_tab cs x) = cid" for x using that u q(3) by (simp add: sole_def)
  obtain out cs' where d: "callout_delete cs cid self = (out, cs')" by fastforce
  have e: "delete_post cs cid self out cs'" by (rule delete_effect [OF wf d])
  have "lists_ok 2 cs" using wf by (simp add: co_wf_def)
  then have flag: "cid AND CALLOUT_REALTIME \<noteq> 0" using id_flag [of 2 cs cp] q by simp
  show ?thesis
  proof (cases out)
    case (Time_left l)
    then obtain x f' a' rt' where x: "pend cs x = Some (cid, f', a', rt')" "sint l = max 0 (sint rt' - sint (cs_curtime cs))" "cs' = release cs x (\<lambda>c. c)"
      using e by (auto simp: delete_post_def)
    then have "x = cp" using one by (simp add: pend_eq_Some)
    then have "rt' = rt" "pend cs' = (pend cs)(cp := None)" using x p release_pend [OF wf, of cp] by simp_all
    moreover have "untimeout tb cid self = (Time_left l, tb\<lparr>rt_callout := cs'\<rparr>)" using d Time_left flag tb by (simp add: untimeout_def)
    ultimately show ?thesis using x(2) by blast
  next
    case Bogus
    then have "(\<forall>x. queued cs x \<longrightarrow> call_id (cs_tab cs x) \<noteq> cid) \<or> (\<exists>x. queued cs x \<and> executing (cs_tab cs x) \<and> call_id (cs_tab cs x) = cid)"
      using e by (auto simp: delete_post_def)
    then show ?thesis using q one by blast
  next
    case (Wait_done x xid)
    then have "queued cs x" "executing (cs_tab cs x)" "call_id (cs_tab cs x) = cid" using e by (simp_all add: delete_post_def)
    then show ?thesis using q(2) one by blast
  qed (use e in \<open>simp add: delete_post_def\<close>)
qed

text \<open>The test behind \<open>cv_block\<close>.\<close>

lemma timed_check:
  assumes sq: "sq_wf ch st" "cvp \<noteq> 0" "\<not> ch cvp" "t_state (threads st t) \<noteq> TS_SLEEP" "length (waiters st cvp) < 65535"
  shows "\<exists>st'. cv_timedwait_check (cv_block st t kpri cvp) t tim l3 False = Ret st' \<and>
    (if sint l3 < sint tim then t \<in> set (waiters st' cvp) \<and> t_state (threads (cv_broadcast st' cvp) t) \<noteq> TS_SLEEP
     else t_state (threads st' t) \<noteq> TS_SLEEP)"
proof -
  let ?st = "cv_block st t kpri cvp"
  have b: "sq_wf ch ?st" "t \<in> set (waiters ?st cvp)" using cv_block_refines(1,2) [OF sq] by simp_all
  show ?thesis
  proof (cases "sint l3 < sint tim")
    case True
    then show ?thesis using b cv_broadcast_refines(4) [OF b(1) sq(2,3), of t] by (simp add: cv_timedwait_check_def)
  next
    case False
    then show ?thesis using setrun_refines [OF b(1), of t] by (auto simp: cv_timedwait_check_def)
  qed
qed

lemma steps_clock:
  assumes "steps co_step w es w'" "co_inv t w"
  shows "co_inv t w' \<and> sint (w_lbolt w') = sint (w_lbolt w) + ticks es"
  using assms
proof (induction rule: steps.induct)
  case (steps_snoc s es s' e s'')
  then have i: "co_inv t s'" "sint (w_lbolt s') = sint (w_lbolt s) + ticks es" by blast+
  have "now (co_view s'') = now (co_view s') + ticks [e]"
    using conjunct2 [OF co_step_sound [OF i(1) steps_snoc.hyps(2)]] by cases simp_all
  then show ?case using i co_step_sound [OF i(1) steps_snoc.hyps(2)] by (simp add: co_view_def)
qed simp

text \<open>
  C40 (cv_timedwait_left_over). A timed wait that begins before its time sets a timeout in the
  realtime table, for the time asked for or as much later as the clock moved on between the two
  readings that make the delay, and puts the thread to sleep on the condition variable unless the
  time has come meanwhile; a broadcast makes it run. However much the clock, the callouts and other
  threads have done by the time the thread runs again, as long as the timeout is still pending and
  no other callout has come to bear its identifier, the wait returns the ticks that are left from the
  time the table has seen by then to the time of the timeout, or -1 when none are left; the timeout
  is gone from the realtime table, its other timeouts and the normal table are untouched. A wait for a
  time that has passed returns -1 at once and changes nothing.
\<close>

theorem cv_timedwait_left_over:
  assumes sq: "sq_wf ch (tw_sq w)" "cvp \<noteq> 0" "\<not> ch cvp" "t_state (threads (tw_sq w) t) \<noteq> TS_SLEEP" "length (waiters (tw_sq w) cvp) < 65535"
    and co: "co_inv 2 c" "rt_callout (tw_tabs w) = w_cs c" "cs_ncallout (w_cs c) + 1 \<noteq> 0"
    and clk: "w_lbolt c = l2" "0 \<le> sint l0" "sint l0 \<le> sint l1" "sint l1 \<le> sint l2" "sint l2 \<le> sint l3"
  shows "if sint tim \<le> sint l0 then cv_timedwait False w t kpri cvp tim l0 l1 l2 l3 unsafe True = Ret (Tw_returned (- 1), w)
    else \<exists>cid w' cp rt. cv_timedwait False w t kpri cvp tim l0 l1 l2 l3 unsafe True = Ret (Tw_plain cid, w') \<and>
      pend (w_cs c) cp = None \<and> pend (rt_callout (tw_tabs w')) = (pend (w_cs c))(cp \<mapsto> (cid, SETRUN, word_of_nat t, rt)) \<and>
      co_inv 2 (c\<lparr>w_cs := rt_callout (tw_tabs w')\<rparr>) \<and> sint tim \<le> sint rt \<and> sint rt = clamped (sint l2) (sint (cs_curtime (w_cs c))) (sint tim - sint l1) \<and>
      (if sint l3 < sint tim then t \<in> set (waiters (tw_sq w') cvp) \<and> t_state (threads (cv_broadcast (tw_sq w') cvp) t) \<noteq> TS_SLEEP
       else t_state (threads (tw_sq w') t) \<noteq> TS_SLEEP) \<and>
      (\<forall>es c1 st1. steps co_step (c\<lparr>w_cs := rt_callout (tw_tabs w')\<rparr>) es c1 \<longrightarrow>
        pend (w_cs c1) cp = Some (cid, SETRUN, word_of_nat t, rt) \<longrightarrow> sole (w_cs c1) cp \<longrightarrow>
        (\<exists>l w''. cv_timedwait_wake \<lparr>tw_sq = st1, tw_tabs = (tw_tabs w')\<lparr>rt_callout := w_cs c1\<rparr>\<rparr> cid t = (Some l, w'') \<and>
          sint (w_lbolt c1) = sint l2 + ticks es \<and>
          sint l = (if sint (cs_curtime (w_cs c1)) < sint rt then sint rt - sint (cs_curtime (w_cs c1)) else - 1) \<and>
          pend (rt_callout (tw_tabs w'')) = (pend (w_cs c1))(cp := None) \<and>
          callout_normal (tw_tabs w'') = callout_normal (tw_tabs w) \<and> tw_sq w'' = st1))"
proof (cases "sint tim \<le> sint l0")
  case True
  then show ?thesis by (simp add: cv_timedwait_def)
next
  case False
  let ?rt = "w_cs c" and ?d = "tim - l1" and ?st = "cv_block (tw_sq w) t kpri cvp"
  let ?r = "callout_runtime l2 (cs_curtime ?rt) ?d"
  have wf: "co_wf 2 ?rt" and cur: "0 \<le> sint (cs_curtime ?rt)" "sint (cs_curtime ?rt) \<le> sint l2" "sint (cs_curtime ?rt) < 2147483647"
    using co(1) clk(1) by (simp_all add: co_inv_def co_wf_def times_ok_def)
  have tm: "sint ?d = sint tim - sint l1" "sint tim \<le> clamped (sint l2) (sint (cs_curtime ?rt)) (sint tim - sint l1)"
    using timed_clamped(1) [of l1 l2 tim] timed_clamped(2) [of l1 l2 tim "cs_curtime ?rt"] clk False by simp_all
  have r: "sint ?r = clamped (sint l2) (sint (cs_curtime ?rt)) (sint tim - sint l1)" using runtime_clamped [OF cur, of ?d] tm(1) by simp
  have room: "cs_freelist ?rt = [] \<longrightarrow> True \<and> cs_ncallout ?rt + 1 \<noteq> 0" using co(3) by simp
  obtain cp cs0 cid cs' where g: "get_struct ?rt True = Ret (cp, cs0)"
    and i: "callout_insert ?rt l2 unsafe True SETRUN (word_of_nat t) ?d = Ret (cid, cs')"
    using insert_effect [OF wf room, of l2 unsafe SETRUN "word_of_nat t" ?d] by metis
  have ins: "co_inv 2 (c\<lparr>w_cs := cs'\<rparr>)" "pend ?rt cp = None" "pend cs' = (pend ?rt)(cp \<mapsto> (cid, SETRUN, word_of_nat t, ?r))"
    using insert_step [OF co(1) g _ i [folded clk(1)]] co(3) clk(1) by simp_all
  obtain st' where st': "cv_timedwait_check ?st t tim l3 False = Ret st'"
    "if sint l3 < sint tim then t \<in> set (waiters st' cvp) \<and> t_state (threads (cv_broadcast st' cvp) t) \<noteq> TS_SLEEP
     else t_state (threads st' t) \<noteq> TS_SLEEP"
    using timed_check [OF sq] by blast
  let ?tb = "(tw_tabs w)\<lparr>rt_callout := cs'\<rparr>"
  let ?w = "\<lparr>tw_sq = st', tw_tabs = ?tb\<rparr>"
  have s: "cv_timedwait False w t kpri cvp tim l0 l1 l2 l3 unsafe True = Ret (Tw_plain cid, ?w)"
    using False i st'(1) co(2) by (simp add: cv_timedwait_def cv_timedwait_set_def realtime_timeout_def)
  have "\<exists>l w''. cv_timedwait_wake \<lparr>tw_sq = st1, tw_tabs = ?tb\<lparr>rt_callout := w_cs c1\<rparr>\<rparr> cid t = (Some l, w'') \<and>
      sint (w_lbolt c1) = sint l2 + ticks es \<and>
      sint l = (if sint (cs_curtime (w_cs c1)) < sint ?r then sint ?r - sint (cs_curtime (w_cs c1)) else - 1) \<and>
      pend (rt_callout (tw_tabs w'')) = (pend (w_cs c1))(cp := None) \<and>
      callout_normal (tw_tabs w'') = callout_normal (tw_tabs w) \<and> tw_sq w'' = st1"
    if h: "steps co_step (c\<lparr>w_cs := cs'\<rparr>) es c1" "pend (w_cs c1) cp = Some (cid, SETRUN, word_of_nat t, ?r)" "sole (w_cs c1) cp" for es c1 st1
  proof -
    have n: "co_inv 2 c1" "sint (w_lbolt c1) = sint l2 + ticks es" using steps_clock [OF h(1) ins(1)] clk(1) by simp_all
    have "co_wf 2 (w_cs c1)" using n(1) by (simp add: co_inv_def)
    then obtain l cs2 where d: "untimeout (?tb\<lparr>rt_callout := w_cs c1\<rparr>) cid t = (Time_left l, ?tb\<lparr>rt_callout := cs2\<rparr>)"
      "pend cs2 = (pend (w_cs c1))(cp := None)" "sint l = max 0 (sint ?r - sint (cs_curtime (w_cs c1)))"
      using untimeout_pending [OF _ h(2,3), of "?tb\<lparr>rt_callout := w_cs c1\<rparr>" t] by auto
    then show ?thesis using n(2) by (simp add: cv_timedwait_wake_def cv_timedwait_left_def)
  qed
  then show ?thesis unfolding if_not_P [OF False] using s ins tm(2) r st'(2)
    by (intro exI [of _ cid] exI [of _ ?w] exI [of _ cp] exI [of _ ?r]) simp
qed

definition tw_start :: tw_state where
  "tw_start = \<lparr>tw_sq = all_awake, tw_tabs = \<lparr>callout_normal = fst callout_init, rt_callout = snd callout_init\<rparr>\<rparr>"

lemma rt_start:
  "co_wf 2 (snd callout_init)" "cs_ncallout (snd callout_init) = 0" "cs_curtime (snd callout_init) = 0"
proof -
  have "snd callout_init = w_cs (co_start True)" by (simp add: co_start_def)
  then show "co_wf 2 (snd callout_init)" using co_start_inv(1) [of True] by (simp add: co_inv_def table_no_def)
  show "cs_ncallout (snd callout_init) = 0" "cs_curtime (snd callout_init) = 0"
    by (simp_all add: callout_init_def callout_setup_def zero_state_def)
qed

text \<open>Thread 4 waits for time 3; the clock ticks once, the table sees it, the thread is woken and returns 2.\<close>

theorem cv_timedwait_left_over_witness:
  "\<exists>cid w' c1 l w''. cv_timedwait False tw_start 4 50 64 3 0 0 0 0 False True = Ret (Tw_plain cid, w') \<and>
     t_state (threads (cv_broadcast (tw_sq w') 64) 4) \<noteq> TS_SLEEP \<and>
     steps co_step ((co_start True)\<lparr>w_cs := rt_callout (tw_tabs w')\<rparr>) [Ticked, Silent] c1 \<and>
     cv_timedwait_wake \<lparr>tw_sq = cv_broadcast (tw_sq w') 64, tw_tabs = (tw_tabs w')\<lparr>rt_callout := w_cs c1\<rparr>\<rparr> cid 4 = (Some l, w'') \<and> sint l = 2"
proof -
  let ?c = "co_start True"
  have st: "rt_callout (tw_tabs tw_start) = w_cs ?c" "w_lbolt ?c = 0" "w_cs ?c = snd callout_init" "w_runs ?c = (\<lambda>_. None)"
    by (simp_all add: tw_start_def co_start_def)
  have inv: "co_inv 2 ?c" using co_start_inv(1) [of True] by (simp add: table_no_def)
  have no: "pend (w_cs ?c) = (\<lambda>_. None)" using co_start_inv(2) [of True] by (simp add: co_view_def)
  have sq: "sq_wf chan128 (tw_sq tw_start)" "(64 :: ulong) \<noteq> 0" "\<not> chan128 64" "t_state (threads (tw_sq tw_start) 4) \<noteq> TS_SLEEP"
    "length (waiters (tw_sq tw_start) 64) < 65535"
    using all_awake_wf by (simp_all add: tw_start_def all_awake_def waiters_def)
  have n: "cs_ncallout (w_cs ?c) + 1 \<noteq> 0" "0 \<le> sint (0 :: int32)" "sint (0 :: int32) \<le> sint (0 :: int32)" "\<not> sint (3 :: int32) \<le> sint (0 :: int32)"
    using rt_start(2) st(3) by simp_all
  obtain cid w' cp rt where a: "cv_timedwait False tw_start 4 50 64 3 0 0 0 0 False True = Ret (Tw_plain cid, w')"
    "pend (rt_callout (tw_tabs w')) = (pend (w_cs ?c))(cp \<mapsto> (cid, SETRUN, word_of_nat 4, rt))"
    "sint rt = clamped (sint (0 :: int32)) (sint (cs_curtime (w_cs ?c))) (sint (3 :: int32) - sint (0 :: int32))"
    "co_inv 2 (?c\<lparr>w_cs := rt_callout (tw_tabs w')\<rparr>)"
    "if sint (0 :: int32) < sint (3 :: int32) then 4 \<in> set (waiters (tw_sq w') 64) \<and> t_state (threads (cv_broadcast (tw_sq w') 64) 4) \<noteq> TS_SLEEP
     else t_state (threads (tw_sq w') 4) \<noteq> TS_SLEEP"
    and wk: "\<And>es c1 st1. steps co_step (?c\<lparr>w_cs := rt_callout (tw_tabs w')\<rparr>) es c1 \<Longrightarrow>
        pend (w_cs c1) cp = Some (cid, SETRUN, word_of_nat 4, rt) \<Longrightarrow> sole (w_cs c1) cp \<Longrightarrow>
        \<exists>l w''. cv_timedwait_wake \<lparr>tw_sq = st1, tw_tabs = (tw_tabs w')\<lparr>rt_callout := w_cs c1\<rparr>\<rparr> cid 4 = (Some l, w'') \<and>
          sint l = (if sint (cs_curtime (w_cs c1)) < sint rt then sint rt - sint (cs_curtime (w_cs c1)) else - 1)"
    using cv_timedwait_left_over [OF sq inv st(1) n(1) st(2) n(2,3,3,3), of 3 50 False, unfolded if_not_P [OF n(4)]] by metis
  have rt: "sint rt = 3" "t_state (threads (cv_broadcast (tw_sq w') 64) 4) \<noteq> TS_SLEEP" using a(3,5) st(3) rt_start(3) by (simp_all add: clamped_def)
  let ?c0 = "?c\<lparr>w_cs := rt_callout (tw_tabs w')\<rparr>"
  let ?c1 = "?c0\<lparr>w_lbolt := 1\<rparr>"
  have s1: "co_step ?c0 Ticked ?c1" using co_step.Clock [of ?c0] st by simp
  have inv1: "co_inv 2 ?c1" using co_step_sound [OF a(4) s1] by simp
  then have "co_wf 2 (w_cs ?c1)" "sint (cs_curtime (w_cs ?c1)) \<le> sint (1 :: int32)" "sint (1 :: int32) < 2147483647" by (simp_all add: co_inv_def)
  then obtain out cs1 where d: "callout_schedule (w_cs ?c1) 1 = Some (out, cs1)" "sched_post 2 ((w_cs ?c1)\<lparr>cs_curtime := 1\<rparr>) out cs1"
    using schedule_total by blast
  let ?c2 = "?c1\<lparr>w_cs := cs1\<rparr>"
  have s2: "co_step ?c1 Silent ?c2" by (rule co_step.Schedule) (use d(1) in simp)
  have es: "steps co_step ?c0 [Ticked, Silent] ?c2" using steps_snoc [OF steps_one [where R = co_step, OF s1] s2] by simp
  have inv2: "co_inv 2 ?c2" using co_step_sound [OF inv1 s2] by simp
  have p: "pend cs1 = [cp \<mapsto> (cid, SETRUN, word_of_nat 4, rt)]" "cs_curtime cs1 = 1"
    using d(2) a(2) no by (simp_all add: sched_post_def pend_def)
  have "x = cp" if "queued cs1 x" for x
  proof -
    have "\<not> executing (cs_tab cs1 x)" using inv2 that st(4) by (auto simp: co_inv_def runs_ok_def)
    then have "pend cs1 x \<noteq> None" using that by (simp add: pend_def Let_def)
    then show ?thesis using p(1) by (auto split: if_splits)
  qed
  then have "sole (w_cs ?c2) cp" by (simp add: sole_def)
  then obtain l w'' where "cv_timedwait_wake \<lparr>tw_sq = cv_broadcast (tw_sq w') 64, tw_tabs = (tw_tabs w')\<lparr>rt_callout := w_cs ?c2\<rparr>\<rparr> cid 4 = (Some l, w'')" "sint l = 2"
    using wk [OF es, of "cv_broadcast (tw_sq w') 64"] p rt(1) by auto
  then show ?thesis using a(1) rt(2) es by blast
qed

section \<open>Timeouts are not lost\<close>

text \<open>
  The parts of a timed wait as steps, with the clock, callouts and other threads in between. \<open>tw_run\<close>
  has the callouts of \<open>setrun\<close> that were called and have not yet come to the sleep queue. The others
  may set and cancel timeouts of their own, signal, broadcast, wake up, sleep and send signals that make
  a thread run; nobody cancels the timeout of a wait but the waiting thread.
\<close>

datatype tw_phase = Tested int32 | Delay int32 int32 | Set_up nat int32 | Blocked nat int32 | Waiting nat int32

record tw_world =
  tw_co :: co_world
  tw_slp :: sq_state
  tw_wait :: "nat \<Rightarrow> tw_phase option"
  tw_run :: "(nat \<times> ulong) set"

inductive tw_step :: "(ulong \<Rightarrow> bool) \<Rightarrow> tw_world \<Rightarrow> tw_world \<Rightarrow> bool" for ch where
  Enter: "tw_wait w t = None \<Longrightarrow> t < 2 ^ 32 \<Longrightarrow> t_state (threads (tw_slp w) t) \<noteq> TS_SLEEP \<Longrightarrow> \<not> sint tim \<le> sint (w_lbolt (tw_co w)) \<Longrightarrow>
    tw_step ch w (w\<lparr>tw_wait := (tw_wait w)(t \<mapsto> Tested tim)\<rparr>)"
| Compute: "tw_wait w t = Some (Tested tim) \<Longrightarrow> tw_step ch w (w\<lparr>tw_wait := (tw_wait w)(t \<mapsto> Delay tim (tim - w_lbolt (tw_co w)))\<rparr>)"
| Set_timeout: "tw_wait w t = Some (Delay tim d) \<Longrightarrow> co_step (tw_co w) (Armed cp cid SETRUN (word_of_nat t) d rt) c' \<Longrightarrow>
    tw_step ch w (w\<lparr>tw_co := c', tw_wait := (tw_wait w)(t \<mapsto> Set_up cp tim)\<rparr>)"
| Block: "tw_wait w t = Some (Set_up cp tim) \<Longrightarrow> cvp \<noteq> 0 \<Longrightarrow> \<not> ch cvp \<Longrightarrow> length (waiters (tw_slp w) cvp) < 65535 \<Longrightarrow>
    block = cv_block \<or> block = cv_block_sig \<Longrightarrow>
    tw_step ch w (w\<lparr>tw_slp := block (tw_slp w) t kpri cvp, tw_wait := (tw_wait w)(t \<mapsto> Blocked cp tim)\<rparr>)"
| Go_on: "tw_wait w t = Some (Set_up cp tim) \<Longrightarrow> tw_step ch w (w\<lparr>tw_wait := (tw_wait w)(t \<mapsto> Waiting cp tim)\<rparr>)"
| Check: "tw_wait w t = Some (Blocked cp tim) \<Longrightarrow> cv_timedwait_check (tw_slp w) t tim (w_lbolt (tw_co w)) sig0 = Ret st' \<Longrightarrow>
    tw_step ch w (w\<lparr>tw_slp := st', tw_wait := (tw_wait w)(t \<mapsto> Waiting cp tim)\<rparr>)"
| Leave: "tw_wait w t = Some (Waiting cp tim) \<Longrightarrow> t_state (threads (tw_slp w) t) \<noteq> TS_SLEEP \<Longrightarrow> co_step (tw_co w) e c' \<Longrightarrow>
    (\<forall>k i. e = Cancelled k i \<longrightarrow> (\<exists>rt. armed (co_view (tw_co w)) k = Some (i, SETRUN, word_of_nat t, rt))) \<Longrightarrow>
    (\<forall>k f a rt. e \<noteq> Fired k f a rt) \<Longrightarrow> tw_step ch w (w\<lparr>tw_co := c', tw_wait := (tw_wait w)(t := None)\<rparr>)"
| Callouts: "co_step (tw_co w) e c' \<Longrightarrow>
    (\<forall>k i. e = Cancelled k i \<longrightarrow> (\<forall>a rt. armed (co_view (tw_co w)) k \<noteq> Some (i, SETRUN, a, rt))) \<Longrightarrow>
    (\<forall>k a rt. e \<noteq> Fired k SETRUN a rt) \<Longrightarrow> tw_step ch w (w\<lparr>tw_co := c'\<rparr>)"
| Timeout: "co_step (tw_co w) (Fired k SETRUN a rt) c' \<Longrightarrow> tw_step ch w (w\<lparr>tw_co := c', tw_run := insert (k, a) (tw_run w)\<rparr>)"
| Setrun: "(k, a) \<in> tw_run w \<Longrightarrow> setrun (tw_slp w) (unat a) = Ret st' \<Longrightarrow> tw_step ch w (w\<lparr>tw_slp := st', tw_run := tw_run w - {(k, a)}\<rparr>)"
| Signal: "cvp \<noteq> 0 \<Longrightarrow> \<not> ch cvp \<Longrightarrow> tw_step ch w (w\<lparr>tw_slp := cv_signal (tw_slp w) cvp\<rparr>)"
| Broadcast: "cvp \<noteq> 0 \<Longrightarrow> \<not> ch cvp \<Longrightarrow> tw_step ch w (w\<lparr>tw_slp := cv_broadcast (tw_slp w) cvp\<rparr>)"
| Wakeup: "chan \<noteq> 0 \<Longrightarrow> ch chan \<Longrightarrow> tw_step ch w (w\<lparr>tw_slp := wakeup (tw_slp w) chan\<rparr>)"
| Signalled: "setrun (tw_slp w) t = Ret st' \<Longrightarrow> tw_step ch w (w\<lparr>tw_slp := st'\<rparr>)"
| Sleep_other: "tw_wait w t = None \<Longrightarrow> cvp \<noteq> 0 \<Longrightarrow> \<not> ch cvp \<Longrightarrow> t_state (threads (tw_slp w) t) \<noteq> TS_SLEEP \<Longrightarrow>
    length (waiters (tw_slp w) cvp) < 65535 \<Longrightarrow> tw_step ch w (w\<lparr>tw_slp := cv_block (tw_slp w) t kpri cvp\<rparr>)"
| Sleep_chan: "tw_wait w t = None \<Longrightarrow> chan \<noteq> 0 \<Longrightarrow> ch chan \<Longrightarrow> t_state (threads (tw_slp w) t) \<noteq> TS_SLEEP \<Longrightarrow>
    tw_step ch w (w\<lparr>tw_slp := t_block_chan (tw_slp w) t kpri chan\<rparr>)"

text \<open>The timeout of a wait is to come: it is armed for the time or later, or has been called.\<close>

definition to_come :: "tw_world \<Rightarrow> nat \<Rightarrow> nat \<Rightarrow> int32 \<Rightarrow> bool" where
  "to_come w t cp tim \<longleftrightarrow> (\<exists>i rt. armed (co_view (tw_co w)) cp = Some (i, SETRUN, word_of_nat t, rt) \<and> sint tim \<le> sint rt) \<or>
     (cp, word_of_nat t) \<in> tw_run w \<and> sint tim \<le> sint (w_lbolt (tw_co w))"

fun phase_ok :: "tw_world \<Rightarrow> nat \<Rightarrow> tw_phase \<Rightarrow> bool" where
  "phase_ok w t (Tested tim) \<longleftrightarrow> t_state (threads (tw_slp w) t) \<noteq> TS_SLEEP \<and> 0 \<le> sint tim"
| "phase_ok w t (Delay tim d) \<longleftrightarrow> t_state (threads (tw_slp w) t) \<noteq> TS_SLEEP \<and>
     (\<exists>l. sint d = sint tim - l \<and> 0 \<le> l \<and> l \<le> sint (w_lbolt (tw_co w)))"
| "phase_ok w t (Set_up cp tim) \<longleftrightarrow> t_state (threads (tw_slp w) t) \<noteq> TS_SLEEP \<and> (to_come w t cp tim \<or> sint tim \<le> sint (w_lbolt (tw_co w)))"
| "phase_ok w t (Blocked cp tim) \<longleftrightarrow> to_come w t cp tim \<or> sint tim \<le> sint (w_lbolt (tw_co w))"
| "phase_ok w t (Waiting cp tim) \<longleftrightarrow> t_state (threads (tw_slp w) t) = TS_SLEEP \<longrightarrow> to_come w t cp tim"

definition tw_inv :: "(ulong \<Rightarrow> bool) \<Rightarrow> tw_world \<Rightarrow> bool" where
  "tw_inv ch w \<longleftrightarrow> co_inv 2 (tw_co w) \<and> sq_wf ch (tw_slp w) \<and> (\<forall>t p. tw_wait w t = Some p \<longrightarrow> t < 2 ^ 32 \<and> phase_ok w t p)"


lemma unat_thread: "t < 2 ^ 32 \<Longrightarrow> unat (word_of_nat t :: ulong) = t"
  by (rule unat_of_nat_small) simp

lemma word_of_nat_thread:
  assumes "t < 2 ^ 32" "t' < 2 ^ 32" "(word_of_nat t :: ulong) = word_of_nat t'"
  shows "t = t'"
  using unat_thread [OF assms(1)] unat_thread [OF assms(2)] unfolding assms(3) by (rule trans [OF sym])

lemma setrun_keeps:
  assumes "sq_wf ch st" "setrun st t = Ret st'"
  shows "sq_wf ch st'" "t_state (threads st' t) \<noteq> TS_SLEEP" "\<And>x. x \<noteq> t \<Longrightarrow> threads st' x = threads st x"
  using setrun_refines [OF assms(1), of t] assms(2) by auto

lemma block_others:
  "x \<noteq> t \<Longrightarrow> threads (cv_block st t kpri c) x = threads st x" "x \<noteq> t \<Longrightarrow> threads (cv_block_sig st t kpri c) x = threads st x"
  "x \<noteq> t \<Longrightarrow> threads (t_block_chan st t kpri c) x = threads st x"
  by (simp_all add: cv_block_def t_block_chan_def cv_block_sig_def set_wakeable_def Let_def)

lemma cv_block_sig_wf:
  assumes "sq_wf ch st" "cvp \<noteq> 0" "\<not> ch cvp" "t_state (threads st t) \<noteq> TS_SLEEP" "length (waiters st cvp) < 65535"
  shows "sq_wf ch (cv_block_sig st t kpri cvp)"
  unfolding cv_block_sig_def using assms by (intro cv_block_refines(1)) simp_all

text \<open>A step of the table keeps a timeout to come, unless it cancels it.\<close>

lemma now_mono: "tm_step s e s' \<Longrightarrow> now s \<le> now s'"
  by (induction rule: tm_step.induct) auto

lemma armed_keeps:
  assumes "tm_step s e s'" "armed s k = Some (i, f, a, rt)"
  shows "armed s' k = Some (i, f, a, rt) \<or> e = Fired k f a rt \<and> sint rt \<le> now s \<or> e = Cancelled k i"
  using assms by (induction rule: tm_step.induct) auto


lemma phase_frame:
  assumes "phase_ok w t p" "t_state (threads (tw_slp w') t) = TS_SLEEP \<Longrightarrow> t_state (threads (tw_slp w) t) = TS_SLEEP"
    "sint (w_lbolt (tw_co w)) \<le> sint (w_lbolt (tw_co w'))" "\<And>cp tim. to_come w t cp tim \<Longrightarrow> to_come w' t cp tim"
  shows "phase_ok w' t p"
proof (cases p)
  case (Delay tim d)
  then obtain l where "t_state (threads (tw_slp w') t) \<noteq> TS_SLEEP" "sint d = sint tim - l" "0 \<le> l" "l \<le> sint (w_lbolt (tw_co w'))"
    using assms(1-3) by fastforce
  then show ?thesis using Delay by auto
qed (use assms in auto)

lemma to_come_step:
  assumes c: "to_come w t cp tim" and s: "tm_step (co_view (tw_co w)) e (co_view c')"
    and run: "tw_run w \<subseteq> run'" "\<And>a rt. e = Fired cp SETRUN a rt \<Longrightarrow> (cp, a) \<in> run'"
    and keep: "\<And>i rt. armed (co_view (tw_co w)) cp = Some (i, SETRUN, word_of_nat t, rt) \<Longrightarrow> e \<noteq> Cancelled cp i"
    and w': "tw_co w' = c'" "tw_run w' = run'"
  shows "to_come w' t cp tim"
proof -
  have m: "sint (w_lbolt (tw_co w)) \<le> sint (w_lbolt c')" using now_mono [OF s] by (simp add: co_view_def)
  consider i rt where "armed (co_view (tw_co w)) cp = Some (i, SETRUN, word_of_nat t, rt)" "sint tim \<le> sint rt"
    | "(cp, word_of_nat t) \<in> tw_run w" "sint tim \<le> sint (w_lbolt (tw_co w))"
    using c by (auto simp: to_come_def)
  then show ?thesis
  proof cases
    case 1
    then consider "armed (co_view c') cp = Some (i, SETRUN, word_of_nat t, rt)"
      | "e = Fired cp SETRUN (word_of_nat t) rt" "sint rt \<le> sint (w_lbolt (tw_co w))"
      using armed_keeps [OF s 1(1)] keep by (auto simp: co_view_def)
    then show ?thesis using 1 run(2) m w' unfolding to_come_def by cases auto
  next
    case 2
    then show ?thesis using run(1) m w' by (auto simp: to_come_def)
  qed
qed

text \<open>The invariant, for the waits that a step does not advance.\<close>

lemma tw_inv_frame:
  assumes inv: "tw_inv ch w" and "co_inv 2 (tw_co w')" "sq_wf ch (tw_slp w')" "sint (w_lbolt (tw_co w)) \<le> sint (w_lbolt (tw_co w'))"
    and same: "\<And>t p. tw_wait w' t = Some p \<Longrightarrow> t \<notin> T \<Longrightarrow> tw_wait w t = Some p \<and>
      (t_state (threads (tw_slp w') t) = TS_SLEEP \<longrightarrow> t_state (threads (tw_slp w) t) = TS_SLEEP) \<and>
      (\<forall>cp tim. to_come w t cp tim \<longrightarrow> to_come w' t cp tim)"
    and T: "\<And>t p. tw_wait w' t = Some p \<Longrightarrow> t \<in> T \<Longrightarrow> t < 2 ^ 32 \<and> phase_ok w' t p"
  shows "tw_inv ch w'"
  unfolding tw_inv_def
proof (intro conjI allI impI)
  fix t p
  assume p: "tw_wait w' t = Some p"
  have "t < 2 ^ 32 \<and> phase_ok w' t p"
  proof (cases "t \<in> T")
    case False
    then have "tw_wait w t = Some p" using same [OF p] by blast
    then have "t < 2 ^ 32" "phase_ok w t p" using inv by (auto simp: tw_inv_def)
    then show ?thesis using same [OF p False] assms(4) by (auto intro: phase_frame [of w])
  qed (use T p in blast)
  then show "t < 2 ^ 32" "phase_ok w' t p" by simp_all
qed (use assms in auto)


lemma tw_invD:
  assumes "tw_inv ch w"
  shows "co_inv 2 (tw_co w)" "sq_wf ch (tw_slp w)" "0 \<le> sint (w_lbolt (tw_co w))"
    "tw_wait w t = Some p \<Longrightarrow> t < 2 ^ 32" "tw_wait w t = Some p \<Longrightarrow> phase_ok w t p"
proof -
  show c: "co_inv 2 (tw_co w)" and "sq_wf ch (tw_slp w)" using assms by (simp_all add: tw_inv_def)
  have "0 \<le> sint (cs_curtime (w_cs (tw_co w)))" "sint (cs_curtime (w_cs (tw_co w))) \<le> sint (w_lbolt (tw_co w))"
    using c by (simp_all add: co_inv_def co_wf_def times_ok_def)
  then show "0 \<le> sint (w_lbolt (tw_co w))" by simp
  show "tw_wait w t = Some p \<Longrightarrow> t < 2 ^ 32" "tw_wait w t = Some p \<Longrightarrow> phase_ok w t p"
    using assms unfolding tw_inv_def by blast+
qed

text \<open>Steps that only touch the sleep queues, without a wait going on.\<close>

lemma tw_inv_queue:
  assumes inv: "tw_inv ch w" and "sq_wf ch st'"
    and s: "\<And>x. tw_wait w x \<noteq> None \<Longrightarrow> t_state (threads st' x) = TS_SLEEP \<Longrightarrow> t_state (threads (tw_slp w) x) = TS_SLEEP"
  shows "tw_inv ch (w\<lparr>tw_slp := st'\<rparr>)"
  by (rule tw_inv_frame [OF inv, where T = "{}"]) (use assms in \<open>auto simp: tw_inv_def to_come_def\<close>)

text \<open>Steps of the callout table.\<close>

lemma tw_inv_table:
  assumes inv: "tw_inv ch w" and co: "co_step (tw_co w) e c'" and run: "tw_run w \<subseteq> run'" "\<And>k a rt. e = Fired k SETRUN a rt \<Longrightarrow> (k, a) \<in> run'"
    and keep: "\<And>t k i rt. t \<notin> T \<Longrightarrow> t < 2 ^ 32 \<Longrightarrow> armed (co_view (tw_co w)) k = Some (i, SETRUN, word_of_nat t, rt) \<Longrightarrow> e \<noteq> Cancelled k i"
    and w': "tw_co w' = c'" "tw_run w' = run'" "tw_slp w' = tw_slp w" "\<And>t. t \<notin> T \<Longrightarrow> tw_wait w' t = tw_wait w t"
    and T: "\<And>t p. tw_wait w' t = Some p \<Longrightarrow> t \<in> T \<Longrightarrow> t < 2 ^ 32 \<and> phase_ok w' t p"
  shows "tw_inv ch w'"
proof (rule tw_inv_frame [OF inv, where T = T])
  have ci: "co_inv 2 (tw_co w)" using inv by (simp add: tw_inv_def)
  note st = co_step_sound [OF ci co]
  show "co_inv 2 (tw_co w')" using st w' by simp
  show "sq_wf ch (tw_slp w')" using inv w' by (simp add: tw_inv_def)
  show "sint (w_lbolt (tw_co w)) \<le> sint (w_lbolt (tw_co w'))" using now_mono [of "co_view (tw_co w)" e "co_view c'"] st w' by (simp add: co_view_def)
  fix t p
  assume p: "tw_wait w' t = Some p" "t \<notin> T"
  then have o: "tw_wait w t = Some p" using w' by simp
  then have "t < 2 ^ 32" using inv by (simp add: tw_inv_def)
  then have "to_come w' t cp tim" if "to_come w t cp tim" for cp tim
    by (intro to_come_step [OF that conjunct2 [OF st] run(1) _ _ w'(1,2)]) (use keep p(2) run(2) in auto)
  then show "tw_wait w t = Some p \<and> (t_state (threads (tw_slp w') t) = TS_SLEEP \<longrightarrow> t_state (threads (tw_slp w) t) = TS_SLEEP) \<and>
      (\<forall>cp tim. to_come w t cp tim \<longrightarrow> to_come w' t cp tim)" using o w' by simp
qed (use T in blast)

lemma armed_time:
  assumes "tm_step s (Armed k i f a d rt) s'"
  shows "armed s' k = Some (i, f, a, rt)" "min (now s + sint d) 2147483647 \<le> sint rt"
  using assms by (cases; simp)+

lemma tw_step_inv:
  assumes inv: "tw_inv ch w" and "tw_step ch w w'"
  shows "tw_inv ch w'"
  using assms(2)
proof cases
  case (Enter t tim)
  show ?thesis
    by (intro tw_inv_frame [OF inv, where T = "{t}"]) (use Enter tw_invD [OF inv] in \<open>auto simp: to_come_def split: if_splits\<close>)
next
  case (Compute t tim)
  have "phase_ok w t (Tested tim)" "t < 2 ^ 32" "0 \<le> sint (w_lbolt (tw_co w))"
    using tw_invD [OF inv] Compute(2) by blast+
  moreover have "sint (tim - w_lbolt (tw_co w)) = sint tim - sint (w_lbolt (tw_co w))"
    using calculation sint_in_range [of tim] sint_in_range [of "w_lbolt (tw_co w)"] by (simp add: sint32_sub)
  ultimately show ?thesis
    by (intro tw_inv_frame [OF inv, where T = "{t}"]) (use Compute tw_invD(1,2) [OF inv] in \<open>auto simp: to_come_def split: if_splits\<close>)
next
  case (Set_timeout t tim d cp cid rt c')
  have ci: "co_inv 2 (tw_co w)" using inv by (simp add: tw_inv_def)
  note a = armed_time [OF conjunct2 [OF co_step_sound [OF ci Set_timeout(3)]]]
  have p: "phase_ok w t (Delay tim d)" "t < 2 ^ 32" using tw_invD [OF inv] Set_timeout(2) by blast+
  then obtain l where l: "sint d = sint tim - l" "l \<le> sint (w_lbolt (tw_co w))" by auto
  have "sint tim \<le> sint rt" using a(2) l sint_in_range(2) [of tim] by (simp add: co_view_def)
  then have "phase_ok w' t (Set_up cp tim)" using p a(1) Set_timeout(1) by (auto simp: to_come_def)
  then show ?thesis
    by (intro tw_inv_table [OF inv Set_timeout(3), where T = "{t}" and run' = "tw_run w"]) (use Set_timeout(1) p in auto)
next
  case (Block t cp tim cvp block kpri)
  have p: "phase_ok w t (Set_up cp tim)" "t < 2 ^ 32" and wf: "sq_wf ch (tw_slp w)" using tw_invD [OF inv] Block(2) by blast+
  then have "sq_wf ch (block (tw_slp w) t kpri cvp)" and o: "x \<noteq> t \<Longrightarrow> threads (block (tw_slp w) t kpri cvp) x = threads (tw_slp w) x" for x
    using Block(3-6) cv_block_refines(1) [OF wf] cv_block_sig_wf [OF wf] block_others(1,2) by auto
  then show ?thesis
    by (intro tw_inv_frame [OF inv, where T = "{t}"]) (use Block(1) p tw_invD(1,2) [OF inv] in \<open>auto simp: to_come_def o split: if_splits\<close>)
next
  case (Go_on t cp tim)
  have "phase_ok w t (Set_up cp tim)" "t < 2 ^ 32" using tw_invD [OF inv] Go_on(2) by blast+
  then show ?thesis
    by (intro tw_inv_frame [OF inv, where T = "{t}"]) (use Go_on(1) tw_invD(1,2) [OF inv] in \<open>auto simp: to_come_def split: if_splits\<close>)
next
  case (Check t cp tim sig0 st')
  have p: "phase_ok w t (Blocked cp tim)" "t < 2 ^ 32" and wf: "sq_wf ch (tw_slp w)" using tw_invD [OF inv] Check(2) by blast+
  show ?thesis
  proof (cases "sig0 \<or> sint tim \<le> sint (w_lbolt (tw_co w))")
    case True
    then have s: "setrun (tw_slp w) t = Ret st'" using Check(3) by (simp add: cv_timedwait_check_def)
    note k = setrun_keeps [OF wf s]
    show ?thesis by (intro tw_inv_frame [OF inv, where T = "{t}"]) (use Check(1) p k tw_invD(1,2) [OF inv] in \<open>auto simp: to_come_def split: if_splits\<close>)
  next
    case False
    then have "st' = tw_slp w" "to_come w t cp tim" using Check(3) p(1) by (auto simp: cv_timedwait_check_def)
    then show ?thesis by (intro tw_inv_frame [OF inv, where T = "{t}"]) (use Check(1) p tw_invD(1,2) [OF inv] in \<open>auto simp: to_come_def split: if_splits\<close>)
  qed
next
  case (Leave t cp tim e c')
  have "t < 2 ^ 32" using tw_invD [OF inv] Leave(2) by blast
  then show ?thesis
    by (intro tw_inv_table [OF inv Leave(4), where T = "{t}" and run' = "tw_run w"])
      (use Leave(1,5,6) word_of_nat_thread in \<open>auto, blast?\<close>)
next
  case (Callouts e c')
  then show ?thesis by (intro tw_inv_table [OF inv Callouts(2), where T = "{}" and run' = "tw_run w"]) auto
next
  case (Timeout k a rt c')
  then show ?thesis by (intro tw_inv_table [OF inv Timeout(2), where T = "{}" and run' = "insert (k, a) (tw_run w)"]) auto
next
  case (Setrun k a st')
  note s = setrun_keeps [OF tw_invD(2) [OF inv] Setrun(3)]
  have c: "to_come w' t cp tim" if "to_come w t cp tim" "t \<noteq> unat a" "t < 2 ^ 32" for t cp tim
  proof -
    have "(word_of_nat t :: ulong) \<noteq> a" using that(2) unat_thread [OF that(3)] by auto
    then show ?thesis using that(1) Setrun(1) by (auto simp: to_come_def)
  qed
  have p: "phase_ok w' t p" if o: "phase_ok w t p" and t: "t = unat a" for t p
  proof -
    have "to_come w' t cp tim \<or> sint tim \<le> sint (w_lbolt (tw_co w))" if "to_come w t cp tim" for cp tim
      using that Setrun(1) by (auto simp: to_come_def)
    moreover have "t_state (threads (tw_slp w') t) \<noteq> TS_SLEEP" "tw_co w' = tw_co w" using s(2) t Setrun(1) by simp_all
    ultimately show ?thesis using o by (cases p) auto
  qed
  show ?thesis
  proof (rule tw_inv_frame [OF inv, where T = "{unat a}"])
    fix t q
    assume w: "tw_wait w' t = Some q"
    then have o: "tw_wait w t = Some q" using Setrun(1) by simp
    note d = tw_invD(4,5) [OF inv o]
    show "t < 2 ^ 32 \<and> phase_ok w' t q" if "t \<in> {unat a}" using d p that by blast
    show "tw_wait w t = Some q \<and> (t_state (threads (tw_slp w') t) = TS_SLEEP \<longrightarrow> t_state (threads (tw_slp w) t) = TS_SLEEP) \<and>
        (\<forall>cp tim. to_come w t cp tim \<longrightarrow> to_come w' t cp tim)" if "t \<notin> {unat a}"
      using that o c [OF _ _ d(1)] s(3) Setrun(1) by auto
  qed (use Setrun(1) s(1) tw_invD(1) [OF inv] in auto)
next
  case (Signal cvp)
  note r = cv_signal_refines [OF tw_invD(2) [OF inv] Signal(2,3)]
  show ?thesis unfolding Signal(1) by (rule tw_inv_queue [OF inv r(1)]) (auto simp: r(4) split: if_splits)
next
  case (Broadcast cvp)
  note r = cv_broadcast_refines [OF tw_invD(2) [OF inv] Broadcast(2,3)]
  show ?thesis unfolding Broadcast(1) by (rule tw_inv_queue [OF inv r(1)]) (auto simp: r(4) split: if_splits)
next
  case (Wakeup chan)
  note r = t_release_all_chan_refines [OF tw_invD(2) [OF inv] Wakeup(2,3), folded wakeup_def]
  show ?thesis unfolding Wakeup(1) by (rule tw_inv_queue [OF inv r(1)]) (auto simp: r(4) split: if_splits)
next
  case (Signalled t st')
  note r = setrun_keeps [OF tw_invD(2) [OF inv] Signalled(2)]
  show ?thesis unfolding Signalled(1) by (rule tw_inv_queue [OF inv r(1)]) (use r(2,3) in metis)
next
  case (Sleep_other t cvp kpri)
  show ?thesis unfolding Sleep_other(1)
    by (rule tw_inv_queue [OF inv cv_block_refines(1) [OF tw_invD(2) [OF inv] Sleep_other(3-6)]]) (use Sleep_other(2) block_others(1) in metis)
next
  case (Sleep_chan t chan kpri)
  show ?thesis unfolding Sleep_chan(1)
    by (rule tw_inv_queue [OF inv t_block_chan_refines(1) [OF tw_invD(2) [OF inv] Sleep_chan(3-5)]]) (use Sleep_chan(2) block_others(3) in metis)
qed


definition tw_init :: tw_world where
  "tw_init = \<lparr>tw_co = co_start True, tw_slp = all_awake, tw_wait = (\<lambda>_. None), tw_run = {}\<rparr>"

lemma tw_reach_inv: "(tw_step ch)\<^sup>*\<^sup>* tw_init w \<Longrightarrow> tw_inv ch w"
proof (induction rule: rtranclp_induct)
  case base
  show ?case using co_start_inv(1) [of True] all_awake_wf by (simp add: tw_inv_def tw_init_def table_no_def)
qed (rule tw_step_inv)

text \<open>A first history: thread 4 waits for time 3 and sleeps.\<close>

lemma first_wait:
  assumes ch: "\<not> ch 64"
  shows "\<exists>w cp. (tw_step ch)\<^sup>*\<^sup>* tw_init w \<and> tw_wait w 4 = Some (Waiting cp 3) \<and> t_state (threads (tw_slp w) 4) = TS_SLEEP \<and> w_lbolt (tw_co w) = 0"
proof -
  let ?c = "co_start True" and ?w = tw_init
  have f: "cs_freelist (w_cs ?c) = []" "cs_ncallout (w_cs ?c) = 0" "w_lbolt ?c = 0"
    by (simp_all add: co_start_def callout_init_def callout_setup_def zero_state_def)
  obtain cp cs0 where g: "get_struct (w_cs ?c) True = Ret (cp, cs0)" using f by (simp add: get_struct_def callout_alloc_def)
  have wf: "co_wf 2 (w_cs ?c)" using co_start_inv(1) [of True] by (simp add: co_inv_def table_no_def)
  have nn: "cs_freelist (w_cs ?c) = [] \<longrightarrow> cs_ncallout (w_cs ?c) + 1 \<noteq> 0" and room: "cs_freelist (w_cs ?c) = [] \<longrightarrow> True \<and> cs_ncallout (w_cs ?c) + 1 \<noteq> 0"
    using f by simp_all
  obtain cid cs' where i: "callout_insert (w_cs ?c) (w_lbolt ?c) False True SETRUN (word_of_nat 4) 3 = Ret (cid, cs')"
    using insert_effect [OF wf room, of "w_lbolt ?c" False SETRUN "word_of_nat 4" 3] by metis
  note e = co_step.Insert [OF g nn i]
  let ?w1 = "?w\<lparr>tw_wait := [4 \<mapsto> Tested 3]\<rparr>" and ?w2 = "?w\<lparr>tw_wait := [4 \<mapsto> Delay 3 3]\<rparr>"
  let ?w3 = "?w\<lparr>tw_co := ?c\<lparr>w_cs := cs'\<rparr>, tw_wait := [4 \<mapsto> Set_up cp 3]\<rparr>"
  let ?s = "cv_block all_awake 4 50 64"
  let ?w4 = "?w3\<lparr>tw_slp := ?s, tw_wait := [4 \<mapsto> Blocked cp 3]\<rparr>" and ?w5 = "?w3\<lparr>tw_slp := ?s, tw_wait := [4 \<mapsto> Waiting cp 3]\<rparr>"
  have a: "t_state (threads all_awake 4) \<noteq> TS_SLEEP" "waiters all_awake 64 = []" "t_state (threads ?s 4) = TS_SLEEP"
    by (simp_all add: all_awake_def waiters_def cv_block_def Let_def)
  have "tw_step ch ?w ?w1" using tw_step.Enter [of ?w 4 3 ch] a f by (simp add: tw_init_def)
  moreover have "tw_step ch ?w1 ?w2" using tw_step.Compute [of ?w1 4 3 ch] f by (simp add: tw_init_def)
  moreover have "tw_step ch ?w2 ?w3" using tw_step.Set_timeout [of ?w2 4 3 3] e by (simp add: tw_init_def)
  moreover have "tw_step ch ?w3 ?w4" using tw_step.Block [of ?w3 4 cp 3 64 ch cv_block 50] ch a by (simp add: tw_init_def)
  moreover have "tw_step ch ?w4 ?w5" using tw_step.Check [of ?w4 4 cp 3 False ?s ch] f by (simp add: tw_init_def cv_timedwait_check_def)
  ultimately have "(tw_step ch)\<^sup>*\<^sup>* ?w ?w5" by (meson converse_rtranclp_into_rtranclp rtranclp.rtrancl_refl)
  then show ?thesis using a f by (intro exI [of _ ?w5] exI [of _ cp]) (simp add: tw_init_def)
qed

text \<open>
  C39 (timedwait_not_lost). In every interleaving of timed waits with the clock, the callouts and other users
  of condition variables, a thread that sleeps in a timed wait, past the test behind \<open>cv_block\<close>, has
  not lost its timeout, even if the clock reached its time before the thread slept: the callout that
  will run it is still pending, for a time not before the one asked for, or its function has been
  called, at or after that time, and is about to make the thread run.
\<close>

theorem timedwait_not_lost:
  assumes "(tw_step ch)\<^sup>*\<^sup>* tw_init w" "tw_wait w t = Some (Waiting cp tim)" "t_state (threads (tw_slp w) t) = TS_SLEEP"
  shows "(\<exists>i r. pend (w_cs (tw_co w)) cp = Some (i, SETRUN, word_of_nat t, r) \<and> sint tim \<le> sint r) \<or>
    (cp, word_of_nat t) \<in> tw_run w \<and> sint tim \<le> sint (w_lbolt (tw_co w))"
  using tw_invD(5) [OF tw_reach_inv [OF assms(1)] assms(2)] assms(3) by (simp add: to_come_def co_view_def)

theorem timedwait_not_lost_witness:
  "\<exists>w cp i r. (tw_step chan128)\<^sup>*\<^sup>* tw_init w \<and> tw_wait w 4 = Some (Waiting cp 3) \<and> t_state (threads (tw_slp w) 4) = TS_SLEEP \<and>
     pend (w_cs (tw_co w)) cp = Some (i, SETRUN, word_of_nat 4, r) \<and> 3 \<le> sint r"
proof -
  obtain w cp where w: "(tw_step chan128)\<^sup>*\<^sup>* tw_init w" "tw_wait w 4 = Some (Waiting cp 3)" "t_state (threads (tw_slp w) 4) = TS_SLEEP" "w_lbolt (tw_co w) = 0"
    using first_wait [of chan128] by auto
  then show ?thesis using timedwait_not_lost [OF w(1-3)] by auto
qed

end
