(* ===== verification/Spec2Isabelle.thy ===== *)
theory Spec2Isabelle
  imports Rmap Sem_Props Msg_Props Xdr_Props Rpc_Props Timedwait
begin

text \<open>
  \<^bold>\<open>Parts of the Solaris 2.5 kernel: System V inter-process communication, sleeping and
  timeouts, and remote procedure call messages.\<close>

  All source paths are below \<open>src/uts/common\<close> unless they start with \<open>sparc\<close>, which is below
  \<open>src/uts\<close>.

  \<^bold>\<open>The program.\<close> Three subsystems of the kernel are verified, from the system call or message down to the
  data structures they rest on.

  \<^item> The semaphore and message system calls (\<open>syscall/sem.c\<close>, \<open>os/msg.c\<close>). Both keep a table of objects
    that processes find by key or identifier, with permissions (\<open>os/ipc.c\<close>, \<open>os/cred.c\<close>), and both
    allocate from resource maps (\<open>os/rmap.c\<close>): semaphores of a set, undo structures, segments of the
    message buffer. Processes that must wait sleep on condition variables (\<open>sparc/os/condvar.c\<close>) in the
    hashed sleep queues (\<open>os/sleepq.c\<close>), which they share with the sleep channels of older drivers
    (\<open>os/slp.c\<close>, \<open>os/tblock_chan.c\<close>).
  \<^item> The callout table (\<open>os/callout.c\<close>, \<open>sys/callo.h\<close>): \<open>timeout\<close>, \<open>realtime_timeout\<close> and \<open>untimeout\<close>,
    the search of the clock for due callouts on each tick, and the threads and the soft interrupt that
    call the functions. Timed waits on condition variables are built on it.
  \<^item> External data representation (\<open>rpc/xdr.c\<close>, \<open>rpc/xdr_array.c\<close>, \<open>rpc/xdr_refer.c\<close>, \<open>rpc/xdr_mem.c\<close>)
    and the call and reply messages of remote procedure calls on top of it (\<open>rpc/rpc_prot.c\<close>,
    \<open>rpc/rpc_calmsg.c\<close>).

  \<^bold>\<open>Conventions.\<close> \<open>Kernel_Prelude\<close> has the machine types of the 32-bit kernel as words, so that all
  arithmetic wraps as in the source; \<open>kres\<close>, the outcome of a routine: a result, a panic, or \<open>Fault\<close>
  for an access outside the object or through a null pointer, an unaligned load or store, and a wrong
  release of memory; and \<open>ctx\<close>, what a system call takes from its process. User memory is an argument
  of the functions that copy from it. A state is a record with the source's tables in it, a pointer
  into a table is an index. Error numbers are values of a sum type. Names are those of the source;
  where one C function is several definitions, these are named after it.

  \<^bold>\<open>Theories.\<close>

  \<^item> \<open>Resource_Map\<close> states what an allocator of address ranges promises, as a locale over the set of
    free addresses. \<open>Rmap\<close> models \<open>os/rmap.c\<close> on the array of segments with the shift loops of the
    source (\<open>rmalloc_scan\<close>, \<open>squeeze\<close>, \<open>rmfree_left\<close>, \<open>rmfree_push\<close>, \<open>rmget_scan\<close>, \<open>rmalloc_wait\<close>)
    and interprets the locale: allocation is first fit, releasing coalesces, the overflow case loses
    the smaller of the last two segments only, panics happen exactly for bad arguments.
  \<^item> \<open>Ipc\<close> models \<open>ipcaccess\<close>, \<open>ipcget\<close> and the credential tests, and relates the search loops to a
    specification by first matching and first free entry.
  \<^item> \<open>Sleepq\<close> models threads and the sleep queues (\<open>os/sleepq.c\<close>), \<open>Condvar\<close> the operations of condition
    variables and of sleep channels (\<open>os/tblock_chan.c\<close>) and \<open>setrun\<close>: although all of them share hashed
    queues, each behaves as a priority queue of its own. The contract \<open>cond_vars\<close> of such an object is
    interpreted for both kinds. \<open>Sleep\<close> models the waits of \<open>condvar.c\<close> and \<open>os/slp.c\<close> with \<open>sleep\<close> and
    \<open>wakeup\<close>, up to the switch to another thread and from there. \<open>Timedwait\<close> models the timed waits,
    on condition variables and the callout table together, and a step relation in which the clock,
    callouts and other threads come between any two parts of them.
  \<^item> \<open>Undo_Log\<close> is the contract of a table of undo entries, \<open>Sem_Undo\<close> the model of the undo structures
    of \<open>sem.c\<close> (\<open>semaoe\<close>, \<open>semunrm\<close>, \<open>semexit\<close>'s list) and its interpretation. \<open>Sem\<close> models the
    system calls; every access to the tables of sets and of semaphores faults outside them.
    \<open>Sem_Pass\<close> relates the passes of \<open>semop\<close> to total functions and shows that they are atomic,
    \<open>Sem_Inv\<close> has the invariant and its preservation, \<open>Sem_Props\<close> the claims. The invariant comes in
    two strengths: \<open>sem_tables\<close>, the tables alone, is kept by every call with any identifier;
    \<open>sem_wf\<close> says besides that undo entries refer to live sets, and a call with a negative identifier,
    which names the same set as the identifier without the sign, breaks that.
  \<^item> \<open>Msg\<close> models the message facility on linked headers, the buffer and its map. A call that sleeps
    returns so, and \<open>msgrcv_resume\<close>, \<open>msgsnd_resume\<close> and the functions for interrupted waits continue
    it. \<open>Msg_Inv\<close> has the invariant, with the queues as lists; \<open>Msg_Rcv\<close>, \<open>Msg_Snd\<close>, \<open>Msg_Ctl\<close> the
    effect of the operations on those lists; \<open>Msg_Steps\<close> a step relation of processes that call,
    sleep, wake up and are interrupted, in any order; \<open>Msg_Props\<close> the claims.
  \<^item> \<open>Xdr\<close> models the filters and the memory streams. A filter takes and returns its object and the
    stream handle; the operations vector is a record of functions. A filter that is called through a
    pointer gets the third argument \<open>LASTUNSIGNED\<close>, as in the source. \<open>Xdr_Codec\<close> has two contracts, of a
    stream (\<open>xdr_stream\<close>) and of a filter (\<open>xdr_codec\<close>: encoding, decoding, decoding of arbitrary
    input, freeing); \<open>Xdr_Filters\<close> shows the second for every filter on every stream, arrays and
    pointers over any element that has it; \<open>Xdr_Mem\<close> shows the first for memory streams;
    \<open>Xdr_Props\<close> has the claims.
  \<^item> \<open>Rpc_Msg\<close> models the messages with both paths of their filters: direct work in the buffer that
    \<open>XDR_INLINE\<close> gives, and the filters of \<open>xdr.c\<close>. The union of \<open>rpc_err\<close> is two words shared by its
    arms; the arms of the unions in messages are fields of their own. \<open>Rpc_Codec\<close> extends the stream contract by
    \<open>XDR_INLINE\<close> (\<open>xdr_inline_stream\<close>) and has parsers on byte lists as the specification of decoding;
    \<open>Rpc_Call\<close> shows that decoding calls follows the parser, \<open>Rpc_Encode\<close> what the encoder of calls
    writes, \<open>Rpc_Reply\<close> both for replies; \<open>Rpc_Props\<close> interprets the contract for memory streams and
    has the claims.

  \<^item> \<open>Timer_Spec\<close> is the specification of a timer service as a step relation with events, and the contract
    \<open>timer_service\<close> of an implementation: each step is a step of the specification. The promises on
    histories of events are proved from it. \<open>Callout\<close> models \<open>os/callout.c\<close> with its hash buckets, free
    list and identifiers; \<open>callout_execute\<close> returns where the source calls a function without the lock,
    and \<open>callout_return\<close> continues behind the call. \<open>callout_delete\<close> returns where the source waits for
    a function to end, \<open>callout_delete_again\<close> is the loop around that wait, and \<open>Relock\<close> the point where
    the lock of the unsafe drivers, which is not part of the state, is taken again. \<open>Callout_Inv\<close> has the invariant \<open>co_wf\<close> and the map
    of pending callouts \<open>pend\<close>, \<open>Callout_Run\<close> the effect of the operations and that the loops end,
    \<open>Callout_Steps\<close> the step relation of clock, threads and callers and the interpretation of the
    contract, \<open>Callout_Props\<close> the claims.

  \<^bold>\<open>What is shown.\<close> For each component: an invariant that its operations keep, with no panic and no
  fault reachable from it; what each operation does to an abstract view of the state (the set of free
  addresses, semaphore values and undo sums, queues as lists of typed messages, bytes on a stream);
  that failing or sleeping operations change nothing; round trips (allocate and free, send and receive,
  set and get, encode and decode); that identifiers of removed objects are refused by every call; no lost wakeup of
  receivers under any interleaving; timeouts that are called once, not early, in order, and not after
  they were cancelled, under any interleaving of threads; cancelling that waits while the function
  runs; timed waits that do not lose their timeout when it comes before the thread sleeps, and that
  return the ticks left. Some theorems show errors of the source: a fault of \<open>rmfree\<close> on a
  map with one slot, sleeping senders that \<open>IPC_SET\<close> does not wake, the wrapping size in \<open>xdr_array\<close>,
  verifiers of unsuccessful replies that are not freed, version mismatches that clients report as
  general failures with two statuses in the place of the versions, the search of the clock that does not
  end at the largest time, and identifiers of timeouts that are given twice after a resume.

  \<^bold>\<open>Bounds and fuel.\<close> Loops over arrays are recursive over them and need no fuel. Loops along linked
  headers (\<open>msgrcv_scan\<close>, \<open>msgfree_all\<close>) have the length of the header table as fuel and fault when it
  runs out; the invariant says that the headers of a queue are distinct, so it never does, and the
  claims show that the operations return. The undo sums are compared as integers as long as the limit
  \<open>semaem\<close> is below a third of $2^{16}$, where the 16-bit arithmetic of \<open>semaoe\<close> is exact; the number of
  entries of an undo structure is exact for limits \<open>semume\<close> up to 32767. Lengths on
  streams are below $2^{31}$, as \<open>x_handy\<close> is a signed integer. The loops of \<open>callout_schedule\<close> and
  \<open>callout_execute\<close> are partial functions, with \<open>None\<close> for a loop without end; the step relation lets
  the clock run up to one tick before its largest value, where they are shown to end.

  \<^bold>\<open>Interleaving.\<close> The message facility holds one lock over a whole call between two sleeps, so a call
  is one step. The semaphore calls hold the lock of a set; they are modelled as single steps with the
  sleep as an outcome. \<open>rmalloc_wait\<close> gives up the map while it sleeps and is modelled up to there and
  from there. The callout table holds its lock except around the call of a function and in the wait of
  \<open>untimeout\<close>; each piece between is one step. The functions called may do any steps in between.

  \<^bold>\<open>Not modelled.\<close> The 2.6 million lines of the source are mostly drivers, file systems, networking,
  virtual memory and commands, which are left aside. Next in order would be XDR streams on message blocks
  (\<open>rpc/xdr_mblk.c\<close>), which give the stream contract a second instance. Of the modelled files, the parts left out are module linkage, statistics,
  tracing and auditing calls. The slots of the undo table and of the pool of undo structures are not
  checked for their bounds: they come from the kernel itself, not from a caller. Signals are arguments of the waits that they can end. The reuse of sequence numbers of identifiers after many generations is as in the source.
\<close>

end
